(* ===== verification/Etii_Prelude.thy ===== *)
theory Etii_Prelude
  imports Main "HOL-Library.Word" "HOL-Library.Multiset"
begin

text \<open>
  Shared material of the eternityII development: the machine types of the C
  sources, the board geometry (the compile-time constants \<open>ETERN_SIZE\<close>,
  \<open>ETERN_PARTS\<close> and \<open>FACES_USED_SIZE\<close> of \<open>core_static_variables.h\<close>), the
  collections of rewrite rules the components fill, and the generic lemmas on
  lists and bits that several components use.
\<close>

unbundle bit_operations_syntax

type_synonym u8 = "8 word"
type_synonym u16 = "16 word"
type_synonym u32 = "32 word"
type_synonym u64 = "64 word"

named_theorems face_simps \<open>reading and writing the used-piece masks\<close>
named_theorems bit_plane_simps \<open>bits of byte buffers\<close>
named_theorems board_simps \<open>reading and writing cells of a board\<close>
named_theorems bucket_simps \<open>candidate compartments of the lookup table\<close>

section \<open>Geometry of the board\<close>

text \<open>
  The board side is a compile-time constant of the program. Every definition
  takes it as its first argument \<open>n\<close>; \<open>ETERN_PARTS\<close> is then \<open>n * n\<close>. Only the
  sizes of the preprocessor's enumeration compile.
\<close>

abbreviation ETERN_PARTS :: "nat \<Rightarrow> nat" where
  "ETERN_PARTS n \<equiv> n * n"

definition ETERN_SIZE_supported :: "nat \<Rightarrow> bool" where
  "ETERN_SIZE_supported n \<longleftrightarrow> n \<in> {4, 8, 10, 12, 14, 16}"

definition FACES_USED_SIZE :: "nat \<Rightarrow> nat" where
  "FACES_USED_SIZE n = ETERN_PARTS n div 16 + 1"

text \<open>The two-dimensional C array \<open>grid[x][y]\<close> is row-major; \<open>cell_pos\<close> is the
  offset \<open>x * ETERN_SIZE + y\<close> (\<open>BT_CELL_POS\<close>).\<close>

definition cell_pos :: "nat \<Rightarrow> nat \<Rightarrow> nat \<Rightarrow> nat" where
  "cell_pos n x y = x * n + y"

lemma cell_pos_less [board_simps]: "x < n \<Longrightarrow> y < n \<Longrightarrow> cell_pos n x y < n * n"
proof -
  assume "x < n" "y < n"
  then have "x * n + y < x * n + n" by simp
  also have "\<dots> = (x + 1) * n" by simp
  also have "\<dots> \<le> n * n" using \<open>x < n\<close> by (intro mult_right_mono) auto
  finally show ?thesis by (simp add: cell_pos_def)
qed

lemma cell_pos_div [simp]: "y < n \<Longrightarrow> cell_pos n x y div n = x"
  by (simp add: cell_pos_def)

lemma cell_pos_mod [simp]: "y < n \<Longrightarrow> cell_pos n x y mod n = y"
  by (simp add: cell_pos_def)

lemma cell_pos_inject:
  "y < n \<Longrightarrow> y' < n \<Longrightarrow> cell_pos n x y = cell_pos n x' y' \<longleftrightarrow> x = x' \<and> y = y'"
  by (metis cell_pos_div cell_pos_mod)

lemma cell_pos_div_mod [simp]: "cell_pos n (c div n) (c mod n) = c"
  by (simp add: cell_pos_def)

lemma cell_less_divmod: "c < n * n \<Longrightarrow> c div n < n \<and> c mod n < (n::nat)"
  by (metis less_mult_imp_div_less mod_less_divisor mult_is_0 not_less0 gr0I)

text \<open>The nested loops over \<open>x\<close> and \<open>y\<close> visit the cells in row-major order.\<close>

lemma fold_cells: "fold (\<lambda>x. fold (\<lambda>y. f (cell_pos n x y)) [0..<n]) [0..<m] = fold f [0..<m * n]"
proof (induction m)
  case (Suc m)
  have "fold (\<lambda>y. f (cell_pos n m y)) [0..<n] = fold f (map (\<lambda>y. cell_pos n m y) [0..<n])"
    by (simp add: fold_map comp_def)
  also have "map (\<lambda>y. cell_pos n m y) [0..<n] = [m * n..<Suc m * n]"
    by (intro nth_equalityI) (simp_all add: cell_pos_def)
  finally have "fold f [0..<Suc m * n] = fold (\<lambda>y. f (cell_pos n m y)) [0..<n] \<circ> fold f [0..<m * n]"
    using upt_add_eq_append[of 0 "m * n" n] by (simp add: add.commute)
  then show ?case using Suc by (simp add: fun_eq_iff)
qed simp

lemma fold_count: "fold (\<lambda>x k. if P x then k + 1 else k) xs k = k + length (filter P xs)" for k :: nat
  by (induction xs arbitrary: k) auto

lemma filter_upt_nth: "length (filter (\<lambda>c. P (xs ! c)) [0..<length xs]) = length (filter P xs)"
proof -
  have "filter P xs = map ((!) xs) (filter (P \<circ> (!) xs) [0..<length xs])"
    by (metis filter_map map_nth)
  then show ?thesis by (simp add: comp_def)
qed

section \<open>Lists\<close>

lemma length_filter_take_Suc:
  "i < length xs \<Longrightarrow>
   length (filter P (take (Suc i) xs)) = length (filter P (take i xs)) + (if P (xs ! i) then 1 else 0)"
  by (simp add: take_Suc_conv_app_nth)

lemma length_filter_take_less:
  "i < length xs \<Longrightarrow> P (xs ! i) \<Longrightarrow> length (filter P (take i xs)) < length (filter P xs)"
proof -
  assume i: "i < length xs" and P: "P (xs ! i)"
  have "xs = take i xs @ xs ! i # drop (Suc i) xs"
    using i by (rule id_take_nth_drop)
  then have "filter P xs = filter P (take i xs) @ xs ! i # filter P (drop (Suc i) xs)"
    using P by (metis filter.simps(2) filter_append)
  then show ?thesis by simp
qed

lemma filter_nth_rank:
  "i < length xs \<Longrightarrow> P (xs ! i) \<Longrightarrow> filter P xs ! length (filter P (take i xs)) = xs ! i"
proof -
  assume i: "i < length xs" and P: "P (xs ! i)"
  have "xs = take i xs @ xs ! i # drop (Suc i) xs"
    using i by (rule id_take_nth_drop)
  then have "filter P xs = filter P (take i xs) @ xs ! i # filter P (drop (Suc i) xs)"
    using P by (metis filter.simps(2) filter_append)
  then show ?thesis by (simp add: nth_append)
qed

section \<open>Bits\<close>

lemma bit_unat_word [simp]: "bit (unat (w :: 'a::len word)) i = bit w i"
  by transfer (auto simp: bit_simps)

lemma bit_of_nat_word [simp]: "bit (of_nat v :: 'a::len word) i \<longleftrightarrow> i < LENGTH('a) \<and> bit v i"
  by (simp add: bit_of_nat_iff)

lemma nat_eqI_bits: "(\<And>i. bit (a::nat) i = bit b i) \<Longrightarrow> a = b"
  by (simp add: bit_eq_iff)

lemma bit_nat_less_exp: "(v::nat) < 2 ^ w \<Longrightarrow> bit v i \<Longrightarrow> i < w"
  by (metis bit_take_bit_iff take_bit_nat_eq_self)

lemma bit_two_pow_word [simp]: "bit (2 ^ k :: 'a::len word) i \<longleftrightarrow> i = k \<and> k < LENGTH('a)"
  by (auto simp: bit_exp_iff)

lemma bit_one_word [simp]: "bit (1 :: 'a::len word) i \<longleftrightarrow> i = 0"
  by (auto simp: bit_1_iff)

end
