(* ===== verification/Face_Used.thy ===== *)
theory Face_Used
  imports Etii_Prelude
begin

text \<open>
  The masks of placed pieces. \<open>possibility.h\<close> packs one bit per piece into the
  \<open>FACES_USED_SIZE\<close> half-words of \<open>b_faceused\<close>; the search engine
  (\<open>etii_search.c\<close>) keeps a second copy of the same set in 64-bit words
  (\<open>used\<close>) that it can intersect with the compartment masks. Both are
  implementations of one interface, a set of piece positions \<open>0..cap - 1\<close>
  (locale \<open>piece_set\<close>), and \<open>mrv_mirror\<close> is the invariant that ties the two.
\<close>

section \<open>The interface\<close>

locale piece_set =
  fixes mem :: "'m \<Rightarrow> nat \<Rightarrow> bool"
    and ins :: "'m \<Rightarrow> nat \<Rightarrow> 'm"
    and del :: "'m \<Rightarrow> nat \<Rightarrow> 'm"
    and cap :: "'m \<Rightarrow> nat"
  assumes mem_ins: "p < cap m \<Longrightarrow> mem (ins m p) q \<longleftrightarrow> q = p \<or> mem m q"
    and mem_del: "p < cap m \<Longrightarrow> mem (del m p) q \<longleftrightarrow> q \<noteq> p \<and> mem m q"
    and cap_ins: "cap (ins m p) = cap m"
    and cap_del: "cap (del m p) = cap m"
    and ext: "cap m = cap m' \<Longrightarrow> (\<And>q. q < cap m \<Longrightarrow> mem m q = mem m' q) \<Longrightarrow> m = m'"
begin

lemma del_ins_restores:
  assumes "p < cap m" and "\<not> mem m p"
  shows "del (ins m p) p = m"
  by (rule ext) (use assms in \<open>auto simp: mem_ins mem_del cap_ins cap_del\<close>)

lemma ins_commute: "p < cap m \<Longrightarrow> q < cap m \<Longrightarrow> ins (ins m p) q = ins (ins m q) p"
  by (rule ext) (auto simp: mem_ins cap_ins)

lemma ins_mem_idem: "p < cap m \<Longrightarrow> mem m p \<Longrightarrow> ins m p = m"
  by (rule ext) (auto simp: mem_ins cap_ins)

end

section \<open>The half-word mask of a packet\<close>

definition set_face_used :: "u16 list \<Rightarrow> nat \<Rightarrow> nat \<Rightarrow> u16 list" where
  "set_face_used faceused part boolean =
     (let groupe = drop_bit 4 part;
          number = faceused ! groupe;
          k = part - push_bit 4 groupe
      in faceused[groupe := (number AND NOT (push_bit k 1)) OR push_bit k (of_nat boolean)])"

definition is_face_used :: "u16 list \<Rightarrow> nat \<Rightarrow> bool" where
  "is_face_used faceused part =
     (let groupe = drop_bit 4 part
      in drop_bit (part - push_bit 4 groupe) (faceused ! groupe) AND 1 = 1)"

lemma group_offset [simp]: "part - push_bit 4 (part div 16) = part mod (16::nat)"
proof -
  have "part - 16 * (part div 16) = part mod 16"
    by (simp add: modulo_nat_def mult.commute)
  then show ?thesis by (simp add: push_bit_eq_mult mult.commute)
qed

lemma and_one_iff_bit: "(w :: 'a::len word) AND 1 = 1 \<longleftrightarrow> bit w 0"
  by (simp add: and_one_eq bit_0 odd_iff_mod_2_eq_one)

lemma is_face_used_bit: "is_face_used fu p \<longleftrightarrow> bit (fu ! (p div 16)) (p mod 16)"
  by (simp add: is_face_used_def Let_def drop_bit_eq_div[of 4] and_one_iff_bit bit_drop_bit_eq)

lemma length_set_face_used [simp, face_simps]: "length (set_face_used fu p b) = length fu"
  by (simp add: set_face_used_def Let_def)

lemma group_less: "p < 16 * m \<Longrightarrow> p div 16 < (m::nat)"
  by (simp add: less_mult_imp_div_less mult.commute)

lemma is_face_used_set [face_simps]:
  assumes p: "p < 16 * length fu" and b: "b \<le> 1"
  shows "is_face_used (set_face_used fu p b) q = (if q = p then b = 1 else is_face_used fu q)"
proof (cases "q div 16 = p div 16")
  case True
  have lt: "p div 16 < length fu" using p by (rule group_less)
  have "q = p \<longleftrightarrow> q mod 16 = p mod 16"
    using True by (metis div_mult_mod_eq)
  moreover have "bit (push_bit (p mod 16) (of_nat b :: u16)) (q mod 16)
      \<longleftrightarrow> q mod 16 = p mod 16 \<and> b = 1"
    using b by (cases "b = 0") (auto simp: bit_push_bit_iff le_Suc_eq)
  moreover have "bit (push_bit (p mod 16) (1 :: u16)) (q mod 16) \<longleftrightarrow> q mod 16 = p mod 16"
    by (auto simp: bit_push_bit_iff)
  ultimately show ?thesis
    using True lt
    by (auto simp: is_face_used_bit set_face_used_def Let_def drop_bit_eq_div[of 4]
        bit_or_iff bit_and_iff bit_not_iff)
next
  case False
  then show ?thesis
    by (auto simp: is_face_used_bit set_face_used_def Let_def drop_bit_eq_div[of 4])
qed

lemma face_used_ext:
  assumes len: "length fu = length gu"
    and eq: "\<And>q. q < 16 * length fu \<Longrightarrow> is_face_used fu q = is_face_used gu q"
  shows "fu = gu"
proof (rule nth_equalityI[OF len])
  fix g assume g: "g < length fu"
  show "fu ! g = gu ! g"
  proof (rule bit_word_eqI)
    fix k assume k: "k < LENGTH(16)"
    then have "16 * g + k < 16 * length fu" using g by simp
    from eq[OF this] show "bit (fu ! g) k = bit (gu ! g) k"
      using k by (simp add: is_face_used_bit)
  qed
qed

interpretation halfword: piece_set is_face_used
  "\<lambda>fu p. set_face_used fu p 1" "\<lambda>fu p. set_face_used fu p 0" "\<lambda>fu. 16 * length fu"
  by unfold_locales (auto simp: is_face_used_set intro: face_used_ext)

lemma is_face_used_replicate [simp]: "p < 16 * m \<Longrightarrow> \<not> is_face_used (replicate m 0) p"
  by (simp add: is_face_used_bit group_less)

section \<open>The 64-bit mirror of the engine\<close>

definition MRV_USED_WORDS :: "nat \<Rightarrow> nat" where
  "MRV_USED_WORDS n = (FACES_USED_SIZE n + 3) div 4"

definition mrv_used_init :: "nat \<Rightarrow> u16 list \<Rightarrow> u64 list" where
  "mrv_used_init n b_faceused =
     fold (\<lambda>g used. used[g div 4 := used ! (g div 4)
              OR push_bit ((g mod 4) * 16) (ucast (b_faceused ! g))])
       [0..<FACES_USED_SIZE n] (replicate (MRV_USED_WORDS n) 0)"

definition mrv_used_set :: "u64 list \<Rightarrow> nat \<Rightarrow> u64 list" where
  "mrv_used_set used position =
     used[position div 64 := used ! (position div 64) OR push_bit (position mod 64) 1]"

definition mrv_used_clear :: "u64 list \<Rightarrow> nat \<Rightarrow> u64 list" where
  "mrv_used_clear used position =
     used[position div 64 := used ! (position div 64) AND NOT (push_bit (position mod 64) 1)]"

definition used_bit :: "u64 list \<Rightarrow> nat \<Rightarrow> bool" where
  "used_bit used p \<longleftrightarrow> bit (used ! (p div 64)) (p mod 64)"

lemma length_mrv_used [simp]:
  "length (mrv_used_set used p) = length used"
  "length (mrv_used_clear used p) = length used"
  by (simp_all add: mrv_used_set_def mrv_used_clear_def)

lemma group64_less: "p < 64 * m \<Longrightarrow> p div 64 < (m::nat)"
  by (simp add: less_mult_imp_div_less mult.commute)

lemma used_bit_set [face_simps]:
  assumes p: "p < 64 * length used"
  shows "used_bit (mrv_used_set used p) q \<longleftrightarrow> q = p \<or> used_bit used q"
proof (cases "q div 64 = p div 64")
  case True
  have "q = p \<longleftrightarrow> q mod 64 = p mod 64" using True by (metis div_mult_mod_eq)
  then show ?thesis using True group64_less[OF p]
    by (auto simp: used_bit_def mrv_used_set_def bit_or_iff bit_push_bit_iff)
qed (auto simp: used_bit_def mrv_used_set_def)

lemma used_bit_clear [face_simps]:
  assumes p: "p < 64 * length used"
  shows "used_bit (mrv_used_clear used p) q \<longleftrightarrow> q \<noteq> p \<and> used_bit used q"
proof (cases "q div 64 = p div 64")
  case True
  have "q = p \<longleftrightarrow> q mod 64 = p mod 64" using True by (metis div_mult_mod_eq)
  then show ?thesis using True group64_less[OF p]
    by (auto simp: used_bit_def mrv_used_clear_def bit_and_iff bit_not_iff bit_push_bit_iff)
qed (auto simp: used_bit_def mrv_used_clear_def)

lemma used_ext:
  assumes len: "length u = length w"
    and eq: "\<And>q. q < 64 * length u \<Longrightarrow> used_bit u q = used_bit w q"
  shows "u = w"
proof (rule nth_equalityI[OF len])
  fix g assume g: "g < length u"
  show "u ! g = w ! g"
  proof (rule bit_word_eqI)
    fix k assume k: "k < LENGTH(64)"
    then have "64 * g + k < 64 * length u" using g by simp
    from eq[OF this] show "bit (u ! g) k = bit (w ! g) k"
      using k by (simp add: used_bit_def)
  qed
qed

interpretation mirror: piece_set used_bit mrv_used_set mrv_used_clear "\<lambda>u. 64 * length u"
  by unfold_locales (auto simp: face_simps intro: used_ext)

definition mrv_mirror :: "nat \<Rightarrow> u64 list \<Rightarrow> u16 list \<Rightarrow> bool" where
  "mrv_mirror n used fu \<longleftrightarrow>
     length used = MRV_USED_WORDS n \<and> length fu = FACES_USED_SIZE n \<and>
     (\<forall>p < 16 * FACES_USED_SIZE n. used_bit used p = is_face_used fu p)"

lemma mrv_used_init_fold:
  assumes "g \<le> 4 * W"
  shows "length (fold (\<lambda>g used. used[g div 4 := used ! (g div 4)
              OR push_bit ((g mod 4) * 16) (ucast (fu ! g))]) [0..<g] (replicate W (0::u64))) = W \<and>
    (\<forall>p < 64 * W. used_bit (fold (\<lambda>g used. used[g div 4 := used ! (g div 4)
              OR push_bit ((g mod 4) * 16) (ucast (fu ! g))]) [0..<g] (replicate W 0)) p
        \<longleftrightarrow> p < 16 * g \<and> bit ((fu :: u16 list) ! (p div 16)) (p mod 16))"
  using assms
proof (induction g)
  case 0
  then show ?case by (auto simp: used_bit_def group64_less)
next
  case (Suc g)
  let ?f = "\<lambda>g used. used[g div 4 := used ! (g div 4)
              OR push_bit ((g mod 4) * 16) (ucast (fu ! g))] :: u64 list"
  let ?u = "fold ?f [0..<g] (replicate W 0)"
  from Suc have len: "length ?u = W"
    and IH: "\<And>p. p < 64 * W \<Longrightarrow> used_bit ?u p \<longleftrightarrow> p < 16 * g \<and> bit (fu ! (p div 16)) (p mod 16)"
    by auto
  have gW: "g div 4 < W" using Suc.prems by auto
  have "used_bit (?f g ?u) p \<longleftrightarrow> p < 16 * Suc g \<and> bit (fu ! (p div 16)) (p mod 16)"
    if p: "p < 64 * W" for p
  proof (cases "p div 64 = g div 4")
    case True
    then have pos: "p div 16 div 4 = g div 4" by (simp add: div_mult2_eq[symmetric])
    have pm: "p mod 64 = 16 * (p div 16 mod 4) + p mod 16"
      by (metis add.commute mod_mult2_eq mult_numeral_left_semiring_numeral
          num_double mod_mult2_eq[of p 16 4] numeral_times_numeral)
    have "bit (push_bit (g mod 4 * 16) (ucast (fu ! g)) :: u64) (p mod 64)
      \<longleftrightarrow> p div 16 = g \<and> bit (fu ! g) (p mod 16)"
    proof (cases "p div 16 mod 4 = g mod 4")
      case True
      then have "p div 16 = g" using pos by (metis div_mult_mod_eq)
      moreover have "p mod 16 < 16" by simp
      ultimately show ?thesis using pm True
        by (auto simp: bit_push_bit_iff bit_ucast_iff mult.commute)
    next
      case False
      have "\<not> (g mod 4 * 16 \<le> p mod 64 \<and> p mod 64 - g mod 4 * 16 < 16)"
      proof
        assume a: "g mod 4 * 16 \<le> p mod 64 \<and> p mod 64 - g mod 4 * 16 < 16"
        then have "p mod 64 div 16 = g mod 4" by (intro div_nat_eqI) auto
        then show False using False pm by simp
      qed
      then show ?thesis using False
        by (auto simp: bit_push_bit_iff bit_ucast_iff dest!: bit_imp_le_length)
    qed
    moreover have "used_bit (?f g ?u) p \<longleftrightarrow> used_bit ?u p
       \<or> bit (push_bit (g mod 4 * 16) (ucast (fu ! g)) :: u64) (p mod 64)"
      using True gW len by (simp add: used_bit_def bit_or_iff)
    moreover have "p < 16 * Suc g \<longleftrightarrow> p < 16 * g \<or> p div 16 = g" by auto
    ultimately show ?thesis using IH[OF p] by auto
  next
    case False
    then have "p div 16 \<noteq> g" by (auto simp: div_mult2_eq[symmetric])
    moreover have "p < 16 * Suc g \<longleftrightarrow> p < 16 * g \<or> p div 16 = g" by auto
    moreover have "used_bit (?f g ?u) p = used_bit ?u p"
      using False by (simp add: used_bit_def)
    ultimately show ?thesis using IH[OF p] by simp
  qed
  then show ?case using len by simp
qed

lemma mrv_used_init_mirror:
  assumes "length fu = FACES_USED_SIZE n"
  shows "mrv_mirror n (mrv_used_init n fu) fu"
proof -
  have "FACES_USED_SIZE n \<le> 4 * MRV_USED_WORDS n" by (simp add: MRV_USED_WORDS_def)
  from mrv_used_init_fold[OF this, of fu] this show ?thesis using assms
    by (auto simp: mrv_mirror_def mrv_used_init_def is_face_used_bit)
qed

lemma mrv_mirror_cap: "mrv_mirror n used fu \<Longrightarrow> p < 16 * length fu \<Longrightarrow> p < 64 * length used"
  by (auto simp: mrv_mirror_def MRV_USED_WORDS_def)

lemma mrv_mirror_set:
  "mrv_mirror n used fu \<Longrightarrow> p < 16 * length fu \<Longrightarrow>
   mrv_mirror n (mrv_used_set used p) (set_face_used fu p 1)"
  using mrv_mirror_cap[of n used fu p] by (auto simp: mrv_mirror_def face_simps)

lemma mrv_mirror_clear:
  "mrv_mirror n used fu \<Longrightarrow> p < 16 * length fu \<Longrightarrow>
   mrv_mirror n (mrv_used_clear used p) (set_face_used fu p 0)"
  using mrv_mirror_cap[of n used fu p] by (auto simp: mrv_mirror_def face_simps)

section \<open>Properties\<close>

text \<open>The 64-bit mask of the engine mirrors the half-word mask of the board from its
  initialisation on, and placing then removing a piece that was free restores both masks exactly.\<close>

lemma mrv_mirror_lifecycle:
  assumes "length fu = FACES_USED_SIZE n" "p < 16 * length fu" "\<not> is_face_used fu p"
  shows "mrv_mirror n (mrv_used_init n fu) fu
     \<and> mrv_mirror n (mrv_used_set (mrv_used_init n fu) p) (set_face_used fu p 1)
     \<and> mrv_used_clear (mrv_used_set (mrv_used_init n fu) p) p = mrv_used_init n fu
     \<and> set_face_used (set_face_used fu p 1) p 0 = fu"
proof -
  have m: "mrv_mirror n (mrv_used_init n fu) fu" using assms(1) by (rule mrv_used_init_mirror)
  have cap: "p < 64 * length (mrv_used_init n fu)" using mrv_mirror_cap[OF m assms(2)] .
  have "\<not> used_bit (mrv_used_init n fu) p" using m assms by (simp add: mrv_mirror_def)
  from mirror.del_ins_restores[OF cap this] halfword.del_ins_restores[OF assms(2,3)]
  show ?thesis using m mrv_mirror_set[OF m assms(2)] by simp
qed

end
