(* ===== verification/Parts.thy ===== *)
theory Parts
  imports Face_Used
begin

text \<open>
  Puzzle pieces (\<open>part.c\<close>, first half): the piece record, its quarter turns,
  the table of all rotations, the face filters and the ordering of a candidate
  compartment. An \<open>array_part\<close> is the list of its \<open>size\<close> entries; the signed
  bytes of the source (faces, rotation) and the 16-bit identifier are integers.
\<close>

section \<open>Data\<close>

record part =
  p_id :: int
  p_top :: int
  p_right :: int
  p_bottom :: int
  p_left :: int
  p_rotation :: int

record key_part =
  k1 :: int
  k2 :: int
  k3 :: int
  k4 :: int

datatype side = PART_TOP | PART_RIGHT | PART_BOTTOM | PART_LEFT | PART_NONE

definition FACE_UNKNOW :: int where "FACE_UNKNOW = -1"

text \<open>The plug entry that \<open>calloc\<close> leaves at index 0.\<close>

definition zero_part :: part where
  "zero_part = \<lparr>p_id = 0, p_top = 0, p_right = 0, p_bottom = 0, p_left = 0, p_rotation = 0\<rparr>"

section \<open>Rotations\<close>

definition quarter_turn :: "part \<Rightarrow> part" where
  "quarter_turn p = p\<lparr>p_left := p_bottom p, p_bottom := p_right p, p_right := p_top p, p_top := p_left p\<rparr>"

definition rotatePart :: "part \<Rightarrow> int \<Rightarrow> part" where
  "rotatePart p nbRotate =
     (let tour = (if nbRotate \<ge> 4 then nbRotate mod 4 else nbRotate)
      in (quarter_turn ^^ nat tour) (p\<lparr>p_rotation := tour\<rparr>))"

definition id_for_rotated_part :: "nat \<Rightarrow> int \<Rightarrow> int \<Rightarrow> int" where
  "id_for_rotated_part n pid rotated_position =
     (pid + int (ETERN_PARTS n) * rotated_position) mod 2 ^ 16"

text \<open>
  \<open>rotate_all_parts\<close> writes rotation \<open>r\<close> of piece \<open>i\<close> at index
  \<open>i + ETERN_PARTS * r\<close> of a zeroed block of \<open>size * 4 + 5\<close> entries. A write past
  the block or a read past the source is undefined behaviour: \<open>None\<close>.
\<close>

definition rotate_store :: "nat \<Rightarrow> part list \<Rightarrow> nat \<Rightarrow> int \<Rightarrow> part list option \<Rightarrow> part list option" where
  "rotate_store n apart i r buf =
     (case buf of None \<Rightarrow> None
      | Some b \<Rightarrow>
        (let position = i + ETERN_PARTS n * nat r
         in if i < length apart \<and> position < length b
            then Some (b[position := rotatePart (apart ! i) r]) else None))"

definition rotate_piece :: "nat \<Rightarrow> part list \<Rightarrow> nat \<Rightarrow> part list option \<Rightarrow> part list option" where
  "rotate_piece n apart i = fold (rotate_store n apart i) [0, 1, 2, 3]"

definition rotate_all_parts :: "nat \<Rightarrow> nat \<Rightarrow> part list \<Rightarrow> part list option" where
  "rotate_all_parts n sz apart =
     map_option (take (sz * 4 + 1))
       (fold (rotate_piece n apart) [1..<sz + 1]
         (Some (replicate (sz * 4 + 1 + 4) zero_part)))"

section \<open>Faces\<close>

definition max_face_step :: "part \<Rightarrow> int \<Rightarrow> int" where
  "max_face_step p maxface =
     (let m1 = (if p_top p > maxface then p_top p else maxface);
          m2 = (if p_right p > m1 then p_right p else m1);
          m3 = (if p_bottom p > m2 then p_bottom p else m2)
      in if p_left p > m3 then p_left p else m3)"

definition search_max_face :: "part list \<Rightarrow> int" where
  "search_max_face apart = fold max_face_step apart 0"

definition face_present :: "int \<Rightarrow> side \<Rightarrow> part \<Rightarrow> bool" where
  "face_present face position p =
     (if (position = PART_TOP \<or> position = PART_NONE)
         \<and> (p_top p = face \<or> (face = FACE_UNKNOW \<and> p_top p \<noteq> 0)) then True
      else if (position = PART_RIGHT \<or> position = PART_NONE)
         \<and> (p_right p = face \<or> (face = FACE_UNKNOW \<and> p_right p \<noteq> 0)) then True
      else if (position = PART_BOTTOM \<or> position = PART_NONE)
         \<and> (p_bottom p = face \<or> (face = FACE_UNKNOW \<and> p_bottom p \<noteq> 0)) then True
      else if (position = PART_LEFT \<or> position = PART_NONE)
         \<and> (p_left p = face \<or> (face = FACE_UNKNOW \<and> p_left p \<noteq> 0)) then True
      else False)"

text \<open>\<open>search_face\<close> collects the matching pieces in a linked list, in array order,
  and copies it into a fresh array.\<close>

fun search_face :: "part list \<Rightarrow> int \<Rightarrow> side \<Rightarrow> part list" where
  "search_face [] face position = []"
| "search_face (p # ps) face position =
     (if face_present face position p then p # search_face ps face position
      else search_face ps face position)"

definition bump_face :: "int \<Rightarrow> int \<Rightarrow> int list \<Rightarrow> int list" where
  "bump_face maxFace f freq =
     (if f \<ge> 0 \<and> f \<le> maxFace then freq[nat f := freq ! nat f + 1] else freq)"

definition compute_face_frequency :: "part list \<Rightarrow> int \<Rightarrow> int list option" where
  "compute_face_frequency apart maxFace =
     (if maxFace < 0 then None
      else Some (fold (\<lambda>p freq. bump_face maxFace (p_left p) (bump_face maxFace (p_bottom p)
                   (bump_face maxFace (p_right p) (bump_face maxFace (p_top p) freq))))
             apart (replicate (nat maxFace + 1) 0)))"

definition exposed :: "int list \<Rightarrow> int \<Rightarrow> int \<Rightarrow> int \<Rightarrow> int" where
  "exposed freq maxFace f face =
     (if f = -1 \<and> face \<ge> 0 \<and> face \<le> maxFace then freq ! nat face else 0)"

definition arena_exposed_score :: "part \<Rightarrow> int \<Rightarrow> int \<Rightarrow> int \<Rightarrow> int \<Rightarrow> int list \<Rightarrow> int \<Rightarrow> int" where
  "arena_exposed_score p f1 f2 f3 f4 freq maxFace =
     exposed freq maxFace f1 (p_top p) + exposed freq maxFace f2 (p_right p)
     + exposed freq maxFace f3 (p_bottom p) + exposed freq maxFace f4 (p_left p)"

section \<open>Ordering a compartment\<close>

text \<open>
  The insertion sort of \<open>sort_compartment_by_exposed_rarity\<close>: the sorted prefix is
  kept reversed, so that the inner loop (\<open>j = i - 1\<close> downwards while
  \<open>scores[j] > moving_score\<close>) walks it from its head. Entries carry their score.
\<close>

fun shift_insert :: "(int \<times> 'a) \<Rightarrow> (int \<times> 'a) list \<Rightarrow> (int \<times> 'a) list" where
  "shift_insert mv [] = [mv]"
| "shift_insert mv (e # pre) = (if fst e > fst mv then e # shift_insert mv pre else mv # e # pre)"

definition insertion_pass :: "(int \<times> 'a) list \<Rightarrow> (int \<times> 'a) list" where
  "insertion_pass es = rev (fold shift_insert es [])"

definition sort_compartment_by_exposed_rarity ::
  "part list \<Rightarrow> int \<Rightarrow> int \<Rightarrow> int \<Rightarrow> int \<Rightarrow> int list option \<Rightarrow> int \<Rightarrow> part list" where
  "sort_compartment_by_exposed_rarity ps f1 f2 f3 f4 freq maxFace =
     (case freq of None \<Rightarrow> ps
      | Some fr \<Rightarrow> if length ps < 2 then ps
          else map snd (insertion_pass
                 (map (\<lambda>p. (arena_exposed_score p f1 f2 f3 f4 fr maxFace, p)) ps)))"

section \<open>Properties of rotation\<close>

lemma quarter_turn_four [simp]: "quarter_turn (quarter_turn (quarter_turn (quarter_turn p))) = p"
  by (simp add: quarter_turn_def)

lemma rotatePart_simps [simp]:
  "rotatePart p 0 = p\<lparr>p_rotation := 0\<rparr>"
  "rotatePart p 1 = quarter_turn (p\<lparr>p_rotation := 1\<rparr>)"
  "rotatePart p 2 = quarter_turn (quarter_turn (p\<lparr>p_rotation := 2\<rparr>))"
  "rotatePart p 3 = quarter_turn (quarter_turn (quarter_turn (p\<lparr>p_rotation := 3\<rparr>)))"
  by (simp_all add: rotatePart_def numeral_2_eq_2 numeral_3_eq_3)

lemma rotatePart_mod: "0 \<le> r \<Longrightarrow> rotatePart p r = rotatePart p (r mod 4)"
  by (simp add: rotatePart_def Let_def)

lemma rotatePart_id [simp]: "p_id (rotatePart p r) = p_id p"
proof -
  have "p_id ((quarter_turn ^^ k) q) = p_id q" for k q
    by (induction k) (simp_all add: quarter_turn_def)
  then show ?thesis by (simp add: rotatePart_def Let_def)
qed

lemma rotatePart_rotation: "0 \<le> r \<Longrightarrow> p_rotation (rotatePart p r) = r mod 4"
proof -
  have "p_rotation ((quarter_turn ^^ k) q) = p_rotation q" for k q
    by (induction k) (simp_all add: quarter_turn_def)
  then show "0 \<le> r \<Longrightarrow> ?thesis" by (simp add: rotatePart_def Let_def)
qed

definition faces_mset :: "part \<Rightarrow> int multiset" where
  "faces_mset p = {#p_top p, p_right p, p_bottom p, p_left p#}"

lemma faces_mset_rotatePart: "faces_mset (rotatePart p r) = faces_mset p"
proof -
  have "faces_mset ((quarter_turn ^^ k) q) = faces_mset q" for k q
    by (induction k) (simp_all add: quarter_turn_def faces_mset_def add_mset_commute)
  then show ?thesis by (simp add: rotatePart_def Let_def faces_mset_def)
qed

lemma fold_rotate_store:
  assumes "i < length apart" and "i + 3 * (n * n) < length b" and "0 < n * n"
  shows "\<exists>b'. rotate_piece n apart i (Some b) = Some b' \<and> length b' = length b \<and>
    (\<forall>j < length b. b' ! j =
       (if \<exists>r<4. j = i + n * n * r then rotatePart (apart ! i) (int ((j - i) div (n * n))) else b ! j))"
proof -
  let ?R = "\<lambda>r. rotatePart (apart ! i) r"
  let ?b = "((((b[i := ?R 0])[i + n * n := ?R 1])[i + n * n * 2 := ?R 2])[i + n * n * 3 := ?R 3])"
  have eq: "rotate_piece n apart i (Some b) = Some ?b"
    using assms by (simp add: rotate_piece_def rotate_store_def mult.commute)
  have nth: "?b ! j = (if \<exists>r<4. j = i + n * n * r then ?R (int ((j - i) div (n * n))) else b ! j)"
    if j: "j < length b" for j
  proof (cases "\<exists>r<4. j = i + n * n * r")
    case True
    then obtain r where r: "r < 4" "j = i + n * n * r" by blast
    then consider "r = 0" | "r = 1" | "r = 2" | "r = 3" by linarith
    then show ?thesis
      using assms r j by cases (auto simp: nth_list_update)
  next
    case False
    then have "\<forall>r<4. j \<noteq> i + n * n * r" by blast
    from this[rule_format, of 0] this[rule_format, of 1] this[rule_format, of 2] this[rule_format, of 3]
    have "j \<noteq> i" "j \<noteq> i + n * n" "j \<noteq> i + n * n * 2" "j \<noteq> i + n * n * 3" by simp_all
    then show ?thesis using False by (simp only: if_False nth_list_update_neq)
  qed
  have "length ?b = length b" by simp
  with eq nth show ?thesis by blast
qed

lemma rotated_index_iff:
  assumes "1 \<le> i" "i \<le> (N::nat)"
  shows "(\<exists>r<4. j = i + N * r) \<longleftrightarrow> 1 \<le> j \<and> j \<le> 4 * N \<and> (j - 1) mod N + 1 = i"
proof
  assume "\<exists>r<4. j = i + N * r"
  then obtain r where r: "r < 4" "j = i + N * r" by blast
  have "j - 1 = (i - 1) + N * r" using r assms by simp
  moreover have "((i - 1) + N * r) mod N = i - 1"
    using assms by (simp only: mod_mult_self2) simp
  ultimately have "(j - 1) mod N = i - 1" by (simp only:)
  moreover have "j \<le> N + N * 3" using r assms mult_le_mono2[of r 3 N] by linarith
  ultimately show "1 \<le> j \<and> j \<le> 4 * N \<and> (j - 1) mod N + 1 = i" using r assms by simp
next
  assume a: "1 \<le> j \<and> j \<le> 4 * N \<and> (j - 1) mod N + 1 = i"
  then have "j = i + N * ((j - 1) div N)"
    using div_mult_mod_eq[of "j - 1" N] by (simp only: mult.commute[of N]) linarith
  moreover have "(j - 1) div N < 4" using a by (intro less_mult_imp_div_less) linarith
  ultimately show "\<exists>r<4. j = i + N * r" by blast
qed

lemma rotate_all_parts_fold:
  assumes "k \<le> n * n" "length apart = n * n + 1" "0 < n"
  shows "\<exists>b. fold (rotate_piece n apart) [1..<k + 1]
            (Some (replicate (n * n * 4 + 1 + 4) zero_part)) = Some b \<and> length b = n * n * 4 + 5 \<and>
    (\<forall>j < n * n * 4 + 5. b ! j = (if 1 \<le> j \<and> j \<le> 4 * (n * n) \<and> (j - 1) mod (n * n) + 1 \<le> k
        then rotatePart (apart ! ((j - 1) mod (n * n) + 1)) (int ((j - 1) div (n * n))) else zero_part))"
  using assms(1)
proof (induction k)
  case 0
  then show ?case by simp
next
  case (Suc k)
  let ?N = "n * n"
  let ?F = "rotate_piece n apart"
  from Suc obtain b where b: "fold ?F [1..<k + 1] (Some (replicate (?N * 4 + 1 + 4) zero_part)) = Some b"
    and lb: "length b = ?N * 4 + 5"
    and nb: "\<And>j. j < ?N * 4 + 5 \<Longrightarrow> b ! j = (if 1 \<le> j \<and> j \<le> 4 * ?N \<and> (j - 1) mod ?N + 1 \<le> k
        then rotatePart (apart ! ((j - 1) mod ?N + 1)) (int ((j - 1) div ?N)) else zero_part)"
    by (auto simp del: upt_Suc)
  have i: "Suc k < length apart" "Suc k + 3 * ?N < length b" "0 < ?N"
    using Suc.prems assms lb by auto
  from fold_rotate_store[OF i] obtain b' where b': "?F (Suc k) (Some b) = Some b'"
    and lb': "length b' = length b"
    and nb': "\<And>j. j < length b \<Longrightarrow> b' ! j = (if \<exists>r<4. j = Suc k + ?N * r
        then rotatePart (apart ! Suc k) (int ((j - Suc k) div ?N)) else b ! j)" by blast
  have "[1..<Suc k + 1] = [1..<k + 1] @ [Suc k]" by simp
  then have fold: "fold ?F [1..<Suc k + 1] (Some (replicate (?N * 4 + 1 + 4) zero_part)) = Some b'"
    using b b' by (simp only: fold_append comp_apply fold.simps id_apply)
  have "b' ! j = (if 1 \<le> j \<and> j \<le> 4 * ?N \<and> (j - 1) mod ?N + 1 \<le> Suc k
        then rotatePart (apart ! ((j - 1) mod ?N + 1)) (int ((j - 1) div ?N)) else zero_part)"
    if j: "j < ?N * 4 + 5" for j
  proof (cases "\<exists>r<4. j = Suc k + ?N * r")
    case True
    then have c: "1 \<le> j" "j \<le> 4 * ?N" "(j - 1) mod ?N + 1 = Suc k"
      using rotated_index_iff[of "Suc k" ?N j] Suc.prems by auto
    then have "(j - Suc k) div ?N = (j - 1) div ?N"
      using div_mult_mod_eq[of "j - 1" ?N] i(3) by (metis Suc_eq_plus1 add_diff_cancel_right' diff_Suc_eq_diff_pred
          diff_diff_left div_mult_self_is_m plus_1_eq_Suc)
    then show ?thesis using nb'[of j] True c j lb by simp
  next
    case False
    then have "\<not> (1 \<le> j \<and> j \<le> 4 * ?N \<and> (j - 1) mod ?N + 1 = Suc k)"
      using rotated_index_iff[of "Suc k" ?N j] Suc.prems by auto
    then show ?thesis using nb'[of j] nb[of j] False j lb by (auto simp: le_Suc_eq)
  qed
  then show ?case using fold lb lb' by auto
qed

text \<open>With as many pieces as cells no write leaves the block, index 0 keeps the plug,
  and rotation \<open>r\<close> of piece \<open>i\<close> is at \<open>i + ETERN_PARTS * r\<close>.\<close>

lemma rotate_all_parts_complete:
  assumes "length apart = n * n + 1" "0 < n"
  obtains R where "rotate_all_parts n (n * n) apart = Some R" and "length R = 4 * (n * n) + 1"
    and "R ! 0 = zero_part"
    and "\<forall>j. 1 \<le> j \<longrightarrow> j \<le> 4 * (n * n) \<longrightarrow>
           R ! j = rotatePart (apart ! ((j - 1) mod (n * n) + 1)) (int ((j - 1) div (n * n)))"
proof -
  from rotate_all_parts_fold[OF order_refl assms] obtain b where
    b: "fold (rotate_piece n apart) [1..<n * n + 1]
            (Some (replicate (n * n * 4 + 1 + 4) zero_part)) = Some b" "length b = n * n * 4 + 5"
    and nb: "\<forall>j < n * n * 4 + 5. b ! j = (if 1 \<le> j \<and> j \<le> 4 * (n * n) \<and> (j - 1) mod (n * n) + 1 \<le> n * n
        then rotatePart (apart ! ((j - 1) mod (n * n) + 1)) (int ((j - 1) div (n * n))) else zero_part)"
    by blast
  have le: "(j - 1) mod (n * n) + 1 \<le> n * n" for j
    using assms(2) by (simp add: Suc_leI)
  show ?thesis
    by (rule that[of "take (n * n * 4 + 1) b"])
      (use b nb le in \<open>auto simp: rotate_all_parts_def\<close>)
qed

section \<open>Properties of the filters and of the ordering\<close>

lemma search_face_filter [bucket_simps]: "search_face ps f pos = filter (face_present f pos) ps"
  by (induction ps) auto

lemma max_face_step_ge:
  "m \<le> max_face_step p m" "p_top p \<le> max_face_step p m" "p_right p \<le> max_face_step p m"
  "p_bottom p \<le> max_face_step p m" "p_left p \<le> max_face_step p m"
  by (auto simp: max_face_step_def Let_def)

lemma fold_max_face_ge: "m \<le> fold max_face_step ps m"
  by (induction ps arbitrary: m) (auto intro: order_trans[OF max_face_step_ge(1)])

lemma search_max_face_nonneg: "0 \<le> search_max_face ps"
  unfolding search_max_face_def by (rule fold_max_face_ge)

lemma search_max_face_bound:
  assumes "p \<in> set ps"
  shows "p_top p \<le> search_max_face ps" "p_right p \<le> search_max_face ps"
    "p_bottom p \<le> search_max_face ps" "p_left p \<le> search_max_face ps"
proof -
  obtain us vs where ps: "ps = us @ p # vs" using assms by (meson split_list)
  have "max_face_step p (fold max_face_step us 0) \<le> search_max_face ps"
    unfolding search_max_face_def ps by (simp add: fold_max_face_ge)
  from order_trans[OF max_face_step_ge(2) this] order_trans[OF max_face_step_ge(3) this]
    order_trans[OF max_face_step_ge(4) this] order_trans[OF max_face_step_ge(5) this]
  show "p_top p \<le> search_max_face ps" "p_right p \<le> search_max_face ps"
    "p_bottom p \<le> search_max_face ps" "p_left p \<le> search_max_face ps" .
qed

lemma mset_shift_insert: "mset (shift_insert mv pre) = add_mset mv (mset pre)"
  by (induction pre) auto

lemma sorted_shift_insert:
  "sorted_wrt (\<lambda>x y. fst y \<le> fst x) pre \<Longrightarrow> sorted_wrt (\<lambda>x y. fst y \<le> fst x) (shift_insert mv pre)"
proof (induction pre)
  case (Cons e pre)
  have "set (shift_insert mv pre) = insert mv (set pre)"
    by (metis mset_shift_insert set_mset_add_mset_insert set_mset_mset)
  with Cons show ?case by fastforce
qed simp

lemma filter_shift_insert:
  "filter (\<lambda>x. k = fst x) (shift_insert mv pre) =
     (if k = fst mv then mv # filter (\<lambda>x. k = fst x) pre else filter (\<lambda>x. k = fst x) pre)"
  by (induction pre) auto

lemma fold_shift_insert:
  "mset (fold shift_insert es acc) = mset es + mset acc"
  "sorted_wrt (\<lambda>x y. fst y \<le> fst x) acc \<Longrightarrow> sorted_wrt (\<lambda>x y. fst y \<le> fst x) (fold shift_insert es acc)"
  "filter (\<lambda>x. k = fst x) (fold shift_insert es acc) =
     rev (filter (\<lambda>x. k = fst x) es) @ filter (\<lambda>x. k = fst x) acc"
  by (induction es arbitrary: acc)
    (auto simp: mset_shift_insert sorted_shift_insert filter_shift_insert)

text \<open>The in-place insertion sort is the stable sort of the library.\<close>

lemma insertion_pass_sort_key: "insertion_pass es = sort_key fst es"
proof (rule sym, rule properties_for_sort_key)
  show "mset (insertion_pass es) = mset es"
    by (simp add: insertion_pass_def fold_shift_insert(1))
  show "filter (\<lambda>x. fst k = fst x) (insertion_pass es) = filter (\<lambda>x. fst k = fst x) es" for k
    by (simp add: insertion_pass_def rev_filter[symmetric] fold_shift_insert(3))
  show "sorted (map fst (insertion_pass es))"
    using fold_shift_insert(2)[of "[]" es]
    by (simp add: insertion_pass_def sorted_map sorted_wrt_rev)
qed

lemma map_snd_sort_key_pairs: "map snd (sort_key fst (map (\<lambda>p. (f p, p)) ps)) = sort_key f ps"
proof (rule sym, rule properties_for_sort_key)
  let ?s = "sort_key fst (map (\<lambda>p. (f p, p)) ps)"
  have fst: "\<forall>e \<in> set ?s. fst e = f (snd e)" by auto
  show "mset (map snd ?s) = mset ps"
    by (simp add: image_mset.compositionality comp_def)
  show "sorted (map f (map snd ?s))"
    using fst by (metis (no_types, lifting) map_map map_eq_conv comp_apply sorted_sort_key)
  fix k
  have "filter (\<lambda>x. f k = f x) (map snd ?s) = map snd (filter (\<lambda>e. f k = fst e) ?s)"
    using fst unfolding filter_map comp_def by (intro arg_cong[where f = "map snd"] filter_cong) auto
  also have "filter (\<lambda>e. f k = fst e) ?s = filter (\<lambda>e. f k = fst e) (map (\<lambda>p. (f p, p)) ps)"
    using sort_key_stable[of fst "f k" "map (\<lambda>p. (f p, p)) ps"] by (simp add: eq_commute)
  also have "map snd \<dots> = filter (\<lambda>x. f k = f x) ps"
    by (simp add: filter_map comp_def)
  finally show "filter (\<lambda>x. f k = f x) (map snd ?s) = filter (\<lambda>x. f k = f x) ps" .
qed

lemma sort_key_short: "length ps < 2 \<Longrightarrow> sort_key f ps = ps"
  by (cases ps; cases "tl ps") auto

lemma sort_compartment_stable:
  "sort_compartment_by_exposed_rarity ps f1 f2 f3 f4 (Some fr) maxFace =
     sort_key (\<lambda>p. arena_exposed_score p f1 f2 f3 f4 fr maxFace) ps"
  by (simp add: sort_compartment_by_exposed_rarity_def insertion_pass_sort_key
      map_snd_sort_key_pairs sort_key_short)

lemma mset_sort_compartment [bucket_simps]:
  "mset (sort_compartment_by_exposed_rarity ps f1 f2 f3 f4 freq maxFace) = mset ps"
  by (cases freq) (simp_all add: sort_compartment_stable, simp add: sort_compartment_by_exposed_rarity_def)

section \<open>Properties of the component\<close>

text \<open>With as many pieces as cells, \<open>rotate_all_parts\<close> stays inside its block and files, for every
  piece and every quarter turn, the turned piece at index \<open>id + ETERN_PARTS * rotation\<close>: the identifier
  is kept, the rotation recorded, and the four faces are those of the piece.\<close>

lemma rotate_all_parts_correct:
  assumes "length apart = n * n + 1" "0 < n"
  shows "\<exists>R. rotate_all_parts n (n * n) apart = Some R \<and> length R = 4 * (n * n) + 1 \<and> R ! 0 = zero_part
     \<and> (\<forall>i \<in> {1..n * n}. \<forall>r < 4.
          R ! (i + n * n * r) = rotatePart (apart ! i) (int r)
          \<and> p_id (R ! (i + n * n * r)) = p_id (apart ! i)
          \<and> p_rotation (R ! (i + n * n * r)) = int r
          \<and> faces_mset (R ! (i + n * n * r)) = faces_mset (apart ! i))"
proof -
  obtain R where R: "rotate_all_parts n (n * n) apart = Some R" "length R = 4 * (n * n) + 1" "R ! 0 = zero_part"
    and nth: "\<forall>j. 1 \<le> j \<longrightarrow> j \<le> 4 * (n * n) \<longrightarrow>
           R ! j = rotatePart (apart ! ((j - 1) mod (n * n) + 1)) (int ((j - 1) div (n * n)))"
    by (rule rotate_all_parts_complete[OF assms])
  have "R ! (i + n * n * r) = rotatePart (apart ! i) (int r)" if i: "i \<in> {1..n * n}" and r: "r < 4" for i r
  proof -
    have j: "i + n * n * r - 1 = (i - 1) + n * n * r" "i - 1 < n * n" using i by auto
    have "((i - 1) + n * n * r) mod (n * n) = i - 1" "((i - 1) + n * n * r) div (n * n) = r"
      using j(2) by (simp_all only: mod_mult_self2 div_mult_self2[OF gr_implies_not0[OF j(2)]] mod_less div_less)
    then have dm: "(i + n * n * r - 1) mod (n * n) + 1 = i" "(i + n * n * r - 1) div (n * n) = r"
      using i unfolding j(1) atLeastAtMost_iff by linarith+
    have "n * n * r \<le> n * n * 3" using r by (intro mult_le_mono2) simp
    then have "1 \<le> i + n * n * r" "i + n * n * r \<le> 4 * (n * n)" using i unfolding atLeastAtMost_iff by linarith+
    from nth[rule_format, OF this] show ?thesis unfolding dm .
  qed
  then show ?thesis using R by (auto simp: rotatePart_rotation faces_mset_rotatePart)
qed

text \<open>The in-place insertion sort of a compartment is the stable sort by exposed-face rarity: a
  permutation, ordered by score, that keeps the table order of equal scores.\<close>

lemma sort_compartment_is_stable_sort:
  "sort_compartment_by_exposed_rarity ps f1 f2 f3 f4 (Some freq) maxFace =
     sort_key (\<lambda>p. arena_exposed_score p f1 f2 f3 f4 freq maxFace) ps"
  by (rule sort_compartment_stable)

end
