(* ===== verification/Lookup_Table.thy ===== *)
theory Lookup_Table
  imports Parts
begin

text \<open>
  The candidate table of \<open>part.c\<close>/\<open>part.h\<close>: \<open>buildBigArray\<close> files every rotated
  piece under the four-sided keys it fits, compacts the compartments into one
  arena, and adds two redundant indexes, the packed one (\<open>offset:16 | size:16\<close>)
  and the per-compartment mask of piece identifiers. The lemmas show that a
  compartment holds exactly the fitting pieces, that the packed lookup equals the
  flat one, and that the mask counts the distinct free pieces of a compartment.
\<close>

section \<open>Data\<close>

text \<open>A flat entry is a size and a pointer into the arena (\<open>None\<close> for \<open>NULL\<close>).\<close>

type_synonym flat_entry = "nat \<times> nat option"

record map_big_array =
  sizearray :: nat
  sizearrayM :: nat
  flat :: "flat_entry list"
  arena :: "part list"
  packed :: "u32 list option"
  bucket_id_mask :: "u64 list option"
  id_mask_words :: nat

definition MAP_PACKED_FIELD_MAX :: nat where
  "MAP_PACKED_FIELD_MAX = 65535"

section \<open>Construction\<close>

definition face_index :: "int \<Rightarrow> int \<Rightarrow> nat" where
  "face_index maxFace f = nat (if \<bar>f\<bar> \<noteq> f then maxFace + \<bar>f\<bar> else f)"

definition flat_index :: "nat \<Rightarrow> nat \<Rightarrow> nat \<Rightarrow> nat \<Rightarrow> nat \<Rightarrow> nat" where
  "flat_index m p1 p2 p3 p4 = ((p1 * m + p2) * m + p3) * m + p4"

definition fill_entry ::
  "int \<Rightarrow> int list option \<Rightarrow> nat \<Rightarrow> int \<Rightarrow> int \<Rightarrow> int \<Rightarrow> part list \<Rightarrow> int
   \<Rightarrow> part list list \<times> nat \<Rightarrow> part list list \<times> nat" where
  "fill_entry maxFace freq m f1 f2 f3 arraypart3 f4 st =
     (let arraypart = sort_compartment_by_exposed_rarity (search_face arraypart3 f4 PART_LEFT)
                        f1 f2 f3 f4 freq maxFace;
          idx = flat_index m (face_index maxFace f1) (face_index maxFace f2)
                  (face_index maxFace f3) (face_index maxFace f4)
      in ((fst st)[idx := arraypart], snd st + length arraypart))"

definition fill_flat :: "part list \<Rightarrow> int \<Rightarrow> part list list \<times> nat" where
  "fill_flat apart maxFace =
     (let freq = compute_face_frequency apart maxFace;
          m = nat (maxFace + 2);
          faces = [-1..maxFace]
      in fold (\<lambda>f1. let a1 = search_face apart f1 PART_TOP in
           fold (\<lambda>f2. let a2 = search_face a1 f2 PART_RIGHT in
             fold (\<lambda>f3. let a3 = search_face a2 f3 PART_BOTTOM in
               fold (\<lambda>f4. fill_entry maxFace freq m f1 f2 f3 a3 f4) faces) faces) faces) faces
           (replicate (m * m * m * m) [], 0))"

fun compact :: "nat \<Rightarrow> part list list \<Rightarrow> flat_entry list \<times> part list" where
  "compact position [] = ([], [])"
| "compact position (b # bs) =
     (if length b > 0
      then (let (es, ar) = compact (position + length b) bs in ((length b, Some position) # es, b @ ar))
      else (let (es, ar) = compact position bs in ((0, None) # es, ar)))"

definition map_packed_fits :: "nat \<Rightarrow> nat \<Rightarrow> bool" where
  "map_packed_fits total_parts max_bucket \<longleftrightarrow>
     total_parts \<le> MAP_PACKED_FIELD_MAX \<and> max_bucket \<le> MAP_PACKED_FIELD_MAX"

definition pack_entry :: "flat_entry \<Rightarrow> u32" where
  "pack_entry e =
     (let offset = (if fst e > 0 then of_nat (the (snd e)) else 0)
      in push_bit 16 offset OR of_nat (fst e))"

text \<open>\<open>hp\<close> says whether the huge-page allocation of the index succeeded.\<close>

definition build_packed_index :: "flat_entry list \<Rightarrow> part list \<Rightarrow> nat \<Rightarrow> bool \<Rightarrow> u32 list option" where
  "build_packed_index fl ar totalParts hp =
     (if ar = [] then None
      else (let maxBucket = fold (\<lambda>e m. if fst e > m then fst e else m) fl 0
            in if \<not> map_packed_fits totalParts maxBucket then None
               else if \<not> hp then None
               else Some (map pack_entry fl)))"

definition packed_size :: "u32 \<Rightarrow> nat" where
  "packed_size entry = unat (entry AND of_nat MAP_PACKED_FIELD_MAX)"

definition packed_offset :: "u32 \<Rightarrow> nat" where
  "packed_offset entry = unat (drop_bit 16 entry)"

definition mask_piece :: "nat \<Rightarrow> nat \<Rightarrow> part \<Rightarrow> u64 list \<Rightarrow> u64 list" where
  "mask_piece words offset p masks =
     (if p_id p > 0
      then (let b = nat (p_id p - 1); j = offset * words + b div 64
            in masks[j := masks ! j OR push_bit (b mod 64) 1])
      else masks)"

definition mask_compartment :: "part list \<Rightarrow> nat \<Rightarrow> u32 \<Rightarrow> u64 list \<Rightarrow> u64 list" where
  "mask_compartment ar words entry masks =
     (let sz = packed_size entry in
      if sz = 0 then masks
      else (let offset = packed_offset entry
            in fold (\<lambda>s. mask_piece words offset (ar ! (offset + s))) [0..<sz] masks))"

definition build_bucket_id_mask ::
  "u32 list option \<Rightarrow> part list \<Rightarrow> nat \<Rightarrow> bool \<Rightarrow> u64 list option \<times> nat" where
  "build_bucket_id_mask pk ar totalParts hp =
     (case pk of None \<Rightarrow> (None, 0)
      | Some entries \<Rightarrow>
        if ar = [] \<or> totalParts = 0 then (None, 0)
        else (let maxId = fold (\<lambda>p m. if p_id p > m then p_id p else m) ar 0
              in if maxId \<le> 0 then (None, 0)
                 else (let words = nat ((maxId + 63) div 64)
                       in if \<not> hp then (None, 0)
                          else (Some (fold (mask_compartment ar words) entries
                                  (replicate (totalParts * words) 0)), words))))"

definition buildBigArray :: "part list \<Rightarrow> int \<Rightarrow> bool \<Rightarrow> bool \<Rightarrow> map_big_array" where
  "buildBigArray apart maxFace hp_packed hp_mask =
     (let m = nat (maxFace + 2);
          (buckets, totalParts) = fill_flat apart maxFace;
          (fl, ar) = compact 0 buckets;
          pk = build_packed_index fl ar totalParts hp_packed;
          (masks, words) = build_bucket_id_mask pk ar totalParts hp_mask
      in \<lparr>sizearray = m, sizearrayM = m - 1, flat = fl, arena = ar, packed = pk,
          bucket_id_mask = masks, id_mask_words = words\<rparr>)"

definition prepare_map_part :: "part list \<Rightarrow> bool \<Rightarrow> bool \<Rightarrow> map_big_array" where
  "prepare_map_part rotateParts hp_packed hp_mask =
     (let maxface = search_max_face rotateParts in buildBigArray rotateParts maxface hp_packed hp_mask)"

section \<open>Lookup\<close>

definition key_index :: "nat \<Rightarrow> key_part \<Rightarrow> int" where
  "key_index m key = ((k1 key * int m + k2 key) * int m + k3 key) * int m + k4 key"

definition entry_parts :: "part list \<Rightarrow> flat_entry \<Rightarrow> part list" where
  "entry_parts ar e = (case snd e of None \<Rightarrow> [] | Some offset \<Rightarrow> take (fst e) (drop offset ar))"

text \<open>
  The flat lookup is undefined behaviour when the index leaves the table:
  \<open>get_parts_bigarray\<close> is \<open>None\<close> there. The engine's lookups, which
  \<open>key_in_range\<close> keeps inside, read the compartment of the total variant.
\<close>

definition get_parts_bigarray :: "map_big_array \<Rightarrow> key_part \<Rightarrow> part list option" where
  "get_parts_bigarray mp key =
     (let i = key_index (sizearray mp) key
      in if 0 \<le> i \<and> nat i < length (flat mp) then Some (entry_parts (arena mp) (flat mp ! nat i)) else None)"

definition get_parts_bigarray_with_key :: "map_big_array \<Rightarrow> key_part \<Rightarrow> part list" where
  "get_parts_bigarray_with_key mp key =
     (case get_parts_bigarray mp key of None \<Rightarrow> [] | Some ps \<Rightarrow> ps)"

definition map_bucket_packed :: "map_big_array \<Rightarrow> key_part \<Rightarrow> part list" where
  "map_bucket_packed mp key =
     (let idx = nat (key_index (sizearray mp) key)
      in case packed mp of
           Some pk \<Rightarrow> (let entry = pk ! idx
                       in take (packed_size entry) (drop (packed_offset entry) (arena mp)))
         | None \<Rightarrow> entry_parts (arena mp) (flat mp ! idx))"

definition map_bucket_id_mask :: "map_big_array \<Rightarrow> key_part \<Rightarrow> u64 list option" where
  "map_bucket_id_mask mp key =
     (case (bucket_id_mask mp, packed mp) of
        (Some masks, Some pk) \<Rightarrow>
          (let entry = pk ! nat (key_index (sizearray mp) key)
           in if packed_size entry = 0 then None
              else Some (take (id_mask_words mp) (drop (packed_offset entry * id_mask_words mp) masks)))
      | _ \<Rightarrow> None)"

definition get_one_part :: "map_big_array \<Rightarrow> key_part \<Rightarrow> part option" where
  "get_one_part mp key =
     (if k1 key > -2
      then (case get_parts_bigarray mp key of
              Some [p] \<Rightarrow> Some p
            | _ \<Rightarrow> None)
      else None)"

definition etii_popcount64 :: "u64 \<Rightarrow> nat" where
  "etii_popcount64 v = length (filter (bit v) [0..<64])"

definition etii_popcount64_swar :: "u64 \<Rightarrow> nat" where
  "etii_popcount64_swar v0 =
     (let v1 = v0 - (drop_bit 1 v0 AND 0x5555555555555555);
          v2 = (v1 AND 0x3333333333333333) + (drop_bit 2 v1 AND 0x3333333333333333);
          v3 = (v2 + drop_bit 4 v2) AND 0x0f0f0f0f0f0f0f0f
      in unat (drop_bit 56 (v3 * 0x0101010101010101)))"

definition map_mask_free_count :: "u64 list \<Rightarrow> nat \<Rightarrow> u64 list \<Rightarrow> nat" where
  "map_mask_free_count msk words used =
     fold (\<lambda>w count. count + etii_popcount64 (msk ! w AND NOT (used ! w))) [0..<words] 0"

fun any_free_from :: "u64 list \<Rightarrow> u64 list \<Rightarrow> nat list \<Rightarrow> bool" where
  "any_free_from msk used [] = False"
| "any_free_from msk used (w # ws) =
     (if msk ! w AND NOT (used ! w) \<noteq> 0 then True else any_free_from msk used ws)"

definition map_mask_any_free :: "u64 list \<Rightarrow> nat \<Rightarrow> u64 list \<Rightarrow> bool" where
  "map_mask_any_free msk words used = any_free_from msk used [0..<words]"

section \<open>Fitting a key\<close>

text \<open>
  A side fits a key component when the component is the wildcard \<open>sizearrayM\<close> and the
  face is not the grey border, or when the face is the component.
\<close>

definition side_fits :: "nat \<Rightarrow> int \<Rightarrow> int \<Rightarrow> bool" where
  "side_fits M k face = (if k = int M then face \<noteq> 0 else face = k)"

definition key_fits :: "nat \<Rightarrow> key_part \<Rightarrow> part \<Rightarrow> bool" where
  "key_fits M key p \<longleftrightarrow> side_fits M (k1 key) (p_top p) \<and> side_fits M (k2 key) (p_right p)
     \<and> side_fits M (k3 key) (p_bottom p) \<and> side_fits M (k4 key) (p_left p)"

definition key_in_range :: "nat \<Rightarrow> key_part \<Rightarrow> bool" where
  "key_in_range M key \<longleftrightarrow> 0 \<le> k1 key \<and> k1 key \<le> int M \<and> 0 \<le> k2 key \<and> k2 key \<le> int M
     \<and> 0 \<le> k3 key \<and> k3 key \<le> int M \<and> 0 \<le> k4 key \<and> k4 key \<le> int M"

definition compartment :: "part list \<Rightarrow> int \<Rightarrow> int \<times> int \<times> int \<times> int \<Rightarrow> part list" where
  "compartment apart maxFace f =
     (case f of (f1, f2, f3, f4) \<Rightarrow>
        sort_compartment_by_exposed_rarity
          (search_face (search_face (search_face (search_face apart f1 PART_TOP)
             f2 PART_RIGHT) f3 PART_BOTTOM) f4 PART_LEFT)
          f1 f2 f3 f4 (compute_face_frequency apart maxFace) maxFace)"

section \<open>The filled table\<close>

lemma fold_product:
  "fold (\<lambda>(x, y). f x y) (List.product xs ys) = fold (\<lambda>x. fold (f x) ys) xs"
  by (rule ext, induct xs) (simp_all add: fold_map comp_def)

definition store_all :: "('k \<Rightarrow> nat) \<Rightarrow> ('k \<Rightarrow> 'v list) \<Rightarrow> 'k list \<Rightarrow> 'v list list \<times> nat \<Rightarrow> 'v list list \<times> nat" where
  "store_all idx val = fold (\<lambda>k st. ((fst st)[idx k := val k], snd st + length (val k)))"

lemma store_all_simps [simp]:
  "store_all idx val [] st = st"
  "store_all idx val (k # ks) st = store_all idx val ks ((fst st)[idx k := val k], snd st + length (val k))"
  by (simp_all add: store_all_def)

lemma length_store_all [simp]: "length (fst (store_all idx val ks st)) = length (fst st)"
  by (induction ks arbitrary: st) auto

lemma snd_store_all: "snd (store_all idx val ks st) = snd st + (\<Sum>k\<leftarrow>ks. length (val k))"
  by (induction ks arbitrary: st) auto

lemma store_all_other: "j \<notin> idx ` set ks \<Longrightarrow> fst (store_all idx val ks st) ! j = fst st ! j"
  by (induction ks arbitrary: st) auto

lemma store_all_nth:
  "distinct (map idx ks) \<Longrightarrow> \<forall>k \<in> set ks. idx k < length (fst st) \<Longrightarrow> k \<in> set ks \<Longrightarrow>
   fst (store_all idx val ks st) ! idx k = val k"
  by (induction ks arbitrary: st) (auto simp: store_all_other)

lemma face_index_range: "f \<in> {-1..maxFace} \<Longrightarrow> 0 \<le> maxFace \<Longrightarrow> face_index maxFace f < nat (maxFace + 2)"
  by (auto simp: face_index_def)

lemma face_index_inj:
  "f \<in> {-1..maxFace} \<Longrightarrow> g \<in> {-1..maxFace} \<Longrightarrow> 0 \<le> maxFace \<Longrightarrow>
   face_index maxFace f = face_index maxFace g \<longleftrightarrow> f = g"
  by (auto simp: face_index_def split: if_splits)

lemma flat_index_less:
  assumes "p1 < m" "p2 < m" "p3 < m" "p4 < m"
  shows "flat_index m p1 p2 p3 p4 < m * m * m * m"
proof -
  have step: "a < k \<Longrightarrow> b < m \<Longrightarrow> a * m + b < k * m" for a b k :: nat
  proof -
    assume "a < k" "b < m"
    then have "a * m + b < (a + 1) * m" by simp
    also have "\<dots> \<le> k * m" using \<open>a < k\<close> by (intro mult_right_mono) auto
    finally show ?thesis .
  qed
  show ?thesis unfolding flat_index_def by (intro step assms)
qed

lemma flat_index_inj:
  assumes "p2 < m" "p3 < m" "p4 < m" "q2 < m" "q3 < m" "q4 < m"
  shows "flat_index m p1 p2 p3 p4 = flat_index m q1 q2 q3 q4
         \<longleftrightarrow> p1 = q1 \<and> p2 = q2 \<and> p3 = q3 \<and> p4 = q4"
proof -
  have step: "b < m \<Longrightarrow> d < m \<Longrightarrow> a * m + b = c * m + d \<longleftrightarrow> a = c \<and> b = d" for a b c d :: nat
    by (metis div_mult_self3 div_less add.right_neutral add_cancel_left_right mod_mult_self3
        mod_less less_zeroE mult_eq_0_iff)
  show ?thesis unfolding flat_index_def using assms by (simp add: step)
qed

definition tuple_index :: "int \<Rightarrow> int \<times> int \<times> int \<times> int \<Rightarrow> nat" where
  "tuple_index maxFace f = (case f of (f1, f2, f3, f4) \<Rightarrow>
     flat_index (nat (maxFace + 2)) (face_index maxFace f1) (face_index maxFace f2)
       (face_index maxFace f3) (face_index maxFace f4))"

definition face_tuples :: "int \<Rightarrow> (int \<times> int \<times> int \<times> int) list" where
  "face_tuples maxFace = (let faces = [-1..maxFace] in
     List.product faces (List.product faces (List.product faces faces)))"

lemma set_face_tuples:
  "set (face_tuples maxFace) = {-1..maxFace} \<times> {-1..maxFace} \<times> {-1..maxFace} \<times> {-1..maxFace}"
  by (simp add: face_tuples_def Let_def)

lemma fill_flat_store:
  "fill_flat apart maxFace = store_all (tuple_index maxFace) (compartment apart maxFace) (face_tuples maxFace)
     (replicate (nat (maxFace + 2) * nat (maxFace + 2) * nat (maxFace + 2) * nat (maxFace + 2)) [], 0)"
proof -
  let ?fr = "compute_face_frequency apart maxFace" and ?m = "nat (maxFace + 2)"
  have "(\<lambda>k st. ((fst st)[tuple_index maxFace k := compartment apart maxFace k],
            snd st + length (compartment apart maxFace k)))
     = (\<lambda>(f1, f2, f3, f4). fill_entry maxFace ?fr ?m f1 f2 f3
          (search_face (search_face (search_face apart f1 PART_TOP) f2 PART_RIGHT) f3 PART_BOTTOM) f4)"
    by (auto simp: fun_eq_iff fill_entry_def Let_def tuple_index_def compartment_def)
  then show ?thesis
    unfolding fill_flat_def store_all_def face_tuples_def Let_def by (simp only: fold_product)
qed

lemma tuple_index_inj:
  "0 \<le> maxFace \<Longrightarrow> inj_on (tuple_index maxFace) (set (face_tuples maxFace))"
  unfolding set_face_tuples
  by (rule inj_onI) (auto simp: tuple_index_def flat_index_inj face_index_range face_index_inj)

lemma distinct_face_tuples: "distinct (face_tuples maxFace)"
  by (simp add: face_tuples_def Let_def distinct_product)

lemma fill_flat_nth:
  assumes "0 \<le> maxFace" "k \<in> set (face_tuples maxFace)"
  shows "fst (fill_flat apart maxFace) ! tuple_index maxFace k = compartment apart maxFace k"
    and "length (fst (fill_flat apart maxFace)) =
         nat (maxFace + 2) * nat (maxFace + 2) * nat (maxFace + 2) * nat (maxFace + 2)"
    and "tuple_index maxFace k < length (fst (fill_flat apart maxFace))"
proof -
  let ?m = "nat (maxFace + 2)"
  have d: "distinct (map (tuple_index maxFace) (face_tuples maxFace))"
    using assms(1) by (simp add: distinct_map tuple_index_inj distinct_face_tuples)
  have r: "\<forall>k \<in> set (face_tuples maxFace). tuple_index maxFace k < ?m * ?m * ?m * ?m"
    using assms(1) unfolding set_face_tuples
    by (auto simp: tuple_index_def intro!: flat_index_less face_index_range)
  show len: "length (fst (fill_flat apart maxFace)) = ?m * ?m * ?m * ?m"
    by (simp add: fill_flat_store)
  show "fst (fill_flat apart maxFace) ! tuple_index maxFace k = compartment apart maxFace k"
    unfolding fill_flat_store using d r assms(2) by (intro store_all_nth) simp_all
  show "tuple_index maxFace k < length (fst (fill_flat apart maxFace))"
    using r assms(2) len by simp
qed

section \<open>Compaction\<close>

definition bucket_offset :: "part list list \<Rightarrow> nat \<Rightarrow> nat" where
  "bucket_offset bs i = sum_list (map length (take i bs))"

lemma compact_arena: "snd (compact pos bs) = concat bs"
  by (induction pos bs rule: compact.induct) (auto simp: case_prod_unfold Let_def)

lemma length_compact [simp]: "length (fst (compact pos bs)) = length bs"
  by (induction pos bs rule: compact.induct) (auto simp: case_prod_unfold Let_def)

lemma compact_nth:
  "i < length bs \<Longrightarrow> fst (compact pos bs) ! i =
     (length (bs ! i), if bs ! i = [] then None else Some (pos + bucket_offset bs i))"
proof (induction pos bs arbitrary: i rule: compact.induct)
  case (2 pos b bs)
  then show ?case by (cases i) (auto simp: case_prod_unfold Let_def bucket_offset_def)
qed simp

lemma slice_concat:
  assumes "i < length bs"
  shows "take (length (bs ! i)) (drop (bucket_offset bs i) (concat bs)) = bs ! i"
    and "bucket_offset bs i + length (bs ! i) \<le> length (concat bs)"
proof -
  have "concat bs = concat (take i bs) @ bs ! i @ concat (drop (Suc i) bs)"
    using assms by (metis concat.simps(2) concat_append id_take_nth_drop)
  moreover have "length (concat (take i bs)) = bucket_offset bs i"
    by (simp add: bucket_offset_def length_concat)
  ultimately show "take (length (bs ! i)) (drop (bucket_offset bs i) (concat bs)) = bs ! i"
    and "bucket_offset bs i + length (bs ! i) \<le> length (concat bs)" by auto
qed

lemma bucket_offset_mono: "i \<le> j \<Longrightarrow> j \<le> length bs \<Longrightarrow> bucket_offset bs i \<le> bucket_offset bs j"
proof -
  assume "i \<le> j"
  then have "take j bs = take i bs @ drop i (take j bs)"
    by (metis append_take_drop_id min.absorb1 take_take)
  then show ?thesis unfolding bucket_offset_def by (metis map_append sum_list_append le_add1)
qed

lemma bucket_offset_inj:
  assumes "i < length bs" "j < length bs" "bs ! i \<noteq> []" "bs ! j \<noteq> []"
  shows "bucket_offset bs i = bucket_offset bs j \<longleftrightarrow> i = j"
proof -
  have step: "bucket_offset bs a < bucket_offset bs b" if "a < b" "b < length bs" "bs ! a \<noteq> []" for a b
  proof -
    have "bucket_offset bs (Suc a) = bucket_offset bs a + length (bs ! a)"
      using that by (simp add: bucket_offset_def take_Suc_conv_app_nth)
    then have "bucket_offset bs a < bucket_offset bs (Suc a)" using that by simp
    also have "\<dots> \<le> bucket_offset bs b" using that by (intro bucket_offset_mono) auto
    finally show ?thesis .
  qed
  show ?thesis using assms step[of i j] step[of j i] by (cases i j rule: linorder_cases) auto
qed

lemma entry_parts_compact:
  "i < length bs \<Longrightarrow> entry_parts (concat bs) (fst (compact 0 bs) ! i) = bs ! i"
  by (simp add: compact_nth entry_parts_def slice_concat)

lemma fill_flat_total:
  assumes "0 \<le> maxFace"
  shows "snd (fill_flat apart maxFace) = length (concat (fst (fill_flat apart maxFace)))"
proof -
  let ?m = "nat (maxFace + 2)" and ?ks = "face_tuples maxFace" and ?ix = "tuple_index maxFace"
  let ?fl = "fst (fill_flat apart maxFace)"
  have len: "length ?ks = ?m * ?m * ?m * ?m"
    using assms by (simp add: face_tuples_def Let_def length_product nat_add_distrib algebra_simps)
  have ne: "?ks \<noteq> []" using len assms by auto
  have d: "distinct (map ?ix ?ks)"
    using assms by (simp add: distinct_map tuple_index_inj distinct_face_tuples)
  have fl: "length ?fl = ?m * ?m * ?m * ?m" by (simp add: fill_flat_store)
  have "set (map ?ix ?ks) \<subseteq> {..<length ?fl}"
    using fill_flat_nth(3)[OF assms] by auto
  moreover have "card (set (map ?ix ?ks)) = length ?fl"
    using distinct_card[OF d] len fl by (simp only: length_map)
  ultimately have img: "set (map ?ix ?ks) = {..<length ?fl}"
    by (intro card_subset_eq) auto
  have "snd (fill_flat apart maxFace) = (\<Sum>k\<leftarrow>?ks. length (compartment apart maxFace k))"
    by (simp add: fill_flat_store snd_store_all)
  also have "\<dots> = (\<Sum>k\<leftarrow>?ks. length (?fl ! ?ix k))"
    by (intro arg_cong[where f = sum_list] map_cong refl) (simp add: fill_flat_nth(1)[OF assms])
  also have "\<dots> = sum_list (map (\<lambda>i. length (?fl ! i)) (map ?ix ?ks))"
    by (simp add: comp_def)
  also have "\<dots> = (\<Sum>i<length ?fl. length (?fl ! i))"
    using d img by (simp only: sum_list_distinct_conv_sum_set)
  also have "\<dots> = length (concat ?fl)"
    by (simp add: length_concat sum_list_sum_nth atLeast0LessThan)
  finally show ?thesis .
qed

section \<open>A lookup returns exactly the fitting pieces\<close>

definition key_tuple :: "nat \<Rightarrow> key_part \<Rightarrow> int \<times> int \<times> int \<times> int" where
  "key_tuple M key = (let d = (\<lambda>k. if k = int M then -1 else k)
     in (d (k1 key), d (k2 key), d (k3 key), d (k4 key)))"

lemma key_tuple_face: 
  "0 \<le> maxFace \<Longrightarrow> 0 \<le> k \<Longrightarrow> k \<le> maxFace + 1 \<Longrightarrow>
   face_index maxFace (if k = maxFace + 1 then -1 else k) = nat k"
  by (simp add: face_index_def)

lemma nat_key_index:
  assumes "key_in_range M key"
  shows "0 \<le> key_index m key"
    and "nat (key_index m key) = flat_index m (nat (k1 key)) (nat (k2 key)) (nat (k3 key)) (nat (k4 key))"
proof -
  have "key_index m key = int (flat_index m (nat (k1 key)) (nat (k2 key)) (nat (k3 key)) (nat (k4 key)))"
    using assms by (simp add: key_index_def flat_index_def key_in_range_def)
  then show "0 \<le> key_index m key"
    and "nat (key_index m key) = flat_index m (nat (k1 key)) (nat (k2 key)) (nat (k3 key)) (nat (k4 key))"
    by simp_all
qed

lemma key_index_tuple:
  assumes "0 \<le> maxFace" "key_in_range (nat (maxFace + 1)) key"
  shows "nat (key_index (nat (maxFace + 2)) key) = tuple_index maxFace (key_tuple (nat (maxFace + 1)) key)"
    and "key_tuple (nat (maxFace + 1)) key \<in> set (face_tuples maxFace)"
  using assms nat_key_index[OF assms(2)]
  by (auto simp: tuple_index_def key_tuple_def key_tuple_face Let_def key_in_range_def set_face_tuples)

lemma mset_compartment_key:
  assumes "key_in_range M key"
  shows "mset (compartment apart maxFace (key_tuple M key)) = mset (filter (key_fits M key) apart)"
proof -
  have fp: "face_present (if k = int M then -1 else k) PART_TOP p = side_fits M k (p_top p)"
     "face_present (if k = int M then -1 else k) PART_RIGHT p = side_fits M k (p_right p)"
     "face_present (if k = int M then -1 else k) PART_BOTTOM p = side_fits M k (p_bottom p)"
     "face_present (if k = int M then -1 else k) PART_LEFT p = side_fits M k (p_left p)"
    if "0 \<le> k" for k p
    using that by (auto simp: face_present_def side_fits_def FACE_UNKNOW_def)
  show ?thesis using assms
    by (simp add: compartment_def key_tuple_def Let_def mset_sort_compartment search_face_filter fp
        key_in_range_def key_fits_def[abs_def] conj_ac cong: conj_cong)
qed

lemma buildBigArray_fields:
  "sizearray (buildBigArray apart mf a b) = nat (mf + 2)"
  "sizearrayM (buildBigArray apart mf a b) = nat (mf + 2) - 1"
  "arena (buildBigArray apart mf a b) = concat (fst (fill_flat apart mf))"
  "flat (buildBigArray apart mf a b) = fst (compact 0 (fst (fill_flat apart mf)))"
  "packed (buildBigArray apart mf a b) = build_packed_index (fst (compact 0 (fst (fill_flat apart mf))))
      (concat (fst (fill_flat apart mf))) (snd (fill_flat apart mf)) a"
  "bucket_id_mask (buildBigArray apart mf a b) = fst (build_bucket_id_mask (packed (buildBigArray apart mf a b))
      (concat (fst (fill_flat apart mf))) (snd (fill_flat apart mf)) b)"
  "id_mask_words (buildBigArray apart mf a b) = snd (build_bucket_id_mask (packed (buildBigArray apart mf a b))
      (concat (fst (fill_flat apart mf))) (snd (fill_flat apart mf)) b)"
  by (simp_all add: buildBigArray_def Let_def case_prod_unfold compact_arena)

lemma get_parts_compartment:
  assumes "0 \<le> maxFace" "key_in_range (nat (maxFace + 1)) key"
  shows "get_parts_bigarray (buildBigArray apart maxFace a b) key
         = Some (compartment apart maxFace (key_tuple (nat (maxFace + 1)) key))"
    and "nat (key_index (nat (maxFace + 2)) key) < length (fst (fill_flat apart maxFace))"
    and "fst (fill_flat apart maxFace) ! nat (key_index (nat (maxFace + 2)) key)
         = compartment apart maxFace (key_tuple (nat (maxFace + 1)) key)"
proof -
  note kt = key_index_tuple[OF assms]
  show lt: "nat (key_index (nat (maxFace + 2)) key) < length (fst (fill_flat apart maxFace))"
    using fill_flat_nth(3)[OF assms(1) kt(2)] kt(1) by simp
  show eq: "fst (fill_flat apart maxFace) ! nat (key_index (nat (maxFace + 2)) key)
         = compartment apart maxFace (key_tuple (nat (maxFace + 1)) key)"
    using fill_flat_nth(1)[OF assms(1) kt(2)] kt(1) by simp
  show "get_parts_bigarray (buildBigArray apart maxFace a b) key
         = Some (compartment apart maxFace (key_tuple (nat (maxFace + 1)) key))"
    using nat_key_index(1)[OF assms(2)] lt eq
    by (simp add: get_parts_bigarray_def buildBigArray_fields Let_def entry_parts_compact)
qed

section \<open>The packed index\<close>

lemma field_max_mask: "(of_nat MAP_PACKED_FIELD_MAX :: u32) = mask 16"
  by (simp add: MAP_PACKED_FIELD_MAX_def mask_eq_exp_minus_1)

lemma packed_fields:
  assumes "off \<le> MAP_PACKED_FIELD_MAX" "sz \<le> MAP_PACKED_FIELD_MAX"
  shows "packed_size (push_bit 16 (of_nat off) OR of_nat sz) = sz"
    and "packed_offset (push_bit 16 (of_nat off) OR of_nat sz) = off"
proof -
  have o: "bit off i \<Longrightarrow> i < 16" and z: "bit sz i \<Longrightarrow> i < 16" for i
    using assms bit_nat_less_exp[of off 16 i] bit_nat_less_exp[of sz 16 i]
    by (auto simp: MAP_PACKED_FIELD_MAX_def)
  show "packed_size (push_bit 16 (of_nat off) OR of_nat sz) = sz"
    unfolding packed_size_def field_max_mask
    by (rule nat_eqI_bits) (auto simp: bit_and_iff bit_or_iff bit_push_bit_iff bit_mask_iff dest: z)
  show "packed_offset (push_bit 16 (of_nat off) OR of_nat sz) = off"
    unfolding packed_offset_def
    by (rule nat_eqI_bits) (auto simp: bit_drop_bit_eq bit_or_iff bit_push_bit_iff dest: z o)
qed

lemma fold_max_fst_ge: "(e :: nat \<times> 'b) \<in> set fl \<Longrightarrow> fst e \<le> fold (\<lambda>e m. if fst e > m then fst e else m) fl (m::nat)"
proof -
  have mono: "k \<le> fold (\<lambda>e m. if fst e > m then fst e else m) fl (k::nat)" for k and fl :: "(nat \<times> 'b) list"
  proof (induction fl arbitrary: k)
    case (Cons e fl)
    have "k \<le> (if fst e > k then fst e else k)" by simp
    also note Cons.IH
    finally show ?case by simp
  qed simp
  show "e \<in> set fl \<Longrightarrow> ?thesis"
  proof (induction fl arbitrary: m)
    case (Cons a fl)
    then show ?case
      by (cases "e = a") (auto intro: order_trans[OF _ mono])
  qed simp
qed

lemma packed_entry:
  assumes pk: "build_packed_index (fst (compact 0 bs)) (concat bs) (length (concat bs)) hp = Some pk"
    and i: "i < length bs"
  shows "length pk = length bs" and "packed_size (pk ! i) = length (bs ! i)"
    and "bs ! i \<noteq> [] \<Longrightarrow> packed_offset (pk ! i) = bucket_offset bs i"
    and "bs ! i = [] \<Longrightarrow> packed_offset (pk ! i) = 0"
proof -
  let ?fl = "fst (compact 0 bs)"
  from pk have eq: "pk = map pack_entry ?fl"
    and fits: "map_packed_fits (length (concat bs)) (fold (\<lambda>e m. if fst e > m then fst e else m) ?fl 0)"
    by (auto simp: build_packed_index_def Let_def split: if_splits)
  show "length pk = length bs" using eq by simp
  have "?fl ! i \<in> set ?fl" using i by simp
  from fold_max_fst_ge[OF this, of 0] have sz: "length (bs ! i) \<le> MAP_PACKED_FIELD_MAX"
    using fits i by (simp add: map_packed_fits_def compact_nth)
  have off: "bucket_offset bs i \<le> MAP_PACKED_FIELD_MAX"
    using slice_concat(2)[OF i] fits by (simp add: map_packed_fits_def)
  have "pk ! i = push_bit 16 (of_nat (if bs ! i = [] then 0 else bucket_offset bs i)) OR of_nat (length (bs ! i))"
    using i by (simp add: eq pack_entry_def compact_nth)
  with packed_fields[of "if bs ! i = [] then 0 else bucket_offset bs i" "length (bs ! i)"] sz off
  show "packed_size (pk ! i) = length (bs ! i)"
    and "bs ! i \<noteq> [] \<Longrightarrow> packed_offset (pk ! i) = bucket_offset bs i"
    and "bs ! i = [] \<Longrightarrow> packed_offset (pk ! i) = 0"
    by (auto split: if_splits)
qed

lemma map_bucket_packed_flat:
  assumes "0 \<le> maxFace" "key_in_range (nat (maxFace + 1)) key"
  shows "map_bucket_packed (buildBigArray apart maxFace a b) key
         = get_parts_bigarray_with_key (buildBigArray apart maxFace a b) key"
proof -
  let ?bs = "fst (fill_flat apart maxFace)" and ?i = "nat (key_index (nat (maxFace + 2)) key)"
  note gp = get_parts_compartment[OF assms, of apart]
  have rhs: "get_parts_bigarray_with_key (buildBigArray apart maxFace a b) key = ?bs ! ?i"
    using gp by (simp add: get_parts_bigarray_with_key_def)
  show ?thesis
  proof (cases "packed (buildBigArray apart maxFace a b)")
    case None
    then show ?thesis using rhs gp(2)
      by (simp add: map_bucket_packed_def Let_def buildBigArray_fields entry_parts_compact)
  next
    case (Some pk)
    then have "build_packed_index (fst (compact 0 ?bs)) (concat ?bs) (length (concat ?bs)) a = Some pk"
      by (simp add: buildBigArray_fields fill_flat_total[OF assms(1)])
    note pe = packed_entry[OF this gp(2)]
    have "take (length (?bs ! ?i)) (drop (packed_offset (pk ! ?i)) (concat ?bs)) = ?bs ! ?i"
      using pe(3) slice_concat(1)[OF gp(2)] by (cases "?bs ! ?i = []") auto
    then show ?thesis using Some rhs pe(2)
      by (simp add: map_bucket_packed_def Let_def buildBigArray_fields)
  qed
qed

section \<open>The interface of the table\<close>

text \<open>What the search relies on: for a key in range a lookup returns the rotated
  pieces that fit the key, each as often as the rotation table holds it.\<close>

locale candidate_table =
  fixes lookup :: "key_part \<Rightarrow> part list"
    and pieces :: "part list"
    and M :: nat
  assumes lookup_mset: "key_in_range M key \<Longrightarrow> mset (lookup key) = mset (filter (key_fits M key) pieces)"
begin

lemma mem_lookup: "key_in_range M key \<Longrightarrow> p \<in> set (lookup key) \<longleftrightarrow> p \<in> set pieces \<and> key_fits M key p"
  using arg_cong[OF lookup_mset[of key], of set_mset] by auto

lemma no_candidate: "key_in_range M key \<Longrightarrow> lookup key = [] \<longleftrightarrow> (\<forall>p \<in> set pieces. \<not> key_fits M key p)"
  using mem_lookup[of key] by (metis last_in_set list.set(1) empty_iff)

lemma distinct_lookup: "distinct pieces \<Longrightarrow> key_in_range M key \<Longrightarrow> distinct (lookup key)"
  by (metis distinct_filter lookup_mset mset_eq_imp_distinct_iff)

end

lemma prepare_build: "prepare_map_part R a b = buildBigArray R (search_max_face R) a b"
  by (simp add: prepare_map_part_def Let_def)

lemma sizearrayM_prepare: "sizearrayM (prepare_map_part R a b) = nat (search_max_face R + 1)"
  using search_max_face_nonneg[of R]
  by (simp add: prepare_build buildBigArray_fields nat_add_distrib)

lemma sizearray_prepare: "sizearray (prepare_map_part R a b) = Suc (sizearrayM (prepare_map_part R a b))"
  using search_max_face_nonneg[of R]
  by (simp add: prepare_build buildBigArray_fields nat_add_distrib)

lemma lookup_in_table:
  "key_in_range (sizearrayM (prepare_map_part R a b)) key \<Longrightarrow>
   get_parts_bigarray (prepare_map_part R a b) key
     = Some (get_parts_bigarray_with_key (prepare_map_part R a b) key)"
  using get_parts_compartment(1)[OF search_max_face_nonneg[of R], of key R a b]
  by (simp add: sizearrayM_prepare get_parts_bigarray_with_key_def) (simp add: prepare_build)

lemma lookup_compartment:
  "key_in_range (sizearrayM (prepare_map_part R a b)) key \<Longrightarrow>
   get_parts_bigarray_with_key (prepare_map_part R a b) key
     = compartment R (search_max_face R) (key_tuple (sizearrayM (prepare_map_part R a b)) key)"
  using get_parts_compartment(1)[OF search_max_face_nonneg[of R], of key R a b]
  by (simp add: sizearrayM_prepare get_parts_bigarray_with_key_def) (simp add: prepare_build)

interpretation flat_table: candidate_table
  "get_parts_bigarray_with_key (prepare_map_part R a b)" R "sizearrayM (prepare_map_part R a b)" for R a b
  by unfold_locales (simp add: lookup_compartment mset_compartment_key)

lemma packed_eq_flat:
  "key_in_range (sizearrayM (prepare_map_part R a b)) key \<Longrightarrow>
   map_bucket_packed (prepare_map_part R a b) key = get_parts_bigarray_with_key (prepare_map_part R a b) key"
  using map_bucket_packed_flat[OF search_max_face_nonneg[of R], of key R a b]
  by (simp add: sizearrayM_prepare) (simp add: prepare_build)

interpretation packed_table: candidate_table
  "map_bucket_packed (prepare_map_part R a b)" R "sizearrayM (prepare_map_part R a b)" for R a b
  by unfold_locales (simp add: packed_eq_flat flat_table.lookup_mset)

section \<open>Counting with masks\<close>

lemma popcount_card: "etii_popcount64 v = card {b. b < 64 \<and> bit v b}"
proof -
  have "card (set (filter (bit v) [0..<64])) = length (filter (bit v) [0..<64])"
    by (rule distinct_card) simp
  moreover have "set (filter (bit v) [0..<64]) = {b. b < 64 \<and> bit v b}" by auto
  ultimately show ?thesis by (simp add: etii_popcount64_def)
qed

lemma word_nonzero_bit: "(w :: u64) \<noteq> 0 \<longleftrightarrow> (\<exists>b<64. bit w b)"
  by (auto simp: bit_eq_iff dest: bit_imp_le_length)

lemma mask_word_bit:
  "b < 64 \<Longrightarrow> bit (m ! w AND NOT (used ! w)) b \<longleftrightarrow> used_bit m (64 * w + b) \<and> \<not> used_bit used (64 * w + b)"
  by (simp add: used_bit_def bit_and_iff bit_not_iff)

definition free_positions :: "u64 list \<Rightarrow> nat \<Rightarrow> u64 list \<Rightarrow> nat set" where
  "free_positions m words used = {p. p < 64 * words \<and> used_bit m p \<and> \<not> used_bit used p}"

lemma finite_free_positions [simp]: "finite (free_positions m words used)"
  by (simp add: free_positions_def)

lemma map_mask_free_count_card: "map_mask_free_count m words used = card (free_positions m words used)"
proof (induction words)
  case 0
  then show ?case by (simp add: map_mask_free_count_def free_positions_def)
next
  case (Suc w)
  let ?B = "{b. b < 64 \<and> bit (m ! w AND NOT (used ! w)) b}"
  have "free_positions m (Suc w) used = free_positions m w used \<union> (\<lambda>b. 64 * w + b) ` ?B"
  proof (intro equalityI subsetI)
    fix p assume p: "p \<in> free_positions m (Suc w) used"
    show "p \<in> free_positions m w used \<union> (\<lambda>b. 64 * w + b) ` ?B"
    proof (cases "p < 64 * w")
      case False
      then have "p = 64 * w + (p - 64 * w)" "p - 64 * w < 64"
        using p by (auto simp: free_positions_def)
      then show ?thesis using p mask_word_bit[of "p - 64 * w" m w used]
        by (intro UnI2 image_eqI[where x = "p - 64 * w"]) (auto simp: free_positions_def)
    qed (use p in \<open>auto simp: free_positions_def\<close>)
  qed (auto simp: free_positions_def mask_word_bit)
  moreover have "free_positions m w used \<inter> (\<lambda>b. 64 * w + b) ` ?B = {}"
    by (auto simp: free_positions_def)
  ultimately have "card (free_positions m (Suc w) used)
      = card (free_positions m w used) + card ((\<lambda>b. 64 * w + b) ` ?B)"
    by (simp add: card_Un_disjoint)
  also have "card ((\<lambda>b. 64 * w + b) ` ?B) = card ?B"
    by (rule card_image) (simp add: inj_on_def)
  finally show ?case using Suc by (simp add: map_mask_free_count_def popcount_card)
qed

lemma map_mask_any_free_iff: "map_mask_any_free m words used \<longleftrightarrow> free_positions m words used \<noteq> {}"
proof -
  have "any_free_from m used ws \<longleftrightarrow> (\<exists>w \<in> set ws. \<exists>b<64. bit (m ! w AND NOT (used ! w)) b)" for ws
    by (induction ws) (auto simp: word_nonzero_bit)
  then have "map_mask_any_free m words used \<longleftrightarrow>
     (\<exists>w<words. \<exists>b<64. used_bit m (64 * w + b) \<and> \<not> used_bit used (64 * w + b))"
    by (simp add: map_mask_any_free_def mask_word_bit atLeast0LessThan Bex_def lessThan_iff cong: conj_cong)
  also have "\<dots> \<longleftrightarrow> (\<exists>p<64 * words. used_bit m p \<and> \<not> used_bit used p)"
  proof
    assume "\<exists>p<64 * words. used_bit m p \<and> \<not> used_bit used p"
    then obtain p where p: "p < 64 * words" "used_bit m p" "\<not> used_bit used p" by blast
    then have "p div 64 < words" "p mod 64 < 64" "64 * (p div 64) + p mod 64 = p"
      by (auto simp: group64_less)
    with p show "\<exists>w<words. \<exists>b<64. used_bit m (64 * w + b) \<and> \<not> used_bit used (64 * w + b)"
      by (metis)
  next
    assume "\<exists>w<words. \<exists>b<64. used_bit m (64 * w + b) \<and> \<not> used_bit used (64 * w + b)"
    then obtain w b where "w < words" "b < 64" "used_bit m (64 * w + b)" "\<not> used_bit used (64 * w + b)"
      by blast
    moreover from this have "64 * w + b < 64 * words" by linarith
    ultimately show "\<exists>p<64 * words. used_bit m p \<and> \<not> used_bit used p" by blast
  qed
  finally show ?thesis by (auto simp: free_positions_def)
qed

lemma length_fold_mask [simp]:
  "length (fold (mask_piece words off) ps masks) = length masks"
  "length (fold (mask_compartment ar words) es masks) = length masks"
proof -
  have p: "length (mask_piece words off p masks) = length masks" for words off p masks
    by (simp add: mask_piece_def Let_def)
  have f: "length (fold (\<lambda>x. mask_piece words off (g x)) xs masks) = length masks" for words off g xs masks
    by (induction xs arbitrary: masks) (simp_all add: p)
  show "length (fold (mask_piece words off) ps masks) = length masks"
    using f[of words off "\<lambda>x. x"] by simp
  have c: "length (mask_compartment ar words e masks) = length masks" for e masks
    by (simp add: mask_compartment_def Let_def f)
  show "length (fold (mask_compartment ar words) es masks) = length masks"
    by (induction es arbitrary: masks) (simp_all add: c)
qed

definition piece_word :: "nat \<Rightarrow> nat \<Rightarrow> part \<Rightarrow> nat \<Rightarrow> nat \<Rightarrow> bool" where
  "piece_word words off p j b \<longleftrightarrow> p_id p > 0
     \<and> j = off * words + nat (p_id p - 1) div 64 \<and> b = nat (p_id p - 1) mod 64"

lemma bit_mask_piece:
  "j < length masks \<Longrightarrow>
   bit (mask_piece words off p masks ! j) b \<longleftrightarrow> bit (masks ! j) b \<or> piece_word words off p j b"
  by (cases "j = off * words + nat (p_id p - 1) div 64")
    (auto simp: mask_piece_def piece_word_def Let_def bit_or_iff)

lemma bit_fold_mask_piece:
  "j < length masks \<Longrightarrow>
   bit (fold (mask_piece words off) ps masks ! j) b
     \<longleftrightarrow> bit (masks ! j) b \<or> (\<exists>p \<in> set ps. piece_word words off p j b)"
proof (induction ps arbitrary: masks)
  case (Cons p ps)
  have "length (mask_piece words off p masks) = length masks"
    by (simp add: mask_piece_def Let_def)
  with Cons show ?case by (auto simp: bit_mask_piece)
qed simp

definition packed_slice :: "part list \<Rightarrow> u32 \<Rightarrow> part list" where
  "packed_slice ar e = take (packed_size e) (drop (packed_offset e) ar)"

lemma fold_nth_slice:
  assumes "off + sz \<le> length ar"
  shows "fold (\<lambda>s. f (ar ! (off + s))) [0..<sz] st = fold f (take sz (drop off ar)) st"
proof -
  have "take sz (drop off ar) = map (\<lambda>s. ar ! (off + s)) [0..<sz]"
    using assms by (intro nth_equalityI) auto
  then show ?thesis by (simp add: fold_map comp_def)
qed

lemma mask_compartment_slice:
  assumes "packed_offset e + packed_size e \<le> length ar"
  shows "mask_compartment ar words e = fold (mask_piece words (packed_offset e)) (packed_slice ar e)"
  using assms by (auto simp: fun_eq_iff mask_compartment_def Let_def packed_slice_def fold_nth_slice)

lemma bit_fold_mask_compartment:
  assumes "\<forall>e \<in> set es. packed_offset e + packed_size e \<le> length ar" "j < length masks"
  shows "bit (fold (mask_compartment ar words) es masks ! j) b
     \<longleftrightarrow> bit (masks ! j) b \<or> (\<exists>e \<in> set es. \<exists>p \<in> set (packed_slice ar e). piece_word words (packed_offset e) p j b)"
  using assms
proof (induction es arbitrary: masks)
  case (Cons e es)
  then show ?case by (auto simp: mask_compartment_slice bit_fold_mask_piece)
qed simp

lemma fold_max_id_ge: "p \<in> set ar \<Longrightarrow> p_id p \<le> fold (\<lambda>p m. if p_id p > m then p_id p else m) ar m"
proof -
  have mono: "k \<le> fold (\<lambda>p m. if p_id p > m then p_id p else m) ar k" for k ar
  proof (induction ar arbitrary: k)
    case (Cons a ar)
    have "k \<le> (if p_id a > k then p_id a else k)" by simp
    also note Cons.IH
    finally show ?case by simp
  qed simp
  show "p \<in> set ar \<Longrightarrow> ?thesis"
  proof (induction ar arbitrary: m)
    case (Cons a ar)
    then show ?case
      by (cases "p = a") (auto intro: order_trans[OF _ mono])
  qed simp
qed

lemma packed_slice_bucket:
  assumes pk: "build_packed_index (fst (compact 0 bs)) (concat bs) (length (concat bs)) hp = Some pk"
    and i: "i < length bs"
  shows "packed_slice (concat bs) (pk ! i) = bs ! i"
    and "packed_offset (pk ! i) + packed_size (pk ! i) \<le> length (concat bs)"
  using packed_entry(2-)[OF pk i] slice_concat[OF i]
  by (cases "bs ! i = []"; simp add: packed_slice_def)+

lemma block_eq_iff:
  assumes "x < w" "y < (w::nat)"
  shows "a * w + x = b * w + y \<longleftrightarrow> a = b \<and> x = y"
  using assms cell_pos_inject[of x w y a b] by (simp add: cell_pos_def)

text \<open>The bits of one mask block: the identifiers of the compartment that starts there.\<close>

lemma mask_block_bits:
  assumes pk: "build_packed_index (fst (compact 0 bs)) (concat bs) (length (concat bs)) hp = Some pk"
    and i: "i < length bs" "bs ! i \<noteq> []"
    and idw: "\<forall>p \<in> set (concat bs). p_id p \<le> 64 * int words"
    and j: "j < words" "bucket_offset bs i * words + j < length masks"
    and zero: "masks = replicate N 0"
  shows "bit (fold (mask_compartment (concat bs) words) pk masks ! (bucket_offset bs i * words + j)) b
     \<longleftrightarrow> (\<exists>p \<in> set (bs ! i). piece_word words 0 p j b)"
proof -
  have slices: "\<forall>e \<in> set pk. packed_offset e + packed_size e \<le> length (concat bs)"
    using packed_slice_bucket(2)[OF pk] packed_entry(1)[OF pk i(1)] by (metis in_set_conv_nth)
  have word_lt: "piece_word words off p k c \<longleftrightarrow> p_id p > 0
       \<and> k = off * words + nat (p_id p - 1) div 64 \<and> c = nat (p_id p - 1) mod 64
       \<and> nat (p_id p - 1) div 64 < words" if "i' < length bs" "p \<in> set (bs ! i')" for i' p off k c
  proof -
    have "p \<in> set (concat bs)" using that nth_mem by fastforce
    with idw have "p_id p \<le> 64 * int words" by blast
    then have "p_id p > 0 \<Longrightarrow> nat (p_id p - 1) div 64 < words"
      by (intro less_mult_imp_div_less) linarith
    then show ?thesis by (auto simp: piece_word_def)
  qed
  have "bit (fold (mask_compartment (concat bs) words) pk masks ! (bucket_offset bs i * words + j)) b
     \<longleftrightarrow> (\<exists>e \<in> set pk. \<exists>p \<in> set (packed_slice (concat bs) e).
            piece_word words (packed_offset e) p (bucket_offset bs i * words + j) b)"
    using bit_fold_mask_compartment[OF slices j(2), of words b] j(2) by (simp add: zero)
  also have "\<dots> \<longleftrightarrow> (\<exists>i' < length bs. \<exists>p \<in> set (bs ! i').
            piece_word words (packed_offset (pk ! i')) p (bucket_offset bs i * words + j) b)"
    using packed_slice_bucket(1)[OF pk] packed_entry(1)[OF pk i(1)] by (auto simp: in_set_conv_nth Bex_def) metis+
  also have "\<dots> \<longleftrightarrow> (\<exists>i' < length bs. \<exists>p \<in> set (bs ! i').
            piece_word words (bucket_offset bs i') p (bucket_offset bs i * words + j) b)"
    using packed_entry(3)[OF pk] by (metis empty_iff list.set(1))
  also have "\<dots> \<longleftrightarrow> (\<exists>p \<in> set (bs ! i). piece_word words 0 p j b)"
  proof
    assume "\<exists>i' < length bs. \<exists>p \<in> set (bs ! i').
            piece_word words (bucket_offset bs i') p (bucket_offset bs i * words + j) b"
    then obtain i' p where i': "i' < length bs" "p \<in> set (bs ! i')"
      and pw: "piece_word words (bucket_offset bs i') p (bucket_offset bs i * words + j) b" by blast
    then have "bucket_offset bs i' = bucket_offset bs i" and "nat (p_id p - 1) div 64 = j"
      using word_lt[OF i'] block_eq_iff[OF _ j(1)] by metis+
    then have "i' = i" using bucket_offset_inj[OF i'(1) i(1) _ i(2)] i'(2) by fastforce
    then show "\<exists>p \<in> set (bs ! i). piece_word words 0 p j b"
      using i' pw by (auto simp: piece_word_def)
  qed (use i in \<open>auto simp: piece_word_def\<close>)
  finally show ?thesis .
qed

text \<open>The mask of a compartment has bit \<open>id - 1\<close> exactly for the identifiers it holds.\<close>

lemma bucket_mask_mem:
  assumes mf: "0 \<le> maxFace" and key: "key_in_range (nat (maxFace + 1)) key"
    and m: "map_bucket_id_mask (buildBigArray apart maxFace a b) key = Some m"
    and words: "words = id_mask_words (buildBigArray apart maxFace a b)"
    and bucket: "bucket = get_parts_bigarray_with_key (buildBigArray apart maxFace a b) key"
  shows "length m = words"
    and "\<forall>p \<in> set bucket. p_id p \<le> 64 * int words"
    and "\<forall>q < 64 * words. used_bit m q \<longleftrightarrow> (\<exists>p \<in> set bucket. p_id p = int q + 1)"
proof -
  let ?mp = "buildBigArray apart maxFace a b"
  let ?bs = "fst (fill_flat apart maxFace)" and ?i = "nat (key_index (nat (maxFace + 2)) key)"
  let ?ar = "concat ?bs"
  note gp = get_parts_compartment[OF mf key, of apart]
  from m obtain masks pk where bm: "bucket_id_mask ?mp = Some masks" and pk: "packed ?mp = Some pk"
    and ne: "packed_size (pk ! ?i) \<noteq> 0"
    and meq: "m = take words (drop (packed_offset (pk ! ?i) * words) masks)"
    by (auto simp: map_bucket_id_mask_def Let_def buildBigArray_fields words split: option.splits if_splits)
  have pk': "build_packed_index (fst (compact 0 ?bs)) ?ar (length ?ar) a = Some pk"
    using pk by (simp add: buildBigArray_fields fill_flat_total[OF mf])
  note pe = packed_entry[OF pk' gp(2)]
  have bk: "bucket = ?bs ! ?i" using gp bucket by (simp add: get_parts_bigarray_with_key_def)
  have nonempty: "?bs ! ?i \<noteq> []" using ne pe(2) by simp
  define maxId where "maxId = fold (\<lambda>p m. if p_id p > m then p_id p else m) ?ar 0"
  from bm pk have mid: "0 < maxId" and w: "words = nat ((maxId + 63) div 64)"
    and masks: "masks = fold (mask_compartment ?ar words) pk (replicate (length ?ar * words) 0)"
    by (auto simp: buildBigArray_fields build_bucket_id_mask_def Let_def maxId_def words
        fill_flat_total[OF mf] split: option.splits if_splits)
  have id_le: "\<forall>p \<in> set ?ar. p_id p \<le> 64 * int words"
  proof
    fix p assume "p \<in> set ?ar"
    from fold_max_id_ge[OF this, of 0] mid w show "p_id p \<le> 64 * int words"
      unfolding maxId_def[symmetric] by linarith
  qed
  then show "\<forall>p \<in> set bucket. p_id p \<le> 64 * int words"
    using bk nth_mem[OF gp(2)] by auto
  have off: "packed_offset (pk ! ?i) = bucket_offset ?bs ?i" using pe(3)[OF nonempty] .
  have "bucket_offset ?bs ?i < length ?ar"
    using slice_concat(2)[OF gp(2)] nonempty by (cases "?bs ! ?i") auto
  then have "(bucket_offset ?bs ?i + 1) * words \<le> length ?ar * words" by (intro mult_right_mono) auto
  then have room: "bucket_offset ?bs ?i * words + words \<le> length ?ar * words" by simp
  then show "length m = words" by (simp add: meq off masks)
  show "\<forall>q < 64 * words. used_bit m q \<longleftrightarrow> (\<exists>p \<in> set bucket. p_id p = int q + 1)"
  proof (intro allI impI)
    fix q assume q: "q < 64 * words"
    have jw: "q div 64 < words" using q by (rule group64_less)
    have lt: "bucket_offset ?bs ?i * words + q div 64 < length (replicate (length ?ar * words) (0::u64))"
      using jw room by simp
    have "bucket_offset ?bs ?i * words \<le> length masks" using room unfolding masks length_fold_mask length_replicate by linarith
    then have "m ! (q div 64) = masks ! (bucket_offset ?bs ?i * words + q div 64)"
      using jw by (simp add: meq off)
    then have "used_bit m q \<longleftrightarrow> (\<exists>p \<in> set bucket. piece_word words 0 p (q div 64) (q mod 64))"
      unfolding used_bit_def masks bk
      using mask_block_bits[OF pk' gp(2) nonempty id_le jw lt refl] by simp
    also have "\<dots> \<longleftrightarrow> (\<exists>p \<in> set bucket. p_id p = int q + 1)"
    proof -
      have "piece_word words 0 p (q div 64) (q mod 64) \<longleftrightarrow> p_id p = int q + 1" for p
      proof -
        have "q div 64 = r div 64 \<and> q mod 64 = r mod 64 \<longleftrightarrow> q = r" for r
          by (metis div_mult_mod_eq)
        then have "piece_word words 0 p (q div 64) (q mod 64) \<longleftrightarrow> p_id p > 0 \<and> q = nat (p_id p - 1)"
          unfolding piece_word_def by (simp only: mult_0 add_0)
        also have "\<dots> \<longleftrightarrow> p_id p = int q + 1" by linarith
        finally show ?thesis .
      qed
      then show ?thesis by simp
    qed
    finally show "used_bit m q \<longleftrightarrow> (\<exists>p \<in> set bucket. p_id p = int q + 1)" .
  qed
qed

section \<open>Properties\<close>

text \<open>C31. A lookup with any key inside the table succeeds, and the compartment it returns holds
  exactly the rotated pieces that fit the key, each as often as the table of rotations has it.\<close>

theorem get_parts_bigarray_exact:
  assumes "key_in_range (sizearrayM (prepare_map_part R a b)) key"
  shows "\<exists>ps. get_parts_bigarray (prepare_map_part R a b) key = Some ps
     \<and> mset ps = mset (filter (key_fits (sizearrayM (prepare_map_part R a b)) key) R)"
  using lookup_in_table[OF assms] flat_table.lookup_mset[OF assms] by blast

theorem get_parts_bigarray_exact_witness:
  "\<exists>ps. get_parts_bigarray (prepare_map_part [zero_part] True True) \<lparr>k1 = 0, k2 = 1, k3 = 0, k4 = 1\<rparr> = Some ps
     \<and> mset ps = mset (filter (key_fits (sizearrayM (prepare_map_part [zero_part] True True))
                             \<lparr>k1 = 0, k2 = 1, k3 = 0, k4 = 1\<rparr>) [zero_part])"
  by (rule get_parts_bigarray_exact)
    (simp add: key_in_range_def sizearrayM_prepare search_max_face_def max_face_step_def zero_part_def Let_def)

text \<open>C32. The packed index is a faithful shortcut: for every key inside the table it yields the very
  compartment of the flat table, whether or not its allocation succeeded.\<close>

theorem map_bucket_packed_equiv:
  assumes "key_in_range (sizearrayM (prepare_map_part R a b)) key"
  shows "map_bucket_packed (prepare_map_part R a b) key = get_parts_bigarray_with_key (prepare_map_part R a b) key"
  by (rule packed_eq_flat[OF assms])

theorem map_bucket_packed_equiv_witness:
  "map_bucket_packed (prepare_map_part [zero_part] True True) \<lparr>k1 = 0, k2 = 1, k3 = 0, k4 = 1\<rparr>
     = get_parts_bigarray_with_key (prepare_map_part [zero_part] True True) \<lparr>k1 = 0, k2 = 1, k3 = 0, k4 = 1\<rparr>"
  by (rule map_bucket_packed_equiv)
    (simp add: key_in_range_def sizearrayM_prepare search_max_face_def max_face_step_def zero_part_def Let_def)

text \<open>Where a compartment has an identifier mask, the population count of the mask minus the used
  pieces is the number of distinct free pieces of the compartment, and the early-exit test answers
  whether there is one.\<close>

lemma map_mask_counts_free_pieces:
  assumes "key_in_range (sizearrayM (prepare_map_part R a b)) key"
  shows "case map_bucket_id_mask (prepare_map_part R a b) key of
       None \<Rightarrow> True
     | Some m \<Rightarrow>
         (let words = id_mask_words (prepare_map_part R a b);
              free = {q. \<not> used_bit used q
                      \<and> (\<exists>p \<in> set (get_parts_bigarray_with_key (prepare_map_part R a b) key). p_id p = int q + 1)}
          in map_mask_free_count m words used = card free \<and> (map_mask_any_free m words used \<longleftrightarrow> free \<noteq> {}))"
proof (cases "map_bucket_id_mask (prepare_map_part R a b) key")
  case (Some m)
  let ?mp = "prepare_map_part R a b"
  note bm = bucket_mask_mem[OF search_max_face_nonneg, of R key R a b m, folded prepare_build,
      OF assms[unfolded sizearrayM_prepare] Some refl refl]
  have "free_positions m (id_mask_words ?mp) used = {q. \<not> used_bit used q
      \<and> (\<exists>p \<in> set (get_parts_bigarray_with_key ?mp key). p_id p = int q + 1)}"
    using bm(2,3) by (fastforce simp: free_positions_def)
  then show ?thesis using Some by (simp add: map_mask_free_count_card map_mask_any_free_iff Let_def)
qed simp

end
