(* ===== verification/Geometry.thy ===== *)
theory Geometry
  imports Etii_Prelude
begin

text \<open>
  The enumeration order of the cells (\<open>core_static_variables.c\<close>): the tables
  \<open>directions\<close>, \<open>dirx\<close> and \<open>diry\<close> are literal for the 16x16 board and filled row
  by row for the other sizes (the literal 4x4 tables are that same filling). The
  lemmas show that the order visits every cell of every supported board exactly once.
\<close>

definition directions_256 :: "int list" where
  "directions_256 = [
   0, 1, 2, 18, 34, 3, 4, 5, 6, 7, 8, 9, 10, 11, 12, 13,
   29, 45, 14, 15, 31, 47, 46, 30, 63, 79, 95, 111, 127, 143, 159, 175,
   191, 207, 223, 239, 255, 254, 253, 237, 221, 238, 222, 252, 251, 250, 249, 248,
   247, 246, 245, 244, 243, 242, 226, 210, 241, 240, 224, 208, 209, 225, 192, 176,
   160, 144, 128, 112, 96, 80, 64, 48, 32, 33, 16, 17, 193, 227, 228, 211,
   194, 177, 206, 236, 235, 220, 205, 190, 19, 49, 65, 50, 35, 20, 28, 62,
   27, 44, 61, 78, 21, 22, 23, 24, 25, 26, 81, 94, 97, 110, 113, 126,
   129, 142, 145, 158, 161, 174, 229, 230, 231, 232, 233, 234, 178, 195, 212, 213,
   196, 179, 162, 146, 163, 180, 197, 214, 215, 198, 181, 164, 147, 130, 131, 148,
   165, 182, 199, 183, 166, 149, 132, 133, 150, 167, 151, 134, 135, 189, 204, 219,
   218, 203, 188, 173, 157, 172, 187, 202, 217, 216, 201, 200, 186, 171, 156, 141,
   140, 155, 170, 185, 184, 169, 168, 154, 139, 138, 153, 152, 137, 136, 36, 51,
   66, 82, 67, 52, 37, 38, 53, 68, 83, 98, 114, 99, 115, 84, 69, 54,
   39, 55, 70, 85, 100, 116, 101, 117, 86, 71, 87, 102, 118, 103, 119, 125,
   109, 124, 123, 108, 93, 77, 92, 107, 122, 121, 120, 106, 91, 76, 60, 75,
   90, 105, 104, 89, 88, 74, 59, 43, 58, 42, 73, 72, 57, 41, 56, 40]"

definition dirx_256 :: "int list" where
  "dirx_256 = [
   0, 1, 2, 2, 2, 3, 4, 5, 6, 7, 8, 9, 10, 11, 12, 13,
   13, 13, 14, 15, 15, 15, 14, 14, 15, 15, 15, 15, 15, 15, 15, 15,
   15, 15, 15, 15, 15, 14, 13, 13, 13, 14, 14, 12, 11, 10, 9, 8,
   7, 6, 5, 4, 3, 2, 2, 2, 1, 0, 0, 0, 1, 1, 0, 0,
   0, 0, 0, 0, 0, 0, 0, 0, 0, 1, 0, 1, 1, 3, 4, 3,
   2, 1, 14, 12, 11, 12, 13, 14, 3, 1, 1, 2, 3, 4, 12, 14,
   11, 12, 13, 14, 5, 6, 7, 8, 9, 10, 1, 14, 1, 14, 1, 14,
   1, 14, 1, 14, 1, 14, 5, 6, 7, 8, 9, 10, 2, 3, 4, 5,
   4, 3, 2, 2, 3, 4, 5, 6, 7, 6, 5, 4, 3, 2, 3, 4,
   5, 6, 7, 7, 6, 5, 4, 5, 6, 7, 7, 6, 7, 13, 12, 11,
   10, 11, 12, 13, 13, 12, 11, 10, 9, 8, 9, 8, 10, 11, 12, 13,
   12, 11, 10, 9, 8, 9, 8, 10, 11, 10, 9, 8, 9, 8, 4, 3,
   2, 2, 3, 4, 5, 6, 5, 4, 3, 2, 2, 3, 3, 4, 5, 6,
   7, 7, 6, 5, 4, 4, 5, 5, 6, 7, 7, 6, 6, 7, 7, 13,
   13, 12, 11, 12, 13, 13, 12, 11, 10, 9, 8, 10, 11, 12, 12, 11,
   10, 9, 8, 9, 8, 10, 11, 11, 10, 10, 9, 8, 9, 9, 8, 8]"

definition diry_256 :: "int list" where
  "diry_256 = [
   0, 0, 0, 1, 2, 0, 0, 0, 0, 0, 0, 0, 0, 0, 0, 0,
   1, 2, 0, 0, 1, 2, 2, 1, 3, 4, 5, 6, 7, 8, 9, 10,
   11, 12, 13, 14, 15, 15, 15, 14, 13, 14, 13, 15, 15, 15, 15, 15,
   15, 15, 15, 15, 15, 15, 14, 13, 15, 15, 14, 13, 13, 14, 12, 11,
   10, 9, 8, 7, 6, 5, 4, 3, 2, 2, 1, 1, 12, 14, 14, 13,
   12, 11, 12, 14, 14, 13, 12, 11, 1, 3, 4, 3, 2, 1, 1, 3,
   1, 2, 3, 4, 1, 1, 1, 1, 1, 1, 5, 5, 6, 6, 7, 7,
   8, 8, 9, 9, 10, 10, 14, 14, 14, 14, 14, 14, 11, 12, 13, 13,
   12, 11, 10, 9, 10, 11, 12, 13, 13, 12, 11, 10, 9, 8, 8, 9,
   10, 11, 12, 11, 10, 9, 8, 8, 9, 10, 9, 8, 8, 11, 12, 13,
   13, 12, 11, 10, 9, 10, 11, 12, 13, 13, 12, 12, 11, 10, 9, 8,
   8, 9, 10, 11, 11, 10, 10, 9, 8, 8, 9, 9, 8, 8, 2, 3,
   4, 5, 4, 3, 2, 2, 3, 4, 5, 6, 7, 6, 7, 5, 4, 3,
   2, 3, 4, 5, 6, 7, 6, 7, 5, 4, 5, 6, 7, 6, 7, 7,
   6, 7, 7, 6, 5, 4, 5, 6, 7, 7, 7, 6, 5, 4, 3, 4,
   5, 6, 6, 5, 5, 4, 3, 2, 3, 2, 4, 4, 3, 2, 3, 2]"

definition directions :: "nat \<Rightarrow> nat list" where
  "directions n = (if n = 16 then map nat directions_256 else map (\<lambda>i. i mod 256) [0..<ETERN_PARTS n])"

definition dirx :: "nat \<Rightarrow> nat list" where
  "dirx n = (if n = 16 then map nat dirx_256 else map (\<lambda>i. (i div n) mod 256) [0..<ETERN_PARTS n])"

definition diry :: "nat \<Rightarrow> nat list" where
  "diry n = (if n = 16 then map nat diry_256 else map (\<lambda>i. (i mod n) mod 256) [0..<ETERN_PARTS n])"

text \<open>The cell visited at each rank of the order.\<close>

definition dir_cells :: "nat \<Rightarrow> nat list" where
  "dir_cells n = map (\<lambda>c. cell_pos n (dirx n ! c) (diry n ! c)) [0..<ETERN_PARTS n]"

text \<open>\<open>test_directions\<close> marks every listed index (a mark outside the array is undefined
  behaviour, \<open>None\<close>) and returns \<open>-1\<close> when one stays unmarked.\<close>

fun mark_all :: "nat list \<Rightarrow> nat list \<Rightarrow> nat list option" where
  "mark_all [] grille = Some grille"
| "mark_all (x # xs) grille =
     (if x < length grille then mark_all xs (grille[x := 1]) else None)"

definition test_directions :: "nat \<Rightarrow> nat list \<Rightarrow> int option" where
  "test_directions n dirs =
     (case mark_all dirs (replicate (ETERN_PARTS n) 0) of
        None \<Rightarrow> None
      | Some grille \<Rightarrow> Some (if \<exists>i \<in> set [0..<ETERN_PARTS n]. grille ! i = 0 then -1 else 0))"

section \<open>Lemmas\<close>

lemma mark_all_spec:
  "mark_all xs g = (if \<forall>x \<in> set xs. x < length g
     then Some (map (\<lambda>i. if i \<in> set xs then 1 else g ! i) [0..<length g]) else None)"
proof (induction xs arbitrary: g)
  case Nil
  then show ?case by (simp add: map_nth)
next
  case (Cons x xs)
  have "map (\<lambda>i. if i \<in> set xs then 1 else g[x := 1] ! i) [0..<length g]
      = map (\<lambda>i. if i \<in> set (x # xs) then 1 else g ! i) [0..<length g]" if "x < length g"
    using that by (auto simp: nth_list_update)
  then show ?case using Cons by auto
qed

lemma test_directions_iff:
  assumes "length dirs = n * n"
  shows "test_directions n dirs = Some 0 \<longleftrightarrow> set dirs = {0..<n * n}"
proof
  assume a: "test_directions n dirs = Some 0"
  then have "\<forall>x \<in> set dirs. x < n * n" and "\<forall>i < n * n. i \<in> set dirs"
    by (auto simp: test_directions_def mark_all_spec split: if_splits)
  then show "set dirs = {0..<n * n}" by auto
qed (auto simp: test_directions_def mark_all_spec)

lemma length_tables_256: "length directions_256 = 256" "length dirx_256 = 256" "length diry_256 = 256"
  by (simp_all add: directions_256_def dirx_256_def diry_256_def)

lemma directions_256_sorted: "sort directions_256 = [0..255]"
  by code_simp

lemma cells_256_sorted: "sort (map2 (\<lambda>x y. 16 * x + y) dirx_256 diry_256) = [0..255]"
  by code_simp

lemma coords_256_nonneg: "\<forall>x \<in> set dirx_256. 0 \<le> x" "\<forall>y \<in> set diry_256. 0 \<le> y"
  by (simp_all add: dirx_256_def diry_256_def)

lemma nat_upto_255: "map nat [0..255] = [0..<256]"
  by (intro nth_equalityI) simp_all

lemma directions_16_perm: "mset (directions 16) = mset [0..<256]"
proof -
  have "mset (sort directions_256) = mset [0..255]" by (simp only: directions_256_sorted)
  then have "mset (map nat directions_256) = mset (map nat [0..255])" by simp
  then show ?thesis by (simp only: nat_upto_255) (simp add: directions_def)
qed

lemma dir_cells_16_perm: "mset (dir_cells 16) = mset [0..<256]"
proof -
  let ?C = "map2 (\<lambda>x y. 16 * x + y) dirx_256 diry_256"
  have "dir_cells 16 = map nat ?C"
  proof (intro nth_equalityI)
    fix i assume "i < length (dir_cells 16)"
    then have i: "i < 256" by (simp add: dir_cells_def)
    have "0 \<le> dirx_256 ! i" "0 \<le> diry_256 ! i"
      using i coords_256_nonneg length_tables_256 by auto
    then show "dir_cells 16 ! i = map nat ?C ! i"
      using i by (simp add: dir_cells_def dirx_def diry_def length_tables_256 cell_pos_def
          nat_add_distrib nat_mult_distrib)
  qed (simp add: dir_cells_def length_tables_256)
  moreover have "mset (sort ?C) = mset [0..255]" by (simp only: cells_256_sorted)
  then have "mset (map nat ?C) = mset (map nat [0..255])" by (simp only: mset_map mset_sort)
  ultimately show ?thesis by (simp only: nat_upto_255)
qed

lemma dir_cells_rows: "n \<noteq> 16 \<Longrightarrow> 0 < n \<Longrightarrow> n \<le> 16 \<Longrightarrow> dir_cells n = [0..<n * n]"
proof -
  assume a: "n \<noteq> 16" "0 < n" "n \<le> 16"
  have small: "(c div n) mod 256 = c div n" "(c mod n) mod 256 = c mod n" if "c < n * n" for c
  proof -
    have "c div n < 256" "c mod n < 256" using cell_less_divmod[OF that] a by linarith+
    then show "(c div n) mod 256 = c div n" "(c mod n) mod 256 = c mod n" by simp_all
  qed
  show ?thesis using a(1)
    by (intro nth_equalityI) (simp_all add: dir_cells_def dirx_def diry_def small)
qed

lemma dir_cells_perm:
  assumes "ETERN_SIZE_supported n"
  shows "distinct (dir_cells n)" and "set (dir_cells n) = {0..<n * n}"
proof -
  have "mset (dir_cells n) = mset [0..<n * n]"
  proof (cases "n = 16")
    case True
    then show ?thesis using dir_cells_16_perm by simp
  next
    case False
    with assms show ?thesis by (subst dir_cells_rows) (auto simp: ETERN_SIZE_supported_def)
  qed
  then show "distinct (dir_cells n)" and "set (dir_cells n) = {0..<n * n}"
    by (metis distinct_upt mset_eq_imp_distinct_iff, metis mset_eq_setD set_upt)
qed

lemma coords_256_less: "\<forall>x \<in> set dirx_256. x < 16" "\<forall>y \<in> set diry_256. y < 16"
  by (simp_all add: dirx_256_def diry_256_def)

lemma dirx_less: "ETERN_SIZE_supported n \<Longrightarrow> i < n * n \<Longrightarrow> dirx n ! i < n"
proof (cases "n = 16")
  case True
  assume "i < n * n"
  then have "dirx_256 ! i \<in> set dirx_256" "i < 256" using True by (auto simp: length_tables_256)
  then show ?thesis using True coords_256_less coords_256_nonneg
    by (simp add: dirx_def length_tables_256 nat_less_iff)
next
  case False
  assume "ETERN_SIZE_supported n" "i < n * n"
  then show ?thesis using False cell_less_divmod[of i n]
    by (auto simp: dirx_def ETERN_SIZE_supported_def intro: le_less_trans[OF mod_less_eq_dividend])
qed

lemma diry_less: "ETERN_SIZE_supported n \<Longrightarrow> i < n * n \<Longrightarrow> diry n ! i < n"
proof (cases "n = 16")
  case True
  assume "i < n * n"
  then have "diry_256 ! i \<in> set diry_256" "i < 256" using True by (auto simp: length_tables_256)
  then show ?thesis using True coords_256_less coords_256_nonneg
    by (simp add: diry_def length_tables_256 nat_less_iff)
next
  case False
  assume "ETERN_SIZE_supported n" "i < n * n"
  then show ?thesis using False cell_less_divmod[of i n]
    by (auto simp: diry_def ETERN_SIZE_supported_def intro: le_less_trans[OF mod_less_eq_dividend])
qed

section \<open>Properties\<close>

text \<open>On every supported board the enumeration order visits each cell exactly once, with
  coordinates on the board, and \<open>test_directions\<close> accepts the table of indices.\<close>

lemma directions_visit_every_cell_once:
  assumes "ETERN_SIZE_supported n"
  shows "distinct (dir_cells n) \<and> set (dir_cells n) = {0..<n * n}
     \<and> list_all (\<lambda>x. x < n) (dirx n) \<and> list_all (\<lambda>y. y < n) (diry n) \<and> test_directions n (directions n) = Some 0"
proof -
  have "set (directions n) = {0..<n * n} \<and> length (directions n) = n * n"
  proof (cases "n = 16")
    case True
    then have "mset (directions n) = mset [0..<256]" using directions_16_perm by simp
    from mset_eq_setD[OF this] mset_eq_length[OF this] True show ?thesis by simp
  next
    case False
    then have "n * n < 256" using assms by (auto simp: ETERN_SIZE_supported_def)
    then have "map (\<lambda>i. i mod 256) [0..<n * n] = [0..<n * n]" by (intro nth_equalityI) simp_all
    then show ?thesis using False by (simp add: directions_def)
  qed
  moreover have "length (dirx n) = n * n" "length (diry n) = n * n"
    by (auto simp: dirx_def diry_def length_tables_256)
  then have "list_all (\<lambda>x. x < n) (dirx n)" "list_all (\<lambda>y. y < n) (diry n)"
    using dirx_less[OF assms] diry_less[OF assms] by (simp_all add: list_all_length)
  ultimately show ?thesis
    using dir_cells_perm[OF assms] test_directions_iff by simp
qed

end
