(* ===== verification/Packet.thy ===== *)
theory Packet
  imports Lookup_Table Geometry
begin

text \<open>
  A board position (\<open>struct possibility_packet\<close>, \<open>possibility.h\<close>) and the
  operations of \<open>possibility.c\<close> that read one: the cell keys, the comparison of two
  packets, the inclusion test and the validity check. The grid is the row-major
  list of its \<open>ETERN_SIZE * ETERN_SIZE\<close> 16-bit cells, \<open>-2\<close> for an empty one.
\<close>

record possibility_packet =
  px :: nat
  py :: nat
  grid :: "int list"
  alloc :: nat
  min_candidats :: int
  b_faceused :: "u16 list"
  checked :: nat

definition POSSIBILITY_MIN_CANDIDATS_UNKNOWN :: int where
  "POSSIBILITY_MIN_CANDIDATS_UNKNOWN = -1"

definition grid_at :: "nat \<Rightarrow> possibility_packet \<Rightarrow> nat \<Rightarrow> nat \<Rightarrow> int" where
  "grid_at n p x y = grid p ! cell_pos n x y"

definition grid_put :: "nat \<Rightarrow> nat \<Rightarrow> nat \<Rightarrow> int \<Rightarrow> possibility_packet \<Rightarrow> possibility_packet" where
  "grid_put n x y v p = p\<lparr>grid := (grid p)[cell_pos n x y := v]\<rparr>"

definition possibility_placed_count :: "nat \<Rightarrow> possibility_packet \<Rightarrow> nat" where
  "possibility_placed_count n p =
     fold (\<lambda>x. fold (\<lambda>y placed. if grid_at n p x y \<noteq> -2 then placed + 1 else placed) [0..<n]) [0..<n] 0"

definition generate_possibility_packet ::
  "nat \<Rightarrow> nat \<Rightarrow> nat \<Rightarrow> part option list \<Rightarrow> possibility_packet" where
  "generate_possibility_packet n x y etern =
     fold (\<lambda>c result. case etern ! c of
         Some part \<Rightarrow> result\<lparr>grid := (grid result)[c := id_for_rotated_part n (p_id part) (p_rotation part)],
                             b_faceused := set_face_used (b_faceused result) (nat (p_id part - 1)) 1\<rparr>
       | None \<Rightarrow> result\<lparr>grid := (grid result)[c := -2]\<rparr>) [0..<ETERN_PARTS n]
       \<lparr>px = x, py = y, grid = replicate (ETERN_PARTS n) 0, alloc = 0,
        min_candidats = POSSIBILITY_MIN_CANDIDATS_UNKNOWN,
        b_faceused = replicate (FACES_USED_SIZE n) 0, checked = 0\<rparr>"

section \<open>Keys of a cell\<close>

definition what_search_in_grid_to_key ::
  "nat \<Rightarrow> part list \<Rightarrow> possibility_packet \<Rightarrow> nat \<Rightarrow> nat \<Rightarrow> int \<Rightarrow> key_part" where
  "what_search_in_grid_to_key n R p x y all_face = \<lparr>
     k1 = (if int y - 1 < 0 then 0
           else if grid_at n p x (y - 1) < 0 then all_face
           else p_bottom (R ! nat (grid_at n p x (y - 1)))),
     k2 = (if x + 1 \<ge> n then 0
           else if grid_at n p (x + 1) y < 0 then all_face
           else p_left (R ! nat (grid_at n p (x + 1) y))),
     k3 = (if y + 1 \<ge> n then 0
           else if grid_at n p x (y + 1) < 0 then all_face
           else p_top (R ! nat (grid_at n p x (y + 1)))),
     k4 = (if int x - 1 < 0 then 0
           else if grid_at n p (x - 1) y < 0 then all_face
           else p_right (R ! nat (grid_at n p (x - 1) y)))\<rparr>"

definition what_search_to_key ::
  "nat \<Rightarrow> part list \<Rightarrow> possibility_packet \<Rightarrow> int \<Rightarrow> key_part" where
  "what_search_to_key n R p all_face =
     (let x = px p; xp = x + 1; y = py p; yp = y + 1 in \<lparr>
     k1 = (if int y - 1 < 0 then 0
           else (let partId = grid_at n p x (y - 1) in
                 if partId < 0 then all_face else p_bottom (R ! nat partId))),
     k2 = (if xp \<ge> n then 0
           else (let partId = grid_at n p xp y in
                 if partId < 0 then all_face else p_left (R ! nat partId))),
     k3 = (if yp \<ge> n then 0
           else (let partId = grid_at n p x yp in
                 if partId < 0 then all_face else p_top (R ! nat partId))),
     k4 = (if int x - 1 < 0 then 0
           else (let partId = grid_at n p (x - 1) y in
                 if partId < 0 then all_face else p_right (R ! nat partId)))\<rparr>)"

definition what_search :: "nat \<Rightarrow> part list \<Rightarrow> nat \<Rightarrow> nat \<Rightarrow> possibility_packet \<Rightarrow> key_part" where
  "what_search n R x y p =
     (let xp = x + 1; yp = y + 1 in \<lparr>
     k1 = (if int y - 1 < 0 then 0
           else if grid_at n p x (y - 1) < 0 then -1
           else p_bottom (R ! nat (grid_at n p x (y - 1)))),
     k2 = (if xp \<ge> n then 0
           else if grid_at n p xp y < 0 then -1
           else p_left (R ! nat (grid_at n p xp y))),
     k3 = (if yp \<ge> n then 0
           else if grid_at n p x yp < 0 then -1
           else p_top (R ! nat (grid_at n p x yp))),
     k4 = (if int x - 1 < 0 then 0
           else if grid_at n p (x - 1) y < 0 then -1
           else p_right (R ! nat (grid_at n p (x - 1) y)))\<rparr>)"

text \<open>\<open>possibility_has_a_next\<close> looks the current cell up with the keys of
  \<open>what_search\<close>; \<open>None\<close> when the lookup leaves the table.\<close>

definition has_free_candidate :: "u16 list \<Rightarrow> part list \<Rightarrow> bool" where
  "has_free_candidate fu search \<longleftrightarrow>
     (\<exists>q \<in> set search. p_id q \<noteq> 0 \<and> \<not> is_face_used fu (nat (p_id q - 1)))"

definition possibility_has_a_next ::
  "nat \<Rightarrow> map_big_array \<Rightarrow> part list \<Rightarrow> possibility_packet \<Rightarrow> bool option" where
  "possibility_has_a_next n mp R p =
     map_option (has_free_candidate (b_faceused p))
       (get_parts_bigarray mp (what_search n R (px p) (py p) p))"

section \<open>Comparisons\<close>

definition compare_possibility ::
  "nat \<Rightarrow> possibility_packet option \<Rightarrow> possibility_packet option \<Rightarrow> int" where
  "compare_possibility n packet other_packet =
     (case (packet, other_packet) of
        (Some p, Some q) \<Rightarrow>
          (if alloc p \<noteq> alloc q then -2
           else if px p \<noteq> px q \<or> py p \<noteq> py q then -3
           else if \<exists>u \<in> set [0..<ETERN_PARTS n]. is_face_used (b_faceused p) u \<noteq> is_face_used (b_faceused q) u then -4
           else if \<exists>c \<in> set [0..<ETERN_PARTS n]. grid p ! c \<noteq> grid q ! c then -5
           else 0)
      | (None, None) \<Rightarrow> -1
      | _ \<Rightarrow> 0)"

definition is_origin_of ::
  "nat \<Rightarrow> possibility_packet option \<Rightarrow> possibility_packet option \<Rightarrow> int" where
  "is_origin_of n packet other_packet =
     (case (packet, other_packet) of
        (Some p, Some q) \<Rightarrow>
          (if alloc p \<ge> alloc q then -1
           else if \<exists>c \<in> set [0..<ETERN_PARTS n]. grid p ! c \<noteq> -2 \<and> grid p ! c \<noteq> grid q ! c then -2
           else 1)
      | _ \<Rightarrow> 0)"

section \<open>Validity check\<close>

text \<open>One side of \<open>check_possibility\<close>: the constraint read from the board (\<open>-1\<close> for an
  empty neighbour, 0 on the frame) against the face of the piece.\<close>

definition side_clash :: "int \<Rightarrow> int \<Rightarrow> bool" where
  "side_clash required face \<longleftrightarrow> required \<noteq> -1 \<and> face \<noteq> required"

definition check_neighbours :: "nat \<Rightarrow> part list \<Rightarrow> possibility_packet \<Rightarrow> nat \<Rightarrow> nat \<Rightarrow> key_part" where
  "check_neighbours n R p x y = \<lparr>
     k1 = (if int y - 1 \<ge> 0
           then (if grid_at n p x (y - 1) < 0 then -1 else p_bottom (R ! nat (grid_at n p x (y - 1)))) else 0),
     k2 = (if x + 1 < n
           then (if grid_at n p (x + 1) y < 0 then -1 else p_left (R ! nat (grid_at n p (x + 1) y))) else 0),
     k3 = (if y + 1 < n
           then (if grid_at n p x (y + 1) < 0 then -1 else p_top (R ! nat (grid_at n p x (y + 1)))) else 0),
     k4 = (if int x - 1 \<ge> 0
           then (if grid_at n p (x - 1) y < 0 then -1 else p_right (R ! nat (grid_at n p (x - 1) y))) else 0)\<rparr>"

definition check_sides :: "key_part \<Rightarrow> part \<Rightarrow> int" where
  "check_sides key partXY =
     (if side_clash (k1 key) (p_top partXY) then -9
      else if side_clash (k2 key) (p_right partXY) then -9
      else if side_clash (k3 key) (p_bottom partXY) then -9
      else if side_clash (k4 key) (p_left partXY) then -9
      else 0)"

definition check_cell :: "nat \<Rightarrow> part list \<Rightarrow> possibility_packet \<Rightarrow> nat \<Rightarrow> nat \<Rightarrow> int" where
  "check_cell n R p x y =
     (if grid_at n p x y = -2 then 0
      else (let gridValue = grid_at n p x y in
        if gridValue < 0 \<or> gridValue \<ge> int (length R) then -7
        else check_sides (check_neighbours n R p x y) (R ! nat gridValue)))"

fun check_cells :: "nat \<Rightarrow> part list \<Rightarrow> possibility_packet \<Rightarrow> nat list \<Rightarrow> int" where
  "check_cells n R p [] = 0"
| "check_cells n R p (c # cs) =
     (let r = check_cell n R p (dirx n ! c) (diry n ! c)
      in if r < 0 then r else check_cells n R p cs)"

definition face_count :: "nat \<Rightarrow> u16 list \<Rightarrow> nat" where
  "face_count n fu = fold (\<lambda>i k. if is_face_used fu i then k + 1 else k) [0..<ETERN_PARTS n] 0"

text \<open>The rotation table is the caller's or is rebuilt from the piece file; the model
  takes it as an argument.\<close>

definition check_possibility :: "nat \<Rightarrow> possibility_packet option \<Rightarrow> part list \<Rightarrow> int" where
  "check_possibility n packet R =
     (case packet of None \<Rightarrow> -1
      | Some p \<Rightarrow>
        if px p \<ge> n \<or> py p \<ge> n then -2
        else if alloc p > ETERN_PARTS n then -4
        else if face_count n (b_faceused p) < alloc p then -5
        else if n = 16 \<and> grid_at n p 7 8 \<noteq> id_for_rotated_part n 139 2 then -6
        else check_cells n R p [0..<ETERN_PARTS n])"

section \<open>Solutions on disk\<close>

text \<open>The rows of \<open>save_solution_csv\<close>: row, column, piece, rotation and the four faces;
  without the rotation table the piece is recomputed from the cell value.\<close>

definition solution_row :: "nat \<Rightarrow> part list option \<Rightarrow> nat \<Rightarrow> int \<Rightarrow> int list" where
  "solution_row n R c idx =
     (let x = int (c div n); y = int (c mod n) in
      case R of
        Some parts \<Rightarrow> (let p = parts ! nat idx
                       in [x, y, p_id p, p_rotation p, p_top p, p_right p, p_bottom p, p_left p])
      | None \<Rightarrow> [x, y, idx mod int (ETERN_PARTS n), idx div int (ETERN_PARTS n), -1, -1, -1, -1])"

definition save_solution_csv :: "nat \<Rightarrow> possibility_packet \<Rightarrow> part list option \<Rightarrow> int list list" where
  "save_solution_csv n p R =
     map (\<lambda>c. solution_row n R c (grid p ! c)) (filter (\<lambda>c. \<not> grid p ! c < 0) [0..<ETERN_PARTS n])"

section \<open>Lemmas\<close>

lemma placed_count_filter [board_simps]:
  assumes "length (grid p) = n * n"
  shows "possibility_placed_count n p = length (filter (\<lambda>v. v \<noteq> -2) (grid p))"
proof -
  have "possibility_placed_count n p = length (filter (\<lambda>c. grid p ! c \<noteq> -2) [0..<n * n])"
    unfolding possibility_placed_count_def grid_at_def
    using fold_cells[of "\<lambda>c placed. if grid p ! c \<noteq> -2 then placed + 1 else placed :: nat" n n]
      fold_count[of "\<lambda>c. grid p ! c \<noteq> -2" "[0..<n * n]" 0]
    by (simp only: add_0_left)
  also have "\<dots> = length (filter (\<lambda>v. v \<noteq> -2) (grid p))"
    using filter_upt_nth[of "\<lambda>v. v \<noteq> -2" "grid p"] assms by simp
  finally show ?thesis .
qed

lemma face_count_filter: "face_count n fu = length (filter (is_face_used fu) [0..<n * n])"
  by (simp add: face_count_def fold_count)

text \<open>Two packets compare equal exactly when their counters, coordinates, cells and used
  pieces agree.\<close>

lemma compare_zero_iff:
  "compare_possibility n (Some p) (Some q) = 0 \<longleftrightarrow>
     alloc p = alloc q \<and> px p = px q \<and> py p = py q
     \<and> (\<forall>u < n * n. is_face_used (b_faceused p) u = is_face_used (b_faceused q) u)
     \<and> (\<forall>c < n * n. grid p ! c = grid q ! c)"
  by (auto simp: compare_possibility_def)

lemma is_origin_iff:
  "is_origin_of n (Some p) (Some q) = 1 \<longleftrightarrow>
     alloc p < alloc q \<and> (\<forall>c < n * n. grid p ! c \<noteq> -2 \<longrightarrow> grid q ! c = grid p ! c)"
  by (auto simp: is_origin_of_def)

lemma check_cells_zero: "check_cells n R p cs = 0 \<longleftrightarrow> (\<forall>c \<in> set cs. check_cell n R p (dirx n ! c) (diry n ! c) = 0)"
proof (induction cs)
  case (Cons c cs)
  have "check_cell n R p x y = 0 \<or> check_cell n R p x y < 0" for x y
    by (simp add: check_cell_def check_sides_def Let_def)
  from this[of "dirx n ! c" "diry n ! c"] show ?case using Cons by (auto simp: Let_def)
qed simp

end
