(* ===== verification/Puzzle.thy ===== *)
theory Puzzle
  imports Packet
begin

text \<open>
  The abstract specification of the puzzle and the invariant of a board. A
  \<open>solution\<close> fills every cell with a rotated piece, uses no piece twice, puts the
  grey face 0 exactly on the frame and equal faces on both sides of every interior
  edge. \<open>completions\<close> is the set of solutions that extend a partial grid: every
  pruning rule of the solver is judged by what it does to that set. The lemmas
  connect the candidate lookup of a cell with it.
\<close>

section \<open>The table of rotations\<close>

definition faces_ok :: "part \<Rightarrow> bool" where
  "faces_ok p \<longleftrightarrow> 0 \<le> p_top p \<and> 0 \<le> p_right p \<and> 0 \<le> p_bottom p \<and> 0 \<le> p_left p"

text \<open>What \<open>rotate_all_parts\<close> delivers for a complete piece file.\<close>

definition rotation_table :: "nat \<Rightarrow> part list \<Rightarrow> bool" where
  "rotation_table n R \<longleftrightarrow> 0 < n \<and> n \<le> 16 \<and> length R = 4 * (n * n) + 1 \<and> R ! 0 = zero_part \<and>
     (\<forall>v \<in> set [1..<4 * (n * n) + 1]. p_id (R ! v) = int ((v - 1) mod (n * n)) + 1
        \<and> p_rotation (R ! v) = int ((v - 1) div (n * n)) \<and> faces_ok (R ! v))"

definition valid_value :: "nat \<Rightarrow> int \<Rightarrow> bool" where
  "valid_value n v \<longleftrightarrow> 1 \<le> v \<and> nat v \<le> 4 * (n * n)"

abbreviation piece_of :: "part list \<Rightarrow> int \<Rightarrow> int" where
  "piece_of R v \<equiv> p_id (R ! nat v)"

lemma rotation_table_entry:
  assumes "rotation_table n R" "valid_value n v"
  shows "piece_of R v = (v - 1) mod int (n * n) + 1"
    and "p_rotation (R ! nat v) = (v - 1) div int (n * n)"
    and "faces_ok (R ! nat v)" and "R ! nat v \<in> set R"
proof -
  have v: "nat v \<in> set [1..<4 * (n * n) + 1]"
    using assms(2) unfolding valid_value_def set_upt by (simp only: atLeastLessThan_iff) linarith
  have "int (nat v - 1) = v - 1" using assms(2) unfolding valid_value_def by linarith
  then have "int ((nat v - 1) mod (n * n)) = (v - 1) mod int (n * n)"
    "int ((nat v - 1) div (n * n)) = (v - 1) div int (n * n)"
    by (simp_all only: zmod_int zdiv_int)
  then show "piece_of R v = (v - 1) mod int (n * n) + 1"
    and "p_rotation (R ! nat v) = (v - 1) div int (n * n)" and "faces_ok (R ! nat v)"
    using assms(1) v by (simp_all add: rotation_table_def)
  show "R ! nat v \<in> set R" using assms v by (simp add: rotation_table_def valid_value_def)
qed

lemma piece_range:
  assumes "rotation_table n R" "valid_value n v"
  shows "1 \<le> piece_of R v" and "piece_of R v \<le> int (n * n)"
proof -
  have "0 < int (n * n)" using assms(1) by (simp add: rotation_table_def)
  then have "0 \<le> (v - 1) mod int (n * n)" "(v - 1) mod int (n * n) < int (n * n)" by simp_all
  then show "1 \<le> piece_of R v" and "piece_of R v \<le> int (n * n)"
    unfolding rotation_table_entry(1)[OF assms] by linarith+
qed

text \<open>The value stored in a cell is recovered from the piece and the rotation.\<close>

lemma id_for_rotated_value:
  assumes "rotation_table n R" "valid_value n v"
  shows "id_for_rotated_part n (p_id (R ! nat v)) (p_rotation (R ! nat v)) = v"
proof -
  have "n * n \<le> 16 * 16" using assms(1) by (intro mult_mono) (auto simp: rotation_table_def)
  then have "nat v < 2 ^ 16" using assms(2) unfolding valid_value_def by (simp del: nat_le_iff)
  then have "v < 2 ^ 16" by simp
  moreover have "(v - 1) mod int (n * n) + int (n * n) * ((v - 1) div int (n * n)) = v - 1"
    by (rule mod_mult_div_eq)
  ultimately show ?thesis
    using assms(2) rotation_table_entry[OF assms]
    by (simp add: id_for_rotated_part_def valid_value_def)
qed

lemma table_member:
  assumes "rotation_table n R" "q \<in> set R" "p_id q \<noteq> 0"
  shows "valid_value n (id_for_rotated_part n (p_id q) (p_rotation q))"
    and "R ! nat (id_for_rotated_part n (p_id q) (p_rotation q)) = q"
proof -
  obtain i where i: "i < length R" "R ! i = q" using assms(2) by (auto simp: in_set_conv_nth)
  have "R ! 0 = zero_part" using assms(1) by (simp add: rotation_table_def)
  then have "i \<noteq> 0" using assms(3) i by (metis part.select_convs(1) zero_part_def)
  then have v: "valid_value n (int i)" using i assms by (simp add: rotation_table_def valid_value_def)
  from id_for_rotated_value[OF assms(1) v] i
  have "id_for_rotated_part n (p_id q) (p_rotation q) = int i" by simp
  then show "valid_value n (id_for_rotated_part n (p_id q) (p_rotation q))"
    and "R ! nat (id_for_rotated_part n (p_id q) (p_rotation q)) = q" using v i by simp_all
qed

section \<open>Solutions\<close>

text \<open>The four neighbours of a cell: \<open>None\<close> beyond the frame.\<close>

definition nb_top :: "nat \<Rightarrow> int list \<Rightarrow> nat \<Rightarrow> int option" where
  "nb_top n g c = (if c mod n = 0 then None else Some (g ! (c - 1)))"

definition nb_right :: "nat \<Rightarrow> int list \<Rightarrow> nat \<Rightarrow> int option" where
  "nb_right n g c = (if n \<le> c div n + 1 then None else Some (g ! (c + n)))"

definition nb_bottom :: "nat \<Rightarrow> int list \<Rightarrow> nat \<Rightarrow> int option" where
  "nb_bottom n g c = (if n \<le> c mod n + 1 then None else Some (g ! (c + 1)))"

definition nb_left :: "nat \<Rightarrow> int list \<Rightarrow> nat \<Rightarrow> int option" where
  "nb_left n g c = (if c div n = 0 then None else Some (g ! (c - n)))"

definition side_rule :: "part list \<Rightarrow> int option \<Rightarrow> (part \<Rightarrow> int) \<Rightarrow> int \<Rightarrow> bool" where
  "side_rule R nb opp face = (case nb of None \<Rightarrow> face = 0
     | Some v \<Rightarrow> face \<noteq> 0 \<and> (v < 0 \<or> face = opp (R ! nat v)))"

definition sides_ok :: "nat \<Rightarrow> part list \<Rightarrow> int list \<Rightarrow> nat \<Rightarrow> part \<Rightarrow> bool" where
  "sides_ok n R g c q \<longleftrightarrow>
     side_rule R (nb_top n g c) p_bottom (p_top q) \<and> side_rule R (nb_right n g c) p_left (p_right q)
     \<and> side_rule R (nb_bottom n g c) p_top (p_bottom q) \<and> side_rule R (nb_left n g c) p_right (p_left q)"

definition pieces_distinct :: "nat \<Rightarrow> part list \<Rightarrow> int list \<Rightarrow> bool" where
  "pieces_distinct n R g \<longleftrightarrow> (\<forall>c \<in> set [0..<n * n]. \<forall>d \<in> set [0..<n * n].
     c \<noteq> d \<longrightarrow> g ! c \<noteq> -2 \<longrightarrow> g ! d \<noteq> -2 \<longrightarrow> piece_of R (g ! c) \<noteq> piece_of R (g ! d))"

definition solution :: "nat \<Rightarrow> part list \<Rightarrow> int list \<Rightarrow> bool" where
  "solution n R s \<longleftrightarrow> length s = n * n
     \<and> (\<forall>c \<in> set [0..<n * n]. valid_value n (s ! c) \<and> sides_ok n R s c (R ! nat (s ! c)))
     \<and> pieces_distinct n R s"

definition completions :: "nat \<Rightarrow> part list \<Rightarrow> int list \<Rightarrow> int list set" where
  "completions n R g = {s. solution n R s \<and> (\<forall>c < n * n. g ! c \<noteq> -2 \<longrightarrow> s ! c = g ! c)}"

lemma solution_cell:
  assumes "solution n R s" "c < n * n"
  shows "valid_value n (s ! c)" "sides_ok n R s c (R ! nat (s ! c))" "s ! c \<noteq> -2"
  using assms by (auto simp: solution_def valid_value_def dest!: bspec[where x = c])

lemma solution_distinct:
  assumes "solution n R s" "c < n * n" "d < n * n" "piece_of R (s ! c) = piece_of R (s ! d)"
  shows "c = d"
proof (rule ccontr)
  assume "c \<noteq> d"
  moreover have "c \<in> set [0..<n * n]" "d \<in> set [0..<n * n]" using assms by simp_all
  ultimately show False using assms solution_cell(3)[OF assms(1)]
    unfolding solution_def pieces_distinct_def by blast
qed

lemma completions_split:
  assumes c: "c < n * n" "g ! c = -2" and len: "length g = n * n"
  shows "completions n R g = (\<Union>v. completions n R (g[c := v]) \<inter> {s. s ! c = v})"
    and "v \<noteq> w \<Longrightarrow> v \<noteq> -2 \<Longrightarrow> w \<noteq> -2 \<Longrightarrow>
         completions n R (g[c := v]) \<inter> completions n R (g[c := w]) = {}"
proof -
  have upd: "g[c := v] ! d = (if d = c then v else g ! d)" if "d < n * n" for d v
    using c len that by simp
  show "completions n R g = (\<Union>v. completions n R (g[c := v]) \<inter> {s. s ! c = v})"
    using c by (auto simp: completions_def upd split: if_splits)
  show "v \<noteq> w \<Longrightarrow> v \<noteq> -2 \<Longrightarrow> w \<noteq> -2 \<Longrightarrow>
         completions n R (g[c := v]) \<inter> completions n R (g[c := w]) = {}"
    using c by (auto simp: completions_def upd)
qed

lemma completions_mono:
  "(\<And>c. c < n * n \<Longrightarrow> g ! c \<noteq> -2 \<Longrightarrow> h ! c = g ! c) \<Longrightarrow> completions n R h \<subseteq> completions n R g"
  by (fastforce simp: completions_def)

section \<open>Keys and neighbours\<close>

definition key_side :: "part list \<Rightarrow> int \<Rightarrow> int option \<Rightarrow> (part \<Rightarrow> int) \<Rightarrow> int" where
  "key_side R all_face nb opp = (case nb of None \<Rightarrow> 0
     | Some v \<Rightarrow> if v < 0 then all_face else opp (R ! nat v))"

lemma cell_neighbours:
  assumes "x < n" "y < n"
  shows "nb_top n g (cell_pos n x y) = (if y = 0 then None else Some (g ! cell_pos n x (y - 1)))"
    and "nb_right n g (cell_pos n x y) = (if n \<le> x + 1 then None else Some (g ! cell_pos n (x + 1) y))"
    and "nb_bottom n g (cell_pos n x y) = (if n \<le> y + 1 then None else Some (g ! cell_pos n x (y + 1)))"
    and "nb_left n g (cell_pos n x y) = (if x = 0 then None else Some (g ! cell_pos n (x - 1) y))"
proof -
  show "nb_top n g (cell_pos n x y) = (if y = 0 then None else Some (g ! cell_pos n x (y - 1)))"
    using assms by (simp add: nb_top_def) (simp add: cell_pos_def)
  show "nb_right n g (cell_pos n x y) = (if n \<le> x + 1 then None else Some (g ! cell_pos n (x + 1) y))"
    using assms by (simp add: nb_right_def) (simp add: cell_pos_def algebra_simps)
  show "nb_bottom n g (cell_pos n x y) = (if n \<le> y + 1 then None else Some (g ! cell_pos n x (y + 1)))"
    using assms by (simp add: nb_bottom_def) (simp add: cell_pos_def algebra_simps)
  show "nb_left n g (cell_pos n x y) = (if x = 0 then None else Some (g ! cell_pos n (x - 1) y))"
    using assms by (simp add: nb_left_def) (cases x; simp add: cell_pos_def algebra_simps)
qed

lemma what_search_key:
  assumes "x < n" "y < n"
  shows "what_search_in_grid_to_key n R p x y af = \<lparr>
     k1 = key_side R af (nb_top n (grid p) (cell_pos n x y)) p_bottom,
     k2 = key_side R af (nb_right n (grid p) (cell_pos n x y)) p_left,
     k3 = key_side R af (nb_bottom n (grid p) (cell_pos n x y)) p_top,
     k4 = key_side R af (nb_left n (grid p) (cell_pos n x y)) p_right\<rparr>"
  using assms by (auto simp: what_search_in_grid_to_key_def key_side_def cell_neighbours grid_at_def)

text \<open>The three routines that compute the key of a cell agree: on the current cell, and up
  to the name of the wildcard.\<close>

lemma what_search_to_key_current:
  "what_search_to_key n R p af = what_search_in_grid_to_key n R p (px p) (py p) af"
  by (simp add: what_search_to_key_def what_search_in_grid_to_key_def Let_def)

lemma what_search_wildcard:
  "what_search n R x y p = what_search_in_grid_to_key n R p x y (-1)"
  by (simp add: what_search_def what_search_in_grid_to_key_def Let_def)

definition grid_ok :: "nat \<Rightarrow> int list \<Rightarrow> bool" where
  "grid_ok n g \<longleftrightarrow> length g = n * n \<and> (\<forall>c \<in> set [0..<n * n]. g ! c = -2 \<or> valid_value n (g ! c))"

lemma grid_okD: "grid_ok n g \<Longrightarrow> c < n * n \<Longrightarrow> g ! c = -2 \<or> valid_value n (g ! c)"
  by (simp add: grid_ok_def)

lemma grid_ok_negative: "grid_ok n g \<Longrightarrow> c < n * n \<Longrightarrow> g ! c < 0 \<longleftrightarrow> g ! c = -2"
  using grid_okD[of n g c] by (auto simp: valid_value_def)

lemma solution_grid_ok: "solution n R s \<Longrightarrow> grid_ok n s"
  by (auto simp: solution_def grid_ok_def)

lemma neighbour_range:
  assumes "c < n * n"
  shows "nb_top n g c = Some v \<Longrightarrow> \<exists>d < n * n. v = g ! d \<and> (\<forall>h. nb_top n h c = Some (h ! d))"
    and "nb_right n g c = Some v \<Longrightarrow> \<exists>d < n * n. v = g ! d \<and> (\<forall>h. nb_right n h c = Some (h ! d))"
    and "nb_bottom n g c = Some v \<Longrightarrow> \<exists>d < n * n. v = g ! d \<and> (\<forall>h. nb_bottom n h c = Some (h ! d))"
    and "nb_left n g c = Some v \<Longrightarrow> \<exists>d < n * n. v = g ! d \<and> (\<forall>h. nb_left n h c = Some (h ! d))"
proof -
  have xy: "c div n < n" "c mod n < n" using cell_less_divmod[OF assms] by auto
  note nb = cell_neighbours[OF xy, unfolded cell_pos_div_mod]
  show "nb_top n g c = Some v \<Longrightarrow> \<exists>d < n * n. v = g ! d \<and> (\<forall>h. nb_top n h c = Some (h ! d))"
    using xy cell_pos_less[OF xy(1) less_imp_diff_less[OF xy(2)], of 1]
    by (auto simp: nb split: if_splits intro!: exI[of _ "cell_pos n (c div n) (c mod n - 1)"])
  show "nb_right n g c = Some v \<Longrightarrow> \<exists>d < n * n. v = g ! d \<and> (\<forall>h. nb_right n h c = Some (h ! d))"
    using xy cell_pos_less[of "c div n + 1" n "c mod n"]
    by (auto simp: nb split: if_splits intro!: exI[of _ "cell_pos n (c div n + 1) (c mod n)"])
  show "nb_bottom n g c = Some v \<Longrightarrow> \<exists>d < n * n. v = g ! d \<and> (\<forall>h. nb_bottom n h c = Some (h ! d))"
    using xy cell_pos_less[of "c div n" n "c mod n + 1"]
    by (auto simp: nb split: if_splits intro!: exI[of _ "cell_pos n (c div n) (c mod n + 1)"])
  show "nb_left n g c = Some v \<Longrightarrow> \<exists>d < n * n. v = g ! d \<and> (\<forall>h. nb_left n h c = Some (h ! d))"
    using xy cell_pos_less[of "c div n - 1" n "c mod n"]
    by (auto simp: nb split: if_splits intro!: exI[of _ "cell_pos n (c div n - 1) (c mod n)"])
qed

text \<open>Two cells are neighbours of each other through opposite sides.\<close>

lemma neighbour_opposite:
  assumes c: "c < n * n" and d: "d < n * n"
  shows "nb_top n h d = Some (h ! e) \<Longrightarrow> e = d - 1 \<Longrightarrow> c = e \<Longrightarrow> nb_bottom n g c = Some (g ! d)"
    and "nb_right n h d = Some (h ! e) \<Longrightarrow> e = d + n \<Longrightarrow> c = e \<Longrightarrow> nb_left n g c = Some (g ! d)"
    and "nb_bottom n h d = Some (h ! e) \<Longrightarrow> e = d + 1 \<Longrightarrow> c = e \<Longrightarrow> nb_top n g c = Some (g ! d)"
    and "nb_left n h d = Some (h ! e) \<Longrightarrow> e = d - n \<Longrightarrow> c = e \<Longrightarrow> nb_right n g c = Some (g ! d)"
proof -
  have n: "0 < n" using c by (cases n) auto
  have xy: "c div n < n" "c mod n < n" using cell_less_divmod[OF c] by auto
  have dxy: "d div n < n" "d mod n < n" using cell_less_divmod[OF d] by auto
  have nge: "\<not> n \<le> d mod n" using dxy by linarith
  have dpos: "d = cell_pos n (d div n) (d mod n)" by simp
  have suc: "(d - 1) mod n = d mod n - 1" "(d - 1) div n = d div n" if "d mod n \<noteq> 0"
  proof -
    have "d - 1 = cell_pos n (d div n) (d mod n - 1)" "d mod n - 1 < n"
      using that dpos dxy unfolding cell_pos_def by linarith+
    then show "(d - 1) mod n = d mod n - 1" "(d - 1) div n = d div n" by simp_all
  qed
  have suc': "(d + 1) mod n = d mod n + 1" if "d mod n + 1 < n"
    using that by (simp add: mod_Suc)
  have left: "d - n + n = d" "(d - n) div n = d div n - 1" if "d div n \<noteq> 0"
  proof -
    have "n \<le> d" using that n by (metis div_less not_le)
    then show "d - n + n = d" "(d - n) div n = d div n - 1" using n by (simp_all add: le_div_geq)
  qed
  show "nb_top n h d = Some (h ! e) \<Longrightarrow> e = d - 1 \<Longrightarrow> c = e \<Longrightarrow> nb_bottom n g c = Some (g ! d)"
    using suc nge by (cases "d = 0") (auto simp: nb_top_def nb_bottom_def split: if_splits)
  have right: "(d + n) div n \<noteq> 0" using div_add_self2[of n d] n by linarith
  show "nb_right n h d = Some (h ! e) \<Longrightarrow> e = d + n \<Longrightarrow> c = e \<Longrightarrow> nb_left n g c = Some (g ! d)"
    using right by (simp add: nb_left_def)
  have bot: "(d + 1) mod n \<noteq> 0" if "\<not> n \<le> d mod n + 1" using suc' that by linarith
  show "nb_bottom n h d = Some (h ! e) \<Longrightarrow> e = d + 1 \<Longrightarrow> c = e \<Longrightarrow> nb_top n g c = Some (g ! d)"
    using bot by (simp add: nb_bottom_def nb_top_def split: if_splits)
  have lft: "\<not> n \<le> (d - n) div n + 1" "d - n + n = d" if "d div n \<noteq> 0"
    using left[OF that] dxy that by linarith+
  show "nb_left n h d = Some (h ! e) \<Longrightarrow> e = d - n \<Longrightarrow> c = e \<Longrightarrow> nb_right n g c = Some (g ! d)"
    using lft by (simp add: nb_left_def nb_right_def split: if_splits)
qed

lemma neighbour_back:
  assumes "c < n * n"
  shows "nb_top n g c = Some v \<Longrightarrow> \<exists>d < n * n. v = g ! d \<and> (\<forall>h. nb_top n h c = Some (h ! d)) \<and> (\<forall>h. nb_bottom n h d = Some (h ! c))"
    and "nb_right n g c = Some v \<Longrightarrow> \<exists>d < n * n. v = g ! d \<and> (\<forall>h. nb_right n h c = Some (h ! d)) \<and> (\<forall>h. nb_left n h d = Some (h ! c))"
    and "nb_bottom n g c = Some v \<Longrightarrow> \<exists>d < n * n. v = g ! d \<and> (\<forall>h. nb_bottom n h c = Some (h ! d)) \<and> (\<forall>h. nb_top n h d = Some (h ! c))"
    and "nb_left n g c = Some v \<Longrightarrow> \<exists>d < n * n. v = g ! d \<and> (\<forall>h. nb_left n h c = Some (h ! d)) \<and> (\<forall>h. nb_right n h d = Some (h ! c))"
proof -
  define g0 where "g0 = map int [0..<n * n + c + n + 1]"
  have g0: "g0 ! i = int i" if "i \<le> n * n + c + n" for i using that by (simp add: g0_def del: upt_Suc)
  have lt: "nb_right n g c \<noteq> None \<Longrightarrow> c + n < n * n" "nb_bottom n g c \<noteq> None \<Longrightarrow> c + 1 < n * n" for g
    using neighbour_range(2,3)[OF assms, of g0] g0 assms
    by (fastforce simp: nb_right_def nb_bottom_def split: if_splits)+
  have lt': "c - 1 < n * n" "c - n < n * n" using assms by auto
  note opp = neighbour_opposite
  show "nb_top n g c = Some v \<Longrightarrow> \<exists>d < n * n. v = g ! d \<and> (\<forall>h. nb_top n h c = Some (h ! d)) \<and> (\<forall>h. nb_bottom n h d = Some (h ! c))"
    using opp(1)[OF lt'(1) assms, of g "c - 1"] lt'
    by (intro exI[of _ "c - 1"]) (auto simp: nb_top_def split: if_splits)
  show "nb_right n g c = Some v \<Longrightarrow> \<exists>d < n * n. v = g ! d \<and> (\<forall>h. nb_right n h c = Some (h ! d)) \<and> (\<forall>h. nb_left n h d = Some (h ! c))"
    using opp(2)[OF lt(1)[of g] assms, of g "c + n"] lt(1)[of g]
    by (intro exI[of _ "c + n"]) (auto simp: nb_right_def split: if_splits)
  show "nb_bottom n g c = Some v \<Longrightarrow> \<exists>d < n * n. v = g ! d \<and> (\<forall>h. nb_bottom n h c = Some (h ! d)) \<and> (\<forall>h. nb_top n h d = Some (h ! c))"
    using opp(3)[OF lt(2)[of g] assms, of g "c + 1"] lt(2)[of g]
    by (intro exI[of _ "c + 1"]) (auto simp: nb_bottom_def split: if_splits)
  show "nb_left n g c = Some v \<Longrightarrow> \<exists>d < n * n. v = g ! d \<and> (\<forall>h. nb_left n h c = Some (h ! d)) \<and> (\<forall>h. nb_right n h d = Some (h ! c))"
    using opp(4)[OF lt'(2) assms, of g "c - n"] lt'
    by (intro exI[of _ "c - n"]) (auto simp: nb_left_def split: if_splits)
qed

section \<open>The board invariant\<close>

text \<open>\<open>marks_ok\<close>: the cells hold \<open>-2\<close> or a rotated piece and the mask marks exactly the
  placed pieces. \<open>board_ok\<close> adds that no piece is placed twice and that every placed
  piece respects the frame and its neighbours.\<close>

definition marks_ok :: "nat \<Rightarrow> part list \<Rightarrow> possibility_packet \<Rightarrow> bool" where
  "marks_ok n R p \<longleftrightarrow> grid_ok n (grid p) \<and> length (b_faceused p) = FACES_USED_SIZE n
     \<and> (\<forall>q \<in> set [0..<n * n]. is_face_used (b_faceused p) q
          \<longleftrightarrow> (\<exists>c \<in> set [0..<n * n]. grid p ! c \<noteq> -2 \<and> piece_of R (grid p ! c) = int q + 1))"

definition board_ok :: "nat \<Rightarrow> part list \<Rightarrow> possibility_packet \<Rightarrow> bool" where
  "board_ok n R p \<longleftrightarrow> marks_ok n R p \<and> pieces_distinct n R (grid p)
     \<and> (\<forall>c \<in> set [0..<n * n]. grid p ! c \<noteq> -2 \<longrightarrow> sides_ok n R (grid p) c (R ! nat (grid p ! c)))"

definition free_piece :: "u16 list \<Rightarrow> part \<Rightarrow> bool" where
  "free_piece fu q \<longleftrightarrow> p_id q \<noteq> 0 \<and> \<not> is_face_used fu (nat (p_id q - 1))"

definition cell_key :: "nat \<Rightarrow> map_big_array \<Rightarrow> part list \<Rightarrow> possibility_packet \<Rightarrow> nat \<Rightarrow> key_part" where
  "cell_key n mp R p c = what_search_in_grid_to_key n R p (c div n) (c mod n) (int (sizearrayM mp))"

definition candidates :: "nat \<Rightarrow> map_big_array \<Rightarrow> part list \<Rightarrow> possibility_packet \<Rightarrow> nat \<Rightarrow> part list" where
  "candidates n mp R p c =
     filter (free_piece (b_faceused p)) (get_parts_bigarray_with_key mp (cell_key n mp R p c))"

definition place :: "nat \<Rightarrow> nat \<Rightarrow> part \<Rightarrow> possibility_packet \<Rightarrow> possibility_packet" where
  "place n c q p = p\<lparr>grid := (grid p)[c := id_for_rotated_part n (p_id q) (p_rotation q)],
     b_faceused := set_face_used (b_faceused p) (nat (p_id q - 1)) 1\<rparr>"

lemma board_marks: "board_ok n R p \<Longrightarrow> marks_ok n R p"
  by (simp add: board_ok_def)

lemma marks_grid: "marks_ok n R p \<Longrightarrow> grid_ok n (grid p)"
  by (simp add: marks_ok_def)

lemma piece_bit_range:
  assumes "rotation_table n R" "length fu = FACES_USED_SIZE n" "1 \<le> pid" "pid \<le> int (n * n)"
  shows "nat (pid - 1) < n * n" and "nat (pid - 1) < 16 * length fu"
proof -
  show a: "nat (pid - 1) < n * n" using assms by linarith
  have "n * n < 16 * (n * n div 16 + 1)" by presburger
  with a show "nat (pid - 1) < 16 * length fu" using assms(2) by (simp add: FACES_USED_SIZE_def)
qed

lemma marked_iff:
  assumes "rotation_table n R" "marks_ok n R p" "valid_value n v"
  shows "is_face_used (b_faceused p) (nat (piece_of R v - 1))
    \<longleftrightarrow> (\<exists>c < n * n. grid p ! c \<noteq> -2 \<and> piece_of R (grid p ! c) = piece_of R v)"
proof -
  have r: "1 \<le> piece_of R v" "piece_of R v \<le> int (n * n)" using piece_range assms by auto
  then have lt: "nat (piece_of R v - 1) < n * n" by linarith
  have "int (nat (piece_of R v - 1)) + 1 = piece_of R v" using r by simp
  then show ?thesis using assms(2) lt by (auto simp: marks_ok_def)
qed

section \<open>Candidates of a cell\<close>

lemma table_faces:
  assumes "rotation_table n R" "valid_value n v" "mp = prepare_map_part R a b"
  shows "p_top (R ! nat v) \<in> {0..<int (sizearrayM mp)}" "p_right (R ! nat v) \<in> {0..<int (sizearrayM mp)}"
    "p_bottom (R ! nat v) \<in> {0..<int (sizearrayM mp)}" "p_left (R ! nat v) \<in> {0..<int (sizearrayM mp)}"
  using rotation_table_entry(3,4)[OF assms(1,2)] search_max_face_bound[of "R ! nat v" R]
    search_max_face_nonneg[of R]
  by (auto simp: assms(3) sizearrayM_prepare faces_ok_def)

lemma key_side_range:
  assumes "rotation_table n R" "mp = prepare_map_part R a b" "grid_ok n g"
    and "nb = None \<or> (\<exists>d < n * n. nb = Some (g ! d))"
    and "opp \<in> {p_top, p_right, p_bottom, p_left}"
  shows "0 \<le> key_side R (int (sizearrayM mp)) nb opp \<and> key_side R (int (sizearrayM mp)) nb opp \<le> int (sizearrayM mp)"
proof (cases "\<exists>d < n * n. nb = Some (g ! d)")
  case True
  then obtain d where d: "d < n * n" "nb = Some (g ! d)" by blast
  show ?thesis
  proof (cases "g ! d < 0")
    case False
    then have "valid_value n (g ! d)" using grid_okD[OF assms(3) d(1)] by auto
    from table_faces[OF assms(1) this assms(2)] show ?thesis
      using assms(5) d False by (auto simp: key_side_def)
  qed (use d in \<open>simp add: key_side_def\<close>)
qed (use assms(4) in \<open>auto simp: key_side_def\<close>)

lemma neighbours_exist:
  assumes "c < n * n"
  shows "nb_top n g c = None \<or> (\<exists>d < n * n. nb_top n g c = Some (g ! d))"
    "nb_right n g c = None \<or> (\<exists>d < n * n. nb_right n g c = Some (g ! d))"
    "nb_bottom n g c = None \<or> (\<exists>d < n * n. nb_bottom n g c = Some (g ! d))"
    "nb_left n g c = None \<or> (\<exists>d < n * n. nb_left n g c = Some (g ! d))"
  using neighbour_range[OF assms, of g] by (metis not_Some_eq)+

lemma cell_key_sides:
  assumes "c < n * n"
  shows "cell_key n mp R p c = \<lparr>
     k1 = key_side R (int (sizearrayM mp)) (nb_top n (grid p) c) p_bottom,
     k2 = key_side R (int (sizearrayM mp)) (nb_right n (grid p) c) p_left,
     k3 = key_side R (int (sizearrayM mp)) (nb_bottom n (grid p) c) p_top,
     k4 = key_side R (int (sizearrayM mp)) (nb_left n (grid p) c) p_right\<rparr>"
  using cell_less_divmod[OF assms] by (simp add: cell_key_def what_search_key)

lemma cell_key_range:
  assumes "rotation_table n R" "mp = prepare_map_part R a b" "grid_ok n (grid p)" "c < n * n"
  shows "key_in_range (sizearrayM mp) (cell_key n mp R p c)"
  using key_side_range[OF assms(1-3) neighbours_exist(1)[OF assms(4)], of p_bottom]
    key_side_range[OF assms(1-3) neighbours_exist(2)[OF assms(4)], of p_left]
    key_side_range[OF assms(1-3) neighbours_exist(3)[OF assms(4)], of p_top]
    key_side_range[OF assms(1-3) neighbours_exist(4)[OF assms(4)], of p_right]
  by (simp add: cell_key_sides[OF assms(4)] key_in_range_def)

lemma side_rule_fits:
  assumes M: "0 < (M::nat)" and nb: "nb = None \<or> (\<exists>d. nb = Some (g ! d) \<and> nb' = Some (s ! d)
       \<and> (g ! d < 0 \<or> s ! d = g ! d \<and> opp (R ! nat (g ! d)) \<noteq> int M))"
    and "nb = None \<Longrightarrow> nb' = None" "side_rule R nb' opp face"
  shows "side_fits M (key_side R (int M) nb opp) face"
  using assms by (auto simp: side_rule_def side_fits_def key_side_def)

lemma side_fits_rule:
  assumes "0 < (M::nat)" "\<And>v. nb = Some v \<Longrightarrow> 0 \<le> v \<Longrightarrow> opp (R ! nat v) \<noteq> 0 \<and> opp (R ! nat v) \<noteq> int M"
    and "side_fits M (key_side R (int M) nb opp) face"
  shows "side_rule R nb opp face"
  using assms by (fastforce simp: side_rule_def side_fits_def key_side_def split: option.splits if_splits)

lemma sizearrayM_pos: "0 < sizearrayM (prepare_map_part R a b)"
  using search_max_face_nonneg[of R] by (simp add: sizearrayM_prepare)

lemma completion_fits:
  assumes R: "rotation_table n R" and mp: "mp = prepare_map_part R a b"
    and g: "grid_ok n (grid p)" and c: "c < n * n" and s: "s \<in> completions n R (grid p)"
  shows "key_fits (sizearrayM mp) (cell_key n mp R p c) (R ! nat (s ! c))"
proof -
  from s have sol: "solution n R s" and ext: "\<And>d. d < n * n \<Longrightarrow> grid p ! d \<noteq> -2 \<Longrightarrow> s ! d = grid p ! d"
    by (auto simp: completions_def)
  have M: "0 < sizearrayM mp" by (simp add: mp sizearrayM_pos)
  have sides: "sides_ok n R s c (R ! nat (s ! c))" using solution_cell(2)[OF sol c] .
  have near: "grid p ! d < 0 \<or> s ! d = grid p ! d \<and> opp (R ! nat (grid p ! d)) \<noteq> int (sizearrayM mp)"
    if d: "d < n * n" and opp: "opp \<in> {p_top, p_right, p_bottom, p_left}" for d opp
  proof (cases "grid p ! d = -2")
    case False
    then have "valid_value n (grid p ! d)" using grid_okD[OF g d] by blast
    from table_faces[OF R this mp] show ?thesis using ext[OF d False] opp by auto
  qed simp
  have nbs: "nb = None \<or> (\<exists>d. nb = Some (grid p ! d) \<and> nb' = Some (s ! d)
       \<and> (grid p ! d < 0 \<or> s ! d = grid p ! d \<and> opp (R ! nat (grid p ! d)) \<noteq> int (sizearrayM mp)))"
    if "\<And>v. nb = Some v \<Longrightarrow> \<exists>d < n * n. v = grid p ! d \<and> nb' = Some (s ! d)"
      and "opp \<in> {p_top, p_right, p_bottom, p_left}" for nb nb' opp
    using that near by (cases nb) blast+
  note rng = neighbour_range[OF c, of "grid p"]
  show ?thesis
    unfolding key_fits_def cell_key_sides[OF c] key_part.select_convs
  proof (intro conjI)
    show "side_fits (sizearrayM mp) (key_side R (int (sizearrayM mp)) (nb_top n (grid p) c) p_bottom) (p_top (R ! nat (s ! c)))"
      by (rule side_rule_fits[where g = "grid p" and s = s and nb' = "nb_top n s c", OF M nbs])
        (use rng(1) sides in \<open>auto simp: sides_ok_def nb_top_def split: if_splits\<close>)
    show "side_fits (sizearrayM mp) (key_side R (int (sizearrayM mp)) (nb_right n (grid p) c) p_left) (p_right (R ! nat (s ! c)))"
      by (rule side_rule_fits[where g = "grid p" and s = s and nb' = "nb_right n s c", OF M nbs])
        (use rng(2) sides in \<open>auto simp: sides_ok_def nb_right_def split: if_splits\<close>)
    show "side_fits (sizearrayM mp) (key_side R (int (sizearrayM mp)) (nb_bottom n (grid p) c) p_top) (p_bottom (R ! nat (s ! c)))"
      by (rule side_rule_fits[where g = "grid p" and s = s and nb' = "nb_bottom n s c", OF M nbs])
        (use rng(3) sides in \<open>auto simp: sides_ok_def nb_bottom_def split: if_splits\<close>)
    show "side_fits (sizearrayM mp) (key_side R (int (sizearrayM mp)) (nb_left n (grid p) c) p_right) (p_left (R ! nat (s ! c)))"
      by (rule side_rule_fits[where g = "grid p" and s = s and nb' = "nb_left n s c", OF M nbs])
        (use rng(4) sides in \<open>auto simp: sides_ok_def nb_left_def split: if_splits\<close>)
  qed
qed

text \<open>Whatever a completion puts on an empty cell is a free candidate of that cell.\<close>

lemma completion_candidate:
  assumes R: "rotation_table n R" and mp: "mp = prepare_map_part R a b"
    and p: "marks_ok n R p" and c: "c < n * n" "grid p ! c = -2" and s: "s \<in> completions n R (grid p)"
  shows "R ! nat (s ! c) \<in> set (candidates n mp R p c)"
proof -
  from s have sol: "solution n R s" and ext: "\<And>d. d < n * n \<Longrightarrow> grid p ! d \<noteq> -2 \<Longrightarrow> s ! d = grid p ! d"
    by (auto simp: completions_def)
  note v = solution_cell(1)[OF sol c(1)]
  have g: "grid_ok n (grid p)" using p by (rule marks_grid)
  have "key_in_range (sizearrayM mp) (cell_key n mp R p c)" using cell_key_range[OF R mp g c(1)] .
  then have look: "R ! nat (s ! c) \<in> set (get_parts_bigarray_with_key mp (cell_key n mp R p c))"
    using completion_fits[OF R mp g c(1) s] rotation_table_entry(4)[OF R v]
    by (simp add: mp flat_table.mem_lookup)
  have "\<not> is_face_used (b_faceused p) (nat (piece_of R (s ! c) - 1))"
  proof
    assume "is_face_used (b_faceused p) (nat (piece_of R (s ! c) - 1))"
    then obtain d where d: "d < n * n" "grid p ! d \<noteq> -2" "piece_of R (grid p ! d) = piece_of R (s ! c)"
      using marked_iff[OF R p v] by blast
    then have "d \<noteq> c" "piece_of R (s ! d) = piece_of R (s ! c)" using c ext by auto
    then show False using solution_distinct[OF sol d(1) c(1)] by blast
  qed
  then show ?thesis using look piece_range(1)[OF R v] by (simp add: candidates_def free_piece_def)
qed

lemma candidateD:
  assumes R: "rotation_table n R" and mp: "mp = prepare_map_part R a b"
    and g: "grid_ok n (grid p)" and c: "c < n * n" and q: "q \<in> set (candidates n mp R p c)"
  shows "q \<in> set R" "p_id q \<noteq> 0" "\<not> is_face_used (b_faceused p) (nat (p_id q - 1))"
    and "key_fits (sizearrayM mp) (cell_key n mp R p c) q"
  using q cell_key_range[OF R mp g c]
  by (simp_all add: candidates_def free_piece_def mp flat_table.mem_lookup)

lemma no_candidate_no_completion:
  assumes "rotation_table n R" "mp = prepare_map_part R a b" "marks_ok n R p"
    and "c < n * n" "grid p ! c = -2" "candidates n mp R p c = []"
  shows "completions n R (grid p) = {}"
  using completion_candidate[OF assms(1-5)] assms(6) by fastforce

text \<open>Expanding any one empty cell over its free candidates loses no completion and counts
  none twice.\<close>

lemma completions_children:
  assumes R: "rotation_table n R" and mp: "mp = prepare_map_part R a b"
    and p: "marks_ok n R p" and c: "c < n * n" "grid p ! c = -2"
  shows "completions n R (grid p) = (\<Union>q \<in> set (candidates n mp R p c). completions n R (grid (place n c q p)))"
proof
  have len: "length (grid p) = n * n" using p by (simp add: marks_ok_def grid_ok_def)
  show "completions n R (grid p) \<subseteq> (\<Union>q \<in> set (candidates n mp R p c). completions n R (grid (place n c q p)))"
  proof
    fix s assume s: "s \<in> completions n R (grid p)"
    then have sol: "solution n R s" by (simp add: completions_def)
    from id_for_rotated_value[OF R solution_cell(1)[OF sol c(1)]]
    have "s \<in> completions n R (grid (place n c (R ! nat (s ! c)) p))"
      using s c len by (auto simp: place_def completions_def nth_list_update)
    then show "s \<in> (\<Union>q \<in> set (candidates n mp R p c). completions n R (grid (place n c q p)))"
      using completion_candidate[OF R mp p c s] by blast
  qed
  show "(\<Union>q \<in> set (candidates n mp R p c). completions n R (grid (place n c q p))) \<subseteq> completions n R (grid p)"
    using c len by (intro UN_least completions_mono) (auto simp: place_def nth_list_update)
qed

lemma children_disjoint:
  assumes R: "rotation_table n R" and mp: "mp = prepare_map_part R a b"
    and g: "grid_ok n (grid p)" and c: "c < n * n" "grid p ! c = -2"
    and q: "q \<in> set (candidates n mp R p c)" "r \<in> set (candidates n mp R p c)" "q \<noteq> r"
  shows "completions n R (grid (place n c q p)) \<inter> completions n R (grid (place n c r p)) = {}"
proof -
  note tq = table_member[OF R candidateD(1,2)[OF R mp g c(1) q(1)]]
  note tr = table_member[OF R candidateD(1,2)[OF R mp g c(1) q(2)]]
  have len: "length (grid p) = n * n" using g by (simp add: grid_ok_def)
  let ?v = "id_for_rotated_part n (p_id q) (p_rotation q)" and ?w = "id_for_rotated_part n (p_id r) (p_rotation r)"
  have "?v \<noteq> ?w" "?v \<noteq> -2" "?w \<noteq> -2" using tq tr q(3) unfolding valid_value_def by auto
  from completions_split(2)[OF c len this] show ?thesis by (simp add: place_def)
qed

text \<open>Placing a free candidate keeps the invariant.\<close>

lemma candidate_sides:
  assumes R: "rotation_table n R" and mp: "mp = prepare_map_part R a b"
    and p: "board_ok n R p" and c: "c < n * n" "grid p ! c = -2" and q: "q \<in> set (candidates n mp R p c)"
  shows "sides_ok n R (grid p) c q"
proof -
  have g: "grid_ok n (grid p)" using p by (intro marks_grid board_marks)
  have M: "0 < sizearrayM mp" by (simp add: mp sizearrayM_pos)
  note fits = candidateD(4)[OF R mp g c(1) q, unfolded key_fits_def cell_key_sides[OF c(1)] key_part.select_convs]
  have val: "valid_value n (grid p ! d) \<and> sides_ok n R (grid p) d (R ! nat (grid p ! d))"
    if "d < n * n" "0 \<le> grid p ! d" for d
    using that p grid_okD[OF g that(1)] by (auto simp: board_ok_def)
  have far: "opp (R ! nat v) \<noteq> 0 \<and> opp (R ! nat v) \<noteq> int (sizearrayM mp)"
    if "valid_value n v" "side_rule R (Some w) own (opp (R ! nat v))" "opp \<in> {p_top, p_right, p_bottom, p_left}"
    for opp own v w
    using that table_faces[OF R that(1) mp] by (auto simp: side_rule_def)
  show ?thesis unfolding sides_ok_def
  proof (intro conjI)
    show "side_rule R (nb_top n (grid p) c) p_bottom (p_top q)"
      by (rule side_fits_rule[OF M])
        (use fits val far[of _ "grid p ! c" p_top p_bottom] neighbour_back(1)[OF c(1), of "grid p"]
          in \<open>fastforce simp: sides_ok_def\<close>)+
    show "side_rule R (nb_right n (grid p) c) p_left (p_right q)"
      by (rule side_fits_rule[OF M])
        (use fits val far[of _ "grid p ! c" p_right p_left] neighbour_back(2)[OF c(1), of "grid p"]
          in \<open>fastforce simp: sides_ok_def\<close>)+
    show "side_rule R (nb_bottom n (grid p) c) p_top (p_bottom q)"
      by (rule side_fits_rule[OF M])
        (use fits val far[of _ "grid p ! c" p_bottom p_top] neighbour_back(3)[OF c(1), of "grid p"]
          in \<open>fastforce simp: sides_ok_def\<close>)+
    show "side_rule R (nb_left n (grid p) c) p_right (p_left q)"
      by (rule side_fits_rule[OF M])
        (use fits val far[of _ "grid p ! c" p_left p_right] neighbour_back(4)[OF c(1), of "grid p"]
          in \<open>fastforce simp: sides_ok_def\<close>)+
  qed
qed

lemma place_marks:
  assumes R: "rotation_table n R" and p: "marks_ok n R p" and c: "c < n * n" "grid p ! c = -2"
    and q: "q \<in> set R" "p_id q \<noteq> 0"
  shows "marks_ok n R (place n c q p)"
proof -
  let ?v = "id_for_rotated_part n (p_id q) (p_rotation q)"
  note t = table_member[OF R q]
  have pid: "1 \<le> p_id q" "p_id q \<le> int (n * n)" using piece_range[OF R t(1)] t(2) by auto
  have fu: "length (b_faceused p) = FACES_USED_SIZE n" and len: "length (grid p) = n * n"
    and g: "grid_ok n (grid p)" using p by (auto simp: marks_ok_def grid_ok_def)
  note bit = piece_bit_range[OF R fu pid]
  have nth: "(grid p)[c := ?v] ! d = (if d = c then ?v else grid p ! d)" if "d < n * n" for d
    using that len by simp
  have "grid_ok n ((grid p)[c := ?v])"
    using g t(1) len by (auto simp: grid_ok_def nth)
  moreover have "is_face_used (set_face_used (b_faceused p) (nat (p_id q - 1)) 1) j
      \<longleftrightarrow> (\<exists>d \<in> set [0..<n * n]. (grid p)[c := ?v] ! d \<noteq> -2 \<and> piece_of R ((grid p)[c := ?v] ! d) = int j + 1)"
    (is "?L \<longleftrightarrow> ?E") if j: "j < n * n" for j
  proof -
    have "?L \<longleftrightarrow> j = nat (p_id q - 1) \<or> is_face_used (b_faceused p) j"
      using is_face_used_set[OF bit(2), of 1 j] by auto
    also have "\<dots> \<longleftrightarrow> piece_of R ?v = int j + 1 \<or> is_face_used (b_faceused p) j"
      using pid t(2) by auto
    also have "\<dots> \<longleftrightarrow> ?E"
      using p j c t(1) by (auto simp: marks_ok_def nth valid_value_def split: if_splits)
    finally show ?thesis .
  qed
  ultimately show ?thesis using fu by (simp add: marks_ok_def place_def)
qed

text \<open>A cell that changes only touches the sides that face it.\<close>

lemma sides_ok_fill:
  assumes d: "d < n * n" and c: "c < n * n" "g ! c = -2" and len: "length g = n * n"
    and old: "sides_ok n R g d q'" "q' = R ! nat (g ! d)" "0 \<le> g ! d"
    and new: "sides_ok n R g c (R ! nat v)"
  shows "sides_ok n R (g[c := v]) d q'"
proof -
  have nth: "g[c := v] ! e = (if e = c then v else g ! e)" if "e < n * n" for e
    using that len by simp
  have step: "side_rule R nb' opp (own q')"
    if "nb' = None \<Longrightarrow> nb = None" "side_rule R nb opp (own q')"
      "\<And>x. nb' = Some x \<Longrightarrow> \<exists>e < n * n. nb = Some (g ! e) \<and> x = g[c := v] ! e
          \<and> (e = c \<longrightarrow> side_rule R (Some (g ! d)) own (opp (R ! nat v)))" for nb nb' opp own
    using that old c by (cases nb') (auto simp: nth side_rule_def split: if_splits)
  note nb = neighbour_back[OF d, of "g[c := v]"]
  show ?thesis unfolding sides_ok_def
  proof (intro conjI)
    show "side_rule R (nb_top n (g[c := v]) d) p_bottom (p_top q')"
      by (rule step[where nb = "nb_top n g d"])
        (use nb(1) old(1) new in \<open>auto simp: sides_ok_def nb_top_def split: if_splits\<close>)
    show "side_rule R (nb_right n (g[c := v]) d) p_left (p_right q')"
      by (rule step[where nb = "nb_right n g d"])
        (use nb(2) old(1) new in \<open>auto simp: sides_ok_def nb_right_def split: if_splits\<close>)
    show "side_rule R (nb_bottom n (g[c := v]) d) p_top (p_bottom q')"
      by (rule step[where nb = "nb_bottom n g d"])
        (use nb(3) old(1) new in \<open>auto simp: sides_ok_def nb_bottom_def split: if_splits\<close>)
    show "side_rule R (nb_left n (g[c := v]) d) p_right (p_left q')"
      by (rule step[where nb = "nb_left n g d"])
        (use nb(4) old(1) new in \<open>auto simp: sides_ok_def nb_left_def split: if_splits\<close>)
  qed
qed

lemma sides_ok_self:
  assumes "c < n * n"
  shows "sides_ok n R (g[c := v]) c q = sides_ok n R g c q"
proof -
  have n: "0 < n" using assms by (cases n) auto
  have "nb_top n (g[c := v]) c = nb_top n g c" by (cases c) (auto simp: nb_top_def)
  moreover have "nb_left n (g[c := v]) c = nb_left n g c" using n by (cases c) (auto simp: nb_left_def)
  moreover have "nb_right n (g[c := v]) c = nb_right n g c" "nb_bottom n (g[c := v]) c = nb_bottom n g c"
    using n by (simp_all add: nb_right_def nb_bottom_def)
  ultimately show ?thesis by (simp add: sides_ok_def)
qed

lemma place_board_ok:
  assumes R: "rotation_table n R" and mp: "mp = prepare_map_part R a b"
    and p: "board_ok n R p" and c: "c < n * n" "grid p ! c = -2" and q: "q \<in> set (candidates n mp R p c)"
  shows "board_ok n R (place n c q p)"
proof -
  let ?v = "id_for_rotated_part n (p_id q) (p_rotation q)" and ?g = "grid p"
  have m: "marks_ok n R p" and g: "grid_ok n ?g" and len: "length ?g = n * n"
    using p by (auto simp: board_ok_def marks_ok_def grid_ok_def)
  note cq = candidateD[OF R mp g c(1) q]
  note t = table_member[OF R cq(1,2)]
  have nth: "?g[c := ?v] ! d = (if d = c then ?v else ?g ! d)" if "d < n * n" for d using that len by simp
  have new: "sides_ok n R ?g c (R ! nat ?v)" using candidate_sides[OF R mp p c q] t(2) by simp
  have fresh: "piece_of R (?g ! d) \<noteq> piece_of R ?v" if "d < n * n" "?g ! d \<noteq> -2" for d
    using marked_iff[OF R m t(1)] cq(3) t(2) that by auto
  have "pieces_distinct n R (?g[c := ?v])"
    using p unfolding board_ok_def pieces_distinct_def
    by (auto simp: nth dest: fresh fresh[THEN not_sym] split: if_splits)
  moreover have "sides_ok n R (?g[c := ?v]) d (R ! nat (?g[c := ?v] ! d))"
    if d: "d < n * n" "?g[c := ?v] ! d \<noteq> -2" for d
  proof (cases "d = c")
    case True
    then show ?thesis using new nth[OF c(1)] by (simp add: sides_ok_self[OF c(1)])
  next
    case False
    then have "sides_ok n R ?g d (R ! nat (?g ! d))" "0 \<le> ?g ! d"
      using p d nth grid_okD[OF g d(1)] by (auto simp: board_ok_def valid_value_def)
    then show ?thesis using sides_ok_fill[OF d(1) c len _ refl _ new] False nth[OF d(1)] by simp
  qed
  ultimately show ?thesis
    using place_marks[OF R m c cq(1,2)] by (simp add: board_ok_def place_def)
qed

text \<open>A full board that satisfies the invariant is a solution.\<close>

lemma full_board_solution:
  assumes "board_ok n R p" "\<forall>c < n * n. grid p ! c \<noteq> -2"
  shows "solution n R (grid p)"
  using assms by (auto simp: board_ok_def marks_ok_def grid_ok_def solution_def)

lemma full_board_completions:
  assumes "solution n R s" shows "completions n R s = {s}"
  using assms solution_cell(3)[OF assms]
  by (auto simp: completions_def solution_def intro: nth_equalityI)

section \<open>The validity check\<close>

lemma check_neighbours_key: "check_neighbours n R p x y = what_search_in_grid_to_key n R p x y (-1)"
  by (simp add: check_neighbours_def what_search_in_grid_to_key_def)

definition side_agrees :: "part list \<Rightarrow> int option \<Rightarrow> (part \<Rightarrow> int) \<Rightarrow> int \<Rightarrow> bool" where
  "side_agrees R nb opp face = (case nb of None \<Rightarrow> face = 0 | Some v \<Rightarrow> v < 0 \<or> face = opp (R ! nat v))"

definition no_conflict :: "nat \<Rightarrow> part list \<Rightarrow> int list \<Rightarrow> nat \<Rightarrow> bool" where
  "no_conflict n R g c \<longleftrightarrow> (let q = R ! nat (g ! c) in
     side_agrees R (nb_top n g c) p_bottom (p_top q) \<and> side_agrees R (nb_right n g c) p_left (p_right q)
     \<and> side_agrees R (nb_bottom n g c) p_top (p_bottom q) \<and> side_agrees R (nb_left n g c) p_right (p_left q))"

lemma side_clash_agrees:
  assumes "\<And>v. nb = Some v \<Longrightarrow> 0 \<le> v \<Longrightarrow> 0 \<le> opp (R ! nat v)"
  shows "\<not> side_clash (key_side R (-1) nb opp) face \<longleftrightarrow> side_agrees R nb opp face"
  using assms by (force simp: side_clash_def key_side_def side_agrees_def split: option.splits)

lemma faces_in_table:
  assumes "rotation_table n R" "0 \<le> v" "v < int (length R)"
  shows "faces_ok (R ! nat v)"
proof (cases "v = 0")
  case True
  then show ?thesis using assms(1) by (simp add: rotation_table_def zero_part_def faces_ok_def)
next
  case False
  moreover have "length R = 4 * (n * n) + 1" using assms(1) by (simp add: rotation_table_def)
  ultimately have "valid_value n v" using assms(2,3) unfolding valid_value_def by linarith
  then show ?thesis using rotation_table_entry(3)[OF assms(1)] by blast
qed

definition in_table :: "nat \<Rightarrow> part list \<Rightarrow> int list \<Rightarrow> bool" where
  "in_table n R g \<longleftrightarrow> (\<forall>c \<in> set [0..<n * n]. g ! c = -2 \<or> 0 \<le> g ! c \<and> g ! c < int (length R))"

lemma check_cell_zero:
  assumes R: "rotation_table n R" and c: "c < n * n" and t: "in_table n R (grid p)"
  shows "check_cell n R p (c div n) (c mod n) = 0 \<longleftrightarrow> grid p ! c = -2 \<or> no_conflict n R (grid p) c"
proof -
  have xy: "c div n < n" "c mod n < n" using cell_less_divmod[OF c] by auto
  have nonneg: "0 \<le> opp (R ! nat (grid p ! d))"
    if "d < n * n" "0 \<le> grid p ! d" "opp \<in> {p_top, p_right, p_bottom, p_left}" for d opp
  proof -
    have "grid p ! d < int (length R)" using t that(1,2) by (force simp: in_table_def)
    from faces_in_table[OF R that(2) this] show ?thesis using that(3) by (auto simp: faces_ok_def)
  qed
  have "\<not> side_clash (key_side R (-1) nb opp) face \<longleftrightarrow> side_agrees R nb opp face"
    if "nb = None \<or> (\<exists>d < n * n. nb = Some (grid p ! d))" "opp \<in> {p_top, p_right, p_bottom, p_left}"
    for nb opp face
    using that nonneg by (intro side_clash_agrees) auto
  note agree = this[OF neighbours_exist(1)[OF c], of p_bottom] this[OF neighbours_exist(2)[OF c], of p_left]
    this[OF neighbours_exist(3)[OF c], of p_top] this[OF neighbours_exist(4)[OF c], of p_right]
  have "grid p ! c = -2 \<or> 0 \<le> grid p ! c \<and> grid p ! c < int (length R)"
    using t c by (auto simp: in_table_def)
  then show ?thesis using agree
    by (auto simp: check_cell_def grid_at_def check_neighbours_key what_search_key[OF xy] check_sides_def
        no_conflict_def Let_def)
qed

lemma check_cell_in_table:
  "check_cell n R p (c div n) (c mod n) = 0 \<Longrightarrow> grid p ! c = -2 \<or> 0 \<le> grid p ! c \<and> grid p ! c < int (length R)"
  by (auto simp: check_cell_def grid_at_def Let_def split: if_splits)

lemma check_cells_dirs:
  assumes "ETERN_SIZE_supported n"
  shows "check_cells n R p [0..<n * n] = 0 \<longleftrightarrow> (\<forall>c < n * n. check_cell n R p (c div n) (c mod n) = 0)"
proof -
  have n: "0 < n" using assms by (auto simp: ETERN_SIZE_supported_def)
  have yn: "diry n ! i < n" if "i < n * n" for i
    using diry_less[OF assms that] .
  have "check_cells n R p [0..<n * n] = 0 \<longleftrightarrow> (\<forall>c \<in> set (dir_cells n). check_cell n R p (c div n) (c mod n) = 0)"
    using yn by (auto simp: check_cells_zero dir_cells_def)
  then show ?thesis using dir_cells_perm(2)[OF assms] by (auto simp: atLeast0LessThan)
qed

definition conflict_free :: "nat \<Rightarrow> part list \<Rightarrow> int list \<Rightarrow> bool" where
  "conflict_free n R g \<longleftrightarrow> (\<forall>c \<in> set [0..<n * n]. g ! c \<noteq> -2 \<longrightarrow> no_conflict n R g c)"

lemma check_cells_sound:
  assumes "ETERN_SIZE_supported n" "rotation_table n R" "check_cells n R p [0..<n * n] = 0"
  shows "in_table n R (grid p)" and "\<forall>c < n * n. grid p ! c \<noteq> -2 \<longrightarrow> no_conflict n R (grid p) c"
proof -
  have z: "\<forall>c < n * n. check_cell n R p (c div n) (c mod n) = 0"
    using assms check_cells_dirs by blast
  then show t: "in_table n R (grid p)"
    using check_cell_in_table[of n R p] by (auto simp: in_table_def)
  show "\<forall>c < n * n. grid p ! c \<noteq> -2 \<longrightarrow> no_conflict n R (grid p) c"
    using z check_cell_zero[OF assms(2) _ t] by blast
qed

lemma side_rule_agrees: "side_rule R nb opp face \<Longrightarrow> side_agrees R nb opp face"
  by (auto simp: side_rule_def side_agrees_def split: option.splits)

lemma grid_ok_in_table:
  assumes "rotation_table n R" "grid_ok n g"
  shows "in_table n R g"
proof -
  have "length R = 4 * (n * n) + 1" using assms(1) by (simp add: rotation_table_def)
  then have "valid_value n v \<Longrightarrow> 0 \<le> v \<and> v < int (length R)" for v
    unfolding valid_value_def by linarith
  then show ?thesis using assms(2) by (auto simp: in_table_def grid_ok_def)
qed

lemma board_ok_check_cells:
  assumes "ETERN_SIZE_supported n" "rotation_table n R" "board_ok n R p"
  shows "check_cells n R p [0..<n * n] = 0"
proof -
  have t: "in_table n R (grid p)"
    using grid_ok_in_table[OF assms(2)] assms(3) by (simp add: board_ok_def marks_ok_def)
  have "no_conflict n R (grid p) c" if "c < n * n" "grid p ! c \<noteq> -2" for c
    using assms(3) that by (simp add: board_ok_def sides_ok_def no_conflict_def Let_def side_rule_agrees)
  then show ?thesis
    using check_cells_dirs[OF assms(1)] check_cell_zero[OF assms(2) _ t] by blast
qed

text \<open>On a board that satisfies the invariant the mask has one bit per placed cell.\<close>

lemma face_count_board:
  assumes R: "rotation_table n R" and p: "board_ok n R p"
  shows "face_count n (b_faceused p) = possibility_placed_count n p"
proof -
  let ?C = "{c. c < n * n \<and> grid p ! c \<noteq> -2}" and ?f = "\<lambda>c. nat (piece_of R (grid p ! c) - 1)"
  have m: "marks_ok n R p" and g: "grid_ok n (grid p)" and len: "length (grid p) = n * n"
    using p by (auto simp: board_ok_def marks_ok_def grid_ok_def)
  have val: "valid_value n (grid p ! c)" if "c \<in> ?C" for c using that grid_okD[OF g] by auto
  note pr = piece_range[OF R val]
  have "inj_on ?f ?C"
  proof (rule inj_onI)
    fix c d assume cd: "c \<in> ?C" "d \<in> ?C" "?f c = ?f d"
    then have "piece_of R (grid p ! c) = piece_of R (grid p ! d)" using pr[OF cd(1)] pr[OF cd(2)] by linarith
    then show "c = d" using p cd by (fastforce simp: board_ok_def pieces_distinct_def)
  qed
  then have "card (?f ` ?C) = card ?C" by (rule card_image)
  moreover have "?f ` ?C = {q. q < n * n \<and> is_face_used (b_faceused p) q}"
  proof (intro set_eqI iffI)
    fix q assume "q \<in> ?f ` ?C"
    then obtain c where c: "c \<in> ?C" "q = ?f c" by blast
    moreover have "?f c < n * n" using pr[OF c(1)] by linarith
    ultimately show "q \<in> {q. q < n * n \<and> is_face_used (b_faceused p) q}"
      using marked_iff[OF R m val[OF c(1)]] by auto
  next
    fix q assume "q \<in> {q. q < n * n \<and> is_face_used (b_faceused p) q}"
    then obtain c where "c \<in> ?C" "piece_of R (grid p ! c) = int q + 1" using m by (auto simp: marks_ok_def)
    then show "q \<in> ?f ` ?C" by (intro image_eqI[of _ _ c]) auto
  qed
  moreover have "length (filter P [0..<k]) = card {q. q < k \<and> P q}" for P k
    using distinct_card[of "filter P [0..<k]"] by (simp add: Collect_conj_eq Int_commute lessThan_def atLeast0LessThan)
  ultimately show ?thesis
    using filter_upt_nth[of "\<lambda>v. v \<noteq> -2" "grid p"]
    by (simp add: face_count_filter placed_count_filter[OF len] len)
qed

end
