(* ===== verification/Sample.thy ===== *)
theory Sample
  imports Puzzle
begin

text \<open>
  A 4x4 puzzle on which the hypotheses of the properties are exhibited: four corner
  pieces, eight border pieces and four inner pieces, every interior edge of colour 1.
  Its rotation table is the one \<open>rotate_all_parts\<close> computes; the positions are the
  empty board and a full one.
\<close>

definition sample_piece :: "int \<Rightarrow> part" where
  "sample_piece i = \<lparr>p_id = i, p_top = (if i \<le> 12 then 0 else 1), p_right = 1, p_bottom = 1,
     p_left = (if i \<le> 4 then 0 else 1), p_rotation = 0\<rparr>"

definition sample_parts :: "part list" where
  "sample_parts = zero_part # map sample_piece [1..16]"

definition sample_rotations :: "part list" where
  "sample_rotations = the (rotate_all_parts 4 16 sample_parts)"

definition sample_empty :: possibility_packet where
  "sample_empty = generate_possibility_packet 4 0 0 (replicate 16 None)"

definition sample_solution :: "int list" where
  "sample_solution =
     [1, 53, 54, 50,
      7, 13, 14, 41,
      8, 15, 16, 42,
      19, 27, 28, 36]"

lemma sample_rotations_table: "rotate_all_parts 4 16 sample_parts = Some sample_rotations"
  unfolding sample_rotations_def by code_simp

lemma sample_rotation_table: "rotation_table 4 sample_rotations"
  by code_simp

lemma sample_supported: "ETERN_SIZE_supported 4"
  by (simp add: ETERN_SIZE_supported_def)

lemma sample_empty_ok: "board_ok 4 sample_rotations sample_empty"
  by code_simp

lemma sample_empty_marks: "marks_ok 4 sample_rotations sample_empty"
  using sample_empty_ok by (rule board_marks)

lemma sample_empty_cell: "\<exists>c < 4 * 4. grid sample_empty ! c = -2"
proof -
  have "grid sample_empty ! 0 = -2" by code_simp
  then show ?thesis by (intro exI[of _ 0]) simp
qed

lemma sample_solution_ok: "solution 4 sample_rotations sample_solution"
  by code_simp

end
