(* ===== verification/Expansion.thy ===== *)
theory Expansion
  imports Sample
begin

text \<open>
  Growing and pruning a position (\<open>possibility.c\<close>): the fixpoint of forced cells
  (\<open>possibility_all_has_a_next_counted\<close>), the choice of the most constrained cell and
  its expansion (\<open>search_possiblity_light\<close> and its pruned variant), and the bounded
  look-ahead (\<open>forward_check_next_k\<close>). The lemmas show that pruning answers are sound
  for the set of completions, and that the expansion is an exact, disjoint cut of it.
\<close>

section \<open>The fixpoint of forced cells\<close>

record next_state =
  ns_board :: possibility_packet
  ns_studied :: nat
  ns_forced :: bool

definition key_constrained :: "nat \<Rightarrow> key_part \<Rightarrow> bool" where
  "key_constrained M k \<longleftrightarrow> k1 k < int M \<or> k2 k < int M \<or> k3 k < int M \<or> k4 k < int M"

text \<open>The candidate loop of one cell: it stops at the first free candidate, which it places
  when the compartment holds nothing else. The flag is the \<open>result\<close> of the cell.\<close>

fun force_first ::
  "nat \<Rightarrow> nat \<Rightarrow> nat \<Rightarrow> nat \<Rightarrow> part list \<Rightarrow> next_state \<Rightarrow> bool \<times> next_state" where
  "force_first n x y sz [] st = (False, st)"
| "force_first n x y sz (q # qs) st =
     (if p_id q \<noteq> 0 \<and> \<not> is_face_used (b_faceused (ns_board st)) (nat (p_id q - 1))
      then (True,
        if sz = 1
        then st\<lparr>ns_board := (ns_board st)
                 \<lparr>b_faceused := set_face_used (b_faceused (ns_board st)) (nat (p_id q - 1)) 1,
                  grid := (grid (ns_board st))[cell_pos n x y := id_for_rotated_part n (p_id q) (p_rotation q)]\<rparr>,
               ns_forced := True\<rparr>
        else st)
      else force_first n x y sz qs st)"

definition next_cell ::
  "nat \<Rightarrow> map_big_array \<Rightarrow> part list \<Rightarrow> nat \<Rightarrow> nat \<Rightarrow> next_state \<Rightarrow> bool \<times> next_state" where
  "next_cell n mp R x y st =
     (if grid_at n (ns_board st) x y \<noteq> -2 then (True, st)
      else (let st = st\<lparr>ns_studied := ns_studied st + 1\<rparr>;
                wsearch = what_search_in_grid_to_key n R (ns_board st) x y (int (sizearrayM mp))
            in if key_constrained (sizearrayM mp) wsearch
               then (let search = get_parts_bigarray_with_key mp wsearch
                     in if search \<noteq> [] then force_first n x y (length search) search st else (False, st))
               else (True, st)))"

fun next_pass ::
  "nat \<Rightarrow> map_big_array \<Rightarrow> part list \<Rightarrow> nat list \<Rightarrow> next_state \<Rightarrow> bool \<times> next_state" where
  "next_pass n mp R [] st = (True, st)"
| "next_pass n mp R (c # cs) st =
     (case next_cell n mp R (dirx n ! c) (diry n ! c) st of
        (True, st') \<Rightarrow> next_pass n mp R cs st'
      | (False, st') \<Rightarrow> (False, st'))"

text \<open>The \<open>do ... while\<close> of the passes; \<open>None\<close> stands for a loop that does not end.\<close>

partial_function (option) next_loop ::
  "nat \<Rightarrow> map_big_array \<Rightarrow> part list \<Rightarrow> bool \<Rightarrow> next_state \<Rightarrow> (bool \<times> bool \<times> next_state) option" where
  "next_loop n mp R any_forced st =
     (case next_pass n mp R [0..<ETERN_PARTS n] (st\<lparr>ns_forced := False\<rparr>) of
        (result, st') \<Rightarrow>
          (let any' = (any_forced \<or> ns_forced st')
           in if result \<and> ns_forced st' then next_loop n mp R any' st'
              else Some (result, any', st')))"

definition possibility_all_has_a_next_counted ::
  "nat \<Rightarrow> map_big_array \<Rightarrow> part list \<Rightarrow> possibility_packet \<Rightarrow> (bool \<times> possibility_packet \<times> nat) option" where
  "possibility_all_has_a_next_counted n mp R p =
     (case next_loop n mp R False \<lparr>ns_board = p, ns_studied = 0, ns_forced = False\<rparr> of
        None \<Rightarrow> None
      | Some (result, any_forced, st) \<Rightarrow>
          (let p' = ns_board st;
               p'' = (if any_forced
                      then p'\<lparr>alloc := possibility_placed_count n p' mod 2 ^ 16,
                              min_candidats := POSSIBILITY_MIN_CANDIDATS_UNKNOWN\<rparr>
                      else p')
           in Some (result, p'', ns_studied st)))"

definition possibility_all_has_a_next ::
  "nat \<Rightarrow> map_big_array \<Rightarrow> part list \<Rightarrow> possibility_packet \<Rightarrow> (bool \<times> possibility_packet) option" where
  "possibility_all_has_a_next n mp R p =
     map_option (\<lambda>r. (fst r, fst (snd r))) (possibility_all_has_a_next_counted n mp R p)"

section \<open>Choosing and expanding a cell\<close>

text \<open>The scan of \<open>light_free_count\<close>: the number of free entries, an entry with the
  identifier of the last counted one skipped, and the last counted identifier. It stops
  at \<open>stop_at\<close> when that is positive.\<close>

fun free_scan :: "u16 list \<Rightarrow> nat \<Rightarrow> part list \<Rightarrow> nat \<Rightarrow> int \<Rightarrow> nat \<times> int" where
  "free_scan fu stop_at [] cnt seen_last = (cnt, seen_last)"
| "free_scan fu stop_at (q # qs) cnt seen_last =
     (if p_id q = 0 \<or> p_id q = seen_last \<or> is_face_used fu (nat (p_id q - 1))
      then free_scan fu stop_at qs cnt seen_last
      else if stop_at > 0 \<and> cnt + 1 \<ge> stop_at then (cnt + 1, p_id q)
      else free_scan fu stop_at qs (cnt + 1) (p_id q))"

definition light_free_count ::
  "possibility_packet \<Rightarrow> map_big_array \<Rightarrow> key_part \<Rightarrow> nat \<Rightarrow> nat \<times> int" where
  "light_free_count p mp key stop_at =
     free_scan (b_faceused p) stop_at (get_parts_bigarray_with_key mp key) 0 0"

record light_choice =
  lc_best :: "(nat \<times> nat \<times> nat) option"
  lc_fallback :: "(nat \<times> nat) option"
  lc_singles :: "(nat \<times> nat \<times> int) list"

text \<open>One cell of \<open>light_choose_cell\<close>; \<open>None\<close> is its early return 0 on a dead cell.\<close>

definition choose_step ::
  "nat \<Rightarrow> map_big_array \<Rightarrow> part list \<Rightarrow> possibility_packet \<Rightarrow> bool \<Rightarrow> nat \<Rightarrow> nat \<Rightarrow> light_choice
   \<Rightarrow> light_choice option" where
  "choose_step n mp R p want_singles x y ch =
     (if grid_at n p x y \<noteq> -2 then Some ch
      else (let all_face = int (sizearrayM mp);
                w = what_search_in_grid_to_key n R p x y all_face
            in if k1 w = all_face \<and> k2 w = all_face \<and> k3 w = all_face \<and> k4 w = all_face
               then Some (if lc_fallback ch = None then ch\<lparr>lc_fallback := Some (x, y)\<rparr> else ch)
               else (let (cnt, only) = light_free_count p mp w 0
                     in if cnt = 0 then None
                        else (let ch = (if cnt = 1 \<and> want_singles
                                        then ch\<lparr>lc_singles := lc_singles ch @ [(x, y, only)]\<rparr> else ch)
                              in Some (case lc_best ch of
                                         None \<Rightarrow> ch\<lparr>lc_best := Some (cnt, x, y)\<rparr>
                                       | Some (best_count, bx, bye) \<Rightarrow>
                                           if cnt < best_count then ch\<lparr>lc_best := Some (cnt, x, y)\<rparr> else ch)))))"

fun choose_scan ::
  "nat \<Rightarrow> map_big_array \<Rightarrow> part list \<Rightarrow> possibility_packet \<Rightarrow> bool \<Rightarrow> (nat \<times> nat) list \<Rightarrow> light_choice
   \<Rightarrow> light_choice option" where
  "choose_scan n mp R p want [] ch = Some ch"
| "choose_scan n mp R p want ((x, y) # cells) ch =
     (case choose_step n mp R p want x y ch of
        None \<Rightarrow> None
      | Some ch' \<Rightarrow> choose_scan n mp R p want cells ch')"

definition light_choose_cell ::
  "nat \<Rightarrow> map_big_array \<Rightarrow> part list \<Rightarrow> possibility_packet \<Rightarrow> bool
   \<Rightarrow> ((nat \<times> nat) \<times> (nat \<times> nat \<times> int) list) option" where
  "light_choose_cell n mp R p want_singles =
     (case choose_scan n mp R p want_singles (List.product [0..<n] [0..<n])
             \<lparr>lc_best = None, lc_fallback = None, lc_singles = []\<rparr> of
        None \<Rightarrow> None
      | Some ch \<Rightarrow>
          (case lc_best ch of
             None \<Rightarrow> map_option (\<lambda>xy. (xy, lc_singles ch)) (lc_fallback ch)
           | Some (cnt, x, y) \<Rightarrow> Some ((x, y), lc_singles ch)))"

definition neighbour_offsets :: "(int \<times> int) list" where
  "neighbour_offsets = [(0, -1), (1, 0), (0, 1), (-1, 0)]"

definition dead_neighbour ::
  "nat \<Rightarrow> map_big_array \<Rightarrow> part list \<Rightarrow> possibility_packet \<Rightarrow> nat \<Rightarrow> nat \<Rightarrow> int \<times> int \<Rightarrow> bool" where
  "dead_neighbour n mp R child x y d =
     (let nx = int x + fst d; ny = int y + snd d
      in if nx < 0 \<or> ny < 0 \<or> nx \<ge> int n \<or> ny \<ge> int n \<or> grid_at n child (nat nx) (nat ny) \<noteq> -2 then False
         else fst (light_free_count child mp
                (what_search_in_grid_to_key n R child (nat nx) (nat ny) (int (sizearrayM mp))) 1) = 0)"

definition light_child_is_dead ::
  "nat \<Rightarrow> map_big_array \<Rightarrow> part list \<Rightarrow> possibility_packet \<Rightarrow> nat \<Rightarrow> nat \<Rightarrow> int
   \<Rightarrow> (nat \<times> nat \<times> int) list \<Rightarrow> bool" where
  "light_child_is_dead n mp R child x y pid singles \<longleftrightarrow>
     list_ex (\<lambda>(sx, sy, sid). sid = pid \<and> (sx \<noteq> x \<or> sy \<noteq> y)) singles
     \<or> list_ex (dead_neighbour n mp R child x y) neighbour_offsets"

definition init_id_parts :: "nat \<Rightarrow> int list list" where
  "init_id_parts n = map (\<lambda>p. map (\<lambda>r. int p + int (ETERN_PARTS n) * int r) [0..<4]) [0..<ETERN_PARTS n + 1]"

text \<open>\<open>room k\<close> says whether the allocation of the \<open>k\<close>-th child succeeds; the loop stops at
  the first failure. The result collects the queued children and the number of pruned ones.\<close>

record light_out =
  lo_child :: possibility_packet
  lo_queue :: "possibility_packet list"
  lo_pruned :: nat

fun expand_loop ::
  "nat \<Rightarrow> map_big_array \<Rightarrow> part list \<Rightarrow> int list list \<Rightarrow> (nat \<Rightarrow> bool) \<Rightarrow> possibility_packet
   \<Rightarrow> nat \<Rightarrow> nat \<Rightarrow> (nat \<times> nat \<times> int) list option \<Rightarrow> part list \<Rightarrow> light_out \<Rightarrow> light_out" where
  "expand_loop n mp R idParts room p x y singles [] out = out"
| "expand_loop n mp R idParts room p x y singles (q # qs) out =
     (if p_id q = 0 then expand_loop n mp R idParts room p x y singles qs out
      else (let position = nat (p_id q - 1) in
        if is_face_used (b_faceused p) position
        then expand_loop n mp R idParts room p x y singles qs out
        else (let child = (lo_child out)
                 \<lparr>grid := (grid (lo_child out))[cell_pos n x y := idParts ! nat (p_id q) ! nat (p_rotation q)],
                  b_faceused := set_face_used (b_faceused (lo_child out)) position 1,
                  alloc := (possibility_placed_count n p + 1) mod 2 ^ 16,
                  min_candidats := POSSIBILITY_MIN_CANDIDATS_UNKNOWN\<rparr>;
                 dead = (case singles of None \<Rightarrow> False
                         | Some ss \<Rightarrow> light_child_is_dead n mp R child x y (p_id q) ss);
                 restored = child\<lparr>b_faceused := set_face_used (b_faceused child) position 0\<rparr>
              in if dead
                 then expand_loop n mp R idParts room p x y singles qs
                        (out\<lparr>lo_child := restored, lo_pruned := lo_pruned out + 1\<rparr>)
                 else if room (length (lo_queue out))
                 then expand_loop n mp R idParts room p x y singles qs
                        (out\<lparr>lo_child := restored, lo_queue := lo_queue out @ [child]\<rparr>)
                 else out)))"

text \<open>The return value (the depth of the last child, 0 without one), the queue, the pruned
  counter, and whether the last child is a full board: \<open>checkIfResultFound\<close> then saves it and
  ends the program.\<close>

definition search_possiblity_light_impl ::
  "nat \<Rightarrow> map_big_array \<Rightarrow> part list \<Rightarrow> int list list \<Rightarrow> (nat \<Rightarrow> bool) \<Rightarrow> bool \<Rightarrow> possibility_packet
   \<Rightarrow> nat \<times> possibility_packet list \<times> nat \<times> bool" where
  "search_possiblity_light_impl n mp R idParts room prune p =
     (case light_choose_cell n mp R p prune of
        None \<Rightarrow> (0, [], 0, False)
      | Some ((x, y), singles) \<Rightarrow>
          (let key = what_search_in_grid_to_key n R p x y (int (sizearrayM mp));
               out = expand_loop n mp R idParts room p x y (if prune then Some singles else None)
                       (get_parts_bigarray_with_key mp key)
                       \<lparr>lo_child = p, lo_queue = [], lo_pruned = 0\<rparr>;
               q = lo_queue out
           in if q = [] then (0, [], lo_pruned out, False)
              else (alloc (last q), q, lo_pruned out, alloc (last q) \<ge> ETERN_PARTS n)))"

definition search_possiblity_light where
  "search_possiblity_light n mp R idParts room p = search_possiblity_light_impl n mp R idParts room False p"

definition search_possiblity_light_pruned where
  "search_possiblity_light_pruned n mp R idParts room p = search_possiblity_light_impl n mp R idParts room True p"

section \<open>Bounded look-ahead\<close>

text \<open>The result, and the number of cells examined.\<close>

fun fc_scan ::
  "nat \<Rightarrow> nat \<Rightarrow> map_big_array \<Rightarrow> part list \<Rightarrow> possibility_packet \<Rightarrow> nat list \<Rightarrow> nat \<Rightarrow> bool \<times> nat" where
  "fc_scan K n mp R p [] cells = (True, cells)"
| "fc_scan K n mp R p (c # cs) cells =
     (if cells \<ge> K then (True, cells)
      else (let x = dirx n ! c; y = diry n ! c in
        if grid_at n p x y \<noteq> -2 then fc_scan K n mp R p cs cells
        else (let search = get_parts_bigarray_with_key mp
                    (what_search_in_grid_to_key n R p x y (int (sizearrayM mp)))
              in if search = [] then (False, cells + 1)
                 else if has_free_candidate (b_faceused p) search then fc_scan K n mp R p cs (cells + 1)
                 else (False, cells + 1))))"

definition forward_check_next_k ::
  "nat \<Rightarrow> nat \<Rightarrow> map_big_array \<Rightarrow> part list \<Rightarrow> possibility_packet \<Rightarrow> bool \<times> nat" where
  "forward_check_next_k K n mp R p = fc_scan K n mp R p [0..<ETERN_PARTS n] 0"

section \<open>Forced cells: soundness and termination\<close>

lemma force_first_spec:
  "force_first n x y sz qs st =
     (case filter (free_piece (b_faceused (ns_board st))) qs of
        [] \<Rightarrow> (False, st)
      | q # _ \<Rightarrow> (True, if sz = 1
           then st\<lparr>ns_board := place n (cell_pos n x y) q (ns_board st), ns_forced := True\<rparr> else st))"
  by (induction qs) (auto simp: free_piece_def place_def)

text \<open>What a step may do to the board: keep the marks, the completions and the full
  invariant.\<close>

definition keeps :: "nat \<Rightarrow> part list \<Rightarrow> possibility_packet \<Rightarrow> possibility_packet \<Rightarrow> bool" where
  "keeps n R p p' \<longleftrightarrow> marks_ok n R p' \<and> completions n R (grid p') = completions n R (grid p)
     \<and> (board_ok n R p \<longrightarrow> board_ok n R p')"

lemma keeps_refl: "marks_ok n R p \<Longrightarrow> keeps n R p p"
  by (simp add: keeps_def)

lemma keeps_trans: "keeps n R p q \<Longrightarrow> keeps n R q r \<Longrightarrow> keeps n R p r"
  by (simp add: keeps_def)

definition empties :: "possibility_packet \<Rightarrow> nat" where
  "empties p = length (filter (\<lambda>v. v = -2) (grid p))"

lemma empties_place:
  assumes "c < length (grid p)" "grid p ! c = -2" "id_for_rotated_part n (p_id q) (p_rotation q) \<noteq> -2"
  shows "empties (place n c q p) < empties p"
proof -
  have "grid p = take c (grid p) @ grid p ! c # drop (Suc c) (grid p)"
    using assms(1) by (rule id_take_nth_drop)
  then have "filter (\<lambda>v. v = -2) (grid p) = filter (\<lambda>v. v = -2) (take c (grid p))
       @ -2 # filter (\<lambda>v. v = -2) (drop (Suc c) (grid p))"
    using assms(2) by (metis (mono_tags, lifting) filter.simps(2) filter_append)
  then show ?thesis using assms
    by (simp add: empties_def place_def upd_conv_take_nth_drop)
qed

lemma single_candidate_keeps:
  assumes R: "rotation_table n R" and mp: "mp = prepare_map_part R a b"
    and p: "marks_ok n R p" and c: "c < n * n" "grid p ! c = -2"
    and q: "set (candidates n mp R p c) = {q}"
  shows "keeps n R p (place n c q p)" and "empties (place n c q p) < empties p"
proof -
  have g: "grid_ok n (grid p)" and len: "length (grid p) = n * n"
    using p by (auto simp: marks_ok_def grid_ok_def)
  have mem: "q \<in> set (candidates n mp R p c)" using q by simp
  note cq = candidateD[OF R mp g c(1) mem]
  show "keeps n R p (place n c q p)"
    unfolding keeps_def
    using place_marks[OF R p c cq(1,2)] completions_children[OF R mp p c] q place_board_ok[OF R mp _ c mem]
    by simp
  have "id_for_rotated_part n (p_id q) (p_rotation q) \<noteq> -2"
    using table_member(1)[OF R cq(1,2)] by (auto simp: valid_value_def)
  then show "empties (place n c q p) < empties p" using empties_place c len by simp
qed

lemma next_cell_spec:
  assumes R: "rotation_table n R" and mp: "mp = prepare_map_part R a b"
    and p: "marks_ok n R (ns_board st)" and xy: "x < n" "y < n"
    and res: "next_cell n mp R x y st = (r, st')"
  shows "r \<Longrightarrow> keeps n R (ns_board st) (ns_board st')"
    and "\<not> r \<Longrightarrow> completions n R (grid (ns_board st)) = {} \<and> ns_board st' = ns_board st"
    and "ns_forced st' \<Longrightarrow> ns_forced st \<or> empties (ns_board st') < empties (ns_board st)"
    and "empties (ns_board st') \<le> empties (ns_board st)"
    and "r \<Longrightarrow> \<not> ns_forced st' \<Longrightarrow> ns_board st' = ns_board st \<and> (grid_at n (ns_board st) x y = -2 \<longrightarrow>
           key_constrained (sizearrayM mp) (what_search_in_grid_to_key n R (ns_board st) x y (int (sizearrayM mp)))
           \<longrightarrow> candidates n mp R (ns_board st) (cell_pos n x y) \<noteq> [])"
proof -
  let ?p = "ns_board st" and ?c = "cell_pos n x y"
  let ?s = "get_parts_bigarray_with_key mp (cell_key n mp R ?p ?c)"
  have c: "?c < n * n" using xy by (rule cell_pos_less)
  have key: "cell_key n mp R ?p ?c = what_search_in_grid_to_key n R ?p x y (int (sizearrayM mp))"
    using xy by (simp add: cell_key_def)
  note def = next_cell_def Let_def grid_at_def force_first_spec key[symmetric]
  have all: "(r \<longrightarrow> keeps n R ?p (ns_board st'))
    \<and> (\<not> r \<longrightarrow> completions n R (grid ?p) = {} \<and> ns_board st' = ?p)
    \<and> (ns_forced st' \<longrightarrow> ns_forced st \<or> empties (ns_board st') < empties ?p)
    \<and> empties (ns_board st') \<le> empties ?p
    \<and> (r \<longrightarrow> \<not> ns_forced st' \<longrightarrow> ns_board st' = ?p \<and> (grid ?p ! ?c = -2 \<longrightarrow>
         key_constrained (sizearrayM mp) (cell_key n mp R ?p ?c) \<longrightarrow> candidates n mp R ?p ?c \<noteq> []))"
  proof (cases "grid ?p ! ?c = -2 \<and> key_constrained (sizearrayM mp) (cell_key n mp R ?p ?c)")
    case False
    then have "r" "ns_board st' = ?p" "ns_forced st' = ns_forced st"
      using res by (auto simp: def split: if_splits)
    then show ?thesis using False keeps_refl[OF p] by auto
  next
    case True
    show ?thesis
    proof (cases "candidates n mp R ?p ?c")
      case Nil
      then have "\<not> r" "ns_board st' = ?p" "ns_forced st' = ns_forced st"
        using res True by (auto simp: def candidates_def split: if_splits)
      then show ?thesis using no_candidate_no_completion[OF R mp p c _ Nil] True by simp
    next
      case (Cons q qs)
      have ne: "?s \<noteq> []" using Cons by (auto simp: candidates_def)
      show ?thesis
      proof (cases "length ?s = 1")
        case True': True
        then have "set (candidates n mp R ?p ?c) = {q}"
          using Cons by (cases ?s) (auto simp: candidates_def split: if_splits)
        note forced = single_candidate_keeps[OF R mp p c _ this]
        have "r" "ns_board st' = place n ?c q ?p" "ns_forced st'"
          using res True True' ne Cons by (auto simp: def candidates_def split: if_splits)
        then show ?thesis using forced True by simp
      next
        case False
        then have "r" "ns_board st' = ?p" "ns_forced st' = ns_forced st"
          using res True ne Cons by (auto simp: def candidates_def split: if_splits)
        then show ?thesis using keeps_refl[OF p] Cons by simp
      qed
    qed
  qed
  from all key show "r \<Longrightarrow> keeps n R (ns_board st) (ns_board st')"
    and "\<not> r \<Longrightarrow> completions n R (grid (ns_board st)) = {} \<and> ns_board st' = ns_board st"
    and "ns_forced st' \<Longrightarrow> ns_forced st \<or> empties (ns_board st') < empties (ns_board st)"
    and "empties (ns_board st') \<le> empties (ns_board st)"
    and "r \<Longrightarrow> \<not> ns_forced st' \<Longrightarrow> ns_board st' = ns_board st \<and> (grid_at n (ns_board st) x y = -2 \<longrightarrow>
           key_constrained (sizearrayM mp) (what_search_in_grid_to_key n R (ns_board st) x y (int (sizearrayM mp)))
           \<longrightarrow> candidates n mp R (ns_board st) (cell_pos n x y) \<noteq> [])"
    by (auto simp: grid_at_def)
qed

lemma keeps_marks: "keeps n R p q \<Longrightarrow> marks_ok n R q"
  by (simp add: keeps_def)

lemma next_cell_monotone: "next_cell n mp R x y st = (r, st') \<Longrightarrow> ns_forced st \<Longrightarrow> ns_forced st'"
  by (auto simp: next_cell_def Let_def force_first_spec split: if_splits list.splits)

lemma next_pass_monotone: "next_pass n mp R cs st = (r, st') \<Longrightarrow> ns_forced st \<Longrightarrow> ns_forced st'"
proof (induction n mp R cs st rule: next_pass.induct)
  case (2 n mp R c cs st)
  then show ?case
    by (cases "next_cell n mp R (dirx n ! c) (diry n ! c) st")
      (auto dest: next_cell_monotone split: bool.splits)
qed simp

text \<open>A cell the fixpoint leaves alone: filled, unconstrained, or with a free candidate.\<close>

definition cell_alive :: "nat \<Rightarrow> map_big_array \<Rightarrow> part list \<Rightarrow> possibility_packet \<Rightarrow> nat \<Rightarrow> bool" where
  "cell_alive n mp R p c \<longleftrightarrow> (grid p ! c = -2 \<longrightarrow>
     key_constrained (sizearrayM mp) (cell_key n mp R p c) \<longrightarrow> candidates n mp R p c \<noteq> [])"

lemma next_pass_spec:
  assumes R: "rotation_table n R" and mp: "mp = prepare_map_part R a b" and n: "ETERN_SIZE_supported n"
  shows "marks_ok n R (ns_board st) \<Longrightarrow> set cs \<subseteq> {0..<n * n} \<Longrightarrow> next_pass n mp R cs st = (r, st') \<Longrightarrow>
     keeps n R (ns_board st) (ns_board st') \<and> (\<not> r \<longrightarrow> completions n R (grid (ns_board st)) = {})
     \<and> marks_ok n R (ns_board st') \<and> (\<not> ns_forced st' \<longrightarrow> ns_board st' = ns_board st)
     \<and> empties (ns_board st') \<le> empties (ns_board st)
     \<and> (ns_forced st' \<longrightarrow> ns_forced st \<or> empties (ns_board st') < empties (ns_board st))
     \<and> (r \<longrightarrow> \<not> ns_forced st' \<longrightarrow> ns_board st' = ns_board st
          \<and> (\<forall>c \<in> set cs. cell_alive n mp R (ns_board st) (cell_pos n (dirx n ! c) (diry n ! c))))"
proof (induction cs arbitrary: st)
  case Nil
  then show ?case by (auto simp: keeps_refl)
next
  case (Cons c cs)
  let ?x = "dirx n ! c" and ?y = "diry n ! c"
  have xy: "?x < n" "?y < n" using Cons.prems(2) dirx_less[OF n] diry_less[OF n] by auto
  obtain r1 st1 where cell: "next_cell n mp R ?x ?y st = (r1, st1)" by (cases "next_cell n mp R ?x ?y st")
  note sp = next_cell_spec[OF R mp Cons.prems(1) xy cell]
  have key: "cell_key n mp R q (cell_pos n ?x ?y) = what_search_in_grid_to_key n R q ?x ?y (int (sizearrayM mp))" for q
    using xy by (simp add: cell_key_def)
  show ?case
  proof (cases r1)
    case True
    then have rest: "next_pass n mp R cs st1 = (r, st')" using Cons.prems(3) cell by simp
    have k1: "keeps n R (ns_board st) (ns_board st1)" using sp(1) True by simp
    have m1: "marks_ok n R (ns_board st1)" using k1 by (rule keeps_marks)
    have sub: "set cs \<subseteq> {0..<n * n}" using Cons.prems(2) by simp
    note IH = Cons.IH[OF m1 sub rest]
    have comp: "completions n R (grid (ns_board st1)) = completions n R (grid (ns_board st))"
      using k1 by (simp add: keeps_def)
    have alive: "ns_board st1 = ns_board st \<and> cell_alive n mp R (ns_board st) (cell_pos n ?x ?y)"
      if "\<not> ns_forced st1"
      using sp(5)[OF True that] by (simp add: cell_alive_def key grid_at_def)
    have nf: "\<not> ns_forced st1" if "\<not> ns_forced st'" using next_pass_monotone[OF rest] that by blast
    show ?thesis
      using IH keeps_trans[OF k1] comp sp(3,4) alive nf by (cases r) auto
  next
    case False
    then have "r = False" "st' = st1" using Cons.prems(3) cell by auto
    then show ?thesis using sp(2,3,4) False Cons.prems(1) keeps_refl[OF Cons.prems(1)] by auto
  qed
qed

definition loop_outcome ::
  "nat \<Rightarrow> map_big_array \<Rightarrow> part list \<Rightarrow> bool \<Rightarrow> possibility_packet \<Rightarrow> bool \<times> bool \<times> next_state \<Rightarrow> bool" where
  "loop_outcome n mp R af p res \<longleftrightarrow> (case res of (r, anyf, st') \<Rightarrow> keeps n R p (ns_board st') \<and> (anyf \<or> ns_board st' = p)
     \<and> (r \<longrightarrow> (\<forall>c < n * n. cell_alive n mp R (ns_board st') c))
     \<and> (\<not> r \<longrightarrow> completions n R (grid p) = {})
     \<and> (af \<longrightarrow> anyf))"

lemma loop_outcome_step:
  assumes "keeps n R p p1" "loop_outcome n mp R True p1 res"
  shows "loop_outcome n mp R af p res"
  using assms keeps_trans[OF assms(1)]
  by (cases res) (simp add: loop_outcome_def, simp add: keeps_def)

text \<open>The loop returns, because every repeated pass fills a cell.\<close>

lemma next_loop_spec:
  assumes R: "rotation_table n R" and mp: "mp = prepare_map_part R a b" and n: "ETERN_SIZE_supported n"
  shows "marks_ok n R (ns_board st) \<Longrightarrow>
     \<exists>res. next_loop n mp R af st = Some res \<and> loop_outcome n mp R af (ns_board st) res"
proof (induction "empties (ns_board st)" arbitrary: st af rule: less_induct)
  case less
  let ?st0 = "st\<lparr>ns_forced := False\<rparr>"
  obtain r st1 where pass: "next_pass n mp R [0..<n * n] ?st0 = (r, st1)"
    by (cases "next_pass n mp R [0..<n * n] ?st0")
  have m0: "marks_ok n R (ns_board ?st0)" using less.prems by simp
  have sub: "set [0..<n * n] \<subseteq> {0..<n * n}" by simp
  note sp = next_pass_spec[OF R mp n m0 sub pass]
  note unf = next_loop.simps[of n mp R af st, unfolded pass prod.case Let_def]
  show ?case
  proof (cases "r \<and> ns_forced st1")
    case True
    then have lt: "empties (ns_board st1) < empties (ns_board st)" and k: "keeps n R (ns_board st) (ns_board st1)"
      using sp by simp_all
    from less.hyps[OF lt keeps_marks[OF k], of True]
    obtain res where IH: "next_loop n mp R True st1 = Some res" "loop_outcome n mp R True (ns_board st1) res"
      by blast
    moreover have "next_loop n mp R af st = next_loop n mp R True st1" using unf True by simp
    ultimately show ?thesis using loop_outcome_step[OF k IH(2)] by auto
  next
    case False
    have alive: "cell_alive n mp R (ns_board st) c" if "r" "c < n * n" for c
    proof -
      have "\<forall>i \<in> {0..<n * n}. cell_alive n mp R (ns_board st) (cell_pos n (dirx n ! i) (diry n ! i))"
        using sp False that by simp
      then have "\<forall>d \<in> set (dir_cells n). cell_alive n mp R (ns_board st) d"
        by (simp add: dir_cells_def)
      then show ?thesis using that dir_cells_perm(2)[OF n] by simp
    qed
    have "loop_outcome n mp R af (ns_board st) (r, af \<or> ns_forced st1, st1)"
      using sp False alive less.prems keeps_refl[OF less.prems] by (cases r) (auto simp: loop_outcome_def)
    then show ?thesis using unf False by simp
  qed
qed

lemma marks_ok_fields [simp]:
  "marks_ok n R (p\<lparr>alloc := k, min_candidats := m\<rparr>) = marks_ok n R p"
  "board_ok n R (p\<lparr>alloc := k, min_candidats := m\<rparr>) = board_ok n R p"
  by (simp_all add: marks_ok_def board_ok_def)

lemma candidates_fields [simp]:
  "candidates n mp R (p\<lparr>alloc := k, min_candidats := m\<rparr>) c = candidates n mp R p c"
  "cell_alive n mp R (p\<lparr>alloc := k, min_candidats := m\<rparr>) c = cell_alive n mp R p c"
proof -
  have "cell_key n mp R (p\<lparr>alloc := k, min_candidats := m\<rparr>) c = cell_key n mp R p c"
    by (simp add: cell_key_def what_search_in_grid_to_key_def grid_at_def)
  then show "candidates n mp R (p\<lparr>alloc := k, min_candidats := m\<rparr>) c = candidates n mp R p c"
    "cell_alive n mp R (p\<lparr>alloc := k, min_candidats := m\<rparr>) c = cell_alive n mp R p c"
    by (simp_all add: candidates_def cell_alive_def)
qed

lemma all_has_a_next_spec:
  assumes R: "rotation_table n R" and mp: "mp = prepare_map_part R a b" and n: "ETERN_SIZE_supported n"
    and p: "marks_ok n R p"
  obtains r p' k where "possibility_all_has_a_next_counted n mp R p = Some (r, p', k)"
    and "keeps n R p p'"
    and "r \<longrightarrow> (\<forall>c < n * n. cell_alive n mp R p' c)"
    and "\<not> r \<longrightarrow> completions n R (grid p) = {}"
    and "alloc p' = possibility_placed_count n p' mod 2 ^ 16 \<or> p' = p"
proof -
  let ?st = "\<lparr>ns_board = p, ns_studied = 0, ns_forced = False\<rparr>"
  from next_loop_spec[OF R mp n, of ?st False] p obtain r af st where
    l: "next_loop n mp R False ?st = Some (r, af, st)" and out: "loop_outcome n mp R False p (r, af, st)"
    by auto
  let ?p' = "if af then (ns_board st)\<lparr>alloc := possibility_placed_count n (ns_board st) mod 2 ^ 16,
                min_candidats := POSSIBILITY_MIN_CANDIDATS_UNKNOWN\<rparr> else ns_board st"
  show thesis
  proof (rule that)
    show "possibility_all_has_a_next_counted n mp R p = Some (r, ?p', ns_studied st)"
      by (simp add: possibility_all_has_a_next_counted_def l Let_def)
      show "alloc ?p' = possibility_placed_count n ?p' mod 2 ^ 16 \<or> ?p' = p"
      using out by (cases af) (auto simp: loop_outcome_def possibility_placed_count_def grid_at_def)
  qed (use out in \<open>auto simp: loop_outcome_def keeps_def\<close>)
qed

section \<open>Counting free candidates\<close>

definition free_ids :: "u16 list \<Rightarrow> part list \<Rightarrow> int list" where
  "free_ids fu qs = map p_id (filter (free_piece fu) qs)"

lemma free_scan_count:
  "free_scan fu 0 qs k s = (k + length (remdups_adj (s # free_ids fu qs)) - 1, last (s # free_ids fu qs))"
proof (induction qs arbitrary: k s)
  case (Cons q qs)
  have pos: "0 < length (remdups_adj (x # xs))" for x :: int and xs by (cases xs) auto
  show ?case using Cons pos[of "p_id q" "free_ids fu qs"]
    by (auto simp: free_ids_def free_piece_def)
qed (simp add: free_ids_def)

lemma free_ids_nonzero: "0 \<notin> set (free_ids fu qs)"
  by (auto simp: free_ids_def free_piece_def)

text \<open>From the start the scan counts the runs of equal identifiers.\<close>

lemma free_scan_runs:
  "free_scan fu 0 qs 0 0 = (length (remdups_adj (free_ids fu qs)), last (0 # free_ids fu qs))"
proof -
  have "remdups_adj (0 # free_ids fu qs) = 0 # remdups_adj (free_ids fu qs)"
    using free_ids_nonzero[of fu qs] by (cases "free_ids fu qs") auto
  then show ?thesis by (simp add: free_scan_count)
qed

lemma free_scan_zero_iff: "fst (free_scan fu 0 qs 0 0) = 0 \<longleftrightarrow> filter (free_piece fu) qs = []"
  by (simp add: free_scan_runs free_ids_def)

lemma free_scan_single:
  assumes "free_scan fu 0 qs 0 0 = (1, only)"
  shows "only \<noteq> 0" and "set (free_ids fu qs) = {only}"
proof -
  let ?F = "free_ids fu qs"
  have "length (remdups_adj ?F) = 1" and only: "only = last (0 # ?F)"
    using assms by (simp_all add: free_scan_runs)
  then obtain v where "remdups_adj ?F = [v]" by (auto simp: length_Suc_conv)
  then have v: "set ?F = {v}" by (metis remdups_adj_set list.set(1,2))
  then have "only \<in> set ?F" using only by (cases ?F) auto
  with v show "set ?F = {only}" by auto
  then show "only \<noteq> 0" using free_ids_nonzero[of fu qs] by auto
qed

lemma card_le_length_runs: "card (set xs) \<le> length (remdups_adj xs)"
  by (metis card_length remdups_adj_set)

lemma free_scan_stop:
  "fst (free_scan fu 1 qs 0 s) = 0 \<longleftrightarrow> (\<forall>q \<in> set qs. free_piece fu q \<longrightarrow> p_id q = s)"
  by (induction qs) (auto simp: free_piece_def)

section \<open>The choice of the cell\<close>

abbreviation grid_key :: "nat \<Rightarrow> map_big_array \<Rightarrow> part list \<Rightarrow> possibility_packet \<Rightarrow> nat \<Rightarrow> nat \<Rightarrow> key_part" where
  "grid_key n mp R p x y \<equiv> what_search_in_grid_to_key n R p x y (int (sizearrayM mp))"

definition key_all_wild :: "nat \<Rightarrow> key_part \<Rightarrow> bool" where
  "key_all_wild M k \<longleftrightarrow> k1 k = int M \<and> k2 k = int M \<and> k3 k = int M \<and> k4 k = int M"

text \<open>The cells the scan counts: empty and touching the frame or a placed piece.\<close>

definition counted :: "nat \<Rightarrow> map_big_array \<Rightarrow> part list \<Rightarrow> possibility_packet \<Rightarrow> nat \<Rightarrow> nat \<Rightarrow> bool" where
  "counted n mp R p x y \<longleftrightarrow> grid_at n p x y = -2 \<and> \<not> key_all_wild (sizearrayM mp) (grid_key n mp R p x y)"

definition cell_count :: "nat \<Rightarrow> map_big_array \<Rightarrow> part list \<Rightarrow> possibility_packet \<Rightarrow> nat \<Rightarrow> nat \<Rightarrow> nat" where
  "cell_count n mp R p x y = fst (light_free_count p mp (grid_key n mp R p x y) 0)"

definition single_at :: "nat \<Rightarrow> map_big_array \<Rightarrow> part list \<Rightarrow> possibility_packet \<Rightarrow> nat \<times> nat \<times> int \<Rightarrow> bool" where
  "single_at n mp R p s = (case s of (x, y, pid) \<Rightarrow> grid_at n p x y = -2 \<and>
     set (free_ids (b_faceused p) (get_parts_bigarray_with_key mp (grid_key n mp R p x y))) = {pid})"

definition best_ok ::
  "nat \<Rightarrow> map_big_array \<Rightarrow> part list \<Rightarrow> possibility_packet \<Rightarrow> (nat \<times> nat) set \<Rightarrow> light_choice \<Rightarrow> bool" where
  "best_ok n mp R p cells ch \<longleftrightarrow>
     (case lc_best ch of
        None \<Rightarrow> (\<forall>(x, y) \<in> cells. \<not> counted n mp R p x y)
      | Some (k, bx, bye) \<Rightarrow> (bx, bye) \<in> cells \<and> counted n mp R p bx bye \<and> k = cell_count n mp R p bx bye
          \<and> (\<forall>(x, y) \<in> cells. counted n mp R p x y \<longrightarrow> k \<le> cell_count n mp R p x y))"

definition fallback_ok ::
  "nat \<Rightarrow> map_big_array \<Rightarrow> part list \<Rightarrow> possibility_packet \<Rightarrow> (nat \<times> nat) set \<Rightarrow> light_choice \<Rightarrow> bool" where
  "fallback_ok n mp R p cells ch \<longleftrightarrow>
     (case lc_fallback ch of
        None \<Rightarrow> (\<forall>(x, y) \<in> cells. grid_at n p x y = -2 \<longrightarrow> counted n mp R p x y)
      | Some (x, y) \<Rightarrow> (x, y) \<in> cells \<and> grid_at n p x y = -2)"

definition singles_ok ::
  "nat \<Rightarrow> map_big_array \<Rightarrow> part list \<Rightarrow> possibility_packet \<Rightarrow> (nat \<times> nat) set \<Rightarrow> light_choice \<Rightarrow> bool" where
  "singles_ok n mp R p cells ch \<longleftrightarrow>
     (\<forall>s \<in> set (lc_singles ch). single_at n mp R p s \<and> (fst s, fst (snd s)) \<in> cells)"

definition alive_ok ::
  "nat \<Rightarrow> map_big_array \<Rightarrow> part list \<Rightarrow> possibility_packet \<Rightarrow> (nat \<times> nat) set \<Rightarrow> bool" where
  "alive_ok n mp R p cells \<longleftrightarrow> (\<forall>(x, y) \<in> cells. counted n mp R p x y \<longrightarrow> cell_count n mp R p x y \<noteq> 0)"

definition scan_ok ::
  "nat \<Rightarrow> map_big_array \<Rightarrow> part list \<Rightarrow> possibility_packet \<Rightarrow> (nat \<times> nat) set \<Rightarrow> light_choice \<Rightarrow> bool" where
  "scan_ok n mp R p cells ch \<longleftrightarrow> best_ok n mp R p cells ch \<and> fallback_ok n mp R p cells ch
     \<and> singles_ok n mp R p cells ch \<and> alive_ok n mp R p cells"

lemma choose_step_cases:
  "choose_step n mp R p w x y ch =
     (if grid_at n p x y \<noteq> -2 then Some ch
      else if \<not> counted n mp R p x y
      then Some (if lc_fallback ch = None then ch\<lparr>lc_fallback := Some (x, y)\<rparr> else ch)
      else if cell_count n mp R p x y = 0 then None
      else Some (ch\<lparr>lc_singles := (if cell_count n mp R p x y = 1 \<and> w
                        then lc_singles ch @ [(x, y, snd (light_free_count p mp (grid_key n mp R p x y) 0))]
                        else lc_singles ch),
                    lc_best := (case lc_best ch of None \<Rightarrow> Some (cell_count n mp R p x y, x, y)
                      | Some (k, bx, bye) \<Rightarrow> if cell_count n mp R p x y < k then Some (cell_count n mp R p x y, x, y)
                                            else Some (k, bx, bye))\<rparr>))"
  by (cases "lc_best ch")
    (auto simp: choose_step_def counted_def key_all_wild_def cell_count_def Let_def split: prod.splits)

lemma single_step:
  assumes "grid_at n p x y = -2" "cell_count n mp R p x y = 1"
  shows "single_at n mp R p (x, y, snd (light_free_count p mp (grid_key n mp R p x y) 0))"
  using assms free_scan_single(2)[of "b_faceused p" "get_parts_bigarray_with_key mp (grid_key n mp R p x y)"]
  by (simp add: single_at_def cell_count_def light_free_count_def)
    (metis prod.collapse)

lemma choose_step_ok:
  assumes "scan_ok n mp R p cells ch" "choose_step n mp R p w x y ch = Some ch'"
  shows "scan_ok n mp R p (insert (x, y) cells) ch'"
proof (cases "counted n mp R p x y")
  case False
  then show ?thesis using assms
    by (auto simp: choose_step_cases scan_ok_def best_ok_def fallback_ok_def singles_ok_def alive_ok_def
        split: if_splits option.splits)
next
  case True
  then have e: "grid_at n p x y = -2" by (simp add: counted_def)
  let ?k = "cell_count n mp R p x y"
  from assms(2) True e have k: "?k \<noteq> 0"
    and best: "lc_best ch' = (case lc_best ch of None \<Rightarrow> Some (?k, x, y)
         | Some (k, bx, bye) \<Rightarrow> if ?k < k then Some (?k, x, y) else Some (k, bx, bye))"
    and fb: "lc_fallback ch' = lc_fallback ch"
    and singles: "lc_singles ch' = (if ?k = 1 \<and> w then lc_singles ch
         @ [(x, y, snd (light_free_count p mp (grid_key n mp R p x y) 0))] else lc_singles ch)"
    by (auto simp: choose_step_cases split: if_splits)
  have "best_ok n mp R p (insert (x, y) cells) ch'"
  proof (cases "lc_best ch")
    case None
    then show ?thesis using assms(1) True best by (fastforce simp: scan_ok_def best_ok_def)
  next
    case (Some t)
    obtain k bx bye where "t = (k, bx, bye)" by (cases t)
    with Some assms(1) have b: "lc_best ch = Some (k, bx, bye)" "(bx, bye) \<in> cells" "counted n mp R p bx bye"
      "k = cell_count n mp R p bx bye"
      and all: "\<forall>(x, y) \<in> cells. counted n mp R p x y \<longrightarrow> k \<le> cell_count n mp R p x y"
      by (auto simp: scan_ok_def best_ok_def)
    show ?thesis
    proof (cases "?k < k")
      case less: True
      have "\<forall>(x', y') \<in> cells. counted n mp R p x' y' \<longrightarrow> ?k \<le> cell_count n mp R p x' y'"
        using all less by fastforce
      then show ?thesis using best b(1) less True by (simp add: best_ok_def)
    qed (use best b all in \<open>simp add: best_ok_def\<close>)
  qed
  moreover have "fallback_ok n mp R p (insert (x, y) cells) ch'"
    using assms(1) True fb by (auto simp: scan_ok_def fallback_ok_def split: option.splits)
  moreover have "singles_ok n mp R p (insert (x, y) cells) ch'"
    using assms(1) singles single_step[OF e] by (auto simp: scan_ok_def singles_ok_def split: if_splits)
  moreover have "alive_ok n mp R p (insert (x, y) cells)"
    using assms(1) k by (auto simp: scan_ok_def alive_ok_def)
  ultimately show ?thesis by (simp add: scan_ok_def)
qed

lemma choose_scan_ok:
  "scan_ok n mp R p seen ch \<Longrightarrow> choose_scan n mp R p w cells ch = Some ch' \<Longrightarrow>
   scan_ok n mp R p (seen \<union> set cells) ch'"
proof (induction cells arbitrary: ch seen)
  case (Cons xy cells)
  obtain x y where xy: "xy = (x, y)" by (cases xy)
  from Cons.prems(2) xy obtain ch1 where st: "choose_step n mp R p w x y ch = Some ch1"
    and rest: "choose_scan n mp R p w cells ch1 = Some ch'" by (auto split: option.splits)
  from Cons.IH[OF choose_step_ok[OF Cons.prems(1) st] rest] show ?case using xy by simp
qed simp

lemma choose_scan_dead:
  "choose_scan n mp R p w cells ch = None \<Longrightarrow>
   \<exists>(x, y) \<in> set cells. counted n mp R p x y \<and> cell_count n mp R p x y = 0"
proof (induction cells arbitrary: ch)
  case (Cons xy cells)
  obtain x y where xy: "xy = (x, y)" by (cases xy)
  show ?case
  proof (cases "choose_step n mp R p w x y ch")
    case None
    then have "counted n mp R p x y" "cell_count n mp R p x y = 0"
      by (auto simp: choose_step_cases split: if_splits)
    then show ?thesis using xy by auto
  next
    case (Some ch1)
    then show ?thesis using Cons xy by auto
  qed
qed simp

lemma scan_ok_start: "scan_ok n mp R p {} \<lparr>lc_best = None, lc_fallback = None, lc_singles = []\<rparr>"
  by (simp add: scan_ok_def best_ok_def fallback_ok_def singles_ok_def alive_ok_def)

lemma light_choose_cell_some:
  assumes "light_choose_cell n mp R p w = Some ((x, y), singles)"
  shows "x < n" "y < n" "grid_at n p x y = -2"
    and "\<forall>s \<in> set singles. single_at n mp R p s \<and> fst s < n \<and> fst (snd s) < n"
    and "\<And>x' y'. x' < n \<Longrightarrow> y' < n \<Longrightarrow> counted n mp R p x' y' \<Longrightarrow>
           counted n mp R p x y \<and> cell_count n mp R p x y \<le> cell_count n mp R p x' y'"
    and "\<And>x' y'. x' < n \<Longrightarrow> y' < n \<Longrightarrow> counted n mp R p x' y' \<Longrightarrow> cell_count n mp R p x' y' \<noteq> 0"
proof -
  obtain ch where sc: "choose_scan n mp R p w (List.product [0..<n] [0..<n])
        \<lparr>lc_best = None, lc_fallback = None, lc_singles = []\<rparr> = Some ch"
    using assms by (auto simp: light_choose_cell_def split: option.splits)
  from choose_scan_ok[OF scan_ok_start sc] have ok: "scan_ok n mp R p ({0..<n} \<times> {0..<n}) ch" by simp
  have fields: "singles = lc_singles ch"
    "lc_best ch = None \<Longrightarrow> lc_fallback ch = Some (x, y)"
    "\<And>b. lc_best ch = Some b \<Longrightarrow> snd b = (x, y)"
    using assms sc by (auto simp: light_choose_cell_def split: option.splits)
  show "x < n" "y < n" "grid_at n p x y = -2"
    using ok fields(2,3) by (cases "lc_best ch"; auto simp: scan_ok_def best_ok_def fallback_ok_def counted_def)+
  show "\<forall>s \<in> set singles. single_at n mp R p s \<and> fst s < n \<and> fst (snd s) < n"
    using ok fields(1) by (auto simp: scan_ok_def singles_ok_def)
  show "counted n mp R p x y \<and> cell_count n mp R p x y \<le> cell_count n mp R p x' y'"
    if "x' < n" "y' < n" "counted n mp R p x' y'" for x' y'
    using ok fields(3) that by (cases "lc_best ch") (auto simp: scan_ok_def best_ok_def)
  show "cell_count n mp R p x' y' \<noteq> 0" if "x' < n" "y' < n" "counted n mp R p x' y'" for x' y'
    using ok that by (auto simp: scan_ok_def alive_ok_def)
qed

lemma cell_count_zero:
  assumes "x < n" "y < n"
  shows "cell_count n mp R p x y = 0 \<longleftrightarrow> candidates n mp R p (cell_pos n x y) = []"
  using assms by (simp add: cell_count_def light_free_count_def free_scan_zero_iff candidates_def cell_key_def)

lemma light_choose_cell_none:
  assumes R: "rotation_table n R" and mp: "mp = prepare_map_part R a b" and p: "marks_ok n R p"
    and none: "light_choose_cell n mp R p w = None"
  shows "(\<forall>c < n * n. grid p ! c \<noteq> -2) \<or> completions n R (grid p) = {}"
proof (cases "choose_scan n mp R p w (List.product [0..<n] [0..<n])
        \<lparr>lc_best = None, lc_fallback = None, lc_singles = []\<rparr>")
  case None
  from choose_scan_dead[OF this] obtain x y where xy: "x < n" "y < n" "counted n mp R p x y"
    "cell_count n mp R p x y = 0" by auto
  then have "candidates n mp R p (cell_pos n x y) = []" "grid p ! cell_pos n x y = -2"
    using cell_count_zero[of x n y] by (auto simp: counted_def grid_at_def)
  then show ?thesis using no_candidate_no_completion[OF R mp p cell_pos_less[OF xy(1,2)]] by blast
next
  case (Some ch)
  from choose_scan_ok[OF scan_ok_start Some] have ok: "scan_ok n mp R p ({0..<n} \<times> {0..<n}) ch" by simp
  have "lc_best ch = None" "lc_fallback ch = None"
    using none Some by (auto simp: light_choose_cell_def split: option.splits)
  then have full: "grid_at n p x y \<noteq> -2" if "x < n" "y < n" for x y
    using ok that by (force simp: scan_ok_def best_ok_def fallback_ok_def)
  have "grid p ! c \<noteq> -2" if "c < n * n" for c
    using full[of "c div n" "c mod n"] cell_less_divmod[OF that] by (simp add: grid_at_def)
  then show ?thesis by blast
qed

section \<open>Dead children\<close>

lemma dead_neighbour_no_completion:
  assumes R: "rotation_table n R" and mp: "mp = prepare_map_part R a b" and p: "marks_ok n R child"
    and dead: "dead_neighbour n mp R child x y d"
  shows "completions n R (grid child) = {}"
proof -
  let ?x = "nat (int x + fst d)" and ?y = "nat (int y + snd d)"
  have xy: "?x < n" "?y < n" and e: "grid_at n child ?x ?y = -2"
    and z: "fst (light_free_count child mp (grid_key n mp R child ?x ?y) 1) = 0"
    using dead by (auto simp: dead_neighbour_def Let_def split: if_splits)
  have "candidates n mp R child (cell_pos n ?x ?y) = []"
    using z[unfolded light_free_count_def free_scan_stop] xy
    by (auto simp: candidates_def cell_key_def filter_empty_conv free_piece_def)
  then show ?thesis
    using no_candidate_no_completion[OF R mp p cell_pos_less[OF xy]] e by (simp add: grid_at_def)
qed

text \<open>Another cell whose only piece is the one just placed cannot be filled any more.\<close>

lemma single_taken_no_completion:
  assumes R: "rotation_table n R" and mp: "mp = prepare_map_part R a b" and p: "marks_ok n R p"
    and c: "c < n * n" "grid p ! c = -2" and q: "q \<in> set R" "p_id q \<noteq> 0"
    and s: "single_at n mp R p (sx, sy, p_id q)" "sx < n" "sy < n" "cell_pos n sx sy \<noteq> c"
  shows "completions n R (grid (place n c q p)) = {}"
proof (rule ccontr)
  let ?d = "cell_pos n sx sy" and ?v = "id_for_rotated_part n (p_id q) (p_rotation q)"
  assume "completions n R (grid (place n c q p)) \<noteq> {}"
  then obtain t where t: "t \<in> completions n R (grid (place n c q p))" by blast
  have d: "?d < n * n" using s by (intro cell_pos_less)
  have len: "length (grid p) = n * n" using p by (simp add: marks_ok_def grid_ok_def)
  have e: "grid p ! ?d = -2" using s(1) by (simp add: single_at_def grid_at_def)
  have "completions n R (grid (place n c q p)) \<subseteq> completions n R (grid p)"
    using c len by (intro completions_mono) (auto simp: place_def nth_list_update)
  with t have tp: "t \<in> completions n R (grid p)" by blast
  have sol: "solution n R t" using t by (simp add: completions_def)
  have "t ! c = ?v"
    using t c len table_member(1)[OF R q] by (auto simp: completions_def place_def valid_value_def)
  then have tc: "piece_of R (t ! c) = p_id q" using table_member(2)[OF R q] by simp
  from completion_candidate[OF R mp p d e tp]
  have "piece_of R (t ! ?d) \<in> set (free_ids (b_faceused p) (get_parts_bigarray_with_key mp (grid_key n mp R p sx sy)))"
    using s(2,3) by (auto simp: candidates_def free_ids_def cell_key_def)
  then have "piece_of R (t ! ?d) = p_id q" using s(1) by (simp add: single_at_def)
  then show False using solution_distinct[OF sol d c(1)] tc s(4) by simp
qed

section \<open>The expansion\<close>

definition light_child :: "nat \<Rightarrow> nat \<Rightarrow> possibility_packet \<Rightarrow> part \<Rightarrow> possibility_packet" where
  "light_child n c p q = (place n c q p)\<lparr>alloc := (possibility_placed_count n p + 1) mod 2 ^ 16,
     min_candidats := POSSIBILITY_MIN_CANDIDATS_UNKNOWN\<rparr>"

definition child_dead ::
  "nat \<Rightarrow> map_big_array \<Rightarrow> part list \<Rightarrow> possibility_packet \<Rightarrow> nat \<Rightarrow> nat
   \<Rightarrow> (nat \<times> nat \<times> int) list option \<Rightarrow> part \<Rightarrow> bool" where
  "child_dead n mp R p x y singles q = (case singles of None \<Rightarrow> False
     | Some ss \<Rightarrow> light_child_is_dead n mp R (light_child n (cell_pos n x y) p q) x y (p_id q) ss)"

text \<open>The children an allocator that answers \<open>room k\<close> lets through.\<close>

fun upto_room :: "(nat \<Rightarrow> bool) \<Rightarrow> nat \<Rightarrow> 'a list \<Rightarrow> 'a list" where
  "upto_room room k [] = []"
| "upto_room room k (x # xs) = (if room k then x # upto_room room (Suc k) xs else [])"

lemma upto_room_all: "(\<And>k. room k) \<Longrightarrow> upto_room room k xs = xs"
  by (induction xs arbitrary: k) auto

lemma upto_room_prefix: "\<exists>m. upto_room room k xs = take m xs"
proof (induction xs arbitrary: k)
  case (Cons x xs)
  from Cons[of "Suc k"] obtain m where "upto_room room (Suc k) xs = take m xs" by blast
  then show ?case
    by (cases "room k") (auto intro: exI[of _ "Suc m"] exI[of _ 0])
qed simp

lemma init_id_parts_nth:
  assumes "rotation_table n R" "q \<in> set R" "p_id q \<noteq> 0"
  shows "init_id_parts n ! nat (p_id q) ! nat (p_rotation q) = id_for_rotated_part n (p_id q) (p_rotation q)"
proof -
  note t = table_member[OF assms]
  note e = rotation_table_entry(1,2)[OF assms(1) t(1), unfolded t(2)]
  note r = piece_range[OF assms(1) t(1), unfolded t(2)]
  let ?v = "id_for_rotated_part n (p_id q) (p_rotation q)"
  have v: "1 \<le> ?v" "nat ?v \<le> 4 * (n * n)" using t(1) by (auto simp: valid_value_def)
  have N: "0 < int (n * n)" using assms(1) by (simp add: rotation_table_def)
  have "?v - 1 < 4 * int (n * n)" using v by linarith
  moreover have "(?v - 1) div int (n * n) * int (n * n) \<le> ?v - 1"
    using div_mult_mod_eq[of "?v - 1" "int (n * n)"] pos_mod_sign[OF N, of "?v - 1"] by linarith
  ultimately have "(?v - 1) div int (n * n) * int (n * n) < 4 * int (n * n)" by linarith
  then have "(?v - 1) div int (n * n) < 4" by (simp only: mult_less_cancel_right_pos[OF N])
  moreover have "0 \<le> (?v - 1) div int (n * n)" using v(1) by (simp only: pos_imp_zdiv_nonneg_iff[OF N])
  ultimately have rot: "0 \<le> p_rotation q" "p_rotation q < 4" using e(2) by linarith+
  have "nat (p_rotation q) < 4" using rot by linarith
  then have "[0..<4] ! nat (p_rotation q) = nat (p_rotation q)" by (simp del: upt_rec_numeral)
  moreover have "nat (p_id q) \<le> n * n" using r by linarith
  ultimately have "init_id_parts n ! nat (p_id q) ! nat (p_rotation q) = p_id q + int (n * n) * p_rotation q"
    using r(1) rot by (simp add: init_id_parts_def nth_append del: upt_Suc upt_rec_numeral)
  also have "\<dots> = ?v"
    using e(1) arg_cong[OF e(2), of "\<lambda>r. int (n * n) * r"] mod_mult_div_eq[of "?v - 1" "int (n * n)"] by linarith
  finally show ?thesis .
qed

text \<open>The work packet of the loop: the position up to the expanded cell and two counters.\<close>

definition child_like :: "nat \<Rightarrow> possibility_packet \<Rightarrow> possibility_packet \<Rightarrow> bool" where
  "child_like c p ch \<longleftrightarrow> (\<exists>v k m. ch = p\<lparr>grid := (grid p)[c := v], alloc := k, min_candidats := m\<rparr>)"

definition unplaced :: "nat \<Rightarrow> nat \<Rightarrow> possibility_packet \<Rightarrow> part \<Rightarrow> possibility_packet" where
  "unplaced n c p q = (light_child n c p q)
     \<lparr>b_faceused := set_face_used (b_faceused (light_child n c p q)) (nat (p_id q - 1)) 0\<rparr>"

lemma unplaced_like:
  assumes R: "rotation_table n R" and fu: "length (b_faceused p) = FACES_USED_SIZE n"
    and q: "free_piece (b_faceused p) q" "q \<in> set R"
  shows "child_like c p (unplaced n c p q)"
proof -
  have q': "p_id q \<noteq> 0" "\<not> is_face_used (b_faceused p) (nat (p_id q - 1))" using q by (auto simp: free_piece_def)
  from piece_range[OF R table_member(1)[OF R q(2) q'(1)]] table_member(2)[OF R q(2) q'(1)]
  have "nat (p_id q - 1) < 16 * length (b_faceused p)" using piece_bit_range(2)[OF R fu] by simp
  note restore = halfword.del_ins_restores[OF this q'(2)]
  show ?thesis unfolding child_like_def using restore
    by (intro exI[of _ "id_for_rotated_part n (p_id q) (p_rotation q)"] exI[of _ "alloc (light_child n c p q)"]
        exI[of _ POSSIBILITY_MIN_CANDIDATS_UNKNOWN], cases p) (simp add: unplaced_def light_child_def place_def)
qed

lemma expand_step:
  assumes R: "rotation_table n R" and q: "free_piece (b_faceused p) q" "q \<in> set R"
    and like: "child_like (cell_pos n x y) p (lo_child out)"
  shows "expand_loop n mp R (init_id_parts n) room p x y singles (q # qs) out =
     (if child_dead n mp R p x y singles q
      then expand_loop n mp R (init_id_parts n) room p x y singles qs
             (out\<lparr>lo_child := unplaced n (cell_pos n x y) p q, lo_pruned := lo_pruned out + 1\<rparr>)
      else if room (length (lo_queue out))
      then expand_loop n mp R (init_id_parts n) room p x y singles qs
             (out\<lparr>lo_child := unplaced n (cell_pos n x y) p q,
                  lo_queue := lo_queue out @ [light_child n (cell_pos n x y) p q]\<rparr>)
      else out)"
proof -
  let ?c = "cell_pos n x y"
  have q': "p_id q \<noteq> 0" "\<not> is_face_used (b_faceused p) (nat (p_id q - 1))" using q by (auto simp: free_piece_def)
  obtain v k m where lk: "lo_child out = p\<lparr>grid := (grid p)[?c := v], alloc := k, min_candidats := m\<rparr>"
    using like by (auto simp: child_like_def)
  have ch: "(lo_child out)\<lparr>grid := (grid (lo_child out))[?c := init_id_parts n ! nat (p_id q) ! nat (p_rotation q)],
              b_faceused := set_face_used (b_faceused (lo_child out)) (nat (p_id q - 1)) 1,
              alloc := (possibility_placed_count n p + 1) mod 2 ^ 16,
              min_candidats := POSSIBILITY_MIN_CANDIDATS_UNKNOWN\<rparr> = light_child n ?c p q"
    by (simp add: lk light_child_def place_def init_id_parts_nth[OF R q(2) q'(1)])
  show ?thesis
    using q' by (simp only: expand_loop.simps Let_def ch child_dead_def unplaced_def if_False)
qed

text \<open>The queue receives the live free candidates, in table order, as far as the allocator
  follows; the others are counted as pruned.\<close>

lemma expand_loop_spec:
  assumes R: "rotation_table n R" and fu: "length (b_faceused p) = FACES_USED_SIZE n"
    and sub: "set qs \<subseteq> set R" and like: "child_like (cell_pos n x y) p (lo_child out)"
    and ok: "ok \<Longrightarrow> \<forall>k. room k"
  shows "lo_queue (expand_loop n mp R (init_id_parts n) room p x y singles qs out)
     = lo_queue out @ map (light_child n (cell_pos n x y) p) (upto_room room (length (lo_queue out))
         (filter (\<lambda>q. \<not> child_dead n mp R p x y singles q) (filter (free_piece (b_faceused p)) qs)))
   \<and> (ok \<longrightarrow> lo_pruned (expand_loop n mp R (init_id_parts n) room p x y singles qs out)
     = lo_pruned out + length (filter (child_dead n mp R p x y singles) (filter (free_piece (b_faceused p)) qs)))"
  using sub like
proof (induction qs arbitrary: out)
  case (Cons q qs)
  note [simp del] = expand_loop.simps(2)
  have sub: "set qs \<subseteq> set R" using Cons.prems by simp
  show ?case
  proof (cases "free_piece (b_faceused p) q")
    case False
    then have "expand_loop n mp R (init_id_parts n) room p x y singles (q # qs) out
        = expand_loop n mp R (init_id_parts n) room p x y singles qs out"
      by (auto simp: free_piece_def expand_loop.simps(2) Let_def)
    then show ?thesis using Cons.IH[OF sub Cons.prems(2)] False by simp
  next
    case True
    have q: "q \<in> set R" using Cons.prems by simp
    let ?u = "unplaced n (cell_pos n x y) p q" and ?ch = "light_child n (cell_pos n x y) p q"
    note step = expand_step[OF R True q Cons.prems(2)]
    note like' = unplaced_like[OF R fu True q]
    consider "child_dead n mp R p x y singles q" | "\<not> child_dead n mp R p x y singles q" "room (length (lo_queue out))"
      | "\<not> child_dead n mp R p x y singles q" "\<not> room (length (lo_queue out))" by blast
    then show ?thesis
    proof cases
      case 1
      then show ?thesis
        using True Cons.IH[OF sub, of "out\<lparr>lo_child := ?u, lo_pruned := lo_pruned out + 1\<rparr>"] like'
        by (simp add: step)
    next
      case 2
      then show ?thesis
        using True Cons.IH[OF sub, of "out\<lparr>lo_child := ?u, lo_queue := lo_queue out @ [?ch]\<rparr>"] like'
        by (simp add: step)
    next
      case 3
      then have "\<not> ok" using ok by blast
      then show ?thesis using True 3 by (simp add: step)
    qed
  qed
qed simp

lemma light_child_grid [simp]: "grid (light_child n c p q) = grid (place n c q p)"
  by (simp add: light_child_def)

lemma light_child_marks [simp]:
  "marks_ok n R (light_child n c p q) = marks_ok n R (place n c q p)"
  "board_ok n R (light_child n c p q) = board_ok n R (place n c q p)"
  by (simp_all add: light_child_def)

lemma child_dead_no_completion:
  assumes R: "rotation_table n R" and mp: "mp = prepare_map_part R a b" and p: "marks_ok n R p"
    and xy: "x < n" "y < n" "grid_at n p x y = -2"
    and ss: "\<forall>s \<in> set ss. single_at n mp R p s \<and> fst s < n \<and> fst (snd s) < n"
    and q: "q \<in> set (candidates n mp R p (cell_pos n x y))"
    and dead: "child_dead n mp R p x y (Some ss) q"
  shows "completions n R (grid (place n (cell_pos n x y) q p)) = {}"
proof -
  let ?c = "cell_pos n x y"
  have c: "?c < n * n" "grid p ! ?c = -2" using xy cell_pos_less[OF xy(1,2)] by (auto simp: grid_at_def)
  note cq = candidateD[OF R mp marks_grid[OF p] c(1) q]
  have m: "marks_ok n R (light_child n ?c p q)" using place_marks[OF R p c cq(1,2)] by simp
  from dead consider (single) sx sy where "(sx, sy, p_id q) \<in> set ss" "sx \<noteq> x \<or> sy \<noteq> y"
    | (neighbour) d where "dead_neighbour n mp R (light_child n ?c p q) x y d"
    unfolding child_dead_def option.case light_child_is_dead_def list_ex_iff by fast
  then show ?thesis
  proof cases
    case single
    then have s: "single_at n mp R p (sx, sy, p_id q)" "sx < n" "sy < n" using ss by fastforce+
    moreover have "cell_pos n sx sy \<noteq> ?c" using single(2) cell_pos_inject[OF s(3) xy(2)] by blast
    ultimately show ?thesis using single_taken_no_completion[OF R mp p c cq(1,2)] by blast
  next
    case neighbour
    from dead_neighbour_no_completion[OF R mp m this] show ?thesis by simp
  qed
qed

lemma light_queue:
  assumes R: "rotation_table n R" and mp: "mp = prepare_map_part R a b" and p: "marks_ok n R p"
    and ch: "light_choose_cell n mp R p prune = Some ((x, y), singles)"
  defines "c \<equiv> cell_pos n x y"
    and "dead \<equiv> child_dead n mp R p x y (if prune then Some singles else None)"
  shows "fst (snd (search_possiblity_light_impl n mp R (init_id_parts n) room prune p))
     = map (light_child n c p) (upto_room room 0 (filter (\<lambda>q. \<not> dead q) (candidates n mp R p c)))"
    and "(\<And>k. room k) \<Longrightarrow> fst (snd (snd (search_possiblity_light_impl n mp R (init_id_parts n) room prune p)))
     = length (filter dead (candidates n mp R p c))"
proof -
  note sc = light_choose_cell_some[OF ch]
  have g: "grid_ok n (grid p)" and fu: "length (b_faceused p) = FACES_USED_SIZE n"
    using p by (auto simp: marks_ok_def)
  have key: "cell_key n mp R p c = grid_key n mp R p x y" using sc by (simp add: c_def cell_key_def)
  have "key_in_range (sizearrayM mp) (cell_key n mp R p c)"
    unfolding c_def by (rule cell_key_range[OF R mp g cell_pos_less[OF sc(1,2)]])
  then have sub: "set (get_parts_bigarray_with_key mp (grid_key n mp R p x y)) \<subseteq> set R"
    using key by (auto simp: mp flat_table.mem_lookup)
  have like: "child_like (cell_pos n x y) p (lo_child \<lparr>lo_child = p, lo_queue = [], lo_pruned = 0\<rparr>)"
    unfolding child_like_def
    by (intro exI[of _ "grid p ! cell_pos n x y"] exI[of _ "alloc p"] exI[of _ "min_candidats p"]) simp
  have cand: "candidates n mp R p (cell_pos n x y)
      = filter (free_piece (b_faceused p)) (get_parts_bigarray_with_key mp (grid_key n mp R p x y))"
    using key by (simp add: candidates_def c_def)
  define out where "out = expand_loop n mp R (init_id_parts n) room p x y (if prune then Some singles else None)
     (get_parts_bigarray_with_key mp (grid_key n mp R p x y)) \<lparr>lo_child = p, lo_queue = [], lo_pruned = 0\<rparr>"
  note sp = expand_loop_spec[OF R fu sub like, of "\<forall>k. room k" room mp "if prune then Some singles else None",
      folded out_def dead_def cand, folded c_def]
  have impl: "snd (search_possiblity_light_impl n mp R (init_id_parts n) room prune p)
     = (lo_queue out, lo_pruned out, lo_queue out \<noteq> [] \<and> ETERN_PARTS n \<le> alloc (last (lo_queue out)))"
    by (simp add: search_possiblity_light_impl_def ch Let_def out_def)
  show "fst (snd (search_possiblity_light_impl n mp R (init_id_parts n) room prune p))
     = map (light_child n c p) (upto_room room 0 (filter (\<lambda>q. \<not> dead q) (candidates n mp R p c)))"
    using sp unfolding impl by simp
  show "fst (snd (snd (search_possiblity_light_impl n mp R (init_id_parts n) room prune p)))
     = length (filter dead (candidates n mp R p c))" if "\<And>k. room k"
  proof -
    have "\<forall>k. room k" using that by blast
    with sp show ?thesis unfolding impl fst_conv snd_conv by (metis add_0 light_out.select_convs(3))
  qed
qed

lemma light_queue_none:
  "light_choose_cell n mp R p prune = None \<Longrightarrow>
   search_possiblity_light_impl n mp R idp room prune p = (0, [], 0, False)"
  by (simp add: search_possiblity_light_impl_def)

lemma placed_place:
  assumes "length (grid p) = n * n" "c < n * n" "grid p ! c = -2"
    and "id_for_rotated_part n (p_id q) (p_rotation q) \<noteq> -2"
  shows "possibility_placed_count n (place n c q p) = possibility_placed_count n p + 1"
proof -
  have "grid p = take c (grid p) @ grid p ! c # drop (Suc c) (grid p)"
    using assms by (intro id_take_nth_drop) simp
  then have "filter (\<lambda>v. v \<noteq> -2) (grid p) = filter (\<lambda>v. v \<noteq> -2) (take c (grid p))
       @ filter (\<lambda>v. v \<noteq> -2) (drop (Suc c) (grid p))"
    using assms(3) by (metis (mono_tags, lifting) filter.simps(2) filter_append)
  then show ?thesis using assms
    by (simp add: placed_count_filter place_def upd_conv_take_nth_drop)
qed

definition light_children ::
  "nat \<Rightarrow> map_big_array \<Rightarrow> part list \<Rightarrow> bool \<Rightarrow> possibility_packet \<Rightarrow> possibility_packet list" where
  "light_children n mp R prune p =
     fst (snd (search_possiblity_light_impl n mp R (init_id_parts n) (\<lambda>_. True) prune p))"

lemma light_children_cases:
  assumes R: "rotation_table n R" and mp: "mp = prepare_map_part R a b" and p: "marks_ok n R p"
    and e: "\<exists>c < n * n. grid p ! c = -2"
  obtains (stuck) "light_children n mp R prune p = []" "completions n R (grid p) = {}"
  | (cut) c live where "c < n * n" "grid p ! c = -2"
      "light_children n mp R prune p = map (light_child n c p) (filter live (candidates n mp R p c))"
      "\<forall>q \<in> set (candidates n mp R p c). \<not> live q \<longrightarrow> completions n R (grid (place n c q p)) = {}"
      "\<not> prune \<Longrightarrow> \<forall>q. live q"
proof (cases "light_choose_cell n mp R p prune")
  case None
  then show thesis
    using light_choose_cell_none[OF R mp p None] e stuck by (auto simp: light_children_def light_queue_none)
next
  case (Some ch)
  obtain x y singles where ch: "ch = ((x, y), singles)" by (metis prod.exhaust)
  note sc = light_choose_cell_some[OF Some[unfolded ch]]
  let ?c = "cell_pos n x y" and ?ss = "if prune then Some singles else None"
  have dead: "completions n R (grid (place n ?c q p)) = {}"
    if "q \<in> set (candidates n mp R p ?c)" "child_dead n mp R p x y ?ss q" for q
    using child_dead_no_completion[OF R mp p sc(1,2,3,4) that(1)] that(2)
    by (cases prune) (simp_all add: child_dead_def)
  show thesis
  proof (rule cut[of ?c "\<lambda>q. \<not> child_dead n mp R p x y ?ss q"])
    show "light_children n mp R prune p
       = map (light_child n ?c p) (filter (\<lambda>q. \<not> child_dead n mp R p x y ?ss q) (candidates n mp R p ?c))"
      using light_queue(1)[OF R mp p Some[unfolded ch], of "\<lambda>_. True"]
      by (simp only: light_children_def upto_room_all)
  qed (use sc dead cell_pos_less in \<open>auto simp: grid_at_def child_dead_def\<close>)
qed

text \<open>The expansion cuts the completions of a position exactly, whether or not it prunes.\<close>

lemma light_children_exact:
  assumes R: "rotation_table n R" and mp: "mp = prepare_map_part R a b" and p: "marks_ok n R p"
    and e: "\<exists>c < n * n. grid p ! c = -2"
  shows "completions n R (grid p) = (\<Union>k \<in> set (light_children n mp R prune p). completions n R (grid k))"
proof (cases rule: light_children_cases[OF R mp p e, of prune, case_names stuck cut])
  case stuck
  then show ?thesis by simp
next
  case (cut c live)
  have "completions n R (grid p) = (\<Union>q \<in> set (candidates n mp R p c). completions n R (grid (place n c q p)))"
    using completions_children[OF R mp p cut(1,2)] .
  also have "\<dots> = (\<Union>q \<in> set (filter live (candidates n mp R p c)). completions n R (grid (place n c q p)))"
    using cut(4) by fastforce
  also have "\<dots> = (\<Union>k \<in> set (light_children n mp R prune p). completions n R (grid k))"
    by (simp add: cut(3))
  finally show ?thesis .
qed

lemma light_children_disjoint:
  assumes R: "rotation_table n R" and mp: "mp = prepare_map_part R a b" and p: "marks_ok n R p"
    and e: "\<exists>c < n * n. grid p ! c = -2"
    and k: "k \<in> set (light_children n mp R prune p)" "k' \<in> set (light_children n mp R prune p)" "k \<noteq> k'"
  shows "completions n R (grid k) \<inter> completions n R (grid k') = {}"
proof (cases rule: light_children_cases[OF R mp p e, of prune, case_names stuck cut])
  case stuck
  then show ?thesis using k by simp
next
  case (cut c live)
  from k obtain q q' where "q \<in> set (candidates n mp R p c)" "q' \<in> set (candidates n mp R p c)"
    "k = light_child n c p q" "k' = light_child n c p q'" "q \<noteq> q'" by (auto simp: cut(3))
  then show ?thesis using children_disjoint[OF R mp marks_grid[OF p] cut(1,2)] by simp
qed

lemma placed_count_le: "length (grid p) = n * n \<Longrightarrow> possibility_placed_count n p \<le> n * n"
  by (metis length_filter_le placed_count_filter)

lemma light_children_ok:
  assumes R: "rotation_table n R" and mp: "mp = prepare_map_part R a b" and p: "board_ok n R p"
    and e: "\<exists>c < n * n. grid p ! c = -2" and k: "k \<in> set (light_children n mp R prune p)"
  shows "board_ok n R k" and "possibility_placed_count n k = possibility_placed_count n p + 1"
    and "alloc k = possibility_placed_count n k"
proof -
  obtain c q where cut: "c < n * n" "grid p ! c = -2"
    and q: "q \<in> set (candidates n mp R p c)" "k = light_child n c p q"
    by (rule light_children_cases[OF R mp board_marks[OF p] e, of prune]) (use k in auto)
  have g: "grid_ok n (grid p)" and len: "length (grid p) = n * n" using p by (auto simp: board_ok_def marks_ok_def grid_ok_def)
  show ok: "board_ok n R k" using place_board_ok[OF R mp p cut(1,2) q(1)] q(2) by simp
  note cq = candidateD[OF R mp g cut(1) q(1)]
  have "id_for_rotated_part n (p_id q) (p_rotation q) \<noteq> -2"
    using table_member(1)[OF R cq(1,2)] by (auto simp: valid_value_def)
  from placed_place[OF len cut(1,2) this]
  show cnt: "possibility_placed_count n k = possibility_placed_count n p + 1"
    using q(2) by (simp add: possibility_placed_count_def grid_at_def)
  have "length (grid k) = n * n" using ok by (simp add: board_ok_def marks_ok_def grid_ok_def)
  from placed_count_le[OF this] have "possibility_placed_count n k \<le> n * n" .
  moreover have "n * n \<le> 16 * 16" using R by (intro mult_mono) (auto simp: rotation_table_def)
  ultimately show "alloc k = possibility_placed_count n k" using q(2) cnt by (simp add: light_child_def)
qed

text \<open>The pruned expansion keeps a sublist of the full one, in order.\<close>

lemma light_choose_singles_irrelevant:
  "map_option fst (light_choose_cell n mp R p True) = map_option fst (light_choose_cell n mp R p False)"
proof -
  have step: "rel_option (\<lambda>c d. lc_best c = lc_best d \<and> lc_fallback c = lc_fallback d)
      (choose_step n mp R p True x y ch) (choose_step n mp R p False x y ch')"
    if "lc_best ch = lc_best ch'" "lc_fallback ch = lc_fallback ch'" for x y ch ch'
    using that by (simp add: choose_step_cases)
  have scan: "rel_option (\<lambda>c d. lc_best c = lc_best d \<and> lc_fallback c = lc_fallback d)
      (choose_scan n mp R p True cells ch) (choose_scan n mp R p False cells ch')"
    if "lc_best ch = lc_best ch'" "lc_fallback ch = lc_fallback ch'" for cells ch ch'
    using that
  proof (induction cells arbitrary: ch ch')
    case (Cons xy cells)
    obtain x y where "xy = (x, y)" by (cases xy)
    then show ?case using Cons step[of ch ch' x y]
      by (cases "choose_step n mp R p True x y ch"; cases "choose_step n mp R p False x y ch'") auto
  qed simp
  let ?i = "\<lparr>lc_best = None, lc_fallback = None, lc_singles = []\<rparr>" and ?cs = "List.product [0..<n] [0..<n]"
  from scan[of ?i ?i ?cs] show ?thesis
    by (cases "choose_scan n mp R p True ?cs ?i"; cases "choose_scan n mp R p False ?cs ?i")
      (auto simp: light_choose_cell_def option.map_comp comp_def split: option.splits)
qed

section \<open>The bounded look-ahead\<close>

lemma fc_scan_sound:
  assumes R: "rotation_table n R" and mp: "mp = prepare_map_part R a b" and p: "marks_ok n R p"
    and n: "ETERN_SIZE_supported n"
  shows "set cs \<subseteq> {0..<n * n} \<Longrightarrow> \<not> fst (fc_scan K n mp R p cs k) \<Longrightarrow> completions n R (grid p) = {}"
proof (induction cs arbitrary: k)
  case (Cons c cs)
  let ?x = "dirx n ! c" and ?y = "diry n ! c"
  have xy: "?x < n" "?y < n" using Cons.prems(1) dirx_less[OF n] diry_less[OF n] by auto
  have free: "has_free_candidate (b_faceused p) (get_parts_bigarray_with_key mp (grid_key n mp R p ?x ?y))
     \<longleftrightarrow> candidates n mp R p (cell_pos n ?x ?y) \<noteq> []"
    using xy by (auto simp: has_free_candidate_def candidates_def cell_key_def filter_empty_conv free_piece_def)
  show ?case
  proof (cases "grid_at n p ?x ?y = -2 \<and> candidates n mp R p (cell_pos n ?x ?y) = []")
    case True
    then show ?thesis using no_candidate_no_completion[OF R mp p cell_pos_less[OF xy]] by (simp add: grid_at_def)
  next
    case False
    then have "get_parts_bigarray_with_key mp (grid_key n mp R p ?x ?y) \<noteq> []" if "grid_at n p ?x ?y = -2"
      using that xy by (auto simp: candidates_def cell_key_def)
    then show ?thesis using Cons free False by (auto simp: Let_def split: if_splits)
  qed
qed simp

lemma fc_scan_complete:
  assumes "fst (fc_scan K n mp R p cs k)" "k + length cs \<le> K" "c \<in> set cs"
    and "ETERN_SIZE_supported n" "set cs \<subseteq> {0..<n * n}" "grid_at n p (dirx n ! c) (diry n ! c) = -2"
  shows "candidates n mp R p (cell_pos n (dirx n ! c) (diry n ! c)) \<noteq> []"
  using assms(1-3,5)
proof (induction cs arbitrary: k)
  case (Cons d cs)
  have xy: "dirx n ! c < n" "diry n ! c < n" using Cons.prems(3,4) dirx_less[OF assms(4)] diry_less[OF assms(4)] by auto
  then show ?case using Cons.IH[of k] Cons.IH[of "k + 1"] Cons.prems assms(6)
    by (auto simp: Let_def has_free_candidate_def candidates_def cell_key_def filter_empty_conv free_piece_def
        split: if_splits)
qed simp

section \<open>Properties\<close>

text \<open>C9. \<open>search_possiblity_light\<close> cuts a position exactly: the completions of the position are the
  union of the completions of the queued children, and no completion is reached through two
  children. Nothing is lost and nothing is searched twice.\<close>

theorem search_possiblity_light_exact:
  assumes "rotation_table n R" "marks_ok n R p" "\<exists>c < n * n. grid p ! c = -2"
  shows "let q = fst (snd (search_possiblity_light n (prepare_map_part R a b) R (init_id_parts n) (\<lambda>_. True) p)) in
     completions n R (grid p) = (\<Union>k \<in> set q. completions n R (grid k))
     \<and> (\<forall>k \<in> set q. \<forall>k' \<in> set q. k \<noteq> k' \<longrightarrow> completions n R (grid k) \<inter> completions n R (grid k') = {})"
  using light_children_exact[OF assms(1) refl assms(2,3), of a b False]
    light_children_disjoint[OF assms(1) refl assms(2,3), of _ a b False]
  by (simp add: light_children_def search_possiblity_light_def Let_def)

theorem search_possiblity_light_exact_witness:
  "let q = fst (snd (search_possiblity_light 4 (prepare_map_part sample_rotations True True) sample_rotations
             (init_id_parts 4) (\<lambda>_. True) sample_empty)) in
     completions 4 sample_rotations (grid sample_empty) = (\<Union>k \<in> set q. completions 4 sample_rotations (grid k))
     \<and> (\<forall>k \<in> set q. \<forall>k' \<in> set q. k \<noteq> k' \<longrightarrow>
          completions 4 sample_rotations (grid k) \<inter> completions 4 sample_rotations (grid k') = {})"
  by (rule search_possiblity_light_exact[OF sample_rotation_table sample_empty_marks sample_empty_cell])

text \<open>C10. The pruned variant queues only children of the plain one and still covers every
  completion: what it drops has none. The counter it adds to is the number of free candidates
  it left out.\<close>

theorem search_possiblity_light_pruned_sound:
  assumes "rotation_table n R" "marks_ok n R p" "\<exists>c < n * n. grid p ! c = -2"
  shows "let mp = prepare_map_part R a b;
             full = fst (snd (search_possiblity_light n mp R (init_id_parts n) (\<lambda>_. True) p));
             out = snd (search_possiblity_light_pruned n mp R (init_id_parts n) (\<lambda>_. True) p)
         in set (fst out) \<subseteq> set full \<and> length full = length (fst out) + fst (snd out)
            \<and> completions n R (grid p) = (\<Union>k \<in> set (fst out). completions n R (grid k))"
proof -
  let ?mp = "prepare_map_part R a b"
  have exact: "completions n R (grid p) = (\<Union>k \<in> set (light_children n ?mp R True p). completions n R (grid k))"
    by (rule light_children_exact[OF assms(1) refl assms(2,3)])
  show ?thesis
  proof (cases "light_choose_cell n ?mp R p True")
    case None
    then have "light_choose_cell n ?mp R p False = None"
      using light_choose_singles_irrelevant[of n ?mp R p] by (metis map_option_is_None)
    then show ?thesis using None exact
      by (simp add: Let_def search_possiblity_light_def search_possiblity_light_pruned_def light_queue_none
          light_children_def)
  next
    case (Some ch)
    obtain x y ss where ch: "ch = ((x, y), ss)" by (metis prod.exhaust)
    obtain ss' where other: "light_choose_cell n ?mp R p False = Some ((x, y), ss')"
      using light_choose_singles_irrelevant[of n ?mp R p] Some ch
      by (cases "light_choose_cell n ?mp R p False") auto
    let ?cand = "candidates n ?mp R p (cell_pos n x y)" and ?dead = "child_dead n ?mp R p x y (Some ss)"
    have full: "fst (snd (search_possiblity_light n ?mp R (init_id_parts n) (\<lambda>_. True) p))
        = map (light_child n (cell_pos n x y) p) ?cand"
      using light_queue(1)[OF assms(1) refl assms(2) other, of "\<lambda>_. True"]
      by (simp add: search_possiblity_light_def upto_room_all child_dead_def)
    have out: "fst (snd (search_possiblity_light_pruned n ?mp R (init_id_parts n) (\<lambda>_. True) p))
        = map (light_child n (cell_pos n x y) p) (filter (\<lambda>q. \<not> ?dead q) ?cand)"
      "fst (snd (snd (search_possiblity_light_pruned n ?mp R (init_id_parts n) (\<lambda>_. True) p)))
        = length (filter ?dead ?cand)"
      using light_queue[OF assms(1) refl assms(2) Some[unfolded ch], of "\<lambda>_. True"]
      by (simp_all add: search_possiblity_light_pruned_def upto_room_all)
    have "light_children n ?mp R True p = map (light_child n (cell_pos n x y) p) (filter (\<lambda>q. \<not> ?dead q) ?cand)"
      using out(1) by (simp add: light_children_def search_possiblity_light_pruned_def)
    then show ?thesis
      using exact sum_length_filter_compl[of ?dead ?cand] unfolding Let_def full out by auto
  qed
qed

theorem search_possiblity_light_pruned_sound_witness:
  "let mp = prepare_map_part sample_rotations True True;
       full = fst (snd (search_possiblity_light 4 mp sample_rotations (init_id_parts 4) (\<lambda>_. True) sample_empty));
       out = snd (search_possiblity_light_pruned 4 mp sample_rotations (init_id_parts 4) (\<lambda>_. True) sample_empty)
   in set (fst out) \<subseteq> set full \<and> length full = length (fst out) + fst (snd out)
      \<and> completions 4 sample_rotations (grid sample_empty)
          = (\<Union>k \<in> set (fst out). completions 4 sample_rotations (grid k))"
  by (rule search_possiblity_light_pruned_sound[OF sample_rotation_table sample_empty_marks sample_empty_cell])

text \<open>C12. Every queued child satisfies the board invariant, holds exactly one piece more than its
  parent, and its \<open>alloc\<close> counter is the number of its filled cells, pruning or not.\<close>

theorem search_possiblity_light_children_ok:
  assumes "rotation_table n R" "board_ok n R p" "\<exists>c < n * n. grid p ! c = -2"
  shows "list_all (\<lambda>k. board_ok n R k \<and> alloc k = possibility_placed_count n k
       \<and> possibility_placed_count n k = possibility_placed_count n p + 1)
     (fst (snd (search_possiblity_light_impl n (prepare_map_part R a b) R (init_id_parts n) (\<lambda>_. True) prune p)))"
  using light_children_ok[OF assms(1) refl assms(2,3), of _ a b prune]
  by (simp add: light_children_def list_all_iff)

theorem search_possiblity_light_children_ok_witness:
  "list_all (\<lambda>k. board_ok 4 sample_rotations k \<and> alloc k = possibility_placed_count 4 k
       \<and> possibility_placed_count 4 k = possibility_placed_count 4 sample_empty + 1)
     (fst (snd (search_possiblity_light_impl 4 (prepare_map_part sample_rotations True True)
        sample_rotations (init_id_parts 4) (\<lambda>_. True) True sample_empty)))"
  by (rule search_possiblity_light_children_ok[OF sample_rotation_table sample_empty_ok sample_empty_cell])

text \<open>C11. The fixpoint of forced cells always returns. When it answers 1 the position keeps its
  completions and its invariant and every constrained empty cell has a free candidate; when it
  answers 0 the position has no completion.\<close>

theorem possibility_all_has_a_next_correct:
  assumes "rotation_table n R" "ETERN_SIZE_supported n" "marks_ok n R p"
  shows "\<exists>r p' k. possibility_all_has_a_next_counted n (prepare_map_part R a b) R p = Some (r, p', k)
     \<and> (if r then completions n R (grid p') = completions n R (grid p) \<and> marks_ok n R p'
               \<and> (board_ok n R p \<longrightarrow> board_ok n R p')
               \<and> (\<forall>c < n * n. cell_alive n (prepare_map_part R a b) R p' c)
        else completions n R (grid p) = {})"
proof -
  obtain r p' k where "possibility_all_has_a_next_counted n (prepare_map_part R a b) R p = Some (r, p', k)"
    and "keeps n R p p'"
    and "r \<longrightarrow> (\<forall>c < n * n. cell_alive n (prepare_map_part R a b) R p' c)"
    and "\<not> r \<longrightarrow> completions n R (grid p) = {}"
    by (rule all_has_a_next_spec[OF assms(1) refl assms(2,3), where a = a and b = b])
  then show ?thesis by (cases r) (auto simp: keeps_def)
qed

theorem possibility_all_has_a_next_correct_witness:
  "\<exists>r p' k. possibility_all_has_a_next_counted 4 (prepare_map_part sample_rotations True True)
       sample_rotations sample_empty = Some (r, p', k)
     \<and> (if r then completions 4 sample_rotations (grid p') = completions 4 sample_rotations (grid sample_empty)
               \<and> marks_ok 4 sample_rotations p'
               \<and> (board_ok 4 sample_rotations sample_empty \<longrightarrow> board_ok 4 sample_rotations p')
               \<and> (\<forall>c < 4 * 4. cell_alive 4 (prepare_map_part sample_rotations True True) sample_rotations p' c)
        else completions 4 sample_rotations (grid sample_empty) = {})"
  by (rule possibility_all_has_a_next_correct[OF sample_rotation_table sample_supported sample_empty_marks])

text \<open>The cell \<open>light_choose_cell\<close> returns is empty and has the fewest free candidates of all
  cells that touch the frame or a piece; 0 is returned only for a full board or a position
  without completion.\<close>

lemma light_choose_cell_most_constrained:
  assumes "rotation_table n R" "marks_ok n R p"
  shows "case light_choose_cell n (prepare_map_part R a b) R p w of
       None \<Rightarrow> (\<forall>c < n * n. grid p ! c \<noteq> -2) \<or> completions n R (grid p) = {}
     | Some ((x, y), _) \<Rightarrow> x < n \<and> y < n \<and> grid_at n p x y = -2 \<and>
         (\<forall>x' < n. \<forall>y' < n. counted n (prepare_map_part R a b) R p x' y' \<longrightarrow>
            counted n (prepare_map_part R a b) R p x y
            \<and> cell_count n (prepare_map_part R a b) R p x y \<le> cell_count n (prepare_map_part R a b) R p x' y')"
  using light_choose_cell_none[OF assms(1) refl assms(2), of a b w]
    light_choose_cell_some[of n "prepare_map_part R a b" R p w]
  by (auto split: option.split)

text \<open>The look-ahead over the next \<open>K\<close> empty cells only refuses positions without completion.\<close>

lemma forward_check_next_k_sound:
  assumes "rotation_table n R" "marks_ok n R p" "ETERN_SIZE_supported n"
  shows "fst (forward_check_next_k K n (prepare_map_part R a b) R p) \<or> completions n R (grid p) = {}"
  using fc_scan_sound[OF assms(1) refl assms(2,3), of "[0..<n * n]" K a b 0]
  by (auto simp: forward_check_next_k_def)

text \<open>When an allocation fails the queue holds a prefix of the children an unlimited allocator
  would have queued: no child is altered or reordered.\<close>

lemma search_possiblity_light_out_of_memory:
  assumes "rotation_table n R" "marks_ok n R p"
  shows "\<exists>m. fst (snd (search_possiblity_light_impl n (prepare_map_part R a b) R (init_id_parts n) room prune p))
     = take m (fst (snd (search_possiblity_light_impl n (prepare_map_part R a b) R (init_id_parts n) (\<lambda>_. True) prune p)))"
proof (cases "light_choose_cell n (prepare_map_part R a b) R p prune")
  case None
  then show ?thesis by (simp add: light_queue_none)
next
  case (Some ch)
  obtain x y ss where "ch = ((x, y), ss)" by (metis prod.exhaust)
  note q = light_queue(1)[OF assms(1) refl assms(2) Some[unfolded this]]
  let ?live = "filter (\<lambda>q. \<not> child_dead n (prepare_map_part R a b) R p x y (if prune then Some ss else None) q)
     (candidates n (prepare_map_part R a b) R p (cell_pos n x y))"
  obtain m where "upto_room room 0 ?live = take m ?live" using upto_room_prefix by blast
  then show ?thesis unfolding q by (intro exI[of _ m]) (simp only: upto_room_all take_map)
qed

end
