(* ===== verification/Engine_State.thy ===== *)
theory Engine_State
  imports Expansion
begin

text \<open>
  The caches of the backtracking engine (\<open>etii_search.c\<close>): the key of every cell, the
  frontier (which cells are empty, which are constrained, how much), the candidate mask
  of every cell and the 64-bit mirror of the used pieces. The engine updates them at each
  placement and removal. The lemmas show that after any such step they are what the
  initialisation routines would compute from the board, which is what the
  \<open>DEBUG_CHECK_POSSIBILITY\<close> block of the engine tests at run time.
\<close>

section \<open>Neighbours\<close>

text \<open>The four neighbours of a cell that exist, in the order top, right, bottom, left.\<close>

definition bt_neighbours :: "nat \<Rightarrow> nat \<Rightarrow> nat \<Rightarrow> (nat \<times> nat) list" where
  "bt_neighbours n cx cy =
     (if cy > 0 then [(cx, cy - 1)] else []) @ (if cx < n - 1 then [(cx + 1, cy)] else [])
     @ (if cy < n - 1 then [(cx, cy + 1)] else []) @ (if cx > 0 then [(cx - 1, cy)] else [])"

abbreviation neighbour_cells :: "nat \<Rightarrow> nat \<Rightarrow> nat list" where
  "neighbour_cells n c \<equiv> map (\<lambda>(x, y). cell_pos n x y) (bt_neighbours n (c div n) (c mod n))"

lemma set_bt_neighbours:
  assumes "x < n" "y < n"
  shows "(x', y') \<in> set (bt_neighbours n x y) \<longleftrightarrow> x' < n \<and> y' < n
     \<and> (x' = x \<and> (y' + 1 = y \<or> y' = y + 1) \<or> y' = y \<and> (x' + 1 = x \<or> x' = x + 1))"
  using assms by (auto simp: bt_neighbours_def)

lemma bt_neighbours_sym:
  assumes "x < n" "y < n" "x' < n" "y' < n"
  shows "(x', y') \<in> set (bt_neighbours n x y) \<longleftrightarrow> (x, y) \<in> set (bt_neighbours n x' y')"
  using assms by (auto simp: set_bt_neighbours)

lemma distinct_bt_neighbours: "distinct (bt_neighbours n x y)"
  by (auto simp: bt_neighbours_def)

lemma neighbour_cells_set:
  assumes "x < n" "y < n" "x' < n" "y' < n"
  shows "cell_pos n x' y' \<in> set (neighbour_cells n (cell_pos n x y)) \<longleftrightarrow> (x', y') \<in> set (bt_neighbours n x y)"
  using assms by (fastforce simp: cell_pos_inject set_bt_neighbours)

lemma neighbour_cells_less: "c < n * n \<Longrightarrow> d \<in> set (neighbour_cells n c) \<Longrightarrow> d < n * n"
  using cell_less_divmod[of c n] by (auto simp: set_bt_neighbours cell_pos_less)

lemma neighbour_cells_sym:
  assumes "c < n * n" "d < n * n"
  shows "d \<in> set (neighbour_cells n c) \<longleftrightarrow> c \<in> set (neighbour_cells n d)"
  using neighbour_cells_set[of "c div n" n "c mod n" "d div n" "d mod n"]
    neighbour_cells_set[of "d div n" n "d mod n" "c div n" "c mod n"]
    bt_neighbours_sym[of "c div n" n "c mod n" "d div n" "d mod n"]
    cell_less_divmod[OF assms(1)] cell_less_divmod[OF assms(2)] by simp

lemma distinct_neighbour_cells: "c < n * n \<Longrightarrow> distinct (neighbour_cells n c)"
  using cell_less_divmod[of c n] distinct_bt_neighbours[of n "c div n" "c mod n"]
  by (auto simp: distinct_map inj_on_def set_bt_neighbours cell_pos_inject)

lemma not_own_neighbour: "c < n * n \<Longrightarrow> c \<notin> set (neighbour_cells n c)"
  using cell_less_divmod[of c n] by (auto simp: set_bt_neighbours dest: arg_cong[where f = "\<lambda>d. d div n"] arg_cong[where f = "\<lambda>d. d mod n"])

section \<open>Key cache\<close>

definition bt_init_constraints :: "nat \<Rightarrow> part list \<Rightarrow> int \<Rightarrow> possibility_packet \<Rightarrow> key_part list" where
  "bt_init_constraints n R all_face board =
     map (\<lambda>c. what_search_in_grid_to_key n R board (c div n) (c mod n) all_face) [0..<n * n]"

definition edit_at :: "bool \<Rightarrow> nat \<Rightarrow> ('a \<Rightarrow> 'a) \<Rightarrow> 'a list \<Rightarrow> 'a list" where
  "edit_at b pos f xs = (if b then xs[pos := f (xs ! pos)] else xs)"

definition bt_propagate_place :: "nat \<Rightarrow> nat \<Rightarrow> nat \<Rightarrow> part \<Rightarrow> key_part list \<Rightarrow> key_part list" where
  "bt_propagate_place n cx cy p constraints =
     (let ks1 = edit_at (cy > 0) (cell_pos n cx (cy - 1)) (\<lambda>k. k\<lparr>k3 := p_top p\<rparr>) constraints;
          ks2 = edit_at (cx < n - 1) (cell_pos n (cx + 1) cy) (\<lambda>k. k\<lparr>k4 := p_right p\<rparr>) ks1;
          ks3 = edit_at (cy < n - 1) (cell_pos n cx (cy + 1)) (\<lambda>k. k\<lparr>k1 := p_bottom p\<rparr>) ks2
      in edit_at (cx > 0) (cell_pos n (cx - 1) cy) (\<lambda>k. k\<lparr>k2 := p_left p\<rparr>) ks3)"

definition bt_propagate_undo :: "nat \<Rightarrow> nat \<Rightarrow> nat \<Rightarrow> int \<Rightarrow> key_part list \<Rightarrow> key_part list" where
  "bt_propagate_undo n cx cy all_face constraints =
     (let ks1 = edit_at (cy > 0) (cell_pos n cx (cy - 1)) (\<lambda>k. k\<lparr>k3 := all_face\<rparr>) constraints;
          ks2 = edit_at (cx < n - 1) (cell_pos n (cx + 1) cy) (\<lambda>k. k\<lparr>k4 := all_face\<rparr>) ks1;
          ks3 = edit_at (cy < n - 1) (cell_pos n cx (cy + 1)) (\<lambda>k. k\<lparr>k1 := all_face\<rparr>) ks2
      in edit_at (cx > 0) (cell_pos n (cx - 1) cy) (\<lambda>k. k\<lparr>k2 := all_face\<rparr>) ks3)"

lemma length_edit_at [simp]: "length (edit_at b pos f xs) = length xs"
  by (simp add: edit_at_def)

lemma edit_at_nth: "d < length xs \<Longrightarrow> edit_at b pos f xs ! d = (if b \<and> d = pos then f (xs ! d) else xs ! d)"
  by (auto simp: edit_at_def)

text \<open>Reading a field that an edit does not write, and one that it overwrites.\<close>

lemma edit_other: "(\<And>k. sel (f k) = sel k) \<Longrightarrow> d < length xs \<Longrightarrow> sel (edit_at b pos f xs ! d) = sel (xs ! d)"
  by (simp add: edit_at_nth)

lemma edit_field: "(\<And>k. sel (f k) = w) \<Longrightarrow> d < length xs \<Longrightarrow>
    sel (edit_at b pos f xs ! d) = (if b \<and> d = pos then w else sel (xs ! d))"
  by (simp add: edit_at_nth)

lemma edit_keys:
  assumes "d < length ks"
    and r: "r = edit_at b4 p4 (\<lambda>k. k\<lparr>k2 := w4\<rparr>) (edit_at b3 p3 (\<lambda>k. k\<lparr>k1 := w3\<rparr>)
            (edit_at b2 p2 (\<lambda>k. k\<lparr>k4 := w2\<rparr>) (edit_at b1 p1 (\<lambda>k. k\<lparr>k3 := w1\<rparr>) ks))) ! d"
  shows "k1 r = (if b3 \<and> d = p3 then w3 else k1 (ks ! d))" "k2 r = (if b4 \<and> d = p4 then w4 else k2 (ks ! d))"
     "k3 r = (if b1 \<and> d = p1 then w1 else k3 (ks ! d))" "k4 r = (if b2 \<and> d = p2 then w2 else k4 (ks ! d))"
  unfolding r using assms(1) by (simp_all add: edit_other[where sel = k1] edit_other[where sel = k2] edit_other[where sel = k3]
     edit_other[where sel = k4] edit_field[where sel = k1] edit_field[where sel = k2] edit_field[where sel = k3] edit_field[where sel = k4])

lemma grid_at_update:
 assumes c: "cx < n" "cy < n" and len: "length (grid p) = n * n"
    and q: "grid q = (grid p)[cell_pos n cx cy := v]" and that: "x' < n" "y' < n"
 shows "grid_at n q x' y' = (if x' = cx \<and> y' = cy then v else grid_at n p x' y')" 
    using cell_pos_less[OF c] cell_pos_inject[OF c(2) that(2), of cx x'] len unfolding grid_at_def q by (auto simp: nth_list_update)

lemma init_constraints_nth:
  "c < n * n \<Longrightarrow> bt_init_constraints n R af p ! c = what_search_in_grid_to_key n R p (c div n) (c mod n) af"
  by (simp add: bt_init_constraints_def)

lemma length_init_constraints [simp]: "length (bt_init_constraints n R af p) = n * n"
  by (simp add: bt_init_constraints_def)

text \<open>One lemma for both updates: \<open>w\<close> is the value a side of the changed cell shows.\<close>

lemma propagate_key:
  assumes c: "cx < n" "cy < n" and len: "length (grid p) = n * n"
    and q: "grid q = (grid p)[cell_pos n cx cy := v]"
    and w: "\<And>opp. side opp = (if v < 0 then af else opp (R ! nat v))"
  shows "bt_init_constraints n R af q =
     (let ks1 = edit_at (cy > 0) (cell_pos n cx (cy - 1)) (\<lambda>k. k\<lparr>k3 := side p_top\<rparr>) (bt_init_constraints n R af p);
          ks2 = edit_at (cx < n - 1) (cell_pos n (cx + 1) cy) (\<lambda>k. k\<lparr>k4 := side p_right\<rparr>) ks1;
          ks3 = edit_at (cy < n - 1) (cell_pos n cx (cy + 1)) (\<lambda>k. k\<lparr>k1 := side p_bottom\<rparr>) ks2
      in edit_at (cx > 0) (cell_pos n (cx - 1) cy) (\<lambda>k. k\<lparr>k2 := side p_left\<rparr>) ks3)"
    (is "?l = ?r")
proof (rule nth_equalityI)
  fix d assume "d < length ?l"
  then have d: "d < n * n" by simp
  define x y where "x = d div n" and "y = d mod n"
  have xy: "x < n" "y < n" "d = cell_pos n x y" using cell_less_divmod[OF d] by (auto simp: x_def y_def)
  note g = grid_at_update[OF c len q]
  have dl: "d < length (bt_init_constraints n R af p)" using d by simp
  have pos: "cy < n - 1 \<and> d = cell_pos n cx (cy + 1) \<longleftrightarrow> cy < n - 1 \<and> x = cx \<and> y = cy + 1"
    "cx > 0 \<and> d = cell_pos n (cx - 1) cy \<longleftrightarrow> cx > 0 \<and> x = cx - 1 \<and> y = cy"
    "cy > 0 \<and> d = cell_pos n cx (cy - 1) \<longleftrightarrow> cy > 0 \<and> x = cx \<and> y = cy - 1"
    "cx < n - 1 \<and> d = cell_pos n (cx + 1) cy \<longleftrightarrow> cx < n - 1 \<and> x = cx + 1 \<and> y = cy"
    using c xy(1,2) unfolding xy(3) by (auto simp: cell_pos_inject)
  have f: "k1 (?r ! d) = (if cy < n - 1 \<and> x = cx \<and> y = cy + 1 then side p_bottom else k1 (bt_init_constraints n R af p ! d))"
    "k2 (?r ! d) = (if cx > 0 \<and> x = cx - 1 \<and> y = cy then side p_left else k2 (bt_init_constraints n R af p ! d))"
    "k3 (?r ! d) = (if cy > 0 \<and> x = cx \<and> y = cy - 1 then side p_top else k3 (bt_init_constraints n R af p ! d))"
    "k4 (?r ! d) = (if cx < n - 1 \<and> x = cx + 1 \<and> y = cy then side p_right else k4 (bt_init_constraints n R af p ! d))"
    unfolding Let_def edit_keys[OF dl refl] pos by (rule refl)+
  have key: "bt_init_constraints n R af r ! d = what_search_in_grid_to_key n R r x y af" for r
    using d by (simp add: init_constraints_nth x_def y_def)
  show "?l ! d = ?r ! d"
  proof (rule key_part.equality)
    show "k1 (?l ! d) = k1 (?r ! d)" unfolding f key
      using xy c g[of x "y - 1"] w[of p_bottom] by (auto simp: what_search_in_grid_to_key_def)
    show "k2 (?l ! d) = k2 (?r ! d)" unfolding f key
      using xy c g[of "x + 1" y] w[of p_left] by (auto simp: what_search_in_grid_to_key_def)
    show "k3 (?l ! d) = k3 (?r ! d)" unfolding f key
      using xy c g[of x "y + 1"] w[of p_top] by (auto simp: what_search_in_grid_to_key_def)
    show "k4 (?l ! d) = k4 (?r ! d)" unfolding f key
      using xy c g[of "x - 1" y] w[of p_right] by (auto simp: what_search_in_grid_to_key_def)
  qed simp
qed (simp add: Let_def)

lemma propagate_place_sync:
  assumes "cx < n" "cy < n" "length (grid p) = n * n" "0 \<le> v"
    and "grid q = (grid p)[cell_pos n cx cy := v]" "R ! nat v = r"
  shows "bt_propagate_place n cx cy r (bt_init_constraints n R af p) = bt_init_constraints n R af q"
  using propagate_key[OF assms(1-3,5), of "\<lambda>opp. opp r" af R] assms(4,6) by (simp add: bt_propagate_place_def)

lemma propagate_undo_sync:
  assumes "cx < n" "cy < n" "length (grid p) = n * n" and "grid q = (grid p)[cell_pos n cx cy := -2]"
  shows "bt_propagate_undo n cx cy af (bt_init_constraints n R af p) = bt_init_constraints n R af q"
  using propagate_key[OF assms, of "\<lambda>opp. af" af R] by (simp add: bt_propagate_undo_def)

section \<open>Frontier\<close>

definition MRV_KEY_NC_BITS :: nat where "MRV_KEY_NC_BITS = 3"
definition MRV_KEY_NC_MAX :: nat where "MRV_KEY_NC_MAX = 2 ^ MRV_KEY_NC_BITS - 1"
definition MRV_WEIGHT_MAX :: nat where "MRV_WEIGHT_MAX = 255"
definition MRV_WDEG_SHIFT :: nat where "MRV_WDEG_SHIFT = 4"
definition MRV_KEY_COUNT_SHIFT :: nat where "MRV_KEY_COUNT_SHIFT = MRV_KEY_NC_BITS"
definition MRV_POS_BITS :: nat where "MRV_POS_BITS = 8"
definition MRV_KEY_LOW_BITS :: nat where "MRV_KEY_LOW_BITS = MRV_KEY_COUNT_SHIFT + MRV_POS_BITS"
definition BT_FRONTIER_WORDS :: "nat \<Rightarrow> nat" where "BT_FRONTIER_WORDS n = (n * n + 63) div 64"

record bt_frontier =
  f_empty :: "u64 list"
  f_constrained :: "u64 list"
  nconstr :: "u8 list"
  weight :: "u8 list"
  wshl :: "nat list"
  nc_key :: "u16 list"

definition bt_nc_key :: "nat \<Rightarrow> nat \<Rightarrow> u16" where
  "bt_nc_key pos nc =
     push_bit MRV_POS_BITS (of_int (int MRV_KEY_NC_MAX - int nc)) OR of_nat pos"

text \<open>The builtin \<open>__builtin_clz\<close> on a 32-bit value: its leading zero bits.\<close>

definition clz32 :: "u32 \<Rightarrow> nat" where
  "clz32 v = length (takeWhile (\<lambda>i. \<not> bit v (31 - i)) [0..<32])"

definition mrv_wdeg_shl :: "nat \<Rightarrow> nat" where
  "mrv_wdeg_shl w =
     (let lg = 31 - clz32 (of_nat w + 1) in if lg \<ge> MRV_WDEG_SHIFT then 0 else MRV_WDEG_SHIFT - lg)"

text \<open>The number of constrained sides of a cell: sides on the frame and filled neighbours.\<close>

definition constrained_sides :: "nat \<Rightarrow> possibility_packet \<Rightarrow> nat \<Rightarrow> nat \<Rightarrow> nat" where
  "constrained_sides n board x y =
     (let k0 = 0;
          k1 = (if y = 0 then k0 + 1 else k0);
          k2 = (if x = n - 1 then k1 + 1 else k1);
          k3 = (if y = n - 1 then k2 + 1 else k2);
          k4 = (if x = 0 then k3 + 1 else k3);
          k5 = (if y > 0 \<and> grid_at n board x (y - 1) \<ge> 0 then k4 + 1 else k4);
          k6 = (if x < n - 1 \<and> grid_at n board (x + 1) y \<ge> 0 then k5 + 1 else k5);
          k7 = (if y < n - 1 \<and> grid_at n board x (y + 1) \<ge> 0 then k6 + 1 else k6)
      in if x > 0 \<and> grid_at n board (x - 1) y \<ge> 0 then k7 + 1 else k7)"

definition frontier_init_cell :: "nat \<Rightarrow> possibility_packet \<Rightarrow> nat \<Rightarrow> bt_frontier \<Rightarrow> bt_frontier" where
  "frontier_init_cell n board pos f =
     (let f1 = (if grid board ! pos = -2 then f\<lparr>f_empty := mrv_used_set (f_empty f) pos\<rparr> else f);
          k = constrained_sides n board (pos div n) (pos mod n);
          f2 = f1\<lparr>nconstr := (nconstr f1)[pos := of_nat k], nc_key := (nc_key f1)[pos := bt_nc_key pos k],
                 wshl := (wshl f1)[pos := mrv_wdeg_shl 0]\<rparr>
      in if k > 0 then f2\<lparr>f_constrained := mrv_used_set (f_constrained f2) pos\<rparr> else f2)"

definition bt_frontier_init :: "nat \<Rightarrow> possibility_packet \<Rightarrow> bt_frontier" where
  "bt_frontier_init n board =
     fold (\<lambda>x. fold (\<lambda>y. frontier_init_cell n board (cell_pos n x y)) [0..<n]) [0..<n]
       \<lparr>f_empty = replicate (BT_FRONTIER_WORDS n) 0, f_constrained = replicate (BT_FRONTIER_WORDS n) 0,
        nconstr = replicate (n * n) 0, weight = replicate (n * n) 0, wshl = replicate (n * n) 0,
        nc_key = replicate (n * n) 0\<rparr>"

definition bt_frontier_constrain :: "nat \<Rightarrow> nat \<Rightarrow> nat \<Rightarrow> bt_frontier \<Rightarrow> bt_frontier" where
  "bt_frontier_constrain n x y f =
     (let pos = cell_pos n x y;
          old = nconstr f ! pos;
          f1 = f\<lparr>nconstr := (nconstr f)[pos := old + 1]\<rparr>;
          f2 = (if old = 0 then f1\<lparr>f_constrained := mrv_used_set (f_constrained f1) pos\<rparr> else f1)
      in f2\<lparr>nc_key := (nc_key f2)[pos := bt_nc_key pos (unat (nconstr f2 ! pos))]\<rparr>)"

definition bt_frontier_release :: "nat \<Rightarrow> nat \<Rightarrow> nat \<Rightarrow> bt_frontier \<Rightarrow> bt_frontier" where
  "bt_frontier_release n x y f =
     (let pos = cell_pos n x y;
          f1 = f\<lparr>nconstr := (nconstr f)[pos := nconstr f ! pos - 1]\<rparr>;
          f2 = (if nconstr f1 ! pos = 0 then f1\<lparr>f_constrained := mrv_used_clear (f_constrained f1) pos\<rparr> else f1)
      in f2\<lparr>nc_key := (nc_key f2)[pos := bt_nc_key pos (unat (nconstr f2 ! pos))]\<rparr>)"

definition bt_frontier_fail :: "nat \<Rightarrow> nat \<Rightarrow> bt_frontier \<Rightarrow> bt_frontier" where
  "bt_frontier_fail n pos f =
     (let f1 = f\<lparr>weight := (weight f)[pos := weight f ! pos + 1]\<rparr> in
      if unat (weight f1 ! pos) < MRV_WEIGHT_MAX
      then f1\<lparr>wshl := (wshl f1)[pos := mrv_wdeg_shl (unat (weight f1 ! pos))]\<rparr>
      else fold (\<lambda>p f. let f' = f\<lparr>weight := (weight f)[p := drop_bit 1 (weight f ! p)]\<rparr>
                      in f'\<lparr>wshl := (wshl f')[p := mrv_wdeg_shl (unat (weight f' ! p))]\<rparr>) [0..<n * n] f1)"

definition bt_frontier_place :: "nat \<Rightarrow> nat \<Rightarrow> nat \<Rightarrow> bt_frontier \<Rightarrow> bt_frontier" where
  "bt_frontier_place n cx cy f =
     (let f0 = f\<lparr>f_empty := mrv_used_clear (f_empty f) (cell_pos n cx cy)\<rparr>;
          f1 = (if cy > 0 then bt_frontier_constrain n cx (cy - 1) f0 else f0);
          f2 = (if cx < n - 1 then bt_frontier_constrain n (cx + 1) cy f1 else f1);
          f3 = (if cy < n - 1 then bt_frontier_constrain n cx (cy + 1) f2 else f2)
      in if cx > 0 then bt_frontier_constrain n (cx - 1) cy f3 else f3)"

definition bt_frontier_undo :: "nat \<Rightarrow> nat \<Rightarrow> nat \<Rightarrow> bt_frontier \<Rightarrow> bt_frontier" where
  "bt_frontier_undo n cx cy f =
     (let f0 = f\<lparr>f_empty := mrv_used_set (f_empty f) (cell_pos n cx cy)\<rparr>;
          f1 = (if cy > 0 then bt_frontier_release n cx (cy - 1) f0 else f0);
          f2 = (if cx < n - 1 then bt_frontier_release n (cx + 1) cy f1 else f1);
          f3 = (if cy < n - 1 then bt_frontier_release n cx (cy + 1) f2 else f2)
      in if cx > 0 then bt_frontier_release n (cx - 1) cy f3 else f3)"

section \<open>The frontier is that of the board\<close>

text \<open>A frontier with the emptiness \<open>e\<close> and the number of constrained sides \<open>k\<close> of each cell.\<close>

definition frontier_is :: "nat \<Rightarrow> (nat \<Rightarrow> bool) \<Rightarrow> (nat \<Rightarrow> nat) \<Rightarrow> bt_frontier \<Rightarrow> bool" where
  "frontier_is n e k f \<longleftrightarrow>
     length (f_empty f) = BT_FRONTIER_WORDS n \<and> length (f_constrained f) = BT_FRONTIER_WORDS n
     \<and> length (nconstr f) = n * n \<and> length (weight f) = n * n \<and> length (wshl f) = n * n \<and> length (nc_key f) = n * n
     \<and> (\<forall>p < 64 * BT_FRONTIER_WORDS n. used_bit (f_empty f) p \<longleftrightarrow> p < n * n \<and> e p)
     \<and> (\<forall>p < 64 * BT_FRONTIER_WORDS n. used_bit (f_constrained f) p \<longleftrightarrow> p < n * n \<and> 0 < k p)
     \<and> (\<forall>p < n * n. nconstr f ! p = of_nat (k p) \<and> nc_key f ! p = bt_nc_key p (k p)
          \<and> wshl f ! p = mrv_wdeg_shl (unat (weight f ! p)) \<and> unat (weight f ! p) < MRV_WEIGHT_MAX)"

definition frontier_sync :: "nat \<Rightarrow> possibility_packet \<Rightarrow> bt_frontier \<Rightarrow> bool" where
  "frontier_sync n board = frontier_is n (\<lambda>p. grid board ! p = -2) (\<lambda>p. constrained_sides n board (p div n) (p mod n))"

lemma frontier_is_cong:
  assumes "\<And>p. p < n * n \<Longrightarrow> e p = e' p" "\<And>p. p < n * n \<Longrightarrow> k p = k' p"
  shows "frontier_is n e k f \<longleftrightarrow> frontier_is n e' k' f"
  using assms unfolding frontier_is_def by (intro conj_cong refl) (auto cong: conj_cong)

lemma u8_zero: "k < 256 \<Longrightarrow> (of_nat k :: u8) = 0 \<longleftrightarrow> k = 0"
  by (simp add: word_of_nat_eq_iff[of k 0, simplified] take_bit_nat_eq_self)

lemma u8_unat: "k < 256 \<Longrightarrow> unat (of_nat k :: u8) = k"
  by (simp add: unat_of_nat take_bit_nat_eq_self)

lemma cell_in_words: "c < n * n \<Longrightarrow> c < 64 * BT_FRONTIER_WORDS n"
  by (simp add: BT_FRONTIER_WORDS_def)

lemma frontier_constrain_is:
  assumes f: "frontier_is n e k f" and xy: "x < n" "y < n" and k: "k (cell_pos n x y) < 255"
  shows "frontier_is n e (k(cell_pos n x y := k (cell_pos n x y) + 1)) (bt_frontier_constrain n x y f)"
proof -
  let ?c = "cell_pos n x y"
  have c: "?c < n * n" using xy by (rule cell_pos_less)
  note w = cell_in_words[OF c]
  have nc: "nconstr f ! ?c = of_nat (k ?c)" using f c by (simp add: frontier_is_def)
  have u: "unat (of_nat (Suc (k ?c)) :: u8) = Suc (k ?c)" and z: "(of_nat (k ?c) :: u8) = 0 \<longleftrightarrow> k ?c = 0"
    using k by (simp_all only: u8_unat u8_zero)
  then have u': "unat (of_nat (k ?c) + 1 :: u8) = Suc (k ?c)" by (simp add: add.commute)
  show ?thesis
    using f c w nc z u u'
    by (auto simp: frontier_is_def bt_frontier_constrain_def Let_def face_simps nth_list_update)
qed

lemma frontier_release_is:
  assumes f: "frontier_is n e k f" and xy: "x < n" "y < n" and k: "0 < k (cell_pos n x y)" "k (cell_pos n x y) < 256"
  shows "frontier_is n e (k(cell_pos n x y := k (cell_pos n x y) - 1)) (bt_frontier_release n x y f)"
proof -
  let ?c = "cell_pos n x y"
  have c: "?c < n * n" using xy by (rule cell_pos_less)
  note w = cell_in_words[OF c]
  obtain j where j: "k ?c = Suc j" using k(1) by (cases "k ?c") auto
  have nc: "nconstr f ! ?c - 1 = of_nat j" using f c by (simp add: frontier_is_def j)
  have u: "unat (of_nat j :: u8) = j" and z: "(of_nat j :: u8) = 0 \<longleftrightarrow> j = 0"
    using k(2) j by (simp_all only: u8_unat u8_zero)
  show ?thesis
    using f c w nc z u
    by (auto simp: frontier_is_def bt_frontier_release_def Let_def face_simps nth_list_update j)
qed

lemma frontier_constrain_all:
  assumes "frontier_is n e k f" "distinct zs" "\<forall>(x, y) \<in> set zs. x < n \<and> y < n \<and> k (cell_pos n x y) < 255"
  shows "frontier_is n e (\<lambda>p. k p + (if (p div n, p mod n) \<in> set zs then 1 else 0))
     (fold (\<lambda>(x, y). bt_frontier_constrain n x y) zs f)"
  using assms
proof (induction zs arbitrary: k f)
  case (Cons z zs)
  obtain x y where z: "z = (x, y)" by fastforce
  have xy: "x < n" "y < n" "k (cell_pos n x y) < 255" using Cons.prems(3) z by auto
  let ?k = "k(cell_pos n x y := k (cell_pos n x y) + 1)"
  have other: "cell_pos n x' y' \<noteq> cell_pos n x y" if "(x', y') \<in> set zs" for x' y'
    using that Cons.prems(2,3) z xy by (auto simp: cell_pos_inject)
  have "frontier_is n e (\<lambda>p. ?k p + (if (p div n, p mod n) \<in> set zs then 1 else 0))
     (fold (\<lambda>(x, y). bt_frontier_constrain n x y) zs (bt_frontier_constrain n x y f))"
  proof (rule Cons.IH[OF frontier_constrain_is[where e = e, OF Cons.prems(1) xy]])
    show "distinct zs" using Cons.prems(2) by simp
    show "\<forall>(x', y') \<in> set zs. x' < n \<and> y' < n \<and> ?k (cell_pos n x' y') < 255"
      using Cons.prems(3) other by auto
  qed
  moreover have "?k p + (if (p div n, p mod n) \<in> set zs then 1 else 0)
      = k p + (if (p div n, p mod n) \<in> set (z # zs) then 1 else 0)" if "p < n * n" for p
    using that other[of "p div n" "p mod n"] xy(2) z by auto
  ultimately have "frontier_is n e (\<lambda>p. k p + (if (p div n, p mod n) \<in> set (z # zs) then 1 else 0))
     (fold (\<lambda>(x, y). bt_frontier_constrain n x y) zs (bt_frontier_constrain n x y f))"
    by (subst frontier_is_cong[OF refl sym]) assumption+
  then show ?case by (simp add: z)
qed simp

lemma frontier_release_all:
  assumes "frontier_is n e k f" "distinct zs"
    "\<forall>(x, y) \<in> set zs. x < n \<and> y < n \<and> 0 < k (cell_pos n x y) \<and> k (cell_pos n x y) < 256"
  shows "frontier_is n e (\<lambda>p. k p - (if (p div n, p mod n) \<in> set zs then 1 else 0))
     (fold (\<lambda>(x, y). bt_frontier_release n x y) zs f)"
  using assms
proof (induction zs arbitrary: k f)
  case (Cons z zs)
  obtain x y where z: "z = (x, y)" by fastforce
  have xy: "x < n" "y < n" "0 < k (cell_pos n x y)" "k (cell_pos n x y) < 256" using Cons.prems(3) z by auto
  let ?k = "k(cell_pos n x y := k (cell_pos n x y) - 1)"
  have other: "cell_pos n x' y' \<noteq> cell_pos n x y" if "(x', y') \<in> set zs" for x' y'
    using that Cons.prems(2,3) z xy by (auto simp: cell_pos_inject)
  have "frontier_is n e (\<lambda>p. ?k p - (if (p div n, p mod n) \<in> set zs then 1 else 0))
     (fold (\<lambda>(x, y). bt_frontier_release n x y) zs (bt_frontier_release n x y f))"
  proof (rule Cons.IH[OF frontier_release_is[where e = e, OF Cons.prems(1) xy]])
    show "distinct zs" using Cons.prems(2) by simp
    show "\<forall>(x', y') \<in> set zs. x' < n \<and> y' < n \<and> 0 < ?k (cell_pos n x' y') \<and> ?k (cell_pos n x' y') < 256"
      using Cons.prems(3) other by auto
  qed
  moreover have "?k p - (if (p div n, p mod n) \<in> set zs then 1 else 0)
      = k p - (if (p div n, p mod n) \<in> set (z # zs) then 1 else 0)" if "p < n * n" for p
    using that other[of "p div n" "p mod n"] xy(2) z by auto
  ultimately have "frontier_is n e (\<lambda>p. k p - (if (p div n, p mod n) \<in> set (z # zs) then 1 else 0))
     (fold (\<lambda>(x, y). bt_frontier_release n x y) zs (bt_frontier_release n x y f))"
    by (subst frontier_is_cong[OF refl sym]) assumption+
  then show ?case by (simp add: z)
qed simp

lemma frontier_place_fold:
  "bt_frontier_place n cx cy f = fold (\<lambda>(x, y). bt_frontier_constrain n x y) (bt_neighbours n cx cy)
     (f\<lparr>f_empty := mrv_used_clear (f_empty f) (cell_pos n cx cy)\<rparr>)"
  by (simp add: bt_frontier_place_def bt_neighbours_def Let_def)

lemma frontier_undo_fold:
  "bt_frontier_undo n cx cy f = fold (\<lambda>(x, y). bt_frontier_release n x y) (bt_neighbours n cx cy)
     (f\<lparr>f_empty := mrv_used_set (f_empty f) (cell_pos n cx cy)\<rparr>)"
  by (simp add: bt_frontier_undo_def bt_neighbours_def Let_def)

text \<open>Counting constrained sides.\<close>

lemma count_if: "(if b then a + 1 else a) = a + (if b then 1 else (0::nat))"
  by simp

lemma constrained_sides_filter:
  "constrained_sides n board x y = (if y = 0 then 1 else 0) + (if x = n - 1 then 1 else 0)
     + (if y = n - 1 then 1 else 0) + (if x = 0 then 1 else 0)
     + length (filter (\<lambda>(x', y'). grid_at n board x' y' \<ge> 0) (bt_neighbours n x y))"
proof -
  have one: "length (filter P (if b then [z] else [])) = (if b \<and> P z then 1 else 0)" for P b and z :: "nat \<times> nat"
    by simp
  show ?thesis
    unfolding constrained_sides_def Let_def count_if bt_neighbours_def filter_append length_append one by simp
qed

lemma constrained_sides_le: "x < n \<Longrightarrow> y < n \<Longrightarrow> constrained_sides n board x y \<le> 4"
proof -
  assume "x < n" "y < n"
  have "length (filter (\<lambda>(x', y'). grid_at n board x' y' \<ge> 0) (bt_neighbours n x y)) \<le> length (bt_neighbours n x y)"
    by (rule length_filter_le)
  also have "\<dots> = (if y > 0 then 1 else 0) + (if x < n - 1 then 1 else 0) + (if y < n - 1 then 1 else 0) + (if x > 0 then 1 else 0)"
    by (simp add: bt_neighbours_def)
  moreover have "(if y = 0 then 1 else 0) + (if y > 0 then 1 else (0::nat)) = 1" "(if x = 0 then 1 else 0) + (if x > 0 then 1 else (0::nat)) = 1"
    "(if x = n - 1 then 1 else 0) + (if x < n - 1 then 1 else (0::nat)) = 1" "(if y = n - 1 then 1 else 0) + (if y < n - 1 then 1 else (0::nat)) = 1"
    using \<open>x < n\<close> \<open>y < n\<close> by auto
  ultimately show ?thesis unfolding constrained_sides_filter by linarith
qed

lemma length_filter_change:
  assumes "distinct xs" "\<And>z. z \<in> set xs \<Longrightarrow> z \<noteq> a \<Longrightarrow> P' z = P z" "\<not> P a" "P' a"
  shows "length (filter P' xs) = length (filter P xs) + (if a \<in> set xs then 1 else 0)"
  using assms by (induction xs) auto

lemma constrained_sides_fill:
  assumes "x < n" "y < n" "cx < n" "cy < n" and len: "length (grid p) = n * n"
    and q: "grid q = (grid p)[cell_pos n cx cy := v]" and v: "0 \<le> v" "grid p ! cell_pos n cx cy < 0"
  shows "constrained_sides n q x y = constrained_sides n p x y + (if (x, y) \<in> set (bt_neighbours n cx cy) then 1 else 0)"
proof -
  note g = grid_at_update[OF assms(3,4) len q]
  have "length (filter (\<lambda>(x', y'). grid_at n q x' y' \<ge> 0) (bt_neighbours n x y))
     = length (filter (\<lambda>(x', y'). grid_at n p x' y' \<ge> 0) (bt_neighbours n x y)) + (if (cx, cy) \<in> set (bt_neighbours n x y) then 1 else 0)"
  proof (rule length_filter_change)
    fix z assume "z \<in> set (bt_neighbours n x y)" "z \<noteq> (cx, cy)"
    then show "(case z of (x', y') \<Rightarrow> grid_at n q x' y' \<ge> 0) = (case z of (x', y') \<Rightarrow> grid_at n p x' y' \<ge> 0)"
      using assms(1,2) g by (auto simp: set_bt_neighbours split: prod.splits)
  qed (use assms g v in \<open>auto simp: distinct_bt_neighbours grid_at_def\<close>)
  then show ?thesis
    using bt_neighbours_sym[OF assms(1-4)] unfolding constrained_sides_filter by simp
qed

lemma frontier_empty_edit:
  assumes f: "frontier_is n e k f" and c: "c < n * n"
  shows "frontier_is n (e(c := False)) k (f\<lparr>f_empty := mrv_used_clear (f_empty f) c\<rparr>)"
    and "frontier_is n (e(c := True)) k (f\<lparr>f_empty := mrv_used_set (f_empty f) c\<rparr>)"
  using f c cell_in_words[OF c] by (auto simp: frontier_is_def face_simps)

lemma frontier_place_sync:
  assumes f: "frontier_sync n p f" and c: "cx < n" "cy < n" and len: "length (grid p) = n * n"
    and q: "grid q = (grid p)[cell_pos n cx cy := v]" and v: "0 \<le> v" "grid p ! cell_pos n cx cy = -2"
  shows "frontier_sync n q (bt_frontier_place n cx cy f)"
proof -
  let ?c = "cell_pos n cx cy" and ?k = "\<lambda>d. constrained_sides n p (d div n) (d mod n)"
  have c': "?c < n * n" using c by (rule cell_pos_less)
  have le: "\<forall>(x, y) \<in> set (bt_neighbours n cx cy). x < n \<and> y < n \<and> ?k (cell_pos n x y) < 255"
    using c constrained_sides_le[of _ n _ p] by (fastforce simp: set_bt_neighbours)
  have "frontier_is n ((\<lambda>d. grid p ! d = -2)(?c := False))
      (\<lambda>d. ?k d + (if (d div n, d mod n) \<in> set (bt_neighbours n cx cy) then 1 else 0)) (bt_frontier_place n cx cy f)"
    unfolding frontier_place_fold
    by (rule frontier_constrain_all[OF frontier_empty_edit(1) distinct_bt_neighbours le])
      (use f c' in \<open>simp_all add: frontier_sync_def\<close>)
  moreover have "((\<lambda>d. grid p ! d = -2)(?c := False)) d = (grid q ! d = -2)" if "d < n * n" for d
    using that c' len v(1) by (simp add: q nth_list_update)
  moreover have "?k d + (if (d div n, d mod n) \<in> set (bt_neighbours n cx cy) then 1 else 0)
      = constrained_sides n q (d div n) (d mod n)" if "d < n * n" for d
    using cell_less_divmod[OF that] constrained_sides_fill[OF _ _ c len q v(1)] v(2) by simp
  ultimately show ?thesis
    unfolding frontier_sync_def by (subst frontier_is_cong[OF sym sym]) assumption+
qed

lemma frontier_undo_sync:
  assumes f: "frontier_sync n q f" and c: "cx < n" "cy < n" and len: "length (grid p) = n * n"
    and p: "grid p = (grid q)[cell_pos n cx cy := -2]" and v: "0 \<le> grid q ! cell_pos n cx cy"
  shows "frontier_sync n p (bt_frontier_undo n cx cy f)"
proof -
  let ?c = "cell_pos n cx cy" and ?k = "\<lambda>d. constrained_sides n q (d div n) (d mod n)"
  have c': "?c < n * n" using c by (rule cell_pos_less)
  have lq: "length (grid q) = n * n" using len p by simp
  have q: "grid q = (grid p)[?c := grid q ! ?c]" and m: "grid p ! ?c < 0" using p lq c' by simp_all
  have k: "constrained_sides n q x y = constrained_sides n p x y + (if (x, y) \<in> set (bt_neighbours n cx cy) then 1 else 0)"
    if "x < n" "y < n" for x y using constrained_sides_fill[OF that c len q v m] .
  have le: "\<forall>(x, y) \<in> set (bt_neighbours n cx cy). x < n \<and> y < n \<and> 0 < ?k (cell_pos n x y) \<and> ?k (cell_pos n x y) < 256"
  proof clarify
    fix x y assume xy: "(x, y) \<in> set (bt_neighbours n cx cy)"
    then have lt: "x < n" "y < n" using c by (simp_all add: set_bt_neighbours)
    then show "x < n \<and> y < n \<and> 0 < ?k (cell_pos n x y) \<and> ?k (cell_pos n x y) < 256"
      using k[OF lt] xy constrained_sides_le[OF lt, of q] by simp
  qed
  have "frontier_is n ((\<lambda>d. grid q ! d = -2)(?c := True))
      (\<lambda>d. ?k d - (if (d div n, d mod n) \<in> set (bt_neighbours n cx cy) then 1 else 0)) (bt_frontier_undo n cx cy f)"
    unfolding frontier_undo_fold
    by (rule frontier_release_all[OF frontier_empty_edit(2) distinct_bt_neighbours le])
      (use f c' in \<open>simp_all add: frontier_sync_def\<close>)
  moreover have "((\<lambda>d. grid q ! d = -2)(?c := True)) d = (grid p ! d = -2)" if "d < n * n" for d
    using that c' lq by (simp add: p nth_list_update)
  moreover have "?k d - (if (d div n, d mod n) \<in> set (bt_neighbours n cx cy) then 1 else 0)
      = constrained_sides n p (d div n) (d mod n)" if "d < n * n" for d
    using cell_less_divmod[OF that] k by simp
  ultimately show ?thesis
    unfolding frontier_sync_def by (subst frontier_is_cong[OF sym sym]) assumption+
qed

lemma frontier_init_cell_fields:
  "f_empty (frontier_init_cell n board pos f) = (if grid board ! pos = -2 then mrv_used_set (f_empty f) pos else f_empty f)"
  "f_constrained (frontier_init_cell n board pos f)
     = (if constrained_sides n board (pos div n) (pos mod n) > 0 then mrv_used_set (f_constrained f) pos else f_constrained f)"
  "nconstr (frontier_init_cell n board pos f) = (nconstr f)[pos := of_nat (constrained_sides n board (pos div n) (pos mod n))]"
  "nc_key (frontier_init_cell n board pos f) = (nc_key f)[pos := bt_nc_key pos (constrained_sides n board (pos div n) (pos mod n))]"
  "wshl (frontier_init_cell n board pos f) = (wshl f)[pos := mrv_wdeg_shl 0]"
  "weight (frontier_init_cell n board pos f) = weight f"
  by (simp_all add: frontier_init_cell_def Let_def)

text \<open>The initialisation loop, after \<open>m\<close> cells.\<close>

lemma frontier_init_upto:
  assumes "m \<le> n * n"
  shows "let f = fold (frontier_init_cell n board) [0..<m]
       \<lparr>f_empty = replicate (BT_FRONTIER_WORDS n) 0, f_constrained = replicate (BT_FRONTIER_WORDS n) 0,
        nconstr = replicate (n * n) 0, weight = replicate (n * n) 0, wshl = replicate (n * n) 0,
        nc_key = replicate (n * n) 0\<rparr>
     in length (f_empty f) = BT_FRONTIER_WORDS n \<and> length (f_constrained f) = BT_FRONTIER_WORDS n
     \<and> length (nconstr f) = n * n \<and> weight f = replicate (n * n) 0 \<and> length (wshl f) = n * n \<and> length (nc_key f) = n * n
     \<and> (\<forall>p < 64 * BT_FRONTIER_WORDS n. used_bit (f_empty f) p \<longleftrightarrow> p < m \<and> grid board ! p = -2)
     \<and> (\<forall>p < 64 * BT_FRONTIER_WORDS n. used_bit (f_constrained f) p \<longleftrightarrow> p < m \<and> 0 < constrained_sides n board (p div n) (p mod n))
     \<and> (\<forall>p < m. nconstr f ! p = of_nat (constrained_sides n board (p div n) (p mod n))
          \<and> nc_key f ! p = bt_nc_key p (constrained_sides n board (p div n) (p mod n)) \<and> wshl f ! p = mrv_wdeg_shl 0)"
  using assms
proof (induction m)
  case 0
  then show ?case by (simp add: used_bit_def group64_less Let_def)
next
  case (Suc m)
  then have m: "m < n * n" by simp
  note w = cell_in_words[OF m]
  let ?f = "fold (frontier_init_cell n board) [0..<m]
       \<lparr>f_empty = replicate (BT_FRONTIER_WORDS n) 0, f_constrained = replicate (BT_FRONTIER_WORDS n) 0,
        nconstr = replicate (n * n) 0, weight = replicate (n * n) 0, wshl = replicate (n * n) 0,
        nc_key = replicate (n * n) 0\<rparr>"
  obtain f where f: "f = ?f" by blast
  have IH: "length (f_empty f) = BT_FRONTIER_WORDS n" "length (f_constrained f) = BT_FRONTIER_WORDS n"
     "length (nconstr f) = n * n" "weight f = replicate (n * n) 0" "length (wshl f) = n * n" "length (nc_key f) = n * n"
     "\<forall>p < 64 * BT_FRONTIER_WORDS n. used_bit (f_empty f) p \<longleftrightarrow> p < m \<and> grid board ! p = -2"
     "\<forall>p < 64 * BT_FRONTIER_WORDS n. used_bit (f_constrained f) p \<longleftrightarrow> p < m \<and> 0 < constrained_sides n board (p div n) (p mod n)"
     "\<forall>p < m. nconstr f ! p = of_nat (constrained_sides n board (p div n) (p mod n))
          \<and> nc_key f ! p = bt_nc_key p (constrained_sides n board (p div n) (p mod n)) \<and> wshl f ! p = mrv_wdeg_shl 0"
    using Suc m unfolding f Let_def by simp_all
  have step: "fold (frontier_init_cell n board) [0..<Suc m]
       \<lparr>f_empty = replicate (BT_FRONTIER_WORDS n) 0, f_constrained = replicate (BT_FRONTIER_WORDS n) 0,
        nconstr = replicate (n * n) 0, weight = replicate (n * n) 0, wshl = replicate (n * n) 0,
        nc_key = replicate (n * n) 0\<rparr> = frontier_init_cell n board m f" using f by simp
  show ?case unfolding step Let_def frontier_init_cell_fields
  proof (intro conjI)
    show "\<forall>p < 64 * BT_FRONTIER_WORDS n. used_bit (if grid board ! m = -2 then mrv_used_set (f_empty f) m else f_empty f) p
        \<longleftrightarrow> p < Suc m \<and> grid board ! p = -2"
      using IH(1,7) w by (auto simp: face_simps less_Suc_eq)
    show "\<forall>p < 64 * BT_FRONTIER_WORDS n. used_bit (if 0 < constrained_sides n board (m div n) (m mod n)
          then mrv_used_set (f_constrained f) m else f_constrained f) p
        \<longleftrightarrow> p < Suc m \<and> 0 < constrained_sides n board (p div n) (p mod n)"
      using IH(2,8) w by (auto simp: face_simps less_Suc_eq)
  qed (use IH(1-6,9) m in \<open>simp_all add: nth_list_update less_Suc_eq\<close>)
qed

lemma frontier_init_sync: "frontier_sync n board (bt_frontier_init n board)"
  using frontier_init_upto[of "n * n" n board]
  unfolding frontier_sync_def frontier_is_def bt_frontier_init_def fold_cells Let_def
  by (simp add: MRV_WEIGHT_MAX_def)

text \<open>The weights only steer the choice of the next cell; a failure keeps everything else.\<close>

lemma frontier_fail_is:
  assumes f: "frontier_is n e k f" and c: "pos < n * n"
  shows "frontier_is n e k (bt_frontier_fail n pos f)"
proof -
  define f1 where "f1 = f\<lparr>weight := (weight f)[pos := weight f ! pos + 1]\<rparr>"
  define half where "half = (\<lambda>p g. let f' = g\<lparr>weight := (weight g)[p := drop_bit 1 (weight g ! p)]\<rparr>
       in f'\<lparr>wshl := (wshl f')[p := mrv_wdeg_shl (unat (weight f' ! p))]\<rparr> :: bt_frontier)"
  have keep: "f_empty (half p g) = f_empty g" "f_constrained (half p g) = f_constrained g" "nconstr (half p g) = nconstr g"
    "nc_key (half p g) = nc_key g" "length (weight (half p g)) = length (weight g)" "length (wshl (half p g)) = length (wshl g)" for p g
    by (simp_all add: half_def Let_def)
  have "m \<le> n * n \<Longrightarrow> (let g = fold half [0..<m] f1 in f_empty g = f_empty f1 \<and> f_constrained g = f_constrained f1
       \<and> nconstr g = nconstr f1 \<and> nc_key g = nc_key f1 \<and> length (weight g) = n * n \<and> length (wshl g) = n * n
       \<and> (\<forall>p < m. wshl g ! p = mrv_wdeg_shl (unat (weight g ! p)) \<and> unat (weight g ! p) < MRV_WEIGHT_MAX))" for m
  proof (induction m)
    case 0
    then show ?case using f by (simp add: Let_def f1_def frontier_is_def)
  next
    case (Suc m)
    have "unat (drop_bit 1 w) < MRV_WEIGHT_MAX" for w :: u8
    proof -
      have "unat w < 256" using unsigned_less[of w] by simp
      then show ?thesis by (simp add: MRV_WEIGHT_MAX_def drop_bit_eq_div unat_div)
    qed
    with Suc show ?case by (auto simp: Let_def half_def nth_list_update less_Suc_eq)
  qed
  from this[of "n * n"] show ?thesis
    using f c unfolding frontier_is_def bt_frontier_fail_def Let_def f1_def[symmetric] half_def[symmetric, unfolded Let_def]
    by (auto simp: f1_def nth_list_update)
qed

section \<open>Mask cache\<close>

definition BT_MASK_WORDS :: "nat \<Rightarrow> nat" where
  "BT_MASK_WORDS n = (ETERN_PARTS n + 63) div 64"

definition bt_zero_mask :: "nat \<Rightarrow> u64 list" where
  "bt_zero_mask n = replicate (MRV_USED_WORDS n) 0"

definition bt_masks_complete :: "nat \<Rightarrow> map_big_array \<Rightarrow> bool" where
  "bt_masks_complete n mp \<longleftrightarrow> bucket_id_mask mp \<noteq> None \<and> packed mp \<noteq> None \<and> id_mask_words mp = BT_MASK_WORDS n"

definition bt_mask_resolve :: "nat \<Rightarrow> map_big_array \<Rightarrow> key_part \<Rightarrow> u64 list option" where
  "bt_mask_resolve n mp key =
     (let msk = map_bucket_id_mask mp key in
      if msk = None \<and> bucket_id_mask mp \<noteq> None \<and> packed mp \<noteq> None then Some (bt_zero_mask n) else msk)"

definition bt_mask_init :: "nat \<Rightarrow> map_big_array \<Rightarrow> key_part list \<Rightarrow> u64 list option list" where
  "bt_mask_init n mp constraints = map (\<lambda>c. bt_mask_resolve n mp (constraints ! c)) [0..<n * n]"

definition bt_mask_refresh ::
  "nat \<Rightarrow> map_big_array \<Rightarrow> key_part list \<Rightarrow> nat \<Rightarrow> nat \<Rightarrow> u64 list option list \<Rightarrow> u64 list option list" where
  "bt_mask_refresh n mp constraints cx cy cell_mask =
     (let fresh = (\<lambda>pos _. bt_mask_resolve n mp (constraints ! pos));
          m1 = edit_at (cy > 0) (cell_pos n cx (cy - 1)) (fresh (cell_pos n cx (cy - 1))) cell_mask;
          m2 = edit_at (cx < n - 1) (cell_pos n (cx + 1) cy) (fresh (cell_pos n (cx + 1) cy)) m1;
          m3 = edit_at (cy < n - 1) (cell_pos n cx (cy + 1)) (fresh (cell_pos n cx (cy + 1))) m2
      in edit_at (cx > 0) (cell_pos n (cx - 1) cy) (fresh (cell_pos n (cx - 1) cy)) m3)"

lemma edit_fresh: "d < length xs \<Longrightarrow> edit_at b pos (\<lambda>_. g pos) xs ! d = (if b \<and> d = pos then g d else xs ! d)"
  by (simp add: edit_at_nth)

lemma edits_fresh:
  assumes "d < length xs"
  shows "edit_at b4 p4 (\<lambda>_. g p4) (edit_at b3 p3 (\<lambda>_. g p3) (edit_at b2 p2 (\<lambda>_. g p2) (edit_at b1 p1 (\<lambda>_. g p1) xs))) ! d
     = (if b1 \<and> d = p1 \<or> b2 \<and> d = p2 \<or> b3 \<and> d = p3 \<or> b4 \<and> d = p4 then g d else xs ! d)"
proof -
  have e: "edit_at b p (\<lambda>_. g p) ys ! d = (if b \<and> d = p then g d else ys ! d)" if "d < length ys" for b p ys
    using that by (rule edit_fresh)
  have if4: "(if c4 then a else if c3 then a else if c2 then a else if c1 then a else z)
      = (if c1 \<or> c2 \<or> c3 \<or> c4 then a else z)" for c1 c2 c3 c4 a and z :: 'a by simp
  show ?thesis using assms by (simp only: e length_edit_at if4)
qed

lemma mask_refresh_sync:
  assumes "cx < n" "cy < n" "length ks = n * n"
    and same: "\<And>d. d < n * n \<Longrightarrow> d \<notin> set (neighbour_cells n (cell_pos n cx cy)) \<Longrightarrow> ks' ! d = ks ! d"
  shows "bt_mask_refresh n mp ks' cx cy (bt_mask_init n mp ks) = bt_mask_init n mp ks'" (is "?l = ?r")
proof (rule nth_equalityI)
  show len: "length ?l = length ?r" by (simp add: bt_mask_refresh_def bt_mask_init_def Let_def)
  fix d assume "d < length ?l"
  then have d: "d < n * n" using len by (simp add: bt_mask_init_def)
  have m: "d < length (bt_mask_init n mp ks)" using d by (simp add: bt_mask_init_def)
  have "?l ! d = (if cy > 0 \<and> d = cell_pos n cx (cy - 1) \<or> cx < n - 1 \<and> d = cell_pos n (cx + 1) cy
        \<or> cy < n - 1 \<and> d = cell_pos n cx (cy + 1) \<or> cx > 0 \<and> d = cell_pos n (cx - 1) cy
      then bt_mask_resolve n mp (ks' ! d) else bt_mask_init n mp ks ! d)"
    unfolding bt_mask_refresh_def Let_def by (rule edits_fresh[OF m, where g = "\<lambda>pos. bt_mask_resolve n mp (ks' ! pos)"])
  also have "(cy > 0 \<and> d = cell_pos n cx (cy - 1) \<or> cx < n - 1 \<and> d = cell_pos n (cx + 1) cy
        \<or> cy < n - 1 \<and> d = cell_pos n cx (cy + 1) \<or> cx > 0 \<and> d = cell_pos n (cx - 1) cy)
      \<longleftrightarrow> d \<in> set (neighbour_cells n (cell_pos n cx cy))"
    using assms(2) by (auto simp: bt_neighbours_def)
  finally show "?l ! d = ?r ! d" using same[OF d] d by (simp add: bt_mask_init_def)
qed

text \<open>A cell keeps its key when no neighbour changes.\<close>

lemma constraints_keep:
  assumes "cx < n" "cy < n" "length (grid p) = n * n" "grid q = (grid p)[cell_pos n cx cy := v]"
    and d: "d < n * n" "d \<notin> set (neighbour_cells n (cell_pos n cx cy))"
  shows "bt_init_constraints n R af q ! d = bt_init_constraints n R af p ! d"
proof -
  define x y where "x = d div n" and "y = d mod n"
  have xy: "x < n" "y < n" "d = cell_pos n x y" using cell_less_divmod[OF d(1)] by (auto simp: x_def y_def)
  have nn: "(x, y) \<notin> set (bt_neighbours n cx cy)" using d(2) neighbour_cells_set[OF assms(1,2) xy(1,2)] xy(3) by simp
  note g = grid_at_update[OF assms(1-4)]
  have "what_search_in_grid_to_key n R q x y af = what_search_in_grid_to_key n R p x y af"
  proof (rule key_part.equality)
    show "k1 (what_search_in_grid_to_key n R q x y af) = k1 (what_search_in_grid_to_key n R p x y af)"
      using nn xy g[of x "y - 1"] assms(1,2) by (auto simp: set_bt_neighbours what_search_in_grid_to_key_def)
    show "k2 (what_search_in_grid_to_key n R q x y af) = k2 (what_search_in_grid_to_key n R p x y af)"
      using nn xy g[of "x + 1" y] assms(1,2) by (auto simp: set_bt_neighbours what_search_in_grid_to_key_def)
    show "k3 (what_search_in_grid_to_key n R q x y af) = k3 (what_search_in_grid_to_key n R p x y af)"
      using nn xy g[of x "y + 1"] assms(1,2) by (auto simp: set_bt_neighbours what_search_in_grid_to_key_def)
    show "k4 (what_search_in_grid_to_key n R q x y af) = k4 (what_search_in_grid_to_key n R p x y af)"
      using nn xy g[of "x - 1" y] assms(1,2) by (auto simp: set_bt_neighbours what_search_in_grid_to_key_def)
  qed simp
  then show ?thesis using d(1) by (simp add: init_constraints_nth x_def y_def)
qed

section \<open>The board and its caches\<close>

record bt_engine =
  e_board :: possibility_packet
  e_keys :: "key_part list"
  e_used :: "u64 list"
  e_front :: bt_frontier
  e_masks :: "u64 list option list"
  e_placed :: nat

definition bt_engine_init :: "nat \<Rightarrow> map_big_array \<Rightarrow> part list \<Rightarrow> possibility_packet \<Rightarrow> bt_engine" where
  "bt_engine_init n mp R root =
     (let keys = bt_init_constraints n R (int (sizearrayM mp)) root in
      \<lparr>e_board = root, e_keys = keys, e_used = mrv_used_init n (b_faceused root), e_front = bt_frontier_init n root,
       e_masks = bt_mask_init n mp keys, e_placed = possibility_placed_count n root\<rparr>)"

text \<open>Placing a candidate and removing the piece of a cell: every cache is updated.\<close>

definition bt_put :: "nat \<Rightarrow> map_big_array \<Rightarrow> int list list \<Rightarrow> nat \<Rightarrow> nat \<Rightarrow> part \<Rightarrow> bt_engine \<Rightarrow> bt_engine" where
  "bt_put n mp idParts cx cy q e =
     (let position = nat (p_id q - 1);
          board = (e_board e)\<lparr>grid := (grid (e_board e))[cell_pos n cx cy := idParts ! nat (p_id q) ! nat (p_rotation q)],
                             b_faceused := set_face_used (b_faceused (e_board e)) position 1\<rparr>;
          keys = bt_propagate_place n cx cy q (e_keys e)
      in \<lparr>e_board = board, e_keys = keys, e_used = mrv_used_set (e_used e) position,
          e_front = bt_frontier_place n cx cy (e_front e), e_masks = bt_mask_refresh n mp keys cx cy (e_masks e),
          e_placed = e_placed e + 1\<rparr>)"

definition bt_take :: "nat \<Rightarrow> map_big_array \<Rightarrow> nat \<Rightarrow> nat \<Rightarrow> nat \<Rightarrow> bt_engine \<Rightarrow> bt_engine" where
  "bt_take n mp cx cy position e =
     (let board = (e_board e)\<lparr>grid := (grid (e_board e))[cell_pos n cx cy := -2],
                             b_faceused := set_face_used (b_faceused (e_board e)) position 0\<rparr>;
          keys = bt_propagate_undo n cx cy (int (sizearrayM mp)) (e_keys e)
      in \<lparr>e_board = board, e_keys = keys, e_used = mrv_used_clear (e_used e) position,
          e_front = bt_frontier_undo n cx cy (e_front e), e_masks = bt_mask_refresh n mp keys cx cy (e_masks e),
          e_placed = e_placed e - 1\<rparr>)"

text \<open>The engine stands at the position \<open>p\<close>: it carries its cells and marks, and every cache
  is what the initialisation computes from them.\<close>

definition engine_at :: "nat \<Rightarrow> map_big_array \<Rightarrow> part list \<Rightarrow> possibility_packet \<Rightarrow> bt_engine \<Rightarrow> bool" where
  "engine_at n mp R p e \<longleftrightarrow> grid (e_board e) = grid p \<and> b_faceused (e_board e) = b_faceused p
     \<and> e_keys e = bt_init_constraints n R (int (sizearrayM mp)) p \<and> e_used e = mrv_used_init n (b_faceused p)
     \<and> frontier_sync n p (e_front e) \<and> e_masks e = bt_mask_init n mp (e_keys e)
     \<and> e_placed e = possibility_placed_count n p"

lemma engine_init_at: "engine_at n mp R root (bt_engine_init n mp R root)"
  by (simp add: engine_at_def bt_engine_init_def Let_def frontier_init_sync)

lemma used_init_bit:
  assumes "p < 64 * MRV_USED_WORDS n"
  shows "used_bit (mrv_used_init n fu) p \<longleftrightarrow> p < 16 * FACES_USED_SIZE n \<and> is_face_used fu p"
proof -
  have "FACES_USED_SIZE n \<le> 4 * MRV_USED_WORDS n" by (simp add: MRV_USED_WORDS_def)
  from mrv_used_init_fold[OF this, of fu] assms show ?thesis by (simp add: mrv_used_init_def is_face_used_bit)
qed

lemma length_used_init: "length (mrv_used_init n fu) = MRV_USED_WORDS n"
proof -
  have "FACES_USED_SIZE n \<le> 4 * MRV_USED_WORDS n" by (simp add: MRV_USED_WORDS_def)
  from mrv_used_init_fold[OF this, of fu] show ?thesis by (simp add: mrv_used_init_def)
qed

lemma used_init_set_clear:
  assumes len: "length fu = FACES_USED_SIZE n" and p: "p < 16 * FACES_USED_SIZE n"
  shows "mrv_used_set (mrv_used_init n fu) p = mrv_used_init n (set_face_used fu p 1)"
    and "mrv_used_clear (mrv_used_init n fu) p = mrv_used_init n (set_face_used fu p 0)"
proof -
  have w: "p < 64 * MRV_USED_WORDS n" using p by (simp add: MRV_USED_WORDS_def)
  show "mrv_used_set (mrv_used_init n fu) p = mrv_used_init n (set_face_used fu p 1)"
    by (rule used_ext) (use w p len in \<open>auto simp: length_used_init face_simps used_init_bit\<close>)
  show "mrv_used_clear (mrv_used_init n fu) p = mrv_used_init n (set_face_used fu p 0)"
    by (rule used_ext) (use w p len in \<open>auto simp: length_used_init face_simps used_init_bit\<close>)
qed

lemma place_fields:
  "grid (place n c q p) = (grid p)[c := id_for_rotated_part n (p_id q) (p_rotation q)]"
  "b_faceused (place n c q p) = set_face_used (b_faceused p) (nat (p_id q - 1)) 1"
  by (simp_all add: place_def)

text \<open>The bit of a piece of the table lies in the mask.\<close>

lemma table_piece_bit:
  assumes "rotation_table n R" "q \<in> set R" "p_id q \<noteq> 0" "length fu = FACES_USED_SIZE n"
  shows "nat (p_id q - 1) < 16 * FACES_USED_SIZE n" and "0 < id_for_rotated_part n (p_id q) (p_rotation q)"
proof -
  note t = table_member[OF assms(1-3)]
  note r = piece_range[OF assms(1) t(1), unfolded t(2)]
  show "nat (p_id q - 1) < 16 * FACES_USED_SIZE n" using piece_bit_range(2)[OF assms(1,4) r] assms(4) by simp
  show "0 < id_for_rotated_part n (p_id q) (p_rotation q)" using t(1) by (simp add: valid_value_def)
qed

lemma engine_put_at:
  assumes R: "rotation_table n R" and e: "engine_at n mp R p e" and p: "marks_ok n R p"
    and c: "cx < n" "cy < n" "grid p ! cell_pos n cx cy = -2" and q: "q \<in> set R" "p_id q \<noteq> 0"
  shows "engine_at n mp R (place n (cell_pos n cx cy) q p) (bt_put n mp (init_id_parts n) cx cy q e)"
proof -
  let ?c = "cell_pos n cx cy" and ?q = "place n (cell_pos n cx cy) q p" and ?v = "id_for_rotated_part n (p_id q) (p_rotation q)"
  have len: "length (grid p) = n * n" "length (b_faceused p) = FACES_USED_SIZE n"
    using p by (simp_all add: marks_ok_def grid_ok_def)
  note b = table_piece_bit[OF R q len(2)]
  have keys: "bt_propagate_place n cx cy q (bt_init_constraints n R (int (sizearrayM mp)) p)
      = bt_init_constraints n R (int (sizearrayM mp)) ?q"
    using b(2) table_member(2)[OF R q] by (intro propagate_place_sync[OF c(1,2) len(1)]) (simp_all add: place_fields)
  have masks: "bt_mask_refresh n mp (bt_init_constraints n R (int (sizearrayM mp)) ?q) cx cy
      (bt_mask_init n mp (bt_init_constraints n R (int (sizearrayM mp)) p))
      = bt_mask_init n mp (bt_init_constraints n R (int (sizearrayM mp)) ?q)"
    by (rule mask_refresh_sync[OF c(1,2)]) (simp_all add: constraints_keep[OF c(1,2) len(1) place_fields(1)])
  have "frontier_sync n ?q (bt_frontier_place n cx cy (e_front e))"
    using e b(2) c(3) by (intro frontier_place_sync[OF _ c(1,2) len(1) place_fields(1)]) (simp_all add: engine_at_def)
  moreover have "possibility_placed_count n ?q = possibility_placed_count n p + 1"
    using b(2) by (intro placed_place[OF len(1) cell_pos_less[OF c(1,2)] c(3)]) simp
  ultimately show ?thesis
    using e keys masks used_init_set_clear(1)[OF len(2) b(1)] init_id_parts_nth[OF R q]
    by (simp add: engine_at_def bt_put_def Let_def place_fields)
qed

lemma engine_take_at:
  assumes R: "rotation_table n R" and e: "engine_at n mp R (place n (cell_pos n cx cy) q p) e" and p: "marks_ok n R p"
    and c: "cx < n" "cy < n" "grid p ! cell_pos n cx cy = -2" and q: "q \<in> set R" "p_id q \<noteq> 0"
    and free: "\<not> is_face_used (b_faceused p) (nat (p_id q - 1))"
  shows "engine_at n mp R p (bt_take n mp cx cy (nat (p_id q - 1)) e)"
proof -
  let ?c = "cell_pos n cx cy" and ?q = "place n (cell_pos n cx cy) q p" and ?v = "id_for_rotated_part n (p_id q) (p_rotation q)"
  have len: "length (grid p) = n * n" "length (b_faceused p) = FACES_USED_SIZE n"
    using p by (simp_all add: marks_ok_def grid_ok_def)
  note b = table_piece_bit[OF R q len(2)]
  have lc: "?c < n * n" using c(1,2) by (rule cell_pos_less)
  have undone: "grid p = (grid ?q)[?c := -2]" using list_update_id[of "grid p" ?c] c(3) by (simp add: place_fields)
  have fb: "set_face_used (set_face_used (b_faceused p) (nat (p_id q - 1)) 1) (nat (p_id q - 1)) 0 = b_faceused p"
    using halfword.del_ins_restores[of "nat (p_id q - 1)" "b_faceused p"] b(1) free len(2) by simp
  have lq: "length (grid ?q) = n * n" by (simp add: place_fields len)
  have keys: "bt_propagate_undo n cx cy (int (sizearrayM mp)) (bt_init_constraints n R (int (sizearrayM mp)) ?q)
      = bt_init_constraints n R (int (sizearrayM mp)) p"
    by (rule propagate_undo_sync[OF c(1,2) lq undone])
  have masks: "bt_mask_refresh n mp (bt_init_constraints n R (int (sizearrayM mp)) p) cx cy
      (bt_mask_init n mp (bt_init_constraints n R (int (sizearrayM mp)) ?q))
      = bt_mask_init n mp (bt_init_constraints n R (int (sizearrayM mp)) p)"
    by (rule mask_refresh_sync[OF c(1,2)]) (simp_all add: constraints_keep[OF c(1,2) lq undone])
  have "frontier_sync n p (bt_frontier_undo n cx cy (e_front e))"
    using e b(2) lc by (intro frontier_undo_sync[OF _ c(1,2) len(1) undone]) (simp_all add: engine_at_def place_fields len)
  moreover have "possibility_placed_count n ?q = possibility_placed_count n p + 1"
    using b(2) by (intro placed_place[OF len(1) lc c(3)]) simp
  moreover have "mrv_used_clear (mrv_used_init n (b_faceused ?q)) (nat (p_id q - 1)) = mrv_used_init n (b_faceused p)"
    using used_init_set_clear(2)[of "b_faceused ?q" n "nat (p_id q - 1)"] b(1) len(2) fb by (simp add: place_fields(2))
  ultimately show ?thesis
    using e keys masks undone[symmetric] fb[folded place_fields(2)[of n ?c]]
    by (simp add: engine_at_def bt_take_def Let_def)
qed

end
