(* ===== verification/Engine_Choice.thy ===== *)
theory Engine_Choice
  imports Engine_State
begin

text \<open>
  Looking ahead and choosing the next cell (\<open>etii_search.c\<close>): the forward check of the
  neighbours of a placed piece and the choice of the most constrained cell, each in a
  general version and in a fast version for a table with complete masks. The lemmas show
  that a refusal is always a proof that the position has no completion, and that the fast
  versions give the answers of the general ones.
\<close>

section \<open>Free candidates of a cell\<close>

definition mrv_free_candidates ::
  "nat \<Rightarrow> map_big_array \<Rightarrow> key_part \<Rightarrow> possibility_packet \<Rightarrow> u64 list \<Rightarrow> u64 list option \<Rightarrow> nat" where
  "mrv_free_candidates n mp key board used msk =
     (case msk of
        Some m \<Rightarrow> if id_mask_words mp \<le> MRV_USED_WORDS n then map_mask_free_count m (id_mask_words mp) used
                  else fst (free_scan (b_faceused board) 0 (map_bucket_packed mp key) 0 0)
      | None \<Rightarrow> fst (free_scan (b_faceused board) 0 (map_bucket_packed mp key) 0 0))"

abbreviation bucket :: "nat \<Rightarrow> map_big_array \<Rightarrow> part list \<Rightarrow> possibility_packet \<Rightarrow> nat \<Rightarrow> part list" where
  "bucket n mp R p c \<equiv> get_parts_bigarray_with_key mp (cell_key n mp R p c)"

lemma engine_keys_nth:
  "engine_at n mp R p e \<Longrightarrow> c < n * n \<Longrightarrow> e_keys e ! c = cell_key n mp R p c"
  by (simp add: engine_at_def init_constraints_nth cell_key_def)

lemma engine_masks_nth:
  "engine_at n mp R p e \<Longrightarrow> c < n * n \<Longrightarrow> e_masks e ! c = bt_mask_resolve n mp (cell_key n mp R p c)"
  using engine_keys_nth[of n mp R p e c] by (simp add: engine_at_def bt_mask_init_def)

lemma bucket_in_table:
  assumes "rotation_table n R" "mp = prepare_map_part R a b" "key_in_range (sizearrayM mp) key"
    and "q \<in> set (get_parts_bigarray_with_key mp key)"
  shows "q \<in> set R"
  using flat_table.lookup_mset[of R a b key] assms by (metis filter_is_subset mset_eq_setD subsetD)

text \<open>The bits of a resolved mask that are not used are the free candidates.\<close>

lemma resolved_mask:
  assumes R: "rotation_table n R" and mp: "mp = prepare_map_part R a b" and key: "key_in_range (sizearrayM mp) key"
    and m: "bt_mask_resolve n mp key = Some m" and w: "id_mask_words mp \<le> MRV_USED_WORDS n"
    and fu: "length fu = FACES_USED_SIZE n"
  shows "free_positions m (id_mask_words mp) (mrv_used_init n fu)
     = (\<lambda>q. nat (p_id q - 1)) ` set (filter (free_piece fu) (get_parts_bigarray_with_key mp key))"
proof (cases "map_bucket_id_mask mp key")
  case None
  then have z: "m = bt_zero_mask n" and some: "bucket_id_mask mp \<noteq> None" "packed mp \<noteq> None"
    using m by (auto simp: bt_mask_resolve_def split: if_splits)
  have "map_bucket_packed mp key = []"
    using None some by (auto simp: map_bucket_id_mask_def map_bucket_packed_def Let_def split: if_splits)
  then have "get_parts_bigarray_with_key mp key = []" using packed_eq_flat[of R a b key] key mp by simp
  moreover have "free_positions m (id_mask_words mp) (mrv_used_init n fu) = {}"
    using w by (auto simp: z bt_zero_mask_def free_positions_def used_bit_def group64_less less_le_trans)
  ultimately show ?thesis by simp
next
  case (Some m')
  then have [simp]: "m' = m" using m by (simp add: bt_mask_resolve_def)
  let ?b = "get_parts_bigarray_with_key mp key"
  note bm = bucket_mask_mem[OF search_max_face_nonneg, of R key R a b m, folded prepare_build mp,
      OF key[unfolded mp sizearrayM_prepare] Some[simplified] refl refl]
  have u: "used_bit (mrv_used_init n fu) q \<longleftrightarrow> q < 16 * FACES_USED_SIZE n \<and> is_face_used fu q" if "q < 64 * id_mask_words mp" for q
    using that w by (intro used_init_bit) simp
  have id: "p_id q \<noteq> 0 \<Longrightarrow> 1 \<le> p_id q \<and> nat (p_id q - 1) < 16 * FACES_USED_SIZE n" if "q \<in> set ?b" for q
  proof -
    assume nz: "p_id q \<noteq> 0"
    have q: "q \<in> set R" using bucket_in_table[OF R mp key that] .
    note t = table_member[OF R q nz]
    show ?thesis using table_piece_bit(1)[OF R q nz fu] piece_range(1)[OF R t(1)] t(2) by simp
  qed
  show ?thesis
  proof (intro set_eqI iffI)
    fix q assume "q \<in> free_positions m (id_mask_words mp) (mrv_used_init n fu)"
    then have q: "q < 64 * id_mask_words mp" "used_bit m q" "\<not> used_bit (mrv_used_init n fu) q" by (simp_all add: free_positions_def)
    then obtain r where r: "r \<in> set ?b" "p_id r = int q + 1" using bm(3) by blast
    then have "free_piece fu r" using id[OF r(1)] u[OF q(1)] q(3) by (simp add: free_piece_def)
    then show "q \<in> (\<lambda>q. nat (p_id q - 1)) ` set (filter (free_piece fu) ?b)" using r by force
  next
    fix q assume "q \<in> (\<lambda>q. nat (p_id q - 1)) ` set (filter (free_piece fu) ?b)"
    then obtain r where r: "r \<in> set ?b" "free_piece fu r" "q = nat (p_id r - 1)" by auto
    have i: "1 \<le> p_id r" "q < 16 * FACES_USED_SIZE n" using id[OF r(1)] r by (auto simp: free_piece_def)
    then have "p_id r = int q + 1" using r(3) by simp
    moreover have "q < 64 * id_mask_words mp" using bm(2) r(1) i calculation by fastforce
    ultimately show "q \<in> free_positions m (id_mask_words mp) (mrv_used_init n fu)"
      using bm(3) r u by (auto simp: free_positions_def free_piece_def)
  qed
qed

lemma free_candidates_zero:
  assumes R: "rotation_table n R" and mp: "mp = prepare_map_part R a b" and e: "engine_at n mp R p e"
    and p: "marks_ok n R p" and c: "c < n * n"
  shows "mrv_free_candidates n mp (e_keys e ! c) (e_board e) (e_used e) (e_masks e ! c) = 0 \<longleftrightarrow> candidates n mp R p c = []"
proof -
  note key = cell_key_range[OF R mp marks_grid[OF p] c]
  have fu: "length (b_faceused p) = FACES_USED_SIZE n" using p by (simp add: marks_ok_def)
  have scan: "fst (free_scan (b_faceused (e_board e)) 0 (map_bucket_packed mp (cell_key n mp R p c)) 0 0) = 0
      \<longleftrightarrow> candidates n mp R p c = []"
    using free_scan_zero_iff[of "b_faceused p" "bucket n mp R p c"] packed_eq_flat[of R a b] key mp e
    by (simp add: candidates_def engine_at_def)
  show ?thesis
  proof (cases "bt_mask_resolve n mp (cell_key n mp R p c)")
    case None
    then show ?thesis using scan engine_keys_nth[OF e c] engine_masks_nth[OF e c] by (simp add: mrv_free_candidates_def)
  next
    case (Some m)
    show ?thesis
    proof (cases "id_mask_words mp \<le> MRV_USED_WORDS n")
      case True
      have "map_mask_free_count m (id_mask_words mp) (mrv_used_init n (b_faceused p)) = 0 \<longleftrightarrow> candidates n mp R p c = []"
        using resolved_mask[OF R mp key Some True fu]
        by (auto simp: map_mask_free_count_card candidates_def filter_empty_conv)
      then show ?thesis using True Some engine_keys_nth[OF e c] engine_masks_nth[OF e c] e
        by (simp add: mrv_free_candidates_def engine_at_def)
    next
      case False
      then show ?thesis using Some scan engine_keys_nth[OF e c] engine_masks_nth[OF e c] by (simp add: mrv_free_candidates_def)
    qed
  qed
qed

section \<open>Forward check\<close>

record fc_stats =
  fc_attempts :: nat
  fc_pruned :: nat
  fc_cells_studied :: nat
  fc_singleton_conflict :: nat
  fc_pruned_at :: "nat list"

definition bt_fc_failed :: "nat \<Rightarrow> nat \<Rightarrow> nat \<Rightarrow> nat \<Rightarrow> nat \<Rightarrow> bt_frontier \<Rightarrow> bt_frontier" where
  "bt_fc_failed n x y cx cy front = bt_frontier_fail n (cell_pos n cx cy) (bt_frontier_fail n (cell_pos n x y) front)"

text \<open>The counters written when the cell at this rank is dead.\<close>

definition fc_fail_stats :: "nat \<Rightarrow> nat \<Rightarrow> fc_stats \<Rightarrow> fc_stats" where
  "fc_fail_stats rank cells st =
     st\<lparr>fc_pruned_at := (fc_pruned_at st)[rank := fc_pruned_at st ! rank + 1], fc_cells_studied := fc_cells_studied st + cells\<rparr>"

text \<open>The loop over the neighbours; \<open>scc\<close> is the switch \<open>singleton_conflict_check\<close>, the last
  list holds the only candidates of the cells seen so far.\<close>

fun fc_loop ::
  "nat \<Rightarrow> bool \<Rightarrow> map_big_array \<Rightarrow> bt_engine \<Rightarrow> nat \<Rightarrow> nat \<Rightarrow> (nat \<times> nat) list \<Rightarrow> nat \<Rightarrow> nat \<Rightarrow> int list \<Rightarrow> fc_stats
   \<Rightarrow> bool \<times> bt_frontier \<times> fc_stats" where
  "fc_loop n scc mp e cx cy [] cells rank singles st =
     (True, e_front e, st\<lparr>fc_cells_studied := fc_cells_studied st + cells\<rparr>)"
| "fc_loop n scc mp e cx cy ((x, y) # zs) cells rank singles st =
     (if grid_at n (e_board e) x y \<noteq> -2 then fc_loop n scc mp e cx cy zs cells rank singles st
      else (let cells = cells + 1; rank = rank + 1;
                next = (\<lambda>ss. fc_loop n scc mp e cx cy zs cells rank ss st);
                dead = (\<lambda>st. (False, bt_fc_failed n x y cx cy (e_front e), fc_fail_stats rank cells st));
                id_mask = e_masks e ! cell_pos n x y;
                search = map_bucket_packed mp (e_keys e ! cell_pos n x y)
            in if \<not> scc \<and> id_mask \<noteq> None \<and> id_mask_words mp \<le> MRV_USED_WORDS n
               then (if \<not> map_mask_any_free (the id_mask) (id_mask_words mp) (e_used e) then dead st else next singles)
               else if search = [] then dead st
               else if \<not> scc
               then (if \<not> has_free_candidate (b_faceused (e_board e)) search then dead st else next singles)
               else (case take 2 (filter (free_piece (b_faceused (e_board e))) search) of
                       [] \<Rightarrow> dead st
                     | [q] \<Rightarrow> if p_id q \<in> set singles
                             then dead (st\<lparr>fc_singleton_conflict := fc_singleton_conflict st + 1\<rparr>)
                             else next (singles @ [p_id q])
                     | _ \<Rightarrow> next singles)))"

definition bt_forward_check ::
  "nat \<Rightarrow> bool \<Rightarrow> map_big_array \<Rightarrow> nat \<Rightarrow> nat \<Rightarrow> bt_engine \<Rightarrow> fc_stats \<Rightarrow> bool \<times> bt_frontier \<times> fc_stats" where
  "bt_forward_check n scc mp cx cy e st = fc_loop n scc mp e cx cy (bt_neighbours n cx cy) 0 0 [] st"

fun fc_fast_loop ::
  "nat \<Rightarrow> bt_engine \<Rightarrow> nat \<Rightarrow> nat \<Rightarrow> (nat \<times> nat) list \<Rightarrow> nat \<Rightarrow> nat \<Rightarrow> fc_stats \<Rightarrow> bool \<times> bt_frontier \<times> fc_stats" where
  "fc_fast_loop n e cx cy [] cells rank st = (True, e_front e, st\<lparr>fc_cells_studied := fc_cells_studied st + cells\<rparr>)"
| "fc_fast_loop n e cx cy ((x, y) # zs) cells rank st =
     (if grid_at n (e_board e) x y \<noteq> -2 then fc_fast_loop n e cx cy zs cells rank st
      else (let cells = cells + 1; rank = rank + 1;
                id_mask = the (e_masks e ! cell_pos n x y);
                anyf = fold (\<lambda>k acc. acc OR (id_mask ! k AND NOT (e_used e ! k))) [0..<BT_MASK_WORDS n] 0
            in if anyf = 0 then (False, bt_fc_failed n x y cx cy (e_front e), fc_fail_stats rank cells st)
               else fc_fast_loop n e cx cy zs cells rank st))"

definition bt_forward_check_fast ::
  "nat \<Rightarrow> nat \<Rightarrow> nat \<Rightarrow> bt_engine \<Rightarrow> fc_stats \<Rightarrow> bool \<times> bt_frontier \<times> fc_stats" where
  "bt_forward_check_fast n cx cy e st = fc_fast_loop n e cx cy (bt_neighbours n cx cy) 0 0 st"

lemma fold_or_zero: "fold (\<lambda>k acc. acc OR f k) ks a = (0 :: u64) \<longleftrightarrow> a = 0 \<and> (\<forall>k \<in> set ks. f k = 0)"
  by (induction ks arbitrary: a) (auto simp: or_eq_0_iff)

lemma any_free_or:
  "map_mask_any_free m words used \<longleftrightarrow> fold (\<lambda>k acc. acc OR (m ! k AND NOT (used ! k))) [0..<words] (0 :: u64) \<noteq> 0"
proof -
  have "any_free_from m used ws \<longleftrightarrow> (\<exists>w \<in> set ws. m ! w AND NOT (used ! w) \<noteq> 0)" for ws
    by (induction ws) auto
  then show ?thesis by (auto simp: map_mask_any_free_def fold_or_zero)
qed

lemma mask_words_fit: "BT_MASK_WORDS n \<le> MRV_USED_WORDS n"
proof -
  have "(n * n + 63) div 64 \<le> (n * n + 64) div 64" by (intro div_le_mono) simp
  also have "\<dots> = n * n div 16 div 4 + 1" by (simp add: div_mult2_eq[symmetric])
  also have "\<dots> = (FACES_USED_SIZE n + 3) div 4" by (simp add: FACES_USED_SIZE_def)
  finally show ?thesis by (simp add: BT_MASK_WORDS_def MRV_USED_WORDS_def)
qed

text \<open>With complete masks every cell has one.\<close>

lemma complete_masks_some:
  "bt_masks_complete n mp \<Longrightarrow> bt_mask_resolve n mp key \<noteq> None"
  by (auto simp: bt_masks_complete_def bt_mask_resolve_def Let_def)

lemma fc_fast_loop_eq:
  assumes "bt_masks_complete n mp" "\<forall>c < n * n. e_masks e ! c \<noteq> None" "\<forall>(x, y) \<in> set zs. x < n \<and> y < n"
  shows "fc_fast_loop n e cx cy zs cells rank st = fc_loop n False mp e cx cy zs cells rank singles st"
  using assms
proof (induction zs arbitrary: cells rank)
  case (Cons z zs)
  obtain x y where z: "z = (x, y)" by fastforce
  have "cell_pos n x y < n * n" using Cons.prems(3) z by (simp add: cell_pos_less)
  then have m: "e_masks e ! cell_pos n x y \<noteq> None" using Cons.prems(2) by blast
  have w: "id_mask_words mp = BT_MASK_WORDS n" "id_mask_words mp \<le> MRV_USED_WORDS n"
    using Cons.prems(1) mask_words_fit[of n] by (simp_all add: bt_masks_complete_def)
  show ?case using Cons m w by (simp add: z Let_def any_free_or)
qed simp

text \<open>What a refusal proves: an empty cell without candidate, or two empty cells whose only
  candidates are the same piece.\<close>

lemma single_pair_no_completion:
  assumes R: "rotation_table n R" and mp: "mp = prepare_map_part R a b" and p: "marks_ok n R p"
    and c: "c < n * n" "grid p ! c = -2" "candidates n mp R p c = [q]"
    and d: "d < n * n" "grid p ! d = -2" "candidates n mp R p d = [r]" and "c \<noteq> d" "p_id q = p_id r"
  shows "completions n R (grid p) = {}"
proof (rule ccontr)
  assume "completions n R (grid p) \<noteq> {}"
  then obtain s where s: "s \<in> completions n R (grid p)" by blast
  have "R ! nat (s ! c) = q" "R ! nat (s ! d) = r"
    using completion_candidate[OF R mp p c(1,2) s] completion_candidate[OF R mp p d(1,2) s] c(3) d(3) by simp_all
  then have "piece_of R (s ! c) = piece_of R (s ! d)" using assms(11) by simp
  moreover have "solution n R s" using s by (simp add: completions_def)
  ultimately show False using solution_distinct[of n R s c d] c(1) d(1) assms(10) by auto
qed

definition fc_singles_ok :: "nat \<Rightarrow> map_big_array \<Rightarrow> part list \<Rightarrow> possibility_packet \<Rightarrow> nat set \<Rightarrow> int list \<Rightarrow> bool" where
  "fc_singles_ok n mp R p seen singles \<longleftrightarrow> (\<forall>i \<in> set singles. \<exists>d \<in> seen. d < n * n \<and> grid p ! d = -2
     \<and> (\<exists>r. candidates n mp R p d = [r] \<and> p_id r = i))"

lemma fc_loop_refusal:
  assumes R: "rotation_table n R" and mp: "mp = prepare_map_part R a b" and e: "engine_at n mp R p e"
    and p: "marks_ok n R p"
    and "\<forall>(x, y) \<in> set zs. x < n \<and> y < n \<and> cell_pos n x y \<notin> seen" "distinct zs"
    and "fc_singles_ok n mp R p seen singles"
    and "fst (fc_loop n scc mp e cx cy zs cells rank singles st) = False"
  shows "completions n R (grid p) = {}"
  using assms(5-)
proof (induction zs arbitrary: cells rank singles seen st)
  case (Cons z zs)
  obtain x y where z: "z = (x, y)" by fastforce
  have xy: "x < n" "y < n" "cell_pos n x y \<notin> seen" using Cons.prems(1) z by auto
  let ?c = "cell_pos n x y"
  have c: "?c < n * n" using xy by (simp add: cell_pos_less)
  have rest: "\<forall>(x', y') \<in> set zs. x' < n \<and> y' < n \<and> cell_pos n x' y' \<notin> insert ?c seen" "distinct zs"
    using Cons.prems(1,2) z xy by (auto simp: cell_pos_inject)
  have mono: "fc_singles_ok n mp R p seen ss \<Longrightarrow> fc_singles_ok n mp R p (insert ?c seen) ss" for ss
    by (fastforce simp: fc_singles_ok_def)
  have g: "grid_at n (e_board e) x y = grid p ! ?c" using e by (simp add: engine_at_def grid_at_def)
  note key = cell_key_range[OF R mp marks_grid[OF p] c]
  have fu: "b_faceused (e_board e) = b_faceused p" "length (b_faceused p) = FACES_USED_SIZE n" "e_used e = mrv_used_init n (b_faceused p)"
    using e p by (simp_all add: engine_at_def marks_ok_def)
  have srch: "map_bucket_packed mp (e_keys e ! ?c) = bucket n mp R p ?c"
    using packed_eq_flat[of R a b] key mp engine_keys_nth[OF e c] by simp
  have cand: "filter (free_piece (b_faceused p)) (bucket n mp R p ?c) = candidates n mp R p ?c" by (simp add: candidates_def)
  show ?case
  proof (cases "grid p ! ?c = -2")
    case False
    then show ?thesis using Cons.IH[OF rest mono[OF Cons.prems(3)]] Cons.prems(4) g z by simp
  next
    case True
    note dead = no_candidate_no_completion[OF R mp p c True]
    note IH = Cons.IH[OF rest]
    have any: "\<not> map_mask_any_free m (id_mask_words mp) (e_used e) \<Longrightarrow> candidates n mp R p ?c = []"
      if "e_masks e ! ?c = Some m" "id_mask_words mp \<le> MRV_USED_WORDS n" for m
      using resolved_mask[OF R mp key _ that(2) fu(2)] that(1) engine_masks_nth[OF e c] fu(3) cand
      by (auto simp: map_mask_any_free_iff filter_empty_conv)
    have free: "\<not> has_free_candidate (b_faceused p) (bucket n mp R p ?c) \<Longrightarrow> candidates n mp R p ?c = []"
      by (auto simp: has_free_candidate_def candidates_def filter_empty_conv free_piece_def)
    have empty: "bucket n mp R p ?c = [] \<Longrightarrow> candidates n mp R p ?c = []" by (simp add: candidates_def)
    show ?thesis
    proof (cases "take 2 (candidates n mp R p ?c)")
      case Nil
      then show ?thesis using dead by simp
    next
      case (Cons q qs)
      note cs = this
      have ne: "candidates n mp R p ?c \<noteq> []" using cs by auto
      then have bne: "bucket n mp R p ?c \<noteq> []" using empty by auto
      have hf: "has_free_candidate (b_faceused p) (bucket n mp R p ?c)" using free ne by blast
      have af: "map_mask_any_free m (id_mask_words mp) (e_used e)" if "e_masks e ! ?c = Some m" "id_mask_words mp \<le> MRV_USED_WORDS n" for m
        using any[OF that] ne by blast
      show ?thesis
      proof (cases "scc \<and> qs = []")
        case True
        then have single: "candidates n mp R p ?c = [q]" using cs by (cases "candidates n mp R p ?c"; cases "tl (candidates n mp R p ?c)") auto
        show ?thesis
        proof (cases "p_id q \<in> set singles")
          case conflict: True
          then obtain d r where "d \<in> seen" "d < n * n" "grid p ! d = -2" "candidates n mp R p d = [r]" "p_id r = p_id q"
            using Cons.prems(3) by (auto simp: fc_singles_ok_def)
          then show ?thesis using single_pair_no_completion[OF R mp p c \<open>grid p ! ?c = -2\<close> single] xy(3) by metis
        next
          case new: False
          have "fc_singles_ok n mp R p (insert ?c seen) (singles @ [p_id q])"
            using mono[OF Cons.prems(3)] c \<open>grid p ! ?c = -2\<close> single by (auto simp: fc_singles_ok_def)
          from IH[OF this] show ?thesis
            using Cons.prems(4) new cs True bne \<open>grid p ! ?c = -2\<close> by (simp add: z g srch cand fu(1) Let_def)
        qed
      next
        case False
        then have many: "scc \<Longrightarrow> \<exists>r rs. qs = r # rs" by (cases qs) auto
        have "fst (fc_loop n scc mp e cx cy zs (cells + 1) (rank + 1) singles st) = False"
          using Cons.prems(4) cs many hf af bne \<open>grid p ! ?c = -2\<close>
          by (auto simp: z g srch cand fu(1) Let_def split: if_splits)
        from IH[OF mono[OF Cons.prems(3)] this] show ?thesis .
      qed
    qed
  qed
qed simp

lemma forward_check_refusal:
  assumes "rotation_table n R" "mp = prepare_map_part R a b" "engine_at n mp R p e" "marks_ok n R p" "cx < n" "cy < n"
    and "fst (bt_forward_check n scc mp cx cy e st) = False"
  shows "completions n R (grid p) = {}"
proof (rule fc_loop_refusal[OF assms(1-4)])
  show "\<forall>(x, y) \<in> set (bt_neighbours n cx cy). x < n \<and> y < n \<and> cell_pos n x y \<notin> {}"
    using assms(5,6) by (auto simp: set_bt_neighbours)
  show "fst (fc_loop n scc mp e cx cy (bt_neighbours n cx cy) 0 0 [] st) = False"
    using assms(7) by (simp add: bt_forward_check_def)
qed (simp_all add: distinct_bt_neighbours fc_singles_ok_def)

lemma forward_check_fast_eq:
  assumes "bt_masks_complete n mp" "engine_at n mp R p e" "cx < n" "cy < n"
  shows "bt_forward_check_fast n cx cy e st = bt_forward_check n False mp cx cy e st"
proof -
  have "\<forall>c < n * n. e_masks e ! c \<noteq> None" using engine_masks_nth[OF assms(2)] complete_masks_some[OF assms(1)] by simp
  moreover have "\<forall>(x, y) \<in> set (bt_neighbours n cx cy). x < n \<and> y < n" using assms(3,4) by (auto simp: set_bt_neighbours)
  ultimately show ?thesis unfolding bt_forward_check_fast_def bt_forward_check_def by (rule fc_fast_loop_eq[OF assms(1)])
qed

text \<open>The check only touches the weights of the frontier.\<close>

lemma fc_loop_frontier:
  assumes "frontier_is n ee k (e_front e)" "cx < n" "cy < n" "\<forall>(x, y) \<in> set zs. x < n \<and> y < n"
  shows "frontier_is n ee k (fst (snd (fc_loop n scc mp e cx cy zs cells rank singles st)))"
  using assms(4)
proof (induction zs arbitrary: cells rank singles)
  case (Cons z zs)
  obtain x y where z: "z = (x, y)" by fastforce
  have "frontier_is n ee k (bt_fc_failed n x y cx cy (e_front e))"
    unfolding bt_fc_failed_def using Cons.prems z assms(1-3) by (intro frontier_fail_is cell_pos_less) auto
  moreover have "frontier_is n ee k (fst (snd (fc_loop n scc mp e cx cy zs cells rank singles st)))" for cells rank singles
    using Cons by simp
  ultimately show ?case by (cases scc) (simp_all add: z Let_def split: list.split)
qed (use assms(1) in simp)

section \<open>Choice of the next cell\<close>

text \<open>The builtin \<open>__builtin_ctzll\<close>, and the order in which the loop
  \<open>pos = ctz(bits); bits &= bits - 1\<close> visits the set bits.\<close>

definition ctz64 :: "u64 \<Rightarrow> nat" where
  "ctz64 v = length (takeWhile (\<lambda>i. \<not> bit v i) [0..<64])"

lemma drop_lowest_less: "(b :: u64) \<noteq> 0 \<Longrightarrow> unat (b AND (b - 1)) < unat b"
proof -
  assume "b \<noteq> 0"
  then have "unat (b - 1) < unat b" by (simp add: unat_minus_one unat_gt_0)
  moreover have "unat (b AND (b - 1)) \<le> unat (b - 1)"
    unfolding word_le_nat_alt[symmetric] by (metis and.commute word_and_le1)
  ultimately show ?thesis by simp
qed

function set_bits64 :: "u64 \<Rightarrow> nat list" where
  "set_bits64 bits = (if bits \<noteq> 0 then ctz64 bits # set_bits64 (bits AND (bits - 1)) else [])"
  by auto
termination by (relation "measure unat") (simp_all add: drop_lowest_less)

declare set_bits64.simps [simp del]

definition frontier_cells :: "nat \<Rightarrow> (nat \<Rightarrow> u64) \<Rightarrow> nat list" where
  "frontier_cells n bits = concat (map (\<lambda>w. map (\<lambda>b. w * 64 + b) (set_bits64 (bits w))) [0..<BT_FRONTIER_WORDS n])"

fun first_free_word :: "bt_frontier \<Rightarrow> nat list \<Rightarrow> nat option" where
  "first_free_word front [] = None"
| "first_free_word front (w # ws) =
     (let bits = f_empty front ! w AND NOT (f_constrained front ! w)
      in if bits \<noteq> 0 then Some (w * 64 + ctz64 bits) else first_free_word front ws)"

text \<open>The chosen cell and its number of candidates; \<open>None\<close> is the answer 0.\<close>

definition mrv_finish_choice :: "nat \<Rightarrow> bt_frontier \<Rightarrow> (nat \<times> nat) option \<Rightarrow> (nat \<times> nat \<times> int) option" where
  "mrv_finish_choice n front best =
     (case best of
        None \<Rightarrow> (case first_free_word front [0..<BT_FRONTIER_WORDS n] of
                   None \<Rightarrow> None
                 | Some pos \<Rightarrow> Some (pos div n, pos mod n, POSSIBILITY_MIN_CANDIDATS_UNKNOWN))
      | Some (best_count, best_pos) \<Rightarrow> Some (best_pos div n, best_pos mod n, int best_count))"

definition mrv_key :: "bt_frontier \<Rightarrow> nat \<Rightarrow> nat \<Rightarrow> nat" where
  "mrv_key front pos cnt =
     push_bit MRV_KEY_COUNT_SHIFT (push_bit (wshl front ! pos) cnt) OR (MRV_KEY_NC_MAX - unat (nconstr front ! pos))"

text \<open>The scan of the constrained cells with the best key, position and count so far;
  \<open>None\<close> is the early return on a cell without candidate.\<close>

fun mrv_scan ::
  "nat \<Rightarrow> map_big_array \<Rightarrow> bt_engine \<Rightarrow> nat list \<Rightarrow> (nat \<times> nat \<times> nat) option \<Rightarrow> (nat \<times> nat \<times> nat) option option" where
  "mrv_scan n mp e [] best = Some best"
| "mrv_scan n mp e (pos # ps) best =
     (let cnt = mrv_free_candidates n mp (e_keys e ! pos) (e_board e) (e_used e) (e_masks e ! pos) in
      if cnt = 0 then None
      else (let key = mrv_key (e_front e) pos cnt in
        mrv_scan n mp e ps (case best of
            None \<Rightarrow> Some (key, cnt, pos)
          | Some (bk, bc, bp) \<Rightarrow> if key < bk then Some (key, cnt, pos) else best)))"

definition mrv_choose_cell :: "nat \<Rightarrow> map_big_array \<Rightarrow> bt_engine \<Rightarrow> (nat \<times> nat \<times> int) option" where
  "mrv_choose_cell n mp e =
     (case mrv_scan n mp e (frontier_cells n (\<lambda>w. f_empty (e_front e) ! w AND f_constrained (e_front e) ! w)) None of
        None \<Rightarrow> None
      | Some best \<Rightarrow> mrv_finish_choice n (e_front e) (map_option snd best))"

definition mask_count :: "nat \<Rightarrow> u64 list \<Rightarrow> u64 list \<Rightarrow> nat" where
  "mask_count n msk frees = fold (\<lambda>k cnt. cnt + etii_popcount64 (msk ! k AND frees ! k)) [0..<BT_MASK_WORDS n] 0"

definition mrv_cand :: "nat \<Rightarrow> bt_engine \<Rightarrow> u64 list \<Rightarrow> nat \<Rightarrow> u32" where
  "mrv_cand n e frees pos =
     push_bit MRV_KEY_LOW_BITS (push_bit (wshl (e_front e) ! pos) (of_nat (mask_count n (the (e_masks e ! pos)) frees)))
     OR ucast (nc_key (e_front e) ! pos)"

definition UINT32_MAX :: u32 where "UINT32_MAX = 0xFFFFFFFF"

definition mrv_choose_cell_fast :: "nat \<Rightarrow> bt_engine \<Rightarrow> (nat \<times> nat \<times> int) option" where
  "mrv_choose_cell_fast n e =
     (let frees = map (\<lambda>k. NOT (e_used e ! k)) [0..<BT_MASK_WORDS n];
          best = fold (\<lambda>pos best. let cand = mrv_cand n e frees pos in if cand < best then cand else best)
                   (frontier_cells n (\<lambda>w. f_empty (e_front e) ! w AND f_constrained (e_front e) ! w)) UINT32_MAX
      in if drop_bit MRV_KEY_LOW_BITS best = 0 then None
         else if best = UINT32_MAX then mrv_finish_choice n (e_front e) None
         else (let best_pos = unat (best AND mask MRV_POS_BITS)
               in mrv_finish_choice n (e_front e) (Some (mask_count n (the (e_masks e ! best_pos)) frees, best_pos))))"

text \<open>The loop over the set bits visits them in increasing order.\<close>

lemma bit_dec_odd: "odd m \<Longrightarrow> bit (m - 1 :: nat) i \<longleftrightarrow> bit m i \<and> i \<noteq> 0"
  by (cases i) (auto simp: bit_0 bit_Suc elim!: oddE)

lemma bit_dec:
  assumes "odd (m :: nat)"
  shows "bit (push_bit k m - 1) i \<longleftrightarrow> i < k \<or> bit (push_bit k m) i \<and> i \<noteq> k"
proof -
  have pos: "0 < m" using assms by (cases m) auto
  have "2 ^ k \<le> m * 2 ^ k" using pos by simp
  then have v: "push_bit k m - 1 = push_bit k (m - 1) + mask k"
    by (simp add: push_bit_eq_mult mask_eq_exp_minus_1 diff_mult_distrib)
  have "push_bit k (m - 1) AND mask k = (0::nat)" by (rule nat_eqI_bits) (auto simp: bit_and_iff bit_push_bit_iff bit_mask_iff)
  then have "push_bit k m - 1 = push_bit k (m - 1) OR mask k" unfolding v by (rule disjunctive_add_eq_or)
  then show ?thesis using bit_dec_odd[OF assms, of "i - k"] by (auto simp: bit_or_iff bit_push_bit_iff bit_mask_iff)
qed

lemma bit_clear_lowest:
  fixes v :: u64
  assumes "bit v k" "\<forall>j < k. \<not> bit v j"
  shows "bit (v AND (v - 1)) i \<longleftrightarrow> bit v i \<and> i \<noteq> k"
proof -
  have nz: "v \<noteq> 0" using assms(1) by auto
  have dec: "unat v = push_bit k (drop_bit k (unat v))"
  proof (rule nat_eqI_bits)
    show "bit (unat v) i = bit (push_bit k (drop_bit k (unat v))) i" for i
      using assms(2) by (cases "k \<le> i") (auto simp: bit_push_bit_iff bit_drop_bit_eq)
  qed
  have "odd (drop_bit k (unat v))" using assms(1) by (simp flip: bit_0 add: bit_drop_bit_eq)
  from bit_dec[OF this, of k i] dec have "bit (unat v - 1) i \<longleftrightarrow> i < k \<or> bit (unat v) i \<and> i \<noteq> k" by simp
  moreover have "unat v - 1 = unat (v - 1)" using nz by (simp add: unat_minus_one)
  ultimately have "bit (v - 1) i \<longleftrightarrow> i < k \<or> bit v i \<and> i \<noteq> k" by simp
  then show ?thesis using assms(2) by (auto simp: bit_and_iff)
qed

lemma ctz64_lowest:
  assumes "v \<noteq> 0"
  shows "ctz64 v < 64" "bit v (ctz64 v)" "\<forall>j < ctz64 v. \<not> bit v j"
proof -
  obtain b where b: "b < 64" "bit v b" using assms word_nonzero_bit by blast
  let ?t = "takeWhile (\<lambda>i. \<not> bit v i) [0..<64]"
  have "?t \<noteq> [0..<64]" using b by (metis atLeastLessThan_iff set_upt set_takeWhileD zero_le)
  then have lt: "length ?t < length [0..<64]" using length_takeWhile_le[of "\<lambda>i. \<not> bit v i" "[0..<64]"]
    by (metis le_neq_implies_less takeWhile_eq_take take_all_iff order_refl)
  show l: "ctz64 v < 64" using lt by (simp add: ctz64_def)
  show "bit v (ctz64 v)" using nth_length_takeWhile[OF lt] l by (simp add: ctz64_def)
  show "\<forall>j < ctz64 v. \<not> bit v j"
  proof (intro allI impI)
    fix j assume j: "j < ctz64 v"
    then have "?t ! j = j" using l takeWhile_nth[of j "\<lambda>i. \<not> bit v i" "[0..<64]"] by (simp add: ctz64_def)
    moreover have "?t ! j \<in> set ?t" using j by (simp add: ctz64_def)
    ultimately show "\<not> bit v j" using set_takeWhileD by metis
  qed
qed

lemma set_bits64_filter: "set_bits64 v = filter (bit v) [0..<64]"
proof (induction v rule: set_bits64.induct)
  case (1 v)
  show ?case
  proof (cases "v = 0")
    case True
    then show ?thesis by (simp add: set_bits64.simps)
  next
    case False
    let ?k = "ctz64 v"
    note k = ctz64_lowest[OF False]
    have split: "[0..<64] = [0..<?k] @ ?k # [Suc ?k..<64]" using k(1) upt_add_eq_append[of 0 ?k "64 - ?k"] upt_conv_Cons[of ?k 64] by simp
    have "filter (bit v) [0..<64] = ?k # filter (bit v) [Suc ?k..<64]"
      using k unfolding split by (auto simp: filter_empty_conv)
    moreover have "filter (bit (v AND (v - 1))) [0..<64] = filter (bit v) [Suc ?k..<64]"
    proof -
      have "filter (bit (v AND (v - 1))) [0..<64] = filter (\<lambda>i. bit v i \<and> i \<noteq> ?k) [0..<64]"
        by (intro filter_cong refl) (rule bit_clear_lowest[OF k(2,3)])
      also have "\<dots> = filter (bit v) [Suc ?k..<64]"
        using k unfolding split by (auto simp: filter_empty_conv intro!: filter_cong)
      finally show ?thesis .
    qed
    ultimately show ?thesis using 1 False by (simp add: set_bits64.simps[of v])
  qed
qed

lemma word_cells: "concat (map (\<lambda>w. map (\<lambda>b. w * 64 + b) (filter (\<lambda>b. P (w * 64 + b)) [0..<64])) [0..<W]) = filter P [0..<64 * W]"
proof (induction W)
  case (Suc W)
  have "filter P [64 * W..<64 * W + 64] = map (\<lambda>b. W * 64 + b) (filter (\<lambda>b. P (W * 64 + b)) [0..<64])"
  proof -
    have "[64 * W..<64 * W + 64] = map (\<lambda>b. W * 64 + b) [0..<64]" by (intro nth_equalityI) simp_all
    then show ?thesis by (simp only: filter_map comp_def)
  qed
  moreover have "[0..<64 * Suc W] = [0..<64 * W] @ [64 * W..<64 * W + 64]"
    using upt_add_eq_append[of 0 "64 * W" 64] by (simp add: add.commute)
  ultimately show ?case using Suc by (simp only: map_append concat_append upt_Suc_append filter_append map_concat) simp
qed simp

lemma frontier_cells_filter:
  "frontier_cells n bits = filter (\<lambda>c. bit (bits (c div 64)) (c mod 64)) [0..<64 * BT_FRONTIER_WORDS n]"
proof -
  have "map (\<lambda>b. w * 64 + b) (filter (bit (bits w)) [0..<64])
     = map (\<lambda>b. w * 64 + b) (filter (\<lambda>b. bit (bits ((w * 64 + b) div 64)) ((w * 64 + b) mod 64)) [0..<64])" for w
    by (intro arg_cong[where f = "map _"] filter_cong) auto
  then show ?thesis unfolding frontier_cells_def set_bits64_filter word_cells[symmetric] by simp
qed

text \<open>The cells the scan visits: the empty cells with a constrained side, in increasing order.\<close>

definition open_cells :: "nat \<Rightarrow> possibility_packet \<Rightarrow> nat list" where
  "open_cells n p = filter (\<lambda>c. grid p ! c = -2 \<and> 0 < constrained_sides n p (c div n) (c mod n)) [0..<n * n]"

lemma filter_upt_restrict: "N \<le> M \<Longrightarrow> filter (\<lambda>c. c < N \<and> P c) [0..<M] = filter P [0..<N]"
proof -
  assume "N \<le> M"
  then have "[0..<M] = [0..<N] @ [N..<M]" using upt_add_eq_append[of 0 N "M - N"] by simp
  then show ?thesis by (simp add: filter_empty_conv) (auto intro: filter_cong)
qed

lemma cells_le_words: "n * n \<le> 64 * BT_FRONTIER_WORDS n"
  by (simp add: BT_FRONTIER_WORDS_def)

lemma frontier_cells_open:
  assumes "frontier_sync n p f"
  shows "frontier_cells n (\<lambda>w. f_empty f ! w AND f_constrained f ! w) = open_cells n p"
proof -
  have "frontier_cells n (\<lambda>w. f_empty f ! w AND f_constrained f ! w)
     = filter (\<lambda>c. c < n * n \<and> grid p ! c = -2 \<and> 0 < constrained_sides n p (c div n) (c mod n)) [0..<64 * BT_FRONTIER_WORDS n]"
    unfolding frontier_cells_filter
    by (intro filter_cong refl) (use assms in \<open>auto simp: frontier_sync_def frontier_is_def used_bit_def bit_and_iff\<close>)
  then show ?thesis unfolding open_cells_def filter_upt_restrict[OF cells_le_words] .
qed

lemma first_free_word_spec:
  "first_free_word f ws = None \<Longrightarrow> w \<in> set ws \<Longrightarrow> f_empty f ! w AND NOT (f_constrained f ! w) = 0"
  "first_free_word f ws = Some pos \<Longrightarrow> \<exists>w \<in> set ws. pos div 64 = w \<and> bit (f_empty f ! w) (pos mod 64)"
proof (induction ws)
  case (Cons w' ws)
  let ?b = "f_empty f ! w' AND NOT (f_constrained f ! w')"
  { case 1 then show ?case using Cons by (auto simp: Let_def split: if_splits)
  next
    case 2
    show ?case
    proof (cases "?b = 0")
      case False
      note k = ctz64_lowest[OF False]
      have "pos = w' * 64 + ctz64 ?b" using 2 False by (simp add: Let_def)
      then have "pos div 64 = w'" "pos mod 64 = ctz64 ?b" using k(1) by simp_all
      then show ?thesis using k(2) by (auto simp: bit_and_iff)
    qed (use 2 Cons in \<open>auto simp: Let_def\<close>) }
qed auto

lemma finish_none:
  assumes s: "frontier_sync n p f" and "mrv_finish_choice n f None = None" and c: "c < n * n" "grid p ! c = -2"
  shows "c \<in> set (open_cells n p)"
proof (rule ccontr)
  assume "c \<notin> set (open_cells n p)"
  then have "\<not> used_bit (f_constrained f) c" "used_bit (f_empty f) c"
    using s c cell_in_words[OF c(1)] by (auto simp: open_cells_def frontier_sync_def frontier_is_def)
  moreover have "first_free_word f [0..<BT_FRONTIER_WORDS n] = None"
    using assms(2) by (simp add: mrv_finish_choice_def split: option.splits)
  from first_free_word_spec(1)[OF this, of "c div 64"] have "f_empty f ! (c div 64) AND NOT (f_constrained f ! (c div 64)) = 0"
    using group64_less[OF cell_in_words[OF c(1)]] by simp
  ultimately show False by (auto simp: used_bit_def bit_eq_iff bit_and_iff bit_not_iff)
qed

lemma finish_some:
  assumes s: "frontier_sync n p f" and "mrv_finish_choice n f None = Some (x, y, k)"
  shows "x < n" "y < n" "grid p ! cell_pos n x y = -2"
proof -
  obtain pos where pos: "first_free_word f [0..<BT_FRONTIER_WORDS n] = Some pos" "x = pos div n" "y = pos mod n"
    using assms(2) by (auto simp: mrv_finish_choice_def split: option.splits)
  from first_free_word_spec(2)[OF pos(1)] have u: "used_bit (f_empty f) pos" "pos < 64 * BT_FRONTIER_WORDS n"
    by (auto simp: used_bit_def)
  then have "pos < n * n" "grid p ! pos = -2" using s by (auto simp: frontier_sync_def frontier_is_def)
  then show "x < n" "y < n" "grid p ! cell_pos n x y = -2" using cell_less_divmod[of pos n] pos by simp_all
qed

lemma mrv_scan_dead:
  "mrv_scan n mp e ps best = None \<longleftrightarrow>
   (\<exists>c \<in> set ps. mrv_free_candidates n mp (e_keys e ! c) (e_board e) (e_used e) (e_masks e ! c) = 0)"
  by (induction ps arbitrary: best) (auto simp: Let_def)

lemma mrv_scan_from:
  "mrv_scan n mp e ps best = Some (Some (k, cnt, pos)) \<Longrightarrow> pos \<in> set ps \<or> best = Some (k, cnt, pos)"
  by (induction ps arbitrary: best) (fastforce simp: Let_def split: if_splits option.splits)+

lemma mrv_scan_none: "mrv_scan n mp e ps best = Some None \<Longrightarrow> ps = [] \<and> best = None"
  by (induction ps arbitrary: best) (fastforce simp: Let_def split: if_splits option.splits)+

text \<open>A refusal means a cell without candidate or a full board; a chosen cell is empty.\<close>

lemma choose_cell_refusal:
  assumes R: "rotation_table n R" and mp: "mp = prepare_map_part R a b" and e: "engine_at n mp R p e" and p: "marks_ok n R p"
    and none: "mrv_choose_cell n mp e = None" and hole: "\<exists>c < n * n. grid p ! c = -2"
  shows "completions n R (grid p) = {}"
proof -
  have s: "frontier_sync n p (e_front e)" using e by (simp add: engine_at_def)
  note cells = frontier_cells_open[OF s]
  show ?thesis
  proof (cases "mrv_scan n mp e (open_cells n p) None")
    case None
    then obtain c where c: "c \<in> set (open_cells n p)"
        "mrv_free_candidates n mp (e_keys e ! c) (e_board e) (e_used e) (e_masks e ! c) = 0"
      by (auto simp: mrv_scan_dead)
    then have "c < n * n" "grid p ! c = -2" by (auto simp: open_cells_def)
    then show ?thesis using no_candidate_no_completion[OF R mp p] free_candidates_zero[OF R mp e p] c(2) by blast
  next
    case (Some best)
    then have fin: "mrv_finish_choice n (e_front e) (map_option snd best) = None"
      using none by (simp add: mrv_choose_cell_def cells)
    then have "best = None" by (auto simp: mrv_finish_choice_def split: option.splits)
    then have "open_cells n p = []" using Some mrv_scan_none by blast
    then show ?thesis using hole finish_none[OF s] fin \<open>best = None\<close> by fastforce
  qed
qed

lemma choose_cell_empty:
  assumes e: "engine_at n mp R p e" and some: "mrv_choose_cell n mp e = Some (x, y, k)"
  shows "x < n" "y < n" "grid p ! cell_pos n x y = -2"
proof -
  have s: "frontier_sync n p (e_front e)" using e by (simp add: engine_at_def)
  obtain best where scan: "mrv_scan n mp e (open_cells n p) None = Some best"
      and fin: "mrv_finish_choice n (e_front e) (map_option snd best) = Some (x, y, k)"
    using some by (auto simp: mrv_choose_cell_def frontier_cells_open[OF s] split: option.splits)
  have "x < n \<and> y < n \<and> grid p ! cell_pos n x y = -2"
  proof (cases best)
    case None
    then show ?thesis using finish_some[OF s] fin by simp
  next
    case (Some b)
    obtain k' c' pos where b: "b = (k', c', pos)" by (cases b)
    then have "pos \<in> set (open_cells n p)" using mrv_scan_from scan Some by fastforce
    then have "pos < n * n" "grid p ! pos = -2" by (auto simp: open_cells_def)
    then show ?thesis using fin Some b cell_less_divmod[of pos n] by (auto simp: mrv_finish_choice_def)
  qed
  then show "x < n" "y < n" "grid p ! cell_pos n x y = -2" by blast+
qed

section \<open>The fast choice is the choice\<close>

lemma fold_min_first:
  assumes "ps \<noteq> []"
  shows "fold (\<lambda>c b. if f c < b then f c else b) ps (z :: nat) = min z (Min (f ` set ps))"
  using assms
proof (induction ps arbitrary: z)
  case (Cons c ps)
  then show ?case by (cases "ps = []") (auto simp: min_def)
qed simp

text \<open>The slow scan keeps the first position of least key.\<close>

lemma mrv_scan_first:
  assumes "\<forall>c \<in> set ps. cnt c \<noteq> 0 \<and> mrv_free_candidates n mp (e_keys e ! c) (e_board e) (e_used e) (e_masks e ! c) = cnt c"
    and "\<forall>c \<in> set ps. key c = mrv_key (e_front e) c (cnt c)" and "sorted ps" "distinct ps"
    and "case best of None \<Rightarrow> True | Some (k, m, c) \<Rightarrow> \<forall>d \<in> set ps. c < d"
    and "ps \<noteq> [] \<or> best \<noteq> None"
  shows "\<exists>c k m. mrv_scan n mp e ps best = Some (Some (k, m, c))
     \<and> ((k, m, c) \<in> (\<lambda>c. (key c, cnt c, c)) ` set ps \<or> best = Some (k, m, c))
     \<and> (\<forall>d \<in> set ps. key d > k \<or> key d = k \<and> c \<le> d)
     \<and> (case best of None \<Rightarrow> True | Some (k', m', c') \<Rightarrow> k < k' \<or> k = k' \<and> c' = c \<and> m' = m)"
  using assms
proof (induction ps arbitrary: best)
  case Nil
  then show ?case by (auto split: option.splits)
next
  case (Cons d ps)
  let ?n = "case best of None \<Rightarrow> Some (key d, cnt d, d) | Some (bk, bc, bp) \<Rightarrow> if key d < bk then Some (key d, cnt d, d) else best"
  have lt: "\<forall>x \<in> set ps. d < x" using Cons.prems(3,4) by (auto simp: order_less_le)
  have step: "mrv_scan n mp e (d # ps) best = mrv_scan n mp e ps ?n"
    using Cons.prems(1,2) by (simp add: Let_def split: option.split)
  have "\<exists>c k m. mrv_scan n mp e ps ?n = Some (Some (k, m, c))
     \<and> ((k, m, c) \<in> (\<lambda>c. (key c, cnt c, c)) ` set ps \<or> ?n = Some (k, m, c))
     \<and> (\<forall>d \<in> set ps. key d > k \<or> key d = k \<and> c \<le> d)
     \<and> (case ?n of None \<Rightarrow> True | Some (k', m', c') \<Rightarrow> k < k' \<or> k = k' \<and> c' = c \<and> m' = m)"
    by (rule Cons.IH) (use Cons.prems lt in \<open>auto split: option.splits\<close>)
  then obtain c k m where h: "mrv_scan n mp e ps ?n = Some (Some (k, m, c))"
     "(k, m, c) \<in> (\<lambda>c. (key c, cnt c, c)) ` set ps \<or> ?n = Some (k, m, c)"
     "\<forall>d \<in> set ps. key d > k \<or> key d = k \<and> c \<le> d"
     "case ?n of None \<Rightarrow> True | Some (k', m', c') \<Rightarrow> k < k' \<or> k = k' \<and> c' = c \<and> m' = m" by blast
  show ?case
    by (rule exI[of _ c], rule exI[of _ k], rule exI[of _ m])
      (use h step Cons.prems(5) in \<open>auto split: option.splits if_splits\<close>)
qed

lemma or_low: "y < 2 ^ k \<Longrightarrow> push_bit k x OR y = x * 2 ^ k + (y :: nat)"
proof -
  assume y: "y < 2 ^ k"
  have "push_bit k x AND y = 0"
    by (rule nat_eqI_bits) (use bit_nat_less_exp[OF y] in \<open>auto simp: bit_and_iff bit_push_bit_iff dest: leD\<close>)
  then show ?thesis using disjunctive_add_eq_or[of "push_bit k x" y] by (simp add: push_bit_eq_mult)
qed

lemma u16_unat: "k < 65536 \<Longrightarrow> unat (of_nat k :: u16) = k"
  by (simp add: unat_of_nat take_bit_nat_eq_self)

lemma u32_unat: "k < 2 ^ 32 \<Longrightarrow> unat (of_nat k :: u32) = k"
  by (simp add: unat_of_nat take_bit_nat_eq_self)

lemma nc_key_value:
  assumes "nc \<le> 7" "pos < 256"
  shows "unat (bt_nc_key pos nc) = (7 - nc) * 256 + pos"
proof -
  have "int MRV_KEY_NC_MAX - int nc = int (7 - nc)" using assms(1) by (simp add: MRV_KEY_NC_MAX_def MRV_KEY_NC_BITS_def)
  then have "bt_nc_key pos nc = of_nat (push_bit 8 (7 - nc) OR pos)"
    by (simp add: bt_nc_key_def MRV_POS_BITS_def push_bit_of_nat of_nat_or_eq del: of_nat_diff)
  also have "push_bit 8 (7 - nc) OR pos = (7 - nc) * 256 + pos" using assms(2) or_low[of pos 8 "7 - nc"] by simp
  finally have "bt_nc_key pos nc = of_nat ((7 - nc) * 256 + pos)" .
  then show ?thesis using u16_unat[of "(7 - nc) * 256 + pos"] assms by simp
qed

lemma key_value:
  assumes "unat (nconstr f ! pos) \<le> 7"
  shows "mrv_key f pos cnt = cnt * 2 ^ (wshl f ! pos) * 8 + (7 - unat (nconstr f ! pos))"
  using or_low[of "7 - unat (nconstr f ! pos)" 3 "push_bit (wshl f ! pos) cnt"] assms
  by (simp add: mrv_key_def MRV_KEY_COUNT_SHIFT_def MRV_KEY_NC_BITS_def MRV_KEY_NC_MAX_def push_bit_eq_mult)

lemma wshl_le: "mrv_wdeg_shl w \<le> 4"
  by (simp add: mrv_wdeg_shl_def MRV_WDEG_SHIFT_def Let_def)

text \<open>The packed candidate of the fast scan is the key of the slow scan followed by the position.\<close>

lemma cand_value:
  assumes nk: "unat (nc_key (e_front e) ! pos) = (7 - unat (nconstr (e_front e) ! pos)) * 256 + pos"
    and nc: "unat (nconstr (e_front e) ! pos) \<le> 7" and pos: "pos < 256" and w: "wshl (e_front e) ! pos \<le> 4"
    and cnt: "cnt = mask_count n (the (e_masks e ! pos)) frees" "cnt \<le> 256"
  shows "unat (mrv_cand n e frees pos) = mrv_key (e_front e) pos cnt * 256 + pos"
    and "mrv_key (e_front e) pos cnt < 2 ^ 16"
proof -
  let ?s = "wshl (e_front e) ! pos" and ?k = "nc_key (e_front e) ! pos" and ?nc = "unat (nconstr (e_front e) ! pos)"
  have pw: "cnt * 2 ^ ?s \<le> 256 * 2 ^ 4" using cnt(2) w by (intro mult_mono power_increasing) auto
  have key: "mrv_key (e_front e) pos cnt = cnt * 2 ^ ?s * 8 + (7 - ?nc)" using nc by (rule key_value)
  show small: "mrv_key (e_front e) pos cnt < 2 ^ 16" using pw unfolding key by simp
  have lt: "unat ?k < 2 ^ 11" unfolding nk using pos by simp
  have "mrv_cand n e frees pos = of_nat (push_bit 11 (push_bit ?s cnt) OR unat ?k)"
    unfolding mrv_cand_def cnt(1)[symmetric] MRV_KEY_LOW_BITS_def MRV_KEY_COUNT_SHIFT_def MRV_POS_BITS_def MRV_KEY_NC_BITS_def
    by (simp add: push_bit_of_nat of_nat_or_eq)
  also have "push_bit 11 (push_bit ?s cnt) OR unat ?k = mrv_key (e_front e) pos cnt * 256 + pos"
    using or_low[OF lt, of "push_bit ?s cnt"] unfolding key nk by (simp add: push_bit_eq_mult)
  finally show "unat (mrv_cand n e frees pos) = mrv_key (e_front e) pos cnt * 256 + pos"
    using u32_unat[of "mrv_key (e_front e) pos cnt * 256 + pos"] small pos by simp
qed

lemma fold_min_unat:
  "unat (fold (\<lambda>c b. let v = F c in if v < b then v else b) ps (z :: u32))
     = fold (\<lambda>c b. if unat (F c) < b then unat (F c) else b) ps (unat z)"
  by (induction ps arbitrary: z) (simp_all add: Let_def word_less_nat_alt)

lemma mask_count_free:
  assumes "bt_masks_complete n mp" "MRV_USED_WORDS n = length used"
  shows "mask_count n m (map (\<lambda>k. NOT (used ! k)) [0..<BT_MASK_WORDS n]) = map_mask_free_count m (id_mask_words mp) used"
proof -
  have "id_mask_words mp = BT_MASK_WORDS n" using assms(1) by (simp add: bt_masks_complete_def)
  then show ?thesis unfolding mask_count_def map_mask_free_count_def by (intro fold_cong) auto
qed

lemma free_count_le: "map_mask_free_count m words used \<le> 64 * words"
proof -
  have "free_positions m words used \<subseteq> {..<64 * words}" by (auto simp: free_positions_def)
  from card_mono[OF _ this] show ?thesis by (simp add: map_mask_free_count_card)
qed

lemma fast_cell:
  assumes n: "n \<le> 16" and full: "bt_masks_complete n mp" and e: "engine_at n mp R p e" and c: "c < n * n"
    and frees: "frees = map (\<lambda>k. NOT (e_used e ! k)) [0..<BT_MASK_WORDS n]"
    and cnt: "cnt = mrv_free_candidates n mp (e_keys e ! c) (e_board e) (e_used e) (e_masks e ! c)"
  shows "cnt = mask_count n (the (e_masks e ! c)) frees"
    and "unat (mrv_cand n e frees c) = mrv_key (e_front e) c cnt * 256 + c"
    and "mrv_key (e_front e) c cnt < 2 ^ 16" and "c < 256"
    and "mrv_key (e_front e) c cnt < 8 \<longleftrightarrow> cnt = 0"
proof -
  have nn: "n * n \<le> 16 * 16" using n by (intro mult_mono) auto
  then show c256: "c < 256" using c by simp
  obtain m where m: "e_masks e ! c = Some m" using engine_masks_nth[OF e c] complete_masks_some[OF full] by fastforce
  have w: "id_mask_words mp = BT_MASK_WORDS n" "id_mask_words mp \<le> MRV_USED_WORDS n"
    using full mask_words_fit[of n] by (simp_all add: bt_masks_complete_def)
  have lu: "MRV_USED_WORDS n = length (e_used e)" using e by (simp add: engine_at_def length_used_init)
  show ceq: "cnt = mask_count n (the (e_masks e ! c)) frees"
    using m w(2) mask_count_free[OF full lu] by (simp add: cnt frees mrv_free_candidates_def)
  have "BT_MASK_WORDS n \<le> (256 + 63) div 64" unfolding BT_MASK_WORDS_def using nn by (intro div_le_mono) simp
  then have "64 * id_mask_words mp \<le> 256" using w(1) by simp
  then have c2: "cnt \<le> 256"
    using free_count_le[of m "id_mask_words mp" "e_used e"] m w(2) by (simp add: cnt mrv_free_candidates_def)
  let ?k = "constrained_sides n p (c div n) (c mod n)"
  have k4: "?k \<le> 4" using cell_less_divmod[OF c] by (intro constrained_sides_le) simp_all
  have f: "nconstr (e_front e) ! c = of_nat ?k" "nc_key (e_front e) ! c = bt_nc_key c ?k"
      "wshl (e_front e) ! c = mrv_wdeg_shl (unat (weight (e_front e) ! c))"
    using e c by (simp_all add: engine_at_def frontier_sync_def frontier_is_def)
  have u: "unat (nconstr (e_front e) ! c) = ?k" unfolding f using k4 by (intro u8_unat) simp
  have ws: "wshl (e_front e) ! c \<le> 4" unfolding f by (rule wshl_le)
  have nk: "unat (nc_key (e_front e) ! c) = (7 - unat (nconstr (e_front e) ! c)) * 256 + c"
    unfolding u f(2) using k4 c256 by (intro nc_key_value) simp_all
  have nc: "unat (nconstr (e_front e) ! c) \<le> 7" using u k4 by simp
  show "unat (mrv_cand n e frees c) = mrv_key (e_front e) c cnt * 256 + c" and "mrv_key (e_front e) c cnt < 2 ^ 16"
    using cand_value[OF nk nc c256 ws ceq c2] by simp_all
  show "mrv_key (e_front e) c cnt < 8 \<longleftrightarrow> cnt = 0"
  proof (cases "cnt = 0")
    case False
    then have "0 < cnt * 2 ^ (wshl (e_front e) ! c)" by simp
    then show ?thesis using False unfolding key_value[OF nc] by linarith
  qed (simp add: key_value[OF nc])
qed

lemma choose_cell_fast_eq:
  assumes R: "rotation_table n R" and full: "bt_masks_complete n mp" and e: "engine_at n mp R p e"
  shows "mrv_choose_cell_fast n e = mrv_choose_cell n mp e"
proof -
  have n: "n \<le> 16" using R by (simp add: rotation_table_def)
  have s: "frontier_sync n p (e_front e)" using e by (simp add: engine_at_def)
  note cells = frontier_cells_open[OF s]
  define frees where "frees = map (\<lambda>k. NOT (e_used e ! k)) [0..<BT_MASK_WORDS n]"
  define cnt where "cnt = (\<lambda>c. mrv_free_candidates n mp (e_keys e ! c) (e_board e) (e_used e) (e_masks e ! c))"
  define key where "key = (\<lambda>c. mrv_key (e_front e) c (cnt c))"
  define cs where "cs = open_cells n p"
  define best where "best = fold (\<lambda>pos b. let cand = mrv_cand n e frees pos in if cand < b then cand else b) cs UINT32_MAX"
  have mem: "c < n * n" if "c \<in> set cs" for c using that by (auto simp: cs_def open_cells_def)
  have cdef: "cnt c = mrv_free_candidates n mp (e_keys e ! c) (e_board e) (e_used e) (e_masks e ! c)" for c by (simp add: cnt_def)
  have kdef: "mrv_key (e_front e) c (cnt c) = key c" for c by (simp add: key_def)
  note fc = fast_cell[OF n full e mem frees_def cdef, unfolded kdef]
  have so: "sorted cs" "distinct cs" by (simp_all add: cs_def open_cells_def sorted_wrt_filter)
  have UM: "unat UINT32_MAX = 2 ^ 32 - 1" by (simp add: UINT32_MAX_def)
  have bu: "unat best = fold (\<lambda>c b. if key c * 256 + c < b then key c * 256 + c else b) cs (2 ^ 32 - 1)"
    unfolding best_def fold_min_unat UM by (intro fold_cong) (simp_all add: fc(2) cong: if_cong)
  have slow: "mrv_choose_cell n mp e = (case mrv_scan n mp e cs None of None \<Rightarrow> None
      | Some b \<Rightarrow> mrv_finish_choice n (e_front e) (map_option snd b))"
    by (simp add: mrv_choose_cell_def cells cs_def)
  have fast: "mrv_choose_cell_fast n e = (if drop_bit MRV_KEY_LOW_BITS best = 0 then None
         else if best = UINT32_MAX then mrv_finish_choice n (e_front e) None
         else (let best_pos = unat (best AND mask MRV_POS_BITS)
               in mrv_finish_choice n (e_front e) (Some (mask_count n (the (e_masks e ! best_pos)) frees, best_pos))))"
    by (simp add: mrv_choose_cell_fast_def cells frees_def[symmetric] best_def cs_def Let_def)
  have d0: "drop_bit MRV_KEY_LOW_BITS best = 0 \<longleftrightarrow> unat best < 2048"
  proof -
    have "drop_bit 11 best = 0 \<longleftrightarrow> unat (drop_bit 11 best) = 0" by (simp add: unat_eq_0)
    also have "\<dots> \<longleftrightarrow> unat best div 2048 = 0" by (simp only: drop_bit_eq_div unat_div) simp
    finally show ?thesis by (simp add: MRV_KEY_LOW_BITS_def MRV_KEY_COUNT_SHIFT_def MRV_KEY_NC_BITS_def MRV_POS_BITS_def div_eq_0_iff)
  qed
  show ?thesis
  proof (cases "cs = []")
    case True
    then have "best = UINT32_MAX" by (simp add: best_def)
    then show ?thesis using slow fast d0 True UM by simp
  next
    case False
    let ?f = "\<lambda>c. key c * 256 + c"
    have small: "?f c < 2 ^ 32 - 1" if "c \<in> set cs" for c using fc(3,4)[OF that] by simp
    have "Min (?f ` set cs) \<in> ?f ` set cs" using False by (intro Min_in) simp_all
    then obtain c where c: "c \<in> set cs" "Min (?f ` set cs) = ?f c" by auto
    have least: "?f c \<le> ?f d" if "d \<in> set cs" for d unfolding c(2)[symmetric] using that by simp
    have bc: "unat best = ?f c" unfolding bu fold_min_first[OF False] c(2) using small[OF c(1)] by simp
    have zero: "unat best < 2048 \<longleftrightarrow> (\<exists>d \<in> set cs. cnt d = 0)"
    proof
      assume "unat best < 2048"
      then have "key c < 8" using bc fc(4)[OF c(1)] by simp
      then show "\<exists>d \<in> set cs. cnt d = 0" using fc(5)[OF c(1)] c(1) by blast
    next
      assume "\<exists>d \<in> set cs. cnt d = 0"
      then obtain d where d: "d \<in> set cs" "cnt d = 0" by blast
      then have "key d < 8" "d < 256" using fc(4,5) by blast+
      then show "unat best < 2048" using bc least[OF d(1)] by simp
    qed
    show ?thesis
    proof (cases "\<exists>d \<in> set cs. cnt d = 0")
      case True
      then have "mrv_scan n mp e cs None = None" unfolding mrv_scan_dead cnt_def .
      then show ?thesis using True slow fast d0 zero by simp
    next
      case pos: False
      have "\<exists>c k m. mrv_scan n mp e cs None = Some (Some (k, m, c))
         \<and> ((k, m, c) \<in> (\<lambda>c. (key c, cnt c, c)) ` set cs \<or> None = Some (k, m, c))
         \<and> (\<forall>d \<in> set cs. key d > k \<or> key d = k \<and> c \<le> d) \<and> True"
        using mrv_scan_first[of cs cnt n mp e key None] pos so False by (auto simp: cnt_def key_def)
      then obtain c' k m where sc: "mrv_scan n mp e cs None = Some (Some (k, m, c'))"
        and c': "c' \<in> set cs" "k = key c'" "m = cnt c'" and first: "\<forall>d \<in> set cs. key d > k \<or> key d = k \<and> c' \<le> d" by auto
      have "c' = c"
      proof -
        have "key c > key c' \<or> key c = key c' \<and> c' \<le> c" using first c(1) c'(2) by blast
        moreover have "\<not> key c > key c'" using least[OF c'(1)] fc(4)[OF c(1)] fc(4)[OF c'(1)] by auto
        ultimately show ?thesis using least[OF c'(1)] by auto
      qed
      have bne: "best \<noteq> UINT32_MAX" using bc small[OF c(1)] UM by auto
      have "unat (best AND mask 8) = unat best mod 256" by (simp add: take_bit_eq_mask[symmetric] unsigned_take_bit_eq take_bit_eq_mod[where 'a = nat])
      then have bp: "unat (best AND mask MRV_POS_BITS) = c" using bc fc(4)[OF c(1)] by (simp add: MRV_POS_BITS_def)
      show ?thesis
        using slow fast d0 zero pos bne bp sc c' \<open>c' = c\<close> fc(1)[OF c(1)] by (simp add: Let_def mrv_finish_choice_def)
    qed
  qed
qed

end
