(* ===== verification/Search_Engine.thy ===== *)
theory Search_Engine
  imports Engine_Choice "HOL-Library.Signed_Division"
begin

text \<open>
  The backtracking search of a client (\<open>etii_search.c\<close>): the decision stack, the
  candidates still pending on it, their delegation to the server, and the search loop
  \<open>search_packet_backtracking_mrv\<close>. The world outside the loop (the requested state of
  the process, the clock, the hunger of the server, whether a batch is accepted) is given
  for each turn by a record; everything the loop writes outside its own variables is
  collected in the run record.
\<close>

section \<open>The decision stack\<close>

text \<open>A level: the candidates of its cell (\<open>None\<close> for a dead end), the next one to try, the
  bit of the piece placed there. A stack is the list of its levels, the top first.\<close>

record bt_level =
  l_search :: "part list option"
  l_next :: nat
  l_placed :: "nat option"
  l_x :: nat
  l_y :: nat
  l_score :: int

abbreviation level_cell :: "nat \<Rightarrow> bt_level \<Rightarrow> nat" where
  "level_cell n lvl \<equiv> cell_pos n (l_x lvl) (l_y lvl)"

definition level_pending :: "u16 list \<Rightarrow> bt_level \<Rightarrow> part list" where
  "level_pending fu lvl = (case l_search lvl of None \<Rightarrow> []
     | Some search \<Rightarrow> filter (free_piece fu) (drop (l_next lvl) search))"

definition unmark_level :: "bt_level \<Rightarrow> u16 list \<Rightarrow> u16 list" where
  "unmark_level lvl fu = (case l_placed lvl of None \<Rightarrow> fu | Some pos \<Rightarrow> set_face_used fu pos 0)"

definition mark_level :: "bt_level \<Rightarrow> u16 list \<Rightarrow> u16 list" where
  "mark_level lvl fu = (case l_placed lvl of None \<Rightarrow> fu | Some pos \<Rightarrow> set_face_used fu pos 1)"

fun count_levels :: "u16 list \<Rightarrow> bt_level list \<Rightarrow> nat" where
  "count_levels fu [] = 0"
| "count_levels fu (lvl # ls) = length (level_pending fu lvl) + count_levels (mark_level lvl fu) ls"

definition bt_count_pending :: "possibility_packet \<Rightarrow> bt_level list \<Rightarrow> nat" where
  "bt_count_pending board stack = count_levels (fold unmark_level stack (b_faceused board)) (rev stack)"

definition fill_level :: "nat \<Rightarrow> bt_level \<Rightarrow> possibility_packet \<Rightarrow> possibility_packet" where
  "fill_level n lvl p = (case l_placed lvl of None \<Rightarrow> p
     | Some pos \<Rightarrow> p\<lparr>grid := (grid p)[level_cell n lvl := 0], b_faceused := set_face_used (b_faceused p) pos 1\<rparr>)"

text \<open>Removing the piece of a level from a scratch board.\<close>

definition unplace :: "nat \<Rightarrow> bt_level \<Rightarrow> possibility_packet \<Rightarrow> possibility_packet" where
  "unplace n lvl p = (case l_placed lvl of None \<Rightarrow> p
     | Some pos \<Rightarrow> p\<lparr>grid := (grid p)[level_cell n lvl := -2], b_faceused := set_face_used (b_faceused p) pos 0\<rparr>)"

fun min_depth_levels :: "nat \<Rightarrow> possibility_packet \<Rightarrow> bt_level list \<Rightarrow> int" where
  "min_depth_levels n scratch [] = -1"
| "min_depth_levels n scratch (lvl # ls) =
     (if level_pending (b_faceused scratch) lvl \<noteq> []
      then int (possibility_placed_count n (scratch\<lparr>grid := (grid scratch)[level_cell n lvl := 0]\<rparr>))
      else min_depth_levels n (fill_level n lvl scratch) ls)"

definition bt_min_pending_depth :: "nat \<Rightarrow> possibility_packet \<Rightarrow> bt_level list \<Rightarrow> int" where
  "bt_min_pending_depth n board stack = min_depth_levels n (fold (unplace n) stack board) (rev stack)"

section \<open>Delegation\<close>

definition FORWARD_CHECK_K :: nat where "FORWARD_CHECK_K = 6"

record mat_out =
  m_out :: "possibility_packet list"
  m_solutions :: "possibility_packet list"
  m_attempts :: nat
  m_pruned :: nat

text \<open>The pending candidates of one level become packets of their own; the number is the index
  of the next candidate.\<close>

fun mat_scan ::
  "nat \<Rightarrow> map_big_array \<Rightarrow> part list \<Rightarrow> nat \<Rightarrow> possibility_packet \<Rightarrow> bt_level \<Rightarrow> part list \<Rightarrow> nat \<Rightarrow> mat_out \<Rightarrow> nat \<times> mat_out" where
  "mat_scan n mp R max_out scratch lvl [] s acc = (s, acc)"
| "mat_scan n mp R max_out scratch lvl (cand # cs) s acc =
     (if \<not> length (m_out acc) < max_out then (s, acc)
      else if p_id cand = 0 then mat_scan n mp R max_out scratch lvl cs (s + 1) acc
      else (let position = nat (p_id cand - 1) in
        if is_face_used (b_faceused scratch) position then mat_scan n mp R max_out scratch lvl cs (s + 1) acc
        else (let pkt0 = scratch\<lparr>grid := (grid scratch)[level_cell n lvl := init_id_parts n ! nat (p_id cand) ! nat (p_rotation cand)],
                             b_faceused := set_face_used (b_faceused scratch) position 1\<rparr>;
                  pkt1 = pkt0\<lparr>alloc := possibility_placed_count n pkt0 mod 2 ^ 16, min_candidats := l_score lvl\<rparr>
              in if alloc pkt1 \<ge> ETERN_PARTS n
                 then mat_scan n mp R max_out scratch lvl cs (s + 1) (acc\<lparr>m_solutions := m_solutions acc @ [pkt1]\<rparr>)
                 else (let pkt = pkt1\<lparr>checked := 0\<rparr>; acc1 = acc\<lparr>m_attempts := m_attempts acc + 1\<rparr> in
                   if \<not> fst (forward_check_next_k FORWARD_CHECK_K n mp R pkt)
                   then mat_scan n mp R max_out scratch lvl cs (s + 1) (acc1\<lparr>m_pruned := m_pruned acc1 + 1\<rparr>)
                   else mat_scan n mp R max_out scratch lvl cs (s + 1) (acc1\<lparr>m_out := m_out acc1 @ [pkt]\<rparr>)))))"

text \<open>From the top of the stack down; the result lists the new next index of each level.\<close>

fun mat_levels ::
  "nat \<Rightarrow> map_big_array \<Rightarrow> part list \<Rightarrow> nat \<Rightarrow> possibility_packet \<Rightarrow> bt_level list \<Rightarrow> mat_out \<Rightarrow> nat list \<times> mat_out" where
  "mat_levels n mp R max_out scratch [] acc = ([], acc)"
| "mat_levels n mp R max_out scratch (lvl # ls) acc =
     (if \<not> length (m_out acc) < max_out then (map l_next (lvl # ls), acc)
      else (let scratch1 = unplace n lvl scratch;
                (s, acc1) = (case l_search lvl of None \<Rightarrow> (l_next lvl, acc)
                   | Some search \<Rightarrow> mat_scan n mp R max_out scratch1 lvl (drop (l_next lvl) search) (l_next lvl) acc);
                (rest, acc2) = mat_levels n mp R max_out scratch1 ls acc1
            in (s # rest, acc2)))"

definition bt_materialize_pending ::
  "nat \<Rightarrow> map_big_array \<Rightarrow> part list \<Rightarrow> possibility_packet \<Rightarrow> bt_level list \<Rightarrow> nat \<Rightarrow> nat list \<times> mat_out" where
  "bt_materialize_pending n mp R board stack max_out =
     mat_levels n mp R max_out board stack \<lparr>m_out = [], m_solutions = [], m_attempts = 0, m_pruned = 0\<rparr>"

definition bt_delegation_quota :: "nat \<Rightarrow> int \<Rightarrow> int \<Rightarrow> int" where
  "bt_delegation_quota pending max_stock hunger =
     (if int pending > max_stock mod 2 ^ 64 then max_stock
      else if hunger \<le> 0 \<or> pending < 2 then 0
      else (let half = pending div 2 in if hunger < int half then hunger else int half))"

definition bt_should_abandon_shallow_root :: "nat \<Rightarrow> nat \<Rightarrow> int \<Rightarrow> bool" where
  "bt_should_abandon_shallow_root root_depth placed_count abandon_depth \<longleftrightarrow>
     abandon_depth > 0 \<and> int root_depth < abandon_depth \<and> int placed_count \<ge> abandon_depth"

section \<open>Trying the candidates of a level\<close>

text \<open>The switches of a search: the board side, the table, the rotations, the singleton test,
  whether delegation is allowed, the node budget, the stock limit and the abandon depth.\<close>

record bt_cfg =
  g_n :: nat
  g_map :: map_big_array
  g_rot :: "part list"
  g_scc :: bool
  g_allow :: bool
  g_budget :: int
  g_max_stock :: int
  g_abandon :: int

abbreviation g_fast :: "bt_cfg \<Rightarrow> bool" where
  "g_fast g \<equiv> bt_masks_complete (g_n g) (g_map g)"

definition bt_alive :: "bt_cfg \<Rightarrow> nat \<Rightarrow> nat \<Rightarrow> bt_engine \<Rightarrow> fc_stats \<Rightarrow> bool \<times> bt_frontier \<times> fc_stats" where
  "bt_alive g cx cy e st =
     (if g_fast g \<and> \<not> g_scc g then bt_forward_check_fast (g_n g) cx cy e st
      else bt_forward_check (g_n g) (g_scc g) (g_map g) cx cy e st)"

text \<open>The candidate loop from index \<open>s\<close> on: the next index and the bit of the piece that was
  placed, or \<open>None\<close> when no candidate is left.\<close>

fun bt_try :: "bt_cfg \<Rightarrow> nat \<Rightarrow> nat \<Rightarrow> part list \<Rightarrow> nat \<Rightarrow> bt_engine \<Rightarrow> fc_stats
   \<Rightarrow> (nat \<times> nat) option \<times> bt_engine \<times> fc_stats" where
  "bt_try g cx cy [] s e st = (None, e, st)"
| "bt_try g cx cy (q # qs) s e st =
     (if p_id q = 0 then bt_try g cx cy qs (s + 1) e st
      else (let position = nat (p_id q - 1) in
        if is_face_used (b_faceused (e_board e)) position then bt_try g cx cy qs (s + 1) e st
        else (let e1 = bt_put (g_n g) (g_map g) (init_id_parts (g_n g)) cx cy q e in
          if e_placed e1 < ETERN_PARTS (g_n g)
          then (let (alive, front, st1) = bt_alive g cx cy e1 (st\<lparr>fc_attempts := fc_attempts st + 1\<rparr>);
                    e2 = e1\<lparr>e_front := front\<rparr>
                in if \<not> alive
                   then bt_try g cx cy qs (s + 1) (bt_take (g_n g) (g_map g) cx cy position e2) (st1\<lparr>fc_pruned := fc_pruned st1 + 1\<rparr>)
                   else (Some (s + 1, position), e2, st1))
          else (Some (s + 1, position), e1, st))))"

text \<open>Going back: the piece of the top level is removed and its next candidate tried; a level
  without candidate left is popped. The empty stack is the end of the search.\<close>

fun bt_backtrack :: "bt_cfg \<Rightarrow> bt_level list \<Rightarrow> bt_engine \<Rightarrow> fc_stats \<Rightarrow> bt_level list \<times> bt_engine \<times> fc_stats" where
  "bt_backtrack g [] e st = ([], e, st)"
| "bt_backtrack g (lvl # ls) e st =
     (let e1 = (case l_placed lvl of None \<Rightarrow> e | Some pos \<Rightarrow> bt_take (g_n g) (g_map g) (l_x lvl) (l_y lvl) pos e) in
      case l_search lvl of
        None \<Rightarrow> bt_backtrack g ls e1 st
      | Some search \<Rightarrow>
          (case bt_try g (l_x lvl) (l_y lvl) (drop (l_next lvl) search) (l_next lvl) e1 st of
             (None, e2, st2) \<Rightarrow> bt_backtrack g ls e2 st2
           | (Some (s, pos), e2, st2) \<Rightarrow> (lvl\<lparr>l_next := s, l_placed := Some pos\<rparr> # ls, e2, st2)))"

section \<open>The search loop\<close>

datatype bt_core_result = BT_CORE_EXHAUSTED | BT_CORE_STOPPED | BT_CORE_BUDGET

definition REQUEST_CONTINUE :: int where "REQUEST_CONTINUE = 0"
definition REQUEST_STOP :: int where "REQUEST_STOP = 1"
definition REQUEST_PAUSE :: int where "REQUEST_PAUSE = 2"
definition REQUEST_ADMIN_PAUSE :: int where "REQUEST_ADMIN_PAUSE = 3"
definition PAUSE_POLL_SLEEP_US :: nat where "PAUSE_POLL_SLEEP_US = 10000"
definition ADMIN_PAUSE_POLL_SLEEP_US :: nat where "ADMIN_PAUSE_POLL_SLEEP_US = 500000"
definition DELEGATE_MIN_INTERVAL_MS :: int where "DELEGATE_MIN_INTERVAL_MS = 500"
definition DELEGATE_CHECK_INTERVAL_NODES :: nat where "DELEGATE_CHECK_INTERVAL_NODES = 1000000"

definition request_is_pause :: "int \<Rightarrow> nat" where
  "request_is_pause r =
     (if r = REQUEST_PAUSE then PAUSE_POLL_SLEEP_US
      else if r = REQUEST_ADMIN_PAUSE then ADMIN_PAUSE_POLL_SLEEP_US else 0)"

definition request_keeps_running :: "int \<Rightarrow> bool" where
  "request_keeps_running r \<longleftrightarrow> r \<noteq> REQUEST_STOP"

text \<open>What one turn of the loop reads outside: the request, the clock (seconds and
  nanoseconds), the hunger of the server, whether the delegation buffer can grow, and the
  answer of \<open>add_possibility\<close> to a batch (true when it is accepted).\<close>

record bt_env =
  v_request :: int
  v_now :: "int \<times> int"
  v_hunger :: int
  v_buffer :: bool
  v_accept :: "possibility_packet list \<Rightarrow> bool"

text \<open>The variables of the loop, and what it writes outside: the solutions, the batches
  accepted and those refused by the server, the counters of the thread.\<close>

record bt_run =
  r_engine :: bt_engine
  r_stack :: "bt_level list"
  r_root_depth :: nat
  r_since :: nat
  r_last :: "int \<times> int"
  r_nodes :: nat
  r_stats :: fc_stats
  r_solutions :: "possibility_packet list"
  r_sent :: "possibility_packet list"
  r_refused :: "possibility_packet list"
  r_lastfilesize :: nat
  r_lastdepth :: int
  r_fed :: nat
  r_abandoned :: nat
  r_max_result :: nat
  r_best :: "possibility_packet option"

definition run_materialized :: "mat_out \<Rightarrow> bt_run \<Rightarrow> bt_run" where
  "run_materialized m r =
     r\<lparr>r_solutions := r_solutions r @ m_solutions m,
       r_stats := (r_stats r)\<lparr>fc_attempts := fc_attempts (r_stats r) + m_attempts m, fc_pruned := fc_pruned (r_stats r) + m_pruned m\<rparr>\<rparr>"

definition bt_delegate_if_needed :: "bt_cfg \<Rightarrow> bt_env \<Rightarrow> bt_run \<Rightarrow> bt_run" where
  "bt_delegate_if_needed g v r =
     (let board = e_board (r_engine r);
          pending = bt_count_pending board (r_stack r);
          r1 = r\<lparr>r_lastfilesize := pending\<rparr>;
          hunger = v_hunger v;
          quota = bt_delegation_quota pending (g_max_stock g) hunger
      in if quota \<le> 0 then r1
         else if \<not> v_buffer v then r1
         else (let (new_next_s, m) = bt_materialize_pending (g_n g) (g_map g) (g_rot g) board (r_stack r) (nat quota);
                   r2 = run_materialized m r1
               in if m_out m = [] then r2
                  else if \<not> v_accept v (m_out m) then r2
                  else r2\<lparr>r_stack := map2 (\<lambda>lvl s. lvl\<lparr>l_next := s\<rparr>) (r_stack r) new_next_s,
                          r_sent := r_sent r2 @ m_out m,
                          r_lastfilesize := pending - length (m_out m),
                          r_fed := (if hunger > 0 then r_fed r2 + length (m_out m) else r_fed r2)\<rparr>))"

definition bt_flush_pending :: "bt_cfg \<Rightarrow> bt_env \<Rightarrow> bt_run \<Rightarrow> bt_run" where
  "bt_flush_pending g v r =
     (let board = e_board (r_engine r);
          pending = bt_count_pending board (r_stack r);
          (new_next_s, m) = bt_materialize_pending (g_n g) (g_map g) (g_rot g) board (r_stack r) pending;
          cur = board\<lparr>alloc := possibility_placed_count (g_n g) board mod 2 ^ 16, checked := 0\<rparr>;
          batch = (if alloc cur \<ge> ETERN_PARTS (g_n g) then m_out m else m_out m @ [cur]);
          r1 = run_materialized m r
      in if v_accept v batch then r1\<lparr>r_sent := r_sent r1 @ batch\<rparr> else r1\<lparr>r_refused := r_refused r1 @ batch\<rparr>)"

definition bt_abandon_shallow_root :: "bt_cfg \<Rightarrow> bt_env \<Rightarrow> bt_run \<Rightarrow> bt_run" where
  "bt_abandon_shallow_root g v r = (let r1 = bt_flush_pending g v r in r1\<lparr>r_abandoned := r_abandoned r1 + 1\<rparr>)"

definition elapsed_ms :: "int \<times> int \<Rightarrow> int \<times> int \<Rightarrow> int" where
  "elapsed_ms now before = (fst now - fst before) * 1000 + (snd now - snd before) sdiv 1000000"

text \<open>The delegation part of a turn; the flag says that the root was abandoned.\<close>

definition bt_delegation_turn :: "bt_cfg \<Rightarrow> bt_env \<Rightarrow> bt_run \<Rightarrow> bool \<times> bt_run" where
  "bt_delegation_turn g v r =
     (if \<not> g_allow g then (False, r)
      else (let r1 = r\<lparr>r_since := r_since r + 1\<rparr> in
        if r_since r1 \<noteq> DELEGATE_CHECK_INTERVAL_NODES then (False, r1)
        else (let r2 = r1\<lparr>r_since := 0\<rparr> in
          if elapsed_ms (v_now v) (r_last r2) < DELEGATE_MIN_INTERVAL_MS then (False, r2)
          else (let r3 = r2\<lparr>r_lastdepth := bt_min_pending_depth (g_n g) (e_board (r_engine r2)) (r_stack r2)\<rparr> in
            if bt_should_abandon_shallow_root (r_root_depth r3) (e_placed (r_engine r3)) (g_abandon g)
            then (True, bt_abandon_shallow_root g v r3)
            else (let r4 = bt_delegate_if_needed g v r3 in (False, r4\<lparr>r_last := v_now v\<rparr>))))))"

definition bt_choose :: "bt_cfg \<Rightarrow> bt_engine \<Rightarrow> (nat \<times> nat \<times> int) option" where
  "bt_choose g e = (if g_fast g then mrv_choose_cell_fast (g_n g) e else mrv_choose_cell (g_n g) (g_map g) e)"

definition bt_new_level :: "bt_cfg \<Rightarrow> bt_engine \<Rightarrow> bt_level" where
  "bt_new_level g e =
     (case bt_choose g e of
        Some (x, y, k) \<Rightarrow> \<lparr>l_search = Some (get_parts_bigarray_with_key (g_map g) (e_keys e ! cell_pos (g_n g) x y)),
                           l_next = 0, l_placed = None, l_x = x, l_y = y, l_score = k\<rparr>
      | None \<Rightarrow> \<lparr>l_search = None, l_next = 0, l_placed = None, l_x = 0, l_y = 0,
                 l_score = POSSIBILITY_MIN_CANDIDATS_UNKNOWN\<rparr>)"

text \<open>The end of a turn, from the label \<open>backtrack\<close> on.\<close>

definition bt_turn_end :: "bt_cfg \<Rightarrow> bt_run \<Rightarrow> (bt_core_result \<times> bt_run) + bt_run" where
  "bt_turn_end g r =
     (case bt_backtrack g (r_stack r) (r_engine r) (r_stats r) of
        ([], e, st) \<Rightarrow> Inl (BT_CORE_EXHAUSTED, r\<lparr>r_stack := [], r_engine := e, r_stats := st\<rparr>)
      | (lvl # ls, e, st) \<Rightarrow>
          (let board = (e_board e)\<lparr>alloc := e_placed e mod 2 ^ 16, min_candidats := l_score lvl\<rparr>;
               r1 = r\<lparr>r_stack := lvl # ls, r_engine := e\<lparr>e_board := board\<rparr>, r_stats := st, r_nodes := r_nodes r + 1\<rparr>;
               r2 = (if alloc board > r_max_result r1 then r1\<lparr>r_max_result := alloc board, r_best := Some board\<rparr> else r1)
           in if g_budget g > 0 \<and> int (r_nodes r2) \<ge> g_budget g then Inl (BT_CORE_BUDGET, r2) else Inr r2))"

text \<open>One turn of the loop: a result, or the state of the next turn.\<close>

definition bt_turn :: "bt_cfg \<Rightarrow> bt_env \<Rightarrow> bt_run \<Rightarrow> (bt_core_result \<times> bt_run) + bt_run" where
  "bt_turn g v r =
     (if e_placed (r_engine r) \<ge> ETERN_PARTS (g_n g)
      then (let board = (e_board (r_engine r))\<lparr>alloc := e_placed (r_engine r) mod 2 ^ 16\<rparr>
            in bt_turn_end g (r\<lparr>r_engine := (r_engine r)\<lparr>e_board := board\<rparr>, r_solutions := r_solutions r @ [board]\<rparr>))
      else if v_request v \<noteq> REQUEST_CONTINUE
      then (if request_is_pause (v_request v) > 0 then Inr r
            else Inl (BT_CORE_STOPPED, if g_allow g then bt_flush_pending g v r else r))
      else (case bt_delegation_turn g v r of
              (True, r1) \<Rightarrow> Inl (BT_CORE_EXHAUSTED, r1)
            | (False, r1) \<Rightarrow> bt_turn_end g (r1\<lparr>r_stack := bt_new_level g (r_engine r1) # r_stack r1\<rparr>)))"

definition bt_run_init :: "bt_cfg \<Rightarrow> fc_stats \<Rightarrow> nat \<Rightarrow> possibility_packet \<Rightarrow> bt_run" where
  "bt_run_init g st max_result root =
     (let e = bt_engine_init (g_n g) (g_map g) (g_rot g) root in
      \<lparr>r_engine = e, r_stack = [], r_root_depth = e_placed e, r_since = 0, r_last = (0, 0), r_nodes = 1, r_stats = st,
       r_solutions = [], r_sent = [], r_refused = [], r_lastfilesize = 0, r_lastdepth = -1, r_fed = 0, r_abandoned = 0,
       r_max_result = max_result, r_best = None\<rparr>)"

text \<open>The loop: \<open>None\<close> stands for a search that does not return; the turns read the
  environments \<open>vs k\<close>, \<open>vs (k + 1)\<close>, and so on.\<close>

partial_function (option) bt_loop :: "bt_cfg \<Rightarrow> (nat \<Rightarrow> bt_env) \<Rightarrow> nat \<Rightarrow> bt_run \<Rightarrow> (bt_core_result \<times> bt_run) option" where
  "bt_loop g vs k r = (case bt_turn g (vs k) r of Inl res \<Rightarrow> Some res | Inr r' \<Rightarrow> bt_loop g vs (k + 1) r')"

definition search_packet_backtracking_mrv ::
  "bt_cfg \<Rightarrow> fc_stats \<Rightarrow> nat \<Rightarrow> (nat \<Rightarrow> bt_env) \<Rightarrow> possibility_packet \<Rightarrow> (bt_core_result \<times> bt_run) option" where
  "search_packet_backtracking_mrv g st max_result vs root = bt_loop g vs 0 (bt_run_init g st max_result root)"

definition search_packet_backtracking ::
  "bt_cfg \<Rightarrow> fc_stats \<Rightarrow> nat \<Rightarrow> (nat \<Rightarrow> bt_env) \<Rightarrow> possibility_packet \<Rightarrow> (bool \<times> bt_run) option" where
  "search_packet_backtracking g st max_result vs root =
     map_option (\<lambda>(res, r). (res = BT_CORE_STOPPED, r))
       (search_packet_backtracking_mrv (g\<lparr>g_budget := -1, g_allow := True\<rparr>) st max_result vs root)"

definition search_packet_backtracking_budgeted ::
  "bt_cfg \<Rightarrow> fc_stats \<Rightarrow> nat \<Rightarrow> (nat \<Rightarrow> bt_env) \<Rightarrow> possibility_packet \<Rightarrow> int \<Rightarrow> (bt_core_result \<times> bt_run) option" where
  "search_packet_backtracking_budgeted g st max_result vs root node_budget =
     search_packet_backtracking_mrv (g\<lparr>g_budget := node_budget, g_allow := False\<rparr>) st max_result vs root"

definition EXPAND_PROOF_BUDGET :: int where "EXPAND_PROOF_BUDGET = 8"

text \<open>The verdict (true: proved without solution) and the nodes spent.\<close>

definition etii_expand_short_proof ::
  "bt_cfg \<Rightarrow> fc_stats \<Rightarrow> nat \<Rightarrow> (nat \<Rightarrow> bt_env) \<Rightarrow> possibility_packet \<Rightarrow> (bool \<times> nat) option" where
  "etii_expand_short_proof g st max_result vs child =
     (if int (ETERN_PARTS (g_n g)) - int (possibility_placed_count (g_n g) child) \<le> EXPAND_PROOF_BUDGET then Some (False, 0)
      else map_option (\<lambda>(res, r). (res = BT_CORE_EXHAUSTED, r_nodes r))
             (search_packet_backtracking_budgeted g st max_result vs child EXPAND_PROOF_BUDGET))"

end
