(* ===== verification/Search_Correct.thy ===== *)
theory Search_Correct
  imports Search_Engine
begin

text \<open>
  The operations of the search on its stack: trying candidates, going back, counting the
  pending candidates and turning them into packets. The work of a stack is the set of the
  completions of its pending candidates; each operation accounts for it exactly.
\<close>

section \<open>Positions with the same cells\<close>

definition same_cells :: "possibility_packet \<Rightarrow> possibility_packet \<Rightarrow> bool" where
  "same_cells p q \<longleftrightarrow> grid p = grid q \<and> b_faceused p = b_faceused q"

lemma same_cells_refl [simp]: "same_cells p p"
  by (simp add: same_cells_def)

lemma same_cells_sym: "same_cells p q \<Longrightarrow> same_cells q p"
  by (simp add: same_cells_def)

lemma same_cells_key: "same_cells p q \<Longrightarrow> cell_key n mp R p c = cell_key n mp R q c"
  by (simp add: same_cells_def cell_key_def what_search_in_grid_to_key_def grid_at_def)

lemma same_cells_ok:
  "same_cells p q \<Longrightarrow> board_ok n R p = board_ok n R q" "same_cells p q \<Longrightarrow> marks_ok n R p = marks_ok n R q"
  by (simp_all add: same_cells_def board_ok_def marks_ok_def)

lemma same_cells_candidates: "same_cells p q \<Longrightarrow> candidates n mp R p c = candidates n mp R q c"
  using same_cells_key[of p q n mp R c] by (simp add: candidates_def same_cells_def)

lemma same_cells_count: "same_cells p q \<Longrightarrow> possibility_placed_count n p = possibility_placed_count n q"
  by (simp add: same_cells_def possibility_placed_count_def grid_at_def)

lemma same_cells_place: "same_cells p q \<Longrightarrow> same_cells (place n c r p) (place n c r q)"
  by (simp add: same_cells_def place_fields)

lemma same_cells_sides: "same_cells p q \<Longrightarrow> constrained_sides n p x y = constrained_sides n q x y"
  by (simp add: same_cells_def constrained_sides_def grid_at_def)

lemma same_cells_engine:
  assumes "same_cells p q" shows "engine_at n mp R p e \<longleftrightarrow> engine_at n mp R q e"
proof -
  have "bt_init_constraints n R af p = bt_init_constraints n R af q" for af
    using assms by (simp add: same_cells_def bt_init_constraints_def what_search_in_grid_to_key_def grid_at_def)
  moreover have "frontier_sync n p f \<longleftrightarrow> frontier_sync n q f" for f
    using assms same_cells_sides[OF assms] by (simp add: frontier_sync_def same_cells_def)
  ultimately show ?thesis using assms same_cells_count[OF assms, of n] by (simp add: engine_at_def same_cells_def)
qed

lemma engine_board: "engine_at n mp R p e \<Longrightarrow> same_cells (e_board e) p"
  by (simp add: engine_at_def same_cells_def)

lemma engine_relabel:
  "engine_at n mp R p (e\<lparr>e_board := (e_board e)\<lparr>alloc := k, min_candidats := m\<rparr>\<rparr>) = engine_at n mp R p e"
  "engine_at n mp R p (e\<lparr>e_board := (e_board e)\<lparr>alloc := k\<rparr>\<rparr>) = engine_at n mp R p e"
  by (simp_all add: engine_at_def)

section \<open>Trying candidates\<close>

definition cfg_ok :: "bt_cfg \<Rightarrow> bool" where
  "cfg_ok g \<longleftrightarrow> rotation_table (g_n g) (g_rot g) \<and> (\<exists>a b. g_map g = prepare_map_part (g_rot g) a b)"

abbreviation at :: "bt_cfg \<Rightarrow> possibility_packet \<Rightarrow> bt_engine \<Rightarrow> bool" where
  "at g \<equiv> engine_at (g_n g) (g_map g) (g_rot g)"

abbreviation compl :: "bt_cfg \<Rightarrow> possibility_packet \<Rightarrow> int list set" where
  "compl g p \<equiv> completions (g_n g) (g_rot g) (grid p)"

abbreviation good :: "bt_cfg \<Rightarrow> possibility_packet \<Rightarrow> bool" where
  "good g \<equiv> board_ok (g_n g) (g_rot g)"

lemma alive_spec:
  assumes g: "cfg_ok g" and e: "at g p e" and p: "good g p" and c: "cx < g_n g" "cy < g_n g"
    and r: "bt_alive g cx cy e st = (alive, front, st')"
  shows "at g p (e\<lparr>e_front := front\<rparr>)" and "\<not> alive \<Longrightarrow> compl g p = {}"
proof -
  obtain a b where R: "rotation_table (g_n g) (g_rot g)" and mp: "g_map g = prepare_map_part (g_rot g) a b"
    using g by (auto simp: cfg_ok_def)
  obtain scc where fc: "bt_forward_check (g_n g) scc (g_map g) cx cy e st = (alive, front, st')"
    using r forward_check_fast_eq[OF _ e c] by (cases "g_fast g \<and> \<not> g_scc g") (auto simp: bt_alive_def)
  have fr: "frontier_is (g_n g) (\<lambda>d. grid p ! d = -2) (\<lambda>d. constrained_sides (g_n g) p (d div g_n g) (d mod g_n g)) (e_front e)"
    using e by (simp add: engine_at_def frontier_sync_def)
  have "\<forall>(x, y) \<in> set (bt_neighbours (g_n g) cx cy). x < g_n g \<and> y < g_n g" using c by (auto simp: set_bt_neighbours)
  from fc_loop_frontier[OF fr c this] have "frontier_sync (g_n g) p front"
    using fc by (metis bt_forward_check_def frontier_sync_def fst_conv snd_conv)
  then show "at g p (e\<lparr>e_front := front\<rparr>)" using e by (simp add: engine_at_def)
  show "compl g p = {}" if "\<not> alive"
    using forward_check_refusal[OF R mp e board_marks[OF p] c, of scc st] fc that by simp
qed

text \<open>Either a candidate is placed, or none is left; the candidates passed over have no
  completion.\<close>

definition try_post ::
  "bt_cfg \<Rightarrow> possibility_packet \<Rightarrow> nat \<Rightarrow> part list \<Rightarrow> nat \<Rightarrow> (nat \<times> nat) option \<Rightarrow> bt_engine \<Rightarrow> bool" where
  "try_post g p c qs s res e' \<longleftrightarrow> (case res of
      None \<Rightarrow> at g p e' \<and> (\<forall>q \<in> set qs. free_piece (b_faceused p) q \<longrightarrow> compl g (place (g_n g) c q p) = {})
    | Some (s', pos) \<Rightarrow> \<exists>ds q rest. qs = ds @ q # rest \<and> s' = s + length ds + 1 \<and> pos = nat (p_id q - 1)
        \<and> free_piece (b_faceused p) q \<and> at g (place (g_n g) c q p) e'
        \<and> (\<forall>r \<in> set ds. free_piece (b_faceused p) r \<longrightarrow> compl g (place (g_n g) c r p) = {}))"

lemma try_post_skip:
  assumes h: "try_post g p c qs (s + 1) res e'" and dead: "free_piece (b_faceused p) q \<Longrightarrow> compl g (place (g_n g) c q p) = {}"
  shows "try_post g p c (q # qs) s res e'"
proof (cases res)
  case None
  then show ?thesis using h dead by (simp add: try_post_def)
next
  case (Some sp)
  obtain s' pos where sp: "sp = (s', pos)" by fastforce
  obtain ds q' rest where d: "qs = ds @ q' # rest" "s' = (s + 1) + length ds + 1" "pos = nat (p_id q' - 1)"
    "free_piece (b_faceused p) q'" "at g (place (g_n g) c q' p) e'"
    "\<forall>r \<in> set ds. free_piece (b_faceused p) r \<longrightarrow> compl g (place (g_n g) c r p) = {}"
    using h Some sp by (auto simp: try_post_def)
  have "q # qs = (q # ds) @ q' # rest" "s' = s + length (q # ds) + 1" using d by simp_all
  moreover have "\<forall>r \<in> set (q # ds). free_piece (b_faceused p) r \<longrightarrow> compl g (place (g_n g) c r p) = {}" using d dead by simp
  ultimately show ?thesis using d(3-5) Some sp unfolding try_post_def by (simp only: option.case prod.case) blast
qed

lemma try_post_placed:
  assumes "free_piece (b_faceused p) q" "at g (place (g_n g) c q p) e'"
  shows "try_post g p c (q # qs) s (Some (s + 1, nat (p_id q - 1))) e'"
  using assms unfolding try_post_def option.case prod.case by (intro exI[of _ "[]"] exI[of _ q] exI[of _ qs]) simp

lemma try_spec:
  assumes g: "cfg_ok g" and p: "good g p" and c: "cx < g_n g" "cy < g_n g" "grid p ! cell_pos (g_n g) cx cy = -2"
    and "at g p e" and "set qs \<subseteq> set (bucket (g_n g) (g_map g) (g_rot g) p (cell_pos (g_n g) cx cy))"
    and "bt_try g cx cy qs s e st = (res, e', st')"
  shows "try_post g p (cell_pos (g_n g) cx cy) qs s res e'"
  using assms(6-)
proof (induction qs arbitrary: s e st)
  case Nil
  then show ?case by (auto simp: try_post_def)
next
  case (Cons q qs)
  let ?c = "cell_pos (g_n g) cx cy" and ?n = "g_n g" and ?mp = "g_map g"
  obtain a b where R: "rotation_table ?n (g_rot g)" and mp: "?mp = prepare_map_part (g_rot g) a b"
    using g by (auto simp: cfg_ok_def)
  have c': "?c < ?n * ?n" using c by (simp add: cell_pos_less)
  have eb: "b_faceused (e_board e) = b_faceused p" using Cons.prems(1) by (simp add: engine_at_def)
  have sub: "set qs \<subseteq> set (bucket ?n ?mp (g_rot g) p ?c)" using Cons.prems(2) by simp
  show ?case
  proof (cases "free_piece (b_faceused p) q")
    case False
    then have "bt_try g cx cy qs (s + 1) e st = (res, e', st')"
      using Cons.prems(3) by (cases "p_id q = 0") (auto simp: free_piece_def eb Let_def)
    from try_post_skip[OF Cons.IH[OF Cons.prems(1) sub this]] False show ?thesis by blast
  next
    case True
    have q: "q \<in> set (candidates ?n ?mp (g_rot g) p ?c)" using True Cons.prems(2) by (simp add: candidates_def)
    note cd = candidateD[OF R mp marks_grid[OF board_marks[OF p]] c' q]
    let ?e1 = "bt_put ?n ?mp (init_id_parts ?n) cx cy q e" and ?pos = "nat (p_id q - 1)"
    note e1 = engine_put_at[OF R Cons.prems(1) board_marks[OF p] c cd(1,2)]
    have free: "p_id q \<noteq> 0" "\<not> is_face_used (b_faceused (e_board e)) ?pos" using True by (simp_all add: free_piece_def eb)
    show ?thesis
    proof (cases "e_placed ?e1 < ETERN_PARTS ?n")
      case False
      then have "res = Some (s + 1, ?pos)" "e' = ?e1" using Cons.prems(3) free by (auto simp: Let_def)
      then show ?thesis using try_post_placed[OF True e1] by simp
    next
      case lt: True
      obtain alive front st1 where al: "bt_alive g cx cy ?e1 (st\<lparr>fc_attempts := fc_attempts st + 1\<rparr>) = (alive, front, st1)"
        by (cases "bt_alive g cx cy ?e1 (st\<lparr>fc_attempts := fc_attempts st + 1\<rparr>)")
      note a = alive_spec[OF g e1 place_board_ok[OF R mp p c' c(3) q] c(1,2) al]
      show ?thesis
      proof (cases alive)
        case alive: True
        then have "res = Some (s + 1, ?pos)" "e' = ?e1\<lparr>e_front := front\<rparr>" using Cons.prems(3) free lt al by (auto simp: Let_def)
        then show ?thesis using try_post_placed[OF True a(1)] by simp
      next
        case dead: False
        let ?e2 = "bt_take ?n ?mp cx cy ?pos (?e1\<lparr>e_front := front\<rparr>)"
        have e2: "at g p ?e2" by (rule engine_take_at[OF R a(1) board_marks[OF p] c cd(1-3)])
        have "bt_try g cx cy qs (s + 1) ?e2 (st1\<lparr>fc_pruned := fc_pruned st1 + 1\<rparr>) = (res, e', st')"
          using Cons.prems(3) free lt al dead by (simp add: Let_def)
        from try_post_skip[OF Cons.IH[OF e2 sub this]] a(2)[OF dead] show ?thesis by blast
      qed
    qed
  qed
qed

section \<open>The work pending on a stack\<close>

text \<open>Every level stands on a good board with its cell empty, holds the compartment of that cell
  and, when a piece is placed, a candidate of it.\<close>

definition level_ok :: "bt_cfg \<Rightarrow> bt_level \<Rightarrow> possibility_packet \<Rightarrow> possibility_packet \<Rightarrow> bool" where
  "level_ok g lvl base p \<longleftrightarrow> l_x lvl < g_n g \<and> l_y lvl < g_n g \<and> good g base
     \<and> (case l_search lvl of None \<Rightarrow> l_placed lvl = None
        | Some search \<Rightarrow> grid base ! level_cell (g_n g) lvl = -2
            \<and> search = bucket (g_n g) (g_map g) (g_rot g) base (level_cell (g_n g) lvl)
            \<and> (case l_placed lvl of None \<Rightarrow> True
               | Some pos \<Rightarrow> \<exists>q \<in> set (candidates (g_n g) (g_map g) (g_rot g) base (level_cell (g_n g) lvl)).
                   pos = nat (p_id q - 1) \<and> same_cells p (place (g_n g) (level_cell (g_n g) lvl) q base)))"

fun stack_ok :: "bt_cfg \<Rightarrow> bt_level list \<Rightarrow> possibility_packet \<Rightarrow> bool" where
  "stack_ok g [] p \<longleftrightarrow> good g p"
| "stack_ok g (lvl # ls) p \<longleftrightarrow> level_ok g lvl (unplace (g_n g) lvl p) p \<and> stack_ok g ls (unplace (g_n g) lvl p)"

definition level_work :: "bt_cfg \<Rightarrow> bt_level \<Rightarrow> possibility_packet \<Rightarrow> int list set" where
  "level_work g lvl base = (\<Union>q \<in> set (level_pending (b_faceused base) lvl). compl g (place (g_n g) (level_cell (g_n g) lvl) q base))"

fun stack_work :: "bt_cfg \<Rightarrow> bt_level list \<Rightarrow> possibility_packet \<Rightarrow> int list set" where
  "stack_work g [] p = {}"
| "stack_work g (lvl # ls) p = level_work g lvl (unplace (g_n g) lvl p) \<union> stack_work g ls (unplace (g_n g) lvl p)"

definition all_placed :: "bt_level list \<Rightarrow> bool" where
  "all_placed ls \<longleftrightarrow> (\<forall>lvl \<in> set ls. l_placed lvl \<noteq> None)"

lemma unplace_same: "same_cells p q \<Longrightarrow> same_cells (unplace n lvl p) (unplace n lvl q)"
  by (auto simp: same_cells_def unplace_def split: option.split)

lemma level_ok_same:
  assumes "same_cells b b'" "same_cells p p'" "level_ok g lvl b p" shows "level_ok g lvl b' p'"
proof -
  have "bucket (g_n g) (g_map g) (g_rot g) b c = bucket (g_n g) (g_map g) (g_rot g) b' c" for c
    using same_cells_key[OF assms(1)] by simp
  moreover have "same_cells p q \<longleftrightarrow> same_cells p' q" for q using assms(2) by (simp add: same_cells_def)
  moreover have "same_cells q (place n c r b) \<longleftrightarrow> same_cells q (place n c r b')" for q n c r
    using assms(1) by (simp add: same_cells_def place_fields)
  ultimately show ?thesis
    using assms same_cells_ok(1)[OF assms(1)] same_cells_candidates[OF assms(1)]
    by (simp add: level_ok_def same_cells_def split: option.splits)
qed

lemma stack_ok_same: "same_cells p q \<Longrightarrow> stack_ok g ls p \<Longrightarrow> stack_ok g ls q"
proof (induction ls arbitrary: p q)
  case (Cons lvl ls)
  then show ?case using unplace_same[OF Cons.prems(1)] level_ok_same by (metis stack_ok.simps(2))
qed (simp add: same_cells_ok)

lemma level_work_same: "same_cells p q \<Longrightarrow> level_work g lvl p = level_work g lvl q"
  by (simp add: level_work_def same_cells_def place_fields)

lemma stack_work_same: "same_cells p q \<Longrightarrow> stack_work g ls p = stack_work g ls q"
proof (induction ls arbitrary: p q)
  case (Cons lvl ls)
  note u = unplace_same[OF Cons.prems, of "g_n g" lvl]
  show ?case using Cons.IH[OF u] level_work_same[OF u, of g lvl] by simp
qed simp

lemma unplace_none: "l_placed lvl = None \<Longrightarrow> unplace n lvl p = p"
  by (simp add: unplace_def)

text \<open>Removing the piece of a level gives back the board below it.\<close>

lemma unplace_place:
  assumes "good g base" "c < g_n g * g_n g" "grid base ! c = -2" "c = level_cell (g_n g) lvl"
    and "rotation_table (g_n g) (g_rot g)" "q \<in> set (g_rot g)" "p_id q \<noteq> 0" "\<not> is_face_used (b_faceused base) (nat (p_id q - 1))"
    and "l_placed lvl = Some (nat (p_id q - 1))" "same_cells p (place (g_n g) c q base)"
  shows "same_cells (unplace (g_n g) lvl p) base"
proof -
  have len: "length (b_faceused base) = FACES_USED_SIZE (g_n g)" using assms(1) by (simp add: board_ok_def marks_ok_def)
  note b = table_piece_bit[OF assms(5-7) len]
  have "set_face_used (set_face_used (b_faceused base) (nat (p_id q - 1)) 1) (nat (p_id q - 1)) 0 = b_faceused base"
    using halfword.del_ins_restores[of "nat (p_id q - 1)" "b_faceused base"] b(1) assms(8) len by simp
  moreover have "(grid base)[c := -2] = grid base" using assms(3) list_update_id[of "grid base" c] by simp
  ultimately show ?thesis using assms(4,9,10) by (simp add: unplace_def same_cells_def place_fields)
qed

lemma engine_unplace:
  assumes g: "cfg_ok g" and ok: "level_ok g lvl (unplace (g_n g) lvl p) p" and e: "at g p e"
  shows "at g (unplace (g_n g) lvl p)
     (case l_placed lvl of None \<Rightarrow> e | Some pos \<Rightarrow> bt_take (g_n g) (g_map g) (l_x lvl) (l_y lvl) pos e)"
proof (cases "l_placed lvl")
  case None
  then show ?thesis using e by (simp add: unplace_none)
next
  case (Some pos)
  let ?b = "unplace (g_n g) lvl p" and ?c = "level_cell (g_n g) lvl"
  obtain a b where R: "rotation_table (g_n g) (g_rot g)" and mp: "g_map g = prepare_map_part (g_rot g) a b"
    using g by (auto simp: cfg_ok_def)
  obtain search q where h: "l_x lvl < g_n g" "l_y lvl < g_n g" "good g ?b" "grid ?b ! ?c = -2"
    "q \<in> set (candidates (g_n g) (g_map g) (g_rot g) ?b ?c)" "pos = nat (p_id q - 1)" "same_cells p (place (g_n g) ?c q ?b)"
    using ok Some by (auto simp: level_ok_def split: option.splits)
  have c: "?c < g_n g * g_n g" using h by (simp add: cell_pos_less)
  note cd = candidateD[OF R mp marks_grid[OF board_marks[OF h(3)]] c h(5)]
  have "at g (place (g_n g) ?c q ?b) e" using e same_cells_engine[OF h(7)] by simp
  from engine_take_at[OF R this board_marks[OF h(3)] h(1,2,4) cd(1-3)] show ?thesis using Some h(6) by simp
qed

definition stack_root :: "bt_cfg \<Rightarrow> bt_level list \<Rightarrow> possibility_packet \<Rightarrow> possibility_packet" where
  "stack_root g ls p = fold (unplace (g_n g)) ls p"

lemma stack_root_simps [simp]:
  "stack_root g [] p = p" "stack_root g (lvl # ls) p = stack_root g ls (unplace (g_n g) lvl p)"
  by (simp_all add: stack_root_def)

lemma stack_root_same: "same_cells p q \<Longrightarrow> same_cells (stack_root g ls p) (stack_root g ls q)"
  by (induction ls arbitrary: p q) (simp_all add: unplace_same)

lemma same_cells_trans: "same_cells p q \<Longrightarrow> same_cells q r \<Longrightarrow> same_cells p r"
  by (simp add: same_cells_def)

text \<open>A level whose next free candidate \<open>q\<close> has been placed.\<close>

lemma level_advance:
  assumes g: "cfg_ok g" and ok: "level_ok g lvl base p" and se: "l_search lvl = Some search"
    and d: "drop (l_next lvl) search = ds @ q # rest" and q: "free_piece (b_faceused base) q"
    and lvl': "lvl' = lvl\<lparr>l_next := l_next lvl + length ds + 1, l_placed := Some (nat (p_id q - 1))\<rparr>"
    and p': "p' = place (g_n g) (level_cell (g_n g) lvl) q base"
  shows "same_cells (unplace (g_n g) lvl' p') base" and "level_ok g lvl' base p'"
    and "level_pending (b_faceused base) lvl = filter (free_piece (b_faceused base)) ds @ q # level_pending (b_faceused base) lvl'"
proof -
  let ?c = "level_cell (g_n g) lvl"
  obtain a b where R: "rotation_table (g_n g) (g_rot g)" and mp: "g_map g = prepare_map_part (g_rot g) a b"
    using g by (auto simp: cfg_ok_def)
  have h: "l_x lvl < g_n g" "l_y lvl < g_n g" "good g base" "grid base ! ?c = -2"
    "search = bucket (g_n g) (g_map g) (g_rot g) base ?c" using ok se by (auto simp: level_ok_def)
  have c: "?c < g_n g * g_n g" using h by (simp add: cell_pos_less)
  have "q \<in> set search" using d by (metis in_set_conv_decomp in_set_dropD)
  then have qc: "q \<in> set (candidates (g_n g) (g_map g) (g_rot g) base ?c)" using q h(5) by (simp add: candidates_def)
  note cd = candidateD[OF R mp marks_grid[OF board_marks[OF h(3)]] c qc]
  show "same_cells (unplace (g_n g) lvl' p') base"
    by (rule unplace_place[OF h(3) c h(4) _ R cd(1-3)]) (simp_all add: lvl' p')
  show "level_ok g lvl' base p'" using h se qc by (auto simp: level_ok_def lvl' p')
  have "drop (l_next lvl + length ds + 1) search = rest" using d by (metis add.commute add.left_commute drop_drop append_eq_conv_conj drop_Suc_Cons drop0 plus_1_eq_Suc)
  then show "level_pending (b_faceused base) lvl = filter (free_piece (b_faceused base)) ds @ q # level_pending (b_faceused base) lvl'"
    using d q se by (simp add: level_pending_def lvl')
qed

lemma level_work_advance:
  assumes "level_pending (b_faceused base) lvl = filter (free_piece (b_faceused base)) ds @ q # level_pending (b_faceused base) lvl'"
    and "\<forall>r \<in> set ds. free_piece (b_faceused base) r \<longrightarrow> compl g (place (g_n g) (level_cell (g_n g) lvl) r base) = {}"
    and "level_cell (g_n g) lvl' = level_cell (g_n g) lvl"
  shows "level_work g lvl base = compl g (place (g_n g) (level_cell (g_n g) lvl) q base) \<union> level_work g lvl' base"
  using assms(2) unfolding level_work_def assms(1,3) by auto

definition back_post :: "bt_cfg \<Rightarrow> bt_level list \<Rightarrow> possibility_packet \<Rightarrow> bt_level list \<Rightarrow> bt_engine \<Rightarrow> bool" where
  "back_post g stack p stack' e' \<longleftrightarrow> (case stack' of
      [] \<Rightarrow> stack_work g stack p = {}
    | lvl' # ls' \<Rightarrow> \<exists>p'. at g p' e' \<and> stack_ok g stack' p' \<and> l_placed lvl' \<noteq> None \<and> length stack' \<le> length stack
        \<and> (all_placed (tl stack) \<longrightarrow> all_placed stack') \<and> same_cells (stack_root g stack' p') (stack_root g stack p)
        \<and> stack_work g stack p = compl g p' \<union> stack_work g stack' p')"

lemma back_post_pop:
  assumes "back_post g ls (unplace (g_n g) lvl p) stack' e'" "level_work g lvl (unplace (g_n g) lvl p) = {}"
  shows "back_post g (lvl # ls) p stack' e'"
proof (cases stack')
  case Nil
  then show ?thesis using assms by (simp add: back_post_def)
next
  case (Cons l ls')
  have "all_placed ls \<Longrightarrow> all_placed (tl ls)" by (cases ls) (auto simp: all_placed_def)
  then show ?thesis using assms Cons by (fastforce simp: back_post_def)
qed

lemma backtrack_spec:
  assumes g: "cfg_ok g"
  shows "stack_ok g stack p \<Longrightarrow> at g p e \<Longrightarrow> bt_backtrack g stack e st = (stack', e', st') \<Longrightarrow> back_post g stack p stack' e'"
proof (induction stack arbitrary: p e st)
  case Nil
  then show ?case by (auto simp: back_post_def)
next
  case (Cons lvl ls)
  let ?b = "unplace (g_n g) lvl p" and ?c = "level_cell (g_n g) lvl"
  let ?e1 = "case l_placed lvl of None \<Rightarrow> e | Some pos \<Rightarrow> bt_take (g_n g) (g_map g) (l_x lvl) (l_y lvl) pos e"
  have ok: "level_ok g lvl ?b p" and rest: "stack_ok g ls ?b" using Cons.prems(1) by simp_all
  have e1: "at g ?b ?e1" by (rule engine_unplace[OF g ok Cons.prems(2)])
  have b: "good g ?b" and xy: "l_x lvl < g_n g" "l_y lvl < g_n g" using ok by (simp_all add: level_ok_def)
  show ?case
  proof (cases "l_search lvl")
    case None
    then have "bt_backtrack g ls ?e1 st = (stack', e', st')" using Cons.prems(3) by (simp add: Let_def)
    from Cons.IH[OF rest e1 this] show ?thesis
      using None by (intro back_post_pop) (simp_all add: level_work_def level_pending_def)
  next
    case (Some search)
    obtain res e2 st2 where tr: "bt_try g (l_x lvl) (l_y lvl) (drop (l_next lvl) search) (l_next lvl) ?e1 st = (res, e2, st2)"
      by (cases "bt_try g (l_x lvl) (l_y lvl) (drop (l_next lvl) search) (l_next lvl) ?e1 st")
    have h: "grid ?b ! ?c = -2" "search = bucket (g_n g) (g_map g) (g_rot g) ?b ?c"
      using ok Some by (auto simp: level_ok_def)
    have sub: "set (drop (l_next lvl) search) \<subseteq> set (bucket (g_n g) (g_map g) (g_rot g) ?b ?c)" using h(2) set_drop_subset by fastforce
    note tp = try_spec[OF g b xy h(1) e1 sub tr]
    show ?thesis
    proof (cases res)
      case None
      then have "bt_backtrack g ls e2 st2 = (stack', e', st')" using Cons.prems(3) Some tr by (simp add: Let_def)
      moreover have "at g ?b e2" "level_work g lvl ?b = {}"
        using tp None Some by (auto simp: try_post_def level_work_def level_pending_def)
      ultimately show ?thesis using Cons.IH[OF rest] by (intro back_post_pop) simp_all
    next
      case (Some sp)
      obtain s pos where sp: "sp = (s, pos)" by fastforce
      obtain ds q r where d: "drop (l_next lvl) search = ds @ q # r" "s = l_next lvl + length ds + 1" "pos = nat (p_id q - 1)"
        "free_piece (b_faceused ?b) q" "at g (place (g_n g) ?c q ?b) e2"
        "\<forall>r \<in> set ds. free_piece (b_faceused ?b) r \<longrightarrow> compl g (place (g_n g) ?c r ?b) = {}"
        using tp Some sp by (auto simp: try_post_def)
      define lvl' where "lvl' = lvl\<lparr>l_next := l_next lvl + length ds + 1, l_placed := Some (nat (p_id q - 1))\<rparr>"
      define p' where "p' = place (g_n g) ?c q ?b"
      note adv = level_advance[OF g ok \<open>l_search lvl = Some search\<close> d(1,4) lvl'_def p'_def]
      have st: "stack' = lvl' # ls" "e' = e2"
        using Cons.prems(3) \<open>l_search lvl = Some search\<close> tr Some sp d(2,3) by (auto simp: Let_def lvl'_def)
      have sc: "same_cells ?b (unplace (g_n g) lvl' p')" using adv(1) by (rule same_cells_sym)
      have "stack_ok g (lvl' # ls) p'"
        using level_ok_same[OF sc same_cells_refl adv(2)] stack_ok_same[OF sc rest] by simp
      moreover have "stack_work g (lvl # ls) p = compl g p' \<union> stack_work g (lvl' # ls) p'"
        using level_work_advance[OF adv(3) d(6)] level_work_same[OF sc, of g lvl'] stack_work_same[OF sc, of g ls]
        by (simp add: lvl'_def p'_def Un_assoc)
      moreover have "same_cells (stack_root g (lvl' # ls) p') (stack_root g (lvl # ls) p)"
        using stack_root_same[OF adv(1)] by simp
      moreover have "l_placed lvl' \<noteq> None" by (simp add: lvl'_def)
      moreover have "all_placed ls \<Longrightarrow> all_placed (lvl' # ls)" by (simp add: all_placed_def lvl'_def)
      ultimately show ?thesis using d(5) unfolding st back_post_def p'_def[symmetric] by auto
    qed
  qed
qed

section \<open>Handing work over\<close>

definition out_work :: "bt_cfg \<Rightarrow> mat_out \<Rightarrow> int list set" where
  "out_work g m = (\<Union>p \<in> set (m_out m). compl g p) \<union> grid ` set (m_solutions m)"

lemma full_board:
  assumes "length (grid p) = n * n" "n * n \<le> possibility_placed_count n p"
  shows "\<forall>c < n * n. grid p ! c \<noteq> -2"
proof -
  have "length (filter (\<lambda>v. v \<noteq> -2) (grid p)) = length (grid p)"
    using assms placed_count_filter[OF assms(1)] length_filter_le[of "\<lambda>v. v \<noteq> -2" "grid p"] by simp
  then have "v \<noteq> -2" if "v \<in> set (grid p)" for v
    using length_filter_less[OF that, of "\<lambda>v. v \<noteq> -2"] by auto
  then show ?thesis using assms(1) nth_mem[of _ "grid p"] by metis
qed

lemma full_compl:
  assumes "good g p" "g_n g * g_n g \<le> possibility_placed_count (g_n g) p"
  shows "compl g p = {grid p}"
proof -
  have "length (grid p) = g_n g * g_n g" using assms(1) by (simp add: board_ok_def marks_ok_def grid_ok_def)
  from full_board_completions[OF full_board_solution[OF assms(1) full_board[OF this assms(2)]]] show ?thesis .
qed

lemma small_count:
  assumes "cfg_ok g" "good g p"
  shows "possibility_placed_count (g_n g) p mod 2 ^ 16 = possibility_placed_count (g_n g) p"
proof -
  have n: "g_n g \<le> 16" using assms(1) by (simp add: cfg_ok_def rotation_table_def)
  have "possibility_placed_count (g_n g) p \<le> g_n g * g_n g"
    using assms(2) by (intro placed_count_le) (simp add: board_ok_def marks_ok_def grid_ok_def)
  also have "\<dots> \<le> 16 * 16" using n by (intro mult_mono) auto
  finally show ?thesis by simp
qed

definition scan_post ::
  "bt_cfg \<Rightarrow> nat \<Rightarrow> possibility_packet \<Rightarrow> nat \<Rightarrow> part list \<Rightarrow> nat \<Rightarrow> mat_out \<Rightarrow> nat \<Rightarrow> mat_out \<Rightarrow> bool" where
  "scan_post g max_out base c cs s acc s' acc' \<longleftrightarrow> (\<exists>ds rest. cs = ds @ rest \<and> s' = s + length ds
     \<and> out_work g acc' = out_work g acc \<union> (\<Union>q \<in> set (filter (free_piece (b_faceused base)) ds). compl g (place (g_n g) c q base))
     \<and> length (m_out acc') \<le> length (m_out acc) + length (filter (free_piece (b_faceused base)) ds)
     \<and> length (m_out acc) \<le> length (m_out acc') \<and> (rest \<noteq> [] \<longrightarrow> max_out \<le> length (m_out acc')))"

lemma scan_post_step:
  assumes "scan_post g max_out base c cs (s + 1) acc1 s' acc'"
    and "out_work g acc1 = out_work g acc \<union> (if free_piece (b_faceused base) q then compl g (place (g_n g) c q base) else {})"
    and "length (m_out acc1) \<le> length (m_out acc) + (if free_piece (b_faceused base) q then 1 else 0)"
    and "length (m_out acc) \<le> length (m_out acc1)"
  shows "scan_post g max_out base c (q # cs) s acc s' acc'"
proof -
  obtain ds rest where d: "cs = ds @ rest" "s' = (s + 1) + length ds"
     "out_work g acc' = out_work g acc1 \<union> (\<Union>q \<in> set (filter (free_piece (b_faceused base)) ds). compl g (place (g_n g) c q base))"
     "length (m_out acc') \<le> length (m_out acc1) + length (filter (free_piece (b_faceused base)) ds)"
     "length (m_out acc1) \<le> length (m_out acc')" "rest \<noteq> [] \<longrightarrow> max_out \<le> length (m_out acc')" using assms(1) by (auto simp: scan_post_def)
  have "q # cs = (q # ds) @ rest" "s' = s + length (q # ds)" using d by simp_all
  moreover have "out_work g acc' = out_work g acc \<union> (\<Union>r \<in> set (filter (free_piece (b_faceused base)) (q # ds)). compl g (place (g_n g) c r base))"
    using d(3) assms(2) by auto
  moreover have "length (m_out acc') \<le> length (m_out acc) + length (filter (free_piece (b_faceused base)) (q # ds))"
    using d(4) assms(3) by (simp split: if_splits)
  moreover have "length (m_out acc) \<le> length (m_out acc')" using d(5) assms(4) by simp
  ultimately show ?thesis using d(6) unfolding scan_post_def by blast
qed

lemma mat_scan_spec:
  assumes g: "cfg_ok g" and n: "ETERN_SIZE_supported (g_n g)" and b: "good g base"
    and xy: "l_x lvl < g_n g" "l_y lvl < g_n g" and e: "grid base ! level_cell (g_n g) lvl = -2"
    and "set cs \<subseteq> set (bucket (g_n g) (g_map g) (g_rot g) base (level_cell (g_n g) lvl))"
    and "mat_scan (g_n g) (g_map g) (g_rot g) max_out base lvl cs s acc = (s', acc')"
  shows "scan_post g max_out base (level_cell (g_n g) lvl) cs s acc s' acc'"
  using assms(7-)
proof (induction cs arbitrary: s acc)
  case Nil
  then show ?case by (simp add: scan_post_def)
next
  case (Cons q cs)
  let ?c = "level_cell (g_n g) lvl" and ?n = "g_n g" and ?mp = "g_map g" and ?R = "g_rot g"
  obtain a b' where R: "rotation_table ?n ?R" and mp: "?mp = prepare_map_part ?R a b'"
    using g by (auto simp: cfg_ok_def)
  have c: "?c < ?n * ?n" using xy by (simp add: cell_pos_less)
  have sub: "set cs \<subseteq> set (bucket ?n ?mp ?R base ?c)" using Cons.prems(1) by simp
  show ?case
  proof (cases "length (m_out acc) < max_out")
    case False
    then have "s' = s" "acc' = acc" using Cons.prems(2) by simp_all
    then show ?thesis using False unfolding scan_post_def by (intro exI[of _ "[]"] exI[of _ "q # cs"]) simp
  next
    case room: True
    show ?thesis
    proof (cases "free_piece (b_faceused base) q")
      case False
      then have "mat_scan ?n ?mp ?R max_out base lvl cs (s + 1) acc = (s', acc')"
        using Cons.prems(2) room by (cases "p_id q = 0") (auto simp: free_piece_def Let_def)
      from Cons.IH[OF sub this] show ?thesis by (rule scan_post_step) (use False in simp_all)
    next
      case True
      then have q: "q \<in> set (candidates ?n ?mp ?R base ?c)" using Cons.prems(1) by (simp add: candidates_def)
      note cd = candidateD[OF R mp marks_grid[OF board_marks[OF b]] c q]
      define pkt0 where "pkt0 = base\<lparr>grid := (grid base)[?c := init_id_parts ?n ! nat (p_id q) ! nat (p_rotation q)],
                             b_faceused := set_face_used (b_faceused base) (nat (p_id q - 1)) 1\<rparr>"
      define pkt1 where "pkt1 = pkt0\<lparr>alloc := possibility_placed_count ?n pkt0 mod 2 ^ 16, min_candidats := l_score lvl\<rparr>"
      have sc0: "same_cells pkt0 (place ?n ?c q base)"
        by (simp add: same_cells_def place_fields pkt0_def init_id_parts_nth[OF R cd(1,2)])
      then have sc: "same_cells pkt1 (place ?n ?c q base)" "grid (pkt1\<lparr>checked := 0\<rparr>) = grid (place ?n ?c q base)"
        by (simp_all add: same_cells_def pkt1_def)
      note ok = place_board_ok[OF R mp b c e q]
      have gp: "good g pkt1" "marks_ok ?n ?R (pkt1\<lparr>checked := 0\<rparr>)"
        using ok same_cells_ok(1)[OF sc(1)] board_marks by (auto simp: marks_ok_def)
      have al: "alloc pkt1 = possibility_placed_count ?n pkt1"
        using small_count[OF g gp(1)] by (simp add: pkt1_def possibility_placed_count_def grid_at_def)
      let ?C = "compl g (place ?n ?c q base)"
      have cpl: "compl g pkt1 = ?C" using sc(1) by (simp add: same_cells_def)
      have free: "p_id q \<noteq> 0" "\<not> is_face_used (b_faceused base) (nat (p_id q - 1))" using True by (simp_all add: free_piece_def)
      note unf = Cons.prems(2)[simplified, unfolded Let_def, folded pkt0_def, folded pkt1_def]
      show ?thesis
      proof (cases "alloc pkt1 \<ge> ETERN_PARTS ?n")
        case full: True
        then have "mat_scan ?n ?mp ?R max_out base lvl cs (s + 1) (acc\<lparr>m_solutions := m_solutions acc @ [pkt1]\<rparr>) = (s', acc')"
          using unf room free by (simp add: pkt0_def pkt1_def)
        from Cons.IH[OF sub this] show ?thesis
        proof (rule scan_post_step)
          have "?C = {grid pkt1}" using full_compl[OF gp(1)] full al cpl by simp
          then show "out_work g (acc\<lparr>m_solutions := m_solutions acc @ [pkt1]\<rparr>) = out_work g acc \<union> (if free_piece (b_faceused base) q then ?C else {})"
            using True by (simp add: out_work_def Un_assoc)
        qed simp_all
      next
        case hole: False
        let ?pkt = "pkt1\<lparr>checked := 0\<rparr>" and ?acc = "acc\<lparr>m_attempts := m_attempts acc + 1\<rparr>"
        show ?thesis
        proof (cases "fst (forward_check_next_k FORWARD_CHECK_K ?n ?mp ?R ?pkt)")
          case False
          then have "mat_scan ?n ?mp ?R max_out base lvl cs (s + 1) (?acc\<lparr>m_pruned := m_pruned ?acc + 1\<rparr>) = (s', acc')"
            using unf room free hole by (simp add: pkt0_def pkt1_def)
          from Cons.IH[OF sub this] show ?thesis
          proof (rule scan_post_step)
            have "completions ?n ?R (grid ?pkt) = {}"
              using fc_scan_sound[OF R mp gp(2) n, of "[0..<?n * ?n]" FORWARD_CHECK_K 0] False by (simp add: forward_check_next_k_def)
            then have "?C = {}" using cpl by simp
            then show "out_work g (?acc\<lparr>m_pruned := m_pruned ?acc + 1\<rparr>) = out_work g acc \<union> (if free_piece (b_faceused base) q then ?C else {})"
              by (simp add: out_work_def)
          qed simp_all
        next
          case kept: True
          then have "mat_scan ?n ?mp ?R max_out base lvl cs (s + 1) (?acc\<lparr>m_out := m_out ?acc @ [?pkt]\<rparr>) = (s', acc')"
            using unf room free hole by (simp add: pkt0_def pkt1_def)
          from Cons.IH[OF sub this] show ?thesis
          proof (rule scan_post_step)
            show "out_work g (?acc\<lparr>m_out := m_out ?acc @ [?pkt]\<rparr>) = out_work g acc \<union> (if free_piece (b_faceused base) q then ?C else {})"
              using True cpl by (simp add: out_work_def Un_assoc Un_left_commute Un_commute)
          qed (use True in simp_all)
        qed
      qed
    qed
  qed
qed

fun stack_pending :: "bt_cfg \<Rightarrow> bt_level list \<Rightarrow> possibility_packet \<Rightarrow> nat" where
  "stack_pending g [] p = 0"
| "stack_pending g (lvl # ls) p =
     length (level_pending (b_faceused (unplace (g_n g) lvl p)) lvl) + stack_pending g ls (unplace (g_n g) lvl p)"

lemma no_pending_no_work: "stack_pending g ls p = 0 \<Longrightarrow> stack_work g ls p = {}"
  by (induction ls arbitrary: p) (auto simp: level_work_def)

abbreviation advance_all :: "bt_level list \<Rightarrow> nat list \<Rightarrow> bt_level list" where
  "advance_all \<equiv> map2 (\<lambda>lvl s. lvl\<lparr>l_next := s\<rparr>)"

lemma advance_same: "advance_all ls (map l_next ls) = ls"
  by (induction ls) simp_all

lemma unplace_advance [simp]: "unplace n (lvl\<lparr>l_next := s\<rparr>) p = unplace n lvl p"
  by (simp add: unplace_def split: option.split)

lemma level_ok_advance [simp]: "level_ok g (lvl\<lparr>l_next := s\<rparr>) b p = level_ok g lvl b p"
  by (simp add: level_ok_def split: option.split)

definition mat_post :: "bt_cfg \<Rightarrow> nat \<Rightarrow> possibility_packet \<Rightarrow> bt_level list \<Rightarrow> mat_out \<Rightarrow> nat list \<Rightarrow> mat_out \<Rightarrow> bool" where
  "mat_post g max_out p ls acc nn acc' \<longleftrightarrow> length nn = length ls \<and> list_all2 (\<lambda>lvl s. l_next lvl \<le> s) ls nn
     \<and> stack_ok g (advance_all ls nn) p \<and> length (m_out acc) \<le> length (m_out acc')
     \<and> out_work g acc' \<union> stack_work g (advance_all ls nn) p = out_work g acc \<union> stack_work g ls p
     \<and> length (m_out acc') + stack_pending g (advance_all ls nn) p \<le> length (m_out acc) + stack_pending g ls p
     \<and> (max_out \<le> length (m_out acc') \<or> stack_pending g (advance_all ls nn) p = 0)"

lemma mat_levels_spec:
  assumes g: "cfg_ok g" and n: "ETERN_SIZE_supported (g_n g)"
  shows "stack_ok g ls p \<Longrightarrow> mat_levels (g_n g) (g_map g) (g_rot g) max_out p ls acc = (nn, acc') \<Longrightarrow> mat_post g max_out p ls acc nn acc'"
proof (induction ls arbitrary: p acc acc' nn)
  case Nil
  then show ?case by (simp add: mat_post_def)
next
  case (Cons lvl ls)
  let ?b = "unplace (g_n g) lvl p" and ?c = "level_cell (g_n g) lvl"
  have ok: "level_ok g lvl ?b p" and rest: "stack_ok g ls ?b" using Cons.prems(1) by simp_all
  show ?case
  proof (cases "length (m_out acc) < max_out")
    case False
    then have "nn = map l_next (lvl # ls)" "acc' = acc" using Cons.prems(2) by simp_all
    then show ?thesis using False Cons.prems(1) advance_same[of "lvl # ls"]
      unfolding mat_post_def by (simp only:) (simp add: list_all2_map2 list_all2_same)
  next
    case room: True
    obtain s1 acc1 where lv: "(case l_search lvl of None \<Rightarrow> (l_next lvl, acc)
       | Some search \<Rightarrow> mat_scan (g_n g) (g_map g) (g_rot g) max_out ?b lvl (drop (l_next lvl) search) (l_next lvl) acc) = (s1, acc1)"
      by (cases "case l_search lvl of None \<Rightarrow> (l_next lvl, acc)
       | Some search \<Rightarrow> mat_scan (g_n g) (g_map g) (g_rot g) max_out ?b lvl (drop (l_next lvl) search) (l_next lvl) acc")
    obtain rn acc2 where ml: "mat_levels (g_n g) (g_map g) (g_rot g) max_out ?b ls acc1 = (rn, acc2)"
      by (cases "mat_levels (g_n g) (g_map g) (g_rot g) max_out ?b ls acc1")
    have res: "nn = s1 # rn" "acc' = acc2" using Cons.prems(2) room lv ml by (simp_all add: Let_def)
    have ih: "mat_post g max_out ?b ls acc1 rn acc2" by (rule Cons.IH[OF rest ml])
    let ?l' = "lvl\<lparr>l_next := s1\<rparr>"
    have lw: "l_next lvl \<le> s1 \<and> length (m_out acc) \<le> length (m_out acc1) \<and> out_work g acc1 \<union> level_work g ?l' ?b = out_work g acc \<union> level_work g lvl ?b
      \<and> length (m_out acc1) + length (level_pending (b_faceused ?b) ?l') \<le> length (m_out acc) + length (level_pending (b_faceused ?b) lvl)
      \<and> (max_out \<le> length (m_out acc1) \<or> level_pending (b_faceused ?b) ?l' = [])"
    proof (cases "l_search lvl")
      case None
      then show ?thesis using lv by (auto simp: level_pending_def level_work_def)
    next
      case (Some search)
      have h: "good g ?b" "l_x lvl < g_n g" "l_y lvl < g_n g" "grid ?b ! ?c = -2" "search = bucket (g_n g) (g_map g) (g_rot g) ?b ?c"
        using ok Some by (auto simp: level_ok_def)
      have sub: "set (drop (l_next lvl) search) \<subseteq> set (bucket (g_n g) (g_map g) (g_rot g) ?b ?c)" using h(5) set_drop_subset by fastforce
      have "mat_scan (g_n g) (g_map g) (g_rot g) max_out ?b lvl (drop (l_next lvl) search) (l_next lvl) acc = (s1, acc1)"
        using lv Some by simp
      from mat_scan_spec[OF g n h(1-4) sub this] obtain ds r where d: "drop (l_next lvl) search = ds @ r" "s1 = l_next lvl + length ds"
        "out_work g acc1 = out_work g acc \<union> (\<Union>q \<in> set (filter (free_piece (b_faceused ?b)) ds). compl g (place (g_n g) ?c q ?b))"
        "length (m_out acc1) \<le> length (m_out acc) + length (filter (free_piece (b_faceused ?b)) ds)"
        "length (m_out acc) \<le> length (m_out acc1)" "r \<noteq> [] \<longrightarrow> max_out \<le> length (m_out acc1)" by (auto simp: scan_post_def)
      have "drop s1 search = r" using d(1,2) by (metis add.commute append_eq_conv_conj drop_drop)
      then have lp: "level_pending (b_faceused ?b) ?l' = filter (free_piece (b_faceused ?b)) r"
        "level_pending (b_faceused ?b) lvl = filter (free_piece (b_faceused ?b)) ds @ filter (free_piece (b_faceused ?b)) r"
        using Some d(1) by (simp_all add: level_pending_def)
      have "out_work g acc1 \<union> level_work g ?l' ?b = out_work g acc \<union> level_work g lvl ?b"
        unfolding level_work_def lp d(3) by auto
      then show ?thesis using d(2,4,5,6) lp by auto
    qed
    have st: "stack_ok g (advance_all (lvl # ls) (s1 # rn)) p" using ok ih by (simp add: mat_post_def)
    have w: "out_work g acc2 \<union> stack_work g (advance_all (lvl # ls) (s1 # rn)) p = out_work g acc \<union> stack_work g (lvl # ls) p"
      using lw ih unfolding mat_post_def by (simp add: level_work_def) blast
    show ?thesis using lw ih st w unfolding res mat_post_def by auto
  qed
qed

text \<open>The count of pending candidates, taken from the bottom of the stack up.\<close>

lemma unmark_unplace: "b_faceused (unplace n lvl p) = unmark_level lvl (b_faceused p)"
  by (simp add: unplace_def unmark_level_def split: option.split)

lemma fold_unmark: "fold unmark_level ls (b_faceused p) = b_faceused (stack_root g ls p)"
  by (induction ls arbitrary: p) (simp_all add: unmark_unplace[of "g_n g", symmetric])

lemma mark_level_ok: "level_ok g lvl (unplace (g_n g) lvl p) p \<Longrightarrow> mark_level lvl (b_faceused (unplace (g_n g) lvl p)) = b_faceused p"
  by (auto simp: level_ok_def mark_level_def same_cells_def place_fields unplace_none split: option.splits)

lemma fold_mark: "stack_ok g ls p \<Longrightarrow> fold mark_level (rev ls) (b_faceused (stack_root g ls p)) = b_faceused p"
  by (induction ls arbitrary: p) (simp_all add: mark_level_ok)

lemma count_levels_append: "count_levels fu (xs @ ys) = count_levels fu xs + count_levels (fold mark_level xs fu) ys"
  by (induction xs arbitrary: fu) simp_all

lemma count_pending_eq:
  assumes "stack_ok g ls p" "same_cells board p"
  shows "bt_count_pending board ls = stack_pending g ls p"
proof -
  have "count_levels (b_faceused (stack_root g ls p)) (rev ls) = stack_pending g ls p"
    using assms(1) by (induction ls arbitrary: p) (simp_all add: count_levels_append fold_mark)
  then show ?thesis using assms(2) by (simp add: bt_count_pending_def fold_unmark[of ls _ g, symmetric] same_cells_def)
qed

lemma mat_levels_same:
  assumes "same_cells p q" "stack_ok g ls p" "cfg_ok g" "ETERN_SIZE_supported (g_n g)"
    and "bt_materialize_pending (g_n g) (g_map g) (g_rot g) p ls max_out = (nn, m)"
  shows "mat_post g max_out p ls \<lparr>m_out = [], m_solutions = [], m_attempts = 0, m_pruned = 0\<rparr> nn m"
  using mat_levels_spec[OF assms(3,4,2)] assms(5) by (simp add: bt_materialize_pending_def)

lemma out_work_empty [simp]: "out_work g \<lparr>m_out = [], m_solutions = [], m_attempts = 0, m_pruned = 0\<rparr> = {}"
  by (simp add: out_work_def)

lemma advance_root: "length nn = length ls \<Longrightarrow> stack_root g (advance_all ls nn) p = stack_root g ls p"
  by (induction ls nn arbitrary: p rule: list_induct2') simp_all

lemma advance_placed: "length nn = length ls \<Longrightarrow> all_placed (advance_all ls nn) = all_placed ls"
  by (induction ls nn rule: list_induct2') (simp_all add: all_placed_def)

end
