(* ===== verification/Fair_Loops.thy ===== *)
theory Fair_Loops
  imports Etii_Prelude
begin

text \<open>
  Loops that read an environment at every turn: a thread that polls, a lock that is tried again.
  A turn ends the loop, makes a weight smaller, or is a pause that leaves the weight. When the
  pauses do not last for ever, the loop returns. The laws are promised for the environments
  that satisfy \<open>env\<close>.
\<close>

locale fair_loop =
  fixes turn :: "'v \<Rightarrow> 'r \<Rightarrow> 'x + 'r" and loop :: "(nat \<Rightarrow> 'v) \<Rightarrow> nat \<Rightarrow> 'r \<Rightarrow> 'x option"
    and env :: "'v \<Rightarrow> bool" and paused :: "'v \<Rightarrow> bool" and inv :: "'r \<Rightarrow> bool" and post :: "'v \<Rightarrow> 'x \<Rightarrow> bool" and weight :: "'r \<Rightarrow> nat"
  assumes unfold: "loop vs k r = (case turn (vs k) r of Inl x \<Rightarrow> Some x | Inr r' \<Rightarrow> loop vs (k + 1) r')"
    and ends: "env v \<Longrightarrow> inv r \<Longrightarrow> turn v r = Inl x \<Longrightarrow> post v x"
    and keeps: "env v \<Longrightarrow> inv r \<Longrightarrow> turn v r = Inr r' \<Longrightarrow> inv r'"
    and progress: "env v \<Longrightarrow> inv r \<Longrightarrow> turn v r = Inr r' \<Longrightarrow> weight r' < weight r \<or> weight r' = weight r \<and> paused v"
begin

lemma returns:
  assumes fair: "\<forall>k. \<exists>k' \<ge> k. \<not> paused (vs k')" and env: "\<And>k. env (vs k)" and "inv r"
  shows "\<exists>x j. loop vs k r = Some x \<and> post (vs j) x"
  using assms(3)
proof (induction "weight r" arbitrary: k r rule: less_induct)
  case less
  obtain k' where k': "k \<le> k'" "\<not> paused (vs k')" using fair by blast
  define w where "w = weight r"
  have smaller: "\<exists>x j. loop vs k r' = Some x \<and> post (vs j) x" if "weight r' < w" "inv r'" for k r'
    using less.hyps[of r'] that by (simp add: w_def)
  have "weight r = w" by (simp add: w_def)
  from k' this less.prems show ?case
  proof (induction "k' - k" arbitrary: k r)
    case (0 k r)
    show ?case
    proof (cases "turn (vs k) r")
      case (Inl x)
      then show ?thesis using ends[OF env 0(5) Inl] unfold[of vs k r] by auto
    next
      case (Inr r')
      have "k = k'" using 0 by simp
      then have "weight r' < w" using progress[OF env 0(5) Inr] 0 by blast
      from smaller[OF this keeps[OF env 0(5) Inr]] show ?thesis using Inr unfold[of vs k r] by simp
    qed
  next
    case (Suc d k r)
    show ?case
    proof (cases "turn (vs k) r")
      case (Inl x)
      then show ?thesis using ends[OF env Suc(6) Inl] unfold[of vs k r] by auto
    next
      case (Inr r')
      note inv = keeps[OF env Suc(6) Inr]
      have "weight r' < w \<or> weight r' = w" using progress[OF env Suc(6) Inr] Suc(5) by blast
      then have "\<exists>x j. loop vs (k + 1) r' = Some x \<and> post (vs j) x"
      proof
        assume "weight r' = w"
        then show ?thesis by (intro Suc.hyps(1)) (use Suc.hyps(2) Suc.prems inv in auto)
      qed (rule smaller[OF _ inv])
      then show ?thesis using Inr unfold[of vs k r] by simp
    qed
  qed
qed

end

end
