(* ===== verification/Search_Runs.thy ===== *)
theory Search_Runs
  imports Search_Correct Sample Fair_Loops
begin

text \<open>
  Total correctness of the search loop. Between two turns nothing of the completions of
  the root is lost: each is recorded, handed over, or still to be reached from the board
  or from the stack. The loop ends because a weight of the stack decreases at every turn
  that is not a pause.
\<close>

section \<open>What a run has dealt with\<close>

definition run_done :: "bt_cfg \<Rightarrow> bt_run \<Rightarrow> int list set" where
  "run_done g r = grid ` set (r_solutions r) \<union> (\<Union>p \<in> set (r_sent r) \<union> set (r_refused r). compl g p)"

text \<open>The engine stands at \<open>p\<close> above its stack, which is built on the root; \<open>work\<close> is what is
  left to do. The levels below the top hold a piece.\<close>

definition stands :: "bt_cfg \<Rightarrow> possibility_packet \<Rightarrow> possibility_packet \<Rightarrow> int list set \<Rightarrow> bt_run \<Rightarrow> bool" where
  "stands g root p work r \<longleftrightarrow> at g p (r_engine r) \<and> stack_ok g (r_stack r) p \<and> all_placed (tl (r_stack r))
     \<and> same_cells (stack_root g (r_stack r) p) root \<and> run_done g r \<union> work = compl g root"

definition run_at :: "bt_cfg \<Rightarrow> possibility_packet \<Rightarrow> possibility_packet \<Rightarrow> bt_run \<Rightarrow> bool" where
  "run_at g root p r \<longleftrightarrow> stands g root p (compl g p \<union> stack_work g (r_stack r) p) r \<and> all_placed (r_stack r)
     \<and> length (r_stack r) < r_nodes r"

definition search_inv :: "bt_cfg \<Rightarrow> possibility_packet \<Rightarrow> bt_run \<Rightarrow> bool" where
  "search_inv g root r \<longleftrightarrow> cfg_ok g \<and> ETERN_SIZE_supported (g_n g) \<and> good g root \<and> (\<exists>p. run_at g root p r)"

lemma search_init_inv:
  assumes "cfg_ok g" "ETERN_SIZE_supported (g_n g)" "good g root"
  shows "search_inv g root (bt_run_init g st mx root)"
  unfolding search_inv_def
  by (intro conjI exI[of _ root])
    (use assms in \<open>simp_all add: run_at_def stands_def bt_run_init_def Let_def engine_init_at all_placed_def run_done_def\<close>)

lemma placed_level:
  assumes g: "cfg_ok g" and ok: "level_ok g lvl (unplace (g_n g) lvl p) p" and pl: "l_placed lvl \<noteq> None"
  shows "good g p" "possibility_placed_count (g_n g) p = possibility_placed_count (g_n g) (unplace (g_n g) lvl p) + 1"
proof -
  let ?b = "unplace (g_n g) lvl p" and ?c = "level_cell (g_n g) lvl"
  obtain a b where R: "rotation_table (g_n g) (g_rot g)" and mp: "g_map g = prepare_map_part (g_rot g) a b"
    using g by (auto simp: cfg_ok_def)
  obtain q where h: "l_x lvl < g_n g" "l_y lvl < g_n g" "good g ?b" "grid ?b ! ?c = -2"
    "q \<in> set (candidates (g_n g) (g_map g) (g_rot g) ?b ?c)" "same_cells p (place (g_n g) ?c q ?b)"
    using ok pl by (auto simp: level_ok_def split: option.splits)
  have c: "?c < g_n g * g_n g" using h by (simp add: cell_pos_less)
  note cd = candidateD[OF R mp marks_grid[OF board_marks[OF h(3)]] c h(5)]
  have len: "length (grid ?b) = g_n g * g_n g" "length (b_faceused ?b) = FACES_USED_SIZE (g_n g)"
    using h(3) by (simp_all add: board_ok_def marks_ok_def grid_ok_def)
  show "good g p" using place_board_ok[OF R mp h(3) c h(4,5)] same_cells_ok(1)[OF h(6)] by blast
  have "possibility_placed_count (g_n g) (place (g_n g) ?c q ?b) = possibility_placed_count (g_n g) ?b + 1"
    using table_piece_bit(2)[OF R cd(1,2) len(2)] by (intro placed_place[OF len(1) c h(4)]) simp
  then show "possibility_placed_count (g_n g) p = possibility_placed_count (g_n g) ?b + 1"
    using same_cells_count[OF h(6)] by simp
qed

lemma placed_stack:
  assumes "cfg_ok g" "stack_ok g ls p" "all_placed ls"
  shows "good g p" "possibility_placed_count (g_n g) p = possibility_placed_count (g_n g) (stack_root g ls p) + length ls"
proof -
  show "good g p" using assms by (cases ls) (auto simp: all_placed_def intro: placed_level(1))
  show "possibility_placed_count (g_n g) p = possibility_placed_count (g_n g) (stack_root g ls p) + length ls"
    using assms(2,3)
  proof (induction ls arbitrary: p)
    case (Cons lvl ls)
    then show ?case using placed_level(2)[OF assms(1), of lvl p] by (simp add: all_placed_def)
  qed simp
qed

lemma run_at_facts:
  assumes "cfg_ok g" "run_at g root p r"
  shows "good g p" "e_placed (r_engine r) = possibility_placed_count (g_n g) root + length (r_stack r)"
    "same_cells (e_board (r_engine r)) p" "stack_ok g (r_stack r) (e_board (r_engine r))"
    "possibility_placed_count (g_n g) p = e_placed (r_engine r)"
proof -
  have s: "at g p (r_engine r)" "stack_ok g (r_stack r) p" "all_placed (r_stack r)" "same_cells (stack_root g (r_stack r) p) root"
    using assms(2) by (auto simp: run_at_def stands_def)
  note ps = placed_stack[OF assms(1) s(2,3)]
  show "good g p" by (rule ps(1))
  show pc: "possibility_placed_count (g_n g) p = e_placed (r_engine r)" using s(1) by (simp add: engine_at_def)
  show "e_placed (r_engine r) = possibility_placed_count (g_n g) root + length (r_stack r)"
    using ps(2) pc same_cells_count[OF s(4)] by simp
  show sc: "same_cells (e_board (r_engine r)) p" using s(1) by (rule engine_board)
  show "stack_ok g (r_stack r) (e_board (r_engine r))" using stack_ok_same[OF same_cells_sym[OF sc] s(2)] .
qed

section \<open>Delegation keeps the work\<close>

lemma run_done_materialized:
  "run_done g (run_materialized m r) = run_done g r \<union> grid ` set (m_solutions m)"
  by (auto simp: run_done_def run_materialized_def)

lemma stack_work_board:
  assumes "same_cells b p" shows "stack_work g ls b \<union> compl g b = stack_work g ls p \<union> compl g p"
  using stack_work_same[OF assms] assms by (simp add: same_cells_def)

text \<open>The fields a delegation may touch leave the position alone.\<close>

lemma run_at_fields:
  assumes "run_at g root p r" "r_engine r' = r_engine r" "r_stack r' = r_stack r" "r_nodes r' = r_nodes r"
    and "run_done g r \<subseteq> run_done g r'" "run_done g r' \<subseteq> compl g root"
  shows "run_at g root p r'"
  using assms by (auto simp: run_at_def stands_def)

lemma materialize_run:
  assumes "cfg_ok g" "ETERN_SIZE_supported (g_n g)" "run_at g root p r"
    and "bt_materialize_pending (g_n g) (g_map g) (g_rot g) (e_board (r_engine r)) (r_stack r) k = (nn, m)"
  shows "length nn = length (r_stack r)" "list_all2 (\<lambda>lvl s. l_next lvl \<le> s) (r_stack r) nn"
    "stack_ok g (advance_all (r_stack r) nn) p"
    "out_work g m \<union> stack_work g (advance_all (r_stack r) nn) p = stack_work g (r_stack r) p"
    "k \<le> length (m_out m) \<or> stack_work g (advance_all (r_stack r) nn) p = {}"
    "length (m_out m) + stack_pending g (advance_all (r_stack r) nn) (e_board (r_engine r)) \<le> bt_count_pending (e_board (r_engine r)) (r_stack r)"
proof -
  note f = run_at_facts[OF assms(1,3)]
  note mp = mat_levels_same[OF same_cells_refl f(4) assms(1,2,4), unfolded mat_post_def]
  note sw = stack_work_same[OF f(3)]
  show "length nn = length (r_stack r)" "list_all2 (\<lambda>lvl s. l_next lvl \<le> s) (r_stack r) nn" using mp by simp_all
  show "stack_ok g (advance_all (r_stack r) nn) p" using mp stack_ok_same[OF f(3)] by blast
  show "out_work g m \<union> stack_work g (advance_all (r_stack r) nn) p = stack_work g (r_stack r) p"
    using mp sw by simp
  show "k \<le> length (m_out m) \<or> stack_work g (advance_all (r_stack r) nn) p = {}"
    using mp no_pending_no_work sw by blast
  show "length (m_out m) + stack_pending g (advance_all (r_stack r) nn) (e_board (r_engine r)) \<le> bt_count_pending (e_board (r_engine r)) (r_stack r)"
    using mp count_pending_eq[OF f(4) same_cells_refl] by simp
qed

lemma advance_tl: "all_placed ls \<Longrightarrow> all_placed (tl ls)"
  by (cases ls) (auto simp: all_placed_def)

text \<open>The levels of a stack and the same levels with later candidates.\<close>

definition advanced :: "bt_level list \<Rightarrow> bt_level list \<Rightarrow> bool" where
  "advanced = list_all2 (\<lambda>lvl lvl'. \<exists>s \<ge> l_next lvl. lvl' = lvl\<lparr>l_next := s\<rparr>)"

lemma advanced_refl [simp]: "advanced ls ls"
proof -
  have "\<exists>s \<ge> l_next lvl. lvl = lvl\<lparr>l_next := s\<rparr>" for lvl :: bt_level by (intro exI[of _ "l_next lvl"]) simp
  then show ?thesis by (auto simp: advanced_def intro: list_all2_refl)
qed

lemma advanced_all: "length nn = length ls \<Longrightarrow> list_all2 (\<lambda>lvl s. l_next lvl \<le> s) ls nn \<Longrightarrow> advanced ls (advance_all ls nn)"
  by (induction ls nn rule: list_induct2') (auto simp: advanced_def)

lemma delegate_run:
  assumes g: "cfg_ok g" "ETERN_SIZE_supported (g_n g)" and r: "run_at g root p r" and r': "r' = bt_delegate_if_needed g v r"
  shows "run_at g root p r' \<and> advanced (r_stack r) (r_stack r')"
proof -
  let ?board = "e_board (r_engine r)" and ?pending = "bt_count_pending (e_board (r_engine r)) (r_stack r)"
  define quota where "quota = bt_delegation_quota ?pending (g_max_stock g) (v_hunger v)"
  let ?r1 = "r\<lparr>r_lastfilesize := ?pending\<rparr>"
  obtain nn m where mat: "bt_materialize_pending (g_n g) (g_map g) (g_rot g) ?board (r_stack r) (nat quota) = (nn, m)" by fastforce
  note k = materialize_run[OF g r mat]
  have dn: "run_done g ?r1 = run_done g r" by (simp add: run_done_def)
  have tot: "run_done g r \<union> (compl g p \<union> stack_work g (r_stack r) p) = compl g root" using r by (simp add: run_at_def stands_def)
  have r1: "run_at g root p ?r1" by (rule run_at_fields[OF r]) (use dn tot in auto)
  have r2: "run_at g root p (run_materialized m ?r1)"
  proof (rule run_at_fields[OF r])
    show "run_done g (run_materialized m ?r1) \<subseteq> compl g root"
      using k(4) tot dn unfolding run_done_materialized out_work_def by blast
  qed (auto simp: run_done_def run_materialized_def)
  let ?r2 = "run_materialized m ?r1"
  let ?r3 = "?r2\<lparr>r_stack := advance_all (r_stack r) nn, r_sent := r_sent ?r2 @ m_out m, r_lastfilesize := ?pending - length (m_out m),
      r_fed := (if v_hunger v > 0 then r_fed ?r2 + length (m_out m) else r_fed ?r2)\<rparr>"
  have eq: "r' = (if quota \<le> 0 \<or> \<not> v_buffer v then ?r1 else if m_out m = [] \<or> \<not> v_accept v (m_out m) then ?r2 else ?r3)"
    using mat unfolding r' bt_delegate_if_needed_def Let_def quota_def[symmetric] by (simp only: prod.case) simp
  have r3: "r_engine ?r3 = r_engine r" "r_stack ?r3 = advance_all (r_stack r) nn" "r_nodes ?r3 = r_nodes r"
    "run_done g ?r3 = run_done g ?r2 \<union> (\<Union>p \<in> set (m_out m). compl g p)"
    by (auto simp: run_done_def run_materialized_def)
  from eq consider (none) "r' = ?r1" | (kept) "r' = ?r2"
    | (sent) "r_engine r' = r_engine r" "r_stack r' = advance_all (r_stack r) nn" "r_nodes r' = r_nodes r"
        "run_done g r' = run_done g ?r2 \<union> (\<Union>p \<in> set (m_out m). compl g p)"
    using r3 by presburger
  then show ?thesis
  proof cases
    case none
    then show ?thesis using r1 by simp
  next
    case kept
    then show ?thesis using r2 by (simp add: run_materialized_def)
  next
    case sent
    have "run_done g r' \<union> (compl g p \<union> stack_work g (r_stack r') p) = compl g root"
      using k(4) tot unfolding sent(2,4) run_done_materialized dn out_work_def by blast
    then show ?thesis
      using r k(1,3) advanced_all[OF k(1,2)] advance_root[OF k(1), of g p] advance_placed[OF k(1)]
      by (simp add: run_at_def stands_def sent(1-3) advance_tl)
  qed
qed

text \<open>Flushing hands everything over: what is left to do becomes empty.\<close>

lemma flush_run:
  assumes g: "cfg_ok g" "ETERN_SIZE_supported (g_n g)" and r: "run_at g root p r" and hole: "e_placed (r_engine r) < ETERN_PARTS (g_n g)"
  shows "run_done g (bt_flush_pending g v r) = compl g root"
proof -
  let ?board = "e_board (r_engine r)"
  obtain nn m where mat: "bt_materialize_pending (g_n g) (g_map g) (g_rot g) ?board (r_stack r) (bt_count_pending ?board (r_stack r)) = (nn, m)"
    by fastforce
  note k = materialize_run[OF g r mat] and f = run_at_facts[OF g(1) r]
  have none: "stack_work g (advance_all (r_stack r) nn) p = {}"
  proof (cases "stack_pending g (advance_all (r_stack r) nn) ?board = 0")
    case True
    then show ?thesis using no_pending_no_work stack_work_same[OF f(3)] by blast
  next
    case False
    then have "\<not> bt_count_pending ?board (r_stack r) \<le> length (m_out m)" using k(6) by linarith
    then show ?thesis using k(5) by blast
  qed
  define cur where "cur = ?board\<lparr>alloc := possibility_placed_count (g_n g) ?board mod 2 ^ 16, checked := 0\<rparr>"
  have "alloc cur < ETERN_PARTS (g_n g)"
    using hole f(5) same_cells_count[OF f(3)] small_count[OF g(1) f(1)] by (simp add: cur_def)
  then have dn: "run_done g (bt_flush_pending g v r)
      = run_done g r \<union> grid ` set (m_solutions m) \<union> (\<Union>q \<in> set (m_out m). compl g q) \<union> compl g cur"
    unfolding bt_flush_pending_def cur_def Let_def mat prod.case
    by (auto simp: run_done_def run_materialized_def)
  have "compl g cur = compl g p" using f(3) by (simp add: cur_def same_cells_def)
  then have "run_done g (bt_flush_pending g v r) = run_done g r \<union> (out_work g m \<union> compl g p)" unfolding dn out_work_def by auto
  also have "out_work g m = stack_work g (r_stack r) p" using k(4) none by simp
  finally show ?thesis using r by (auto simp: run_at_def stands_def)
qed

section \<open>One turn\<close>

text \<open>Going back from a stack whose work is all that is left.\<close>

definition turn_post :: "bt_cfg \<Rightarrow> possibility_packet \<Rightarrow> (bt_core_result \<times> bt_run) + bt_run \<Rightarrow> bool" where
  "turn_post g root res \<longleftrightarrow> (case res of
      Inl (BT_CORE_EXHAUSTED, r') \<Rightarrow> run_done g r' = compl g root
    | Inl (BT_CORE_STOPPED, r') \<Rightarrow> (if g_allow g then run_done g r' = compl g root else search_inv g root r')
    | Inl (BT_CORE_BUDGET, r') \<Rightarrow> 0 < g_budget g \<and> search_inv g root r'
    | Inr r' \<Rightarrow> search_inv g root r')"

lemma run_done_turn: "run_done g (r\<lparr>r_stack := s, r_engine := e, r_stats := st\<rparr>) = run_done g r"
  by (simp add: run_done_def)

lemma turn_end_post:
  assumes g: "cfg_ok g" "ETERN_SIZE_supported (g_n g)" "good g root"
    and s: "stands g root p (stack_work g (r_stack r) p) r" and len: "length (r_stack r) \<le> r_nodes r"
  shows "turn_post g root (bt_turn_end g r)"
proof -
  obtain stack' e' st' where bt: "bt_backtrack g (r_stack r) (r_engine r) (r_stats r) = (stack', e', st')"
    by (cases "bt_backtrack g (r_stack r) (r_engine r) (r_stats r)")
  have h: "at g p (r_engine r)" "stack_ok g (r_stack r) p" "all_placed (tl (r_stack r))"
    "same_cells (stack_root g (r_stack r) p) root" "run_done g r \<union> stack_work g (r_stack r) p = compl g root"
    using s by (simp_all add: stands_def)
  note bp = backtrack_spec[OF g(1) h(2,1) bt]
  show ?thesis
  proof (cases stack')
    case Nil
    then have "run_done g r = compl g root" using bp h(5) by (simp add: back_post_def)
    then show ?thesis using bt Nil by (simp add: turn_post_def bt_turn_end_def run_done_turn)
  next
    case (Cons lvl ls)
    obtain p' where p': "at g p' e'" "stack_ok g stack' p'" "length stack' \<le> length (r_stack r)" "all_placed stack'"
      "same_cells (stack_root g stack' p') (stack_root g (r_stack r) p)"
      "stack_work g (r_stack r) p = compl g p' \<union> stack_work g stack' p'"
      using bp Cons h(3) unfolding back_post_def by auto
    let ?e = "e'\<lparr>e_board := (e_board e')\<lparr>alloc := e_placed e' mod 2 ^ 16, min_candidats := l_score lvl\<rparr>\<rparr>"
    have inv: "search_inv g root r'" if f: "r_engine r' = ?e" "r_stack r' = stack'" "r_nodes r' = r_nodes r + 1" "run_done g r' = run_done g r" for r'
    proof -
      have "run_at g root p' r'"
        using p' h(4,5) len same_cells_trans[OF p'(5) h(4)]
        by (simp add: run_at_def stands_def f engine_relabel advance_tl)
      then show ?thesis using g by (auto simp: search_inv_def)
    qed
    show ?thesis using bt Cons
      by (simp add: turn_post_def bt_turn_end_def Let_def) (intro conjI impI; rule inv; simp add: run_done_def)
  qed
qed

lemma bt_choose_eq:
  assumes "cfg_ok g" "at g p e" shows "bt_choose g e = mrv_choose_cell (g_n g) (g_map g) e"
  using assms choose_cell_fast_eq[of "g_n g" "g_rot g" "g_map g" p e] by (simp add: bt_choose_def cfg_ok_def)

text \<open>A new level carries exactly the completions of the board.\<close>

lemma new_level_ok:
  assumes g: "cfg_ok g" and e: "at g p e" and p: "good g p" and hole: "possibility_placed_count (g_n g) p < g_n g * g_n g"
  shows "level_ok g (bt_new_level g e) p p" "level_work g (bt_new_level g e) p = compl g p" "l_placed (bt_new_level g e) = None"
proof -
  obtain a b where R: "rotation_table (g_n g) (g_rot g)" and mp: "g_map g = prepare_map_part (g_rot g) a b"
    using g by (auto simp: cfg_ok_def)
  have len: "length (grid p) = g_n g * g_n g" using p by (simp add: board_ok_def marks_ok_def grid_ok_def)
  have n0: "0 < g_n g" using hole by (cases "g_n g") simp_all
  show "l_placed (bt_new_level g e) = None" by (simp add: bt_new_level_def split: option.split)
  have "level_ok g (bt_new_level g e) p p \<and> level_work g (bt_new_level g e) p = compl g p"
  proof (cases "mrv_choose_cell (g_n g) (g_map g) e")
    case None
    have "\<exists>c < g_n g * g_n g. grid p ! c = -2"
    proof (rule ccontr)
      assume "\<not> ?thesis"
      then have "filter (\<lambda>v. v \<noteq> -2) (grid p) = grid p" using len by (auto simp: filter_id_conv in_set_conv_nth)
      then show False using hole placed_count_filter[OF len] len by simp
    qed
    from choose_cell_refusal[OF R mp e board_marks[OF p] None this] have "compl g p = {}" .
    then show ?thesis using None p n0
      by (simp add: bt_new_level_def bt_choose_eq[OF g e] level_ok_def level_work_def level_pending_def)
  next
    case (Some xyk)
    obtain x y k where xyk: "xyk = (x, y, k)" by (cases xyk)
    note c = choose_cell_empty[OF e Some[unfolded xyk]]
    have cl: "cell_pos (g_n g) x y < g_n g * g_n g" using c by (simp add: cell_pos_less)
    note ck = completions_children[OF R mp board_marks[OF p] cl c(3)]
    show ?thesis using Some xyk p c ck engine_keys_nth[OF e cl]
      by (simp add: bt_new_level_def bt_choose_eq[OF g e] level_ok_def level_work_def level_pending_def candidates_def)
  qed
  then show "level_ok g (bt_new_level g e) p p" "level_work g (bt_new_level g e) p = compl g p" by blast+
qed

text \<open>The states from which the candidates are tried: after a new level, or with the board
  recorded as a solution.\<close>

lemma push_level:
  assumes g: "cfg_ok g" and r: "run_at g root p r" and hole: "e_placed (r_engine r) < ETERN_PARTS (g_n g)"
    and r': "r' = r\<lparr>r_stack := bt_new_level g (r_engine r) # r_stack r\<rparr>"
  shows "stands g root p (stack_work g (r_stack r') p) r'" "length (r_stack r') \<le> r_nodes r'"
proof -
  note f = run_at_facts[OF g r]
  have e: "at g p (r_engine r)" using r by (simp add: run_at_def stands_def)
  have "possibility_placed_count (g_n g) p < g_n g * g_n g" using hole f(5) by simp
  note nl = new_level_ok[OF g e f(1) this]
  show "stands g root p (stack_work g (r_stack r') p) r'"
    using r nl by (simp add: stands_def run_at_def r' unplace_none run_done_def)
  show "length (r_stack r') \<le> r_nodes r'" using r by (simp add: run_at_def r')
qed

lemma record_solution:
  assumes g: "cfg_ok g" and r: "run_at g root p r" and full: "ETERN_PARTS (g_n g) \<le> e_placed (r_engine r)"
    and b: "board = (e_board (r_engine r))\<lparr>alloc := e_placed (r_engine r) mod 2 ^ 16\<rparr>"
    and r': "r' = r\<lparr>r_engine := (r_engine r)\<lparr>e_board := board\<rparr>, r_solutions := r_solutions r @ [board]\<rparr>"
  shows "stands g root p (stack_work g (r_stack r') p) r'" "length (r_stack r') \<le> r_nodes r'"
proof -
  note f = run_at_facts[OF g r]
  have "compl g p = {grid p}" using full_compl[OF f(1)] full f(5) by simp
  moreover have "grid board = grid p" using f(3) by (simp add: b same_cells_def)
  moreover have "run_done g r' = insert (grid board) (run_done g r)" by (auto simp: run_done_def r')
  ultimately show "stands g root p (stack_work g (r_stack r') p) r'"
    using r by (auto simp: stands_def run_at_def r' b engine_relabel)
  show "length (r_stack r') \<le> r_nodes r'" using r by (simp add: run_at_def r')
qed

lemma delegation_turn_post:
  assumes g: "cfg_ok g" "ETERN_SIZE_supported (g_n g)" and r: "run_at g root p r" and hole: "e_placed (r_engine r) < ETERN_PARTS (g_n g)"
    and res: "bt_delegation_turn g v r = (gone, r')"
  shows "if gone then run_done g r' = compl g root else run_at g root p r' \<and> advanced (r_stack r) (r_stack r') \<and> r_engine r' = r_engine r"
proof -
  have same: "run_at g root p q" if "r_engine q = r_engine r" "r_stack q = r_stack r" "r_nodes q = r_nodes r" "run_done g q = run_done g r" for q
    using r that by (simp add: run_at_def stands_def)
  define r3 where "r3 = r\<lparr>r_since := 0, r_lastdepth := bt_min_pending_depth (g_n g) (e_board (r_engine r)) (r_stack r)\<rparr>"
  have r3: "run_at g root p r3" "r_stack r3 = r_stack r" "r_engine r3 = r_engine r"
    by (rule same) (simp_all add: r3_def run_done_def)
  have ab: "run_done g (bt_abandon_shallow_root g v r3) = compl g root"
    using flush_run[OF g r3(1), of v] hole r3(3) by (simp add: bt_abandon_shallow_root_def Let_def run_done_def)
  have de: "run_at g root p ((bt_delegate_if_needed g v r3)\<lparr>r_last := t\<rparr>)" "advanced (r_stack r) (r_stack (bt_delegate_if_needed g v r3))"
      "r_engine (bt_delegate_if_needed g v r3) = r_engine r" for t
  proof -
    have "run_at g root p (bt_delegate_if_needed g v r3) \<and> advanced (r_stack r3) (r_stack (bt_delegate_if_needed g v r3))"
      by (rule delegate_run[OF g r3(1) refl])
    then show "run_at g root p ((bt_delegate_if_needed g v r3)\<lparr>r_last := t\<rparr>)" "advanced (r_stack r) (r_stack (bt_delegate_if_needed g v r3))"
      by (simp_all add: run_at_def stands_def run_done_def r3(2))
    show "r_engine (bt_delegate_if_needed g v r3) = r_engine r"
      by (simp add: bt_delegate_if_needed_def Let_def run_materialized_def r3(3) split: prod.split)
  qed
  have r3e: "r\<lparr>r_since := 0, r_lastdepth := bt_min_pending_depth (g_n g) (e_board (r_engine r)) (r_stack r)\<rparr> = r3" by (simp add: r3_def)
  have quiet: "run_at g root p r" "run_at g root p (r\<lparr>r_since := k\<rparr>)" for k by (rule same; simp add: run_done_def)+
  show ?thesis using res ab de(1)[of "v_now v"] de(2,3) quiet
    by (auto simp: bt_delegation_turn_def Let_def r3e split: if_splits)
qed

lemma turn_inv:
  assumes "search_inv g root r" shows "turn_post g root (bt_turn g v r)"
proof -
  obtain p where g: "cfg_ok g" "ETERN_SIZE_supported (g_n g)" "good g root" and r: "run_at g root p r"
    using assms by (auto simp: search_inv_def)
  show ?thesis
  proof (cases "e_placed (r_engine r) \<ge> ETERN_PARTS (g_n g)")
    case True
    from turn_end_post[OF g record_solution[OF g(1) r True refl refl]] show ?thesis using True by (simp add: bt_turn_def Let_def)
  next
    case hole: False
    then have lt: "e_placed (r_engine r) < ETERN_PARTS (g_n g)" by simp
    show ?thesis
    proof (cases "v_request v = REQUEST_CONTINUE")
      case False
      then show ?thesis using hole assms flush_run[OF g(1,2) r lt, of v] by (simp add: bt_turn_def turn_post_def)
    next
      case cont: True
      obtain gone r' where d: "bt_delegation_turn g v r = (gone, r')" by fastforce
      note dp = delegation_turn_post[OF g(1,2) r lt d]
      show ?thesis
      proof (cases gone)
        case True
        then show ?thesis using hole cont d dp by (simp add: bt_turn_def turn_post_def)
      next
        case False
        then have r': "run_at g root p r'" "e_placed (r_engine r') < ETERN_PARTS (g_n g)" using dp lt by simp_all
        from turn_end_post[OF g push_level[OF g(1) r' refl]] show ?thesis using hole cont d False by (simp add: bt_turn_def)
      qed
    qed
  qed
qed

section \<open>The weight of a stack\<close>

text \<open>A level counts for its candidates left, times a power of the branching bound that falls
  with its height; a stack of \<open>L\<close> levels may still grow, which counts for one more power.\<close>

definition branching :: "bt_cfg \<Rightarrow> nat" where
  "branching g = Suc (length (arena (g_map g)))"

definition level_left :: "bt_level \<Rightarrow> nat" where
  "level_left lvl = (case l_search lvl of None \<Rightarrow> 0 | Some search \<Rightarrow> length search - l_next lvl)"

fun stack_weight :: "bt_cfg \<Rightarrow> bt_level list \<Rightarrow> nat" where
  "stack_weight g [] = 0"
| "stack_weight g (lvl # ls) = level_left lvl * branching g ^ (ETERN_PARTS (g_n g) - length ls) + stack_weight g ls"

definition run_weight :: "bt_cfg \<Rightarrow> bt_run \<Rightarrow> nat" where
  "run_weight g r = stack_weight g (r_stack r) + branching g ^ (Suc (ETERN_PARTS (g_n g)) - length (r_stack r))"

lemma bucket_small: "length (get_parts_bigarray_with_key mp key) \<le> length (arena mp)"
proof -
  have "length (entry_parts ar f) \<le> length ar" for ar f by (auto simp: entry_parts_def split: option.split)
  then show ?thesis by (simp add: get_parts_bigarray_with_key_def get_parts_bigarray_def Let_def split: option.split)
qed

lemma try_next:
  "bt_try g cx cy qs s e st = (Some (s', pos), e', st') \<Longrightarrow> s < s' \<and> s' \<le> s + length qs"
proof (induction qs arbitrary: s e st)
  case (Cons q qs)
  show ?case
  proof (rule ccontr)
    assume n: "\<not> ?case"
    then have "s' \<noteq> s + 1" by auto
    then obtain e1 st1 where "bt_try g cx cy qs (s + 1) e1 st1 = (Some (s', pos), e', st')"
      using Cons.prems by (auto simp: Let_def split: if_splits prod.splits)
    from Cons.IH[OF this] n show False by auto
  qed
qed simp

lemma back_weight:
  assumes "bt_backtrack g stack e st = (lvl' # ls', e', st')" "length stack \<le> Suc (ETERN_PARTS (g_n g))"
  shows "stack_weight g (lvl' # ls') + branching g ^ (Suc (ETERN_PARTS (g_n g)) - length (lvl' # ls')) \<le> stack_weight g stack"
  using assms
proof (induction stack arbitrary: e st)
  case (Cons lvl ls)
  let ?e1 = "case l_placed lvl of None \<Rightarrow> e | Some pos \<Rightarrow> bt_take (g_n g) (g_map g) (l_x lvl) (l_y lvl) pos e"
  let ?D = "ETERN_PARTS (g_n g)" and ?B = "branching g"
  have ih: ?case if "bt_backtrack g ls e2 st2 = (lvl' # ls', e', st')" for e2 st2
    using Cons.IH[OF that] Cons.prems(2) by simp
  show ?case
  proof (cases "l_search lvl")
    case None
    then show ?thesis using ih Cons.prems(1) by (simp add: Let_def)
  next
    case (Some search)
    obtain res e2 st2 where tr: "bt_try g (l_x lvl) (l_y lvl) (drop (l_next lvl) search) (l_next lvl) ?e1 st = (res, e2, st2)"
      by (cases "bt_try g (l_x lvl) (l_y lvl) (drop (l_next lvl) search) (l_next lvl) ?e1 st")
    show ?thesis
    proof (cases res)
      case None
      then show ?thesis using ih Cons.prems(1) Some tr by (simp add: Let_def)
    next
      case (Some sp)
      obtain s pos where sp: "sp = (s, pos)" by fastforce
      have l: "lvl' = lvl\<lparr>l_next := s, l_placed := Some pos\<rparr>" "ls' = ls"
        using Cons.prems(1) \<open>l_search lvl = Some search\<close> tr Some sp by (simp_all add: Let_def)
      have "l_next lvl < s" "s \<le> l_next lvl + length (drop (l_next lvl) search)" using try_next tr Some sp by blast+
      then have "Suc (level_left lvl') \<le> level_left lvl" using \<open>l_search lvl = Some search\<close> by (simp add: level_left_def l)
      then have "Suc (level_left lvl') * ?B ^ (?D - length ls) \<le> level_left lvl * ?B ^ (?D - length ls)" by (rule mult_le_mono1)
      then show ?thesis by (simp add: l(2) add.commute add.left_commute)
    qed
  qed
qed simp

lemma advanced_weight: "advanced ls ls' \<Longrightarrow> stack_weight g ls' \<le> stack_weight g ls \<and> length ls' = length ls"
  unfolding advanced_def
proof (induction rule: list_all2_induct)
  case (Cons lvl ls lvl' ls')
  obtain s where s: "l_next lvl \<le> s" "lvl' = lvl\<lparr>l_next := s\<rparr>" using Cons.hyps by blast
  have "level_left lvl' \<le> level_left lvl" using s by (auto simp: level_left_def split: option.split)
  then have "level_left lvl' * k + stack_weight g ls' \<le> level_left lvl * k + stack_weight g ls" for k
    using Cons.IH by (intro add_mono mult_le_mono1) simp_all
  then show ?case using Cons.IH by simp
qed simp

lemma new_level_left: "level_left (bt_new_level g e) < branching g"
  using bucket_small[of "g_map g"] by (auto simp: bt_new_level_def level_left_def branching_def less_Suc_eq_le split: option.split)

lemma turn_end_weight:
  assumes "bt_turn_end g r = Inr r'" "length (r_stack r) \<le> Suc (ETERN_PARTS (g_n g))"
  shows "run_weight g r' \<le> stack_weight g (r_stack r)"
proof -
  obtain lvl ls e st where b: "bt_backtrack g (r_stack r) (r_engine r) (r_stats r) = (lvl # ls, e, st)"
    using assms(1) by (auto simp: bt_turn_end_def Let_def split: list.splits prod.splits if_splits)
  then have "r_stack r' = lvl # ls" using assms(1) by (auto simp: bt_turn_end_def Let_def split: if_splits)
  then show ?thesis using back_weight[OF b assms(2)] by (simp add: run_weight_def)
qed

lemma turn_weight:
  assumes inv: "search_inv g root r" and res: "bt_turn g v r = Inr r'"
  shows "run_weight g r' < run_weight g r \<or> r' = r \<and> 0 < request_is_pause (v_request v)"
proof -
  obtain p where g: "cfg_ok g" "ETERN_SIZE_supported (g_n g)" and r: "run_at g root p r"
    using inv by (auto simp: search_inv_def)
  let ?D = "ETERN_PARTS (g_n g)" and ?B = "branching g"
  note f = run_at_facts[OF g(1) r]
  have "length (grid p) = ?D" using f(1) by (simp add: board_ok_def marks_ok_def grid_ok_def)
  then have pl: "e_placed (r_engine r) \<le> ?D" using placed_count_le f(5) by metis
  have L: "length (r_stack r) \<le> e_placed (r_engine r)" using f(2) by simp
  have B: "0 < ?B ^ k" for k by (simp add: branching_def)
  show ?thesis
  proof (cases "e_placed (r_engine r) \<ge> ?D")
    case True
    then have "bt_turn_end g (r\<lparr>r_engine := (r_engine r)\<lparr>e_board := (e_board (r_engine r))\<lparr>alloc := e_placed (r_engine r) mod 2 ^ 16\<rparr>\<rparr>,
         r_solutions := r_solutions r @ [(e_board (r_engine r))\<lparr>alloc := e_placed (r_engine r) mod 2 ^ 16\<rparr>]\<rparr>) = Inr r'"
      using res by (simp add: bt_turn_def Let_def)
    from turn_end_weight[OF this] have "run_weight g r' \<le> stack_weight g (r_stack r)" using L pl by simp
    then show ?thesis using B[of "Suc ?D - length (r_stack r)"] unfolding run_weight_def by linarith
  next
    case hole: False
    then have lt: "e_placed (r_engine r) < ?D" by simp
    show ?thesis
    proof (cases "v_request v = REQUEST_CONTINUE")
      case False
      then show ?thesis using res hole by (simp add: bt_turn_def split: if_splits)
    next
      case cont: True
      obtain gone r1 where d: "bt_delegation_turn g v r = (gone, r1)" by fastforce
      have gone: "\<not> gone" using res hole cont d by (cases gone) (simp_all add: bt_turn_def)
      have ad: "advanced (r_stack r) (r_stack r1)" "r_engine r1 = r_engine r"
        using delegation_turn_post[OF g r lt d] gone by simp_all
      note aw = advanced_weight[OF ad(1), of g]
      let ?l = "bt_new_level g (r_engine r1)"
      have "bt_turn_end g (r1\<lparr>r_stack := ?l # r_stack r1\<rparr>) = Inr r'" using res hole cont d gone by (simp add: bt_turn_def)
      from turn_end_weight[OF this] have "run_weight g r' \<le> level_left ?l * ?B ^ (?D - length (r_stack r)) + stack_weight g (r_stack r1)"
        using aw L lt by simp
      also have "\<dots> < ?B * ?B ^ (?D - length (r_stack r)) + stack_weight g (r_stack r)"
        using new_level_left[of g "r_engine r1"] aw B[of "?D - length (r_stack r)"] by (intro add_less_le_mono mult_strict_right_mono) auto
      also have "\<dots> = run_weight g r"
        using L lt by (simp add: run_weight_def Suc_diff_le)
      finally show ?thesis by blast
    qed
  qed
qed

section \<open>The loop\<close>

definition stopping :: "int \<Rightarrow> bool" where
  "stopping request \<longleftrightarrow> request \<noteq> REQUEST_CONTINUE \<and> request_is_pause request = 0"

definition result_post :: "bt_cfg \<Rightarrow> possibility_packet \<Rightarrow> bt_env \<Rightarrow> bt_core_result \<times> bt_run \<Rightarrow> bool" where
  "result_post g root v res \<longleftrightarrow> turn_post g root (Inl res) \<and> (fst res = BT_CORE_STOPPED \<longrightarrow> stopping (v_request v))"

lemma turn_end_not_stopped: "bt_turn_end g r = Inl res \<Longrightarrow> fst res \<noteq> BT_CORE_STOPPED"
  by (auto simp: bt_turn_end_def Let_def split: list.splits prod.splits if_splits)

lemma turn_stopped: "bt_turn g v r = Inl res \<Longrightarrow> fst res = BT_CORE_STOPPED \<Longrightarrow> stopping (v_request v)"
  by (auto simp: bt_turn_def Let_def stopping_def dest: turn_end_not_stopped split: if_splits prod.splits bool.splits)

abbreviation paused :: "bt_env \<Rightarrow> bool" where
  "paused v \<equiv> 0 < request_is_pause (v_request v)"

interpretation search: fair_loop "bt_turn g" "bt_loop g" "\<lambda>_. True" paused "search_inv g root" "result_post g root" "run_weight g" for g root
proof unfold_locales
  show "bt_loop g vs k r = (case bt_turn g (vs k) r of Inl x \<Rightarrow> Some x | Inr r' \<Rightarrow> bt_loop g vs (k + 1) r')" for vs k r
    by (rule bt_loop.simps)
  show "result_post g root v x" if "search_inv g root r" "bt_turn g v r = Inl x" for v r x
    using turn_inv[OF that(1), of v] that(2) turn_stopped[OF that(2)] by (simp add: result_post_def)
  show "search_inv g root r'" if "search_inv g root r" "bt_turn g v r = Inr r'" for v r r'
    using turn_inv[OF that(1), of v] that(2) by (simp add: turn_post_def)
  show "run_weight g r' < run_weight g r \<or> run_weight g r' = run_weight g r \<and> paused v" if "search_inv g root r" "bt_turn g v r = Inr r'" for v r r'
    using turn_weight[OF that] by auto
qed

text \<open>The same loop under a budget so small that no solution can be reached: nothing is
  recorded and nothing is handed over.\<close>

definition short_inv :: "bt_cfg \<Rightarrow> possibility_packet \<Rightarrow> bt_run \<Rightarrow> bool" where
  "short_inv g root r \<longleftrightarrow> search_inv g root r \<and> \<not> g_allow g \<and> g_budget g > 0 \<and> int (r_nodes r) \<le> g_budget g
     \<and> g_budget g < int (ETERN_PARTS (g_n g)) - int (possibility_placed_count (g_n g) root)
     \<and> r_solutions r = [] \<and> r_sent r = [] \<and> r_refused r = []"

definition short_post :: "bt_cfg \<Rightarrow> possibility_packet \<Rightarrow> bt_core_result \<times> bt_run \<Rightarrow> bool" where
  "short_post g root res \<longleftrightarrow> (fst res = BT_CORE_EXHAUSTED \<longrightarrow> compl g root = {})
     \<and> r_solutions (snd res) = [] \<and> r_sent (snd res) = [] \<and> r_refused (snd res) = []"

lemma short_hole:
  assumes "short_inv g root r" shows "e_placed (r_engine r) < ETERN_PARTS (g_n g)"
proof -
  obtain p where g: "cfg_ok g" and r: "run_at g root p r" using assms by (auto simp: short_inv_def search_inv_def)
  have "length (r_stack r) < r_nodes r" using r by (simp add: run_at_def)
  moreover have "int (r_nodes r) < int (ETERN_PARTS (g_n g)) - int (possibility_placed_count (g_n g) root)"
    using assms unfolding short_inv_def by linarith
  ultimately show ?thesis using run_at_facts(2)[OF g r] by linarith
qed

definition short_fields :: "bt_cfg \<Rightarrow> (bt_core_result \<times> bt_run) + bt_run \<Rightarrow> bool" where
  "short_fields g res \<longleftrightarrow> (case res of
      Inl (_, r') \<Rightarrow> r_solutions r' = [] \<and> r_sent r' = [] \<and> r_refused r' = []
    | Inr r' \<Rightarrow> r_solutions r' = [] \<and> r_sent r' = [] \<and> r_refused r' = [] \<and> int (r_nodes r') \<le> g_budget g)"

lemma turn_end_short:
  assumes "r_solutions r = []" "r_sent r = []" "r_refused r = []" "g_budget g > 0"
  shows "short_fields g (bt_turn_end g r)"
  using assms by (auto simp: bt_turn_end_def Let_def short_fields_def split: list.split prod.split if_splits)

lemma turn_short:
  assumes "short_inv g root r" shows "short_fields g (bt_turn g v r)"
proof -
  have h: "\<not> ETERN_PARTS (g_n g) \<le> e_placed (r_engine r)" using short_hole[OF assms] by simp
  have f: "\<not> g_allow g" "r_solutions r = []" "r_sent r = []" "r_refused r = []" "int (r_nodes r) \<le> g_budget g" "g_budget g > 0"
    using assms by (simp_all add: short_inv_def)
  have "short_fields g (bt_turn_end g (r\<lparr>r_stack := s\<rparr>))" for s by (rule turn_end_short) (simp_all add: f)
  moreover have "short_fields g (Inl (c, r))" "short_fields g (Inr r)" for c using f by (simp_all add: short_fields_def)
  ultimately show ?thesis using h f(1) by (simp add: bt_turn_def bt_delegation_turn_def)
qed

interpretation short: fair_loop "bt_turn g" "bt_loop g" "\<lambda>_. True" paused "short_inv g root" "\<lambda>_. short_post g root" "run_weight g" for g root
proof unfold_locales
  show "bt_loop g vs k r = (case bt_turn g (vs k) r of Inl x \<Rightarrow> Some x | Inr r' \<Rightarrow> bt_loop g vs (k + 1) r')" for vs k r
    by (rule bt_loop.simps)
  fix v r assume inv: "short_inv g root r"
  then have si: "search_inv g root r" by (simp add: short_inv_def)
  note f = turn_short[OF inv, of v] and t = turn_inv[OF si, of v]
  show "short_post g root x" if "bt_turn g v r = Inl x" for x
    using f t that by (cases x) (auto simp: short_post_def short_fields_def turn_post_def run_done_def)
  show "short_inv g root r'" if "bt_turn g v r = Inr r'" for r'
    using f t that inv by (simp add: short_inv_def short_fields_def turn_post_def)
  show "run_weight g r' < run_weight g r \<or> run_weight g r' = run_weight g r \<and> paused v" if "bt_turn g v r = Inr r'" for r'
    using turn_weight[OF si that] by auto
qed

lemma short_init:
  assumes "cfg_ok g" "ETERN_SIZE_supported (g_n g)" "good g root" "\<not> g_allow g" "g_budget g > 0"
    and "g_budget g < int (ETERN_PARTS (g_n g)) - int (possibility_placed_count (g_n g) root)"
  shows "short_inv g root (bt_run_init g st mx root)"
  using search_init_inv[OF assms(1-3)] assms(4-) by (simp add: short_inv_def bt_run_init_def Let_def)

lemma core_returns:
  assumes "cfg_ok g" "ETERN_SIZE_supported (g_n g)" "good g root" "\<forall>k. \<exists>k' \<ge> k. \<not> paused (vs k')"
  shows "\<exists>c r j. search_packet_backtracking_mrv g st mx vs root = Some (c, r) \<and> result_post g root (vs j) (c, r)"
  using search.returns[OF assms(4) TrueI search_init_inv[OF assms(1-3)], of 0 st mx]
  unfolding search_packet_backtracking_mrv_def by fastforce

lemma left_work:
  assumes g: "cfg_ok g" and inv: "search_inv g root r"
  shows "run_done g r \<union> compl g (e_board (r_engine r)) \<union> stack_work g (r_stack r) (e_board (r_engine r)) = compl g root"
proof -
  obtain p where p: "run_at g root p r" using inv by (auto simp: search_inv_def)
  have "run_done g r \<union> (compl g p \<union> stack_work g (r_stack r) p) = compl g root" using p by (simp add: run_at_def stands_def)
  then show ?thesis using stack_work_board[OF run_at_facts(3)[OF g p], of g "r_stack r"] by blast
qed

text \<open>The two searches of a client, as their callers use them.\<close>

lemma run_done_cfg [simp]: "run_done (g\<lparr>g_budget := b, g_allow := al\<rparr>) r = run_done g r"
  by (simp add: run_done_def)

lemma search_returns:
  assumes "cfg_ok g" "ETERN_SIZE_supported (g_n g)" "good g root" "\<forall>k. \<exists>k' \<ge> k. \<not> paused (vs k')"
  shows "\<exists>stopped r. search_packet_backtracking g st mx vs root = Some (stopped, r) \<and> run_done g r = compl g root
    \<and> (stopped \<longrightarrow> (\<exists>j. stopping (v_request (vs j))))"
proof -
  let ?g = "g\<lparr>g_budget := -1, g_allow := True\<rparr>"
  have "cfg_ok ?g" "ETERN_SIZE_supported (g_n ?g)" "good ?g root" using assms(1-3) by (simp_all add: cfg_ok_def)
  from core_returns[OF this assms(4), of st mx] obtain c r j where
    l: "search_packet_backtracking_mrv ?g st mx vs root = Some (c, r)" "result_post ?g root (vs j) (c, r)" by blast
  have "run_done g r = compl g root"
    using l(2) by (cases c) (simp_all add: result_post_def turn_post_def)
  then show ?thesis using l by (auto simp: search_packet_backtracking_def result_post_def)
qed

lemma budgeted_returns:
  assumes "cfg_ok g" "ETERN_SIZE_supported (g_n g)" "good g root" "\<forall>k. \<exists>k' \<ge> k. \<not> paused (vs k')"
  shows "\<exists>c r. search_packet_backtracking_budgeted g st mx vs root b = Some (c, r) \<and> run_done g r \<subseteq> compl g root
    \<and> (c = BT_CORE_EXHAUSTED \<longrightarrow> run_done g r = compl g root)"
proof -
  let ?g = "g\<lparr>g_budget := b, g_allow := False\<rparr>"
  have g: "cfg_ok ?g" "ETERN_SIZE_supported (g_n ?g)" "good ?g root" using assms(1-3) by (simp_all add: cfg_ok_def)
  from core_returns[OF this assms(4), of st mx] obtain c r j where
    l: "search_packet_backtracking_mrv ?g st mx vs root = Some (c, r)" "result_post ?g root (vs j) (c, r)" by blast
  have "run_done g r \<subseteq> compl g root" "c = BT_CORE_EXHAUSTED \<longrightarrow> run_done g r = compl g root"
    using l(2) left_work[OF g(1), of root r] by (cases c; auto simp: result_post_def turn_post_def)+
  then show ?thesis using l(1) by (auto simp: search_packet_backtracking_budgeted_def)
qed

section \<open>Properties of the search\<close>

definition sample_cfg :: bt_cfg where
  "sample_cfg = \<lparr>g_n = 4, g_map = prepare_map_part sample_rotations True True, g_rot = sample_rotations, g_scc = True,
     g_allow = True, g_budget = -1, g_max_stock = 1000, g_abandon = 0\<rparr>"

text \<open>An environment that asks for a pause at every odd turn and refuses every batch.\<close>

definition sample_env :: "nat \<Rightarrow> bt_env" where
  "sample_env k = \<lparr>v_request = (if odd k then REQUEST_PAUSE else REQUEST_CONTINUE), v_now = (int k, 0), v_hunger = 1,
     v_buffer = True, v_accept = (\<lambda>_. False)\<rparr>"

definition sample_stats :: fc_stats where
  "sample_stats = \<lparr>fc_attempts = 0, fc_pruned = 0, fc_cells_studied = 0, fc_singleton_conflict = 0, fc_pruned_at = replicate 4 0\<rparr>"

lemma sample_cfg_ok: "cfg_ok sample_cfg"
  using sample_rotation_table by (auto simp: cfg_ok_def sample_cfg_def)

lemma sample_fair: "\<forall>k. \<exists>k' \<ge> k. \<not> paused (sample_env k')"
proof
  fix k :: nat
  have "\<not> paused (sample_env (2 * k))" by (simp add: sample_env_def request_is_pause_def REQUEST_CONTINUE_def REQUEST_PAUSE_def REQUEST_ADMIN_PAUSE_def)
  then show "\<exists>k' \<ge> k. \<not> paused (sample_env k')" by (intro exI[of _ "2 * k"]) simp
qed

text \<open>C1. The search of a client always returns, provided that pauses do not last for ever, and
  it loses nothing: whatever was delegated, flushed or abandoned on the way, the full boards
  that complete the root are exactly those recorded as solutions and those that complete a
  packet handed over to the server (the batches it refused, which the code only logs,
  included).\<close>

theorem search_complete:
  assumes "cfg_ok g" "ETERN_SIZE_supported (g_n g)" "board_ok (g_n g) (g_rot g) root"
    and "\<forall>k. \<exists>k' \<ge> k. \<not> 0 < request_is_pause (v_request (vs k'))"
  shows "\<exists>stopped r. search_packet_backtracking g st mx vs root = Some (stopped, r)
    \<and> completions (g_n g) (g_rot g) (grid root)
      = grid ` set (r_solutions r) \<union> (\<Union>p \<in> set (r_sent r) \<union> set (r_refused r). completions (g_n g) (g_rot g) (grid p))"
  using search_returns[OF assms, of st mx] by (auto simp: run_done_def)

theorem search_complete_witness:
  "\<exists>stopped r. search_packet_backtracking sample_cfg sample_stats 0 sample_env sample_empty = Some (stopped, r)
    \<and> completions (g_n sample_cfg) (g_rot sample_cfg) (grid sample_empty)
      = grid ` set (r_solutions r) \<union> (\<Union>p \<in> set (r_sent r) \<union> set (r_refused r). completions (g_n sample_cfg) (g_rot sample_cfg) (grid p))"
  by (rule search_complete[OF sample_cfg_ok]) (use sample_supported sample_empty_ok sample_fair in \<open>simp_all add: sample_cfg_def\<close>)

text \<open>C4. Whatever the budget and whether delegation is allowed or not, a search that answers
  \<open>BT_CORE_EXHAUSTED\<close> has dealt with every completion of its root, and one that runs out of
  its budget or is stopped without flushing still holds the rest on its board and its stack.
  It always answers when pauses do not last for ever.\<close>

theorem search_core_complete:
  assumes "cfg_ok g" "ETERN_SIZE_supported (g_n g)" "board_ok (g_n g) (g_rot g) root"
    and "\<forall>k. \<exists>k' \<ge> k. \<not> 0 < request_is_pause (v_request (vs k'))"
  shows "\<exists>c r. search_packet_backtracking_mrv g st mx vs root = Some (c, r)
    \<and> (if c = BT_CORE_EXHAUSTED \<or> c = BT_CORE_STOPPED \<and> g_allow g
       then run_done g r = completions (g_n g) (g_rot g) (grid root)
       else run_done g r \<union> completions (g_n g) (g_rot g) (grid (e_board (r_engine r))) \<union> stack_work g (r_stack r) (e_board (r_engine r))
            = completions (g_n g) (g_rot g) (grid root))"
proof -
  obtain c r j where l: "search_packet_backtracking_mrv g st mx vs root = Some (c, r)" "result_post g root (vs j) (c, r)"
    using core_returns[OF assms, of st mx] by blast
  show ?thesis
    using l left_work[OF assms(1), of root r] by (cases c) (auto simp: result_post_def turn_post_def split: if_splits)
qed

theorem search_core_complete_witness:
  "\<exists>c r. search_packet_backtracking_mrv sample_cfg sample_stats 0 sample_env sample_empty = Some (c, r)
    \<and> (if c = BT_CORE_EXHAUSTED \<or> c = BT_CORE_STOPPED \<and> g_allow sample_cfg
       then run_done sample_cfg r = completions (g_n sample_cfg) (g_rot sample_cfg) (grid sample_empty)
       else run_done sample_cfg r \<union> completions (g_n sample_cfg) (g_rot sample_cfg) (grid (e_board (r_engine r)))
              \<union> stack_work sample_cfg (r_stack r) (e_board (r_engine r))
            = completions (g_n sample_cfg) (g_rot sample_cfg) (grid sample_empty))"
  by (rule search_core_complete[OF sample_cfg_ok]) (use sample_supported sample_empty_ok sample_fair in \<open>simp_all add: sample_cfg_def\<close>)

text \<open>C5. The short proof of a child always answers, and its verdict is a proof: when it says
  that the child is exhausted, no full board completes it (the budget is too small for a
  solution to have been found and dropped on the way).\<close>

theorem short_proof_sound:
  assumes "cfg_ok g" "ETERN_SIZE_supported (g_n g)" "board_ok (g_n g) (g_rot g) child"
    and "\<forall>k. \<exists>k' \<ge> k. \<not> 0 < request_is_pause (v_request (vs k'))"
  shows "\<exists>verdict nodes. etii_expand_short_proof g st mx vs child = Some (verdict, nodes)
    \<and> (if verdict then completions (g_n g) (g_rot g) (grid child) = {} else True)"
proof (cases "int (ETERN_PARTS (g_n g)) - int (possibility_placed_count (g_n g) child) \<le> EXPAND_PROOF_BUDGET")
  case True
  then show ?thesis by (intro exI[of _ False] exI[of _ 0]) (simp add: etii_expand_short_proof_def)
next
  case False
  let ?g = "g\<lparr>g_budget := EXPAND_PROOF_BUDGET, g_allow := False\<rparr>"
  have "short_inv ?g child (bt_run_init ?g st mx child)"
    by (rule short_init) (use assms False in \<open>simp_all add: cfg_ok_def EXPAND_PROOF_BUDGET_def\<close>)
  from short.returns[OF assms(4) TrueI this, of 0] obtain c r where l: "bt_loop ?g vs 0 (bt_run_init ?g st mx child) = Some (c, r)"
      "short_post ?g child (c, r)" by fastforce
  then show ?thesis using False
    by (auto simp: etii_expand_short_proof_def search_packet_backtracking_budgeted_def search_packet_backtracking_mrv_def short_post_def)
qed

theorem short_proof_sound_witness:
  "\<exists>verdict nodes. etii_expand_short_proof sample_cfg sample_stats 0 sample_env sample_empty = Some (verdict, nodes)
    \<and> (if verdict then completions (g_n sample_cfg) (g_rot sample_cfg) (grid sample_empty) = {} else True)"
  by (rule short_proof_sound[OF sample_cfg_ok]) (use sample_supported sample_empty_ok sample_fair in \<open>simp_all add: sample_cfg_def\<close>)

end
