(* ===== verification/Engine_Properties.thy ===== *)
theory Engine_Properties
  imports Search_Runs
begin

text \<open>
  Properties of the caches of the search engine and of the two decisions taken from them:
  the choice of the next cell and the look-ahead at the neighbours of a placed piece.
\<close>

section \<open>The caches of the engine\<close>

text \<open>The engines a search can reach: the initial one, and then any sequence of placing a
  candidate on an empty cell, taking the last piece back, and looking ahead. The list holds
  the placements, the last one first.\<close>

inductive engine_reach :: "bt_cfg \<Rightarrow> possibility_packet \<Rightarrow> (nat \<times> nat \<times> part) list \<Rightarrow> bt_engine \<Rightarrow> bool"
  for g :: bt_cfg and root :: possibility_packet where
  init: "engine_reach g root [] (bt_engine_init (g_n g) (g_map g) (g_rot g) root)"
| put: "engine_reach g root ls (bt_put (g_n g) (g_map g) (init_id_parts (g_n g)) x y q e)"
    if "engine_reach g root ms e" "x < g_n g" "y < g_n g" "grid (e_board e) ! cell_pos (g_n g) x y = -2"
      "q \<in> set (candidates (g_n g) (g_map g) (g_rot g) (e_board e) (cell_pos (g_n g) x y))" "ls = (x, y, q) # ms"
| take: "engine_reach g root ls (bt_take (g_n g) (g_map g) x y (nat (p_id q - 1)) e)"
    if "engine_reach g root ((x, y, q) # ls) e"
| look: "engine_reach g root ls (e\<lparr>e_front := front\<rparr>)"
    if "engine_reach g root ls e" "x < g_n g" "y < g_n g" "bt_alive g x y e st = (alive, front, st')"

text \<open>The board below a list of placements, and that each of them was a candidate.\<close>

fun placements :: "bt_cfg \<Rightarrow> possibility_packet \<Rightarrow> (nat \<times> nat \<times> part) list \<Rightarrow> possibility_packet" where
  "placements g root [] = root"
| "placements g root ((x, y, q) # ls) = place (g_n g) (cell_pos (g_n g) x y) q (placements g root ls)"

fun placements_ok :: "bt_cfg \<Rightarrow> possibility_packet \<Rightarrow> (nat \<times> nat \<times> part) list \<Rightarrow> bool" where
  "placements_ok g root [] \<longleftrightarrow> good g root"
| "placements_ok g root ((x, y, q) # ls) \<longleftrightarrow> placements_ok g root ls \<and> x < g_n g \<and> y < g_n g
     \<and> grid (placements g root ls) ! cell_pos (g_n g) x y = -2
     \<and> q \<in> set (candidates (g_n g) (g_map g) (g_rot g) (placements g root ls) (cell_pos (g_n g) x y))"

lemma placements_good:
  assumes "cfg_ok g" shows "placements_ok g root ls \<Longrightarrow> good g (placements g root ls)"
proof (induction ls)
  case (Cons z ls)
  obtain x y q where z: "z = (x, y, q)" by (cases z)
  obtain a b where R: "rotation_table (g_n g) (g_rot g)" and mp: "g_map g = prepare_map_part (g_rot g) a b"
    using assms by (auto simp: cfg_ok_def)
  show ?case using Cons z by (auto intro!: place_board_ok[OF R mp] cell_pos_less)
qed simp

lemma reach_placements:
  assumes g: "cfg_ok g" and root: "good g root"
  shows "engine_reach g root ls e \<Longrightarrow> placements_ok g root ls \<and> at g (placements g root ls) e"
proof (induction rule: engine_reach.induct)
  case init
  then show ?case using root by (simp add: engine_init_at)
next
  case (put ms e x y q ls)
  obtain a b where R: "rotation_table (g_n g) (g_rot g)" and mp: "g_map g = prepare_map_part (g_rot g) a b"
    using g by (auto simp: cfg_ok_def)
  let ?p = "placements g root ms" and ?c = "cell_pos (g_n g) x y"
  have h: "placements_ok g root ms" "at g ?p e" using put.IH by simp_all
  have p: "good g ?p" by (rule placements_good[OF g h(1)])
  have sc: "same_cells (e_board e) ?p" by (rule engine_board[OF h(2)])
  have c: "grid ?p ! ?c = -2" "q \<in> set (candidates (g_n g) (g_map g) (g_rot g) ?p ?c)"
    using put.hyps(4,5) sc same_cells_candidates[OF sc] by (simp_all add: same_cells_def)
  note cd = candidateD[OF R mp marks_grid[OF board_marks[OF p]] cell_pos_less[OF put.hyps(2,3)] c(2)]
  show ?case using h c put.hyps(2,3,6) engine_put_at[OF R h(2) board_marks[OF p] put.hyps(2,3) c(1) cd(1,2)] by simp
next
  case (take x y q ls e)
  obtain a b where R: "rotation_table (g_n g) (g_rot g)" and mp: "g_map g = prepare_map_part (g_rot g) a b"
    using g by (auto simp: cfg_ok_def)
  let ?p = "placements g root ls" and ?c = "cell_pos (g_n g) x y"
  have h: "placements_ok g root ls" "x < g_n g" "y < g_n g" "grid ?p ! ?c = -2"
    "q \<in> set (candidates (g_n g) (g_map g) (g_rot g) ?p ?c)" "at g (place (g_n g) ?c q ?p) e"
    using take.IH by simp_all
  have p: "good g ?p" by (rule placements_good[OF g h(1)])
  note cd = candidateD[OF R mp marks_grid[OF board_marks[OF p]] cell_pos_less[OF h(2,3)] h(5)]
  show ?case using h(1) engine_take_at[OF R h(6) board_marks[OF p] h(2-4) cd(1-3)] by simp
next
  case (look ls e x y st alive front st')
  then show ?case using alive_spec(1)[OF g _ placements_good[OF g]] by blast
qed

lemma engine_own_board: "at g p e \<Longrightarrow> at g (e_board e) e"
  using same_cells_engine[OF engine_board] by blast

text \<open>C6. Every incremental cache of the search engine stays equal to what a computation from
  the board would give, however many pieces are placed, taken back and looked ahead at: the
  constraint keys, the set of used pieces, the candidate masks, the number of pieces and the
  frontier (its bit sets of open cells and of empty cells and its neighbour counts). The
  board stays a legal position.\<close>

theorem engine_caches:
  assumes "cfg_ok g" "board_ok (g_n g) (g_rot g) root" "engine_reach g root ls e"
  shows "board_ok (g_n g) (g_rot g) (e_board e)
    \<and> e_keys e = bt_init_constraints (g_n g) (g_rot g) (int (sizearrayM (g_map g))) (e_board e)
    \<and> e_used e = mrv_used_init (g_n g) (b_faceused (e_board e))
    \<and> e_masks e = bt_mask_init (g_n g) (g_map g) (e_keys e)
    \<and> e_placed e = possibility_placed_count (g_n g) (e_board e)
    \<and> frontier_sync (g_n g) (e_board e) (e_front e)"
proof -
  have h: "placements_ok g root ls" "at g (placements g root ls) e" using reach_placements[OF assms] by simp_all
  have "good g (e_board e)" using placements_good[OF assms(1) h(1)] same_cells_ok(1)[OF engine_board[OF h(2)]] by simp
  then show ?thesis using engine_own_board[OF h(2)] unfolding engine_at_def by blast
qed

theorem engine_caches_witness:
  "let g = sample_cfg; e = bt_engine_init 4 (g_map g) sample_rotations sample_empty in
     board_ok 4 sample_rotations (e_board e)
    \<and> e_keys e = bt_init_constraints 4 sample_rotations (int (sizearrayM (g_map g))) (e_board e)
    \<and> e_used e = mrv_used_init 4 (b_faceused (e_board e))
    \<and> e_masks e = bt_mask_init 4 (g_map g) (e_keys e)
    \<and> e_placed e = possibility_placed_count 4 (e_board e)
    \<and> frontier_sync 4 (e_board e) (e_front e)"
  using engine_caches[OF sample_cfg_ok _ engine_reach.init, of sample_empty] sample_empty_ok
  by (simp add: sample_cfg_def Let_def)

text \<open>C7. The cell chosen for the next level is the same with the candidate masks as without
  them (the fast path reads only the masks and the bit set of used pieces, keeps a packed
  minimum and decodes the cell from it); the cell is an empty one; and no cell is chosen, on
  a board with an empty cell, only when no full board completes the position.\<close>

theorem choice_of_cell:
  assumes "cfg_ok g" "board_ok (g_n g) (g_rot g) root" "engine_reach g root ls e"
    and "e_placed e < ETERN_PARTS (g_n g)"
  shows "(if bt_masks_complete (g_n g) (g_map g) then mrv_choose_cell_fast (g_n g) e = mrv_choose_cell (g_n g) (g_map g) e else True)
    \<and> (case mrv_choose_cell (g_n g) (g_map g) e of
         None \<Rightarrow> completions (g_n g) (g_rot g) (grid (e_board e)) = {}
       | Some (x, y, k) \<Rightarrow> x < g_n g \<and> y < g_n g \<and> grid (e_board e) ! cell_pos (g_n g) x y = -2)"
proof -
  obtain a b where R: "rotation_table (g_n g) (g_rot g)" and mp: "g_map g = prepare_map_part (g_rot g) a b"
    using assms(1) by (auto simp: cfg_ok_def)
  have h: "placements_ok g root ls" "at g (placements g root ls) e" using reach_placements[OF assms(1-3)] by simp_all
  have e: "at g (e_board e) e" by (rule engine_own_board[OF h(2)])
  have p: "good g (e_board e)" using placements_good[OF assms(1) h(1)] same_cells_ok(1)[OF engine_board[OF h(2)]] by simp
  have hole: "possibility_placed_count (g_n g) (e_board e) < g_n g * g_n g" using e assms(4) by (simp add: engine_at_def)
  have "completions (g_n g) (g_rot g) (grid (e_board e)) = {}" if none: "mrv_choose_cell (g_n g) (g_map g) e = None"
    using new_level_ok(2)[OF assms(1) e p hole] none
    by (simp add: bt_new_level_def bt_choose_eq[OF assms(1) e] level_work_def level_pending_def)
  then show ?thesis using choose_cell_fast_eq[OF R _ e] choose_cell_empty[OF e] by (auto split: option.split)
qed

theorem choice_of_cell_witness:
  "let g = sample_cfg; e = bt_engine_init 4 (g_map g) sample_rotations sample_empty in
    (if bt_masks_complete 4 (g_map g) then mrv_choose_cell_fast 4 e = mrv_choose_cell 4 (g_map g) e else True)
    \<and> (case mrv_choose_cell 4 (g_map g) e of
         None \<Rightarrow> completions 4 sample_rotations (grid (e_board e)) = {}
       | Some (x, y, k) \<Rightarrow> x < 4 \<and> y < 4 \<and> grid (e_board e) ! cell_pos 4 x y = -2)"
proof -
  have "possibility_placed_count 4 sample_empty < 16" by code_simp
  then have "e_placed (bt_engine_init 4 (g_map sample_cfg) sample_rotations sample_empty) < 16" by (simp add: bt_engine_init_def Let_def)
  moreover have n: "g_n sample_cfg = 4" "g_rot sample_cfg = sample_rotations" by (simp_all add: sample_cfg_def)
  ultimately show ?thesis using choice_of_cell[OF sample_cfg_ok _ engine_reach.init, of sample_empty] sample_empty_ok
    unfolding n Let_def by simp
qed

text \<open>C8. The look-ahead after placing a piece, in both its forms and with or without the
  test of conflicting single candidates, refuses a position only when no full board
  completes it; with complete masks the fast form gives the same answer, the same weights
  and the same statistics as the plain one.\<close>

theorem look_ahead:
  assumes "cfg_ok g" "board_ok (g_n g) (g_rot g) root" "engine_reach g root ls e" "cx < g_n g" "cy < g_n g"
  shows "(if fst (bt_alive g cx cy e st) \<and> fst (bt_forward_check (g_n g) scc (g_map g) cx cy e st)
          then True else completions (g_n g) (g_rot g) (grid (e_board e)) = {})
    \<and> (if bt_masks_complete (g_n g) (g_map g)
       then bt_forward_check_fast (g_n g) cx cy e st = bt_forward_check (g_n g) False (g_map g) cx cy e st else True)"
proof -
  obtain a b where R: "rotation_table (g_n g) (g_rot g)" and mp: "g_map g = prepare_map_part (g_rot g) a b"
    using assms(1) by (auto simp: cfg_ok_def)
  have h: "placements_ok g root ls" "at g (placements g root ls) e" using reach_placements[OF assms(1-3)] by simp_all
  have e: "at g (e_board e) e" by (rule engine_own_board[OF h(2)])
  have p: "good g (e_board e)" using placements_good[OF assms(1) h(1)] same_cells_ok(1)[OF engine_board[OF h(2)]] by simp
  obtain alive front st' where al: "bt_alive g cx cy e st = (alive, front, st')" by (cases "bt_alive g cx cy e st")
  show ?thesis
    using alive_spec(2)[OF assms(1) e p assms(4,5) al] forward_check_refusal[OF R mp e board_marks[OF p] assms(4,5), of scc st]
      forward_check_fast_eq[OF _ e assms(4,5), of st] al by auto
qed

theorem look_ahead_witness:
  "let g = sample_cfg; e = bt_engine_init 4 (g_map g) sample_rotations sample_empty in
    (if fst (bt_alive g 1 2 e sample_stats) \<and> fst (bt_forward_check 4 True (g_map g) 1 2 e sample_stats)
          then True else completions 4 sample_rotations (grid (e_board e)) = {})
    \<and> (if bt_masks_complete 4 (g_map g)
       then bt_forward_check_fast 4 1 2 e sample_stats = bt_forward_check 4 False (g_map g) 1 2 e sample_stats else True)"
proof -
  have n: "g_n sample_cfg = 4" "g_rot sample_cfg = sample_rotations" by (simp_all add: sample_cfg_def)
  show ?thesis using look_ahead[OF sample_cfg_ok _ engine_reach.init, of sample_empty 1 2 sample_stats True] sample_empty_ok
    unfolding n Let_def by simp
qed

end
