(* ===== verification/Client_Steps.thy ===== *)
theory Client_Steps
  imports Engine_Properties
begin

text \<open>
  The two drivers of a client thread (\<open>etii_search.c\<close>): \<open>autosearch_step\<close> waits for a batch of
  positions and searches each of them, \<open>autoprune_step\<close> waits for a batch and keeps, closes or
  drops each of them. What happens outside the thread (the batches it is given, the requests,
  the answers of the server, allocations) comes from arguments. Both are shown to return
  and to lose no completion of the batch, except those below the batches the server refuses.
\<close>

section \<open>The state of a client thread\<close>

text \<open>What a thread writes outside: solutions, batches the server accepted, acknowledgements,
  counters. The program keeps no trace of a batch that was refused, it is freed; \<open>cl_refused\<close>
  records those packets, so that the properties can say what is lost.\<close>

record client_possibility =
  cl_solutions :: "possibility_packet list"
  cl_sent :: "possibility_packet list"
  cl_refused :: "possibility_packet list"
  cl_stats :: fc_stats
  cl_max_result :: nat
  cl_analysed :: nat
  cl_counter :: nat
  cl_cells_studied :: nat
  cl_checked :: nat
  cl_removed :: nat
  cl_dfs_nodes :: nat
  cl_dfs_closed :: nat








section \<open>The search step\<close>



section \<open>The batch of the positions kept alive\<close>






section \<open>The pruning step\<close>








section \<open>Refused batches\<close>

text \<open>The program frees a batch that the server refuses: the packets are lost. \<open>cl_refused\<close> and
  \<open>r_refused\<close> record them. \<open>refusals R ps qs\<close>: the record \<open>ps\<close> has been extended to \<open>qs\<close> by whole
  batches that satisfy \<open>R\<close>.\<close>

definition refusals :: "(possibility_packet list \<Rightarrow> bool) \<Rightarrow> possibility_packet list \<Rightarrow> possibility_packet list \<Rightarrow> bool" where
  "refusals R ps qs \<longleftrightarrow> (\<exists>bs. qs = ps @ concat bs \<and> (\<forall>b \<in> set bs. R b))"

lemma refusals_refl [simp]: "refusals R ps ps"
  by (auto simp: refusals_def intro: exI[of _ "[]"])




lemma delegate_refused [simp]: "r_refused (bt_delegate_if_needed g v r) = r_refused r"
  by (simp add: bt_delegate_if_needed_def Let_def run_materialized_def split: prod.split)







section \<open>What a step delivers\<close>

text \<open>The completions that are recorded as solutions or lie below a packet the server has accepted.\<close>

definition secured :: "bt_cfg \<Rightarrow> client_possibility \<Rightarrow> int list set" where
  "secured g c = grid ` set (cl_solutions c) \<union> (\<Union>p \<in> set (cl_sent c). compl g p)"

definition work_of :: "bt_cfg \<Rightarrow> possibility_packet list \<Rightarrow> int list set" where
  "work_of g ps = (\<Union>p \<in> set ps. compl g p)"


text \<open>\<open>in_hand\<close> counts the packets of a buffer too. \<open>delivers g R W s s'\<close>: between two states, \<open>W\<close> has
  been dealt with, up to the packets of batches that satisfy \<open>R\<close>, which are recorded as lost.\<close>

definition in_hand :: "bt_cfg \<Rightarrow> possibility_packet list \<times> client_possibility \<Rightarrow> int list set" where
  "in_hand g = (\<lambda>(buf, c). secured g c \<union> work_of g buf)"

definition delivers ::
  "bt_cfg \<Rightarrow> (possibility_packet list \<Rightarrow> bool) \<Rightarrow> int list set \<Rightarrow> possibility_packet list \<times> client_possibility
     \<Rightarrow> possibility_packet list \<times> client_possibility \<Rightarrow> bool" where
  "delivers g R W s s' \<longleftrightarrow> (\<exists>bs. cl_refused (snd s') = cl_refused (snd s) @ concat bs \<and> (\<forall>b \<in> set bs. R b)
     \<and> in_hand g s' \<union> work_of g (concat bs) = in_hand g s \<union> W)"



lemma delivers_mono: "delivers g R W s s' \<Longrightarrow> (\<And>b. R b \<Longrightarrow> R' b) \<Longrightarrow> delivers g R' W s s'"
  unfolding delivers_def by blast


















section \<open>Properties of the steps\<close>











end
