(* ===== verification/Packet_Codec.thy ===== *)
theory Packet_Codec
  imports Sample
begin

text \<open>
  The compact record of a position (\<open>packet_codec.c\<close>/\<open>.h\<close>): six header bytes, one bit
  per cell, and the values of the filled cells packed on \<open>PACKET_CODEC_VALUE_BITS\<close> bits
  each, little end first. Buffers are lists of bytes; an access outside a C buffer is the
  explicit error \<open>CE_Overflow\<close>. The lemmas show that a record decodes to the position it
  was made from, that its size is bounded, that re-canonicalising a record in place is
  the same as decoding and encoding it, and that a stream of records is read back.
\<close>

section \<open>Layout\<close>

definition PACKET_CODEC_HEADER_BYTES :: nat where
  "PACKET_CODEC_HEADER_BYTES = 6"

definition PACKET_CODEC_BITMAP_BYTES :: "nat \<Rightarrow> nat" where
  "PACKET_CODEC_BITMAP_BYTES n = (ETERN_PARTS n + 7) div 8"

definition PACKET_CODEC_VALUE_MAX :: "nat \<Rightarrow> nat" where
  "PACKET_CODEC_VALUE_MAX n = 4 * ETERN_PARTS n"

definition PACKET_CODEC_VALUE_BITS :: "nat \<Rightarrow> nat" where
  "PACKET_CODEC_VALUE_BITS n =
     (if PACKET_CODEC_VALUE_MAX n < 2 ^ 7 then 7
      else if PACKET_CODEC_VALUE_MAX n < 2 ^ 8 then 8
      else if PACKET_CODEC_VALUE_MAX n < 2 ^ 9 then 9
      else if PACKET_CODEC_VALUE_MAX n < 2 ^ 10 then 10
      else if PACKET_CODEC_VALUE_MAX n < 2 ^ 11 then 11 else 12)"

definition PACKET_CODEC_VALUE_BYTES :: "nat \<Rightarrow> nat \<Rightarrow> nat" where
  "PACKET_CODEC_VALUE_BYTES n a = (a * PACKET_CODEC_VALUE_BITS n + 7) div 8"

definition PACKET_CODEC_MAX_BYTES :: "nat \<Rightarrow> nat" where
  "PACKET_CODEC_MAX_BYTES n = PACKET_CODEC_HEADER_BYTES + PACKET_CODEC_BITMAP_BYTES n
     + PACKET_CODEC_VALUE_BYTES n (ETERN_PARTS n)"

text \<open>The size of the raw structure: two coordinates, the grid and two counters, the mask aligned on
  16 bytes, one flag, and the whole rounded up to that alignment.\<close>

definition align16 :: "nat \<Rightarrow> nat" where
  "align16 k = (k + 15) div 16 * 16"

definition sizeof_possibility_packet :: "nat \<Rightarrow> nat" where
  "sizeof_possibility_packet n = align16 (align16 (2 + 2 * ETERN_PARTS n + 2 + 2) + 2 * FACES_USED_SIZE n + 1)"

datatype codec_error = CE_Refused | CE_Overflow

definition put_u16 :: "u8 list \<Rightarrow> nat \<Rightarrow> u16 \<Rightarrow> u8 list" where
  "put_u16 b off v = b[off := ucast (v AND 0xFF), off + 1 := ucast (drop_bit 8 v)]"

definition get_u16 :: "u8 list \<Rightarrow> nat \<Rightarrow> u16" where
  "get_u16 b off = ucast (b ! off) OR push_bit 8 (ucast (b ! (off + 1)))"

definition packet_codec_placed :: "nat \<Rightarrow> possibility_packet \<Rightarrow> nat" where
  "packet_codec_placed n p =
     fold (\<lambda>x. fold (\<lambda>y placed. if grid_at n p x y \<noteq> -2 then placed + 1 else placed) [0..<n]) [0..<n] 0"

definition packet_codec_size_for :: "nat \<Rightarrow> nat \<Rightarrow> nat" where
  "packet_codec_size_for n placed =
     PACKET_CODEC_HEADER_BYTES + PACKET_CODEC_BITMAP_BYTES n + PACKET_CODEC_VALUE_BYTES n placed"

definition packet_codec_encoded_size :: "nat \<Rightarrow> possibility_packet \<Rightarrow> nat" where
  "packet_codec_encoded_size n p = packet_codec_size_for n (packet_codec_placed n p)"

section \<open>Packed values\<close>

definition or_byte :: "u8 list \<Rightarrow> nat \<Rightarrow> u8 \<Rightarrow> u8 list" where
  "or_byte plane i b = plane[i := plane ! i OR b]"

definition put_value :: "nat \<Rightarrow> u8 list \<Rightarrow> nat \<Rightarrow> u16 \<Rightarrow> u8 list" where
  "put_value n plane slot val =
     (let b = slot * PACKET_CODEC_VALUE_BITS n;
          byte = drop_bit 3 b;
          shift = b AND 7;
          v = push_bit shift (ucast val :: u32);
          plane1 = or_byte plane byte (ucast (v AND 0xFF));
          plane2 = or_byte plane1 (byte + 1) (ucast (drop_bit 8 v AND 0xFF))
      in if shift + PACKET_CODEC_VALUE_BITS n > 16
         then or_byte plane2 (byte + 2) (ucast (drop_bit 16 v AND 0xFF)) else plane2)"

definition get_value :: "nat \<Rightarrow> u8 list \<Rightarrow> nat \<Rightarrow> u16" where
  "get_value n plane slot =
     (let b = slot * PACKET_CODEC_VALUE_BITS n;
          byte = drop_bit 3 b;
          shift = b AND 7;
          v = ucast (plane ! byte) OR push_bit 8 (ucast (plane ! (byte + 1)) :: u32);
          v' = (if shift + PACKET_CODEC_VALUE_BITS n > 16
                then v OR push_bit 16 (ucast (plane ! (byte + 2))) else v)
      in ucast (drop_bit shift v' AND mask (PACKET_CODEC_VALUE_BITS n)))"

section \<open>Encoding\<close>

text \<open>The work plane is sized for a full board, with two spare bytes.\<close>

definition blank_plane :: "nat \<Rightarrow> u8 list" where
  "blank_plane n = replicate (PACKET_CODEC_VALUE_BYTES n (ETERN_PARTS n) + 2) 0"

text \<open>The cell loop of the encoder: the bitmap, the plane and the next slot; \<open>None\<close> for a
  value that has no representation.\<close>

fun encode_cells :: "nat \<Rightarrow> int list \<Rightarrow> nat list \<Rightarrow> u8 list \<Rightarrow> u8 list \<Rightarrow> nat \<Rightarrow> (u8 list \<times> u8 list) option" where
  "encode_cells n g [] bitmap plane k = Some (bitmap, plane)"
| "encode_cells n g (cell # cells) bitmap plane k =
     (let v = g ! cell in
      if v = -2 then encode_cells n g cells bitmap plane k
      else if v < 0 \<or> v > int (PACKET_CODEC_VALUE_MAX n) then None
      else encode_cells n g cells (or_byte bitmap (drop_bit 3 cell) (push_bit (cell AND 7) 1))
             (put_value n plane k (of_int v)) (k + 1))"

definition packet_codec_encode :: "nat \<Rightarrow> possibility_packet \<Rightarrow> nat \<Rightarrow> u8 list option" where
  "packet_codec_encode n p outsize =
     (let placed = packet_codec_placed n p; needed = packet_codec_size_for n placed in
      if outsize < needed then None
      else (let header = put_u16 [of_nat (px p), of_nat (py p), if checked p \<noteq> 0 then 1 else 0, 0, 0, 0]
                           4 (of_int (min_candidats p))
            in case encode_cells n (grid p) [0..<ETERN_PARTS n]
                      (replicate (PACKET_CODEC_BITMAP_BYTES n) 0) (blank_plane n) 0 of
                 None \<Rightarrow> None
               | Some (bitmap, plane) \<Rightarrow>
                   Some (header @ bitmap @ take (PACKET_CODEC_VALUE_BYTES n placed) plane)))"

section \<open>Decoding\<close>

text \<open>The bit count of a byte, one lowest set bit removed per turn.\<close>

lemma drop_lowest_bit_less: "(b :: u8) \<noteq> 0 \<Longrightarrow> unat (b AND (b - 1)) < unat b"
proof -
  assume "b \<noteq> 0"
  then have "unat (b - 1) < unat b" by (simp add: unat_minus_one unat_gt_0)
  moreover have "unat (b AND (b - 1)) \<le> unat (b - 1)"
    unfolding word_le_nat_alt[symmetric] by (metis and.commute word_and_le1)
  ultimately show ?thesis by simp
qed

function byte_bits :: "u8 \<Rightarrow> nat" where
  "byte_bits b = (if b \<noteq> 0 then byte_bits (b AND (b - 1)) + 1 else 0)"
  by auto
termination by (relation "measure unat") (simp_all add: drop_lowest_bit_less)

definition record_placed :: "nat \<Rightarrow> u8 list \<Rightarrow> nat" where
  "record_placed n bs =
     fold (\<lambda>i placed. placed + byte_bits (bs ! (PACKET_CODEC_HEADER_BYTES + i))) [0..<PACKET_CODEC_BITMAP_BYTES n] 0"

definition load_plane :: "nat \<Rightarrow> u8 list \<Rightarrow> u8 list option" where
  "load_plane n values =
     (if length values \<le> length (blank_plane n)
      then Some (values @ drop (length values) (blank_plane n)) else None)"

fun decode_cells ::
  "nat \<Rightarrow> u8 list \<Rightarrow> u8 list \<Rightarrow> nat list \<Rightarrow> nat \<Rightarrow> possibility_packet \<Rightarrow> possibility_packet option" where
  "decode_cells n bs plane [] k out = Some out"
| "decode_cells n bs plane (cell # cells) k out =
     (if drop_bit (cell AND 7) (bs ! (PACKET_CODEC_HEADER_BYTES + drop_bit 3 cell)) AND 1 = 0
      then decode_cells n bs plane cells k out
      else (let v = unat (get_value n plane k) in
        if v > PACKET_CODEC_VALUE_MAX n then None
        else (let out1 = out\<lparr>grid := (grid out)[cell := int v]\<rparr>;
                  out2 = (if v \<ge> 1
                          then out1\<lparr>b_faceused := set_face_used (b_faceused out1) ((v - 1) mod ETERN_PARTS n) 1\<rparr>
                          else out1)
              in decode_cells n bs plane cells (k + 1) out2)))"

definition packet_codec_decode :: "nat \<Rightarrow> u8 list \<Rightarrow> codec_error + possibility_packet \<times> nat" where
  "packet_codec_decode n bs =
     (if length bs < PACKET_CODEC_HEADER_BYTES + PACKET_CODEC_BITMAP_BYTES n then Inl CE_Refused
      else (let placed = record_placed n bs; total = packet_codec_size_for n placed in
        if length bs < total then Inl CE_Refused
        else case load_plane n (take (PACKET_CODEC_VALUE_BYTES n placed)
                    (drop (PACKET_CODEC_HEADER_BYTES + PACKET_CODEC_BITMAP_BYTES n) bs)) of
               None \<Rightarrow> Inl CE_Overflow
             | Some plane \<Rightarrow>
                 (case decode_cells n bs plane [0..<ETERN_PARTS n] 0
                    \<lparr>px = unat (bs ! 0), py = unat (bs ! 1), grid = replicate (ETERN_PARTS n) (-2),
                     alloc = 0, min_candidats = sint (get_u16 bs 4),
                     b_faceused = replicate (FACES_USED_SIZE n) 0,
                     checked = (if bs ! 2 = 1 then 1 else 0)\<rparr> of
                    None \<Rightarrow> Inl CE_Refused
                  | Some out \<Rightarrow> Inr (out\<lparr>alloc := placed mod 2 ^ 16\<rparr>, total))))"

section \<open>Reading and editing a record in place\<close>

text \<open>The bitmap is counted by words of eight bytes, then byte by byte.\<close>

definition load_u64 :: "u8 list \<Rightarrow> nat \<Rightarrow> u64" where
  "load_u64 bs i = fold (\<lambda>j w. w OR push_bit (8 * j) (ucast (bs ! (i + j)))) [0..<8] 0"

function bitmap_words :: "nat \<Rightarrow> u8 list \<Rightarrow> nat \<Rightarrow> nat \<Rightarrow> nat \<times> nat" where
  "bitmap_words nb bitmap i placed =
     (if i + 8 \<le> nb then bitmap_words nb bitmap (i + 8) (placed + etii_popcount64 (load_u64 bitmap i))
      else (i, placed))"
  by auto
termination by (relation "measure (\<lambda>(nb, bitmap, i, placed). nb - i)") auto

function bitmap_bytes :: "nat \<Rightarrow> u8 list \<Rightarrow> nat \<Rightarrow> nat \<Rightarrow> nat" where
  "bitmap_bytes nb bitmap i placed =
     (if i < nb then bitmap_bytes nb bitmap (i + 1) (placed + etii_popcount64 (ucast (bitmap ! i)))
      else placed)"
  by auto
termination by (relation "measure (\<lambda>(nb, bitmap, i, placed). nb - i)") auto

definition bitmap_placed :: "nat \<Rightarrow> u8 list \<Rightarrow> nat" where
  "bitmap_placed n bitmap =
     (let nb = PACKET_CODEC_BITMAP_BYTES n; (i, placed) = bitmap_words nb bitmap 0 0
      in bitmap_bytes nb bitmap i placed)"

text \<open>The result of \<open>packet_codec_canonicalize\<close>: 0 for an incomplete record, -1 for an
  incoherent one, else its length; the buffer and the number of filled cells.\<close>

definition packet_codec_canonicalize :: "nat \<Rightarrow> u8 list \<Rightarrow> int \<Rightarrow> int \<times> u8 list \<times> nat" where
  "packet_codec_canonicalize n rec mc =
     (let prefix = PACKET_CODEC_HEADER_BYTES + PACKET_CODEC_BITMAP_BYTES n in
      if length rec < prefix then (0, rec, 0)
      else (let bitmap = drop PACKET_CODEC_HEADER_BYTES rec; placed = bitmap_placed n bitmap in
        if ETERN_PARTS n mod 8 \<noteq> 0
           \<and> drop_bit (ETERN_PARTS n mod 8) (bitmap ! (PACKET_CODEC_BITMAP_BYTES n - 1)) \<noteq> 0 then (-1, rec, 0)
        else (let total = packet_codec_size_for n placed; plane_bytes = PACKET_CODEC_VALUE_BYTES n placed in
          if length rec < total then (0, rec, 0)
          else (let values = take plane_bytes (drop prefix rec);
                    plane = values @ drop plane_bytes (blank_plane n) in
            if list_ex (\<lambda>k. unat (get_value n plane k) > PACKET_CODEC_VALUE_MAX n) [0..<placed]
            then (-1, rec, 0)
            else (let used_bits = placed * PACKET_CODEC_VALUE_BITS n;
                      rec1 = (if used_bits mod 8 \<noteq> 0
                              then rec[prefix + plane_bytes - 1 :=
                                         rec ! (prefix + plane_bytes - 1) AND mask (used_bits mod 8)]
                              else rec);
                      rec2 = rec1[2 := if rec1 ! 2 = 1 then 1 else 0, 3 := 0];
                      rec3 = put_u16 rec2 4 (of_int mc)
                  in (int total, rec3, placed))))))"

definition packet_codec_peek_placed :: "nat \<Rightarrow> u8 list \<Rightarrow> nat" where
  "packet_codec_peek_placed n bs =
     (if length bs < PACKET_CODEC_HEADER_BYTES + PACKET_CODEC_BITMAP_BYTES n then 0
      else bitmap_placed n (drop PACKET_CODEC_HEADER_BYTES bs) mod 2 ^ 16)"

definition packet_codec_peek_min_candidats :: "u8 list \<Rightarrow> int" where
  "packet_codec_peek_min_candidats bs =
     (if length bs < PACKET_CODEC_HEADER_BYTES then POSSIBILITY_MIN_CANDIDATS_UNKNOWN else sint (get_u16 bs 4))"

definition packet_codec_poke_checked :: "u8 list \<Rightarrow> nat \<Rightarrow> int \<times> u8 list" where
  "packet_codec_poke_checked out chk =
     (if length out < PACKET_CODEC_HEADER_BYTES then (-1, out)
      else (0, out[2 := if chk \<noteq> 0 then 1 else 0]))"

definition packet_codec_peek_checked :: "u8 list \<Rightarrow> int" where
  "packet_codec_peek_checked bs =
     (if length bs < PACKET_CODEC_HEADER_BYTES then -1 else int (unat (bs ! 2)))"

declare byte_bits.simps [simp del] bitmap_words.simps [simp del] bitmap_bytes.simps [simp del]

section \<open>Bit planes\<close>

definition plane_bit :: "u8 list \<Rightarrow> nat \<Rightarrow> bool" where
  "plane_bit pl i \<longleftrightarrow> bit (pl ! (i div 8)) (i mod 8)"

lemma length_or_byte [simp]: "length (or_byte pl i b) = length pl"
  by (simp add: or_byte_def)

lemma plane_bit_or_byte:
  "j < length pl \<Longrightarrow> plane_bit (or_byte pl j b) i \<longleftrightarrow> plane_bit pl i \<or> i div 8 = j \<and> bit b (i mod 8)"
  by (auto simp: plane_bit_def or_byte_def bit_or_iff nth_list_update)

lemma length_put_value [simp]: "length (put_value n pl k v) = length pl"
  by (simp add: put_value_def Let_def)

lemma value_bits_range: "7 \<le> PACKET_CODEC_VALUE_BITS n" "PACKET_CODEC_VALUE_BITS n \<le> 12"
  by (simp_all add: PACKET_CODEC_VALUE_BITS_def)

lemma nat_and_7: "b AND 7 = b mod (8::nat)"
  using take_bit_eq_mask[of 3 b] by (simp add: take_bit_eq_mod mask_eq_exp_minus_1)

lemma byte_of_word32_bit:
  "bit (ucast (drop_bit (8 * j) (v :: u32) AND 0xFF) :: u8) i \<longleftrightarrow> i < 8 \<and> bit v (8 * j + i)"
proof -
  have m: "(0xFF :: u32) = mask 8" by (simp add: mask_eq_exp_minus_1)
  show ?thesis unfolding m by (auto simp: bit_ucast_iff bit_and_iff bit_mask_iff bit_drop_bit_eq)
qed

lemma three_bytes:
  "8 * q \<le> (i::nat) \<and> i < 8 * q + 24 \<longleftrightarrow> i div 8 = q \<or> i div 8 = q + 1 \<or> i div 8 = q + 2"
proof -
  define d m where "d = i div 8" and "m = i mod 8"
  have "i = 8 * d + m" "m < 8" by (simp_all add: d_def m_def)
  then have "8 * q \<le> i \<and> i < 8 * q + 24 \<longleftrightarrow> q \<le> d \<and> d < q + 3" by auto
  also have "\<dots> \<longleftrightarrow> d = q \<or> d = q + 1 \<or> d = q + 2" by auto
  finally show ?thesis by (simp only: d_def)
qed

lemma byte_offset: "i div 8 = q + d \<Longrightarrow> i - 8 * q = 8 * d + i mod (8::nat)"
  using div_mult_mod_eq[of i 8] by (simp add: algebra_simps)

lemma three_bytes_bit:
  "(i div 8 = q \<and> P (i mod 8) \<or> i div 8 = q + 1 \<and> P (8 + i mod 8) \<or> i div 8 = q + 2 \<and> P (16 + i mod 8))
     \<longleftrightarrow> 8 * q \<le> i \<and> i < 8 * q + 24 \<and> P (i - 8 * (q::nat))"
proof (cases "8 * q \<le> i \<and> i < 8 * q + 24")
  case True
  then consider "i div 8 = q" | "i div 8 = q + 1" | "i div 8 = q + 2" using three_bytes by blast
  then show ?thesis using True byte_offset[of i q 0] byte_offset[of i q 1] byte_offset[of i q 2]
    by cases simp_all
next
  case False
  then show ?thesis using three_bytes by blast
qed

text \<open>Writing a value of the slot width sets exactly its bits at the slot.\<close>

lemma plane_bit_put_value:
  assumes v: "unat v < 2 ^ PACKET_CODEC_VALUE_BITS n"
    and len: "PACKET_CODEC_VALUE_BITS n * k div 8 + 2 < length pl"
  shows "plane_bit (put_value n pl k v) i \<longleftrightarrow> plane_bit pl i
     \<or> PACKET_CODEC_VALUE_BITS n * k \<le> i \<and> bit v (i - PACKET_CODEC_VALUE_BITS n * k)"
proof -
  let ?W = "PACKET_CODEC_VALUE_BITS n"
  let ?q = "?W * k div 8" and ?r = "?W * k mod 8"
  let ?v = "push_bit ?r (ucast v :: u32)"
  have Wk: "?W * k = 8 * ?q + ?r" and r: "?r < 8" by simp_all
  have vb: "bit v j \<Longrightarrow> j < ?W" for j using bit_nat_less_exp[OF v, of j] by simp
  have v32: "bit ?v j \<longleftrightarrow> ?r \<le> j \<and> bit v (j - ?r)" for j
    using vb[of "j - ?r"] value_bits_range(2)[of n] r
    by (auto simp: bit_push_bit_iff bit_ucast_iff)
  have b0: "bit (ucast (?v AND 0xFF) :: u8) j \<longleftrightarrow> j < 8 \<and> bit ?v j" for j
    using byte_of_word32_bit[of 0 ?v j] by simp
  have b1: "bit (ucast (drop_bit 8 ?v AND 0xFF) :: u8) j \<longleftrightarrow> j < 8 \<and> bit ?v (8 + j)" for j
    using byte_of_word32_bit[of 1 ?v j] by simp
  have b2: "bit (ucast (drop_bit 16 ?v AND 0xFF) :: u8) j \<longleftrightarrow> j < 8 \<and> bit ?v (16 + j)" for j
    using byte_of_word32_bit[of 2 ?v j] by simp
  have split: "plane_bit (put_value n pl k v) i \<longleftrightarrow> plane_bit pl i
      \<or> i div 8 = ?q \<and> bit ?v (i mod 8) \<or> i div 8 = ?q + 1 \<and> bit ?v (8 + i mod 8)
      \<or> i div 8 = ?q + 2 \<and> ?r + ?W > 16 \<and> bit ?v (16 + i mod 8)"
    using len
    by (auto simp: put_value_def Let_def mult.commute[of k] drop_bit_eq_div[where 'a = nat] nat_and_7
        plane_bit_or_byte b0 b1 b2)
  have third: "\<not> bit ?v (16 + j)" if "\<not> ?r + ?W > 16" for j
    using that vb[of "16 + j - ?r"] by (auto simp: v32)
  have "(i div 8 = ?q \<and> bit ?v (i mod 8) \<or> i div 8 = ?q + 1 \<and> bit ?v (8 + i mod 8)
      \<or> i div 8 = ?q + 2 \<and> ?r + ?W > 16 \<and> bit ?v (16 + i mod 8))
     \<longleftrightarrow> 8 * ?q \<le> i \<and> i < 8 * ?q + 24 \<and> bit ?v (i - 8 * ?q)"
    unfolding three_bytes_bit[symmetric] using third[of "i mod 8"] by blast
  also have "\<dots> \<longleftrightarrow> ?W * k \<le> i \<and> bit v (i - ?W * k)"
    (is "?L \<longleftrightarrow> ?R")
  proof
    assume L: ?L
    then have "?r \<le> i - 8 * ?q" "bit v (i - 8 * ?q - ?r)" by (simp_all only: v32)
    moreover have "i - 8 * ?q - ?r = i - ?W * k" using Wk by linarith
    moreover have "?W * k \<le> i" using L Wk calculation(1) by linarith
    ultimately show ?R by simp
  next
    assume R: ?R
    then have "i - ?W * k < ?W" using vb by blast
    then have "8 * ?q \<le> i" "i < 8 * ?q + 24" "?r \<le> i - 8 * ?q"
      using R Wk r value_bits_range(2)[of n] by linarith+
    moreover have "i - 8 * ?q - ?r = i - ?W * k" using Wk by linarith
    ultimately show ?L using R by (simp only: v32)
  qed
  finally show ?thesis using split by blast
qed

text \<open>Reading a slot returns its bits, and nothing of the neighbouring slots.\<close>

lemma bit_get_value: "bit (get_value n pl k) j \<longleftrightarrow> j < PACKET_CODEC_VALUE_BITS n \<and> plane_bit pl (PACKET_CODEC_VALUE_BITS n * k + j)"
proof -
  let ?W = "PACKET_CODEC_VALUE_BITS n"
  let ?q = "?W * k div 8" and ?r = "?W * k mod 8"
  let ?v = "ucast (pl ! ?q) OR push_bit 8 (ucast (pl ! (?q + 1)) :: u32)"
  let ?v' = "if ?r + ?W > 16 then ?v OR push_bit 16 (ucast (pl ! (?q + 2))) else ?v"
  have Wk: "?W * k = 8 * ?q + ?r" and r: "?r < 8" by simp_all
  have W: "?W \<le> 12" by (rule value_bits_range)
  have def: "get_value n pl k = ucast (drop_bit ?r ?v' AND mask ?W)"
    by (simp only: get_value_def Let_def mult.commute[of k] drop_bit_eq_div[where 'a = nat] nat_and_7 power3_eq_cube) simp
  have bound: "bit (b :: u8) i \<Longrightarrow> i < 8" for b i using bit_imp_le_length[of b i] by simp
  have bv: "bit ?v' t \<longleftrightarrow> plane_bit pl (8 * ?q + t)" if t: "t < ?r + ?W" for t
  proof -
    have pb: "plane_bit pl (8 * ?q + t) \<longleftrightarrow> bit (pl ! (?q + t div 8)) (t mod 8)" by (simp add: plane_bit_def)
    have "t < 24" using t r W by linarith
    then consider "t < 8" | "8 \<le> t" "t < 16" | "16 \<le> t" "t < 24" by linarith
    then show ?thesis
    proof cases
      case 1
      then show ?thesis unfolding pb by (auto simp: bit_or_iff bit_push_bit_iff bit_ucast_iff)
    next
      case 2
      then have "t div 8 = 1" "t mod 8 = t - 8" by (auto simp: div_nat_eqI mod_if)
      then show ?thesis unfolding pb using 2 bound[of "pl ! ?q" t]
        by (auto simp: bit_or_iff bit_push_bit_iff bit_ucast_iff)
    next
      case 3
      then have "t div 8 = 2" "t mod 8 = t - 16" by (auto simp: div_nat_eqI mod_if)
      then show ?thesis unfolding pb using 3 t bound[of "pl ! ?q" t] bound[of "pl ! (?q + 1)" "t - 8"]
        by (auto simp: bit_or_iff bit_push_bit_iff bit_ucast_iff)
    qed
  qed
  have "bit (get_value n pl k) j \<longleftrightarrow> j < 16 \<and> j < ?W \<and> bit ?v' (?r + j)"
    unfolding def by (auto simp: bit_ucast_iff bit_and_iff bit_mask_iff bit_drop_bit_eq)
  also have "\<dots> \<longleftrightarrow> j < ?W \<and> plane_bit pl (8 * ?q + (?r + j))" using bv[of "?r + j"] W by auto
  also have "8 * ?q + (?r + j) = ?W * k + j" using Wk by linarith
  finally show ?thesis .
qed

lemma get_value_eqI:
  assumes "v < 2 ^ PACKET_CODEC_VALUE_BITS n"
    and "\<And>j. j < PACKET_CODEC_VALUE_BITS n \<Longrightarrow> plane_bit pl (PACKET_CODEC_VALUE_BITS n * k + j) = bit v j"
  shows "unat (get_value n pl k) = v"
proof (rule nat_eqI_bits)
  fix j
  show "bit (unat (get_value n pl k)) j = bit v j"
    using assms(2)[of j] bit_nat_less_exp[OF assms(1), of j] by (auto simp: bit_get_value)
qed

lemma get_value_less: "unat (get_value n pl k) < 2 ^ PACKET_CODEC_VALUE_BITS n"
proof -
  have "take_bit (PACKET_CODEC_VALUE_BITS n) (unat (get_value n pl k)) = unat (get_value n pl k)"
    by (rule nat_eqI_bits) (auto simp: bit_take_bit_iff bit_get_value)
  then show ?thesis by (metis take_bit_nat_less_exp)
qed

text \<open>Planes that agree on the bits of the slots agree on the values.\<close>

lemma get_value_cong:
  "(\<And>i. i < PACKET_CODEC_VALUE_BITS n * Suc k \<Longrightarrow> plane_bit pl i = plane_bit pl' i) \<Longrightarrow>
   get_value n pl k = get_value n pl' k"
  by (rule bit_word_eqI) (auto simp: bit_get_value)

section \<open>Counting bits\<close>

lemma byte_bits_table:
  "list_all (\<lambda>k. byte_bits (of_int k) = length (filter (bit (of_int k :: u8)) [0, 1, 2, 3, 4, 5, 6, 7])) [0..255]"
  by code_simp

lemma byte_bits_filter: "byte_bits b = length (filter (bit b) [0..<8])"
proof -
  have "uint b \<in> set [0..255]" using uint_ge_0[of b] uint_lt2p[of b] by simp
  moreover have "[0..<8] = [0, 1, 2, 3, 4, 5, 6, 7::nat]" by (simp add: upt_rec)
  ultimately show ?thesis using byte_bits_table unfolding list_all_iff by (metis word_of_int_uint)
qed

lemma filter_card: "length (filter P [0..<k]) = card {i. i < k \<and> P i}"
proof -
  have "set (filter P [0..<k]) = {i. i < k \<and> P i}" by auto
  then show ?thesis using distinct_card[of "filter P [0..<k]"] by simp
qed

lemma bits_by_bytes:
  "(\<Sum>i < m. length (filter (bit (pl ! i)) [0..<8])) = length (filter (plane_bit pl) [0..<8 * m])"
proof (induction m)
  case (Suc m)
  have "filter (plane_bit pl) [8 * m..<8 * m + 8] = filter (plane_bit pl) (map (\<lambda>i. i + 8 * m) [0..<8])"
    unfolding map_add_upt by (simp add: add.commute)
  also have "length \<dots> = length (filter (\<lambda>i. plane_bit pl (i + 8 * m)) [0..<8])"
    by (simp only: filter_map length_map comp_def)
  also have "\<dots> = length (filter (bit (pl ! m)) [0..<8])"
    by (intro arg_cong[where f = length] filter_cong) (auto simp: plane_bit_def)
  finally have "length (filter (plane_bit pl) [8 * m..<8 * m + 8]) = length (filter (bit (pl ! m)) [0..<8])" .
  moreover have "[0..<8 * Suc m] = [0..<8 * m] @ [8 * m..<8 * m + 8]"
    using upt_add_eq_append[of 0 "8 * m" 8] by (simp add: add.commute)
  ultimately show ?case using Suc by simp
qed simp

lemma fold_sum: "fold (\<lambda>i acc. acc + f i) [0..<m] a = a + (\<Sum>i < m. f i)" for a :: nat
  by (induction m) simp_all

lemma record_placed_bits:
  "record_placed n bs = length (filter (plane_bit (drop PACKET_CODEC_HEADER_BYTES bs)) [0..<8 * PACKET_CODEC_BITMAP_BYTES n])"
  if "PACKET_CODEC_HEADER_BYTES + PACKET_CODEC_BITMAP_BYTES n \<le> length bs"
proof -
  have "record_placed n bs = (\<Sum>i < PACKET_CODEC_BITMAP_BYTES n. byte_bits (bs ! (PACKET_CODEC_HEADER_BYTES + i)))"
    by (simp only: record_placed_def fold_sum add_0)
  also have "\<dots> = (\<Sum>i < PACKET_CODEC_BITMAP_BYTES n. length (filter (bit (drop PACKET_CODEC_HEADER_BYTES bs ! i)) [0..<8]))"
    using that by (intro sum.cong) (simp_all add: byte_bits_filter)
  finally show ?thesis by (simp only: bits_by_bytes)
qed

lemma popcount_byte: "etii_popcount64 (ucast (b :: u8)) = length (filter (bit b) [0..<8])"
proof -
  have "bit b i \<Longrightarrow> i < 8 \<and> i < 64" for i using bit_imp_le_length[of b i] by simp
  then have "{i. i < 64 \<and> bit (ucast b :: u64) i} = {i. i < 8 \<and> bit b i}"
    by (auto simp: bit_ucast_iff)
  then show ?thesis by (simp only: etii_popcount64_def filter_card)
qed

lemma bit_load_u64_fold:
  "j < 64 \<Longrightarrow> m \<le> 8 \<Longrightarrow>
   bit (fold (\<lambda>j w. w OR push_bit (8 * j) (ucast (bs ! (i + j)))) [0..<m] (0 :: u64)) j
     \<longleftrightarrow> j < 8 * m \<and> bit ((bs :: u8 list) ! (i + j div 8)) (j mod 8)"
proof (induction m)
  case (Suc m)
  have "bit (push_bit (8 * m) (ucast (bs ! (i + m)) :: u64)) j \<longleftrightarrow> j div 8 = m \<and> bit (bs ! (i + m)) (j mod 8)"
  proof (cases "j div 8 = m")
    case True
    then have "8 * m \<le> j" "j - 8 * m = j mod 8" using byte_offset[of j m 0] by (auto simp: algebra_simps)
    moreover have "j mod 8 < 64" by (rule less_trans[of _ 8]) simp_all
    ultimately show ?thesis using True Suc.prems by (simp add: bit_push_bit_iff bit_ucast_iff)
  next
    case False
    have "8 * m \<le> j \<Longrightarrow> bit (bs ! (i + m)) (j - 8 * m) \<Longrightarrow> j div 8 = m"
      using bit_imp_le_length[of "bs ! (i + m)" "j - 8 * m"] by (intro div_nat_eqI) auto
    then show ?thesis using False by (auto simp: bit_push_bit_iff bit_ucast_iff)
  qed
  moreover have "j < 8 * Suc m \<longleftrightarrow> j < 8 * m \<or> j div 8 = m" by auto
  ultimately show ?case using Suc by (auto simp: bit_or_iff)
qed simp

lemma popcount_load_u64:
  "etii_popcount64 (load_u64 bs i) = length (filter (plane_bit bs) [8 * i..<8 * (i + 8)])"
proof -
  have "bit (load_u64 bs i) j \<longleftrightarrow> plane_bit bs (8 * i + j)" if "j < 64" for j
    using bit_load_u64_fold[OF that, of 8 bs i] that by (simp add: load_u64_def plane_bit_def)
  then have "etii_popcount64 (load_u64 bs i) = length (filter (\<lambda>j. plane_bit bs (8 * i + j)) [0..<64])"
    unfolding etii_popcount64_def by (intro arg_cong[where f = length] filter_cong) auto
  also have "\<dots> = length (filter (plane_bit bs) (map (\<lambda>j. j + 8 * i) [0..<64]))"
    by (simp only: filter_map length_map comp_def add.commute)
  also have "map (\<lambda>j. j + 8 * i) [0..<64] = [8 * i..<8 * (i + 8)]"
    unfolding map_add_upt by (simp add: add.commute)
  finally show ?thesis .
qed

lemma bitmap_words_spec:
  "i \<le> nb \<Longrightarrow> k = length (filter (plane_bit bm) [0..<8 * i]) \<Longrightarrow>
   (case bitmap_words nb bm i k of (i', k') \<Rightarrow> i' \<le> nb \<and> k' = length (filter (plane_bit bm) [0..<8 * i']))"
proof (induction nb bm i k rule: bitmap_words.induct)
  case (1 nb bm i k)
  show ?case
  proof (cases "i + 8 \<le> nb")
    case True
    have "[0..<8 * (i + 8)] = [0..<8 * i] @ [8 * i..<8 * (i + 8)]"
      using upt_add_eq_append[of 0 "8 * i" 64] by (simp add: add.commute)
    then have "k + etii_popcount64 (load_u64 bm i) = length (filter (plane_bit bm) [0..<8 * (i + 8)])"
      using 1(3) by (simp add: popcount_load_u64)
    then show ?thesis using 1(1)[OF True True] True by (simp add: bitmap_words.simps[of nb bm i])
  next
    case False
    then show ?thesis using 1 by (simp add: bitmap_words.simps[of nb bm i])
  qed
qed

lemma bitmap_bytes_spec:
  "i \<le> nb \<Longrightarrow> k = length (filter (plane_bit bm) [0..<8 * i]) \<Longrightarrow>
   bitmap_bytes nb bm i k = length (filter (plane_bit bm) [0..<8 * nb])"
proof (induction nb bm i k rule: bitmap_bytes.induct)
  case (1 nb bm i k)
  show ?case
  proof (cases "i < nb")
    case True
    have "k + etii_popcount64 (ucast (bm ! i)) = length (filter (plane_bit bm) [0..<8 * (i + 1)])"
      using 1(3) bits_by_bytes[of bm "i + 1"] bits_by_bytes[of bm i] by (simp add: popcount_byte)
    then show ?thesis using 1(1)[OF True] True by (simp add: bitmap_bytes.simps[of nb bm i])
  next
    case False
    then show ?thesis using 1(2,3) by (subst bitmap_bytes.simps) simp
  qed
qed

text \<open>The word-wise count of the bitmap is the bit-wise count.\<close>

lemma bitmap_placed_bits:
  "bitmap_placed n bm = length (filter (plane_bit bm) [0..<8 * PACKET_CODEC_BITMAP_BYTES n])"
proof -
  obtain i k where w: "bitmap_words (PACKET_CODEC_BITMAP_BYTES n) bm 0 0 = (i, k)" by fastforce
  then have "i \<le> PACKET_CODEC_BITMAP_BYTES n" "k = length (filter (plane_bit bm) [0..<8 * i])"
    using bitmap_words_spec[of 0 "PACKET_CODEC_BITMAP_BYTES n" 0 bm] by auto
  then show ?thesis using w by (simp add: bitmap_placed_def Let_def bitmap_bytes_spec)
qed

section \<open>The encoder\<close>

definition codec_grid :: "nat \<Rightarrow> int list \<Rightarrow> bool" where
  "codec_grid n g \<longleftrightarrow> length g = n * n
     \<and> (\<forall>c \<in> set [0..<n * n]. g ! c = -2 \<or> 0 \<le> g ! c \<and> g ! c \<le> int (PACKET_CODEC_VALUE_MAX n))"

definition filled :: "int list \<Rightarrow> nat list \<Rightarrow> nat list" where
  "filled g cs = map (\<lambda>c. nat (g ! c)) (filter (\<lambda>c. g ! c \<noteq> -2) cs)"

lemma value_max_fits:
  assumes "n \<le> 16" shows "PACKET_CODEC_VALUE_MAX n < 2 ^ PACKET_CODEC_VALUE_BITS n"
proof -
  have "n * n \<le> 16 * 16" using assms by (intro mult_mono) auto
  then have "PACKET_CODEC_VALUE_MAX n < 2 ^ 12" by (simp add: PACKET_CODEC_VALUE_MAX_def)
  then show ?thesis by (simp add: PACKET_CODEC_VALUE_BITS_def)
qed

lemma value_max_u16:
  assumes "n \<le> 16" shows "PACKET_CODEC_VALUE_MAX n < 2 ^ 16"
proof -
  have "n * n \<le> 16 * 16" using assms by (intro mult_mono) auto
  then show ?thesis by (simp add: PACKET_CODEC_VALUE_MAX_def)
qed

definition bits_of_values :: "nat \<Rightarrow> nat \<Rightarrow> nat list \<Rightarrow> nat \<Rightarrow> bool" where
  "bits_of_values W k vs i \<longleftrightarrow> (\<exists>j < length vs. W * (k + j) \<le> i \<and> bit (vs ! j) (i - W * (k + j)))"

lemma bits_of_values_Cons:
  "bits_of_values W k (v # vs) i \<longleftrightarrow> W * k \<le> i \<and> bit v (i - W * k) \<or> bits_of_values W (k + 1) vs i"
  by (auto simp: bits_of_values_def less_Suc_eq_0_disj algebra_simps)

lemma encode_cells_spec:
  assumes n: "n \<le> 16" and g: "\<forall>c \<in> set cs. g ! c = -2 \<or> 0 \<le> g ! c \<and> g ! c \<le> int (PACKET_CODEC_VALUE_MAX n)"
    and bm: "\<forall>c \<in> set cs. c div 8 < length bm"
    and pl: "\<forall>j < k + length (filled g cs). PACKET_CODEC_VALUE_BITS n * j div 8 + 2 < length pl"
  shows "\<exists>bm' pl'. encode_cells n g cs bm pl k = Some (bm', pl') \<and> length bm' = length bm \<and> length pl' = length pl
     \<and> (\<forall>i. plane_bit bm' i \<longleftrightarrow> plane_bit bm i \<or> i \<in> set cs \<and> g ! i \<noteq> -2)
     \<and> (\<forall>i. plane_bit pl' i \<longleftrightarrow> plane_bit pl i \<or> bits_of_values (PACKET_CODEC_VALUE_BITS n) k (filled g cs) i)"
  using g bm pl
proof (induction cs arbitrary: bm pl k)
  case Nil
  then show ?case by (simp add: filled_def bits_of_values_def)
next
  case (Cons c cs)
  show ?case
  proof (cases "g ! c = -2")
    case True
    then have "filled g (c # cs) = filled g cs" "encode_cells n g (c # cs) bm pl k = encode_cells n g cs bm pl k"
      by (simp_all add: filled_def)
    moreover have "\<forall>i. i \<in> set (c # cs) \<and> g ! i \<noteq> -2 \<longleftrightarrow> i \<in> set cs \<and> g ! i \<noteq> -2" using True by auto
    ultimately show ?thesis using Cons.IH[of bm k pl] Cons.prems by (simp only: list.set_intros) simp
  next
    case False
    let ?v = "g ! c"
    have v: "0 \<le> ?v" "?v \<le> int (PACKET_CODEC_VALUE_MAX n)" using Cons.prems(1) False by auto
    have uv: "unat (of_int ?v :: u16) = nat ?v"
      using v value_max_u16[OF n] by (simp add: unat_eq_nat_uint uint_word_of_int)
    let ?bm = "or_byte bm (drop_bit 3 c) (push_bit (c AND 7) 1)" and ?pl = "put_value n pl k (of_int ?v)"
    have fl: "filled g (c # cs) = nat ?v # filled g cs" using False by (simp add: filled_def)
    have step: "encode_cells n g (c # cs) bm pl k = encode_cells n g cs ?bm ?pl (k + 1)"
      using False v by (simp add: Let_def)
    have bmb: "plane_bit ?bm i \<longleftrightarrow> plane_bit bm i \<or> i = c" for i
    proof -
      have "c div 8 < length bm" using Cons.prems(2) by simp
      moreover have "i div 8 = c div 8 \<and> i mod 8 = c mod 8 \<longleftrightarrow> i = c" by (metis div_mult_mod_eq)
      ultimately show ?thesis
        by (auto simp: plane_bit_or_byte drop_bit_eq_div nat_and_7 bit_push_bit_iff)
    qed
    have "nat ?v < 2 ^ PACKET_CODEC_VALUE_BITS n" using v(2) value_max_fits[OF n] by linarith
    then have plb: "plane_bit ?pl i \<longleftrightarrow> plane_bit pl i \<or> PACKET_CODEC_VALUE_BITS n * k \<le> i
        \<and> bit (nat ?v) (i - PACKET_CODEC_VALUE_BITS n * k)" for i
      using plane_bit_put_value[of "of_int ?v" n k pl i] Cons.prems(3) fl
      unfolding uv bit_unat_word[symmetric, of "of_int ?v :: u16"] by simp
    have "\<forall>c \<in> set cs. c div 8 < length ?bm" using Cons.prems(2) by simp
    moreover have "\<forall>j < k + 1 + length (filled g cs). PACKET_CODEC_VALUE_BITS n * j div 8 + 2 < length ?pl"
      using Cons.prems(3) fl by simp
    moreover have "\<forall>c \<in> set cs. g ! c = -2 \<or> 0 \<le> g ! c \<and> g ! c \<le> int (PACKET_CODEC_VALUE_MAX n)"
      using Cons.prems(1) by simp
    ultimately obtain bm' pl' where e: "encode_cells n g cs ?bm ?pl (k + 1) = Some (bm', pl')"
      "length bm' = length ?bm" "length pl' = length ?pl"
      and b: "\<forall>i. plane_bit bm' i \<longleftrightarrow> plane_bit ?bm i \<or> i \<in> set cs \<and> g ! i \<noteq> -2"
      and q: "\<forall>i. plane_bit pl' i \<longleftrightarrow> plane_bit ?pl i \<or> bits_of_values (PACKET_CODEC_VALUE_BITS n) (k + 1) (filled g cs) i"
      using Cons.IH[of ?bm "k + 1" ?pl] by blast
    have "\<forall>i. plane_bit bm' i \<longleftrightarrow> plane_bit bm i \<or> i \<in> set (c # cs) \<and> g ! i \<noteq> -2"
      using b bmb False by auto
    moreover have "\<forall>i. plane_bit pl' i \<longleftrightarrow> plane_bit pl i
        \<or> bits_of_values (PACKET_CODEC_VALUE_BITS n) k (filled g (c # cs)) i"
      using q plb by (simp only: fl bits_of_values_Cons) blast
    ultimately show ?thesis using e step by (metis length_or_byte length_put_value)
  qed
qed

lemma encode_cells_refuses:
  "(\<exists>c \<in> set cs. g ! c \<noteq> -2 \<and> (g ! c < 0 \<or> g ! c > int (PACKET_CODEC_VALUE_MAX n))) \<Longrightarrow>
   encode_cells n g cs bm pl k = None"
  by (induction cs arbitrary: bm pl k) (auto simp: Let_def)

text \<open>Slots do not overlap: bit \<open>i\<close> of the plane belongs to slot \<open>i div W\<close>.\<close>

lemma bits_of_values_slot:
  assumes W: "0 < W" and vs: "\<forall>v \<in> set vs. v < 2 ^ W"
  shows "bits_of_values W 0 vs i \<longleftrightarrow> i div W < length vs \<and> bit (vs ! (i div W)) (i mod W)"
proof
  assume "bits_of_values W 0 vs i"
  then obtain j where j: "j < length vs" "W * j \<le> i" "bit (vs ! j) (i - W * j)" by (auto simp: bits_of_values_def)
  have "vs ! j < 2 ^ W" using vs j(1) by simp
  from bit_nat_less_exp[OF this j(3)] have "i - W * j < W" .
  then have d: "i div W = j" using j(2) by (intro div_nat_eqI) (auto simp: algebra_simps)
  moreover have "i mod W = i - W * j" using minus_mult_div_eq_mod[of i W] unfolding d by simp
  ultimately show "i div W < length vs \<and> bit (vs ! (i div W)) (i mod W)" using j by simp
next
  assume "i div W < length vs \<and> bit (vs ! (i div W)) (i mod W)"
  then show "bits_of_values W 0 vs i"
    by (auto simp: bits_of_values_def minus_mult_div_eq_mod intro!: exI[of _ "i div W"])
qed

definition codec_header :: "possibility_packet \<Rightarrow> u8 list" where
  "codec_header p = put_u16 [of_nat (px p), of_nat (py p), if checked p \<noteq> 0 then 1 else 0, 0, 0, 0]
     4 (of_int (min_candidats p))"

lemma length_codec_header [simp]: "length (codec_header p) = PACKET_CODEC_HEADER_BYTES"
  by (simp add: codec_header_def put_u16_def PACKET_CODEC_HEADER_BYTES_def)

lemma codec_placed_count: "packet_codec_placed n p = possibility_placed_count n p"
  by (simp add: packet_codec_placed_def possibility_placed_count_def)

lemma length_filled: "length g = n * n \<Longrightarrow> length (filled g [0..<n * n]) = length (filter (\<lambda>v. v \<noteq> -2) g)"
  using filter_upt_nth[of "\<lambda>v. v \<noteq> -2" g] by (simp add: filled_def)

lemma blank_plane_nth: "i < length (blank_plane n) \<Longrightarrow> blank_plane n ! i = 0"
  by (simp only: blank_plane_def length_replicate nth_replicate)

lemma blank_plane_bit [simp]: "i div 8 < length (blank_plane n) \<Longrightarrow> \<not> plane_bit (blank_plane n) i"
  by (simp add: plane_bit_def blank_plane_nth)

lemma slot_in_plane:
  assumes "j < n * n"
  shows "PACKET_CODEC_VALUE_BITS n * j div 8 + 2 < length (blank_plane n)"
proof -
  let ?W = "PACKET_CODEC_VALUE_BITS n"
  have "?W * j + ?W \<le> n * n * ?W" using assms by (metis Suc_leI mult.commute mult_Suc mult_le_mono2 add.commute)
  then have "?W * j + 8 \<le> n * n * ?W + 7" using value_bits_range(1)[of n] by linarith
  then have "(?W * j + 8) div 8 \<le> (n * n * ?W + 7) div 8" by (rule div_le_mono)
  then show ?thesis by (simp add: blank_plane_def PACKET_CODEC_VALUE_BYTES_def)
qed

lemma bitmap_cell:
  assumes "c < n * n" shows "c div 8 < PACKET_CODEC_BITMAP_BYTES n"
proof -
  have "(c + 8) div 8 \<le> (n * n + 7) div 8" using assms by (intro div_le_mono) simp
  then show ?thesis by (simp add: PACKET_CODEC_BITMAP_BYTES_def)
qed

lemma filled_le: "length (filled g [0..<m]) \<le> m"
  by (simp add: filled_def) (metis length_filter_le length_upt minus_nat.diff_0)

text \<open>The shape of a record.\<close>

lemma encode_shape:
  assumes n: "n \<le> 16" and g: "codec_grid n (grid p)" and sz: "packet_codec_encoded_size n p \<le> outsize"
  obtains bm pl where
    "packet_codec_encode n p outsize
       = Some (codec_header p @ bm @ take (PACKET_CODEC_VALUE_BYTES n (possibility_placed_count n p)) pl)"
    and "length bm = PACKET_CODEC_BITMAP_BYTES n" and "length pl = length (blank_plane n)"
    and "\<forall>i < 8 * length bm. plane_bit bm i \<longleftrightarrow> i < n * n \<and> grid p ! i \<noteq> -2"
    and "\<forall>i < 8 * length pl. plane_bit pl i \<longleftrightarrow> bits_of_values (PACKET_CODEC_VALUE_BITS n) 0 (filled (grid p) [0..<n * n]) i"
proof -
  let ?bm = "replicate (PACKET_CODEC_BITMAP_BYTES n) (0 :: u8)"
  have val: "\<forall>c \<in> set [0..<n * n]. grid p ! c = -2 \<or> 0 \<le> grid p ! c \<and> grid p ! c \<le> int (PACKET_CODEC_VALUE_MAX n)"
    using g by (simp add: codec_grid_def)
  have bmr: "\<forall>c \<in> set [0..<n * n]. c div 8 < length ?bm" using bitmap_cell by simp
  have slots: "\<forall>j < 0 + length (filled (grid p) [0..<n * n]). PACKET_CODEC_VALUE_BITS n * j div 8 + 2 < length (blank_plane n)"
  proof (intro allI impI)
    fix j assume "j < 0 + length (filled (grid p) [0..<n * n])"
    with filled_le[of "grid p" "n * n"] have "j < n * n" by linarith
    then show "PACKET_CODEC_VALUE_BITS n * j div 8 + 2 < length (blank_plane n)" by (rule slot_in_plane)
  qed
  from encode_cells_spec[OF n val bmr slots] obtain bm pl where
    e: "encode_cells n (grid p) [0..<n * n] ?bm (blank_plane n) 0 = Some (bm, pl)"
    and l: "length bm = length ?bm" "length pl = length (blank_plane n)"
    and b: "\<forall>i. plane_bit bm i \<longleftrightarrow> plane_bit ?bm i \<or> i \<in> set [0..<n * n] \<and> grid p ! i \<noteq> -2"
    and q: "\<forall>i. plane_bit pl i \<longleftrightarrow> plane_bit (blank_plane n) i
       \<or> bits_of_values (PACKET_CODEC_VALUE_BITS n) 0 (filled (grid p) [0..<n * n]) i" by blast
  show thesis
  proof (rule that)
    show "packet_codec_encode n p outsize
       = Some (codec_header p @ bm @ take (PACKET_CODEC_VALUE_BYTES n (possibility_placed_count n p)) pl)"
      using sz e by (simp add: packet_codec_encode_def packet_codec_encoded_size_def Let_def codec_placed_count codec_header_def)
    show "length bm = PACKET_CODEC_BITMAP_BYTES n" "length pl = length (blank_plane n)" using l by simp_all
    show "\<forall>i < 8 * length bm. plane_bit bm i \<longleftrightarrow> i < n * n \<and> grid p ! i \<noteq> -2"
    proof (intro allI impI)
      fix i assume "i < 8 * length bm"
      then have "i div 8 < PACKET_CODEC_BITMAP_BYTES n" using l by (simp add: less_mult_imp_div_less mult.commute)
      then have "\<not> plane_bit ?bm i" by (simp add: plane_bit_def)
      then show "plane_bit bm i \<longleftrightarrow> i < n * n \<and> grid p ! i \<noteq> -2" using b by simp
    qed
    show "\<forall>i < 8 * length pl. plane_bit pl i \<longleftrightarrow> bits_of_values (PACKET_CODEC_VALUE_BITS n) 0 (filled (grid p) [0..<n * n]) i"
    proof (intro allI impI)
      fix i assume "i < 8 * length pl"
      then have "i div 8 < length (blank_plane n)" using l by (simp add: less_mult_imp_div_less mult.commute)
      then show "plane_bit pl i \<longleftrightarrow> bits_of_values (PACKET_CODEC_VALUE_BITS n) 0 (filled (grid p) [0..<n * n]) i"
        using q by simp
    qed
  qed
qed

section \<open>The decoder\<close>

definition put_cell :: "nat \<Rightarrow> int list \<Rightarrow> nat \<Rightarrow> possibility_packet \<Rightarrow> possibility_packet" where
  "put_cell n g c out = (if g ! c = -2 then out
     else out\<lparr>grid := (grid out)[c := g ! c],
              b_faceused := (if g ! c \<ge> 1 then set_face_used (b_faceused out) (nat ((g ! c - 1) mod int (n * n))) 1
                             else b_faceused out)\<rparr>)"

lemma cell_bit_test:
  "drop_bit (c AND 7) (b :: u8) AND 1 = 0 \<longleftrightarrow> \<not> bit b (c mod 8)"
  by (simp add: nat_and_7 and_one_eq bit_iff_odd_drop_bit[of b] even_iff_mod_2_eq_zero)

lemma decode_cells_fold:
  assumes "\<forall>c \<in> set cs. bit (bs ! (PACKET_CODEC_HEADER_BYTES + c div 8)) (c mod 8) \<longleftrightarrow> g ! c \<noteq> -2"
    and "\<forall>c \<in> set cs. g ! c = -2 \<or> 0 \<le> g ! c \<and> g ! c \<le> int (PACKET_CODEC_VALUE_MAX n)"
    and "\<forall>j < length (filled g cs). unat (get_value n pl (k + j)) = filled g cs ! j"
  shows "decode_cells n bs pl cs k out = Some (fold (put_cell n g) cs out)"
  using assms
proof (induction cs arbitrary: k out)
  case (Cons c cs)
  have tst: "drop_bit (c AND 7) (bs ! (PACKET_CODEC_HEADER_BYTES + drop_bit 3 c)) AND 1 = 0 \<longleftrightarrow> g ! c = -2"
    using Cons.prems(1) by (simp add: cell_bit_test drop_bit_eq_div[where 'a = nat])
  show ?case
  proof (cases "g ! c = -2")
    case True
    then show ?thesis using tst Cons by (simp add: filled_def put_cell_def)
  next
    case False
    have v: "0 \<le> g ! c" "g ! c \<le> int (PACKET_CODEC_VALUE_MAX n)" using Cons.prems(2) False by auto
    have fl: "filled g (c # cs) = nat (g ! c) # filled g cs" using False by (simp add: filled_def)
    have gv: "unat (get_value n pl k) = nat (g ! c)" using Cons.prems(3) fl by (auto dest: spec[where x = 0])
    have rest: "\<forall>j < length (filled g cs). unat (get_value n pl (k + 1 + j)) = filled g cs ! j"
    proof (intro allI impI)
      fix j assume "j < length (filled g cs)"
      then show "unat (get_value n pl (k + 1 + j)) = filled g cs ! j"
        using Cons.prems(3)[rule_format, of "Suc j"] fl by simp
    qed
    have m: "(nat (g ! c) - 1) mod (n * n) = nat ((g ! c - 1) mod int (n * n))" if "1 \<le> nat (g ! c)"
    proof -
      have "int (nat (g ! c) - 1) = g ! c - 1" using that by linarith
      then show ?thesis by (metis nat_int zmod_int)
    qed
    let ?o1 = "out\<lparr>grid := (grid out)[c := int (nat (g ! c))]\<rparr>"
    have pc: "(if 1 \<le> nat (g ! c) then ?o1\<lparr>b_faceused := set_face_used (b_faceused ?o1) ((nat (g ! c) - 1) mod (n * n)) 1\<rparr>
        else ?o1) = put_cell n g c out"
    proof (cases "1 \<le> nat (g ! c)")
      case True
      then show ?thesis using v False m by (simp add: put_cell_def)
    next
      case zero: False
      then have "g ! c = 0" using v by linarith
      then show ?thesis by (cases out) (simp add: put_cell_def)
    qed
    have "\<not> PACKET_CODEC_VALUE_MAX n < nat (g ! c)" using v by linarith
    then have "decode_cells n bs pl (c # cs) k out = decode_cells n bs pl cs (k + 1) (put_cell n g c out)"
      using tst False by (simp only: decode_cells.simps gv Let_def pc if_False)
    also have "\<dots> = Some (fold (put_cell n g) cs (put_cell n g c out))"
      using Cons.prems(1,2) rest by (intro Cons.IH) simp_all
    finally show ?thesis by simp
  qed
qed simp

lemma fold_put_cell_grid:
  assumes "length g = N" "k \<le> N" "grid o0 = replicate N (-2)"
  shows "grid (fold (put_cell n g) [0..<k] o0) = take k g @ replicate (N - k) (-2)"
  using assms(2)
proof (induction k)
  case (Suc k)
  let ?o = "fold (put_cell n g) [0..<k] o0"
  have IH: "grid ?o = take k g @ replicate (N - k) (-2)" using Suc by simp
  have "grid (put_cell n g k ?o) = (grid ?o)[k := g ! k]"
  proof (cases "g ! k = -2")
    case True
    then have "(grid ?o)[k := g ! k] = grid ?o"
      using IH Suc.prems assms(1) by (intro list_update_same_conv[THEN iffD2]) (auto simp: nth_append)
    then show ?thesis using True by (simp add: put_cell_def)
  qed (simp add: put_cell_def)
  moreover have "replicate (N - k) (-2) = -2 # replicate (N - Suc k) (-2 :: int)"
    using Suc.prems by (metis Suc_diff_le diff_Suc_Suc replicate_Suc)
  ultimately show ?case using IH Suc.prems assms(1)
    by (simp add: list_update_append take_Suc_conv_app_nth)
qed (use assms in simp)

definition grid_faces :: "nat \<Rightarrow> int list \<Rightarrow> u16 list" where
  "grid_faces n g = fold (\<lambda>c fu. if g ! c \<ge> 1 then set_face_used fu (nat ((g ! c - 1) mod int (n * n))) 1 else fu)
     [0..<n * n] (replicate (FACES_USED_SIZE n) 0)"

lemma fold_put_cell_faces:
  "b_faceused (fold (put_cell n g) cs o0) =
     fold (\<lambda>c fu. if g ! c \<ge> 1 then set_face_used fu (nat ((g ! c - 1) mod int (n * n))) 1 else fu) cs (b_faceused o0)"
  by (induction cs arbitrary: o0) (auto simp: put_cell_def)

lemma fold_put_cell_other:
  "px (fold (put_cell n g) cs o0) = px o0" "py (fold (put_cell n g) cs o0) = py o0"
  "alloc (fold (put_cell n g) cs o0) = alloc o0" "min_candidats (fold (put_cell n g) cs o0) = min_candidats o0"
  "checked (fold (put_cell n g) cs o0) = checked o0"
  by (induction cs arbitrary: o0) (simp_all add: put_cell_def)

definition decoded_packet :: "nat \<Rightarrow> u8 list \<Rightarrow> int list \<Rightarrow> nat \<Rightarrow> possibility_packet" where
  "decoded_packet n bs g placed = \<lparr>px = unat (bs ! 0), py = unat (bs ! 1), grid = g, alloc = placed mod 2 ^ 16,
     min_candidats = sint (get_u16 bs 4), b_faceused = grid_faces n g, checked = (if bs ! 2 = 1 then 1 else 0)\<rparr>"

text \<open>A record that carries the cells of \<open>g\<close> decodes to them.\<close>

lemma decode_carries:
  assumes g: "codec_grid n g"
    and len: "packet_codec_size_for n placed \<le> length bs" and pl: "placed = record_placed n bs"
    and fits: "PACKET_CODEC_VALUE_BYTES n placed \<le> length (blank_plane n)"
    and bm: "\<forall>c < n * n. plane_bit (drop PACKET_CODEC_HEADER_BYTES bs) c \<longleftrightarrow> g ! c \<noteq> -2"
    and vals: "\<forall>j < length (filled g [0..<n * n]). unat (get_value n
         (take (PACKET_CODEC_VALUE_BYTES n placed) (drop (PACKET_CODEC_HEADER_BYTES + PACKET_CODEC_BITMAP_BYTES n) bs)
          @ drop (PACKET_CODEC_VALUE_BYTES n placed) (blank_plane n)) j) = filled g [0..<n * n] ! j"
  shows "packet_codec_decode n bs = Inr (decoded_packet n bs g placed, packet_codec_size_for n placed)"
proof -
  let ?H = "PACKET_CODEC_HEADER_BYTES" and ?B = "PACKET_CODEC_BITMAP_BYTES n"
  let ?vb = "PACKET_CODEC_VALUE_BYTES n placed"
  let ?v = "take ?vb (drop (?H + ?B) bs)"
  let ?o0 = "\<lparr>px = unat (bs ! 0), py = unat (bs ! 1), grid = replicate (n * n) (-2),
                     alloc = 0, min_candidats = sint (get_u16 bs 4),
                     b_faceused = replicate (FACES_USED_SIZE n) 0,
                     checked = (if bs ! 2 = 1 then 1 else 0)\<rparr>"
  have l: "?H + ?B + ?vb \<le> length bs" using len by (simp add: packet_codec_size_for_def)
  then have lv: "length ?v = ?vb" by simp
  have glen: "length g = n * n" and val: "\<forall>c \<in> set [0..<n * n]. g ! c = -2 \<or> 0 \<le> g ! c \<and> g ! c \<le> int (PACKET_CODEC_VALUE_MAX n)"
    using g by (auto simp: codec_grid_def)
  have plane: "load_plane n ?v = Some (?v @ drop ?vb (blank_plane n))"
    using fits lv by (simp add: load_plane_def)
  have bits: "\<forall>c \<in> set [0..<n * n]. bit (bs ! (?H + c div 8)) (c mod 8) \<longleftrightarrow> g ! c \<noteq> -2"
  proof
    fix c assume "c \<in> set [0..<n * n]"
    then have c: "c < n * n" by simp
    have "?H + c div 8 < length bs" using bitmap_cell[OF c] l by linarith
    then have "plane_bit (drop ?H bs) c = bit (bs ! (?H + c div 8)) (c mod 8)" by (simp add: plane_bit_def)
    then show "bit (bs ! (?H + c div 8)) (c mod 8) \<longleftrightarrow> g ! c \<noteq> -2" using bm c by simp
  qed
  have vals': "\<forall>j < length (filled g [0..<n * n]). unat (get_value n (?v @ drop ?vb (blank_plane n)) (0 + j))
       = filled g [0..<n * n] ! j" using vals by simp
  note dc = decode_cells_fold[OF bits val vals', of ?o0]
  have grid': "grid (fold (put_cell n g) [0..<n * n] ?o0) = g"
    using fold_put_cell_grid[OF glen order_refl, of ?o0 n] glen by simp
  have out: "(fold (put_cell n g) [0..<n * n] ?o0)\<lparr>alloc := placed mod 2 ^ 16\<rparr> = decoded_packet n bs g placed"
    using grid' fold_put_cell_faces[of n g "[0..<n * n]" ?o0] fold_put_cell_other[of n g "[0..<n * n]" ?o0]
    by (cases "fold (put_cell n g) [0..<n * n] ?o0") (simp add: decoded_packet_def grid_faces_def)
  have enough: "\<not> length bs < ?H + ?B" "\<not> length bs < packet_codec_size_for n placed" using l len by linarith+
  show ?thesis
    unfolding packet_codec_decode_def Let_def pl[symmetric]
    using enough by (simp only: if_False plane option.case dc out)
qed

section \<open>Round trip\<close>

lemma length_put_u16 [simp]: "length (put_u16 b off v) = length b"
  by (simp add: put_u16_def)

lemma get_put_u16: "off + 1 < length b \<Longrightarrow> get_u16 (put_u16 b off v) off = v"
proof -
  have m: "(0xFF :: u16) = mask 8" by (simp add: mask_eq_exp_minus_1)
  have "ucast (ucast (v AND mask 8) :: u8) OR push_bit 8 (ucast (ucast (drop_bit 8 v) :: u8)) = v"
    by (rule bit_word_eqI) (auto simp: bit_or_iff bit_and_iff bit_ucast_iff bit_push_bit_iff bit_drop_bit_eq bit_mask_iff)
  then show "off + 1 < length b \<Longrightarrow> ?thesis" unfolding get_u16_def put_u16_def m by simp
qed

lemma get_u16_append: "off + 1 < length b \<Longrightarrow> get_u16 (b @ c) off = get_u16 b off"
  by (simp add: get_u16_def nth_append)

lemma slots_in_bytes: "j < k \<Longrightarrow> b < PACKET_CODEC_VALUE_BITS n \<Longrightarrow>
    (PACKET_CODEC_VALUE_BITS n * j + b) div 8 < PACKET_CODEC_VALUE_BYTES n k"
proof -
  let ?W = "PACKET_CODEC_VALUE_BITS n"
  assume a: "j < k" "b < ?W"
  have "?W * (j + 1) \<le> ?W * k" using a by (intro mult_le_mono2) simp
  then have "?W * j + b + 8 \<le> k * ?W + 7" using a(2) by (simp add: algebra_simps)
  then have "(?W * j + b + 8) div 8 \<le> (k * ?W + 7) div 8" by (rule div_le_mono)
  then show ?thesis by (simp add: PACKET_CODEC_VALUE_BYTES_def)
qed

lemma value_bytes_mono: "a \<le> b \<Longrightarrow> PACKET_CODEC_VALUE_BYTES n a \<le> PACKET_CODEC_VALUE_BYTES n b"
  unfolding PACKET_CODEC_VALUE_BYTES_def by (intro div_le_mono add_mono mult_le_mono) auto

lemma plane_bit_append: "i div 8 < length a \<Longrightarrow> plane_bit (a @ b) i = plane_bit a i"
  by (simp add: plane_bit_def nth_append)

lemma plane_bit_take: "i div 8 < k \<Longrightarrow> plane_bit (take k a) i = plane_bit a i"
  by (simp add: plane_bit_def)

lemma filled_bound:
  assumes "n \<le> 16" "codec_grid n g"
  shows "\<forall>v \<in> set (filled g [0..<n * n]). v < 2 ^ PACKET_CODEC_VALUE_BITS n"
proof
  fix v assume "v \<in> set (filled g [0..<n * n])"
  then obtain c where "c < n * n" "g ! c \<noteq> -2" "v = nat (g ! c)" by (auto simp: filled_def)
  then have "v \<le> PACKET_CODEC_VALUE_MAX n" using assms(2) by (fastforce simp: codec_grid_def)
  then show "v < 2 ^ PACKET_CODEC_VALUE_BITS n" using value_max_fits[OF assms(1)] by linarith
qed

lemma bitmap_count:
  assumes "length g = n * n" "\<forall>i < 8 * PACKET_CODEC_BITMAP_BYTES n. P i \<longleftrightarrow> i < n * n \<and> g ! i \<noteq> -2"
  shows "length (filter P [0..<8 * PACKET_CODEC_BITMAP_BYTES n]) = length (filled g [0..<n * n])"
proof -
  have "n * n \<le> 8 * PACKET_CODEC_BITMAP_BYTES n" by (simp add: PACKET_CODEC_BITMAP_BYTES_def)
  then have "{i. i < 8 * PACKET_CODEC_BITMAP_BYTES n \<and> P i} = {i. i < n * n \<and> g ! i \<noteq> -2}" using assms(2) by auto
  then have "length (filter P [0..<8 * PACKET_CODEC_BITMAP_BYTES n]) = length (filter (\<lambda>c. g ! c \<noteq> -2) [0..<n * n])"
    by (simp only: filter_card)
  then show ?thesis by (simp add: filled_def)
qed

text \<open>What a record decodes to: the derived fields are recomputed from the cells.\<close>

definition canonical_packet :: "nat \<Rightarrow> possibility_packet \<Rightarrow> possibility_packet" where
  "canonical_packet n p = p\<lparr>alloc := possibility_placed_count n p, b_faceused := grid_faces n (grid p),
     checked := (if checked p \<noteq> 0 then 1 else 0)\<rparr>"

definition header_ok :: "possibility_packet \<Rightarrow> bool" where
  "header_ok p \<longleftrightarrow> px p < 256 \<and> py p < 256 \<and> - (2 ^ 15) \<le> min_candidats p \<and> min_candidats p < 2 ^ 15"

lemma decoded_header:
  assumes "header_ok p" "placed = possibility_placed_count n p" "placed < 2 ^ 16"
  shows "decoded_packet n (codec_header p @ rest) (grid p) placed = canonical_packet n p"
proof -
  let ?h = "[of_nat (px p), of_nat (py p), if checked p \<noteq> 0 then 1 else 0, 0, 0, 0] :: u8 list"
  have "sint (of_int (min_candidats p) :: u16) = min_candidats p"
    using assms(1) by (simp add: header_ok_def signed_take_bit_int_eq_self sint_sbintrunc')
  moreover have "get_u16 (codec_header p @ rest) 4 = of_int (min_candidats p)"
    unfolding codec_header_def by (subst get_u16_append) (simp_all add: get_put_u16)
  moreover have "(codec_header p @ rest) ! 0 = of_nat (px p)" "(codec_header p @ rest) ! 1 = of_nat (py p)"
    "(codec_header p @ rest) ! 2 = (if checked p \<noteq> 0 then 1 else 0)"
    by (simp_all add: codec_header_def put_u16_def nth_append)
  ultimately show ?thesis
    using assms by (cases p) (simp add: decoded_packet_def canonical_packet_def header_ok_def unat_of_nat)
qed

lemma placed_count_filled: "length (grid p) = n * n \<Longrightarrow> possibility_placed_count n p = length (filled (grid p) [0..<n * n])"
  by (simp add: placed_count_filter length_filled)

lemma codec_roundtrip:
  assumes n: "n \<le> 16" and g: "codec_grid n (grid p)" and h: "header_ok p"
    and e: "packet_codec_encode n p outsize = Some bytes"
  shows "packet_codec_decode n (bytes @ rest) = Inr (canonical_packet n p, length bytes)"
    and "length bytes = packet_codec_encoded_size n p"
proof -
  let ?H = "PACKET_CODEC_HEADER_BYTES" and ?B = "PACKET_CODEC_BITMAP_BYTES n" and ?W = "PACKET_CODEC_VALUE_BITS n"
  let ?placed = "possibility_placed_count n p"
  let ?vb = "PACKET_CODEC_VALUE_BYTES n ?placed" and ?vs = "filled (grid p) [0..<n * n]"
  have sz: "packet_codec_encoded_size n p \<le> outsize"
    using e by (auto simp: packet_codec_encode_def packet_codec_encoded_size_def Let_def split: if_splits)
  obtain bm pl where enc: "packet_codec_encode n p outsize = Some (codec_header p @ bm @ take ?vb pl)"
    and lbm: "length bm = ?B" and lpl: "length pl = length (blank_plane n)"
    and bm: "\<forall>i < 8 * length bm. plane_bit bm i \<longleftrightarrow> i < n * n \<and> grid p ! i \<noteq> -2"
    and pl: "\<forall>i < 8 * length pl. plane_bit pl i \<longleftrightarrow> bits_of_values ?W 0 ?vs i"
    by (rule encode_shape[OF n g sz])
  have bytes: "bytes = codec_header p @ bm @ take ?vb pl" using enc e by simp
  have glen: "length (grid p) = n * n" using g by (simp add: codec_grid_def)
  have placed: "?placed = length ?vs" using glen by (rule placed_count_filled)
  have ple: "?placed \<le> n * n" using filled_le[of "grid p" "n * n"] placed by simp
  have fits: "?vb \<le> length (blank_plane n)" using value_bytes_mono[OF ple, of n] by (simp add: blank_plane_def)
  then have lt: "length (take ?vb pl) = ?vb" using lpl by simp
  show len: "length bytes = packet_codec_encoded_size n p"
    using lbm lt by (simp add: bytes packet_codec_encoded_size_def packet_codec_size_for_def codec_placed_count)
  let ?bs = "bytes @ rest"
  have dropH: "drop ?H ?bs = bm @ take ?vb pl @ rest" by (simp add: bytes)
  have dropP: "take ?vb (drop (?H + ?B) ?bs) = take ?vb pl" using lbm lt by (simp add: bytes)
  have rp: "?placed = record_placed n ?bs"
  proof -
    have "record_placed n ?bs = length (filter (plane_bit (bm @ take ?vb pl @ rest)) [0..<8 * ?B])"
      using record_placed_bits[of n ?bs] lbm by (simp add: bytes dropH[unfolded bytes])
    also have "\<dots> = length ?vs"
      using bm lbm by (intro bitmap_count[OF glen]) (simp add: plane_bit_append less_mult_imp_div_less mult.commute)
    finally show ?thesis using placed by simp
  qed
  have bits: "\<forall>c < n * n. plane_bit (drop ?H ?bs) c \<longleftrightarrow> grid p ! c \<noteq> -2"
  proof (intro allI impI)
    fix c assume c: "c < n * n"
    have "c < 8 * ?B" using c by (simp add: PACKET_CODEC_BITMAP_BYTES_def)
    then show "plane_bit (drop ?H ?bs) c \<longleftrightarrow> grid p ! c \<noteq> -2"
      unfolding dropH using bm c lbm bitmap_cell[OF c] by (simp add: plane_bit_append)
  qed
  have vals: "\<forall>j < length ?vs. unat (get_value n (take ?vb (drop (?H + ?B) ?bs) @ drop ?vb (blank_plane n)) j) = ?vs ! j"
  proof (intro allI impI)
    fix j assume j: "j < length ?vs"
    show "unat (get_value n (take ?vb (drop (?H + ?B) ?bs) @ drop ?vb (blank_plane n)) j) = ?vs ! j"
      unfolding dropP
    proof (rule get_value_eqI)
      show "?vs ! j < 2 ^ ?W" using filled_bound[OF n g] j by simp
      fix b assume b: "b < ?W"
      have i: "(?W * j + b) div 8 < ?vb" using slots_in_bytes[OF _ b] j placed by simp
      then have "?W * j + b < 8 * length pl" using fits lpl by linarith
      then have "plane_bit pl (?W * j + b) \<longleftrightarrow> bits_of_values ?W 0 ?vs (?W * j + b)" using pl by simp
      also have "\<dots> \<longleftrightarrow> bit (?vs ! j) b"
        using bits_of_values_slot[OF _ filled_bound[OF n g], of "?W * j + b"] b j by simp
      finally show "plane_bit (take ?vb pl @ drop ?vb (blank_plane n)) (?W * j + b) = bit (?vs ! j) b"
        using i lt by (simp add: plane_bit_append plane_bit_take)
    qed
  qed
  have size: "packet_codec_size_for n ?placed \<le> length ?bs"
    using len by (simp add: packet_codec_encoded_size_def codec_placed_count)
  have "n * n \<le> 16 * 16" using n by (intro mult_mono) auto
  then have small: "?placed < 2 ^ 16" using ple by simp
  have "decoded_packet n ?bs (grid p) ?placed = canonical_packet n p"
    using decoded_header[OF h refl small, of "bm @ take ?vb pl @ rest"] by (simp add: bytes)
  then show "packet_codec_decode n ?bs = Inr (canonical_packet n p, length bytes)"
    using decode_carries[OF g size rp fits bits vals] len
    by (simp add: packet_codec_encoded_size_def codec_placed_count)
qed

end
