(* ===== verification/Codec_Records.thy ===== *)
theory Codec_Records
  imports Packet_Codec
begin

text \<open>
  The uses of the compact record (\<open>packet_codec.c\<close>): canonicalising a received record in
  place, the header of a stock file, and streams of records. The main lemmas show that
  canonicalisation is decoding followed by encoding, that a header is accepted by the
  board size that wrote it and by no other, and that a stream of records is read back.
\<close>

section \<open>File header and streams\<close>

definition PACKET_CODEC_FILE_HEADER_BYTES :: nat where "PACKET_CODEC_FILE_HEADER_BYTES = 32"
definition PACKET_CODEC_FILE_FLAGS_OFFSET :: nat where "PACKET_CODEC_FILE_FLAGS_OFFSET = 18"
definition PACKET_CODEC_FILE_VERSION :: u16 where "PACKET_CODEC_FILE_VERSION = 1"
definition PACKET_CODEC_FILE_VERSION_ZSTD :: u16 where "PACKET_CODEC_FILE_VERSION_ZSTD = 2"

text \<open>The characters of \<open>"ETIISTK"\<close> and its terminating zero.\<close>

definition PACKET_CODEC_FILE_MAGIC :: "u8 list" where
  "PACKET_CODEC_FILE_MAGIC = [0x45, 0x54, 0x49, 0x49, 0x53, 0x54, 0x4B, 0]"

definition packet_codec_write_file_header_codec :: "nat \<Rightarrow> u8 \<Rightarrow> bool \<Rightarrow> u8 list" where
  "packet_codec_write_file_header_codec n flags zstd_body =
     (let b0 = PACKET_CODEC_FILE_MAGIC @ drop 8 (replicate PACKET_CODEC_FILE_HEADER_BYTES 0);
          b1 = put_u16 b0 8 (if zstd_body then PACKET_CODEC_FILE_VERSION_ZSTD else PACKET_CODEC_FILE_VERSION);
          b2 = put_u16 b1 10 (of_nat n);
          b3 = put_u16 b2 12 (of_nat (ETERN_PARTS n));
          b4 = put_u16 b3 14 (of_nat (PACKET_CODEC_MAX_BYTES n));
          b5 = put_u16 b4 16 (of_nat PACKET_CODEC_HEADER_BYTES)
      in b5[PACKET_CODEC_FILE_FLAGS_OFFSET := flags])"

definition packet_codec_write_file_header_flags :: "nat \<Rightarrow> u8 \<Rightarrow> u8 list" where
  "packet_codec_write_file_header_flags n flags = packet_codec_write_file_header_codec n flags False"

definition packet_codec_write_file_header :: "nat \<Rightarrow> u8 list" where
  "packet_codec_write_file_header n = packet_codec_write_file_header_flags n 0"

definition packet_codec_file_header_flags :: "u8 list \<Rightarrow> u8" where
  "packet_codec_file_header_flags buf = buf ! PACKET_CODEC_FILE_FLAGS_OFFSET"

definition packet_codec_file_header_is_zstd :: "u8 list \<Rightarrow> bool" where
  "packet_codec_file_header_is_zstd buf \<longleftrightarrow> get_u16 buf 8 = PACKET_CODEC_FILE_VERSION_ZSTD"

definition packet_codec_read_file_header :: "nat \<Rightarrow> u8 list \<Rightarrow> int" where
  "packet_codec_read_file_header n buf =
     (if take 8 buf \<noteq> PACKET_CODEC_FILE_MAGIC then -1
      else (let version = get_u16 buf 8 in
        if version \<noteq> PACKET_CODEC_FILE_VERSION \<and> version \<noteq> PACKET_CODEC_FILE_VERSION_ZSTD
           \<or> get_u16 buf 10 \<noteq> of_nat n
           \<or> get_u16 buf 12 \<noteq> of_nat (ETERN_PARTS n)
           \<or> get_u16 buf 14 \<noteq> of_nat (PACKET_CODEC_MAX_BYTES n)
           \<or> get_u16 buf 16 \<noteq> of_nat PACKET_CODEC_HEADER_BYTES
        then -1 else 0))"

text \<open>A file is the list of its bytes; \<open>room\<close> is what the device still accepts.\<close>

definition packet_codec_fwrite :: "nat \<Rightarrow> nat \<Rightarrow> u8 list \<Rightarrow> possibility_packet \<Rightarrow> int \<times> u8 list" where
  "packet_codec_fwrite n room f p =
     (case packet_codec_encode n p (PACKET_CODEC_MAX_BYTES n) of
        None \<Rightarrow> (-1, f)
      | Some rcd \<Rightarrow> if room < length rcd then (-1, f @ take room rcd) else (0, f @ rcd))"

datatype fread_result = FR_Eof | FR_Error | FR_Overflow | FR_Packet possibility_packet

text \<open>Reading one record from the bytes that remain; the local buffer holds
  \<open>PACKET_CODEC_MAX_BYTES\<close> bytes, and a longer read is the error \<open>FR_Overflow\<close>.\<close>

definition packet_codec_fread :: "nat \<Rightarrow> u8 list \<Rightarrow> fread_result \<times> u8 list" where
  "packet_codec_fread n f =
     (let prefix = PACKET_CODEC_HEADER_BYTES + PACKET_CODEC_BITMAP_BYTES n;
          got = take prefix f; f1 = drop prefix f
      in if got = [] then (FR_Eof, f1)
         else if length got < prefix then (FR_Error, f1)
         else (let rest = PACKET_CODEC_VALUE_BYTES n (record_placed n got);
                   body = take rest f1; f2 = drop rest f1
               in if prefix + length body > PACKET_CODEC_MAX_BYTES n then (FR_Overflow, f2)
                  else if rest > 0 \<and> length body \<noteq> rest then (FR_Error, f2)
                  else (case packet_codec_decode n (got @ body) of
                          Inr (p, _) \<Rightarrow> (FR_Packet p, f2)
                        | Inl CE_Refused \<Rightarrow> (FR_Error, f2)
                        | Inl CE_Overflow \<Rightarrow> (FR_Overflow, f2))))"

lemma get_u16_other:
  "off' + 1 < off \<or> off + 1 < off' \<Longrightarrow> get_u16 (put_u16 b off v) off' = get_u16 b off'"
  by (auto simp: get_u16_def put_u16_def)

lemma get_u16_update: "i < off \<or> off + 1 < i \<Longrightarrow> get_u16 (b[i := x]) off = get_u16 b off"
  by (auto simp: get_u16_def)

lemma decode_cells_other:
  "decode_cells n bs pl cs k out = Some out' \<Longrightarrow> min_candidats out' = min_candidats out"
  by (induction n bs pl cs k out rule: decode_cells.induct) (auto simp: Let_def split: if_splits)

lemma decode_header_fields:
  assumes "packet_codec_decode n bs = Inr (p, t)"
  shows "min_candidats p = sint (get_u16 bs 4)" and "alloc p = record_placed n bs mod 2 ^ 16"
proof -
  obtain pl o0 out where "decode_cells n bs pl [0..<n * n] 0 o0 = Some out" "min_candidats o0 = sint (get_u16 bs 4)"
    and p: "p = out\<lparr>alloc := record_placed n bs mod 2 ^ 16\<rparr>"
    using assms by (auto simp: packet_codec_decode_def Let_def split: if_splits option.splits)
  then show "min_candidats p = sint (get_u16 bs 4)" using decode_cells_other by fastforce
  show "alloc p = record_placed n bs mod 2 ^ 16" by (simp add: p)
qed

lemma encode_checked:
  assumes "packet_codec_encode n p outsize = Some bytes"
  shows "packet_codec_encode n (p\<lparr>checked := chk\<rparr>) outsize = Some (snd (packet_codec_poke_checked bytes chk))"
proof -
  have "packet_codec_placed n (p\<lparr>checked := chk\<rparr>) = packet_codec_placed n p"
    by (simp add: packet_codec_placed_def grid_at_def)
  then show ?thesis using assms
    by (auto simp: packet_codec_encode_def packet_codec_poke_checked_def put_u16_def PACKET_CODEC_HEADER_BYTES_def Let_def
        split: if_splits option.splits)
qed

section \<open>Canonicalisation\<close>

lemma plane_ext:
  assumes "length a = length b" "\<And>i. i < 8 * length a \<Longrightarrow> plane_bit a i = plane_bit b i"
  shows "a = b"
proof (rule nth_equalityI[OF assms(1)])
  fix j assume j: "j < length a"
  show "a ! j = b ! j"
  proof (rule bit_word_eqI)
    fix k assume k: "k < LENGTH(8)"
    then have "8 * j + k < 8 * length a" using j by simp
    from assms(2)[OF this] show "bit (a ! j) k = bit (b ! j) k" using k by (simp add: plane_bit_def)
  qed
qed

definition rank_of :: "(nat \<Rightarrow> bool) \<Rightarrow> nat \<Rightarrow> nat" where
  "rank_of P c = length (filter P [0..<c])"

lemma map_rank: "map (\<lambda>c. f (rank_of P c)) (filter P [0..<m]) = map f [0..<rank_of P m]"
  by (induction m) (auto simp: rank_of_def)

lemma rank_less: "c < m \<Longrightarrow> P c \<Longrightarrow> rank_of P c < rank_of P m"
proof -
  assume "c < m" "P c"
  then show ?thesis using length_filter_take_less[of c "[0..<m]" P] by (simp add: rank_of_def)
qed

text \<open>The cells a record stands for.\<close>

definition record_grid :: "nat \<Rightarrow> u8 list \<Rightarrow> u8 list \<Rightarrow> int list" where
  "record_grid n bm pl = map (\<lambda>c. if plane_bit bm c then int (unat (get_value n pl (rank_of (plane_bit bm) c))) else -2) [0..<n * n]"

lemma filled_record_grid:
  "filled (record_grid n bm pl) [0..<n * n] = map (\<lambda>k. unat (get_value n pl k)) [0..<rank_of (plane_bit bm) (n * n)]"
proof -
  have cell: "record_grid n bm pl ! c = (if plane_bit bm c then int (unat (get_value n pl (rank_of (plane_bit bm) c))) else -2)"
    if "c < n * n" for c using that by (simp add: record_grid_def)
  have "filter (\<lambda>c. record_grid n bm pl ! c \<noteq> -2) [0..<n * n] = filter (plane_bit bm) [0..<n * n]"
    by (rule filter_cong) (auto simp: cell simp del: of_nat_unat)
  moreover have "map (\<lambda>c. nat (record_grid n bm pl ! c)) (filter (plane_bit bm) [0..<n * n])
      = map (\<lambda>c. unat (get_value n pl (rank_of (plane_bit bm) c))) (filter (plane_bit bm) [0..<n * n])"
    by (rule map_cong) (auto simp: cell)
  ultimately show ?thesis
    unfolding filled_def using map_rank[of "\<lambda>k. unat (get_value n pl k)" "plane_bit bm" "n * n"] by simp
qed

text \<open>The guard on the last bitmap byte: no cell beyond the board.\<close>

definition board_bits_only :: "nat \<Rightarrow> u8 list \<Rightarrow> bool" where
  "board_bits_only n bm \<longleftrightarrow> (\<forall>i < 8 * PACKET_CODEC_BITMAP_BYTES n. plane_bit bm i \<longrightarrow> i < n * n)"

lemma div_eight: "(8 * a + b) div 8 = a + b div (8::nat)"
  by simp

lemma ceil_eight: "0 < r \<Longrightarrow> r < 8 \<Longrightarrow> (r + 7) div 8 = (1::nat)"
  by (intro div_nat_eqI) simp_all

lemma bitmap_bytes_partial:
  assumes "n * n mod 8 \<noteq> 0"
  shows "PACKET_CODEC_BITMAP_BYTES n = n * n div 8 + 1"
proof -
  let ?q = "n * n div 8" and ?r = "n * n mod 8"
  have N: "n * n = 8 * ?q + ?r" "?r < 8" by simp_all
  have "(n * n + 7) div 8 = (8 * ?q + (?r + 7)) div 8" using N(1) by (metis add.assoc)
  also have "\<dots> = ?q + (?r + 7) div 8" by (rule div_eight)
  also have "(?r + 7) div 8 = 1" using assms N(2) by (intro ceil_eight) linarith+
  finally show ?thesis by (simp add: PACKET_CODEC_BITMAP_BYTES_def)
qed

lemma last_byte_guard:
  assumes "\<not> (n * n mod 8 \<noteq> 0 \<and> drop_bit (n * n mod 8) (bm ! (PACKET_CODEC_BITMAP_BYTES n - 1)) \<noteq> 0)"
  shows "board_bits_only n bm"
  unfolding board_bits_only_def
proof (intro allI impI)
  fix i assume i: "i < 8 * PACKET_CODEC_BITMAP_BYTES n" "plane_bit bm i"
  let ?q = "n * n div 8" and ?r = "n * n mod 8"
  have N: "n * n = 8 * ?q + ?r" "?r < 8" by simp_all
  show "i < n * n"
  proof (cases "?r = 0")
    case True
    have "(8 * ?q + 7) div 8 = ?q" by simp
    then have "PACKET_CODEC_BITMAP_BYTES n = ?q"
      unfolding PACKET_CODEC_BITMAP_BYTES_def using N(1) True by (metis add.right_neutral)
    then show ?thesis using i N True by linarith
  next
    case False
    have B: "PACKET_CODEC_BITMAP_BYTES n = ?q + 1" using False by (rule bitmap_bytes_partial)
    then have z: "drop_bit ?r (bm ! ?q) = 0" using assms False by simp
    have "\<not> (8 * ?q + ?r \<le> i)"
    proof
      assume ge: "8 * ?q + ?r \<le> i"
      then have lo: "8 * ?q \<le> i" by linarith
      have "i < 8 * Suc ?q" using i(1) B by simp
      with lo have d: "i div 8 = ?q" by (intro div_nat_eqI)
      have "i = 8 * ?q + i mod 8" using d by (metis div_mult_mod_eq mult.commute)
      then have "?r \<le> i mod 8" using ge by linarith
      then have "i mod 8 = ?r + (i mod 8 - ?r)" by simp
      then have "bit (drop_bit ?r (bm ! ?q)) (i mod 8 - ?r)"
        using i(2) d unfolding plane_bit_def bit_drop_bit_eq comp_def by metis
      then show False using z by simp
    qed
    then show ?thesis using N by linarith
  qed
qed

lemma board_bits_rank:
  assumes "board_bits_only n bm"
  shows "bitmap_placed n bm = rank_of (plane_bit bm) (n * n)"
proof -
  have le: "n * n \<le> 8 * PACKET_CODEC_BITMAP_BYTES n" by (simp add: PACKET_CODEC_BITMAP_BYTES_def)
  have "{i. i < 8 * PACKET_CODEC_BITMAP_BYTES n \<and> plane_bit bm i} = {i. i < n * n \<and> plane_bit bm i}"
    using assms le by (auto simp: board_bits_only_def)
  then show ?thesis by (simp only: bitmap_placed_bits rank_of_def filter_card)
qed

text \<open>Clearing the unused high bits of the last value byte.\<close>

definition mask_tail :: "nat \<Rightarrow> u8 list \<Rightarrow> u8 list" where
  "mask_tail used vs = (if used mod 8 \<noteq> 0
     then vs[length vs - 1 := vs ! (length vs - 1) AND mask (used mod 8)] else vs)"

lemma length_mask_tail [simp]: "length (mask_tail used vs) = length vs"
  by (simp add: mask_tail_def)

lemma plane_bit_mask_tail:
  assumes len: "length vs = (used + 7) div 8" and i: "i < 8 * length vs"
  shows "plane_bit (mask_tail used vs) i \<longleftrightarrow> i < used \<and> plane_bit vs i"
proof -
  let ?q = "used div 8" and ?r = "used mod 8"
  have U: "used = 8 * ?q + ?r" "?r < 8" by simp_all
  have d: "i div 8 < length vs" using i by (simp add: less_mult_imp_div_less mult.commute)
  show ?thesis
  proof (cases "?r = 0")
    case True
    have "(8 * ?q + 7) div 8 = ?q" by simp
    then have "length vs = ?q" using len U(1) True by (metis add.right_neutral)
    then have "i < used" using i U(1) True by linarith
    then show ?thesis using True by (simp add: mask_tail_def)
  next
    case False
    have "(used + 7) div 8 = ?q + (?r + 7) div 8" using div_eight[of ?q "?r + 7"] U(1) by (metis add.assoc)
    moreover have "(?r + 7) div 8 = 1" using False U(2) by (intro ceil_eight) linarith+
    ultimately have L: "length vs = ?q + 1" using len by simp
    show ?thesis
    proof (cases "i div 8 = ?q")
      case True
      have "i = 8 * ?q + i mod 8" using True by (metis div_mult_mod_eq mult.commute)
      then have "i < used \<longleftrightarrow> i mod 8 < ?r" using U(1) by linarith
      then show ?thesis using False True L d
        by (auto simp: mask_tail_def plane_bit_def bit_and_iff bit_mask_iff)
    next
      case other: False
      then have "i div 8 < ?q" using d L by linarith
      then have "i < used" using U(1) by (metis div_le_mono leD leI)
      then show ?thesis using other L False by (simp add: mask_tail_def plane_bit_def)
    qed
  qed
qed

lemma value_plane_bits:
  assumes "i div PACKET_CODEC_VALUE_BITS n < placed"
  shows "bits_of_values (PACKET_CODEC_VALUE_BITS n) 0 (map (\<lambda>k. unat (get_value n pl k)) [0..<placed]) i \<longleftrightarrow> plane_bit pl i"
proof -
  let ?W = "PACKET_CODEC_VALUE_BITS n"
  have W: "0 < ?W" using value_bits_range(1)[of n] by simp
  have "\<forall>v \<in> set (map (\<lambda>k. unat (get_value n pl k)) [0..<placed]). v < 2 ^ ?W"
    by (auto intro: get_value_less)
  from bits_of_values_slot[OF W this] show ?thesis
    using assms W by (simp add: bit_get_value)
qed

lemma values_canonical:
  assumes n: "n \<le> 16" and vs: "length vs = PACKET_CODEC_VALUE_BYTES n placed" and lpl: "length vs \<le> length pl"
    and pl: "\<forall>i < 8 * length pl. plane_bit pl i \<longleftrightarrow>
       bits_of_values (PACKET_CODEC_VALUE_BITS n) 0 (map (\<lambda>k. unat (get_value n (vs @ pad) k)) [0..<placed]) i"
  shows "take (length vs) pl = mask_tail (placed * PACKET_CODEC_VALUE_BITS n) vs"
proof (rule plane_ext)
  let ?W = "PACKET_CODEC_VALUE_BITS n"
  show "length (take (length vs) pl) = length (mask_tail (placed * ?W) vs)" using lpl by simp
  fix i assume "i < 8 * length (take (length vs) pl)"
  then have i: "i < 8 * length vs" "i < 8 * length pl" using lpl by simp_all
  have d: "i div 8 < length vs" using i(1) by (simp add: less_mult_imp_div_less mult.commute)
  have W: "0 < ?W" using value_bits_range(1)[of n] by simp
  have "plane_bit (take (length vs) pl) i \<longleftrightarrow> plane_bit pl i" using d by (rule plane_bit_take)
  also have "\<dots> \<longleftrightarrow> i < placed * ?W \<and> plane_bit vs i"
  proof (cases "i < placed * ?W")
    case True
    then have "i div ?W < placed" by (simp add: less_mult_imp_div_less)
    from value_plane_bits[OF this, of "vs @ pad"] show ?thesis
      using pl i(2) True plane_bit_append[OF d] by simp
  next
    case False
    then have "\<not> i div ?W < placed" using W by (metis div_less_iff_less_mult)
    moreover have "\<forall>v \<in> set (map (\<lambda>k. unat (get_value n (vs @ pad) k)) [0..<placed]). v < 2 ^ ?W"
      by (auto intro: get_value_less)
    ultimately show ?thesis
      using pl i(2) False bits_of_values_slot[OF W] by simp
  qed
  also have "\<dots> \<longleftrightarrow> plane_bit (mask_tail (placed * ?W) vs) i"
    using plane_bit_mask_tail[of vs "placed * ?W" i] vs i(1) by (simp add: PACKET_CODEC_VALUE_BYTES_def)
  finally show "plane_bit (take (length vs) pl) i = plane_bit (mask_tail (placed * ?W) vs) i" .
qed

lemma list6: "length xs = 6 \<Longrightarrow> xs = [xs ! 0, xs ! 1, xs ! 2, xs ! 3, xs ! 4, xs ! 5]"
  by (auto simp: numeral_eq_Suc length_Suc_conv)

lemma canonical_layout:
  assumes h: "length h = 6" and bm: "length bm = B" and vs: "length vs = V"
    and V0: "V = 0 \<Longrightarrow> used mod 8 = 0"
  shows "(let rcd = h @ bm @ vs @ tail;
              rcd1 = (if used mod 8 \<noteq> 0 then rcd[6 + B + V - 1 := rcd ! (6 + B + V - 1) AND mask (used mod 8)] else rcd);
              rcd2 = rcd1[2 := if rcd1 ! 2 = 1 then 1 else 0, 3 := 0]
          in put_u16 rcd2 4 w)
     = put_u16 [h ! 0, h ! 1, if h ! 2 = 1 then 1 else 0, 0, 0, 0] 4 w @ bm @ (if V = 0 then vs else mask_tail used vs) @ tail"
proof -
  let ?rcd = "h @ bm @ vs @ tail"
  have last: "(if used mod 8 \<noteq> 0 then ?rcd[6 + B + V - 1 := ?rcd ! (6 + B + V - 1) AND mask (used mod 8)] else ?rcd)
      = h @ bm @ (if V = 0 then vs else mask_tail used vs) @ tail"
  proof (cases "V = 0")
    case False
    then have "6 + B + V - 1 = length h + (length bm + (length vs - 1))" "length vs - 1 < length vs" using h bm vs by auto
    then show ?thesis using False by (simp add: mask_tail_def nth_append list_update_append)
  qed (use V0 in simp)
  have six: "h = [h ! 0, h ! 1, h ! 2, h ! 3, h ! 4, h ! 5]" by (rule list6[OF h])
  show ?thesis
    unfolding Let_def last by (subst (1 2) six) (simp add: put_u16_def)
qed

text \<open>A well-formed record: complete, no cell beyond the board, every value in range.\<close>

abbreviation record_bitmap :: "u8 list \<Rightarrow> u8 list" where
  "record_bitmap rcd \<equiv> drop PACKET_CODEC_HEADER_BYTES rcd"

definition record_values :: "nat \<Rightarrow> u8 list \<Rightarrow> nat \<Rightarrow> u8 list" where
  "record_values n rcd k = take (PACKET_CODEC_VALUE_BYTES n k) (drop (PACKET_CODEC_HEADER_BYTES + PACKET_CODEC_BITMAP_BYTES n) rcd)"

definition record_plane :: "nat \<Rightarrow> u8 list \<Rightarrow> nat \<Rightarrow> u8 list" where
  "record_plane n rcd k = record_values n rcd k @ drop (PACKET_CODEC_VALUE_BYTES n k) (blank_plane n)"

definition record_ok :: "nat \<Rightarrow> u8 list \<Rightarrow> nat \<Rightarrow> bool" where
  "record_ok n rcd k \<longleftrightarrow> packet_codec_size_for n k \<le> length rcd \<and> k = bitmap_placed n (record_bitmap rcd)
     \<and> board_bits_only n (record_bitmap rcd)
     \<and> (\<forall>j < k. unat (get_value n (record_plane n rcd k) j) \<le> PACKET_CODEC_VALUE_MAX n)"

definition record_cells :: "nat \<Rightarrow> u8 list \<Rightarrow> nat \<Rightarrow> int list" where
  "record_cells n rcd k = record_grid n (record_bitmap rcd) (record_plane n rcd k)"

lemma record_okD:
  assumes "record_ok n rcd k"
  shows "packet_codec_size_for n k \<le> length rcd" "k = bitmap_placed n (record_bitmap rcd)"
    "board_bits_only n (record_bitmap rcd)"
    "j < k \<Longrightarrow> unat (get_value n (record_plane n rcd k) j) \<le> PACKET_CODEC_VALUE_MAX n"
  using assms unfolding record_ok_def by blast+

lemma record_cells_spec:
  assumes "record_ok n rcd k"
  shows "codec_grid n (record_cells n rcd k)"
    and "filled (record_cells n rcd k) [0..<n * n] = map (\<lambda>j. unat (get_value n (record_plane n rcd k) j)) [0..<k]"
    and "\<forall>c < n * n. plane_bit (record_bitmap rcd) c \<longleftrightarrow> record_cells n rcd k ! c \<noteq> -2"
    and "k \<le> n * n" and "k = record_placed n rcd"
proof -
  let ?g = "record_cells n rcd k" and ?bm = "record_bitmap rcd" and ?plane = "record_plane n rcd k"
  have kr: "k = rank_of (plane_bit ?bm) (n * n)"
    by (rule trans[OF record_okD(2)[OF assms] board_bits_rank[OF record_okD(3)[OF assms]]])
  have cell: "?g ! c = (if plane_bit ?bm c then int (unat (get_value n ?plane (rank_of (plane_bit ?bm) c))) else -2)"
    if "c < n * n" for c using that by (simp add: record_cells_def record_grid_def)
  show fl: "filled ?g [0..<n * n] = map (\<lambda>j. unat (get_value n ?plane j)) [0..<k]"
    unfolding record_cells_def kr by (rule filled_record_grid)
  show "\<forall>c < n * n. plane_bit ?bm c \<longleftrightarrow> ?g ! c \<noteq> -2" by (simp add: cell del: of_nat_unat)
  have "?g ! c = -2 \<or> 0 \<le> ?g ! c \<and> ?g ! c \<le> int (PACKET_CODEC_VALUE_MAX n)" if "c < n * n" for c
  proof (cases "plane_bit ?bm c")
    case True
    then have "rank_of (plane_bit ?bm) c < k" using rank_less[OF that] kr by metis
    from record_okD(4)[OF assms this] show ?thesis using True by (simp add: cell[OF that] del: of_nat_unat)
  qed (simp add: cell[OF that])
  moreover have "length ?g = n * n" by (simp add: record_cells_def record_grid_def)
  ultimately show "codec_grid n ?g" by (simp add: codec_grid_def)
  have "k = length (filled ?g [0..<n * n])" by (simp add: fl)
  then show "k \<le> n * n" using filled_le[of ?g "n * n"] by linarith
  have "PACKET_CODEC_HEADER_BYTES + PACKET_CODEC_BITMAP_BYTES n \<le> length rcd"
    using record_okD(1)[OF assms] by (simp add: packet_codec_size_for_def)
  from record_placed_bits[OF this] show "k = record_placed n rcd"
    using record_okD(2)[OF assms] by (simp only: bitmap_placed_bits)
qed

lemma plane_fits: "k \<le> n * n \<Longrightarrow> PACKET_CODEC_VALUE_BYTES n k \<le> length (blank_plane n)"
  using value_bytes_mono[of k "n * n" n] by (simp add: blank_plane_def)

lemma record_ok_decode:
  assumes "record_ok n rcd k"
  shows "packet_codec_decode n rcd = Inr (decoded_packet n rcd (record_cells n rcd k) k, packet_codec_size_for n k)"
proof -
  note rc = record_cells_spec[OF assms]
  show ?thesis
    by (rule decode_carries[OF rc(1) _ rc(5) plane_fits[OF rc(4)] rc(3)])
      (use record_okD(1)[OF assms] rc(2) in \<open>simp_all add: record_plane_def record_values_def\<close>)
qed

lemma record_ok_length:
  assumes "record_ok n rcd k"
  shows "length (record_values n rcd k) = PACKET_CODEC_VALUE_BYTES n k"
    and "length (take (PACKET_CODEC_BITMAP_BYTES n) (record_bitmap rcd)) = PACKET_CODEC_BITMAP_BYTES n"
  using record_okD(1)[OF assms] by (simp_all add: record_values_def packet_codec_size_for_def)

text \<open>Encoding the cells of a record gives its bitmap and its values, stray bits cleared.\<close>

lemma record_reencode:
  assumes n: "n \<le> 16" and ok: "record_ok n rcd k" and q: "grid q = record_cells n rcd k"
    and sz: "packet_codec_size_for n k \<le> outsize"
  shows "packet_codec_encode n q outsize = Some (codec_header q
     @ take (PACKET_CODEC_BITMAP_BYTES n) (record_bitmap rcd)
     @ mask_tail (k * PACKET_CODEC_VALUE_BITS n) (record_values n rcd k))"
proof -
  let ?B = "PACKET_CODEC_BITMAP_BYTES n" and ?W = "PACKET_CODEC_VALUE_BITS n" and ?vb = "PACKET_CODEC_VALUE_BYTES n k"
  note rc = record_cells_spec[OF ok]
  have cg: "codec_grid n (grid q)" using rc(1) q by simp
  have "possibility_placed_count n q = length (filled (grid q) [0..<n * n])"
    using cg by (intro placed_count_filled) (simp add: codec_grid_def)
  then have cnt: "possibility_placed_count n q = k" using rc(2) q by simp
  have "packet_codec_encoded_size n q \<le> outsize"
    using sz cnt by (simp add: packet_codec_encoded_size_def codec_placed_count)
  from encode_shape[OF n cg this, unfolded cnt] obtain bm2 pl2 where
    enc: "packet_codec_encode n q outsize = Some (codec_header q @ bm2 @ take ?vb pl2)"
    and lb: "length bm2 = ?B" and lp: "length pl2 = length (blank_plane n)"
    and bb: "\<forall>i < 8 * length bm2. plane_bit bm2 i \<longleftrightarrow> i < n * n \<and> grid q ! i \<noteq> -2"
    and pb: "\<forall>i < 8 * length pl2. plane_bit pl2 i \<longleftrightarrow> bits_of_values ?W 0 (filled (grid q) [0..<n * n]) i" .
  have "bm2 = take ?B (record_bitmap rcd)"
  proof (rule plane_ext)
    show "length bm2 = length (take ?B (record_bitmap rcd))" using lb record_ok_length(2)[OF ok] by simp
    fix i assume i: "i < 8 * length bm2"
    then have "plane_bit (take ?B (record_bitmap rcd)) i = plane_bit (record_bitmap rcd) i"
      using lb by (intro plane_bit_take) (simp add: less_mult_imp_div_less mult.commute)
    moreover have "board_bits_only n (record_bitmap rcd)" using ok by (simp add: record_ok_def)
    ultimately show "plane_bit bm2 i = plane_bit (take ?B (record_bitmap rcd)) i"
      using bb i rc(3) lb q by (auto simp: board_bits_only_def)
  qed
  moreover have "take ?vb pl2 = mask_tail (k * ?W) (record_values n rcd k)"
    using values_canonical[OF n record_ok_length(1)[OF ok], of pl2 "drop ?vb (blank_plane n)"]
      plane_fits[OF rc(4)] lp pb record_ok_length(1)[OF ok]
    by (simp add: q rc(2) record_plane_def)
  ultimately show ?thesis using enc by simp
qed

lemma plane_bit_at: "m < 8 \<Longrightarrow> plane_bit bm (8 * q + m) \<longleftrightarrow> bit (bm ! q) m"
  by (simp add: plane_bit_def)

lemma board_bits_guard:
  assumes "0 < n" and "board_bits_only n bm"
  shows "\<not> (n * n mod 8 \<noteq> 0 \<and> drop_bit (n * n mod 8) (bm ! (PACKET_CODEC_BITMAP_BYTES n - 1)) \<noteq> 0)"
proof (rule notI, elim conjE)
  let ?q = "n * n div 8" and ?r = "n * n mod 8"
  assume r: "?r \<noteq> 0" and nz: "drop_bit ?r (bm ! (PACKET_CODEC_BITMAP_BYTES n - 1)) \<noteq> 0"
  have N: "n * n = 8 * ?q + ?r" "?r < 8" by simp_all
  have B: "PACKET_CODEC_BITMAP_BYTES n = ?q + 1" using r by (rule bitmap_bytes_partial)
  then have "drop_bit ?r (bm ! ?q) \<noteq> 0" using nz by simp
  then obtain j where j: "bit (bm ! ?q) (?r + j)" by (auto simp: bit_eq_iff bit_drop_bit_eq)
  have lt: "?r + j < 8" using bit_imp_le_length[OF j] by simp
  then have "plane_bit bm (8 * ?q + (?r + j))" using j by (simp only: plane_bit_at)
  moreover have "8 * ?q + (?r + j) < 8 * PACKET_CODEC_BITMAP_BYTES n" using B lt by linarith
  ultimately have "8 * ?q + (?r + j) < n * n" using assms(2) unfolding board_bits_only_def by blast
  then show False using N by linarith
qed

text \<open>The two guards of canonicalisation, and its result when they pass.\<close>

lemma canonicalize_ok:
  assumes n: "0 < n" and ok: "record_ok n rcd k"
  shows "packet_codec_canonicalize n rcd mc = (int (packet_codec_size_for n k),
     put_u16 [rcd ! 0, rcd ! 1, if rcd ! 2 = 1 then 1 else 0, 0, 0, 0] 4 (of_int mc)
       @ take (PACKET_CODEC_BITMAP_BYTES n) (record_bitmap rcd)
       @ mask_tail (k * PACKET_CODEC_VALUE_BITS n) (record_values n rcd k)
       @ drop (packet_codec_size_for n k) rcd, k)"
proof -
  let ?H = "PACKET_CODEC_HEADER_BYTES" and ?B = "PACKET_CODEC_BITMAP_BYTES n" and ?V = "PACKET_CODEC_VALUE_BYTES n k"
  let ?W = "PACKET_CODEC_VALUE_BITS n"
  let ?bm = "take ?B (record_bitmap rcd)" and ?vs = "record_values n rcd k" and ?tl = "drop (packet_codec_size_for n k) rcd"
  have len: "?H + ?B + ?V \<le> length rcd" using record_okD(1)[OF ok] by (simp add: packet_codec_size_for_def)
  have split: "rcd = take 6 rcd @ ?bm @ ?vs @ ?tl"
    unfolding record_values_def packet_codec_size_for_def PACKET_CODEC_HEADER_BYTES_def
    by (metis append_take_drop_id drop_drop add.commute)
  have vb: "\<not> list_ex (\<lambda>j. unat (get_value n (record_plane n rcd k) j) > PACKET_CODEC_VALUE_MAX n) [0..<k]"
    using record_okD(4)[OF ok] by (force simp: list_ex_iff)
  have V0: "?V = 0 \<Longrightarrow> k * ?W mod 8 = 0" unfolding PACKET_CODEC_VALUE_BYTES_def div_eq_0_iff by auto
  have lay: "(let rcd1 = (if k * ?W mod 8 \<noteq> 0 then rcd[6 + ?B + ?V - 1 := rcd ! (6 + ?B + ?V - 1) AND mask (k * ?W mod 8)] else rcd);
              rcd2 = rcd1[2 := if rcd1 ! 2 = 1 then 1 else 0, 3 := 0]
          in put_u16 rcd2 4 (of_int mc))
     = put_u16 [rcd ! 0, rcd ! 1, if rcd ! 2 = 1 then 1 else 0, 0, 0, 0] 4 (of_int mc)
        @ ?bm @ (if ?V = 0 then ?vs else mask_tail (k * ?W) ?vs) @ ?tl"
    using canonical_layout[of "take 6 rcd" ?bm ?B ?vs ?V "k * ?W" ?tl "of_int mc", unfolded split[symmetric] Let_def]
      len record_ok_length[OF ok] V0
    by (simp add: Let_def PACKET_CODEC_HEADER_BYTES_def)
  have tail: "(if ?V = 0 then ?vs else mask_tail (k * ?W) ?vs) = mask_tail (k * ?W) ?vs"
    using V0 by (simp add: mask_tail_def)
  note [simp] = PACKET_CODEC_HEADER_BYTES_def packet_codec_size_for_def record_plane_def record_values_def
  have a: "\<not> length rcd < ?H + ?B" and b: "\<not> length rcd < packet_codec_size_for n k" using len by simp_all
  show ?thesis
    unfolding packet_codec_canonicalize_def Let_def record_okD(2)[OF ok, symmetric] if_not_P[OF a]
      if_not_P[OF board_bits_guard[OF n record_okD(3)[OF ok]]] if_not_P[OF b]
      if_not_P[OF vb[unfolded record_plane_def record_values_def]]
    using lay[unfolded tail Let_def] by (simp cong: if_cong split del: if_split)
qed

lemma canonicalize_success:
  assumes "packet_codec_canonicalize n rcd mc = (r, rcd', k)" and "0 < r"
  shows "record_ok n rcd k"
  using assms last_byte_guard[of n "record_bitmap rcd"] unfolding packet_codec_canonicalize_def Let_def record_ok_def
  by (auto simp: record_plane_def record_values_def packet_codec_size_for_def list_ex_iff not_less split: if_splits)

lemma canonicalize_failure:
  assumes "packet_codec_canonicalize n rcd mc = (r, rcd', k)" and "r \<le> 0"
  shows "rcd' = rcd \<and> k = 0 \<and> (r = 0 \<or> r = -1)"
  using assms unfolding packet_codec_canonicalize_def Let_def
  by (auto simp: packet_codec_size_for_def PACKET_CODEC_HEADER_BYTES_def split: if_splits)

text \<open>A successful decoding has checked every value.\<close>

lemma decode_cells_values:
  assumes "decode_cells n bs pl cs k out = Some out'"
    and "\<forall>c \<in> set cs. PACKET_CODEC_HEADER_BYTES + c div 8 < length bs"
    and "j < length (filter (plane_bit (record_bitmap bs)) cs)"
  shows "unat (get_value n pl (k + j)) \<le> PACKET_CODEC_VALUE_MAX n"
  using assms
proof (induction cs arbitrary: k out j)
  case (Cons c cs)
  have tst: "drop_bit (c AND 7) (bs ! (PACKET_CODEC_HEADER_BYTES + drop_bit 3 c)) AND 1 = 0
      \<longleftrightarrow> \<not> plane_bit (record_bitmap bs) c"
    using Cons.prems(2) by (simp add: cell_bit_test plane_bit_def drop_bit_eq_div[where 'a = nat])
  show ?case
  proof (cases "plane_bit (record_bitmap bs) c")
    case True
    then obtain out2 where ok: "unat (get_value n pl k) \<le> PACKET_CODEC_VALUE_MAX n"
      and rest: "decode_cells n bs pl cs (k + 1) out2 = Some out'"
      using Cons.prems(1) tst by (auto simp: Let_def split: if_splits)
    show ?thesis
    proof (cases j)
      case 0
      then show ?thesis using ok by simp
    next
      case (Suc i)
      then show ?thesis using Cons.IH[OF rest, of i] Cons.prems True by simp
    qed
  next
    case False
    then show ?thesis using Cons.IH[of k out j] Cons.prems tst by simp
  qed
qed simp

lemma decode_record_ok:
  assumes d: "packet_codec_decode n rcd = Inr (p, t)" and b: "board_bits_only n (record_bitmap rcd)"
  shows "record_ok n rcd (record_placed n rcd)"
proof -
  let ?k = "record_placed n rcd"
  have len: "packet_codec_size_for n ?k \<le> length rcd"
    using d by (auto simp: packet_codec_decode_def Let_def split: if_splits)
  then have pre: "PACKET_CODEC_HEADER_BYTES + PACKET_CODEC_BITMAP_BYTES n \<le> length rcd"
    by (simp add: packet_codec_size_for_def)
  have kb: "?k = bitmap_placed n (record_bitmap rcd)"
    using record_placed_bits[OF pre] by (simp only: bitmap_placed_bits)
  obtain o0 out where cells: "decode_cells n rcd (record_plane n rcd ?k) [0..<n * n] 0 o0 = Some out"
    using d len unfolding record_plane_def record_values_def
    by (auto simp: packet_codec_decode_def load_plane_def packet_codec_size_for_def Let_def
        split: if_splits option.splits)
  have in_rec: "\<forall>c \<in> set [0..<n * n]. PACKET_CODEC_HEADER_BYTES + c div 8 < length rcd"
    using bitmap_cell pre by fastforce
  have "length (filter (plane_bit (record_bitmap rcd)) [0..<n * n]) = ?k"
    using board_bits_rank[OF b] kb by (simp add: rank_of_def)
  then have "\<forall>j < ?k. unat (get_value n (record_plane n rcd ?k) j) \<le> PACKET_CODEC_VALUE_MAX n"
    using decode_cells_values[OF cells in_rec] by simp
  then show ?thesis unfolding record_ok_def using len kb b by blast
qed

text \<open>C36. Canonicalising a record in place is decoding and encoding again: when it answers a
  length, the record decodes to a position and the bytes left in the buffer are the
  encoding of that position with the new candidate count, the bytes behind the record
  being untouched. When it answers 0 or -1 the buffer is unchanged, and the record either
  does not decode or marks a cell beyond the board.\<close>

theorem packet_codec_canonicalize_correct:
  assumes "0 < n" and "n \<le> 16"
  shows "case packet_codec_canonicalize n rcd mc of (r, rcd', k) \<Rightarrow>
     if r > 0
     then \<exists>p. packet_codec_decode n rcd = Inr (p, nat r) \<and> alloc p = k mod 2 ^ 16
            \<and> packet_codec_encode n (p\<lparr>min_candidats := mc\<rparr>) (PACKET_CODEC_MAX_BYTES n) = Some (take (nat r) rcd')
            \<and> drop (nat r) rcd' = drop (nat r) rcd
     else rcd' = rcd \<and> k = 0 \<and> (r = 0 \<or> r = -1)
          \<and> ((\<exists>e. packet_codec_decode n rcd = Inl e) \<or> \<not> board_bits_only n (drop PACKET_CODEC_HEADER_BYTES rcd))"
proof -
  obtain r rcd' k where c: "packet_codec_canonicalize n rcd mc = (r, rcd', k)" by (cases "packet_codec_canonicalize n rcd mc")
  show ?thesis
  proof (cases "r > 0")
    case True
    note ok = canonicalize_success[OF c True]
    let ?p = "decoded_packet n rcd (record_cells n rcd k) k"
    have r: "r = int (packet_codec_size_for n k)" and out: "rcd' = put_u16 [rcd ! 0, rcd ! 1, if rcd ! 2 = 1 then 1 else 0, 0, 0, 0] 4 (of_int mc)
       @ take (PACKET_CODEC_BITMAP_BYTES n) (record_bitmap rcd)
       @ mask_tail (k * PACKET_CODEC_VALUE_BITS n) (record_values n rcd k) @ drop (packet_codec_size_for n k) rcd"
      using canonicalize_ok[OF assms(1) ok, of mc] c by simp_all
    have hd: "codec_header (?p\<lparr>min_candidats := mc\<rparr>) = put_u16 [rcd ! 0, rcd ! 1, if rcd ! 2 = 1 then 1 else 0, 0, 0, 0] 4 (of_int mc)"
      by (simp add: codec_header_def decoded_packet_def)
    define body where "body = codec_header (?p\<lparr>min_candidats := mc\<rparr>) @ take (PACKET_CODEC_BITMAP_BYTES n) (record_bitmap rcd)
       @ mask_tail (k * PACKET_CODEC_VALUE_BITS n) (record_values n rcd k)"
    have lb: "length body = packet_codec_size_for n k"
      using record_ok_length[OF ok] by (simp add: body_def packet_codec_size_for_def)
    have out': "rcd' = body @ drop (packet_codec_size_for n k) rcd" using out hd by (simp add: body_def)
    have "packet_codec_size_for n k \<le> PACKET_CODEC_MAX_BYTES n"
      using value_bytes_mono[OF record_cells_spec(4)[OF ok]]
      by (simp add: packet_codec_size_for_def PACKET_CODEC_MAX_BYTES_def)
    from record_reencode[OF assms(2) ok _ this, of "?p\<lparr>min_candidats := mc\<rparr>"]
    have enc: "packet_codec_encode n (?p\<lparr>min_candidats := mc\<rparr>) (PACKET_CODEC_MAX_BYTES n) = Some body"
      by (simp add: body_def) (simp add: decoded_packet_def)
    have "alloc ?p = k mod 2 ^ 16" by (simp add: decoded_packet_def)
    then show ?thesis using True record_ok_decode[OF ok] enc lb unfolding c r out' by auto
  next
    case False
    have "False" if "packet_codec_decode n rcd = Inr (p, t)" "board_bits_only n (record_bitmap rcd)" for p t
    proof -
      have "r = int (packet_codec_size_for n (record_placed n rcd))"
        using canonicalize_ok[OF assms(1) decode_record_ok[OF that], of mc] c by simp
      then show False using False by (simp add: packet_codec_size_for_def PACKET_CODEC_HEADER_BYTES_def)
    qed
    then have "(\<exists>e. packet_codec_decode n rcd = Inl e) \<or> \<not> board_bits_only n (record_bitmap rcd)"
      by (cases "packet_codec_decode n rcd") auto
    then show ?thesis using canonicalize_failure[OF c] False by (auto simp: c)
  qed
qed

text \<open>A record of the 4x4 board with one piece, a dirty reserved byte and a dirty tail bit.\<close>

definition sample_record :: "u8 list" where
  "sample_record = [0, 0, 1, 7, 0, 0, 1, 0, 133, 9]"

theorem packet_codec_canonicalize_correct_witness:
  "packet_codec_canonicalize 4 sample_record 5 = (9, [0, 0, 1, 0, 5, 0, 1, 0, 5, 9], 1)
   \<and> (\<exists>p. packet_codec_decode 4 sample_record = Inr (p, 9) \<and> alloc p = 1
        \<and> packet_codec_encode 4 (p\<lparr>min_candidats := 5\<rparr>) (PACKET_CODEC_MAX_BYTES 4) = Some [0, 0, 1, 0, 5, 0, 1, 0, 5])"
proof -
  have c: "packet_codec_canonicalize 4 sample_record 5 = (9, [0, 0, 1, 0, 5, 0, 1, 0, 5, 9], 1)" by code_simp
  show ?thesis using packet_codec_canonicalize_correct[of 4 sample_record 5] unfolding c by fastforce
qed

section \<open>Encoding and reading back\<close>

lemma encode_exists:
  assumes "n \<le> 16" "codec_grid n (grid p)" "packet_codec_encoded_size n p \<le> outsize"
  obtains bytes where "packet_codec_encode n p outsize = Some bytes"
  using encode_shape[OF assms] by metis

lemma encoded_size_bound:
  assumes "codec_grid n (grid p)"
  shows "packet_codec_encoded_size n p \<le> PACKET_CODEC_MAX_BYTES n"
proof -
  have "possibility_placed_count n p = length (filled (grid p) [0..<n * n])"
    using assms by (intro placed_count_filled) (simp add: codec_grid_def)
  then have "possibility_placed_count n p \<le> n * n" using filled_le[of "grid p" "n * n"] by simp
  from value_bytes_mono[OF this, of n] show ?thesis
    by (simp add: packet_codec_encoded_size_def packet_codec_size_for_def codec_placed_count PACKET_CODEC_MAX_BYTES_def)
qed

text \<open>C35. A position whose cells have a representation is always encoded when the buffer holds
  its size, the record has exactly the announced size, and decoding it, whatever follows
  in the buffer, gives the same cells, cursor, candidate count and flag, with the counter
  and the used-piece mask recomputed from the cells.\<close>

theorem packet_codec_roundtrip:
  assumes "n \<le> 16" and "codec_grid n (grid p)" and "header_ok p"
    and "packet_codec_encoded_size n p \<le> outsize"
  shows "\<exists>bytes. packet_codec_encode n p outsize = Some bytes \<and> length bytes = packet_codec_encoded_size n p
     \<and> packet_codec_decode n (bytes @ rest) = Inr (canonical_packet n p, length bytes)"
proof -
  obtain bytes where e: "packet_codec_encode n p outsize = Some bytes"
    using encode_exists[OF assms(1,2,4)] .
  from codec_roundtrip[OF assms(1-3) e] show ?thesis using e by auto
qed

definition sample_packet :: possibility_packet where
  "sample_packet = sample_empty\<lparr>grid := sample_solution, px := 3, checked := 1\<rparr>"

lemma sample_packet_codec: "codec_grid 4 (grid sample_packet)" "header_ok sample_packet"
  "packet_codec_encoded_size 4 sample_packet = 22"
  by code_simp+

theorem packet_codec_roundtrip_witness:
  "\<exists>bytes. packet_codec_encode 4 sample_packet 22 = Some bytes \<and> length bytes = 22
     \<and> packet_codec_decode 4 (bytes @ [1, 2]) = Inr (canonical_packet 4 sample_packet, 22)"
  using packet_codec_roundtrip[of 4 sample_packet 22 "[1, 2]"] sample_packet_codec by fastforce

text \<open>C38. A cell value outside the domain of the format is refused, and so is a buffer smaller
  than the record; a record never exceeds its declared maximum, which is smaller than the
  raw structure for every supported board.\<close>

theorem packet_codec_bounds:
  assumes "ETERN_SIZE_supported n" and "length (grid p) = n * n"
  shows "(packet_codec_encode n p outsize = None \<longleftrightarrow> \<not> codec_grid n (grid p) \<or> outsize < packet_codec_encoded_size n p)
     \<and> packet_codec_encoded_size n p \<le> PACKET_CODEC_MAX_BYTES n
     \<and> PACKET_CODEC_MAX_BYTES n < sizeof_possibility_packet n"
proof (intro conjI)
  have n: "n \<le> 16" using assms(1) by (auto simp: ETERN_SIZE_supported_def)
  show "packet_codec_encode n p outsize = None \<longleftrightarrow> \<not> codec_grid n (grid p) \<or> outsize < packet_codec_encoded_size n p"
  proof (cases "codec_grid n (grid p)")
    case True
    show ?thesis
    proof (cases "outsize < packet_codec_encoded_size n p")
      case False
      then show ?thesis using True encode_exists[OF n True] by (metis leI option.distinct(1))
    qed (simp add: packet_codec_encode_def packet_codec_encoded_size_def Let_def)
  next
    case False
    then have "\<exists>c \<in> set [0..<n * n]. grid p ! c \<noteq> -2 \<and> (grid p ! c < 0 \<or> grid p ! c > int (PACKET_CODEC_VALUE_MAX n))"
      using assms(2) by (force simp: codec_grid_def not_le)
    from encode_cells_refuses[OF this] show ?thesis using False by (simp add: packet_codec_encode_def Let_def)
  qed
  have "possibility_placed_count n p \<le> n * n"
    using assms(2) placed_count_filled[OF assms(2)] filled_le[of "grid p" "n * n"] by simp
  from value_bytes_mono[OF this, of n] show "packet_codec_encoded_size n p \<le> PACKET_CODEC_MAX_BYTES n"
    by (simp add: packet_codec_encoded_size_def packet_codec_size_for_def codec_placed_count PACKET_CODEC_MAX_BYTES_def)
  show "PACKET_CODEC_MAX_BYTES n < sizeof_possibility_packet n"
    using assms(1) unfolding ETERN_SIZE_supported_def insert_iff empty_iff
    by (elim disjE; (simp only:)?; (code_simp | simp))
qed

theorem packet_codec_bounds_witness:
  "packet_codec_encode 4 (sample_packet\<lparr>grid := sample_solution[3 := 65]\<rparr>) 100 = None
   \<and> packet_codec_encode 4 sample_packet 21 = None \<and> PACKET_CODEC_MAX_BYTES 4 < sizeof_possibility_packet 4"
proof -
  have l: "length (grid sample_packet) = 4 * 4" "length (grid (sample_packet\<lparr>grid := sample_solution[3 := 65]\<rparr>)) = 4 * 4"
    by code_simp+
  have bad: "\<not> codec_grid 4 (grid (sample_packet\<lparr>grid := sample_solution[3 := 65]\<rparr>))" by code_simp
  show ?thesis using packet_codec_bounds[OF sample_supported l(1), of 21]
      packet_codec_bounds[OF sample_supported l(2), of 100] bad sample_packet_codec by simp
qed

text \<open>The header of a stock file written by a supported board size is accepted by that size
  and refused by every other, and gives back its flags and whether the body is
  compressed.\<close>

lemma packet_codec_file_header_selective:
  assumes "ETERN_SIZE_supported n" and "ETERN_SIZE_supported m"
  shows "let h = packet_codec_write_file_header_codec n flags z in
     packet_codec_read_file_header m h = (if m = n then 0 else -1)
     \<and> packet_codec_file_header_flags h = flags \<and> packet_codec_file_header_is_zstd h = z
     \<and> length h = PACKET_CODEC_FILE_HEADER_BYTES"
proof -
  let ?h = "packet_codec_write_file_header_codec n flags z"
  note defs = packet_codec_write_file_header_codec_def PACKET_CODEC_FILE_HEADER_BYTES_def
    PACKET_CODEC_FILE_FLAGS_OFFSET_def PACKET_CODEC_FILE_MAGIC_def
  have len: "length ?h = 32" by (simp add: defs Let_def put_u16_def)
  have magic: "take 8 ?h = PACKET_CODEC_FILE_MAGIC" by (simp add: defs Let_def put_u16_def)
  have fields: "get_u16 ?h 8 = (if z then PACKET_CODEC_FILE_VERSION_ZSTD else PACKET_CODEC_FILE_VERSION)"
    "get_u16 ?h 10 = of_nat n" "get_u16 ?h 12 = of_nat (ETERN_PARTS n)"
    "get_u16 ?h 14 = of_nat (PACKET_CODEC_MAX_BYTES n)" "get_u16 ?h 16 = of_nat PACKET_CODEC_HEADER_BYTES"
    unfolding packet_codec_write_file_header_codec_def Let_def PACKET_CODEC_FILE_FLAGS_OFFSET_def
    by (simp_all add: get_put_u16 get_u16_other get_u16_update PACKET_CODEC_FILE_HEADER_BYTES_def PACKET_CODEC_FILE_MAGIC_def)
  have small: "n < 2 ^ 16" "m < 2 ^ 16" using assms by (auto simp: ETERN_SIZE_supported_def)
  have "(of_nat n :: u16) = of_nat m \<longleftrightarrow> n = m"
    using small by (simp add: word_of_nat_eq_iff take_bit_nat_eq_self)
  moreover have "?h ! 18 = flags" by (simp add: defs Let_def put_u16_def)
  ultimately show ?thesis using len magic fields
    by (auto simp: Let_def packet_codec_read_file_header_def packet_codec_file_header_flags_def
        packet_codec_file_header_is_zstd_def PACKET_CODEC_FILE_FLAGS_OFFSET_def PACKET_CODEC_FILE_HEADER_BYTES_def
        PACKET_CODEC_FILE_VERSION_def PACKET_CODEC_FILE_VERSION_ZSTD_def)
qed

lemma encoded_peek:
  assumes "n \<le> 16" and "codec_grid n (grid p)" and "header_ok p" and "packet_codec_encode n p outsize = Some bytes"
  shows "packet_codec_peek_placed n (bytes @ rest) = possibility_placed_count n p"
    and "PACKET_CODEC_HEADER_BYTES + PACKET_CODEC_BITMAP_BYTES n \<le> length bytes"
proof -
  have d: "packet_codec_decode n (bytes @ r) = Inr (canonical_packet n p, length bytes)" for r
    by (rule codec_roundtrip(1)[OF assms])
  show pre: "PACKET_CODEC_HEADER_BYTES + PACKET_CODEC_BITMAP_BYTES n \<le> length bytes"
    using d[of "[]"] by (auto simp: packet_codec_decode_def Let_def split: if_splits)
  then have pr: "PACKET_CODEC_HEADER_BYTES + PACKET_CODEC_BITMAP_BYTES n \<le> length (bytes @ rest)" by simp
  have "alloc (canonical_packet n p) = record_placed n (bytes @ rest) mod 2 ^ 16"
    using decode_header_fields[OF d[of rest]] by simp
  then show "packet_codec_peek_placed n (bytes @ rest) = possibility_placed_count n p"
    using pr record_placed_bits[OF pr]
    by (simp add: packet_codec_peek_placed_def canonical_packet_def bitmap_placed_bits)
qed

text \<open>What is read in a record without decoding it agrees with the position: the number of
  filled cells, the candidate count and the flag; and editing the flag in place is
  encoding the position with the new flag.\<close>

lemma packet_codec_peek_poke:
  assumes "n \<le> 16" and "codec_grid n (grid p)" and "header_ok p"
    and "packet_codec_encode n p outsize = Some bytes"
  shows "packet_codec_peek_placed n (bytes @ rest) = possibility_placed_count n p
     \<and> packet_codec_peek_min_candidats (bytes @ rest) = min_candidats p
     \<and> packet_codec_peek_checked (bytes @ rest) = (if checked p \<noteq> 0 then 1 else 0)
     \<and> packet_codec_encode n (p\<lparr>checked := chk\<rparr>) outsize = Some (snd (packet_codec_poke_checked bytes chk))"
proof -
  have sz: "packet_codec_encoded_size n p \<le> outsize"
    using assms(4) by (auto simp: packet_codec_encode_def packet_codec_encoded_size_def Let_def split: if_splits)
  obtain tl where b: "bytes = codec_header p @ tl"
    using encode_shape[OF assms(1,2) sz] assms(4) by (metis option.inject)
  have d: "packet_codec_decode n (bytes @ rest) = Inr (canonical_packet n p, length bytes)"
    by (rule codec_roundtrip(1)[OF assms])
  have pre: "PACKET_CODEC_HEADER_BYTES + PACKET_CODEC_BITMAP_BYTES n \<le> length (bytes @ rest)"
    using encoded_peek(2)[OF assms] by simp
  have dec: "min_candidats (canonical_packet n p) = sint (get_u16 (bytes @ rest) 4)"
    using decode_header_fields[OF d] by simp
  have "packet_codec_peek_placed n (bytes @ rest) = possibility_placed_count n p" by (rule encoded_peek(1)[OF assms])
  moreover have "packet_codec_peek_min_candidats (bytes @ rest) = min_candidats p"
    using pre dec by (simp add: packet_codec_peek_min_candidats_def canonical_packet_def)
  moreover have "packet_codec_peek_checked (bytes @ rest) = (if checked p \<noteq> 0 then 1 else 0)"
    by (simp add: packet_codec_peek_checked_def b codec_header_def put_u16_def PACKET_CODEC_HEADER_BYTES_def)
  moreover have "packet_codec_encode n (p\<lparr>checked := chk\<rparr>) outsize = Some (snd (packet_codec_poke_checked bytes chk))"
    using assms(4) by (rule encode_checked)
  ultimately show ?thesis by simp
qed

section \<open>Streams of records\<close>

text \<open>A writer that appends a record and a reader that takes one back: what \<open>k\<close> reads give
  after \<open>k\<close> writes depends only on the law for one record.\<close>

locale record_stream =
  fixes valid :: "'p \<Rightarrow> bool" and emit :: "'b list \<Rightarrow> 'p \<Rightarrow> 'b list" and fetch :: "'b list \<Rightarrow> 'r \<times> 'b list"
    and image :: "'p \<Rightarrow> 'r"
  assumes emit_append: "emit f p = f @ emit [] p"
    and fetch_emit: "valid p \<Longrightarrow> fetch (emit [] p @ rest) = (image p, rest)"
begin

primrec fetch_many :: "nat \<Rightarrow> 'b list \<Rightarrow> 'r list \<times> 'b list" where
  "fetch_many 0 f = ([], f)"
| "fetch_many (Suc k) f = (let (r, f1) = fetch f; (rs, f2) = fetch_many k f1 in (r # rs, f2))"

lemma emit_all_append: "fold (\<lambda>p f. emit f p) ps f = f @ fold (\<lambda>p f. emit f p) ps []"
proof (induction ps arbitrary: f)
  case (Cons p ps)
  from Cons[of "emit f p"] Cons[of "emit [] p"] show ?case using emit_append[of f p] by simp
qed simp

lemma fetch_many_emitted:
  "list_all valid ps \<Longrightarrow> fetch_many (length ps) (fold (\<lambda>p f. emit f p) ps [] @ rest) = (map image ps, rest)"
proof (induction ps)
  case (Cons p ps)
  have "fold (\<lambda>p f. emit f p) (p # ps) [] @ rest = emit [] p @ (fold (\<lambda>p f. emit f p) ps [] @ rest)"
    using emit_all_append[of ps "emit [] p"] by simp
  then show ?case using Cons fetch_emit[of p] by simp
qed simp

end

definition stream_packet :: "nat \<Rightarrow> possibility_packet \<Rightarrow> bool" where
  "stream_packet n p \<longleftrightarrow> n \<le> 16 \<and> 0 < n \<and> codec_grid n (grid p) \<and> header_ok p"

definition write_record :: "nat \<Rightarrow> u8 list \<Rightarrow> possibility_packet \<Rightarrow> u8 list" where
  "write_record n f p = snd (packet_codec_fwrite n (PACKET_CODEC_MAX_BYTES n) f p)"

primrec read_records :: "nat \<Rightarrow> nat \<Rightarrow> u8 list \<Rightarrow> fread_result list \<times> u8 list" where
  "read_records n 0 f = ([], f)"
| "read_records n (Suc k) f =
     (let (r, f1) = packet_codec_fread n f; (rs, f2) = read_records n k f1 in (r # rs, f2))"

lemma fwrite_encoded:
  assumes "stream_packet n p"
  obtains bytes where "packet_codec_encode n p (PACKET_CODEC_MAX_BYTES n) = Some bytes"
    "length bytes \<le> PACKET_CODEC_MAX_BYTES n" "write_record n f p = f @ bytes"
    "packet_codec_fwrite n (PACKET_CODEC_MAX_BYTES n) f p = (0, f @ bytes)"
proof -
  have s: "n \<le> 16" "codec_grid n (grid p)" "header_ok p" using assms by (simp_all add: stream_packet_def)
  note le = encoded_size_bound[OF s(2)]
  obtain bytes where e: "packet_codec_encode n p (PACKET_CODEC_MAX_BYTES n) = Some bytes" using encode_exists[OF s(1,2) le] .
  have "length bytes \<le> PACKET_CODEC_MAX_BYTES n" using codec_roundtrip(2)[OF s e] le by simp
  then show ?thesis using e that by (simp add: write_record_def packet_codec_fwrite_def)
qed

lemma fread_record:
  assumes "stream_packet n p" and e: "packet_codec_encode n p outsize = Some bytes" and len: "length bytes \<le> PACKET_CODEC_MAX_BYTES n"
  shows "packet_codec_fread n (bytes @ rest) = (FR_Packet (canonical_packet n p), rest)"
proof -
  let ?P = "PACKET_CODEC_HEADER_BYTES + PACKET_CODEC_BITMAP_BYTES n"
  have s: "n \<le> 16" "codec_grid n (grid p)" "header_ok p" using assms(1) by (simp_all add: stream_packet_def)
  have d: "packet_codec_decode n bytes = Inr (canonical_packet n p, length bytes)"
    using codec_roundtrip(1)[OF s e, of "[]"] by simp
  then have tot: "length bytes = packet_codec_size_for n (record_placed n bytes)" and pre: "?P \<le> length bytes"
    by (auto simp: packet_codec_decode_def packet_codec_size_for_def Let_def split: if_splits option.splits)
  have got: "take ?P (bytes @ rest) = take ?P bytes" using pre by simp
  have "record_placed n (take ?P bytes) = record_placed n bytes"
    unfolding record_placed_def by (intro fold_cong) auto
  moreover have "drop ?P bytes @ rest = drop ?P (bytes @ rest)" using pre by simp
  moreover have "take (length bytes - ?P) (drop ?P (bytes @ rest)) = drop ?P bytes" using pre by simp
  moreover have "PACKET_CODEC_VALUE_BYTES n (record_placed n bytes) = length bytes - ?P"
    using tot by (simp add: packet_codec_size_for_def)
  moreover have "take ?P bytes \<noteq> []" using pre by (auto simp: PACKET_CODEC_HEADER_BYTES_def)
  ultimately show ?thesis
    unfolding packet_codec_fread_def Let_def got using pre len d by simp
qed

interpretation stock_stream: record_stream "stream_packet n" "write_record n" "packet_codec_fread n"
  "\<lambda>p. FR_Packet (canonical_packet n p)" for n
proof
  show "write_record n f p = f @ write_record n [] p" for f p
    by (simp add: write_record_def packet_codec_fwrite_def split: option.split)
  show "packet_codec_fread n (write_record n [] p @ rest) = (FR_Packet (canonical_packet n p), rest)"
    if "stream_packet n p" for p rest
    using fwrite_encoded[OF that, of "[]"] fread_record[OF that] by (metis append_Nil)
qed

lemma read_records_fetch: "read_records n k f = stock_stream.fetch_many n k f"
  by (induction k arbitrary: f) (simp_all add: Let_def split: prod.split)

lemma fread_eof: "packet_codec_fread n [] = (FR_Eof, [])"
  by (simp add: packet_codec_fread_def Let_def)

text \<open>C37. Positions written one after the other to a stock file are read back in the same order,
  each in its canonical form, and the read after the last one reports the end of file.\<close>

theorem packet_codec_stream_roundtrip:
  assumes "list_all (stream_packet n) ps"
  shows "let file = fold (\<lambda>p f. write_record n f p) ps [] in
     read_records n (length ps) file = (map (\<lambda>p. FR_Packet (canonical_packet n p)) ps, [])
     \<and> packet_codec_fread n (snd (read_records n (length ps) file)) = (FR_Eof, [])"
  using stock_stream.fetch_many_emitted[OF assms, of "[]"] by (simp add: read_records_fetch fread_eof)

theorem packet_codec_stream_roundtrip_witness:
  "read_records 4 2 (fold (\<lambda>p f. write_record 4 f p) [sample_empty, sample_packet] [])
     = ([FR_Packet (canonical_packet 4 sample_empty), FR_Packet (canonical_packet 4 sample_packet)], [])"
proof -
  have "list_all (stream_packet 4) [sample_empty, sample_packet]" by code_simp
  from packet_codec_stream_roundtrip[OF this] show ?thesis by (simp add: Let_def numeral_2_eq_2)
qed

section \<open>Overflow of the decoder\<close>

lemma decode_overflow_iff:
  "packet_codec_decode n bs = Inl CE_Overflow \<longleftrightarrow>
     packet_codec_size_for n (record_placed n bs) \<le> length bs
     \<and> PACKET_CODEC_VALUE_BYTES n (ETERN_PARTS n) + 2 < PACKET_CODEC_VALUE_BYTES n (record_placed n bs)"
proof -
  let ?k = "record_placed n bs" and ?P = "PACKET_CODEC_HEADER_BYTES + PACKET_CODEC_BITMAP_BYTES n"
  show ?thesis
  proof (cases "packet_codec_size_for n ?k \<le> length bs")
    case True
    then have "\<not> length bs < ?P" "\<not> length bs < packet_codec_size_for n ?k" by (simp_all add: packet_codec_size_for_def)
    moreover have "length (take (PACKET_CODEC_VALUE_BYTES n ?k) (drop ?P bs)) = PACKET_CODEC_VALUE_BYTES n ?k"
      using True by (simp add: packet_codec_size_for_def)
    ultimately show ?thesis using True
      by (simp add: packet_codec_decode_def Let_def load_plane_def blank_plane_def split: option.split)
  qed (simp add: packet_codec_decode_def Let_def)
qed

lemma record_placed_max: "record_placed n bs \<le> 8 * PACKET_CODEC_BITMAP_BYTES n"
proof -
  have "byte_bits b \<le> 8" for b using length_filter_le[of "bit b" "[0..<8]"] by (simp add: byte_bits_filter)
  then have "(\<Sum>i < PACKET_CODEC_BITMAP_BYTES n. byte_bits (bs ! (PACKET_CODEC_HEADER_BYTES + i))) \<le> (\<Sum>i < PACKET_CODEC_BITMAP_BYTES n. 8)"
    by (intro sum_mono)
  then show ?thesis by (simp add: record_placed_def fold_sum mult.commute)
qed

lemma record_placed_full:
  assumes "PACKET_CODEC_HEADER_BYTES + PACKET_CODEC_BITMAP_BYTES n \<le> k"
  shows "record_placed n (replicate k 255) = 8 * PACKET_CODEC_BITMAP_BYTES n"
proof -
  have b: "bit (255 :: u8) j" if "j < 8" for j
  proof -
    have "(255 :: u8) = mask 8" by (simp add: mask_eq_exp_minus_1)
    then show ?thesis using that by (simp only: bit_mask_iff) simp
  qed
  have "plane_bit (drop PACKET_CODEC_HEADER_BYTES (replicate k 255)) i" if "i < 8 * PACKET_CODEC_BITMAP_BYTES n" for i
  proof -
    have "i div 8 < k - PACKET_CODEC_HEADER_BYTES" using that assms by linarith
    then show ?thesis using b[of "i mod 8"] by (simp add: plane_bit_def)
  qed
  then have "filter (plane_bit (drop PACKET_CODEC_HEADER_BYTES (replicate k 255))) [0..<8 * PACKET_CODEC_BITMAP_BYTES n] = [0..<8 * PACKET_CODEC_BITMAP_BYTES n]"
    by (intro filter_True) simp
  then show ?thesis using assms by (simp add: record_placed_bits)
qed

definition worst_record :: "nat \<Rightarrow> u8 list" where
  "worst_record n = replicate (packet_codec_size_for n (8 * PACKET_CODEC_BITMAP_BYTES n)) 255"

lemma decode_overflow_exists:
  "(\<exists>bs. packet_codec_decode n bs = Inl CE_Overflow) \<longleftrightarrow>
     PACKET_CODEC_VALUE_BYTES n (ETERN_PARTS n) + 2 < PACKET_CODEC_VALUE_BYTES n (8 * PACKET_CODEC_BITMAP_BYTES n)"
proof
  assume "\<exists>bs. packet_codec_decode n bs = Inl CE_Overflow"
  then show "PACKET_CODEC_VALUE_BYTES n (ETERN_PARTS n) + 2 < PACKET_CODEC_VALUE_BYTES n (8 * PACKET_CODEC_BITMAP_BYTES n)"
    using value_bytes_mono[OF record_placed_max] less_le_trans unfolding decode_overflow_iff by blast
next
  assume "PACKET_CODEC_VALUE_BYTES n (ETERN_PARTS n) + 2 < PACKET_CODEC_VALUE_BYTES n (8 * PACKET_CODEC_BITMAP_BYTES n)"
  moreover have "record_placed n (worst_record n) = 8 * PACKET_CODEC_BITMAP_BYTES n"
    unfolding worst_record_def by (rule record_placed_full) (simp add: packet_codec_size_for_def)
  ultimately have "packet_codec_decode n (worst_record n) = Inl CE_Overflow" unfolding decode_overflow_iff by (simp add: worst_record_def)
  then show "\<exists>bs. packet_codec_decode n bs = Inl CE_Overflow" by blast
qed

lemma fread_overflow_exists:
  "(\<exists>f. fst (packet_codec_fread n f) = FR_Overflow) \<longleftrightarrow>
     PACKET_CODEC_VALUE_BYTES n (ETERN_PARTS n) < PACKET_CODEC_VALUE_BYTES n (8 * PACKET_CODEC_BITMAP_BYTES n)"
proof -
  let ?P = "PACKET_CODEC_HEADER_BYTES + PACKET_CODEC_BITMAP_BYTES n" and ?V = "PACKET_CODEC_VALUE_BYTES n"
  show ?thesis
  proof
    assume "\<exists>f. fst (packet_codec_fread n f) = FR_Overflow"
    then obtain f where f: "fst (packet_codec_fread n f) = FR_Overflow" by blast
    define got where "got = take ?P f"
    define body where "body = take (?V (record_placed n got)) (drop ?P f)"
    have "length body \<le> ?V (record_placed n got)" by (simp add: body_def)
    also have "\<dots> \<le> ?V (8 * PACKET_CODEC_BITMAP_BYTES n)" by (rule value_bytes_mono[OF record_placed_max])
    finally have len: "length body \<le> ?V (8 * PACKET_CODEC_BITMAP_BYTES n)" .
    have "?P + length body > PACKET_CODEC_MAX_BYTES n \<or> packet_codec_decode n (got @ body) = Inl CE_Overflow"
      using f unfolding packet_codec_fread_def Let_def got_def[symmetric] body_def[symmetric]
      by (auto split: if_splits sum.splits prod.splits codec_error.splits)
    then show "?V (ETERN_PARTS n) < ?V (8 * PACKET_CODEC_BITMAP_BYTES n)"
    proof
      assume "?P + length body > PACKET_CODEC_MAX_BYTES n"
      then show ?thesis using len by (simp add: PACKET_CODEC_MAX_BYTES_def)
    next
      assume "packet_codec_decode n (got @ body) = Inl CE_Overflow"
      then have "?V (ETERN_PARTS n) + 2 < ?V (8 * PACKET_CODEC_BITMAP_BYTES n)" using decode_overflow_exists by blast
      then show ?thesis by simp
    qed
  next
    assume over: "?V (ETERN_PARTS n) < ?V (8 * PACKET_CODEC_BITMAP_BYTES n)"
    have f: "worst_record n = replicate ?P 255 @ replicate (?V (8 * PACKET_CODEC_BITMAP_BYTES n)) 255"
      by (simp add: worst_record_def packet_codec_size_for_def replicate_add)
    have got: "take ?P (worst_record n) = replicate ?P 255" "drop ?P (worst_record n) = replicate (?V (8 * PACKET_CODEC_BITMAP_BYTES n)) 255"
      by (simp_all add: f)
    have rp: "record_placed n (replicate ?P 255) = 8 * PACKET_CODEC_BITMAP_BYTES n" by (rule record_placed_full) simp
    have "replicate ?P (255 :: u8) \<noteq> []" by (simp add: PACKET_CODEC_HEADER_BYTES_def)
    then have "fst (packet_codec_fread n (worst_record n)) = FR_Overflow"
      using over unfolding packet_codec_fread_def Let_def got rp by (simp add: PACKET_CODEC_MAX_BYTES_def)
    then show "\<exists>f. fst (packet_codec_fread n f) = FR_Overflow" by blast
  qed
qed

text \<open>C39. The decoder copies the packed values that the bitmap announces in a plane sized for a full
  board. For every record: it leaves that plane exactly when the record has all the bytes it
  announces and the bits of its bitmap, those beyond the last cell included, announce more than
  two bytes above those of a full board. So the sides of board for which some record makes it leave
  the plane are those where the spare bits of the bitmap allow it: among the supported sides,
  10 and 14. Reading from a file leaves its buffer, which has no spare byte, for the same reason.\<close>

theorem packet_codec_decode_overflows:
  "(packet_codec_decode n bs = Inl CE_Overflow \<longleftrightarrow>
      packet_codec_size_for n (record_placed n bs) \<le> length bs
      \<and> PACKET_CODEC_VALUE_BYTES n (ETERN_PARTS n) + 2 < PACKET_CODEC_VALUE_BYTES n (record_placed n bs))
   \<and> ((\<exists>bs. packet_codec_decode n bs = Inl CE_Overflow) \<longleftrightarrow>
      PACKET_CODEC_VALUE_BYTES n (ETERN_PARTS n) + 2 < PACKET_CODEC_VALUE_BYTES n (8 * PACKET_CODEC_BITMAP_BYTES n))
   \<and> ((\<exists>f. fst (packet_codec_fread n f) = FR_Overflow) \<longleftrightarrow>
      PACKET_CODEC_VALUE_BYTES n (ETERN_PARTS n) < PACKET_CODEC_VALUE_BYTES n (8 * PACKET_CODEC_BITMAP_BYTES n))
   \<and> (ETERN_SIZE_supported n \<and> (\<exists>bs. packet_codec_decode n bs = Inl CE_Overflow) \<longleftrightarrow> n = 10 \<or> n = 14)"
proof -
  have "ETERN_SIZE_supported n \<and> (\<exists>bs. packet_codec_decode n bs = Inl CE_Overflow) \<longleftrightarrow> n = 10 \<or> n = 14"
    unfolding decode_overflow_exists ETERN_SIZE_supported_def
    by (auto simp: PACKET_CODEC_VALUE_BYTES_def PACKET_CODEC_BITMAP_BYTES_def PACKET_CODEC_VALUE_BITS_def PACKET_CODEC_VALUE_MAX_def)
  then show ?thesis using decode_overflow_iff decode_overflow_exists fread_overflow_exists by blast
qed

end
