(* ===== verification/Lifo.thy ===== *)
theory Lifo
  imports Etii_Prelude "HOL-Library.Monad_Syntax" "HOL-Library.Multiset"
begin

text \<open>
  The doubly linked queue of \<open>lifo.c\<close> on an explicit heap. A heap maps addresses (64-bit
  words, \<open>0\<close> is the null pointer) to elements; reading or writing an address that is not
  allocated is undefined behaviour, the result \<open>None\<close>. The value \<open>malloc\<close> returns is an
  argument. The queue is shown to be memory safe and to implement a list of byte strings
  with both ends, its counters included.
\<close>

section \<open>Elements and queues\<close>

type_synonym addr = "64 word"

record element =
  el_previous :: addr
  el_next :: addr
  el_data :: "u8 list"

definition el_len :: "element \<Rightarrow> nat" where
  "el_len e = length (el_data e) mod 2 ^ 16"

type_synonym heap = "addr \<Rightarrow> element option"

record File =
  f_start :: addr
  f_end :: addr
  f_size :: "64 word"
  f_bytes :: "64 word"
  f_sizeofvalue :: nat
  f_variable :: bool

abbreviation NULL :: addr where "NULL \<equiv> 0"

definition set_next :: "addr \<Rightarrow> addr \<Rightarrow> heap \<Rightarrow> heap option" where
  "set_next a v h = (case h a of None \<Rightarrow> None | Some e \<Rightarrow> Some (h(a \<mapsto> e\<lparr>el_next := v\<rparr>)))"

definition set_previous :: "addr \<Rightarrow> addr \<Rightarrow> heap \<Rightarrow> heap option" where
  "set_previous a v h = (case h a of None \<Rightarrow> None | Some e \<Rightarrow> Some (h(a \<mapsto> e\<lparr>el_previous := v\<rparr>)))"

definition free_element :: "addr \<Rightarrow> heap \<Rightarrow> heap option" where
  "free_element a h = (case h a of None \<Rightarrow> None | Some e \<Rightarrow> Some (h(a := None)))"

definition init_file :: "nat \<Rightarrow> File" where
  "init_file sizeofvalue = \<lparr>f_start = NULL, f_end = NULL, f_size = 0, f_bytes = 0, f_sizeofvalue = sizeofvalue, f_variable = False\<rparr>"

definition init_file_variable :: File where
  "init_file_variable = (init_file 0)\<lparr>f_variable := True\<rparr>"

definition append_element :: "addr \<Rightarrow> heap \<times> File \<Rightarrow> (heap \<times> File) option" where
  "append_element element = (\<lambda>(h, suite). do {
     h1 \<leftarrow> set_previous element NULL h;
     h2 \<leftarrow> set_next element NULL h1;
     (h3, suite1) \<leftarrow> (if f_end suite = NULL then Some (h2, suite\<lparr>f_start := element, f_end := element\<rparr>)
       else do { h' \<leftarrow> set_next (f_end suite) element h2;
                 h'' \<leftarrow> set_previous element (f_end suite) h';
                 Some (h'', suite\<lparr>f_end := element\<rparr>) });
     e \<leftarrow> h3 element;
     Some (h3, suite1\<lparr>f_size := f_size suite1 + 1, f_bytes := f_bytes suite1 + of_nat (el_len e)\<rparr>) })"

text \<open>\<open>m\<close> is the address \<open>malloc\<close> returns. The links of the new block are indeterminate; they
  are overwritten before they are read.\<close>

definition put_sized :: "addr \<Rightarrow> u8 list \<Rightarrow> heap \<times> File \<Rightarrow> (nat \<times> heap \<times> File) option" where
  "put_sized m v = (\<lambda>(h, suite).
     if length v = 0 \<or> length v > 65535 then Some (0, h, suite)
     else if m = NULL then Some (0, h, suite)
     else do { s \<leftarrow> append_element m (h(m \<mapsto> \<lparr>el_previous = NULL, el_next = NULL, el_data = v\<rparr>), suite);
               Some (1, s) })"

text \<open>The value copied to the destination, when there is one.\<close>

definition detach_and_copy :: "addr \<Rightarrow> nat \<Rightarrow> heap \<times> File \<Rightarrow> (u8 list option \<times> heap \<times> File) option" where
  "detach_and_copy supp destcap = (\<lambda>(h, suite). do {
     e \<leftarrow> h supp;
     if el_len e > destcap then Some (None, h, suite)
     else do {
       h1 \<leftarrow> free_element supp h;
       (let suite1 = suite\<lparr>f_bytes := f_bytes suite - of_nat (el_len e), f_size := f_size suite - 1\<rparr>;
            suite2 = (if f_size suite1 = 0 then suite1\<lparr>f_start := NULL, f_end := NULL\<rparr> else suite1)
        in Some (Some (take (el_len e) (el_data e)), h1, suite2)) } })"

definition scroll_sized :: "nat \<Rightarrow> heap \<times> File \<Rightarrow> (u8 list option \<times> heap \<times> File) option" where
  "scroll_sized destcap = (\<lambda>(h, suite).
     if f_size suite = 0 \<or> f_end suite = NULL then Some (None, h, suite)
     else do {
       e \<leftarrow> h (f_end suite);
       if el_len e > destcap then Some (None, h, suite)
       else do {
         h1 \<leftarrow> (if el_previous e \<noteq> NULL then set_next (el_previous e) NULL h else Some h);
         detach_and_copy (f_end suite) destcap (h1, suite\<lparr>f_end := el_previous e\<rparr>) } })"

definition scroll_fifo_sized :: "nat \<Rightarrow> heap \<times> File \<Rightarrow> (u8 list option \<times> heap \<times> File) option" where
  "scroll_fifo_sized destcap = (\<lambda>(h, suite).
     if f_size suite = 0 \<or> f_start suite = NULL then Some (None, h, suite)
     else do {
       e \<leftarrow> h (f_start suite);
       if el_len e > destcap then Some (None, h, suite)
       else do {
         h1 \<leftarrow> (if el_next e \<noteq> NULL then set_previous (el_next e) NULL h else Some h);
         detach_and_copy (f_start suite) destcap (h1, suite\<lparr>f_start := el_next e\<rparr>) } })"

text \<open>The uniform operations read \<open>sizeofvalue\<close> bytes from the caller; the value given here is
  the block they read.\<close>

definition put_value_uniform :: "addr \<Rightarrow> u8 list \<Rightarrow> heap \<times> File \<Rightarrow> (nat \<times> heap \<times> File) option" where
  "put_value_uniform m v = (\<lambda>(h, suite).
     if f_variable suite \<or> f_sizeofvalue suite \<le> 0 then Some (0, h, suite)
     else put_sized m (take (f_sizeofvalue suite) v) (h, suite))"

definition scroll :: "heap \<times> File \<Rightarrow> (u8 list option \<times> heap \<times> File) option" where
  "scroll = (\<lambda>(h, suite).
     if f_variable suite \<or> f_sizeofvalue suite \<le> 0 then Some (None, h, suite)
     else scroll_sized (f_sizeofvalue suite) (h, suite))"

definition scroll_fifo :: "heap \<times> File \<Rightarrow> (u8 list option \<times> heap \<times> File) option" where
  "scroll_fifo = (\<lambda>(h, suite).
     if f_variable suite \<or> f_sizeofvalue suite \<le> 0 then Some (None, h, suite)
     else scroll_fifo_sized (f_sizeofvalue suite) (h, suite))"

definition extract_element :: "addr \<Rightarrow> heap \<times> File \<Rightarrow> (heap \<times> File) option" where
  "extract_element element = (\<lambda>(h, suite). do {
     e \<leftarrow> h element;
     (h1, suite1) \<leftarrow> (if el_previous e \<noteq> NULL
       then do { h' \<leftarrow> set_next (el_previous e) (el_next e) h; Some (h', suite) }
       else Some (h, if f_start suite = element then suite\<lparr>f_start := el_next e\<rparr> else suite));
     (h2, suite2) \<leftarrow> (if el_next e \<noteq> NULL
       then do { h' \<leftarrow> set_previous (el_next e) (el_previous e) h1; Some (h', suite1) }
       else Some (h1, if f_end suite1 = element then suite1\<lparr>f_end := el_previous e\<rparr> else suite1));
     h3 \<leftarrow> set_previous element NULL h2;
     h4 \<leftarrow> set_next element NULL h3;
     Some (h4, suite2) })"

definition move_before :: "addr \<Rightarrow> addr \<Rightarrow> heap \<times> File \<Rightarrow> (heap \<times> File) option" where
  "move_before element target s =
     (if element \<noteq> NULL \<and> target \<noteq> NULL then do {
        (h, suite) \<leftarrow> extract_element element s;
        t \<leftarrow> h target;
        h1 \<leftarrow> set_previous element (el_previous t) h;
        (h2, suite1) \<leftarrow> (if el_previous t \<noteq> NULL
          then do { h' \<leftarrow> set_next (el_previous t) element h1; Some (h', suite) }
          else Some (h1, if f_start suite = target then suite\<lparr>f_start := element\<rparr> else suite));
        h3 \<leftarrow> set_next element target h2;
        h4 \<leftarrow> set_previous target element h3;
        Some (h4, suite1) }
      else Some s)"

definition move_after :: "addr \<Rightarrow> addr \<Rightarrow> heap \<times> File \<Rightarrow> (heap \<times> File) option" where
  "move_after element target s =
     (if element \<noteq> NULL \<and> target \<noteq> NULL then do {
        (h, suite) \<leftarrow> extract_element element s;
        t \<leftarrow> h target;
        h1 \<leftarrow> set_next element (el_next t) h;
        (h2, suite1) \<leftarrow> (if el_next t \<noteq> NULL
          then do { h' \<leftarrow> set_previous (el_next t) element h1; Some (h', suite) }
          else Some (h1, if f_end suite = target then suite\<lparr>f_end := element\<rparr> else suite));
        h3 \<leftarrow> set_previous element target h2;
        h4 \<leftarrow> set_next target element h3;
        Some (h4, suite1) }
      else Some s)"

text \<open>The loop that frees every element; \<open>None\<close> also when it does not end.\<close>

partial_function (option) free_elements :: "addr \<Rightarrow> heap \<Rightarrow> heap option" where
  "free_elements current h =
     (if current = NULL then Some h
      else case h current of None \<Rightarrow> None
        | Some e \<Rightarrow> (case free_element current h of None \<Rightarrow> None | Some h1 \<Rightarrow> free_elements (el_next e) h1))"

definition file_clear :: "heap \<times> File \<Rightarrow> (heap \<times> File) option" where
  "file_clear = (\<lambda>(h, suite). do {
     h1 \<leftarrow> free_elements (f_start suite) h;
     Some (h1, suite\<lparr>f_start := NULL, f_end := NULL, f_size := 0, f_bytes := 0\<rparr>) })"

definition free_detached_element :: "addr \<Rightarrow> heap \<Rightarrow> heap option" where
  "free_detached_element element h = (if element = NULL then Some h else free_element element h)"

definition file_remove_element :: "addr \<Rightarrow> heap \<times> File \<Rightarrow> (heap \<times> File) option" where
  "file_remove_element element s = do {
     (h, suite) \<leftarrow> extract_element element s;
     e \<leftarrow> h element;
     h1 \<leftarrow> free_element element h;
     Some (h1, suite\<lparr>f_bytes := f_bytes suite - of_nat (el_len e), f_size := f_size suite - 1\<rparr>) }"

section \<open>The list a heap holds\<close>

text \<open>A segment: the elements \<open>xs\<close> (addresses and values) are linked both ways, from the
  element \<open>p\<close> before them to the element \<open>n\<close> after them.\<close>

definition first_addr :: "(addr \<times> u8 list) list \<Rightarrow> addr \<Rightarrow> addr" where
  "first_addr xs n = (case xs of [] \<Rightarrow> n | x # _ \<Rightarrow> fst x)"

definition last_addr :: "(addr \<times> u8 list) list \<Rightarrow> addr \<Rightarrow> addr" where
  "last_addr xs p = (if xs = [] then p else fst (last xs))"

fun dll :: "heap \<Rightarrow> addr \<Rightarrow> (addr \<times> u8 list) list \<Rightarrow> addr \<Rightarrow> bool" where
  "dll h p [] n \<longleftrightarrow> True"
| "dll h p ((a, d) # xs) n \<longleftrightarrow> h a = Some \<lparr>el_previous = p, el_next = first_addr xs n, el_data = d\<rparr> \<and> dll h a xs n"

lemma first_addr_simps [simp]: "first_addr [] n = n" "first_addr (x # xs) n = fst x"
  by (simp_all add: first_addr_def)

lemma last_addr_simps [simp]: "last_addr [] p = p" "last_addr (x # xs) p = last_addr xs (fst x)" "last_addr (xs @ [x]) p = fst x"
  by (simp_all add: last_addr_def)

lemma last_addr_append [simp]: "last_addr (xs @ ys) p = last_addr ys (last_addr xs p)"
  by (induction xs arbitrary: p) simp_all

lemma first_addr_append [simp]: "first_addr (xs @ ys) n = first_addr xs (first_addr ys n)"
  by (cases xs) simp_all

lemma dll_append [simp]: "dll h p (xs @ ys) n \<longleftrightarrow> dll h p xs (first_addr ys n) \<and> dll h (last_addr xs p) ys n"
  by (induction h p xs n rule: dll.induct) auto

lemma dll_update [simp]: "a \<notin> fst ` set xs \<Longrightarrow> dll (h(a := v)) p xs n = dll h p xs n"
  by (induction h p xs n rule: dll.induct) auto

lemma last_addr_in: "xs \<noteq> [] \<Longrightarrow> last_addr xs p \<in> fst ` set xs"
  by (simp add: last_addr_def)

lemma first_addr_in: "xs \<noteq> [] \<Longrightarrow> first_addr xs n \<in> fst ` set xs"
  by (cases xs) simp_all

lemma dll_alloc: "dll h p xs n \<Longrightarrow> h a = None \<Longrightarrow> a \<notin> fst ` set xs"
  by (induction h p xs n rule: dll.induct) auto

text \<open>A queue and the list it links; a queue and the list it holds, its counters included. The
  first component says what is outside the queue.\<close>

definition linked :: "(addr \<times> u8 list) list \<Rightarrow> heap \<times> File \<Rightarrow> bool" where
  "linked xs = (\<lambda>(h, suite). h NULL = None \<and> distinct (map fst xs) \<and> dll h NULL xs NULL
     \<and> f_start suite = first_addr xs NULL \<and> f_end suite = last_addr xs NULL)"

definition counted :: "u8 list list \<Rightarrow> File \<Rightarrow> bool" where
  "counted vs suite \<longleftrightarrow> f_size suite = of_nat (length vs) \<and> f_bytes suite = of_nat (sum_list (map length vs))
     \<and> (\<forall>v \<in> set vs. 0 < length v \<and> length v \<le> 65535)"

definition holds :: "(addr \<times> u8 list) list \<Rightarrow> heap \<times> File \<Rightarrow> bool" where
  "holds xs s \<longleftrightarrow> linked xs s \<and> counted (map snd xs) (snd s)"

text \<open>Nothing changed outside a set of addresses, nor the mode of the queue.\<close>

definition frame :: "addr set \<Rightarrow> heap \<times> File \<Rightarrow> heap \<times> File \<Rightarrow> bool" where
  "frame A s s' \<longleftrightarrow> (\<forall>b. b \<notin> A \<longrightarrow> fst s' b = fst s b)
     \<and> f_sizeofvalue (snd s') = f_sizeofvalue (snd s) \<and> f_variable (snd s') = f_variable (snd s)"

lemmas heap_ops = set_next_def set_previous_def free_element_def

lemma length_words: "distinct (xs :: addr list) \<Longrightarrow> NULL \<notin> set xs \<Longrightarrow> length xs < 2 ^ 64"
proof -
  assume d: "distinct xs" "NULL \<notin> set xs"
  have "set xs \<subset> (UNIV :: addr set)" using d(2) by blast
  then have "card (set xs) < card (UNIV :: addr set)" by (rule psubset_card_mono[OF finite])
  then show ?thesis using distinct_card[OF d(1)] by (simp add: card_word)
qed

lemma linked_small:
  assumes "linked xs s" shows "(of_nat (length xs) :: 64 word) = 0 \<longleftrightarrow> xs = []"
proof -
  obtain h suite where s: "s = (h, suite)" by fastforce
  have "NULL \<notin> fst ` set xs" using assms s dll_alloc[of h NULL xs NULL NULL] by (simp add: linked_def)
  then have "length xs < 2 ^ 64" using assms s length_words[of "map fst xs"] by (simp add: linked_def)
  then show ?thesis using nat_dvd_not_less[of "length xs" "2 ^ 64"] by (cases xs) (simp_all only: word_of_nat_eq_0_iff, auto)
qed

lemma linked_null: "linked xs (h, suite) \<Longrightarrow> NULL \<notin> fst ` set xs"
  using dll_alloc[of h NULL xs NULL NULL] by (simp add: linked_def)

section \<open>What the operations do to the list\<close>

lemma append_element_spec:
  assumes "holds xs (h, suite)" "m \<noteq> NULL" "h m = None" "0 < length v" "length v \<le> 65535"
  shows "\<exists>s'. append_element m (h(m \<mapsto> \<lparr>el_previous = p0, el_next = n0, el_data = v\<rparr>), suite) = Some s'
     \<and> holds (xs @ [(m, v)]) s' \<and> frame (insert m (fst ` set xs)) (h, suite) s'"
proof (cases xs rule: rev_cases)
  case Nil
  then show ?thesis using assms
    by (auto simp: append_element_def heap_ops holds_def linked_def counted_def frame_def el_len_def)
next
  case (snoc ys z)
  obtain a d where z: "z = (a, d)" by fastforce
  have m: "m \<notin> fst ` set xs" "a \<noteq> NULL"
    using assms(1,3) linked_null[of xs h suite] dll_alloc[of h NULL xs NULL m] snoc z by (auto simp: holds_def linked_def)
  then have "m \<notin> fst ` set ys" "a \<noteq> m" using snoc z by auto
  then show ?thesis using assms m(2) snoc z
    by (auto simp: append_element_def heap_ops holds_def linked_def counted_def frame_def el_len_def)
qed

text \<open>Freeing an element that is linked no more, with the counters of the others.\<close>

lemma detach_spec:
  assumes l: "linked xs (h(a := None), if xs = [] then suite\<lparr>f_start := NULL, f_end := NULL\<rparr> else suite)" and a: "h a = Some e" and c: "counted (map snd xs) suite0"
    and cap: "0 < length (el_data e)" "length (el_data e) \<le> 65535" "length (el_data e) \<le> cap"
    and sz: "f_size suite = f_size suite0 + 1" "f_bytes suite = f_bytes suite0 + of_nat (length (el_data e))"
  shows "\<exists>s'. detach_and_copy a cap (h, suite) = Some (Some (el_data e), s') \<and> holds xs s' \<and> frame {a} (h, suite) s' \<and> fst s' a = None"
proof -
  have z: "f_size suite0 = 0 \<longleftrightarrow> xs = []" using linked_small[OF l] c by (simp add: counted_def)
  show ?thesis using assms z
    by (auto simp: detach_and_copy_def heap_ops holds_def linked_def counted_def frame_def el_len_def Let_def)
qed

lemma counted_snoc:
  "counted (vs @ [d]) suite \<Longrightarrow> counted vs (suite\<lparr>f_size := f_size suite - 1, f_bytes := f_bytes suite - of_nat (length d)\<rparr>)"
  "counted (d # vs) suite \<Longrightarrow> counted vs (suite\<lparr>f_size := f_size suite - 1, f_bytes := f_bytes suite - of_nat (length d)\<rparr>)"
  by (simp_all add: counted_def)

lemma frame_trans: "frame A s s' \<Longrightarrow> frame B s' s'' \<Longrightarrow> A \<union> B \<subseteq> C \<Longrightarrow> frame C s s''"
  unfolding frame_def by (metis Un_iff subset_iff)

lemma scroll_sized_spec:
  assumes h: "holds (xs @ [(a, d)]) (h, suite)" and cap: "length d \<le> cap"
  shows "\<exists>s'. scroll_sized cap (h, suite) = Some (Some d, s') \<and> holds xs s' \<and> frame (insert a (fst ` set xs)) (h, suite) s' \<and> fst s' a = None"
proof -
  let ?p = "last_addr xs NULL" and ?suite0 = "suite\<lparr>f_size := f_size suite - 1, f_bytes := f_bytes suite - of_nat (length d)\<rparr>"
  let ?e = "\<lparr>el_previous = ?p, el_next = NULL, el_data = d\<rparr>"
  have l: "linked (xs @ [(a, d)]) (h, suite)" and c: "counted (map snd xs @ [d]) suite" using h by (simp_all add: holds_def)
  have a: "a \<noteq> NULL" "a \<notin> fst ` set xs" "h a = Some ?e" "f_end suite = a" "h NULL = None"
    and d: "0 < length d" "length d \<le> 65535" and n: "f_size suite \<noteq> 0"
    using l c linked_null[OF l] linked_small[OF l] by (auto simp: linked_def counted_def)
  have len: "el_len ?e = length d" using d by (simp add: el_len_def)
  obtain h1 where h1: "(if ?p \<noteq> NULL then set_next ?p NULL h else Some h) = Some h1" "linked xs (h1(a := None), if xs = [] then suite\<lparr>f_end := ?p, f_start := NULL, f_end := NULL\<rparr> else suite\<lparr>f_end := ?p\<rparr>)"
    "h1 a = Some ?e" "\<And>b. b \<notin> fst ` set xs \<Longrightarrow> h1 b = h b"
  proof (cases xs rule: rev_cases)
    case Nil
    then show ?thesis using that[of h] l a by (auto simp: linked_def)
  next
    case (snoc ys z)
    obtain b c where z: "z = (b, c)" by fastforce
    have b: "b \<noteq> NULL" "b \<noteq> a" "b \<notin> fst ` set ys" "a \<notin> fst ` set ys" "h b = Some \<lparr>el_previous = last_addr ys NULL, el_next = a, el_data = c\<rparr>"
      using l a snoc z linked_null[OF l] by (auto simp: linked_def)
    show ?thesis
      by (rule that[of "h(b \<mapsto> \<lparr>el_previous = last_addr ys NULL, el_next = NULL, el_data = c\<rparr>)"])
        (use l a b snoc z in \<open>auto simp: linked_def heap_ops fun_upd_twist[of b a]\<close>)
  qed
  have "\<exists>s'. detach_and_copy a cap (h1, suite\<lparr>f_end := ?p\<rparr>) = Some (Some (el_data ?e), s') \<and> holds xs s'
      \<and> frame {a} (h1, suite\<lparr>f_end := ?p\<rparr>) s' \<and> fst s' a = None"
    by (rule detach_spec[OF h1(2,3) counted_snoc(1)[OF c]]) (use d cap in simp_all)
  then obtain s' where s': "detach_and_copy a cap (h1, suite\<lparr>f_end := ?p\<rparr>) = Some (Some d, s')" "holds xs s'"
      "frame {a} (h1, suite\<lparr>f_end := ?p\<rparr>) s'" "fst s' a = None" by auto
  have "scroll_sized cap (h, suite) = Some (Some d, s')"
    using n a cap len h1(1) s'(1) by (simp add: scroll_sized_def split: if_splits)
  moreover have "frame (insert a (fst ` set xs)) (h, suite) s'" using s'(3) h1(4) by (auto simp: frame_def)
  ultimately show ?thesis using s' by blast
qed

lemma scroll_fifo_sized_spec:
  assumes h: "holds ((a, d) # xs) (h, suite)" and cap: "length d \<le> cap"
  shows "\<exists>s'. scroll_fifo_sized cap (h, suite) = Some (Some d, s') \<and> holds xs s' \<and> frame (insert a (fst ` set xs)) (h, suite) s' \<and> fst s' a = None"
proof -
  let ?n = "first_addr xs NULL"
  let ?e = "\<lparr>el_previous = NULL, el_next = ?n, el_data = d\<rparr>"
  have l: "linked ((a, d) # xs) (h, suite)" and c: "counted (d # map snd xs) suite" using h by (simp_all add: holds_def)
  have a: "a \<noteq> NULL" "a \<notin> fst ` set xs" "h a = Some ?e" "f_start suite = a" "h NULL = None"
    and d: "0 < length d" "length d \<le> 65535" and n: "f_size suite \<noteq> 0"
    using l c linked_null[OF l] linked_small[OF l] by (auto simp: linked_def counted_def)
  have len: "el_len ?e = length d" using d by (simp add: el_len_def)
  obtain h1 where h1: "(if ?n \<noteq> NULL then set_previous ?n NULL h else Some h) = Some h1" "linked xs (h1(a := None), if xs = [] then suite\<lparr>f_start := ?n, f_start := NULL, f_end := NULL\<rparr> else suite\<lparr>f_start := ?n\<rparr>)"
    "h1 a = Some ?e" "\<And>b. b \<notin> fst ` set xs \<Longrightarrow> h1 b = h b"
  proof (cases xs)
    case Nil
    then show ?thesis using that[of h] l a by (auto simp: linked_def)
  next
    case (Cons z ys)
    obtain b c where z: "z = (b, c)" by fastforce
    have b: "b \<noteq> NULL" "b \<noteq> a" "b \<notin> fst ` set ys" "a \<notin> fst ` set ys" "h b = Some \<lparr>el_previous = a, el_next = first_addr ys NULL, el_data = c\<rparr>"
      using l a Cons z linked_null[OF l] by (auto simp: linked_def)
    show ?thesis
      by (rule that[of "h(b \<mapsto> \<lparr>el_previous = NULL, el_next = first_addr ys NULL, el_data = c\<rparr>)"])
        (use l a b Cons z in \<open>auto simp: linked_def heap_ops fun_upd_twist[of b a]\<close>)
  qed
  have "\<exists>s'. detach_and_copy a cap (h1, suite\<lparr>f_start := ?n\<rparr>) = Some (Some (el_data ?e), s') \<and> holds xs s'
      \<and> frame {a} (h1, suite\<lparr>f_start := ?n\<rparr>) s' \<and> fst s' a = None"
    by (rule detach_spec[OF h1(2,3) counted_snoc(2)[OF c]]) (use d cap in simp_all)
  then obtain s' where s': "detach_and_copy a cap (h1, suite\<lparr>f_start := ?n\<rparr>) = Some (Some d, s')" "holds xs s'"
      "frame {a} (h1, suite\<lparr>f_start := ?n\<rparr>) s'" "fst s' a = None" by auto
  have "scroll_fifo_sized cap (h, suite) = Some (Some d, s')"
    using n a cap len h1(1) s'(1) by (simp add: scroll_fifo_sized_def split: if_splits)
  moreover have "frame (insert a (fst ` set xs)) (h, suite) s'" using s'(3) h1(4) by (auto simp: frame_def)
  ultimately show ?thesis using s' by blast
qed

text \<open>A refusal changes nothing: the queue is empty, or its element is too long.\<close>

lemma scroll_refused:
  assumes "holds xs (h, suite)"
  shows "xs = [] \<or> cap < length (snd (last xs)) \<Longrightarrow> scroll_sized cap (h, suite) = Some (None, h, suite)"
    and "xs = [] \<or> cap < length (snd (hd xs)) \<Longrightarrow> scroll_fifo_sized cap (h, suite) = Some (None, h, suite)"
proof -
  show "scroll_sized cap (h, suite) = Some (None, h, suite)" if "xs = [] \<or> cap < length (snd (last xs))"
    using assms that
    by (cases xs rule: rev_cases) (auto simp: scroll_sized_def holds_def linked_def counted_def el_len_def)
  show "scroll_fifo_sized cap (h, suite) = Some (None, h, suite)" if "xs = [] \<or> cap < length (snd (hd xs))"
    using assms that
    by (cases xs) (auto simp: scroll_fifo_sized_def holds_def linked_def counted_def el_len_def)
qed

lemma linked_split:
  assumes "linked (ys @ (a, d) # zs) (h, suite)"
  shows "h a = Some \<lparr>el_previous = last_addr ys NULL, el_next = first_addr zs NULL, el_data = d\<rparr>" "a \<noteq> NULL"
    "a \<notin> fst ` set ys" "a \<notin> fst ` set zs" "distinct (map fst (ys @ zs))" "NULL \<notin> fst ` set (ys @ zs)"
  using assms linked_null[OF assms] by (auto simp: linked_def)

text \<open>The two updates that close the gap, or open it, one for each side.\<close>

lemma link_left:
  assumes "dll h NULL ys n" "distinct (map fst ys)" "NULL \<notin> fst ` set ys" "h NULL = None"
  shows "\<exists>h'. (if last_addr ys NULL \<noteq> NULL then set_next (last_addr ys NULL) n' h else Some h) = Some h'
     \<and> dll h' NULL ys n' \<and> (\<forall>b. b \<notin> fst ` set ys \<longrightarrow> h' b = h b)"
proof (cases ys rule: rev_cases)
  case Nil
  then show ?thesis by simp
next
  case (snoc zs z)
  obtain b c where z: "z = (b, c)" by fastforce
  show ?thesis using assms snoc z
    by (intro exI[of _ "h(b \<mapsto> \<lparr>el_previous = last_addr zs NULL, el_next = n', el_data = c\<rparr>)"]) (auto simp: heap_ops)
qed

lemma link_right:
  assumes "dll h p zs NULL" "distinct (map fst zs)" "NULL \<notin> fst ` set zs" "h NULL = None"
  shows "\<exists>h'. (if first_addr zs NULL \<noteq> NULL then set_previous (first_addr zs NULL) p' h else Some h) = Some h'
     \<and> dll h' p' zs NULL \<and> (\<forall>b. b \<notin> fst ` set zs \<longrightarrow> h' b = h b)"
proof (cases zs)
  case Nil
  then show ?thesis by simp
next
  case (Cons z ws)
  obtain b c where z: "z = (b, c)" by fastforce
  show ?thesis using assms Cons z
    by (intro exI[of _ "h(b \<mapsto> \<lparr>el_previous = p', el_next = first_addr ws NULL, el_data = c\<rparr>)"]) (auto simp: heap_ops)
qed

lemma dll_same: "\<forall>b \<in> fst ` set xs. h' b = h b \<Longrightarrow> dll h' p xs n = dll h p xs n"
  by (induction h p xs n rule: dll.induct) auto

lemma null_addr: "NULL \<notin> fst ` set ys \<Longrightarrow> last_addr ys NULL = NULL \<longleftrightarrow> ys = []"
   "NULL \<notin> fst ` set ys \<Longrightarrow> first_addr ys NULL = NULL \<longleftrightarrow> ys = []"
  using last_addr_in[of ys NULL] first_addr_in[of ys NULL] by (cases "ys = []"; force)+

lemma same_end: "f_end s = x \<Longrightarrow> s\<lparr>f_end := x\<rparr> = s" "f_start s = x \<Longrightarrow> s\<lparr>f_start := x\<rparr> = s" for s :: File
  by (cases s; simp)+

text \<open>Extraction, step by step.\<close>

lemma extract_element_steps:
  assumes "h a = Some e"
    and "(if el_previous e \<noteq> NULL then set_next (el_previous e) (el_next e) h else Some h) = Some h1"
    and "(if el_next e \<noteq> NULL then set_previous (el_next e) (el_previous e) h1 else Some h1) = Some h2" "h2 a = Some e"
  shows "extract_element a (h, suite) = Some (h2(a \<mapsto> e\<lparr>el_previous := NULL, el_next := NULL\<rparr>),
     let suite1 = (if el_previous e = NULL \<and> f_start suite = a then suite\<lparr>f_start := el_next e\<rparr> else suite)
     in if el_next e = NULL \<and> f_end suite1 = a then suite1\<lparr>f_end := el_previous e\<rparr> else suite1)"
  using assms by (cases "el_previous e = NULL"; cases "el_next e = NULL") (auto simp: extract_element_def set_previous_def[of a] set_next_def[of a] Let_def)

lemma extract_element_spec:
  assumes l: "linked (ys @ (a, d) # zs) (h, suite)"
  shows "\<exists>h' suite'. extract_element a (h, suite) = Some (h', suite') \<and> linked (ys @ zs) (h', suite')
     \<and> h' a = Some \<lparr>el_previous = NULL, el_next = NULL, el_data = d\<rparr> \<and> frame (fst ` set (ys @ (a, d) # zs)) (h, suite) (h', suite')
     \<and> f_size suite' = f_size suite \<and> f_bytes suite' = f_bytes suite"
proof -
  note f = linked_split[OF l]
  let ?p = "last_addr ys NULL" and ?n = "first_addr zs NULL"
  have d: "dll h NULL ys a" "dll h a zs NULL" "h NULL = None" "f_start suite = first_addr ys a" "f_end suite = last_addr zs a"
    using l by (simp_all add: linked_def)
  have n: "NULL \<notin> fst ` set ys" "NULL \<notin> fst ` set zs" "distinct (map fst ys)" "distinct (map fst zs)" "fst ` set ys \<inter> fst ` set zs = {}"
    using f(5,6) by auto
  obtain h1 where h1: "(if ?p \<noteq> NULL then set_next ?p ?n h else Some h) = Some h1" "dll h1 NULL ys ?n" "\<forall>b. b \<notin> fst ` set ys \<longrightarrow> h1 b = h b"
    using link_left[OF d(1) n(3,1) d(3), of ?n] by blast
  have "\<forall>b \<in> fst ` set zs. h1 b = h b" using h1(3) n(5) by blast
  then have z1: "dll h1 a zs NULL" "h1 NULL = None" using d(2,3) h1(3) n(1) dll_same[of zs h1 h a NULL] by simp_all
  obtain h2 where h2: "(if ?n \<noteq> NULL then set_previous ?n ?p h1 else Some h1) = Some h2" "dll h2 ?p zs NULL" "\<forall>b. b \<notin> fst ` set zs \<longrightarrow> h2 b = h1 b"
    using link_right[OF z1(1) n(4,2) z1(2), of ?p] by blast
  have "\<forall>b \<in> fst ` set ys. h2 b = h1 b" using h2(3) n(5) by blast
  then have y2: "dll h2 NULL ys ?n" using h1(2) dll_same[of ys h2 h1 NULL ?n] by simp
  have "h2 NULL = h1 NULL" "h2 a = h1 a" "h1 a = h a" using h2(3) n(2) f(3,4) h1(3) by simp_all
  then have y3: "h2 NULL = None" "h2 a = Some \<lparr>el_previous = ?p, el_next = ?n, el_data = d\<rparr>"
    using z1(2) f(1) by simp_all
  let ?h = "h2(a \<mapsto> \<lparr>el_previous = NULL, el_next = NULL, el_data = d\<rparr>)"
  let ?suite = "suite\<lparr>f_start := first_addr ys ?n, f_end := last_addr zs ?p\<rparr>"
  have ns: "?p = NULL \<longleftrightarrow> ys = []" "?n = NULL \<longleftrightarrow> zs = []" using null_addr n(1,2) by blast+
  have "extract_element a (h, suite) = Some (?h, ?suite)"
  proof -
    let ?s1 = "if ?p = NULL \<and> f_start suite = a then suite\<lparr>f_start := ?n\<rparr> else suite"
    have s1: "?s1 = suite\<lparr>f_start := first_addr ys ?n\<rparr>"
      using d(4) ns(1) same_end(2)[of suite "first_addr ys ?n"] by (cases ys) simp_all
    have s2: "(if ?n = NULL \<and> f_end suite = a then suite\<lparr>f_start := first_addr ys ?n, f_end := ?p\<rparr> else suite\<lparr>f_start := first_addr ys ?n\<rparr>) = ?suite"
      using d(5) ns(2) same_end(1)[of "suite\<lparr>f_start := first_addr ys ?n\<rparr>" "last_addr zs ?p"] by (cases zs) simp_all
    show ?thesis
      using extract_element_steps[of h a "\<lparr>el_previous = ?p, el_next = ?n, el_data = d\<rparr>" h1 h2 suite] f(1) y3(2) h1(1) h2(1) s2
      unfolding Let_def element.simps s1 by simp
  qed
  moreover have "linked (ys @ zs) (?h, ?suite)" using y2 y3 h2(2) f by (auto simp: linked_def)
  moreover have "frame (fst ` set (ys @ (a, d) # zs)) (h, suite) (?h, ?suite)" using h1(3) h2(3) by (auto simp: frame_def image_Un)
  ultimately show ?thesis by (intro exI[of _ ?h] exI[of _ ?suite]) simp
qed

lemma linked_heap:
  assumes "linked (ys @ (t, c) # zs) (h, suite)" "a \<notin> fst ` set (ys @ (t, c) # zs)" "a \<noteq> NULL"
  shows "linked (ys @ (t, c) # zs) (h(a := v), suite)"
  using assms by (auto simp: linked_def image_Un)

lemma insert_before:
  assumes l: "linked (ys @ (t, c) # zs) (h, suite)" and a: "a \<notin> fst ` set (ys @ (t, c) # zs)" "a \<noteq> NULL"
    "h a = Some \<lparr>el_previous = last_addr ys NULL, el_next = NULL, el_data = d\<rparr>"
  shows "\<exists>h2. (if last_addr ys NULL \<noteq> NULL then set_next (last_addr ys NULL) a h else Some h) = Some h2
     \<and> (\<exists>h3 h4. set_next a t h2 = Some h3 \<and> set_previous t a h3 = Some h4
        \<and> linked (ys @ (a, d) # (t, c) # zs) (h4, if last_addr ys NULL = NULL \<and> f_start suite = t then suite\<lparr>f_start := a\<rparr> else suite)
        \<and> (\<forall>b. b \<notin> fst ` set (ys @ (a, d) # (t, c) # zs) \<longrightarrow> h4 b = h b))"
proof -
  note f = linked_split[OF l]
  have n: "NULL \<notin> fst ` set ys" "distinct (map fst ys)" "fst ` set ys \<inter> fst ` set zs = {}" using f(5,6) by auto
  have d: "dll h NULL ys t" "dll h t zs NULL" "h NULL = None" "f_start suite = first_addr ys t" "f_end suite = last_addr zs t"
    using l by (simp_all add: linked_def)
  obtain h2 where h2: "(if last_addr ys NULL \<noteq> NULL then set_next (last_addr ys NULL) a h else Some h) = Some h2" "dll h2 NULL ys a"
      "\<forall>b. b \<notin> fst ` set ys \<longrightarrow> h2 b = h b"
    using link_left[OF d(1) n(2,1) d(3), of a] by blast
  have "\<forall>b \<in> fst ` set zs. h2 b = h b" using h2(3) n(3) by blast
  then have z: "dll h2 t zs NULL" using d(2) dll_same[of zs h2 h t NULL] by simp
  have v: "h2 NULL = None" "h2 a = h a" "h2 t = h t" using h2(3) n(1) d(3) a(1) f(3) by auto
  let ?h3 = "h2(a \<mapsto> \<lparr>el_previous = last_addr ys NULL, el_next = t, el_data = d\<rparr>)"
  let ?h4 = "?h3(t \<mapsto> \<lparr>el_previous = a, el_next = first_addr zs NULL, el_data = c\<rparr>)"
  have at: "a \<noteq> t" "a \<notin> fst ` set ys" "a \<notin> fst ` set zs" using a(1) by auto
  have "set_next a t h2 = Some ?h3" using v(2) a(3) by (simp add: set_next_def)
  moreover have "set_previous t a ?h3 = Some ?h4" using v(3) f(1) at(1) by (simp add: set_previous_def)
  moreover have "linked (ys @ (a, d) # (t, c) # zs) (?h4, if last_addr ys NULL = NULL \<and> f_start suite = t then suite\<lparr>f_start := a\<rparr> else suite)"
    using h2(2) z v(1) at a(2) f(2-5) d(4,5) null_addr(1)[OF n(1)] by (cases ys) (auto simp: linked_def)
  moreover have "\<forall>b. b \<notin> fst ` set (ys @ (a, d) # (t, c) # zs) \<longrightarrow> ?h4 b = h b" using h2(3) by (auto simp: image_Un)
  ultimately show ?thesis using h2(1) by blast
qed

lemma insert_after:
  assumes l: "linked (ys @ (t, c) # zs) (h, suite)" and a: "a \<notin> fst ` set (ys @ (t, c) # zs)" "a \<noteq> NULL"
    "h a = Some \<lparr>el_previous = NULL, el_next = first_addr zs NULL, el_data = d\<rparr>"
  shows "\<exists>h2. (if first_addr zs NULL \<noteq> NULL then set_previous (first_addr zs NULL) a h else Some h) = Some h2
     \<and> (\<exists>h3 h4. set_previous a t h2 = Some h3 \<and> set_next t a h3 = Some h4
        \<and> linked (ys @ (t, c) # (a, d) # zs) (h4, if first_addr zs NULL = NULL \<and> f_end suite = t then suite\<lparr>f_end := a\<rparr> else suite)
        \<and> (\<forall>b. b \<notin> fst ` set (ys @ (t, c) # (a, d) # zs) \<longrightarrow> h4 b = h b))"
proof -
  note f = linked_split[OF l]
  have n: "NULL \<notin> fst ` set zs" "distinct (map fst zs)" "fst ` set ys \<inter> fst ` set zs = {}" using f(5,6) by auto
  have d: "dll h NULL ys t" "dll h t zs NULL" "h NULL = None" "f_start suite = first_addr ys t" "f_end suite = last_addr zs t"
    using l by (simp_all add: linked_def)
  obtain h2 where h2: "(if first_addr zs NULL \<noteq> NULL then set_previous (first_addr zs NULL) a h else Some h) = Some h2" "dll h2 a zs NULL"
      "\<forall>b. b \<notin> fst ` set zs \<longrightarrow> h2 b = h b"
    using link_right[OF d(2) n(2,1) d(3), of a] by blast
  have "\<forall>b \<in> fst ` set ys. h2 b = h b" using h2(3) n(3) by blast
  then have z: "dll h2 NULL ys t" using d(1) dll_same[of ys h2 h NULL t] by simp
  have v: "h2 NULL = None" "h2 a = h a" "h2 t = h t" using h2(3) n(1) d(3) a(1) f(4) by auto
  let ?h3 = "h2(a \<mapsto> \<lparr>el_previous = t, el_next = first_addr zs NULL, el_data = d\<rparr>)"
  let ?h4 = "?h3(t \<mapsto> \<lparr>el_previous = last_addr ys NULL, el_next = a, el_data = c\<rparr>)"
  have at: "a \<noteq> t" "a \<notin> fst ` set ys" "a \<notin> fst ` set zs" using a(1) by auto
  have "set_previous a t h2 = Some ?h3" using v(2) a(3) by (simp add: set_previous_def)
  moreover have "set_next t a ?h3 = Some ?h4" using v(3) f(1) at(1) by (simp add: set_next_def)
  moreover have "linked (ys @ (t, c) # (a, d) # zs) (?h4, if first_addr zs NULL = NULL \<and> f_end suite = t then suite\<lparr>f_end := a\<rparr> else suite)"
    using h2(2) z v(1) at a(2) f(2-5) d(4,5) null_addr(2)[OF n(1)] by (cases zs rule: rev_cases) (auto simp: linked_def)
  moreover have "\<forall>b. b \<notin> fst ` set (ys @ (t, c) # (a, d) # zs) \<longrightarrow> ?h4 b = h b" using h2(3) by (auto simp: image_Un)
  ultimately show ?thesis using h2(1) by blast
qed

lemma move_facts:
  assumes "linked (us @ (a, d) # vs) (h, suite)" "us @ vs = ys @ (t, c) # zs"
  shows "a \<noteq> NULL" "a \<notin> fst ` set (us @ vs)" "t \<noteq> NULL" "a \<notin> fst ` set (ys @ (t, c) # zs)"
proof -
  note f = linked_split[OF assms(1)]
  show "a \<noteq> NULL" by (rule f(2))
  show "a \<notin> fst ` set (us @ vs)" using f(3,4) by (simp add: image_Un)
  then show "a \<notin> fst ` set (ys @ (t, c) # zs)" using assms(2) by simp
  have "t \<in> fst ` set (us @ vs)" unfolding assms(2) by simp
  then show "t \<noteq> NULL" using f(6) by blast
qed

text \<open>Moving: the list without the element, with the element next to the target.\<close>

lemma move_before_spec:
  assumes l: "linked (us @ (a, d) # vs) (h, suite)" and t: "us @ vs = ys @ (t, c) # zs"
  shows "\<exists>s'. move_before a t (h, suite) = Some s' \<and> linked (ys @ (a, d) # (t, c) # zs) s'
     \<and> frame (fst ` set (us @ (a, d) # vs)) (h, suite) s' \<and> f_size (snd s') = f_size suite \<and> f_bytes (snd s') = f_bytes suite"
proof -
  note an = move_facts[OF l t]
  have mem: "set (us @ (a, d) # vs) = set (ys @ (a, d) # (t, c) # zs)" using arg_cong[OF t, of set] by auto
  obtain h1 s1 where e: "extract_element a (h, suite) = Some (h1, s1)" "linked (ys @ (t, c) # zs) (h1, s1)"
    "h1 a = Some \<lparr>el_previous = NULL, el_next = NULL, el_data = d\<rparr>" "frame (fst ` set (us @ (a, d) # vs)) (h, suite) (h1, s1)"
    "f_size s1 = f_size suite" "f_bytes s1 = f_bytes suite" using extract_element_spec[OF l] t by auto
  let ?h = "h1(a \<mapsto> \<lparr>el_previous = last_addr ys NULL, el_next = NULL, el_data = d\<rparr>)"
  have l1: "linked (ys @ (t, c) # zs) (?h, s1)" by (rule linked_heap[OF e(2) an(4,1)])
  have tt: "h1 t = Some \<lparr>el_previous = last_addr ys NULL, el_next = first_addr zs NULL, el_data = c\<rparr>" by (rule linked_split(1)[OF e(2)])
  obtain h2 h3 h4 where i: "(if last_addr ys NULL \<noteq> NULL then set_next (last_addr ys NULL) a ?h else Some ?h) = Some h2"
     "set_next a t h2 = Some h3" "set_previous t a h3 = Some h4"
     "linked (ys @ (a, d) # (t, c) # zs) (h4, if last_addr ys NULL = NULL \<and> f_start s1 = t then s1\<lparr>f_start := a\<rparr> else s1)"
     "\<forall>b. b \<notin> fst ` set (ys @ (a, d) # (t, c) # zs) \<longrightarrow> h4 b = ?h b" using insert_before[OF l1 an(4,1), of d] by auto
  have "move_before a t (h, suite) = Some (h4, if last_addr ys NULL = NULL \<and> f_start s1 = t then s1\<lparr>f_start := a\<rparr> else s1)"
    using e(1,3) tt i(1-3) an by (cases "last_addr ys NULL = NULL") (auto simp: move_before_def set_previous_def[of a])
  moreover have "frame (fst ` set (us @ (a, d) # vs)) (h, suite) (h4, if last_addr ys NULL = NULL \<and> f_start s1 = t then s1\<lparr>f_start := a\<rparr> else s1)"
    using e(4) i(5) unfolding mem frame_def by simp
  ultimately show ?thesis using i(4) e(5,6) by simp
qed

lemma move_after_spec:
  assumes l: "linked (us @ (a, d) # vs) (h, suite)" and t: "us @ vs = ys @ (t, c) # zs"
  shows "\<exists>s'. move_after a t (h, suite) = Some s' \<and> linked (ys @ (t, c) # (a, d) # zs) s'
     \<and> frame (fst ` set (us @ (a, d) # vs)) (h, suite) s' \<and> f_size (snd s') = f_size suite \<and> f_bytes (snd s') = f_bytes suite"
proof -
  note an = move_facts[OF l t]
  have mem: "set (us @ (a, d) # vs) = set (ys @ (t, c) # (a, d) # zs)" using arg_cong[OF t, of set] by auto
  obtain h1 s1 where e: "extract_element a (h, suite) = Some (h1, s1)" "linked (ys @ (t, c) # zs) (h1, s1)"
    "h1 a = Some \<lparr>el_previous = NULL, el_next = NULL, el_data = d\<rparr>" "frame (fst ` set (us @ (a, d) # vs)) (h, suite) (h1, s1)"
    "f_size s1 = f_size suite" "f_bytes s1 = f_bytes suite" using extract_element_spec[OF l] t by auto
  let ?h = "h1(a \<mapsto> \<lparr>el_previous = NULL, el_next = first_addr zs NULL, el_data = d\<rparr>)"
  have l1: "linked (ys @ (t, c) # zs) (?h, s1)" by (rule linked_heap[OF e(2) an(4,1)])
  have tt: "h1 t = Some \<lparr>el_previous = last_addr ys NULL, el_next = first_addr zs NULL, el_data = c\<rparr>" by (rule linked_split(1)[OF e(2)])
  obtain h2 h3 h4 where i: "(if first_addr zs NULL \<noteq> NULL then set_previous (first_addr zs NULL) a ?h else Some ?h) = Some h2"
     "set_previous a t h2 = Some h3" "set_next t a h3 = Some h4"
     "linked (ys @ (t, c) # (a, d) # zs) (h4, if first_addr zs NULL = NULL \<and> f_end s1 = t then s1\<lparr>f_end := a\<rparr> else s1)"
     "\<forall>b. b \<notin> fst ` set (ys @ (t, c) # (a, d) # zs) \<longrightarrow> h4 b = ?h b" using insert_after[OF l1 an(4,1), of d] by auto
  have "move_after a t (h, suite) = Some (h4, if first_addr zs NULL = NULL \<and> f_end s1 = t then s1\<lparr>f_end := a\<rparr> else s1)"
    using e(1,3) tt i(1-3) an by (cases "first_addr zs NULL = NULL") (auto simp: move_after_def set_next_def[of a])
  moreover have "frame (fst ` set (us @ (a, d) # vs)) (h, suite) (h4, if first_addr zs NULL = NULL \<and> f_end s1 = t then s1\<lparr>f_end := a\<rparr> else s1)"
    using e(4) i(5) unfolding mem frame_def by simp
  ultimately show ?thesis using i(4) e(5,6) by simp
qed

lemma counted_perm: "mset us = mset vs \<Longrightarrow> f_size s' = f_size s \<Longrightarrow> f_bytes s' = f_bytes s \<Longrightarrow> counted us s = counted vs s'"
  unfolding counted_def using mset_eq_length[of us vs] mset_eq_setD[of us vs] by (metis mset_map sum_mset_sum_list)

lemma file_remove_element_spec:
  assumes "holds (ys @ (a, d) # zs) (h, suite)"
  shows "\<exists>s'. file_remove_element a (h, suite) = Some s' \<and> holds (ys @ zs) s' \<and> frame (fst ` set (ys @ (a, d) # zs)) (h, suite) s' \<and> fst s' a = None"
proof -
  have l: "linked (ys @ (a, d) # zs) (h, suite)" and c: "counted (map snd (ys @ (a, d) # zs)) suite" using assms by (simp_all add: holds_def)
  obtain h' suite' where e: "extract_element a (h, suite) = Some (h', suite')" "linked (ys @ zs) (h', suite')"
     "h' a = Some \<lparr>el_previous = NULL, el_next = NULL, el_data = d\<rparr>" "frame (fst ` set (ys @ (a, d) # zs)) (h, suite) (h', suite')"
     "f_size suite' = f_size suite" "f_bytes suite' = f_bytes suite" using extract_element_spec[OF l] by blast
  have an: "a \<notin> fst ` set ys" "a \<notin> fst ` set zs" using linked_split[OF l] by simp_all
  have "length d mod 2 ^ 16 = length d" using c by (simp add: counted_def)
  then have r: "file_remove_element a (h, suite) = Some (h'(a := None), suite'\<lparr>f_bytes := f_bytes suite' - of_nat (length d), f_size := f_size suite' - 1\<rparr>)"
    using e(1,3) by (simp add: file_remove_element_def free_element_def el_len_def)
  have "holds (ys @ zs) (h'(a := None), suite'\<lparr>f_bytes := f_bytes suite' - of_nat (length d), f_size := f_size suite' - 1\<rparr>)"
    using e(2,5,6) c an by (auto simp: holds_def linked_def counted_def)
  moreover have "frame (fst ` set (ys @ (a, d) # zs)) (h, suite) (h'(a := None), suite'\<lparr>f_bytes := f_bytes suite' - of_nat (length d), f_size := f_size suite' - 1\<rparr>)"
    using e(4) by (auto simp: frame_def)
  ultimately show ?thesis using r by auto
qed

lemma free_elements_spec:
  assumes "dll h p xs NULL" "distinct (map fst xs)" "NULL \<notin> fst ` set xs"
  shows "free_elements (first_addr xs NULL) h = Some (\<lambda>b. if b \<in> fst ` set xs then None else h b)"
  using assms
proof (induction xs arbitrary: h p)
  case Nil
  then show ?case by (simp add: free_elements.simps)
next
  case (Cons x xs)
  obtain a d where x: "x = (a, d)" by fastforce
  have "dll (h(a := None)) a xs NULL" using Cons.prems x dll_update[of a xs h None a NULL] by simp
  then have "free_elements (first_addr xs NULL) (h(a := None)) = Some (\<lambda>b. if b \<in> fst ` set xs then None else (h(a := None)) b)"
    by (rule Cons.IH) (use Cons.prems in simp_all)
  moreover have "free_elements a h = free_elements (first_addr xs NULL) (h(a := None))"
    using Cons.prems x by (subst free_elements.simps) (simp add: free_element_def)
  ultimately show ?case using x by (auto simp: fun_eq_iff)
qed

lemma file_clear_spec:
  assumes "holds xs (h, suite)"
  shows "\<exists>s'. file_clear (h, suite) = Some s' \<and> holds [] s' \<and> fst s' = (\<lambda>b. if b \<in> fst ` set xs then None else h b)
     \<and> frame (fst ` set xs) (h, suite) s'"
proof -
  have l: "linked xs (h, suite)" using assms by (simp add: holds_def)
  have "free_elements (f_start suite) h = Some (\<lambda>b. if b \<in> fst ` set xs then None else h b)"
    using l free_elements_spec[of h NULL xs] linked_null[OF l] by (simp add: linked_def)
  then show ?thesis using l by (simp add: file_clear_def holds_def linked_def counted_def frame_def)
qed

section \<open>The queue as a list with two ends\<close>

text \<open>The loops of the clients that take values until the queue refuses.\<close>

fun drain :: "('s \<Rightarrow> ('v option \<times> 's) option) \<Rightarrow> nat \<Rightarrow> 's \<Rightarrow> ('v list \<times> 's) option" where
  "drain pop 0 s = None"
| "drain pop (Suc k) s = (case pop s of None \<Rightarrow> None | Some (None, s') \<Rightarrow> Some ([], s')
     | Some (Some v, s') \<Rightarrow> map_option (\<lambda>(vs, t). (v # vs, t)) (drain pop k s'))"

text \<open>The contract of a queue with two ends: \<open>rep\<close> relates a state to the list of its values;
  \<open>room\<close> says that an insertion has the memory it needs and \<open>fits\<close> that a value is accepted.\<close>

locale two_ended_queue =
  fixes rep :: "'v list \<Rightarrow> 's \<Rightarrow> bool" and room :: "'m \<Rightarrow> 's \<Rightarrow> bool" and fits :: "'v \<Rightarrow> bool"
    and push :: "'m \<Rightarrow> 'v \<Rightarrow> 's \<Rightarrow> 's option" and pop_back :: "'s \<Rightarrow> ('v option \<times> 's) option"
    and pop_front :: "'s \<Rightarrow> ('v option \<times> 's) option"
  assumes push: "rep vs s \<Longrightarrow> room m s \<Longrightarrow> fits v \<Longrightarrow> \<exists>s'. push m v s = Some s' \<and> rep (vs @ [v]) s'"
    and pop_back: "rep (vs @ [v]) s \<Longrightarrow> \<exists>s'. pop_back s = Some (Some v, s') \<and> rep vs s'"
    and pop_front: "rep (v # vs) s \<Longrightarrow> \<exists>s'. pop_front s = Some (Some v, s') \<and> rep vs s'"
    and pop_empty: "rep [] s \<Longrightarrow> pop_back s = Some (None, s) \<and> pop_front s = Some (None, s)"
begin

lemma drain_back: "rep vs s \<Longrightarrow> length vs < k \<Longrightarrow> \<exists>s'. drain pop_back k s = Some (rev vs, s') \<and> rep [] s'"
proof (induction vs arbitrary: k s rule: rev_induct)
  case Nil
  then show ?case using pop_empty[of s] by (cases k) auto
next
  case (snoc v vs)
  then obtain s' k' where "pop_back s = Some (Some v, s')" "rep vs s'" "k = Suc k'" "length vs < k'"
    using pop_back[OF snoc.prems(1)] by (cases k) auto
  then show ?case using snoc.IH[of s' k'] by auto
qed

lemma drain_front: "rep vs s \<Longrightarrow> length vs < k \<Longrightarrow> \<exists>s'. drain pop_front k s = Some (vs, s') \<and> rep [] s'"
proof (induction vs arbitrary: k s)
  case Nil
  then show ?case using pop_empty[of s] by (cases k) auto
next
  case (Cons v vs)
  then obtain s' k' where "pop_front s = Some (Some v, s')" "rep vs s'" "k = Suc k'" "length vs < k'"
    using pop_front[OF Cons.prems(1)] by (cases k) auto
  then show ?case using Cons.IH[of s' k'] by auto
qed

lemma push_pop:
  assumes "rep vs s" "room m s" "fits v"
  shows "\<exists>s' s''. push m v s = Some s' \<and> pop_back s' = Some (Some v, s'') \<and> rep vs s''"
  using push[OF assms] pop_back by blast

end

definition queue_rep :: "u8 list list \<Rightarrow> heap \<times> File \<Rightarrow> bool" where
  "queue_rep vs s \<longleftrightarrow> (\<exists>xs. vs = map snd xs \<and> holds xs s)"

definition fresh_block :: "addr \<Rightarrow> heap \<times> File \<Rightarrow> bool" where
  "fresh_block m s \<longleftrightarrow> m \<noteq> NULL \<and> fst s m = None"

definition record_fits :: "u8 list \<Rightarrow> bool" where
  "record_fits v \<longleftrightarrow> 0 < length v \<and> length v \<le> 65535"

lemma put_sized_spec:
  assumes "holds xs (h, suite)" "fresh_block m (h, suite)" "record_fits v"
  shows "\<exists>s'. put_sized m v (h, suite) = Some (1, s') \<and> holds (xs @ [(m, v)]) s' \<and> frame (insert m (fst ` set xs)) (h, suite) s'"
  using append_element_spec[OF assms(1), of m v NULL NULL] assms(2,3)
  by (auto simp: put_sized_def fresh_block_def record_fits_def)

interpretation lifo: two_ended_queue queue_rep fresh_block record_fits
  "\<lambda>m v s. map_option snd (put_sized m v s)" "scroll_sized 65535" "scroll_fifo_sized 65535"
proof
  fix vs s m v
  show "\<exists>s'. map_option snd (put_sized m v s) = Some s' \<and> queue_rep (vs @ [v]) s'"
    if r: "queue_rep vs s" "fresh_block m s" "record_fits v"
  proof -
    obtain xs h suite where x: "vs = map snd xs" "holds xs s" "s = (h, suite)" using r(1) by (cases s) (auto simp: queue_rep_def)
    obtain s' where "put_sized m v s = Some (1, s')" "holds (xs @ [(m, v)]) s'" using put_sized_spec[of xs h suite m v] x r by auto
    then show ?thesis using x(1) by (auto simp: queue_rep_def intro!: exI[of _ "xs @ [(m, v)]"])
  qed
  show "\<exists>s'. scroll_sized 65535 s = Some (Some v, s') \<and> queue_rep vs s'" if r: "queue_rep (vs @ [v]) s"
  proof -
    obtain h suite where s: "s = (h, suite)" by fastforce
    obtain xs a where x: "vs = map snd xs" "holds (xs @ [(a, v)]) s"
      using r by (auto simp: queue_rep_def map_eq_append_conv append_eq_map_conv)
    have "length v \<le> 65535" using x(2) by (simp add: holds_def counted_def)
    from scroll_sized_spec[OF x(2)[unfolded s] this] show ?thesis using x(1) s by (auto simp: queue_rep_def)
  qed
  show "\<exists>s'. scroll_fifo_sized 65535 s = Some (Some v, s') \<and> queue_rep vs s'" if r: "queue_rep (v # vs) s"
  proof -
    obtain h suite where s: "s = (h, suite)" by fastforce
    obtain xs a where x: "vs = map snd xs" "holds ((a, v) # xs) s" using r by (auto simp: queue_rep_def Cons_eq_map_conv)
    have "length v \<le> 65535" using x(2) by (simp add: holds_def counted_def)
    from scroll_fifo_sized_spec[OF x(2)[unfolded s] this] show ?thesis using x(1) s by (auto simp: queue_rep_def)
  qed
  show "scroll_sized 65535 s = Some (None, s) \<and> scroll_fifo_sized 65535 s = Some (None, s)" if r: "queue_rep [] s"
  proof -
    obtain h suite where s: "s = (h, suite)" by fastforce
    have "holds [] (h, suite)" using r s by (auto simp: queue_rep_def)
    from scroll_refused[OF this, of 65535] show ?thesis using s by simp
  qed
qed

section \<open>Properties of the queue\<close>

text \<open>A queue of two records, one of two bytes and one of three, with a foreign block beside it.\<close>

definition sample_heap :: heap where
  "sample_heap = Map.empty(16 \<mapsto> \<lparr>el_previous = NULL, el_next = 32, el_data = [1, 2]\<rparr>,
     32 \<mapsto> \<lparr>el_previous = 16, el_next = NULL, el_data = [3, 4, 5]\<rparr>, 64 \<mapsto> \<lparr>el_previous = NULL, el_next = NULL, el_data = []\<rparr>)"

definition sample_file :: File where
  "sample_file = init_file_variable\<lparr>f_start := 16, f_end := 32, f_size := 2, f_bytes := 5\<rparr>"

lemma sample_holds: "holds [(16, [1, 2]), (32, [3, 4, 5])] (sample_heap, sample_file)"
  by (simp add: holds_def linked_def counted_def sample_heap_def sample_file_def)

lemma sample_queue: "queue_rep [[1, 2], [3, 4, 5]] (sample_heap, sample_file)"
  unfolding queue_rep_def by (rule exI, rule conjI[OF _ sample_holds]) simp

text \<open>C13. The linked queue implements a list with two ends and is memory safe: inserting
  appends the record (it is refused, and nothing changes, for a record of 0 or more than
  65535 bytes or when no memory is left); taking from either end returns the record of that
  end and removes it (it is refused, and nothing changes, on an empty queue or when the
  destination is too small); clearing empties the queue. No operation reads or writes a
  block that is not allocated.\<close>

theorem queue_refines_list:
  assumes "queue_rep vs s" "m = NULL \<or> fresh_block m s"
  shows "(case put_sized m v s of None \<Rightarrow> False
        | Some (r, s') \<Rightarrow> if record_fits v \<and> m \<noteq> NULL then r = 1 \<and> queue_rep (vs @ [v]) s' else r = 0 \<and> s' = s)
    \<and> (case scroll_sized cap s of None \<Rightarrow> False
        | Some (r, s') \<Rightarrow> if vs \<noteq> [] \<and> length (last vs) \<le> cap then r = Some (last vs) \<and> queue_rep (butlast vs) s' else r = None \<and> s' = s)
    \<and> (case scroll_fifo_sized cap s of None \<Rightarrow> False
        | Some (r, s') \<Rightarrow> if vs \<noteq> [] \<and> length (hd vs) \<le> cap then r = Some (hd vs) \<and> queue_rep (tl vs) s' else r = None \<and> s' = s)
    \<and> (case file_clear s of None \<Rightarrow> False | Some s' \<Rightarrow> queue_rep [] s')"
proof -
  obtain xs h suite where x: "vs = map snd xs" "holds xs (h, suite)" "s = (h, suite)" using assms(1) by (cases s) (auto simp: queue_rep_def)
  have rep: "holds ys t \<Longrightarrow> queue_rep (map snd ys) t" for ys t by (auto simp: queue_rep_def)
  have "case put_sized m v s of None \<Rightarrow> False
        | Some (r, s') \<Rightarrow> if record_fits v \<and> m \<noteq> NULL then r = 1 \<and> queue_rep (vs @ [v]) s' else r = 0 \<and> s' = s"
  proof (cases "record_fits v \<and> m \<noteq> NULL")
    case True
    then obtain s' where "put_sized m v s = Some (1, s')" "holds (xs @ [(m, v)]) s'" using put_sized_spec[OF x(2), of m v] assms(2) x(3) by blast
    then show ?thesis using True rep[of "xs @ [(m, v)]" s'] x(1) by simp
  next
    case False
    then have "put_sized m v s = Some (0, s)" using x(3) by (auto simp: put_sized_def record_fits_def)
    then show ?thesis using False by simp
  qed
  moreover have "case scroll_sized cap s of None \<Rightarrow> False
        | Some (r, s') \<Rightarrow> if vs \<noteq> [] \<and> length (last vs) \<le> cap then r = Some (last vs) \<and> queue_rep (butlast vs) s' else r = None \<and> s' = s"
  proof (cases "vs \<noteq> [] \<and> length (last vs) \<le> cap")
    case True
    then obtain ys a d where y: "xs = ys @ [(a, d)]" "length d \<le> cap" using x(1) by (cases xs rule: rev_cases) auto
    from scroll_sized_spec[OF x(2)[unfolded y(1)] y(2)] show ?thesis using True x(1,3) y rep[of ys] by auto
  next
    case False
    then have "xs = [] \<or> cap < length (snd (last xs))" using x(1) by (cases "xs = []") (simp_all add: last_map not_le)
    from scroll_refused(1)[OF x(2) this] show ?thesis using False x(3) by auto
  qed
  moreover have "case scroll_fifo_sized cap s of None \<Rightarrow> False
        | Some (r, s') \<Rightarrow> if vs \<noteq> [] \<and> length (hd vs) \<le> cap then r = Some (hd vs) \<and> queue_rep (tl vs) s' else r = None \<and> s' = s"
  proof (cases "vs \<noteq> [] \<and> length (hd vs) \<le> cap")
    case True
    then obtain ys a d where y: "xs = (a, d) # ys" "length d \<le> cap" using x(1) by (cases xs) auto
    from scroll_fifo_sized_spec[OF x(2)[unfolded y(1)] y(2)] show ?thesis using True x(1,3) y rep[of ys] by auto
  next
    case False
    then have "xs = [] \<or> cap < length (snd (hd xs))" using x(1) by (cases "xs = []") (simp_all add: hd_map not_le)
    from scroll_refused(2)[OF x(2) this] show ?thesis using False x(3) by auto
  qed
  moreover have "case file_clear s of None \<Rightarrow> False | Some s' \<Rightarrow> queue_rep [] s'"
    using file_clear_spec[OF x(2)] x(3) rep[of "[]"] by auto
  ultimately show ?thesis by blast
qed

theorem queue_refines_list_witness:
  "(case put_sized 128 [7] (sample_heap, sample_file) of None \<Rightarrow> False | Some (r, s') \<Rightarrow> r = 1 \<and> queue_rep [[1, 2], [3, 4, 5], [7]] s')
    \<and> (case scroll_sized 3 (sample_heap, sample_file) of None \<Rightarrow> False | Some (r, s') \<Rightarrow> r = Some [3, 4, 5] \<and> queue_rep [[1, 2]] s')
    \<and> (case scroll_fifo_sized 3 (sample_heap, sample_file) of None \<Rightarrow> False | Some (r, s') \<Rightarrow> r = Some [1, 2] \<and> queue_rep [[3, 4, 5]] s')
    \<and> (case file_clear (sample_heap, sample_file) of None \<Rightarrow> False | Some s' \<Rightarrow> queue_rep [] s')"
proof -
  have "fresh_block 128 (sample_heap, sample_file)" by (simp add: fresh_block_def sample_heap_def)
  then show ?thesis using queue_refines_list[OF sample_queue, of 128 "[7]" 3] by (auto simp: record_fits_def split: option.splits)
qed

text \<open>C14. Elements are moved and removed inside the queue by relinking only: moving an element
  before or after another one gives the list with that element at its new place, removing one
  gives the list without it and frees its block; the counters follow and no block outside the
  queue is touched.\<close>

theorem queue_relinks:
  assumes "holds (us @ (a, d) # vs) s" "us @ vs = ys @ (t, c) # zs"
  shows "(case move_before a t s of None \<Rightarrow> False
        | Some s' \<Rightarrow> holds (ys @ (a, d) # (t, c) # zs) s' \<and> frame (fst ` set (us @ (a, d) # vs)) s s')
    \<and> (case move_after a t s of None \<Rightarrow> False
        | Some s' \<Rightarrow> holds (ys @ (t, c) # (a, d) # zs) s' \<and> frame (fst ` set (us @ (a, d) # vs)) s s')
    \<and> (case file_remove_element a s of None \<Rightarrow> False
        | Some s' \<Rightarrow> holds (us @ vs) s' \<and> fst s' a = None \<and> frame (fst ` set (us @ (a, d) # vs)) s s')"
proof -
  obtain h suite where s: "s = (h, suite)" by fastforce
  have l: "linked (us @ (a, d) # vs) (h, suite)" and c: "counted (map snd (us @ (a, d) # vs)) suite"
    using assms(1) s by (simp_all add: holds_def)
  have ms: "mset (map snd us) + mset (map snd vs) = mset (map snd ys) + mset (map snd ((t, c) # zs))"
    using arg_cong[OF assms(2), of "\<lambda>xs. mset (map snd xs)"] by simp
  have cb: "counted (map snd (ys @ (a, d) # (t, c) # zs)) q" "counted (map snd (ys @ (t, c) # (a, d) # zs)) q"
    if "f_size q = f_size suite" "f_bytes q = f_bytes suite" for q
    using c counted_perm[of "map snd (us @ (a, d) # vs)" _ q suite] ms that by (simp_all add: ac_simps)
  show ?thesis
    using move_before_spec[OF l assms(2)] move_after_spec[OF l assms(2)] file_remove_element_spec[OF assms(1)[unfolded s]] cb
    unfolding s holds_def by (auto simp del: map_append list.map)
qed

theorem queue_relinks_witness:
  "(case move_before 32 16 (sample_heap, sample_file) of None \<Rightarrow> False
        | Some s' \<Rightarrow> holds [(32, [3, 4, 5]), (16, [1, 2])] s' \<and> frame {16, 32} (sample_heap, sample_file) s')
    \<and> (case move_after 32 16 (sample_heap, sample_file) of None \<Rightarrow> False
        | Some s' \<Rightarrow> holds [(16, [1, 2]), (32, [3, 4, 5])] s' \<and> frame {16, 32} (sample_heap, sample_file) s')
    \<and> (case file_remove_element 32 (sample_heap, sample_file) of None \<Rightarrow> False
        | Some s' \<Rightarrow> holds [(16, [1, 2])] s' \<and> fst s' 32 = None \<and> frame {16, 32} (sample_heap, sample_file) s')"
  using queue_relinks[of "[(16, [1, 2])]" 32 "[3, 4, 5]" "[]" "(sample_heap, sample_file)" "[]" 16 "[1, 2]" "[]"] sample_holds
  by (auto simp: insert_commute split: option.splits)

text \<open>Emptying the queue record by record gives the records in the order of insertion from
  the front and in the reverse order from the back, and leaves an empty queue; a record that
  was just inserted is the one taken back, and the queue is then what it was.\<close>

lemma queue_order:
  assumes "queue_rep vs s" "fresh_block m s" "record_fits v"
  shows "(\<exists>s'. drain (scroll_fifo_sized 65535) (Suc (length vs)) s = Some (vs, s') \<and> queue_rep [] s')
    \<and> (\<exists>s'. drain (scroll_sized 65535) (Suc (length vs)) s = Some (rev vs, s') \<and> queue_rep [] s')
    \<and> (\<exists>s' s''. map_option snd (put_sized m v s) = Some s' \<and> scroll_sized 65535 s' = Some (Some v, s'') \<and> queue_rep vs s'')"
  using lifo.drain_front[OF assms(1)] lifo.drain_back[OF assms(1)] lifo.push_pop[OF assms] by blast

end
