(* ===== verification/Stock_Rate.thy ===== *)
theory Stock_Rate
  imports Etii_Prelude
begin

text \<open>
  The event counters of the stock (\<open>stock_rate.c\<close>): two rings of buckets, one per second and
  one per minute, each bucket tagged with the second or the minute it counts. Epochs are
  64-bit (\<open>nat\<close> below \<open>2 ^ 64\<close>, the subtraction of the window wraps), counts 32-bit.
\<close>

definition STOCK_RATE_SEC_BUCKETS :: nat where "STOCK_RATE_SEC_BUCKETS = 60"
definition STOCK_RATE_MIN_BUCKETS :: nat where "STOCK_RATE_MIN_BUCKETS = 1440"

record rate_bucket =
  rb_epoch :: nat
  rb_count :: nat

record stock_rate_counter =
  rc_sec :: "rate_bucket list"
  rc_min :: "rate_bucket list"

definition bucket_add :: "nat \<Rightarrow> nat \<Rightarrow> rate_bucket \<Rightarrow> rate_bucket" where
  "bucket_add epoch n b =
     (let b1 = (if rb_epoch b \<noteq> epoch then b\<lparr>rb_count := 0, rb_epoch := epoch\<rparr> else b)
      in b1\<lparr>rb_count := (rb_count b1 + n) mod 2 ^ 32\<rparr>)"

definition bucket_read :: "rate_bucket \<Rightarrow> nat \<Rightarrow> nat" where
  "bucket_read b epoch = (if rb_epoch b \<noteq> epoch then 0 else rb_count b)"

text \<open>One ring: the bucket of an epoch is its remainder.\<close>

definition ring_add :: "nat \<Rightarrow> nat \<Rightarrow> rate_bucket list \<Rightarrow> rate_bucket list" where
  "ring_add epoch n bs = bs[epoch mod length bs := bucket_add epoch n (bs ! (epoch mod length bs))]"

text \<open>A null counter is \<open>None\<close>; \<open>now\<close> is the unsigned reading of the time.\<close>

definition stock_rate_record :: "stock_rate_counter option \<Rightarrow> nat \<Rightarrow> nat \<Rightarrow> stock_rate_counter option" where
  "stock_rate_record c n now = (case c of None \<Rightarrow> None
     | Some k \<Rightarrow> if n = 0 then Some k else Some (k\<lparr>rc_sec := ring_add now n (rc_sec k), rc_min := ring_add (now div 60) n (rc_min k)\<rparr>))"

definition window_epoch :: "nat \<Rightarrow> nat \<Rightarrow> nat" where
  "window_epoch now i = (now + 2 ^ 64 - i) mod 2 ^ 64"

definition ring_read :: "rate_bucket list \<Rightarrow> nat \<Rightarrow> nat" where
  "ring_read bs epoch = bucket_read (bs ! (epoch mod length bs)) epoch"

definition sum_window :: "rate_bucket list \<Rightarrow> nat \<Rightarrow> nat \<Rightarrow> nat" where
  "sum_window bs now width = fold (\<lambda>i acc. (acc + ring_read bs (window_epoch now i)) mod 2 ^ 64) [0..<width] 0"

definition stock_rate_windows :: "stock_rate_counter option \<Rightarrow> nat \<Rightarrow> nat \<times> nat \<times> nat" where
  "stock_rate_windows c now = (case c of None \<Rightarrow> (0, 0, 0)
     | Some k \<Rightarrow> (sum_window (rc_sec k) now STOCK_RATE_SEC_BUCKETS, sum_window (rc_min k) (now div 60) 60,
                  sum_window (rc_min k) (now div 60) STOCK_RATE_MIN_BUCKETS))"

definition stock_rate_reset_for_tests :: stock_rate_counter where
  "stock_rate_reset_for_tests = \<lparr>rc_sec = replicate STOCK_RATE_SEC_BUCKETS \<lparr>rb_epoch = 0, rb_count = 0\<rparr>,
     rc_min = replicate STOCK_RATE_MIN_BUCKETS \<lparr>rb_epoch = 0, rb_count = 0\<rparr>\<rparr>"

section \<open>What a ring holds\<close>

text \<open>The events of one epoch.\<close>

definition events_at :: "(nat \<times> nat) list \<Rightarrow> nat \<Rightarrow> nat" where
  "events_at es e = sum_list (map snd (filter (\<lambda>x. fst x = e) es))"

definition ring_holds :: "rate_bucket list \<Rightarrow> (nat \<times> nat) list \<Rightarrow> bool" where
  "ring_holds bs es \<longleftrightarrow> (\<forall>e. (\<forall>x \<in> set es. fst x < e + length bs) \<longrightarrow> ring_read bs e = events_at es e)"

lemma events_at_append [simp]: "events_at (es @ [(x, n)]) e = events_at es e + (if x = e then n else 0)"
  by (simp add: events_at_def)

lemma events_at_le: "events_at es e \<le> sum_list (map snd es)"
  by (induction es) (auto simp: events_at_def)

lemma ring_holds_init: "0 < B \<Longrightarrow> ring_holds (replicate B \<lparr>rb_epoch = 0, rb_count = 0\<rparr>) []"
  by (simp add: ring_holds_def ring_read_def bucket_read_def events_at_def)

lemma same_slot:
  assumes "x < e + B" "e mod B = x mod B" "e \<le> x" shows "e = (x :: nat)"
proof -
  have "B dvd x - e" using assms(2,3) mod_eq_dvd_iff_nat[of e x B] by simp
  moreover have "x - e < B" using assms(1,3) by simp
  ultimately have "x - e = 0" using nat_dvd_not_less[of "x - e" B] by blast
  then show ?thesis using assms(3) by simp
qed

lemma ring_add_holds:
  assumes h: "ring_holds bs es" and B: "0 < length bs" and mono: "\<forall>y \<in> set es. fst y \<le> x" and small: "sum_list (map snd (es @ [(x, n)])) < 2 ^ 32"
  shows "ring_holds (ring_add x n bs) (es @ [(x, n)])"
  unfolding ring_holds_def
proof (intro allI impI)
  fix e assume late: "\<forall>y \<in> set (es @ [(x, n)]). fst y < e + length (ring_add x n bs)"
  let ?B = "length bs"
  have lt: "x < e + ?B" "\<forall>y \<in> set es. fst y < e + ?B" using late by (auto simp: ring_add_def)
  have old: "ring_read bs e = events_at es e" using h lt(2) by (simp add: ring_holds_def)
  have s: "x mod ?B < ?B" "e mod ?B < ?B" using B by simp_all
  show "ring_read (ring_add x n bs) e = events_at (es @ [(x, n)]) e"
  proof (cases "e mod ?B = x mod ?B")
    case False
    then have "x \<noteq> e" by auto
    then show ?thesis using False old s by (simp add: ring_add_def ring_read_def)
  next
    case slot: True
    show ?thesis
    proof (cases "e \<le> x")
      case True
      then have e: "e = x" using same_slot[OF lt(1) slot] by simp
      have "events_at es x + n < 2 ^ 32" using small events_at_le[of es x] by simp
      then show ?thesis using old s e
        by (auto simp: ring_add_def ring_read_def bucket_add_def bucket_read_def Let_def)
    next
      case False
      then have "filter (\<lambda>y. fst y = e) es = []" using mono by (auto simp: filter_empty_conv)
      then have "events_at (es @ [(x, n)]) e = 0" using False by (simp add: events_at_def)
      then show ?thesis using False s slot by (auto simp: ring_add_def ring_read_def bucket_add_def bucket_read_def Let_def)
    qed
  qed
qed

lemma ring_skip: "ring_holds bs es \<Longrightarrow> ring_holds bs (es @ [(x, 0)])"
  by (simp add: ring_holds_def)

lemma length_ring_add [simp]: "length (ring_add x n bs) = length bs"
  by (simp add: ring_add_def)

section \<open>Windows\<close>

lemma fold_mod_sum: "fold (\<lambda>i acc. (acc + f i) mod m) [0..<w] (0 :: nat) = (\<Sum>i < w. f i) mod m"
  by (induction w) (simp_all add: mod_add_left_eq)

lemma wrap_back: "now < W \<Longrightarrow> i \<le> now \<Longrightarrow> (now + W - i) mod W = now - (i :: nat)"
proof -
  assume a: "now < W" "i \<le> now"
  have "now + W - i = (now - i) + W" using a by simp
  moreover have "now - i < W" using a by simp
  ultimately show ?thesis by (simp only: mod_add_self2 mod_less)
qed

lemma wrap_over: "now < W \<Longrightarrow> i < W \<Longrightarrow> \<not> i \<le> now \<Longrightarrow> now < (now + W - i) mod (W :: nat)"
proof -
  assume a: "now < W" "i < W" "\<not> i \<le> now"
  have "now + W - i < W" "now < now + W - i" using a by linarith+
  then show ?thesis by (simp only: mod_less)
qed

lemma window_epoch_cases:
  assumes "now < 2 ^ 64" "i < 2 ^ 64"
  shows "i \<le> now \<Longrightarrow> window_epoch now i = now - i" "\<not> i \<le> now \<Longrightarrow> now < window_epoch now i"
  unfolding window_epoch_def using wrap_back[OF assms(1)] wrap_over[OF assms] by blast+

lemma window_read:
  assumes h: "ring_holds bs es" and past: "\<forall>x \<in> set es. fst x \<le> now" and now: "now < 2 ^ 64" and i: "i < length bs" "i < 2 ^ 64"
  shows "ring_read bs (window_epoch now i) = (if i \<le> now then events_at es (now - i) else 0)"
proof (cases "i \<le> now")
  case True
  have "\<forall>x \<in> set es. fst x < now - i + length bs" using past i(1) True by fastforce
  then show ?thesis using h True window_epoch_cases(1)[OF now i(2) True] by (simp add: ring_holds_def)
next
  case False
  note gt = window_epoch_cases(2)[OF now i(2) False]
  have "\<forall>x \<in> set es. fst x < window_epoch now i + length bs" using past gt by fastforce
  then have "ring_read bs (window_epoch now i) = events_at es (window_epoch now i)" using h by (simp add: ring_holds_def)
  moreover have "filter (\<lambda>x. fst x = window_epoch now i) es = []" using past gt by (fastforce simp: filter_empty_conv)
  ultimately show ?thesis using False by (simp add: events_at_def)
qed

text \<open>The events of the last \<open>w\<close> epochs.\<close>

definition events_since :: "(nat \<times> nat) list \<Rightarrow> nat \<Rightarrow> nat \<Rightarrow> nat" where
  "events_since es now w = sum_list (map snd (filter (\<lambda>x. now < fst x + w) es))"

lemma window_events:
  assumes "\<forall>x \<in> set es. fst x \<le> now"
  shows "(\<Sum>i < w. if i \<le> now then events_at es (now - i) else 0) = events_since es now w"
  using assms
proof (induction es)
  case Nil
  then show ?case by (simp add: events_at_def events_since_def)
next
  case (Cons x es)
  have le: "fst x \<le> now" using Cons.prems by simp
  have split: "(if i \<le> now then events_at (x # es) (now - i) else 0)
      = (if i = now - fst x then snd x else 0) + (if i \<le> now then events_at es (now - i) else 0)" for i
    using le by (auto simp: events_at_def)
  have "(\<Sum>i < w. if i = now - fst x then snd x else 0) = (if now < fst x + w then snd x else 0)"
    using le by (auto simp: sum.delta)
  then show ?case using Cons by (simp add: split sum.distrib events_since_def)
qed

lemma sum_window_events:
  assumes "ring_holds bs es" "\<forall>x \<in> set es. fst x \<le> now" "now < 2 ^ 64" "w \<le> length bs" "length bs \<le> 2 ^ 64" "sum_list (map snd es) < 2 ^ 32"
  shows "sum_window bs now w = events_since es now w"
proof -
  have "(\<Sum>i < w. ring_read bs (window_epoch now i)) = (\<Sum>i < w. if i \<le> now then events_at es (now - i) else 0)"
    by (rule sum.cong) (use assms window_read[OF assms(1-3)] in auto)
  also have "\<dots> = events_since es now w" by (rule window_events[OF assms(2)])
  finally have s: "(\<Sum>i < w. ring_read bs (window_epoch now i)) = events_since es now w" .
  have "events_since es now w \<le> sum_list (map snd es)" unfolding events_since_def by (induction es) auto
  then have "events_since es now w < 2 ^ 64" using assms(6) by simp
  then show ?thesis unfolding sum_window_def fold_mod_sum s by simp
qed

definition counter_holds :: "stock_rate_counter \<Rightarrow> (nat \<times> nat) list \<Rightarrow> bool" where
  "counter_holds k es \<longleftrightarrow> length (rc_sec k) = STOCK_RATE_SEC_BUCKETS \<and> length (rc_min k) = STOCK_RATE_MIN_BUCKETS
     \<and> ring_holds (rc_sec k) es \<and> ring_holds (rc_min k) (map (\<lambda>(t, n). (t div 60, n)) es)"

abbreviation record_all :: "(nat \<times> nat) list \<Rightarrow> stock_rate_counter option" where
  "record_all es \<equiv> fold (\<lambda>(t, n) c. stock_rate_record c n t) es (Some stock_rate_reset_for_tests)"

lemma record_all_holds:
  "sorted (map fst es) \<Longrightarrow> sum_list (map snd es) < 2 ^ 32 \<Longrightarrow> \<exists>k. record_all es = Some k \<and> counter_holds k es"
proof (induction es rule: rev_induct)
  case Nil
  then show ?case using ring_holds_init[of 60] ring_holds_init[of 1440]
    by (simp add: counter_holds_def stock_rate_reset_for_tests_def STOCK_RATE_SEC_BUCKETS_def STOCK_RATE_MIN_BUCKETS_def)
next
  case (snoc x es)
  obtain t n where x: "x = (t, n)" by fastforce
  have so: "sorted (map fst es)" "\<forall>y \<in> set es. fst y \<le> t" using snoc.prems(1) x by (auto simp: sorted_append)
  have sm: "sum_list (map snd es) < 2 ^ 32" using snoc.prems(2) by simp
  obtain k where k: "record_all es = Some k" "counter_holds k es" using snoc.IH[OF so(1) sm] by blast
  let ?ms = "map (\<lambda>(t, n). (t div 60, n)) es"
  have msum: "map snd ?ms = map snd es" by (induction es) auto
  have mm: "\<forall>y \<in> set ?ms. fst y \<le> t div 60" using so(2) div_le_mono by fastforce
  show ?case
  proof (cases "n = 0")
    case True
    then show ?thesis using k x ring_skip by (auto simp: stock_rate_record_def counter_holds_def)
  next
    case False
    have "ring_holds (ring_add t n (rc_sec k)) (es @ [(t, n)])"
      by (rule ring_add_holds) (use k(2) so(2) snoc.prems(2) x in \<open>simp_all add: counter_holds_def STOCK_RATE_SEC_BUCKETS_def\<close>)
    moreover have "ring_holds (ring_add (t div 60) n (rc_min k)) (?ms @ [(t div 60, n)])"
    proof (rule ring_add_holds)
      have "map snd (?ms @ [(t div 60, n)]) = map snd (es @ [x])" using msum x by (simp only: map_append list.map prod.sel)
      then show "sum_list (map snd (?ms @ [(t div 60, n)])) < 2 ^ 32" using snoc.prems(2) by argo
    qed (use k(2) mm in \<open>simp_all add: counter_holds_def STOCK_RATE_MIN_BUCKETS_def\<close>)
    ultimately show ?thesis using k x False by (simp add: stock_rate_record_def counter_holds_def)
  qed
qed

text \<open>C40. After any events recorded in the order of time (fewer than \<open>2 ^ 32\<close> in all), the three
  windows give exactly the number of events of the last 60 seconds, of the last 60 minutes
  and of the last 1440 minutes, the current second or minute included, although each ring
  keeps one bucket per remainder and is never swept.\<close>

theorem stock_rate_windows_exact:
  assumes "sorted (map fst es)" "list_all (\<lambda>x. fst x \<le> now) es" "now < 2 ^ 64" "sum_list (map snd es) < 2 ^ 32"
  shows "stock_rate_windows (fold (\<lambda>(t, n) c. stock_rate_record c n t) es (Some stock_rate_reset_for_tests)) now
    = (sum_list (map snd (filter (\<lambda>(t, n). now < t + 60) es)),
       sum_list (map snd (filter (\<lambda>(t, n). now div 60 < t div 60 + 60) es)),
       sum_list (map snd (filter (\<lambda>(t, n). now div 60 < t div 60 + 1440) es)))"
proof -
  obtain k where k: "record_all es = Some k" "counter_holds k es" using record_all_holds[OF assms(1,4)] by blast
  let ?ms = "map (\<lambda>(t, n). (t div 60, n)) es"
  have past: "\<forall>x \<in> set es. fst x \<le> now" using assms(2) by (simp add: list_all_iff)
  then have mpast: "\<forall>x \<in> set ?ms. fst x \<le> now div 60" using div_le_mono by fastforce
  have msum: "sum_list (map snd ?ms) < 2 ^ 32" using assms(4) by (simp add: comp_def case_prod_unfold)
  have mnow: "now div 60 < 2 ^ 64" using assms(3) div_le_dividend[of now 60] by linarith
  have sec: "sum_window (rc_sec k) now 60 = events_since es now 60"
    by (rule sum_window_events) (use k(2) past assms(3,4) in \<open>simp_all add: counter_holds_def STOCK_RATE_SEC_BUCKETS_def\<close>)
  have min: "sum_window (rc_min k) (now div 60) w = events_since ?ms (now div 60) w" if "w \<le> 1440" for w
    by (rule sum_window_events) (use k(2) mpast mnow msum that in \<open>simp_all add: counter_holds_def STOCK_RATE_MIN_BUCKETS_def\<close>)
  have ms: "events_since ?ms (now div 60) w = sum_list (map snd (filter (\<lambda>(t, n). now div 60 < t div 60 + w) es))" for w
    unfolding events_since_def by (induction es) auto
  have es: "events_since es now 60 = sum_list (map snd (filter (\<lambda>(t, n). now < t + 60) es))"
    unfolding events_since_def by (simp add: case_prod_unfold)
  show ?thesis using k(1) sec min ms es by (simp add: stock_rate_windows_def STOCK_RATE_SEC_BUCKETS_def STOCK_RATE_MIN_BUCKETS_def)
qed

theorem stock_rate_windows_exact_witness:
  "stock_rate_windows (fold (\<lambda>(t, n) c. stock_rate_record c n t) [(100, 5), (3000, 7), (3059, 2), (3061, 1)] (Some stock_rate_reset_for_tests)) 3061 = (3, 15, 15)"
  using stock_rate_windows_exact[of "[(100, 5), (3000, 7), (3059, 2), (3061, 1)]" 3061] by simp

end
