(* ===== verification/Board_Properties.thy ===== *)
theory Board_Properties
  imports Sample
begin

text \<open>
  What the routines of \<open>possibility.c\<close> that build, compare and check a position promise,
  stated against the specification of the puzzle and exhibited on the sample puzzle.
\<close>

section \<open>Building a position\<close>

definition part_value :: "nat \<Rightarrow> part option \<Rightarrow> int" where
  "part_value n e = (case e of None \<Rightarrow> -2 | Some q \<Rightarrow> id_for_rotated_part n (p_id q) (p_rotation q))"

lemma generate_fold:
  assumes R: "rotation_table n R" and e: "\<forall>e \<in> set etern. \<forall>q. e = Some q \<longrightarrow> q \<in> set R \<and> p_id q \<noteq> 0"
    and len: "length etern = n * n" and k: "k \<le> n * n"
    and init: "length (grid p0) = n * n" "length (b_faceused p0) = FACES_USED_SIZE n"
  defines "step \<equiv> (\<lambda>c result. case etern ! c of
         Some part \<Rightarrow> result\<lparr>grid := (grid result)[c := id_for_rotated_part n (p_id part) (p_rotation part)],
                             b_faceused := set_face_used (b_faceused result) (nat (p_id part - 1)) 1\<rparr>
       | None \<Rightarrow> result\<lparr>grid := (grid result)[c := -2]\<rparr>)"
  shows "let r = fold step [0..<k] p0 in length (grid r) = n * n \<and> length (b_faceused r) = FACES_USED_SIZE n
     \<and> (\<forall>c < k. grid r ! c = part_value n (etern ! c))
     \<and> (\<forall>j < n * n. is_face_used (b_faceused r) j \<longleftrightarrow>
          is_face_used (b_faceused p0) j \<or> (\<exists>c < k. \<exists>q. etern ! c = Some q \<and> p_id q = int j + 1))"
  using k
proof (induction k)
  case 0
  then show ?case using init by simp
next
  case (Suc k)
  let ?r = "fold step [0..<k] p0"
  from Suc have IH: "length (grid ?r) = n * n" "length (b_faceused ?r) = FACES_USED_SIZE n"
    "\<forall>c < k. grid ?r ! c = part_value n (etern ! c)"
    "\<forall>j < n * n. is_face_used (b_faceused ?r) j \<longleftrightarrow>
          is_face_used (b_faceused p0) j \<or> (\<exists>c < k. \<exists>q. etern ! c = Some q \<and> p_id q = int j + 1)"
    by (auto simp: Let_def)
  have fold: "fold step [0..<Suc k] p0 = step k ?r" by simp
  show ?case
  proof (cases "etern ! k")
    case None
    then have "step k ?r = ?r\<lparr>grid := (grid ?r)[k := -2]\<rparr>" by (simp add: step_def)
    then show ?thesis using IH Suc.prems None
      unfolding fold Let_def by (auto simp: nth_list_update less_Suc_eq part_value_def)
  next
    case (Some q)
    have "etern ! k \<in> set etern" using Suc.prems len by simp
    then have q: "q \<in> set R" "p_id q \<noteq> 0" using e Some by auto
    have rng: "1 \<le> p_id q" "p_id q \<le> int (n * n)"
      using piece_range[OF R table_member(1)[OF R q]] table_member(2)[OF R q] by simp_all
    have bit: "nat (p_id q - 1) < 16 * length (b_faceused ?r)" using piece_bit_range(2)[OF R IH(2) rng] .
    have st: "step k ?r = ?r\<lparr>grid := (grid ?r)[k := id_for_rotated_part n (p_id q) (p_rotation q)],
                             b_faceused := set_face_used (b_faceused ?r) (nat (p_id q - 1)) 1\<rparr>"
      using Some by (simp add: step_def)
    have "j = nat (p_id q - 1) \<longleftrightarrow> p_id q = int j + 1" for j using rng by auto
    then have "is_face_used (b_faceused (step k ?r)) j \<longleftrightarrow> p_id q = int j + 1 \<or> is_face_used (b_faceused ?r) j" for j
      using is_face_used_set[OF bit, of 1 j] by (simp add: st)
    then show ?thesis using IH Suc.prems Some
      unfolding fold Let_def by (auto simp: st nth_list_update less_Suc_eq part_value_def)
  qed
qed

lemma generate_spec:
  assumes R: "rotation_table n R" and e: "\<forall>e \<in> set etern. \<forall>q. e = Some q \<longrightarrow> q \<in> set R \<and> p_id q \<noteq> 0"
    and len: "length etern = n * n"
  shows "grid (generate_possibility_packet n x y etern) = map (part_value n) etern"
    and "marks_ok n R (generate_possibility_packet n x y etern)"
proof -
  let ?g = "generate_possibility_packet n x y etern"
  have g: "length (grid ?g) = n * n" "length (b_faceused ?g) = FACES_USED_SIZE n"
    "\<forall>c < n * n. grid ?g ! c = part_value n (etern ! c)"
    "\<forall>j < n * n. is_face_used (b_faceused ?g) j \<longleftrightarrow> (\<exists>c < n * n. \<exists>q. etern ! c = Some q \<and> p_id q = int j + 1)"
  proof -
    have "n * n < 16 * FACES_USED_SIZE n" unfolding FACES_USED_SIZE_def by presburger
    then show "length (grid ?g) = n * n" "length (b_faceused ?g) = FACES_USED_SIZE n"
      "\<forall>c < n * n. grid ?g ! c = part_value n (etern ! c)"
      "\<forall>j < n * n. is_face_used (b_faceused ?g) j \<longleftrightarrow> (\<exists>c < n * n. \<exists>q. etern ! c = Some q \<and> p_id q = int j + 1)"
      unfolding generate_possibility_packet_def
      using generate_fold[OF R e len order_refl, of "\<lparr>px = x, py = y, grid = replicate (n * n) 0, alloc = 0,
        min_candidats = POSSIBILITY_MIN_CANDIDATS_UNKNOWN,
        b_faceused = replicate (FACES_USED_SIZE n) 0, checked = 0\<rparr>"] by (simp_all add: Let_def)
  qed
  show gr: "grid ?g = map (part_value n) etern"
    using g(1,3) len by (intro nth_equalityI) simp_all
  have mem: "q \<in> set R \<and> p_id q \<noteq> 0" if "c < n * n" "etern ! c = Some q" for c q
    using e that len by (metis nth_mem)
  have val: "part_value n (etern ! c) = -2 \<or> valid_value n (part_value n (etern ! c))"
    "part_value n (etern ! c) \<noteq> -2 \<and> piece_of R (part_value n (etern ! c)) = int j + 1
       \<longleftrightarrow> (\<exists>q. etern ! c = Some q \<and> p_id q = int j + 1)" if c: "c < n * n" for c j
  proof -
    have t: "valid_value n (part_value n (Some q)) \<and> R ! nat (part_value n (Some q)) = q"
      if "etern ! c = Some q" for q
      using mem[OF c that] table_member[OF R] by (simp add: part_value_def)
    then show "part_value n (etern ! c) = -2 \<or> valid_value n (part_value n (etern ! c))"
      by (cases "etern ! c") (auto simp: part_value_def)
    show "part_value n (etern ! c) \<noteq> -2 \<and> piece_of R (part_value n (etern ! c)) = int j + 1
       \<longleftrightarrow> (\<exists>q. etern ! c = Some q \<and> p_id q = int j + 1)"
      using t by (cases "etern ! c") (auto simp: part_value_def valid_value_def)
  qed
  show "marks_ok n R ?g"
    using g len val by (auto simp: marks_ok_def grid_ok_def gr)
qed

text \<open>A position generated from hints of the rotation table stores each hint's value in its
  cell, \<open>-2\<close> elsewhere, and marks exactly the hinted pieces as used.\<close>

lemma generate_possibility_packet_correct:
  assumes "rotation_table n R" "length etern = n * n"
    and "\<forall>e \<in> set etern. \<forall>q. e = Some q \<longrightarrow> q \<in> set R \<and> p_id q \<noteq> 0"
  shows "grid (generate_possibility_packet n x y etern) = map (part_value n) etern
     \<and> marks_ok n R (generate_possibility_packet n x y etern)"
  using generate_spec[OF assms(1,3,2)] by blast

section \<open>Reading a position\<close>

text \<open>The three routines that compute the constraints of a cell agree: the variant for the
  current cell is the general one at \<open>(x, y)\<close>, and the reading of \<open>what_search\<close> and of
  \<open>check_possibility\<close> differ from it only in the name of the wildcard.\<close>

lemma what_search_variants_agree:
  "what_search_to_key n R p af = what_search_in_grid_to_key n R p (px p) (py p) af
     \<and> what_search n R x y p = what_search_in_grid_to_key n R p x y (-1)
     \<and> check_neighbours n R p x y = what_search_in_grid_to_key n R p x y (-1)"
  by (simp add: what_search_to_key_current what_search_wildcard check_neighbours_key)

text \<open>C33. \<open>check_possibility\<close> accepts a position only when its coordinates and counter are in range,
  the mask has at least \<open>alloc\<close> pieces, and every filled cell holds a value of the rotation table
  whose faces agree with the frame and with all filled neighbours.\<close>

theorem check_possibility_sound:
  assumes "ETERN_SIZE_supported n" "rotation_table n R" "check_possibility n (Some p) R = 0"
  shows "px p < n \<and> py p < n \<and> alloc p \<le> n * n \<and> alloc p \<le> face_count n (b_faceused p)
     \<and> in_table n R (grid p) \<and> conflict_free n R (grid p)"
  using assms(3) check_cells_sound[OF assms(1,2), of p]
  by (auto simp: check_possibility_def conflict_free_def split: if_splits)

definition sample_full :: possibility_packet where
  "sample_full = (generate_possibility_packet 4 0 0 (map (\<lambda>v. Some (sample_rotations ! nat v)) sample_solution))\<lparr>alloc := 16\<rparr>"

theorem check_possibility_sound_witness:
  "px sample_full < 4 \<and> py sample_full < 4 \<and> alloc sample_full \<le> 4 * 4
     \<and> alloc sample_full \<le> face_count 4 (b_faceused sample_full)
     \<and> in_table 4 sample_rotations (grid sample_full)
     \<and> conflict_free 4 sample_rotations (grid sample_full)"
proof (rule check_possibility_sound[OF sample_supported sample_rotation_table])
  show "check_possibility 4 (Some sample_full) sample_rotations = 0" by code_simp
qed

text \<open>C34. Conversely every position that satisfies the board invariant with a true counter passes the
  check (on the 16x16 board, with the mandatory centre piece in place).\<close>

theorem check_possibility_complete:
  assumes "ETERN_SIZE_supported n" "rotation_table n R" "board_ok n R p" "px p < n" "py p < n"
    and "alloc p = possibility_placed_count n p" "n \<noteq> 16 \<or> grid_at n p 7 8 = id_for_rotated_part n 139 2"
  shows "check_possibility n (Some p) R = 0"
proof -
  have "length (grid p) = n * n" using assms(3) by (simp add: board_ok_def marks_ok_def grid_ok_def)
  then have "possibility_placed_count n p \<le> n * n"
    by (simp add: placed_count_filter) (metis length_filter_le)
  then show ?thesis using assms(4-7) face_count_board[OF assms(2,3)] board_ok_check_cells[OF assms(1-3)]
    by (auto simp: check_possibility_def)
qed

theorem check_possibility_complete_witness: "check_possibility 4 (Some sample_full) sample_rotations = 0"
proof (rule check_possibility_complete[OF sample_supported sample_rotation_table])
  show "board_ok 4 sample_rotations sample_full" by code_simp
  show "alloc sample_full = possibility_placed_count 4 sample_full" by code_simp
  show "px sample_full < 4" "py sample_full < 4" by code_simp+
qed simp

section \<open>Comparing positions\<close>

text \<open>\<open>compare_possibility\<close> on two packets answers 0 exactly when counters, coordinates, used
  pieces and cells are equal.\<close>

lemma compare_possibility_zero_iff:
  "compare_possibility n (Some p) (Some q) = 0 \<longleftrightarrow>
     alloc p = alloc q \<and> px p = px q \<and> py p = py q
     \<and> map (is_face_used (b_faceused p)) [0..<n * n] = map (is_face_used (b_faceused q)) [0..<n * n]
     \<and> map ((!) (grid p)) [0..<n * n] = map ((!) (grid q)) [0..<n * n]"
  by (auto simp: compare_zero_iff)

text \<open>With null pointers the answers of \<open>compare_possibility\<close> are inverted: two null pointers are
  reported different (-1), one null pointer and a packet are reported identical (0).\<close>

lemma compare_possibility_null_inverted:
  "compare_possibility n None None = -1 \<and> compare_possibility n None (Some p) = 0
     \<and> compare_possibility n (Some p) None = 0"
  by (simp add: compare_possibility_def)

text \<open>When \<open>is_origin_of\<close> answers 1, every solution below the second position is a solution below
  the first.\<close>

lemma is_origin_of_completions:
  assumes "is_origin_of n (Some p) (Some q) = 1"
  shows "completions n R (grid q) \<subseteq> completions n R (grid p)"
  using assms by (intro completions_mono) (simp add: is_origin_iff)

text \<open>Without the rotation table \<open>save_solution_csv\<close> misnames the last piece: the cell value of
  piece \<open>ETERN_PARTS\<close> unturned is written as piece 0 with rotation 1.\<close>

lemma save_solution_csv_last_piece:
  "solution_row 16 None 0 (id_for_rotated_part 16 256 0) = [0, 0, 0, 1, -1, -1, -1, -1]"
  by (simp add: solution_row_def id_for_rotated_part_def)

end
