(* ===== verification/Stock_Pools.thy ===== *)
theory Stock_Pools
  imports Codec_Records Lifo Stock_Rate Fair_Loops Board_Properties
begin

text \<open>
  The stock of the server (\<open>datamanager.c\<close>): two pools of queues, one for the positions still to
  be checked and one for the checked ones, that hold compact records. A position is inserted
  with a bounded number of attempts to lock a queue, under a limit of memory, and taken from the
  end of the first queue that can be locked and is not empty. The operating system (the answers
  of \<open>pthread_mutex_trylock\<close> and \<open>malloc\<close>) is an argument; each call reads the next answer.
\<close>

section \<open>Queues of records\<close>

text \<open>A queue as the list of its records. These are the operations of \<open>Lifo\<close> seen through
  \<open>queue_rep\<close>; \<open>m\<close> says whether \<open>malloc\<close> succeeds.\<close>

definition put_record :: "bool \<Rightarrow> u8 list \<Rightarrow> u8 list list \<Rightarrow> bool \<times> u8 list list" where
  "put_record m v q = (if record_fits v \<and> m then (True, q @ [v]) else (False, q))"

definition scroll_record :: "nat \<Rightarrow> u8 list list \<Rightarrow> u8 list option \<times> u8 list list" where
  "scroll_record cap q = (if q \<noteq> [] \<and> length (last q) \<le> cap then (Some (last q), butlast q) else (None, q))"

definition scroll_fifo_record :: "nat \<Rightarrow> u8 list list \<Rightarrow> u8 list option \<times> u8 list list" where
  "scroll_fifo_record cap q = (if q \<noteq> [] \<and> length (hd q) \<le> cap then (Some (hd q), tl q) else (None, q))"

lemma put_record_refines:
  assumes "queue_rep q s" "a = NULL \<or> fresh_block a s"
  shows "\<exists>s'. put_sized a v s = Some (of_bool (fst (put_record (a \<noteq> NULL) v q)), s') \<and> queue_rep (snd (put_record (a \<noteq> NULL) v q)) s'"
proof -
  obtain xs h suite where x: "q = map snd xs" "holds xs (h, suite)" "s = (h, suite)" using assms(1) by (cases s) (auto simp: queue_rep_def)
  show ?thesis
  proof (cases "record_fits v \<and> a \<noteq> NULL")
    case True
    then obtain s' where "put_sized a v s = Some (1, s')" "holds (xs @ [(a, v)]) s'" using put_sized_spec[OF x(2), of a v] assms(2) x(3) by blast
    then show ?thesis using True x(1) by (auto simp: put_record_def queue_rep_def intro!: exI[of _ "xs @ [(a, v)]"])
  next
    case False
    then have "put_sized a v s = Some (0, s)" using x(3) by (auto simp: put_sized_def record_fits_def)
    then show ?thesis using False assms(1) by (auto simp: put_record_def)
  qed
qed

lemma scroll_record_refines:
  assumes "queue_rep q s"
  shows "\<exists>s'. scroll_sized cap s = Some (fst (scroll_record cap q), s') \<and> queue_rep (snd (scroll_record cap q)) s'"
    and "\<exists>s'. scroll_fifo_sized cap s = Some (fst (scroll_fifo_record cap q), s') \<and> queue_rep (snd (scroll_fifo_record cap q)) s'"
proof -
  obtain xs h suite where x: "q = map snd xs" "holds xs (h, suite)" "s = (h, suite)" using assms(1) by (cases s) (auto simp: queue_rep_def)
  have rep: "holds ys t \<Longrightarrow> queue_rep (map snd ys) t" for ys t by (auto simp: queue_rep_def)
  show "\<exists>s'. scroll_sized cap s = Some (fst (scroll_record cap q), s') \<and> queue_rep (snd (scroll_record cap q)) s'"
  proof (cases "q \<noteq> [] \<and> length (last q) \<le> cap")
    case True
    then obtain ys a d where y: "xs = ys @ [(a, d)]" "length d \<le> cap" using x(1) by (cases xs rule: rev_cases) auto
    from scroll_sized_spec[OF x(2)[unfolded y(1)] y(2)] show ?thesis using True x(1,3) y rep[of ys] by (auto simp: scroll_record_def)
  next
    case False
    then have "xs = [] \<or> cap < length (snd (last xs))" using x(1) by (cases "xs = []") (simp_all add: last_map not_le)
    from scroll_refused(1)[OF x(2) this] show ?thesis using False x(3) assms by (auto simp: scroll_record_def)
  qed
  show "\<exists>s'. scroll_fifo_sized cap s = Some (fst (scroll_fifo_record cap q), s') \<and> queue_rep (snd (scroll_fifo_record cap q)) s'"
  proof (cases "q \<noteq> [] \<and> length (hd q) \<le> cap")
    case True
    then obtain ys a d where y: "xs = (a, d) # ys" "length d \<le> cap" using x(1) by (cases xs) auto
    from scroll_fifo_sized_spec[OF x(2)[unfolded y(1)] y(2)] show ?thesis using True x(1,3) y rep[of ys] by (auto simp: scroll_fifo_record_def)
  next
    case False
    then have "xs = [] \<or> cap < length (snd (hd xs))" using x(1) by (cases "xs = []") (simp_all add: hd_map not_le)
    from scroll_refused(2)[OF x(2) this] show ?thesis using False x(3) assms by (auto simp: scroll_fifo_record_def)
  qed
qed

section \<open>The state\<close>

datatype file_sort_state = FILE_SORT_UNKNOWN | FILE_SORT_ASC | FILE_SORT_DESC

record file_possibility =
  fp_file :: "u8 list list"
  fp_sort_state :: file_sort_state

definition NB_FILE_POSSIBILITY_MAX :: nat where "NB_FILE_POSSIBILITY_MAX = 128"
definition DATAMANAGER_TRYLOCK_MAX_SWEEPS :: nat where "DATAMANAGER_TRYLOCK_MAX_SWEEPS = 5000"
definition DATAMANAGER_ADD_OK :: int where "DATAMANAGER_ADD_OK = 0"
definition DATAMANAGER_ADD_REFUSED_RAM_CAP :: int where "DATAMANAGER_ADD_REFUSED_RAM_CAP = 1"
definition DATAMANAGER_ADD_REFUSED_POOL_LOCKED :: int where "DATAMANAGER_ADD_REFUSED_POOL_LOCKED = 2"
definition DATAMANAGER_MALLOC_OVERHEAD :: u64 where "DATAMANAGER_MALLOC_OVERHEAD = 16"
definition sizeof_Element :: u64 where "sizeof_Element = 24"

text \<open>What the operating system answers to the successive calls.\<close>

record os =
  os_trylock :: "nat \<Rightarrow> bool"
  os_malloc :: "nat \<Rightarrow> bool"

text \<open>The static variables of the two pools. Those that come in pairs are functions of the pool:
  \<open>False\<close> is \<open>file_possibility\<close>, \<open>True\<close> is \<open>file_possibility_checked\<close>. The arrays have
  \<open>nb_file_possibility_capacity\<close> entries, of which \<open>nb_file_possibility\<close> are in use.
  \<open>trylocks\<close> and \<open>mallocs\<close> count the calls answered so far.\<close>

record stock =
  nb_file_possibility :: nat
  s_pool :: "bool \<Rightarrow> file_possibility list"
  rr_put :: "bool \<Rightarrow> u32"
  rr_scroll :: "bool \<Rightarrow> u32"
  stock_adds_rate :: stock_rate_counter
  stock_removes_rate :: stock_rate_counter
  pool_adds_rate :: "bool \<Rightarrow> stock_rate_counter"
  pool_removes_rate :: "bool \<Rightarrow> stock_rate_counter"
  pool_unmet_rate :: "bool \<Rightarrow> stock_rate_counter"
  max_result :: nat
  stock_max_ram_bytes :: u64
  expansion_work_bytes :: u64
  ram_tier_bytes :: u64
  trylocks :: nat
  mallocs :: nat

definition new_file :: file_possibility where
  "new_file = \<lparr>fp_file = [], fp_sort_state = FILE_SORT_UNKNOWN\<rparr>"

text \<open>\<open>memory\<close> says whether the allocations succeed.\<close>

definition datamanager_configure_stock_files :: "bool \<Rightarrow> int \<Rightarrow> stock \<Rightarrow> int \<times> stock" where
  "datamanager_configure_stock_files memory n s =
     (if n \<le> 0 then (-1, s)
      else (let k = min (nat n) NB_FILE_POSSIBILITY_MAX; cap = length (s_pool s False) in
        if k > cap
        then (if memory
              then (0, s\<lparr>nb_file_possibility := k, s_pool := (\<lambda>c. s_pool s c @ replicate (k - cap) new_file)\<rparr>)
              else (-1, s))
        else (0, s\<lparr>nb_file_possibility := k\<rparr>)))"

definition datamanager_rr_next_start :: "u32 \<Rightarrow> nat \<Rightarrow> nat \<times> u32" where
  "datamanager_rr_next_start counter n = (if n = 0 then (0, counter) else (unat (counter mod of_nat n), counter + 1))"

definition trylock :: "os \<Rightarrow> stock \<Rightarrow> bool \<times> stock" where
  "trylock os s = (os_trylock os (trylocks s), s\<lparr>trylocks := Suc (trylocks s)\<rparr>)"

definition file_of :: "bool \<Rightarrow> nat \<Rightarrow> stock \<Rightarrow> u8 list list" where
  "file_of c f s = fp_file (s_pool s c ! f)"

definition set_file :: "bool \<Rightarrow> nat \<Rightarrow> u8 list list \<Rightarrow> stock \<Rightarrow> stock" where
  "set_file c f q s = s\<lparr>s_pool := (s_pool s)(c := (s_pool s c)[f := (s_pool s c ! f)\<lparr>fp_file := q\<rparr>])\<rparr>"

definition set_sort_state :: "bool \<Rightarrow> nat \<Rightarrow> file_sort_state \<Rightarrow> stock \<Rightarrow> stock" where
  "set_sort_state c f st s = s\<lparr>s_pool := (s_pool s)(c := (s_pool s c)[f := (s_pool s c ! f)\<lparr>fp_sort_state := st\<rparr>])\<rparr>"

definition record_rate :: "stock_rate_counter \<Rightarrow> nat \<Rightarrow> nat \<Rightarrow> stock_rate_counter" where
  "record_rate counter k now = the (stock_rate_record (Some counter) k now)"

section \<open>Memory in use\<close>

definition element_overhead_bytes :: u64 where
  "element_overhead_bytes = sizeof_Element + 2 * DATAMANAGER_MALLOC_OVERHEAD"

definition file_bytes :: "u8 list list \<Rightarrow> u64" where
  "file_bytes q = of_nat (sum_list (map length q))"

definition pool_resident_bytes :: "bool \<Rightarrow> stock \<Rightarrow> u64" where
  "pool_resident_bytes c s =
     fold (\<lambda>f total. total + (file_bytes (file_of c f s) + of_nat (length (file_of c f s)) * element_overhead_bytes))
       [0..<nb_file_possibility s] 0"

definition pools_resident_bytes :: "stock \<Rightarrow> u64" where
  "pools_resident_bytes s = pool_resident_bytes False s + pool_resident_bytes True s"

definition datamanager_resident_bytes :: "stock \<Rightarrow> u64" where
  "datamanager_resident_bytes s = pools_resident_bytes s + expansion_work_bytes s + ram_tier_bytes s"

definition datamanager_configure_ram_limit :: "int \<Rightarrow> stock \<Rightarrow> stock" where
  "datamanager_configure_ram_limit megabytes s =
     s\<lparr>stock_max_ram_bytes := (if megabytes > 0 then of_int megabytes * 1024 * 1024 else 0)\<rparr>"

definition datamanager_has_ram_headroom :: "stock \<Rightarrow> bool" where
  "datamanager_has_ram_headroom s \<longleftrightarrow> stock_max_ram_bytes s = 0 \<or> datamanager_resident_bytes s < stock_max_ram_bytes s"

definition datamanager_ram_tier_bytes_add :: "u64 \<Rightarrow> stock \<Rightarrow> stock" where
  "datamanager_ram_tier_bytes_add delta s = s\<lparr>ram_tier_bytes := ram_tier_bytes s + delta\<rparr>"

definition datas_size :: "stock \<Rightarrow> u64" where
  "datas_size s = fold (\<lambda>f result. result + of_nat (length (file_of False f s)) + of_nat (length (file_of True f s)))
     [0..<nb_file_possibility s] 0"

section \<open>Records in and out of a queue\<close>

definition pool_put :: "nat \<Rightarrow> os \<Rightarrow> bool \<Rightarrow> nat \<Rightarrow> possibility_packet \<Rightarrow> stock \<Rightarrow> bool \<times> stock" where
  "pool_put n os c f packet s =
     (case packet_codec_encode n packet (PACKET_CODEC_MAX_BYTES n) of
        None \<Rightarrow> (False, s)
      | Some rcd \<Rightarrow> (let (r, q) = put_record (os_malloc os (mallocs s)) rcd (file_of c f s)
                     in (r, (set_file c f q s)\<lparr>mallocs := Suc (mallocs s)\<rparr>)))"

text \<open>A record that does not decode is removed and lost.\<close>

definition decode_taken :: "nat \<Rightarrow> u8 list option \<Rightarrow> possibility_packet option" where
  "decode_taken n r = (case r of None \<Rightarrow> None
     | Some rcd \<Rightarrow> (case packet_codec_decode n rcd of Inl _ \<Rightarrow> None | Inr (p, _) \<Rightarrow> Some p))"

definition pool_scroll :: "nat \<Rightarrow> bool \<Rightarrow> nat \<Rightarrow> stock \<Rightarrow> possibility_packet option \<times> stock" where
  "pool_scroll n c f s = (let (r, q) = scroll_record (PACKET_CODEC_MAX_BYTES n) (file_of c f s) in (decode_taken n r, set_file c f q s))"

definition pool_scroll_fifo :: "nat \<Rightarrow> bool \<Rightarrow> nat \<Rightarrow> stock \<Rightarrow> possibility_packet option \<times> stock" where
  "pool_scroll_fifo n c f s = (let (r, q) = scroll_fifo_record (PACKET_CODEC_MAX_BYTES n) (file_of c f s) in (decode_taken n r, set_file c f q s))"

section \<open>Insertion\<close>

definition wanted :: "bool \<Rightarrow> possibility_packet \<Rightarrow> bool" where
  "wanted c p \<longleftrightarrow> (checked p = 1) = c"

definition incoming_bytes :: "nat \<Rightarrow> bool \<Rightarrow> possibility_packet list \<Rightarrow> u64" where
  "incoming_bytes n c ps = fold (\<lambda>p total. if wanted c p then total + (element_overhead_bytes + of_nat (packet_codec_encoded_size n p)) else total) ps 0"

definition insert_packet :: "nat \<Rightarrow> os \<Rightarrow> bool \<Rightarrow> nat \<Rightarrow> possibility_packet \<Rightarrow> stock \<Rightarrow> stock" where
  "insert_packet n os c f p s = snd (pool_put n os c f p (s\<lparr>max_result := max (max_result s) (alloc p)\<rparr>))"

text \<open>What is done under the lock of queue \<open>f\<close>, and the two counters afterwards.\<close>

definition insert_wanted :: "nat \<Rightarrow> os \<Rightarrow> nat \<Rightarrow> bool \<Rightarrow> possibility_packet list \<Rightarrow> nat \<Rightarrow> stock \<Rightarrow> stock" where
  "insert_wanted n os now c ps f s =
     (let s1 = fold (\<lambda>p s. if wanted c p then insert_packet n os c f p s else s) ps s;
          s2 = set_sort_state c f FILE_SORT_UNKNOWN s1;
          k = length (filter (wanted c) ps)
      in s2\<lparr>stock_adds_rate := record_rate (stock_adds_rate s2) k now,
            pool_adds_rate := (pool_adds_rate s2)(c := record_rate (pool_adds_rate s2 c) k now)\<rparr>)"

text \<open>The search for a free queue. The count of the sweeps is made after a success too.\<close>

function put_attempts ::
  "nat \<Rightarrow> os \<Rightarrow> nat \<Rightarrow> bool \<Rightarrow> possibility_packet list \<Rightarrow> nat \<Rightarrow> nat \<Rightarrow> nat \<Rightarrow> stock \<Rightarrow> int \<times> stock" where
  "put_attempts n os now c ps currfile tried failed_sweeps s =
     (let (free, s1) = trylock os s;
          s2 = (if free then insert_wanted n os now c ps currfile s1 else s1);
          nb = nb_file_possibility s
      in if Suc tried \<ge> nb
         then (if Suc failed_sweeps \<ge> DATAMANAGER_TRYLOCK_MAX_SWEEPS then (DATAMANAGER_ADD_REFUSED_POOL_LOCKED, s2)
               else if free then (DATAMANAGER_ADD_OK, s2)
               else put_attempts n os now c ps ((currfile + 1) mod nb) 0 (Suc failed_sweeps) s2)
         else if free then (DATAMANAGER_ADD_OK, s2)
         else put_attempts n os now c ps ((currfile + 1) mod nb) (Suc tried) failed_sweeps s2)"
  by pat_completeness auto
termination
  by (relation "inv_image (less_than <*lex*> less_than)
        (\<lambda>(n, os, now, c, ps, currfile, tried, failed_sweeps, s).
           (DATAMANAGER_TRYLOCK_MAX_SWEEPS - failed_sweeps, nb_file_possibility s - tried))")
    (auto simp: trylock_def)

declare put_attempts.simps [simp del]

definition put_to_pool :: "nat \<Rightarrow> os \<Rightarrow> nat \<Rightarrow> possibility_packet list \<Rightarrow> bool \<Rightarrow> stock \<Rightarrow> int \<times> stock" where
  "put_to_pool n os now ps c s =
     (if filter (wanted c) ps = [] then (0, s)
      else if stock_max_ram_bytes s > 0 \<and> datamanager_resident_bytes s + incoming_bytes n c ps > stock_max_ram_bytes s
      then (DATAMANAGER_ADD_REFUSED_RAM_CAP, s)
      else (let (start, rr) = datamanager_rr_next_start (rr_put s c) (nb_file_possibility s)
            in put_attempts n os now c ps start 0 0 (s\<lparr>rr_put := (rr_put s)(c := rr)\<rparr>)))"

definition put_to_local :: "nat \<Rightarrow> os \<Rightarrow> nat \<Rightarrow> possibility_packet list option \<Rightarrow> stock \<Rightarrow> int \<times> stock" where
  "put_to_local n os now possibilities s =
     (case possibilities of None \<Rightarrow> (0, s)
      | Some ps \<Rightarrow>
          (let (err_unchecked, s1) = put_to_pool n os now ps False s;
               (err_checked, s2) = put_to_pool n os now ps True s1
           in (if err_unchecked = DATAMANAGER_ADD_REFUSED_RAM_CAP \<or> err_checked = DATAMANAGER_ADD_REFUSED_RAM_CAP
               then DATAMANAGER_ADD_REFUSED_RAM_CAP
               else if err_unchecked \<noteq> DATAMANAGER_ADD_OK \<or> err_checked \<noteq> DATAMANAGER_ADD_OK
               then DATAMANAGER_ADD_REFUSED_POOL_LOCKED
               else DATAMANAGER_ADD_OK, s2)))"

text \<open>\<open>remote\<close> is \<open>put_to_server\<close>, present when there is a server address and a connection.\<close>

definition add_possibility ::
  "nat \<Rightarrow> os \<Rightarrow> nat \<Rightarrow> (possibility_packet list option \<Rightarrow> int) option \<Rightarrow> possibility_packet list option \<Rightarrow> stock \<Rightarrow> int \<times> stock" where
  "add_possibility n os now remote possibilities s =
     (case remote of Some put_to_server \<Rightarrow> (put_to_server possibilities, s) | None \<Rightarrow> put_to_local n os now possibilities s)"

section \<open>Extraction\<close>

text \<open>Up to \<open>k\<close> positions of queue \<open>f\<close>. Each is put in a temporary queue, which needs memory.\<close>

primrec scroll_file :: "nat \<Rightarrow> os \<Rightarrow> bool \<Rightarrow> nat \<Rightarrow> nat \<Rightarrow> stock \<Rightarrow> possibility_packet list \<times> stock" where
  "scroll_file n os c f 0 s = ([], s)"
| "scroll_file n os c f (Suc k) s =
     (case pool_scroll n c f s of
        (None, s1) \<Rightarrow> ([], s1)
      | (Some p, s1) \<Rightarrow>
          (let (ps, s2) = scroll_file n os c f k (s1\<lparr>mallocs := Suc (mallocs s1)\<rparr>)
           in (if os_malloc os (mallocs s1) then p # ps else ps, s2)))"

text \<open>The temporary queue is emptied from its end, which restores the order of the queue.\<close>

definition take_from_file ::
  "nat \<Rightarrow> os \<Rightarrow> nat \<Rightarrow> bool \<Rightarrow> nat \<Rightarrow> nat \<Rightarrow> stock \<Rightarrow> possibility_packet list \<times> stock" where
  "take_from_file n os now c mx f s =
     (let (ps, s1) = scroll_file n os c f mx s
      in if ps = [] then ([], s1)
         else (rev ps, s1\<lparr>stock_removes_rate := record_rate (stock_removes_rate s1) (length ps) now,
                          pool_removes_rate := (pool_removes_rate s1)(c := record_rate (pool_removes_rate s1 c) (length ps) now)\<rparr>))"

text \<open>One turn over the queues that were not tested yet: the first that can be locked is tested.\<close>

fun scroll_sweep ::
  "nat \<Rightarrow> os \<Rightarrow> nat \<Rightarrow> bool \<Rightarrow> nat \<Rightarrow> nat \<Rightarrow> nat list \<Rightarrow> (nat \<Rightarrow> bool) \<Rightarrow> stock
     \<Rightarrow> possibility_packet list option \<times> (nat \<Rightarrow> bool) \<times> stock" where
  "scroll_sweep n os now c mx start [] filetested s = (None, filetested, s)"
| "scroll_sweep n os now c mx start (k # ks) filetested s =
     (let f = (start + k) mod nb_file_possibility s in
      if filetested f then scroll_sweep n os now c mx start ks filetested s
      else (let (free, s1) = trylock os s in
        if free then (let (ps, s2) = take_from_file n os now c mx f s1 in (Some ps, filetested(f := True), s2))
        else scroll_sweep n os now c mx start ks filetested s1))"

section \<open>What the operations leave alone\<close>

lemma nb_set_file [simp]: "nb_file_possibility (set_file c f q s) = nb_file_possibility s"
  by (simp add: set_file_def)

lemma nb_pool_scroll [simp]: "pool_scroll n c f s = (r, s') \<Longrightarrow> nb_file_possibility s' = nb_file_possibility s"
  by (auto simp: pool_scroll_def split: prod.splits)

lemma nb_scroll_file: "scroll_file n os c f k s = (ps, s') \<Longrightarrow> nb_file_possibility s' = nb_file_possibility s"
proof (induction k arbitrary: s ps)
  case (Suc k)
  obtain r s1 where r: "pool_scroll n c f s = (r, s1)" by fastforce
  then show ?case using Suc by (cases r) (auto split: prod.splits if_splits)
qed simp

lemma nb_take_from_file: "take_from_file n os now c mx f s = (ps, s') \<Longrightarrow> nb_file_possibility s' = nb_file_possibility s"
  by (auto simp: take_from_file_def Let_def dest: nb_scroll_file split: prod.splits if_splits)

definition untested :: "nat \<Rightarrow> (nat \<Rightarrow> bool) \<Rightarrow> nat" where
  "untested nb filetested = card {f. f < nb \<and> \<not> filetested f}"

lemma untested_update: "f < nb \<Longrightarrow> \<not> t f \<Longrightarrow> untested nb (t(f := True)) < untested nb t"
  unfolding untested_def by (rule psubset_card_mono) auto

lemma scroll_sweep_progress:
  assumes "scroll_sweep n os now c mx start ks t s = (r, t', s')" "0 < nb_file_possibility s \<or> ks = []"
  shows "nb_file_possibility s' = nb_file_possibility s
    \<and> (case r of None \<Rightarrow> t' = t | Some _ \<Rightarrow> untested (nb_file_possibility s) t' < untested (nb_file_possibility s) t)"
  using assms
proof (induction ks arbitrary: s)
  case (Cons k ks)
  have nb: "(start + k) mod nb_file_possibility s < nb_file_possibility s" using Cons.prems(2) by simp
  let ?f = "(start + k) mod nb_file_possibility s"
  consider "t ?f" | "\<not> t ?f" "os_trylock os (trylocks s)" | "\<not> t ?f" "\<not> os_trylock os (trylocks s)" by blast
  then show ?case
  proof cases
    case 1
    then show ?thesis using Cons.prems Cons.IH[of s] by (simp add: Let_def)
  next
    case 2
    then show ?thesis using Cons.prems untested_update[OF nb, of t]
      by (auto simp: Let_def trylock_def dest!: nb_take_from_file split: prod.splits)
  next
    case 3
    then show ?thesis using Cons.prems Cons.IH[of "s\<lparr>trylocks := Suc (trylocks s)\<rparr>"]
      by (auto simp: Let_def trylock_def split: option.splits)
  qed
qed simp

function scroll_attempts ::
  "nat \<Rightarrow> os \<Rightarrow> nat \<Rightarrow> bool \<Rightarrow> nat \<Rightarrow> nat \<Rightarrow> (nat \<Rightarrow> bool) \<Rightarrow> nat \<Rightarrow> stock \<Rightarrow> possibility_packet list \<times> stock" where
  "scroll_attempts n os now c mx start filetested failed_sweeps s =
     (case scroll_sweep n os now c mx start [0..<nb_file_possibility s] filetested s of
        (None, t, s1) \<Rightarrow>
          (if Suc failed_sweeps \<ge> DATAMANAGER_TRYLOCK_MAX_SWEEPS then ([], s1)
           else scroll_attempts n os now c mx start t (Suc failed_sweeps) s1)
      | (Some ps, t, s1) \<Rightarrow>
          (if ps = [] \<and> \<not> list_all t [0..<nb_file_possibility s]
           then scroll_attempts n os now c mx start t failed_sweeps s1
           else (ps, s1)))"
  by pat_completeness auto
termination
proof (relation "inv_image (less_than <*lex*> less_than)
    (\<lambda>(n, os, now, c, mx, start, t, failed, s). (untested (nb_file_possibility s) t, DATAMANAGER_TRYLOCK_MAX_SWEEPS - failed))", goal_cases)
  case (2 n os now c mx start t failed s x y t' s1)
  then show ?case using scroll_sweep_progress[of n os now c mx start "[0..<nb_file_possibility s]" t s x t' s1] by (cases "nb_file_possibility s = 0") auto
next
  case (3 n os now c mx start t failed s x y ps t' s1)
  then show ?case using scroll_sweep_progress[of n os now c mx start "[0..<nb_file_possibility s]" t s x t' s1] by (cases "nb_file_possibility s = 0") auto
qed auto

declare scroll_attempts.simps [simp del]

definition scroll_from_pool ::
  "nat \<Rightarrow> os \<Rightarrow> nat \<Rightarrow> bool \<Rightarrow> nat \<Rightarrow> stock \<Rightarrow> possibility_packet list \<times> stock" where
  "scroll_from_pool n os now c mx s =
     (let (start, rr) = datamanager_rr_next_start (rr_scroll s c) (nb_file_possibility s)
      in scroll_attempts n os now c mx start (\<lambda>_. False) 0 (s\<lparr>rr_scroll := (rr_scroll s)(c := rr)\<rparr>))"

definition note_unmet :: "nat \<Rightarrow> bool \<Rightarrow> nat \<Rightarrow> stock \<Rightarrow> stock" where
  "note_unmet now c mx s = s\<lparr>pool_unmet_rate := (pool_unmet_rate s)(c := record_rate (pool_unmet_rate s c) mx now)\<rparr>"

definition scroll_from_local :: "nat \<Rightarrow> os \<Rightarrow> nat \<Rightarrow> nat \<Rightarrow> stock \<Rightarrow> possibility_packet list \<times> stock" where
  "scroll_from_local n os now mx s =
     (let (ps, s1) = scroll_from_pool n os now True mx s;
          (ps', s2) = (if ps = [] then scroll_from_pool n os now False mx s1 else (ps, s1))
      in (ps', if ps' = [] \<and> mx > 0 then note_unmet now True mx s2 else s2))"

definition scroll_from_local_tocheck :: "nat \<Rightarrow> os \<Rightarrow> nat \<Rightarrow> nat \<Rightarrow> stock \<Rightarrow> possibility_packet list \<times> stock" where
  "scroll_from_local_tocheck n os now mx s =
     (let (ps, s1) = scroll_from_pool n os now False mx s
      in (ps, if ps = [] \<and> mx > 0 then note_unmet now False mx s1 else s1))"

text \<open>\<open>remote\<close> is \<open>scroll_from_server\<close>, present when there is a server address.\<close>

definition get_last_possibility ::
  "nat \<Rightarrow> os \<Rightarrow> nat \<Rightarrow> (nat \<Rightarrow> possibility_packet list) option \<Rightarrow> nat \<Rightarrow> stock \<Rightarrow> possibility_packet list \<times> bool \<times> stock" where
  "get_last_possibility n os now remote mx s =
     (let (ps, s1) = scroll_from_local n os now mx s
      in case remote of None \<Rightarrow> (ps, False, s1)
         | Some scroll_from_server \<Rightarrow>
             if ps = [] then (scroll_from_server mx, scroll_from_server mx \<noteq> [], s1) else (ps, False, s1))"

definition get_last_possibility_tocheck :: "nat \<Rightarrow> os \<Rightarrow> nat \<Rightarrow> nat \<Rightarrow> stock \<Rightarrow> possibility_packet list \<times> stock" where
  "get_last_possibility_tocheck n os now mx s = scroll_from_local_tocheck n os now mx s"

section \<open>What the pools hold\<close>

text \<open>The records of a pool, all queues together, and the positions they stand for. A record of
  the stock is the encoding of a position; the positions read back are canonical: their
  counter and used pieces are those of their cells.\<close>

definition stock_packet :: "nat \<Rightarrow> possibility_packet \<Rightarrow> bool" where
  "stock_packet n p \<longleftrightarrow> stream_packet n p \<and> canonical_packet n p = p"

definition good_record :: "nat \<Rightarrow> u8 list \<Rightarrow> bool" where
  "good_record n r \<longleftrightarrow> length r \<le> PACKET_CODEC_MAX_BYTES n \<and> (\<exists>p. stock_packet n p \<and> decode_taken n (Some r) = Some p)"

definition stored :: "nat \<Rightarrow> u8 list \<Rightarrow> possibility_packet" where
  "stored n r = the (decode_taken n (Some r))"

definition pool_records :: "bool \<Rightarrow> stock \<Rightarrow> u8 list list" where
  "pool_records c s = concat (map fp_file (s_pool s c))"

definition content :: "nat \<Rightarrow> bool \<Rightarrow> stock \<Rightarrow> possibility_packet multiset" where
  "content n c s = image_mset (stored n) (mset (pool_records c s))"

definition stock_ok :: "nat \<Rightarrow> stock \<Rightarrow> bool" where
  "stock_ok n s \<longleftrightarrow> 0 < nb_file_possibility s \<and> (\<forall>c. nb_file_possibility s \<le> length (s_pool s c))
     \<and> (\<forall>c. \<forall>r \<in> set (pool_records c s). good_record n r)"

lemma canonical_idem: "canonical_packet n (canonical_packet n p) = canonical_packet n p"
  by (simp add: canonical_packet_def possibility_placed_count_def grid_at_def)

lemma canonical_stock: "stream_packet n p \<Longrightarrow> stock_packet n (canonical_packet n p)"
  using canonical_idem by (auto simp: stock_packet_def stream_packet_def header_ok_def) (simp_all add: canonical_packet_def)

lemma max_bytes_small: "n \<le> 16 \<Longrightarrow> PACKET_CODEC_MAX_BYTES n \<le> 65535"
proof -
  assume n: "n \<le> 16"
  have "n * n \<le> 16 * 16" using n by (intro mult_mono) auto
  then have "PACKET_CODEC_BITMAP_BYTES n \<le> 32" and "PACKET_CODEC_VALUE_BYTES n (n * n) \<le> PACKET_CODEC_VALUE_BYTES n 256"
    using value_bytes_mono[of "n * n" 256 n] by (simp_all add: PACKET_CODEC_BITMAP_BYTES_def)
  moreover have "PACKET_CODEC_VALUE_BYTES n 256 \<le> 384"
    using value_bits_range(2)[of n] by (simp add: PACKET_CODEC_VALUE_BYTES_def)
  ultimately show ?thesis by (simp add: PACKET_CODEC_MAX_BYTES_def PACKET_CODEC_HEADER_BYTES_def)
qed

lemma encode_good:
  assumes "stream_packet n p"
  obtains r where "packet_codec_encode n p (PACKET_CODEC_MAX_BYTES n) = Some r" "record_fits r" "good_record n r" "stored n r = canonical_packet n p"
proof -
  have s: "n \<le> 16" "codec_grid n (grid p)" "header_ok p" using assms by (simp_all add: stream_packet_def)
  obtain r where e: "packet_codec_encode n p (PACKET_CODEC_MAX_BYTES n) = Some r"
    using encode_exists[OF s(1,2) encoded_size_bound[OF s(2)]] .
  have len: "length r \<le> PACKET_CODEC_MAX_BYTES n" using codec_roundtrip(2)[OF s e] encoded_size_bound[OF s(2)] by simp
  have "decode_taken n (Some r) = Some (canonical_packet n p)" using codec_roundtrip(1)[OF s e, of "[]"] by (simp add: decode_taken_def)
  moreover have "0 < length r" using encoded_peek(2)[OF s e] by (cases r) (simp_all add: PACKET_CODEC_HEADER_BYTES_def)
  ultimately show ?thesis using that[OF e] len max_bytes_small[OF s(1)] canonical_stock[OF assms]
    by (auto simp: record_fits_def good_record_def stored_def)
qed

lemma mset_concat_update:
  assumes "i < length xs"
  shows "mset (concat (map f (xs[i := y]))) + mset (f (xs ! i)) = mset (concat (map f xs)) + mset (f y)"
proof -
  have "xs = take i xs @ xs ! i # drop (Suc i) xs" using assms by (rule id_take_nth_drop)
  then have "mset (concat (map f xs)) = mset (concat (map f (take i xs))) + mset (f (xs ! i)) + mset (concat (map f (drop (Suc i) xs)))"
    by (metis concat.simps(2) concat_append list.simps(9) map_append mset_append add.assoc)
  then show ?thesis using assms by (simp add: upd_conv_take_nth_drop)
qed

text \<open>Replacing the records of one queue, and changes that do not touch the queues.\<close>

lemma content_set_file:
  assumes "f < length (s_pool s c)"
  shows "content n c (set_file c f q s) + image_mset (stored n) (mset (file_of c f s)) = content n c s + image_mset (stored n) (mset q)"
proof -
  let ?x = "(s_pool s c ! f)\<lparr>fp_file := q\<rparr>"
  have "content n c (set_file c f q s) + image_mset (stored n) (mset (file_of c f s))
      = image_mset (stored n) (mset (concat (map fp_file ((s_pool s c)[f := ?x]))) + mset (fp_file (s_pool s c ! f)))"
    by (simp add: content_def pool_records_def set_file_def file_of_def)
  also have "\<dots> = content n c s + image_mset (stored n) (mset q)"
    unfolding mset_concat_update[OF assms] by (simp add: content_def pool_records_def)
  finally show ?thesis .
qed

lemma records_set_file:
  assumes "f < length (s_pool s c)"
  shows "set (pool_records c' (set_file c f q s)) \<subseteq> set (pool_records c' s) \<union> (if c' = c then set q else {})"
  using set_update_subset_insert[of "s_pool s c" f "(s_pool s c ! f)\<lparr>fp_file := q\<rparr>"]
  by (auto simp: pool_records_def set_file_def)

lemma file_records: "f < length (s_pool s c) \<Longrightarrow> set (file_of c f s) \<subseteq> set (pool_records c s)"
  by (auto simp: pool_records_def file_of_def intro!: bexI[of _ "s_pool s c ! f"])

lemma set_file_simps [simp]:
  "c' \<noteq> c \<Longrightarrow> content n c' (set_file c f q s) = content n c' s"
  "length (s_pool (set_file c f q s) c') = length (s_pool s c')"
  "f < length (s_pool s c) \<Longrightarrow> file_of c f (set_file c f q s) = q"
  "f' \<noteq> f \<Longrightarrow> file_of c f' (set_file c f q s) = file_of c f' s"
  "c' \<noteq> c \<Longrightarrow> file_of c' f' (set_file c f q s) = file_of c' f' s"
  by (auto simp: content_def pool_records_def set_file_def file_of_def)

text \<open>Two states whose queues hold the same records.\<close>

definition same_files :: "stock \<Rightarrow> stock \<Rightarrow> bool" where
  "same_files s s' \<longleftrightarrow> nb_file_possibility s' = nb_file_possibility s \<and> (\<forall>c. map fp_file (s_pool s' c) = map fp_file (s_pool s c))"

lemma same_filesD:
  assumes "same_files s s'"
  shows "content n c s' = content n c s" "stock_ok n s' = stock_ok n s" "f < length (s_pool s c) \<Longrightarrow> file_of c f s' = file_of c f s"
    "length (s_pool s' c) = length (s_pool s c)" "nb_file_possibility s' = nb_file_possibility s"
proof -
  have l: "length (s_pool s' c) = length (s_pool s c)" for c using assms by (metis same_files_def length_map)
  have r: "pool_records c s' = pool_records c s" for c using assms by (simp add: same_files_def pool_records_def)
  show "content n c s' = content n c s" "stock_ok n s' = stock_ok n s" "nb_file_possibility s' = nb_file_possibility s"
    using assms l r by (simp_all add: content_def stock_ok_def same_files_def)
  show "length (s_pool s' c) = length (s_pool s c)" by (rule l)
  show "file_of c f s' = file_of c f s" if "f < length (s_pool s c)"
  proof -
    have "map fp_file (s_pool s' c) ! f = map fp_file (s_pool s c) ! f" using assms by (simp add: same_files_def)
    then show ?thesis using that l by (simp add: file_of_def)
  qed
qed

lemma same_filesI: "nb_file_possibility s' = nb_file_possibility s \<Longrightarrow> s_pool s' = s_pool s \<Longrightarrow> same_files s s'"
  by (simp add: same_files_def)

lemma same_files_fields [simp]:
  "same_files s (s\<lparr>mallocs := k\<rparr>)" "same_files s (s\<lparr>trylocks := k\<rparr>)" "same_files s (s\<lparr>max_result := k\<rparr>)"
  "same_files s (s\<lparr>rr_put := rr\<rparr>)" "same_files s (s\<lparr>rr_scroll := rr\<rparr>)"
  "same_files s (s\<lparr>stock_adds_rate := r, pool_adds_rate := rs\<rparr>)"
  "same_files s (s\<lparr>stock_removes_rate := r, pool_removes_rate := rs\<rparr>)" "same_files s (s\<lparr>pool_unmet_rate := rs\<rparr>)"
  by (simp_all add: same_files_def)

lemma same_files_trans: "same_files s s' \<Longrightarrow> same_files s' s'' \<Longrightarrow> same_files s s''"
  by (simp add: same_files_def)

lemma map_update_same: "g y = g (xs ! i) \<Longrightarrow> map g (xs[i := y]) = map g xs"
  by (cases "i < length xs") (metis list_update_id map_update, simp add: list_update_beyond)

lemma sort_state_same: "same_files s (set_sort_state c f st s)"
  by (simp add: same_files_def set_sort_state_def map_update_same)

lemma trylock_same: "trylock os s = (b, s') \<Longrightarrow> same_files s s'"
  by (auto simp: trylock_def same_files_def)

lemma stock_ok_index: "stock_ok n s \<Longrightarrow> f < nb_file_possibility s \<Longrightarrow> f < length (s_pool s c)"
  unfolding stock_ok_def by (meson less_le_trans)

lemma stock_ok_record: "stock_ok n s \<Longrightarrow> f < nb_file_possibility s \<Longrightarrow> r \<in> set (file_of c f s) \<Longrightarrow> good_record n r"
  using file_records[OF stock_ok_index, of n s f c] by (auto simp: stock_ok_def)

lemma stock_ok_set_file:
  assumes "stock_ok n s" "f < nb_file_possibility s" "\<forall>r \<in> set q. good_record n r"
  shows "stock_ok n (set_file c f q s)"
proof -
  have "good_record n r" if "r \<in> set (pool_records c' (set_file c f q s))" for r c'
    using that records_set_file[OF stock_ok_index[OF assms(1,2)], of c' c q] assms(1,3) by (auto simp: stock_ok_def split: if_splits)
  then show ?thesis using assms(1) by (simp add: stock_ok_def)
qed

section \<open>Operations on the content\<close>

text \<open>\<open>transfers n s ps s'\<close>: both states are sound and the positions \<open>ps c\<close> have been added to pool \<open>c\<close>.\<close>

definition adds :: "nat \<Rightarrow> stock \<Rightarrow> (bool \<Rightarrow> possibility_packet multiset) \<Rightarrow> stock \<Rightarrow> bool" where
  "adds n s ps s' \<longleftrightarrow> stock_ok n s' \<and> nb_file_possibility s' = nb_file_possibility s \<and> (\<forall>c. content n c s' = content n c s + ps c)"

definition only :: "bool \<Rightarrow> 'b multiset \<Rightarrow> bool \<Rightarrow> 'b multiset" where
  "only c A c' = (if c' = c then A else {#})"

lemma only_empty [simp]: "only c {#} = (\<lambda>_. {#})"
  by (auto simp: only_def)

lemma adds_refl: "stock_ok n s \<Longrightarrow> adds n s (\<lambda>_. {#}) s"
  by (simp add: adds_def)

lemma adds_trans: "adds n s A s' \<Longrightarrow> adds n s' B s'' \<Longrightarrow> adds n s (\<lambda>c. A c + B c) s''"
  by (simp add: adds_def ac_simps)

lemma adds_same: "adds n s A s' \<Longrightarrow> same_files s' s'' \<Longrightarrow> adds n s A s''"
  using same_filesD[of s' s''] by (simp add: adds_def)

lemma same_adds: "same_files s s' \<Longrightarrow> adds n s' A s'' \<Longrightarrow> adds n s A s''"
  using same_filesD[of s s'] by (simp add: adds_def)

lemma pool_put_spec:
  assumes ok: "stock_ok n s" and f: "f < nb_file_possibility s" and p: "stream_packet n p" and m: "os_malloc os (mallocs s)"
  shows "fst (pool_put n os c f p s)" "adds n s (only c {#canonical_packet n p#}) (snd (pool_put n os c f p s))"
proof -
  obtain r where r: "packet_codec_encode n p (PACKET_CODEC_MAX_BYTES n) = Some r" "record_fits r" "good_record n r" "stored n r = canonical_packet n p"
    by (rule encode_good[OF p])
  let ?q = "file_of c f s @ [r]"
  have e: "pool_put n os c f p s = (True, (set_file c f ?q s)\<lparr>mallocs := Suc (mallocs s)\<rparr>)"
    using r m by (simp add: pool_put_def put_record_def)
  note fl = stock_ok_index[OF ok f]
  have "stock_ok n (set_file c f ?q s)"
    by (rule stock_ok_set_file[OF ok f]) (use r(3) stock_ok_record[OF ok f] in auto)
  moreover have "content n c (set_file c f ?q s) = content n c s + {#canonical_packet n p#}"
    using content_set_file[OF fl, of n c ?q] r(4) by simp
  ultimately have "adds n s (only c {#canonical_packet n p#}) (set_file c f ?q s)" by (auto simp: adds_def only_def)
  then show "adds n s (only c {#canonical_packet n p#}) (snd (pool_put n os c f p s))"
    unfolding e snd_conv by (rule adds_same) simp
  show "fst (pool_put n os c f p s)" by (simp add: e)
qed

lemma pool_put_fails:
  assumes "stream_packet n p" "\<not> os_malloc os (mallocs s)"
  shows "\<not> fst (pool_put n os c f p s) \<and> same_files s (snd (pool_put n os c f p s))"
  using assms(2) encode_good[OF assms(1)]
  by (auto simp: pool_put_def put_record_def set_file_def same_files_def file_of_def map_update_same split: option.splits)

text \<open>Memory does not run out.\<close>

definition memory :: "os \<Rightarrow> bool" where
  "memory os \<longleftrightarrow> (\<forall>k. os_malloc os k)"

abbreviation canon_mset :: "nat \<Rightarrow> possibility_packet list \<Rightarrow> possibility_packet multiset" where
  "canon_mset n ps \<equiv> image_mset (canonical_packet n) (mset ps)"

lemma insert_packet_adds:
  assumes "stock_ok n s" "f < nb_file_possibility s" "stream_packet n p" "memory os"
  shows "adds n s (only c {#canonical_packet n p#}) (insert_packet n os c f p s)"
proof -
  let ?s = "s\<lparr>max_result := max (max_result s) (alloc p)\<rparr>"
  have same: "same_files s ?s" by simp
  from same_filesD[OF same] show ?thesis
    using pool_put_spec(2)[of n ?s f p os c] assms by (intro same_adds[OF same]) (simp add: insert_packet_def memory_def)
qed

lemma insert_all_adds:
  assumes "stock_ok n s" "f < nb_file_possibility s" "list_all (stream_packet n) ps" "memory os"
  shows "adds n s (only c (canon_mset n (filter (wanted c) ps))) (fold (\<lambda>p s. if wanted c p then insert_packet n os c f p s else s) ps s)"
  using assms(1-3)
proof (induction ps arbitrary: s)
  case (Cons p ps)
  show ?case
  proof (cases "wanted c p")
    case True
    note one = insert_packet_adds[OF Cons.prems(1,2) _ assms(4), of p c]
    have "adds n s (\<lambda>c'. only c {#canonical_packet n p#} c' + only c (canon_mset n (filter (wanted c) ps)) c')
      (fold (\<lambda>p s. if wanted c p then insert_packet n os c f p s else s) ps (insert_packet n os c f p s))"
      by (rule adds_trans[OF one Cons.IH]) (use Cons.prems one in \<open>auto simp: adds_def\<close>)
    moreover have "(\<lambda>c'. only c {#canonical_packet n p#} c' + only c (canon_mset n (filter (wanted c) ps)) c') = only c (canon_mset n (filter (wanted c) (p # ps)))"
      using True by (auto simp: only_def)
    ultimately show ?thesis using True by simp
  qed (use Cons in simp)
qed (simp add: adds_refl)

lemma insert_wanted_adds:
  assumes "stock_ok n s" "f < nb_file_possibility s" "list_all (stream_packet n) ps" "memory os"
  shows "adds n s (only c (canon_mset n (filter (wanted c) ps))) (insert_wanted n os now c ps f s)"
proof -
  let ?s = "fold (\<lambda>p s. if wanted c p then insert_packet n os c f p s else s) ps s"
  have "adds n s (only c (canon_mset n (filter (wanted c) ps))) (set_sort_state c f FILE_SORT_UNKNOWN ?s)"
    by (rule adds_same[OF insert_all_adds[OF assms] sort_state_same])
  from adds_same[OF this] show ?thesis by (simp add: insert_wanted_def Let_def)
qed

text \<open>The search for a free queue ends with the positions inserted once, or not at all.\<close>

lemma put_attempts_step:
  "put_attempts n os now c ps currfile tried failed s =
     (let s1 = s\<lparr>trylocks := Suc (trylocks s)\<rparr>; nb = nb_file_possibility s; full = (Suc tried \<ge> nb) in
      if os_trylock os (trylocks s)
      then (if full \<and> Suc failed \<ge> DATAMANAGER_TRYLOCK_MAX_SWEEPS then DATAMANAGER_ADD_REFUSED_POOL_LOCKED else DATAMANAGER_ADD_OK,
            insert_wanted n os now c ps currfile s1)
      else if full \<and> Suc failed \<ge> DATAMANAGER_TRYLOCK_MAX_SWEEPS then (DATAMANAGER_ADD_REFUSED_POOL_LOCKED, s1)
      else put_attempts n os now c ps ((currfile + 1) mod nb) (if full then 0 else Suc tried) (if full then Suc failed else failed) s1)"
  by (subst put_attempts.simps) (auto simp: trylock_def Let_def)

lemma put_attempts_outcome:
  "currfile < nb_file_possibility s \<Longrightarrow> put_attempts n os now c ps currfile tried failed s = (r, s') \<Longrightarrow>
    (\<exists>k. r = DATAMANAGER_ADD_REFUSED_POOL_LOCKED \<and> s' = s\<lparr>trylocks := k\<rparr>)
    \<or> (\<exists>k f. (r = DATAMANAGER_ADD_OK \<or> r = DATAMANAGER_ADD_REFUSED_POOL_LOCKED) \<and> f < nb_file_possibility s
          \<and> s' = insert_wanted n os now c ps f (s\<lparr>trylocks := k\<rparr>))"
proof (induction n os now c ps currfile tried failed s rule: put_attempts.induct)
  case (1 n os now c ps currfile tried failed s)
  let ?s = "s\<lparr>trylocks := Suc (trylocks s)\<rparr>" and ?full = "Suc tried \<ge> nb_file_possibility s"
  let ?t = "if ?full then 0 else Suc tried" and ?f = "if ?full then Suc failed else failed"
  have tl: "trylock os s = (os_trylock os (trylocks s), ?s)" by (simp add: trylock_def)
  consider (free) "os_trylock os (trylocks s)" | (last) "\<not> os_trylock os (trylocks s)" "?full \<and> Suc failed \<ge> DATAMANAGER_TRYLOCK_MAX_SWEEPS"
    | (again) "\<not> os_trylock os (trylocks s)" "\<not> (?full \<and> Suc failed \<ge> DATAMANAGER_TRYLOCK_MAX_SWEEPS)" by blast
  then show ?case
  proof cases
    case free
    then have "s' = insert_wanted n os now c ps currfile ?s \<and> (r = DATAMANAGER_ADD_OK \<or> r = DATAMANAGER_ADD_REFUSED_POOL_LOCKED)"
      using 1(4) by (simp only: put_attempts_step[of n os now c ps currfile tried failed s] Let_def if_True prod.inject) presburger
    then show ?thesis using 1(3) by blast
  next
    case last
    then have "r = DATAMANAGER_ADD_REFUSED_POOL_LOCKED \<and> s' = ?s"
      using 1(4) by (simp only: put_attempts_step[of n os now c ps currfile tried failed s] Let_def if_False if_True prod.inject) simp
    then show ?thesis by blast
  next
    case again
    have put: "put_attempts n os now c ps ((currfile + 1) mod nb_file_possibility s) ?t ?f ?s = (r, s')"
      using 1(4) by (simp only: put_attempts_step[of n os now c ps currfile tried failed s] Let_def again if_False)
    have nb: "(currfile + 1) mod nb_file_possibility s < nb_file_possibility ?s" using 1(3) by simp
    have "(\<exists>k. r = DATAMANAGER_ADD_REFUSED_POOL_LOCKED \<and> s' = ?s\<lparr>trylocks := k\<rparr>)
      \<or> (\<exists>k f. (r = DATAMANAGER_ADD_OK \<or> r = DATAMANAGER_ADD_REFUSED_POOL_LOCKED) \<and> f < nb_file_possibility ?s
            \<and> s' = insert_wanted n os now c ps f (?s\<lparr>trylocks := k\<rparr>))"
    proof (cases ?full)
      case True
      then show ?thesis using 1(1)[OF refl tl[symmetric] refl refl True] again put nb by simp
    next
      case False
      then show ?thesis using 1(2)[OF refl tl[symmetric] refl refl False] again put nb by simp
    qed
    then show ?thesis by simp
  qed
qed

lemma put_attempts_spec:
  assumes ps: "list_all (stream_packet n) ps" and mem: "memory os" and ok: "stock_ok n s" "currfile < nb_file_possibility s"
    and put: "put_attempts n os now c ps currfile tried failed s = (r, s')"
  shows "(r = DATAMANAGER_ADD_OK \<and> adds n s (only c (canon_mset n (filter (wanted c) ps))) s')
    \<or> (r = DATAMANAGER_ADD_REFUSED_POOL_LOCKED
       \<and> (adds n s (\<lambda>_. {#}) s' \<or> adds n s (only c (canon_mset n (filter (wanted c) ps))) s'))"
proof -
  have same: "same_files s (s\<lparr>trylocks := k\<rparr>)" and oks: "stock_ok n (s\<lparr>trylocks := k\<rparr>)" for k
    using same_filesD(2)[of s "s\<lparr>trylocks := k\<rparr>"] ok(1) by simp_all
  have "adds n s (\<lambda>_. {#}) (s\<lparr>trylocks := k\<rparr>)" for k by (rule same_adds[OF same adds_refl[OF oks]])
  moreover have "adds n s (only c (canon_mset n (filter (wanted c) ps))) (insert_wanted n os now c ps f (s\<lparr>trylocks := k\<rparr>))"
    if "f < nb_file_possibility s" for f k
    by (rule same_adds[OF same insert_wanted_adds[OF oks _ ps mem]]) (use that in simp)
  ultimately show ?thesis using put_attempts_outcome[OF ok(2) put] by blast
qed

lemma rr_start_less: "0 < nb \<Longrightarrow> nb < 2 ^ 32 \<Longrightarrow> datamanager_rr_next_start counter nb = (start, rr) \<Longrightarrow> start < nb"
  by (auto simp: datamanager_rr_next_start_def unat_mod unat_of_nat)

definition nb_small :: "stock \<Rightarrow> bool" where
  "nb_small s \<longleftrightarrow> nb_file_possibility s \<le> NB_FILE_POSSIBILITY_MAX"

lemma nb_small_less: "nb_small s \<Longrightarrow> nb_file_possibility s < 2 ^ 32"
  by (simp add: nb_small_def NB_FILE_POSSIBILITY_MAX_def)

lemma put_to_pool_spec:
  assumes ps: "list_all (stream_packet n) ps" "memory os" and ok: "stock_ok n s" "nb_small s" and put: "put_to_pool n os now ps c s = (r, s')"
  shows "(r = DATAMANAGER_ADD_OK \<and> adds n s (only c (canon_mset n (filter (wanted c) ps))) s')
    \<or> (r = DATAMANAGER_ADD_REFUSED_RAM_CAP \<and> s' = s)
    \<or> (r = DATAMANAGER_ADD_REFUSED_POOL_LOCKED
       \<and> (adds n s (\<lambda>_. {#}) s' \<or> adds n s (only c (canon_mset n (filter (wanted c) ps))) s'))"
proof -
  consider (none) "filter (wanted c) ps = []" "r = DATAMANAGER_ADD_OK" "s' = s" | (cap) "r = DATAMANAGER_ADD_REFUSED_RAM_CAP" "s' = s"
    | (attempt) start rr where "datamanager_rr_next_start (rr_put s c) (nb_file_possibility s) = (start, rr)"
        "put_attempts n os now c ps start 0 0 (s\<lparr>rr_put := (rr_put s)(c := rr)\<rparr>) = (r, s')"
    using put by (auto simp: put_to_pool_def DATAMANAGER_ADD_OK_def split: if_splits prod.splits)
  then show ?thesis
  proof cases
    case none
    then show ?thesis using adds_refl[OF ok(1)] by simp
  next
    case attempt
    let ?s = "s\<lparr>rr_put := (rr_put s)(c := rr)\<rparr>"
    have same: "same_files s ?s" by simp
    have "start < nb_file_possibility s" using rr_start_less[OF _ nb_small_less[OF ok(2)] attempt(1)] ok(1) by (simp add: stock_ok_def)
    then have "start < nb_file_possibility ?s" by simp
    from put_attempts_spec[OF ps _ this attempt(2)] same_filesD(2)[OF same] ok(1) same_adds[OF same] show ?thesis by blast
  qed simp
qed

lemma adds_small: "adds n s A s' \<Longrightarrow> nb_small s \<Longrightarrow> nb_small s'"
  by (simp add: adds_def nb_small_def)

lemmas add_codes = DATAMANAGER_ADD_OK_def DATAMANAGER_ADD_REFUSED_RAM_CAP_def DATAMANAGER_ADD_REFUSED_POOL_LOCKED_def

text \<open>\<open>put_to_local\<close>: each pool receives its share whole or nothing; both when the answer is 0.\<close>

lemma put_to_local_spec:
  assumes ps: "list_all (stream_packet n) ps" "memory os" and ok: "stock_ok n s" "nb_small s"
    and put: "put_to_local n os now (Some ps) s = (r, s')"
  shows "\<exists>share. adds n s share s' \<and> (\<forall>c. share c = {#} \<or> share c = canon_mset n (filter (wanted c) ps))
      \<and> (r = DATAMANAGER_ADD_OK \<longrightarrow> (\<forall>c. share c = canon_mset n (filter (wanted c) ps)))"
proof -
  obtain r1 s1 r2 where p1: "put_to_pool n os now ps False s = (r1, s1)" and p2: "put_to_pool n os now ps True s1 = (r2, s')"
    and r: "r = DATAMANAGER_ADD_OK \<longrightarrow> r1 = DATAMANAGER_ADD_OK \<and> r2 = DATAMANAGER_ADD_OK"
    using put by (auto simp: put_to_local_def add_codes split: prod.splits if_splits)
  have one: "\<exists>A. adds n t (only c A) t' \<and> (A = {#} \<or> A = canon_mset n (filter (wanted c) ps)) \<and> (q = DATAMANAGER_ADD_OK \<longrightarrow> A = canon_mset n (filter (wanted c) ps))"
    if "put_to_pool n os now ps c t = (q, t')" "stock_ok n t" "nb_small t" for c t q t'
    using put_to_pool_spec[OF ps that(2,3,1)]
  proof (elim disjE conjE)
    assume "q = DATAMANAGER_ADD_REFUSED_RAM_CAP" "t' = t"
    then show ?thesis using adds_refl[OF that(2)] by (intro exI[of _ "{#}"]) (simp add: add_codes)
  next
    assume "q = DATAMANAGER_ADD_REFUSED_POOL_LOCKED" "adds n t (\<lambda>_. {#}) t'"
    then show ?thesis by (intro exI[of _ "{#}"]) (simp add: add_codes)
  qed blast+
  obtain A where A: "adds n s (only False A) s1" "A = {#} \<or> A = canon_mset n (filter (wanted False) ps)"
    "r1 = DATAMANAGER_ADD_OK \<longrightarrow> A = canon_mset n (filter (wanted False) ps)" using one[OF p1 ok] by blast
  have s1: "stock_ok n s1" "nb_small s1" using A(1) adds_small[OF A(1) ok(2)] by (simp_all add: adds_def)
  obtain B where B: "adds n s1 (only True B) s'" "B = {#} \<or> B = canon_mset n (filter (wanted True) ps)"
    "r2 = DATAMANAGER_ADD_OK \<longrightarrow> B = canon_mset n (filter (wanted True) ps)" using one[OF p2 s1] by blast
  let ?share = "\<lambda>c. only False A c + only True B c"
  have sh: "?share False = A" "?share True = B" by (simp_all add: only_def)
  show ?thesis
  proof (intro exI[of _ ?share] conjI allI impI)
    show "adds n s ?share s'" by (rule adds_trans[OF A(1) B(1)])
    fix c show "?share c = {#} \<or> ?share c = canon_mset n (filter (wanted c) ps)" using sh A(2) B(2) by (cases c) auto
    assume "r = DATAMANAGER_ADD_OK"
    then show "?share c = canon_mset n (filter (wanted c) ps)" using r sh A(3) B(3) by (cases c) auto
  qed
qed

section \<open>Extraction from the content\<close>

text \<open>\<open>takes n c s ps s'\<close>: the positions \<open>ps\<close> have left pool \<open>c\<close>.\<close>

definition takes :: "nat \<Rightarrow> bool \<Rightarrow> stock \<Rightarrow> possibility_packet list \<Rightarrow> stock \<Rightarrow> bool" where
  "takes n c s ps s' \<longleftrightarrow> stock_ok n s' \<and> nb_file_possibility s' = nb_file_possibility s \<and> list_all (stock_packet n) ps
     \<and> content n c s = content n c s' + mset ps \<and> map fp_file (s_pool s' (\<not> c)) = map fp_file (s_pool s (\<not> c))"

lemma takes_other:
  assumes "takes n c s ps s'"
  shows "content n (\<not> c) s' = content n (\<not> c) s" "f < length (s_pool s (\<not> c)) \<Longrightarrow> file_of (\<not> c) f s' = file_of (\<not> c) f s"
proof -
  have m: "map fp_file (s_pool s' (\<not> c)) = map fp_file (s_pool s (\<not> c))" using assms by (simp add: takes_def)
  then show "content n (\<not> c) s' = content n (\<not> c) s" by (simp add: content_def pool_records_def)
  have l: "length (s_pool s' (\<not> c)) = length (s_pool s (\<not> c))" using m by (metis length_map)
  show "f < length (s_pool s (\<not> c)) \<Longrightarrow> file_of (\<not> c) f s' = file_of (\<not> c) f s"
    using m l nth_map[of f "s_pool s (\<not> c)" fp_file] nth_map[of f "s_pool s' (\<not> c)" fp_file] by (simp add: file_of_def)
qed

lemma takes_refl: "stock_ok n s \<Longrightarrow> takes n c s [] s"
  by (simp add: takes_def)

lemma takes_same: "same_files s s' \<Longrightarrow> takes n c s' ps s'' \<Longrightarrow> takes n c s ps s''" "takes n c s ps s' \<Longrightarrow> same_files s' s'' \<Longrightarrow> takes n c s ps s''"
  by (simp_all add: takes_def same_filesD(1,2,5)) (simp_all add: same_files_def)

lemma takes_trans: "takes n c s ps s' \<Longrightarrow> takes n c s' qs s'' \<Longrightarrow> takes n c s (ps @ qs) s''"
  by (simp add: takes_def ac_simps)

lemma takes_mset: "takes n c s ps s' \<Longrightarrow> mset qs = mset ps \<Longrightarrow> takes n c s qs s'"
proof -
  assume "takes n c s ps s'" and m: "mset qs = mset ps"
  moreover have "set qs = set ps" using m by (rule mset_eq_setD)
  ultimately show "takes n c s qs s'" by (simp add: takes_def list_all_iff)
qed

lemma set_file_self: "f < length (s_pool s c) \<Longrightarrow> set_file c f (file_of c f s) s = s"
  by (simp add: set_file_def file_of_def)

lemma pool_scroll_empty:
  assumes "f < length (s_pool s c)" "file_of c f s = []"
  shows "pool_scroll n c f s = (None, s)"
proof -
  have e: "set_file c f [] s = s" using set_file_self[OF assms(1)] unfolding assms(2) .
  have "pool_scroll n c f s = (None, set_file c f [] s)" using assms(2) by (simp add: pool_scroll_def scroll_record_def decode_taken_def)
  then show ?thesis unfolding e .
qed

lemma good_stored: "good_record n r \<Longrightarrow> decode_taken n (Some r) = Some (stored n r) \<and> stock_packet n (stored n r) \<and> length r \<le> PACKET_CODEC_MAX_BYTES n"
  by (auto simp: good_record_def stored_def)

lemma pool_scroll_last:
  assumes "stock_ok n s" "f < nb_file_possibility s" "file_of c f s = q @ [r]"
  shows "pool_scroll n c f s = (Some (stored n r), set_file c f q s)" "takes n c s [stored n r] (set_file c f q s)"
proof -
  have q: "\<forall>r \<in> set (q @ [r]). good_record n r" using stock_ok_record[OF assms(1,2), of _ c] assms(3) by simp
  then show "pool_scroll n c f s = (Some (stored n r), set_file c f q s)"
    using good_stored[of n r] assms(3) by (simp add: pool_scroll_def scroll_record_def)
  have "stock_ok n (set_file c f q s)" by (rule stock_ok_set_file[OF assms(1,2)]) (use q in simp)
  then show "takes n c s [stored n r] (set_file c f q s)"
    using content_set_file[OF stock_ok_index[OF assms(1,2)], of n c q] good_stored[of n r] q assms(3) by (simp add: takes_def set_file_def)
qed

text \<open>Up to \<open>k\<close> positions leave the end of one queue, the other queues stay.\<close>

definition takes_end :: "nat \<Rightarrow> bool \<Rightarrow> nat \<Rightarrow> nat \<Rightarrow> stock \<Rightarrow> possibility_packet list \<Rightarrow> stock \<Rightarrow> bool" where
  "takes_end n c f k s ps s' \<longleftrightarrow> takes n c s ps s' \<and> ps = map (stored n) (drop (length (file_of c f s) - k) (file_of c f s))
     \<and> file_of c f s' = take (length (file_of c f s) - k) (file_of c f s)
     \<and> (\<forall>f'. f' < nb_file_possibility s \<longrightarrow> f' \<noteq> f \<longrightarrow> file_of c f' s' = file_of c f' s)"

lemma takes_end_same:
  assumes "takes_end n c f k s ps s'" "same_files s' s''" "f < nb_file_possibility s"
  shows "takes_end n c f k s ps s''"
proof -
  have ok: "stock_ok n s'" "nb_file_possibility s' = nb_file_possibility s" using assms(1) by (simp_all add: takes_end_def takes_def)
  have "file_of c f' s'' = file_of c f' s'" if "f' < nb_file_possibility s" for f'
    using same_filesD(3)[OF assms(2)] stock_ok_index[OF ok(1), of f' c] that ok(2) by simp
  then show ?thesis using assms takes_same(2)[OF _ assms(2)] by (auto simp: takes_end_def)
qed

lemma scroll_file_spec:
  assumes "memory os"
  shows "stock_ok n s \<Longrightarrow> f < nb_file_possibility s \<Longrightarrow> \<exists>ps s'. scroll_file n os c f k s = (ps, s') \<and> takes_end n c f k s (rev ps) s'"
proof (induction k arbitrary: s)
  case 0
  then show ?case by (simp add: takes_end_def takes_refl)
next
  case (Suc k)
  note fl = stock_ok_index[OF Suc.prems, of c]
  show ?case
  proof (cases "file_of c f s" rule: rev_cases)
    case Nil
    then show ?thesis using pool_scroll_empty[OF fl Nil] Suc.prems(1) by (simp add: takes_end_def takes_refl)
  next
    case (snoc q r)
    note sc = pool_scroll_last[OF Suc.prems snoc]
    let ?s = "set_file c f q s" and ?t = "(set_file c f q s)\<lparr>mallocs := Suc (mallocs (set_file c f q s))\<rparr>"
    have same: "same_files ?s ?t" by simp
    have ok: "stock_ok n ?s" "nb_file_possibility ?s = nb_file_possibility s" using sc(2) by (simp_all add: takes_def)
    have t: "stock_ok n ?t" "f < nb_file_possibility ?t" using same_filesD[OF same] ok Suc.prems(2) by simp_all
    from Suc.IH[OF t] obtain ps s' where ps: "scroll_file n os c f k ?t = (ps, s')" "takes_end n c f k ?t (rev ps) s'" by blast
    have fq: "file_of c f ?t = q" using same_filesD(3)[OF same, of f c] fl by simp
    have other: "file_of c f' ?t = file_of c f' s" if "f' < nb_file_possibility s" "f' \<noteq> f" for f'
      using same_filesD(3)[OF same, of f' c] stock_ok_index[OF Suc.prems(1) that(1), of c] that(2) by simp
    have "takes n c s ([stored n r] @ rev ps) s'"
      by (rule takes_trans[OF sc(2) takes_same(1)[OF same]]) (use ps(2) in \<open>unfold takes_end_def, blast\<close>)
    then have "takes n c s (rev (stored n r # ps)) s'" by (rule takes_mset) simp
    moreover have "scroll_file n os c f (Suc k) s = (stored n r # ps, s')" using assms sc(1) ps(1) by (simp add: memory_def)
    moreover have "rev (stored n r # ps) = map (stored n) (drop (length (q @ [r]) - Suc k) (q @ [r]))" "file_of c f s' = take (length (q @ [r]) - Suc k) (q @ [r])"
      using ps(2) fq by (auto simp: takes_end_def)
    ultimately show ?thesis using ps(2) ok(2) other snoc by (auto simp: takes_end_def)
  qed
qed

lemma take_from_file_spec:
  assumes "memory os" "stock_ok n s" "f < nb_file_possibility s" "take_from_file n os now c mx f s = (ps, s')"
  shows "takes_end n c f mx s ps s'"
proof -
  obtain qs s1 where q: "scroll_file n os c f mx s = (qs, s1)" "takes_end n c f mx s (rev qs) s1" using scroll_file_spec[OF assms(1-3)] by blast
  have "ps = rev qs \<and> same_files s1 s'" using assms(4) q(1) by (auto simp: take_from_file_def same_files_def split: if_splits)
  then show ?thesis using takes_end_same[OF q(2) _ assms(3)] by simp
qed

lemma same_takes_end:
  assumes "same_files s s1" "takes_end n c f k s1 ps s'" "f < nb_file_possibility s" "stock_ok n s"
  shows "takes_end n c f k s ps s'"
proof -
  have "file_of c f' s1 = file_of c f' s" if "f' < nb_file_possibility s" for f'
    using same_filesD(3)[OF assms(1)] stock_ok_index[OF assms(4) that] by simp
  then show ?thesis using assms takes_same(1)[OF assms(1)] same_filesD(5)[OF assms(1)] by (auto simp: takes_end_def)
qed

lemma scroll_sweep_spec:
  assumes mem: "memory os"
  shows "stock_ok n s \<Longrightarrow> scroll_sweep n os now c mx start ks t s = (r, t', s') \<Longrightarrow>
    (case r of None \<Rightarrow> t' = t \<and> same_files s s' \<and> ((\<forall>k. os_trylock os k) \<longrightarrow> (\<forall>k \<in> set ks. t ((start + k) mod nb_file_possibility s)))
     | Some ps \<Rightarrow> \<exists>f < nb_file_possibility s. \<not> t f \<and> t' = t(f := True) \<and> takes_end n c f mx s ps s')"
proof (induction ks arbitrary: s)
  case Nil
  then show ?case by (auto simp: same_files_def)
next
  case (Cons k ks)
  let ?nb = "nb_file_possibility s" and ?s = "s\<lparr>trylocks := Suc (trylocks s)\<rparr>"
  let ?f = "(start + k) mod ?nb"
  have f: "?f < ?nb" using Cons.prems(1) by (simp add: stock_ok_def)
  have same: "same_files s ?s" by simp
  have ok: "stock_ok n ?s" "nb_file_possibility ?s = ?nb" using same_filesD[OF same] Cons.prems(1) by simp_all
  consider (old) "t ?f" | (got) ps where "\<not> t ?f" "os_trylock os (trylocks s)" "r = Some ps" "t' = t(?f := True)" "take_from_file n os now c mx ?f ?s = (ps, s')"
    | (busy) "\<not> t ?f" "\<not> os_trylock os (trylocks s)"
    using Cons.prems(2) by (auto simp: trylock_def Let_def split: if_splits prod.splits)
  then show ?case
  proof cases
    case old
    then have "scroll_sweep n os now c mx start ks t s = (r, t', s')" using Cons.prems(2) by (simp add: Let_def)
    note ih = Cons.IH[OF Cons.prems(1) this]
    show ?thesis
    proof (cases r)
      case None
      then show ?thesis using ih old by simp
    next
      case (Some ps)
      show ?thesis using ih unfolding Some by (simp only: option.case)
    qed
  next
    case got
    have "takes_end n c ?f mx s ps s'"
      by (rule same_takes_end[OF same take_from_file_spec[OF mem ok(1) _ got(5)] f Cons.prems(1)]) (use f ok(2) in simp)
    then show ?thesis using got f by auto
  next
    case busy
    have "scroll_sweep n os now c mx start ks t ?s = (r, t', s')" using Cons.prems(2) busy by (simp add: trylock_def Let_def)
    note ih = Cons.IH[OF ok(1) this, unfolded ok(2)]
    show ?thesis
    proof (cases r)
      case None
      then show ?thesis using ih busy same_files_trans[OF same] by auto
    next
      case (Some ps)
      then show ?thesis using ih same_takes_end[OF same _ _ Cons.prems(1)] by (simp only: option.case) blast
    qed
  qed
qed

lemma ring_covers:
  assumes "f < (nb :: nat)"
  shows "\<exists>k < nb. (start + k) mod nb = f"
proof (intro exI[of _ "(f + (nb - start mod nb)) mod nb"] conjI)
  have "start mod nb < nb" using assms by simp
  then have "start mod nb + (f + (nb - start mod nb)) = f + nb" by linarith
  then have "(start mod nb + (f + (nb - start mod nb))) mod nb = f" using assms by simp
  then show "(start + (f + (nb - start mod nb)) mod nb) mod nb = f" by (simp add: mod_simps)
qed (use assms in simp)

text \<open>What the caller of an extraction may rely on.\<close>

definition scrolled :: "nat \<Rightarrow> os \<Rightarrow> bool \<Rightarrow> nat \<Rightarrow> stock \<Rightarrow> possibility_packet list \<Rightarrow> stock \<Rightarrow> bool" where
  "scrolled n os c mx s ps s' \<longleftrightarrow> takes n c s ps s' \<and> length ps \<le> mx
     \<and> (ps \<noteq> [] \<longrightarrow> (\<exists>f < nb_file_possibility s. ps = map (stored n) (drop (length (file_of c f s) - mx) (file_of c f s))))
     \<and> (ps = [] \<longrightarrow> 0 < mx \<longrightarrow> (\<forall>k. os_trylock os k) \<longrightarrow> (\<forall>f < nb_file_possibility s. file_of c f s = []))"

lemma scrolled_same: "same_files s s1 \<Longrightarrow> stock_ok n s \<Longrightarrow> scrolled n os c mx s1 ps s' \<Longrightarrow> scrolled n os c mx s ps s'"
  using same_filesD(3)[of s s1] stock_ok_index[of n s _ c] same_filesD(5)[of s s1] takes_same(1)[of s s1 n c ps s']
  unfolding scrolled_def by metis

lemma takes_nothing:
  assumes "takes_end n c f mx s [] s'" "0 < mx" "f' < nb_file_possibility s"
  shows "file_of c f s = []" "file_of c f' s' = file_of c f' s"
proof -
  have "drop (length (file_of c f s) - mx) (file_of c f s) = []" using assms(1) unfolding takes_end_def by (metis Nil_is_map_conv)
  then have "length (file_of c f s) \<le> length (file_of c f s) - mx" by (simp only: drop_eq_Nil)
  then have "length (file_of c f s) = 0" using assms(2) by linarith
  then show e: "file_of c f s = []" by (simp only: length_0_conv)
  have "file_of c f s' = []" using assms(1) e unfolding takes_end_def by (metis take_Nil)
  moreover have "file_of c f' s' = file_of c f' s" if "f' \<noteq> f" using assms(1,3) that unfolding takes_end_def by blast
  ultimately show "file_of c f' s' = file_of c f' s" using e by (cases "f' = f") simp_all
qed

text \<open>A sweep that locks nothing although a queue is left to test has met a lock that is held.\<close>

lemma sweep_busy:
  assumes "(\<forall>k. os_trylock os k) \<longrightarrow> (\<forall>k \<in> set [0..<nb]. t ((start + k) mod nb))" "f < nb" "\<not> t f"
  shows "\<not> (\<forall>k. os_trylock os k)"
  using assms ring_covers[OF assms(2), of start] by auto

lemma scrolled_after_nothing:
  assumes "takes_end n c f mx s [] s1" "scrolled n os c mx s1 ps s'"
  shows "scrolled n os c mx s ps s'"
proof -
  have tk: "takes n c s [] s1" using assms(1) unfolding takes_end_def by blast
  have nb: "nb_file_possibility s1 = nb_file_possibility s" using tk by (simp add: takes_def)
  have sc: "takes n c s1 ps s'" "length ps \<le> mx" using assms(2) unfolding scrolled_def by blast+
  have t: "takes n c s ps s'" using takes_trans[OF tk sc(1)] by simp
  show ?thesis
  proof (cases "0 < mx")
    case True
    have fe: "file_of c f' s1 = file_of c f' s" if "f' < nb_file_possibility s" for f' by (rule takes_nothing(2)[OF assms(1) True that])
    have "(\<forall>f' < nb_file_possibility s1. file_of c f' s1 = []) \<longrightarrow> (\<forall>f' < nb_file_possibility s. file_of c f' s = [])"
      using fe nb by simp
    moreover have "(\<exists>f < nb_file_possibility s1. ps = map (stored n) (drop (length (file_of c f s1) - mx) (file_of c f s1)))
       \<longrightarrow> (\<exists>f < nb_file_possibility s. ps = map (stored n) (drop (length (file_of c f s) - mx) (file_of c f s)))" using fe nb by force
    ultimately show ?thesis using assms(2) t sc(2) unfolding scrolled_def by blast
  next
    case False
    then show ?thesis using t sc(2) by (simp add: scrolled_def)
  qed
qed

lemma scrolled_end:
  assumes "takes_end n c f mx s ps s'" "f < nb_file_possibility s" "ps = [] \<Longrightarrow> 0 < mx \<Longrightarrow> \<forall>f' < nb_file_possibility s. file_of c f' s = []"
  shows "scrolled n os c mx s ps s'"
proof -
  have ps: "ps = map (stored n) (drop (length (file_of c f s) - mx) (file_of c f s))" and tk: "takes n c s ps s'"
    using assms(1) unfolding takes_end_def by blast+
  have "length ps \<le> mx" unfolding ps by simp
  then show ?thesis using assms(2,3) ps tk unfolding scrolled_def by blast
qed

lemma scroll_attempts_spec:
  assumes mem: "memory os"
  shows "stock_ok n s \<Longrightarrow> 0 < mx \<longrightarrow> (\<forall>f < nb_file_possibility s. t f \<longrightarrow> file_of c f s = []) \<Longrightarrow>
    \<exists>f < nb_file_possibility s. \<not> t f \<Longrightarrow> scroll_attempts n os now c mx start t failed s = (ps, s') \<Longrightarrow> scrolled n os c mx s ps s'"
  using mem
proof (induction n os now c mx start t failed s rule: scroll_attempts.induct)
  case (1 n os now c mx start t failed s)
  let ?nb = "nb_file_possibility s"
  obtain r t1 s1 where sw: "scroll_sweep n os now c mx start [0..<?nb] t s = (r, t1, s1)" by (metis prod_cases3)
  note sp = scroll_sweep_spec[OF 1(7) 1(3) sw]
  show ?case
  proof (cases r)
    case None
    have same: "same_files s s1" and t1: "t1 = t" and
      cover: "(\<forall>k. os_trylock os k) \<longrightarrow> (\<forall>k \<in> set [0..<?nb]. t ((start + k) mod ?nb))" using sp unfolding None option.case by blast+
    have busy: "\<not> (\<forall>k. os_trylock os k)" using 1(5) sweep_busy[OF cover] by blast
    show ?thesis
    proof (cases "Suc failed \<ge> DATAMANAGER_TRYLOCK_MAX_SWEEPS")
      case True
      then have "ps = [] \<and> s' = s1" using 1(6) None sw by (subst (asm) scroll_attempts.simps) simp
      then show ?thesis using busy takes_same(2)[OF takes_refl[OF 1(3)] same] by (auto simp: scrolled_def)
    next
      case False
      have run: "scroll_attempts n os now c mx start t (Suc failed) s1 = (ps, s')"
        using 1(6) None sw False t1 by (subst (asm) scroll_attempts.simps) simp
      have ok: "stock_ok n s1" "nb_file_possibility s1 = ?nb" using same_filesD[OF same] 1(3) by simp_all
      have "file_of c f s1 = file_of c f s" if "f < ?nb" for f using same_filesD(3)[OF same stock_ok_index[OF 1(3) that]] .
      then have "scrolled n os c mx s1 ps s'"
        by (intro 1(1)[OF sw[symmetric] None refl False ok(1)[folded t1]]) (use 1(4,5,7) ok(2) t1 run in auto)
      then show ?thesis by (rule scrolled_same[OF same 1(3)])
    qed
  next
    case (Some qs)
    then obtain f where f: "f < ?nb" "\<not> t f" "t1 = t(f := True)" "takes_end n c f mx s qs s1" using sp by auto
    show ?thesis
    proof (cases "qs = [] \<and> \<not> list_all t1 [0..<?nb]")
      case True
      have run: "scroll_attempts n os now c mx start t1 failed s1 = (ps, s')"
        using 1(6) Some sw True by (subst (asm) scroll_attempts.simps) simp
      have tk: "takes_end n c f mx s [] s1" using f(4) True by simp
      have ok: "stock_ok n s1" "nb_file_possibility s1 = ?nb" using tk by (simp_all add: takes_end_def takes_def)
      have e: "\<exists>f < nb_file_possibility s1. \<not> t1 f" using True ok(2) by (auto simp: list_all_iff)
      have "0 < mx \<longrightarrow> (\<forall>f' < nb_file_possibility s1. t1 f' \<longrightarrow> file_of c f' s1 = [])"
      proof (intro impI allI)
        fix f' assume a: "0 < mx" "f' < nb_file_possibility s1" "t1 f'"
        have "file_of c f' s1 = file_of c f' s" by (rule takes_nothing(2)[OF tk a(1)]) (use a(2) ok(2) in simp)
        also have "\<dots> = []" using a f(1,3) 1(4) ok(2) takes_nothing(1)[OF tk a(1) f(1)] by (cases "f' = f") simp_all
        finally show "file_of c f' s1 = []" .
      qed
      from scrolled_after_nothing[OF tk 1(2)[OF sw[symmetric] Some refl True ok(1) this e run 1(7)]] show ?thesis .
    next
      case False
      then have "ps = qs \<and> s' = s1" using 1(6) Some sw by (subst (asm) scroll_attempts.simps) auto
      moreover have "file_of c f' s = []" if "qs = []" "0 < mx" "f' < ?nb" for f'
        using False that 1(4) f takes_nothing(1)[of n c f mx s s1 f'] by (cases "f' = f") (auto simp: list_all_iff)
      ultimately show ?thesis using scrolled_end[OF f(4,1)] by simp
    qed
  qed
qed

lemma scroll_from_pool_spec:
  assumes "memory os" "stock_ok n s" "scroll_from_pool n os now c mx s = (ps, s')"
  shows "scrolled n os c mx s ps s'"
proof -
  obtain start rr where r: "datamanager_rr_next_start (rr_scroll s c) (nb_file_possibility s) = (start, rr)" by fastforce
  let ?s = "s\<lparr>rr_scroll := (rr_scroll s)(c := rr)\<rparr>"
  have same: "same_files s ?s" by simp
  have "scroll_attempts n os now c mx start (\<lambda>_. False) 0 ?s = (ps, s')" using assms(3) r by (simp add: scroll_from_pool_def)
  then have "scrolled n os c mx ?s ps s'"
    by (rule scroll_attempts_spec[OF assms(1), rotated -1]) (use assms(2) same_filesD[OF same] in \<open>auto simp: stock_ok_def\<close>)
  then show ?thesis by (rule scrolled_same[OF same assms(2)])
qed

text \<open>The positions \<open>ps\<close> have left the stock, all from pool \<open>c\<close>.\<close>

definition served :: "nat \<Rightarrow> bool \<Rightarrow> stock \<Rightarrow> possibility_packet list \<Rightarrow> stock \<Rightarrow> bool" where
  "served n c s ps s' \<longleftrightarrow> stock_ok n s' \<and> nb_file_possibility s' = nb_file_possibility s \<and> list_all (stock_packet n) ps
     \<and> content n c s = content n c s' + mset ps \<and> content n (\<not> c) s' = content n (\<not> c) s"

lemma takes_served: "takes n c s ps s' \<Longrightarrow> same_files s' s'' \<Longrightarrow> served n c s ps s''"
  using takes_other(1)[of n c s ps s'] by (simp add: takes_def served_def same_filesD(1,2,5))

lemma served_small: "served n c s ps s' \<Longrightarrow> nb_small s \<Longrightarrow> nb_small s'"
  by (simp add: served_def nb_small_def)

lemma scroll_from_local_spec:
  assumes "memory os" "stock_ok n s" "scroll_from_local n os now mx s = (ps, s')"
  shows "\<exists>c. served n c s ps s' \<and> length ps \<le> mx
    \<and> (0 < mx \<longrightarrow> (\<forall>k. os_trylock os k) \<longrightarrow>
        (if \<exists>f < nb_file_possibility s. file_of True f s \<noteq> [] then c = True \<and> ps \<noteq> []
         else ps = [] \<longrightarrow> (\<forall>f < nb_file_possibility s. file_of False f s = [])))"
proof -
  obtain ps1 s1 where 1: "scroll_from_pool n os now True mx s = (ps1, s1)" by fastforce
  note sc1 = scroll_from_pool_spec[OF assms(1,2) 1]
  then have tk1: "takes n True s ps1 s1" by (simp add: scrolled_def)
  show ?thesis
  proof (cases "ps1 = []")
    case False
    then have e: "ps = ps1" "s' = s1" using assms(3) 1 by (simp_all add: scroll_from_local_def)
    have "served n True s ps s'" using takes_served[OF tk1, of s1] e by (simp add: same_files_def)
    then show ?thesis using sc1 False e by (intro exI[of _ True]) (simp add: scrolled_def)
  next
    case True
    obtain s2 where 2: "scroll_from_pool n os now False mx s1 = (ps, s2)" and same: "same_files s2 s'"
      using assms(3) 1 True by (auto simp: scroll_from_local_def note_unmet_def same_files_def split: prod.splits if_splits)
    have ok: "stock_ok n s1" "nb_file_possibility s1 = nb_file_possibility s" using tk1 by (simp_all add: takes_def)
    note sc2 = scroll_from_pool_spec[OF assms(1) ok(1) 2]
    have f: "file_of False f s1 = file_of False f s" if "f < nb_file_possibility s" for f
      using takes_other(2)[OF tk1] stock_ok_index[OF assms(2) that, of False] by simp
    have tk2: "takes n False s1 ps s2" using sc2 by (simp add: scrolled_def)
    have "served n False s ps s'"
      using takes_served[OF tk2 same] takes_served[OF tk1, of s1] True by (simp add: served_def same_files_def)
    moreover have "length ps \<le> mx" using sc2 by (simp add: scrolled_def)
    moreover have "\<forall>f < nb_file_possibility s. file_of True f s = []" if "0 < mx" "\<forall>k. os_trylock os k" using sc1 True that by (simp add: scrolled_def)
    moreover have "\<forall>f < nb_file_possibility s. file_of False f s = []" if "0 < mx" "\<forall>k. os_trylock os k" "ps = []"
      using sc2 that f ok(2) by (simp add: scrolled_def)
    ultimately show ?thesis by (intro exI[of _ False]) auto
  qed
qed

lemma scroll_tocheck_spec:
  assumes "memory os" "stock_ok n s" "scroll_from_local_tocheck n os now mx s = (ps, s')"
  shows "served n False s ps s' \<and> length ps \<le> mx
    \<and> (0 < mx \<longrightarrow> (\<forall>k. os_trylock os k) \<longrightarrow> ps = [] \<longrightarrow> (\<forall>f < nb_file_possibility s. file_of False f s = []))"
proof -
  obtain s1 where 1: "scroll_from_pool n os now False mx s = (ps, s1)" and same: "same_files s1 s'"
    using assms(3) by (auto simp: scroll_from_local_tocheck_def note_unmet_def same_files_def split: prod.splits if_splits)
  have sc: "scrolled n os False mx s ps s1" by (rule scroll_from_pool_spec[OF assms(1,2) 1])
  then have "takes n False s ps s1" by (simp add: scrolled_def)
  from takes_served[OF this same] show ?thesis using sc by (simp add: scrolled_def)
qed

section \<open>The limit of memory\<close>

lemma fold_plus: "fold (\<lambda>i acc. acc + g i) xs a = a + sum_list (map g xs)" for g :: "'b \<Rightarrow> 'a::comm_monoid_add"
  by (induction xs arbitrary: a) (simp_all add: ac_simps)

definition resident_of :: "u8 list list \<Rightarrow> u64" where
  "resident_of q = file_bytes q + of_nat (length q) * element_overhead_bytes"

lemma pool_resident_sum: "pool_resident_bytes c s = (\<Sum>f < nb_file_possibility s. resident_of (file_of c f s))"
  unfolding pool_resident_bytes_def resident_of_def fold_plus by (simp add: interv_sum_list_conv_sum_set_nat atLeast0LessThan)

lemma resident_set_file:
  assumes "f < nb_file_possibility s" "f < length (s_pool s c)"
  shows "datamanager_resident_bytes (set_file c f q s) = datamanager_resident_bytes s - resident_of (file_of c f s) + resident_of q"
proof -
  let ?I = "{..<nb_file_possibility s}"
  have split: "(\<Sum>g \<in> ?I. resident_of (file_of c g t)) = resident_of (file_of c f t) + (\<Sum>g \<in> ?I - {f}. resident_of (file_of c g t))" for t
    using assms(1) by (intro sum.remove) auto
  have "pool_resident_bytes c (set_file c f q s) = pool_resident_bytes c s - resident_of (file_of c f s) + resident_of q"
    using assms(2) unfolding pool_resident_sum nb_set_file split by simp
  moreover have "pool_resident_bytes (\<not> c) (set_file c f q s) = pool_resident_bytes (\<not> c) s" by (simp add: pool_resident_sum)
  ultimately show ?thesis
    by (cases c) (simp_all add: datamanager_resident_bytes_def pools_resident_bytes_def set_file_def)
qed

lemma resident_fields [simp]:
  "datamanager_resident_bytes (s\<lparr>mallocs := k\<rparr>) = datamanager_resident_bytes s" "datamanager_resident_bytes (s\<lparr>trylocks := k\<rparr>) = datamanager_resident_bytes s"
  "datamanager_resident_bytes (s\<lparr>max_result := k\<rparr>) = datamanager_resident_bytes s" "datamanager_resident_bytes (s\<lparr>rr_put := rr\<rparr>) = datamanager_resident_bytes s"
  "datamanager_resident_bytes (s\<lparr>stock_adds_rate := r, pool_adds_rate := rs\<rparr>) = datamanager_resident_bytes s"
  by (simp_all add: datamanager_resident_bytes_def pools_resident_bytes_def pool_resident_sum file_of_def)

lemma resident_sort_state: "datamanager_resident_bytes (set_sort_state c f st s) = datamanager_resident_bytes s"
proof -
  have "file_of c' g (set_sort_state c f st s) = file_of c' g s" for c' g
    by (cases "f < length (s_pool s c)") (auto simp: file_of_def set_sort_state_def nth_list_update list_update_beyond)
  then show ?thesis by (simp add: datamanager_resident_bytes_def pools_resident_bytes_def pool_resident_sum) (simp add: set_sort_state_def)
qed

lemma resident_insert_packet:
  assumes "stock_ok n s" "f < nb_file_possibility s" "stream_packet n p" "memory os"
  shows "datamanager_resident_bytes (insert_packet n os c f p s)
    = datamanager_resident_bytes s + (element_overhead_bytes + of_nat (packet_codec_encoded_size n p))"
proof -
  obtain r where r: "packet_codec_encode n p (PACKET_CODEC_MAX_BYTES n) = Some r" "record_fits r" by (rule encode_good[OF assms(3)])
  have st: "n \<le> 16" "codec_grid n (grid p)" "header_ok p" using assms(3) by (simp_all add: stream_packet_def)
  note len = codec_roundtrip(2)[OF st r(1)]
  let ?s = "s\<lparr>max_result := max (max_result s) (alloc p)\<rparr>"
  have e: "insert_packet n os c f p s = (set_file c f (file_of c f ?s @ [r]) ?s)\<lparr>mallocs := Suc (mallocs ?s)\<rparr>"
    using r assms(4) by (simp add: insert_packet_def pool_put_def put_record_def memory_def)
  have "resident_of (q @ [r]) = resident_of q + (element_overhead_bytes + of_nat (packet_codec_encoded_size n p))" for q
    using len by (simp add: resident_of_def file_bytes_def algebra_simps)
  then show ?thesis
    unfolding e resident_fields using resident_set_file[of f ?s c "file_of c f ?s @ [r]"] stock_ok_index[OF assms(1,2), of c] assms(2) by simp
qed

lemma resident_insert_wanted:
  assumes "stock_ok n s" "f < nb_file_possibility s" "list_all (stream_packet n) ps" "memory os"
  shows "datamanager_resident_bytes (insert_wanted n os now c ps f s) = datamanager_resident_bytes s + incoming_bytes n c ps"
proof -
  let ?cost = "\<lambda>p. element_overhead_bytes + of_nat (packet_codec_encoded_size n p) :: u64"
  let ?ins = "\<lambda>p s. if wanted c p then insert_packet n os c f p s else s"
  have "datamanager_resident_bytes (fold ?ins ps s) = fold (\<lambda>p total. if wanted c p then total + ?cost p else total) ps (datamanager_resident_bytes s)"
    using assms(1-3)
  proof (induction ps arbitrary: s)
    case (Cons p ps)
    have "adds n s (only c {#canonical_packet n p#}) (insert_packet n os c f p s)" using insert_packet_adds[OF Cons.prems(1,2) _ assms(4)] Cons.prems(3) by simp
    then have "stock_ok n (?ins p s)" "f < nb_file_possibility (?ins p s)" using Cons.prems by (auto simp: adds_def)
    then show ?case using Cons.IH[of "?ins p s"] Cons.prems resident_insert_packet[OF Cons.prems(1,2) _ assms(4), of p c] by simp
  qed simp
  moreover have "fold (\<lambda>p total. if wanted c p then total + ?cost p else total) ps a = a + incoming_bytes n c ps" for a
    unfolding incoming_bytes_def using fold_plus[of "\<lambda>p. if wanted c p then ?cost p else 0" ps] by (simp add: if_distrib[of "(+) _"] cong: if_cong)
  ultimately show ?thesis by (simp add: insert_wanted_def Let_def resident_sort_state)
qed

lemma ram_limit_kept: "stock_max_ram_bytes (insert_wanted n os now c ps f s) = stock_max_ram_bytes s"
proof -
  have "stock_max_ram_bytes (insert_packet n os c f p t) = stock_max_ram_bytes t" for p t
    by (simp add: insert_packet_def pool_put_def set_file_def put_record_def split: option.splits prod.splits)
  then have "stock_max_ram_bytes (fold (\<lambda>p s. if wanted c p then insert_packet n os c f p s else s) ps s) = stock_max_ram_bytes s"
    by (induction ps arbitrary: s) simp_all
  then show ?thesis by (simp add: insert_wanted_def set_sort_state_def Let_def)
qed

lemma put_attempts_free:
  assumes "\<forall>k. os_trylock os k" "put_attempts n os now c ps start 0 0 s = (r, s')"
  shows "r = DATAMANAGER_ADD_OK"
  using assms by (simp add: put_attempts_step[of n os now c ps start] Let_def DATAMANAGER_TRYLOCK_MAX_SWEEPS_def)

lemma put_to_pool_outcome:
  assumes ok: "stock_ok n s" "nb_small s" and put: "put_to_pool n os now ps c s = (r, s')"
  obtains (none) "filter (wanted c) ps = []" "r = DATAMANAGER_ADD_OK" "s' = s"
  | (cap) "r = DATAMANAGER_ADD_REFUSED_RAM_CAP" "s' = s" "0 < stock_max_ram_bytes s"
  | (locked) rr k where "r = DATAMANAGER_ADD_REFUSED_POOL_LOCKED" "s' = s\<lparr>rr_put := rr, trylocks := k\<rparr>" "\<not> (\<forall>k. os_trylock os k)"
  | (inserted) f rr k where "f < nb_file_possibility s" "s' = insert_wanted n os now c ps f (s\<lparr>rr_put := rr, trylocks := k\<rparr>)"
      "0 < stock_max_ram_bytes s \<longrightarrow> datamanager_resident_bytes s + incoming_bytes n c ps \<le> stock_max_ram_bytes s"
      "(\<forall>k. os_trylock os k) \<longrightarrow> r = DATAMANAGER_ADD_OK"
proof -
  consider (e) "filter (wanted c) ps = []" "r = DATAMANAGER_ADD_OK" "s' = s" | (f) "r = DATAMANAGER_ADD_REFUSED_RAM_CAP" "s' = s" "0 < stock_max_ram_bytes s"
    | (attempt) start rr where "datamanager_rr_next_start (rr_put s c) (nb_file_possibility s) = (start, rr)"
        "put_attempts n os now c ps start 0 0 (s\<lparr>rr_put := (rr_put s)(c := rr)\<rparr>) = (r, s')"
        "\<not> (stock_max_ram_bytes s > 0 \<and> datamanager_resident_bytes s + incoming_bytes n c ps > stock_max_ram_bytes s)"
    using put by (auto simp: put_to_pool_def DATAMANAGER_ADD_OK_def split: if_splits prod.splits)
  then show ?thesis
  proof cases
    case attempt
    let ?s = "s\<lparr>rr_put := (rr_put s)(c := rr)\<rparr>"
    have start: "start < nb_file_possibility ?s" using rr_start_less[OF _ nb_small_less[OF ok(2)] attempt(1)] ok(1) by (simp add: stock_ok_def)
    have le: "0 < stock_max_ram_bytes s \<longrightarrow> datamanager_resident_bytes s + incoming_bytes n c ps \<le> stock_max_ram_bytes s" using attempt(3) by (meson leI)
    have free: "(\<forall>k. os_trylock os k) \<longrightarrow> r = DATAMANAGER_ADD_OK" using put_attempts_free[OF _ attempt(2)] by blast
    have refused: "DATAMANAGER_ADD_REFUSED_POOL_LOCKED \<noteq> DATAMANAGER_ADD_OK" by (simp add: add_codes)
    consider k where "r = DATAMANAGER_ADD_REFUSED_POOL_LOCKED" "s' = ?s\<lparr>trylocks := k\<rparr>"
      | k f where "f < nb_file_possibility ?s" "s' = insert_wanted n os now c ps f (?s\<lparr>trylocks := k\<rparr>)"
      using put_attempts_outcome[OF start attempt(2)] by blast
    then show ?thesis
    proof cases
      case (1 k)
      show ?thesis by (rule locked[OF 1]) (use free refused 1(1) in metis)
    next
      case (2 k f)
      show ?thesis by (rule inserted[OF _ 2(2) le free]) (use 2(1) in simp)
    qed
  qed (use none cap in blast)+
qed

lemma resident_inserted:
  assumes "list_all (stream_packet n) ps" "memory os" "stock_ok n s" "f < nb_file_possibility s"
  shows "datamanager_resident_bytes (insert_wanted n os now c ps f (s\<lparr>rr_put := rr, trylocks := k\<rparr>)) = datamanager_resident_bytes s + incoming_bytes n c ps"
proof -
  have "same_files s (s\<lparr>rr_put := rr, trylocks := k\<rparr>)" by (simp add: same_files_def)
  then have "stock_ok n (s\<lparr>rr_put := rr, trylocks := k\<rparr>)" using same_filesD(2) assms(3) by blast
  from resident_insert_wanted[OF this _ assms(1,2)] show ?thesis using assms(4) by simp
qed

lemma put_to_pool_limit:
  assumes ps: "list_all (stream_packet n) ps" "memory os" and ok: "stock_ok n s" "nb_small s" and put: "put_to_pool n os now ps c s = (r, s')"
    and h: "r = DATAMANAGER_ADD_OK" "filter (wanted c) ps \<noteq> []" "0 < stock_max_ram_bytes s"
  shows "datamanager_resident_bytes s' \<le> stock_max_ram_bytes s"
proof (rule put_to_pool_outcome[OF ok put])
  fix f rr k assume "f < nb_file_possibility s" "s' = insert_wanted n os now c ps f (s\<lparr>rr_put := rr, trylocks := k\<rparr>)"
    "0 < stock_max_ram_bytes s \<longrightarrow> datamanager_resident_bytes s + incoming_bytes n c ps \<le> stock_max_ram_bytes s"
  then show ?thesis using resident_inserted[OF ps ok(1), where f = f and now = now and c = c and rr = rr and k = k] h(3) by simp
qed (use h in \<open>simp_all add: add_codes\<close>)

section \<open>Whatever the answers of malloc\<close>

text \<open>The allocations that failed between two states.\<close>

definition failed_allocations :: "os \<Rightarrow> stock \<Rightarrow> stock \<Rightarrow> nat" where
  "failed_allocations os s s' = length (filter (\<lambda>k. \<not> os_malloc os k) [mallocs s..<mallocs s'])"

text \<open>\<open>flows n os s A P L s'\<close>: the positions \<open>A\<close> have come to the pools, \<open>P\<close> have left them for the
  caller, and \<open>L\<close> are lost, one for every allocation that failed.\<close>

definition flows ::
  "nat \<Rightarrow> os \<Rightarrow> stock \<Rightarrow> (bool \<Rightarrow> possibility_packet multiset) \<Rightarrow> (bool \<Rightarrow> possibility_packet multiset)
     \<Rightarrow> (bool \<Rightarrow> possibility_packet multiset) \<Rightarrow> stock \<Rightarrow> bool" where
  "flows n os s A P L s' \<longleftrightarrow> stock_ok n s' \<and> nb_file_possibility s' = nb_file_possibility s \<and> mallocs s \<le> mallocs s'
     \<and> (\<forall>c. content n c s + A c = content n c s' + P c + L c)
     \<and> size (L False) + size (L True) = failed_allocations os s s'"

abbreviation none :: "bool \<Rightarrow> possibility_packet multiset" where
  "none \<equiv> (\<lambda>_. {#})"

lemma failed_trans:
  assumes "mallocs s \<le> mallocs s1" "mallocs s1 \<le> mallocs s2"
  shows "failed_allocations os s s2 = failed_allocations os s s1 + failed_allocations os s1 s2"
proof -
  have "[mallocs s..<mallocs s2] = [mallocs s..<mallocs s1] @ [mallocs s1..<mallocs s2]"
    using upt_add_eq_append[OF assms(1), of "mallocs s2 - mallocs s1"] assms(2) by simp
  then show ?thesis by (simp add: failed_allocations_def)
qed

lemma failed_memory [simp]: "memory os \<Longrightarrow> failed_allocations os s s' = 0"
  by (simp add: memory_def failed_allocations_def)

lemma failed_one: "mallocs s' = Suc (mallocs s) \<Longrightarrow> failed_allocations os s s' = (if os_malloc os (mallocs s) then 0 else 1)"
  by (simp add: failed_allocations_def)

lemma flows_trans:
  assumes "flows n os s A P L s1" "flows n os s1 B Q M s2"
  shows "flows n os s (\<lambda>c. A c + B c) (\<lambda>c. P c + Q c) (\<lambda>c. L c + M c) s2"
proof -
  have "content n c s + (A c + B c) = content n c s2 + (P c + Q c) + (L c + M c)" for c
  proof -
    have "content n c s + (A c + B c) = (content n c s1 + B c) + (P c + L c)" using assms(1) by (simp add: flows_def ac_simps)
    also have "\<dots> = content n c s2 + (P c + Q c) + (L c + M c)" using assms(2) by (simp add: flows_def ac_simps)
    finally show ?thesis .
  qed
  moreover have "mallocs s \<le> mallocs s1" "mallocs s1 \<le> mallocs s2" using assms by (simp_all add: flows_def)
  ultimately show ?thesis using assms failed_trans[of s s1 s2 os] by (simp add: flows_def)
qed

lemma flows_same: "same_files s s' \<Longrightarrow> mallocs s' = mallocs s \<Longrightarrow> stock_ok n s \<Longrightarrow> flows n os s none none none s'"
  using same_filesD(1,2,5)[of s s'] by (simp add: flows_def failed_allocations_def)

lemma same_flows: "same_files s s1 \<Longrightarrow> mallocs s1 = mallocs s \<Longrightarrow> stock_ok n s \<Longrightarrow> flows n os s1 A P L s' \<Longrightarrow> flows n os s A P L s'"
  using flows_trans[OF flows_same, of s s1 n os A P L s'] by simp

lemma flows_then_same: "flows n os s A P L s1 \<Longrightarrow> same_files s1 s' \<Longrightarrow> mallocs s' = mallocs s1 \<Longrightarrow> flows n os s A P L s'"
  using flows_trans[of n os s A P L s1 none none none s'] flows_same[of s1 s' n os] by (simp add: flows_def)

lemma flows_ok: "flows n os s A P L s' \<Longrightarrow> stock_ok n s' \<and> nb_file_possibility s' = nb_file_possibility s"
  by (simp add: flows_def)

lemma flows_cong: "flows n os s A P L s' \<Longrightarrow> (\<And>c. A c = A' c) \<Longrightarrow> (\<And>c. P c = P' c) \<Longrightarrow> (\<And>c. L c = L' c) \<Longrightarrow> flows n os s A' P' L' s'"
  by (simp add: flows_def)

lemma only_sum: "only c A c' + only c B c' = only c (A + B) c'"
  by (simp add: only_def)

lemma only_size: "size (only c A False) + size (only c A True) = size A"
  by (cases c) (simp_all add: only_def)

text \<open>Insertion.\<close>

lemma pool_put_flows:
  assumes ok: "stock_ok n s" and f: "f < nb_file_possibility s" and p: "stream_packet n p"
  shows "flows n os s (only c {#canonical_packet n p#}) none (only c (if os_malloc os (mallocs s) then {#} else {#canonical_packet n p#}))
    (snd (pool_put n os c f p s))"
proof -
  obtain r where r: "packet_codec_encode n p (PACKET_CODEC_MAX_BYTES n) = Some r" by (rule encode_good[OF p])
  have m: "mallocs (snd (pool_put n os c f p s)) = Suc (mallocs s)" by (simp add: pool_put_def r split: prod.split)
  show ?thesis
  proof (cases "os_malloc os (mallocs s)")
    case True
    then show ?thesis using pool_put_spec(2)[OF ok f p, of os c] failed_one[OF m, of os] m by (simp add: adds_def flows_def)
  next
    case False
    from pool_put_fails[where c = c and f = f, OF p this] have same: "same_files s (snd (pool_put n os c f p s))" by blast
    show ?thesis using same_filesD(1,2,5)[OF same] ok False failed_one[OF m, of os] m only_size[of c "{#canonical_packet n p#}"]
      by (simp add: flows_def)
  qed
qed

lemma insert_packet_flows:
  assumes "stock_ok n s" "f < nb_file_possibility s" "stream_packet n p"
  shows "\<exists>L. L \<subseteq># {#canonical_packet n p#} \<and> flows n os s (only c {#canonical_packet n p#}) none (only c L) (insert_packet n os c f p s)"
proof -
  let ?s = "s\<lparr>max_result := max (max_result s) (alloc p)\<rparr>"
  have same: "same_files s ?s" by simp
  have ok: "stock_ok n ?s" "f < nb_file_possibility ?s" using same_filesD(2)[OF same] assms(1,2) by simp_all
  have "flows n os ?s (only c {#canonical_packet n p#}) none
      (only c (if os_malloc os (mallocs ?s) then {#} else {#canonical_packet n p#})) (insert_packet n os c f p s)"
    unfolding insert_packet_def by (rule pool_put_flows[OF ok assms(3)])
  from same_flows[OF same _ assms(1) this] show ?thesis
    by (intro exI[of _ "if os_malloc os (mallocs ?s) then {#} else {#canonical_packet n p#}"]) simp
qed

lemma insert_all_flows:
  assumes "stock_ok n s" "f < nb_file_possibility s" "list_all (stream_packet n) ps"
  shows "\<exists>L. L \<subseteq># canon_mset n (filter (wanted c) ps) \<and> flows n os s (only c (canon_mset n (filter (wanted c) ps))) none (only c L)
    (fold (\<lambda>p s. if wanted c p then insert_packet n os c f p s else s) ps s)"
  using assms
proof (induction ps arbitrary: s)
  case Nil
  then show ?case using flows_same[of s s n os] by (simp add: same_files_def)
next
  case (Cons p ps)
  show ?case
  proof (cases "wanted c p")
    case True
    obtain L where L: "L \<subseteq># {#canonical_packet n p#}" "flows n os s (only c {#canonical_packet n p#}) none (only c L) (insert_packet n os c f p s)"
      using insert_packet_flows[OF Cons.prems(1,2), of p] Cons.prems(3) unfolding list.pred_inject by blast
    have "stock_ok n (insert_packet n os c f p s)" "f < nb_file_possibility (insert_packet n os c f p s)" "list_all (stream_packet n) ps"
      using flows_ok[OF L(2)] Cons.prems by simp_all
    from Cons.IH[OF this] obtain M where M: "M \<subseteq># canon_mset n (filter (wanted c) ps)"
      "flows n os (insert_packet n os c f p s) (only c (canon_mset n (filter (wanted c) ps))) none (only c M)
        (fold (\<lambda>p s. if wanted c p then insert_packet n os c f p s else s) ps (insert_packet n os c f p s))" by blast
    have "L + M \<subseteq># canon_mset n (filter (wanted c) (p # ps))" using subset_mset.add_mono[OF L(1) M(1)] True by simp
    moreover have "flows n os s (only c (canon_mset n (filter (wanted c) (p # ps)))) none (only c (L + M))
        (fold (\<lambda>p s. if wanted c p then insert_packet n os c f p s else s) ps (insert_packet n os c f p s))"
      by (rule flows_cong[OF flows_trans[OF L(2) M(2)]]) (use True in \<open>simp_all add: only_sum\<close>)
    ultimately show ?thesis using True by auto
  qed (use Cons in simp)
qed

lemma insert_wanted_flows:
  assumes "stock_ok n s" "f < nb_file_possibility s" "list_all (stream_packet n) ps"
  shows "\<exists>L. L \<subseteq># canon_mset n (filter (wanted c) ps) \<and> flows n os s (only c (canon_mset n (filter (wanted c) ps))) none (only c L)
    (insert_wanted n os now c ps f s)"
proof -
  let ?s = "fold (\<lambda>p s. if wanted c p then insert_packet n os c f p s else s) ps s"
  obtain L where L: "L \<subseteq># canon_mset n (filter (wanted c) ps)" "flows n os s (only c (canon_mset n (filter (wanted c) ps))) none (only c L) ?s"
    using insert_all_flows[OF assms] by blast
  have "same_files ?s (insert_wanted n os now c ps f s)"
    using sort_state_same[of ?s c f FILE_SORT_UNKNOWN] by (simp add: insert_wanted_def Let_def same_files_def)
  from flows_then_same[OF L(2) this] L(1) show ?thesis by (auto simp: insert_wanted_def Let_def set_sort_state_def)
qed

lemma fields_same_mallocs: "mallocs (s\<lparr>rr_put := rr, trylocks := k\<rparr>) = mallocs s" "same_files s (s\<lparr>rr_put := rr, trylocks := k\<rparr>)"
  by (simp_all add: same_files_def)

lemma put_to_pool_flows:
  assumes ps: "list_all (stream_packet n) ps" and ok: "stock_ok n s" "nb_small s" and put: "put_to_pool n os now ps c s = (r, s')"
  shows "\<exists>A L. flows n os s (only c A) none (only c L) s' \<and> L \<subseteq># A \<and> (A = {#} \<or> A = canon_mset n (filter (wanted c) ps))
    \<and> (r = DATAMANAGER_ADD_OK \<longrightarrow> A = canon_mset n (filter (wanted c) ps))"
proof (rule put_to_pool_outcome[OF ok put])
  have refl: "flows n os s none none none s" by (rule flows_same) (simp_all add: same_files_def ok)
  show ?thesis if "filter (wanted c) ps = []" "r = DATAMANAGER_ADD_OK" "s' = s"
    using refl that by (intro exI[of _ "{#}"]) simp
  show ?thesis if "r = DATAMANAGER_ADD_REFUSED_RAM_CAP" "s' = s"
    using refl that by (intro exI[of _ "{#}"]) (simp add: add_codes)
  show ?thesis if "r = DATAMANAGER_ADD_REFUSED_POOL_LOCKED" "s' = s\<lparr>rr_put := rr, trylocks := k\<rparr>" for rr and k :: nat
    using that flows_same[OF fields_same_mallocs(2,1) ok(1)] by (intro exI[of _ "{#}"]) (simp add: add_codes)
  show ?thesis if "f < nb_file_possibility s" "s' = insert_wanted n os now c ps f (s\<lparr>rr_put := rr, trylocks := k\<rparr>)" for f rr k
  proof -
    let ?s = "s\<lparr>rr_put := rr, trylocks := k\<rparr>"
    have "stock_ok n ?s" using same_filesD(2)[OF fields_same_mallocs(2)] ok(1) by simp
    from insert_wanted_flows[OF this _ ps] that(1) obtain L where "L \<subseteq># canon_mset n (filter (wanted c) ps)"
      "flows n os ?s (only c (canon_mset n (filter (wanted c) ps))) none (only c L) (insert_wanted n os now c ps f ?s)" by fastforce
    then show ?thesis using same_flows[OF fields_same_mallocs(2,1) ok(1)] that(2) by blast
  qed
qed

lemma flows_small: "flows n os s A P L s' \<Longrightarrow> nb_small s \<Longrightarrow> nb_small s'"
  by (simp add: flows_def nb_small_def)

text \<open>\<open>put_to_local\<close>: each pool is given its share whole or nothing, both when the answer is 0; of what
  a pool is given, a position is lost for every allocation that fails.\<close>

lemma put_to_local_flows:
  assumes ps: "list_all (stream_packet n) ps" and ok: "stock_ok n s" "nb_small s" and put: "put_to_local n os now (Some ps) s = (r, s')"
  shows "\<exists>share lost. flows n os s share none lost s' \<and> (\<forall>c. lost c \<subseteq># share c \<and> (share c = {#} \<or> share c = canon_mset n (filter (wanted c) ps)))
    \<and> (r = DATAMANAGER_ADD_OK \<longrightarrow> (\<forall>c. share c = canon_mset n (filter (wanted c) ps)))"
proof -
  obtain r1 s1 r2 where p1: "put_to_pool n os now ps False s = (r1, s1)" and p2: "put_to_pool n os now ps True s1 = (r2, s')"
    and r: "r = DATAMANAGER_ADD_OK \<longrightarrow> r1 = DATAMANAGER_ADD_OK \<and> r2 = DATAMANAGER_ADD_OK"
    using put by (auto simp: put_to_local_def add_codes split: prod.splits if_splits)
  obtain A L where A: "flows n os s (only False A) none (only False L) s1" "L \<subseteq># A" "A = {#} \<or> A = canon_mset n (filter (wanted False) ps)"
    "r1 = DATAMANAGER_ADD_OK \<longrightarrow> A = canon_mset n (filter (wanted False) ps)" using put_to_pool_flows[OF ps ok p1] by blast
  have s1: "stock_ok n s1" "nb_small s1" using flows_ok[OF A(1)] flows_small[OF A(1) ok(2)] by simp_all
  obtain B M where B: "flows n os s1 (only True B) none (only True M) s'" "M \<subseteq># B" "B = {#} \<or> B = canon_mset n (filter (wanted True) ps)"
    "r2 = DATAMANAGER_ADD_OK \<longrightarrow> B = canon_mset n (filter (wanted True) ps)" using put_to_pool_flows[OF ps s1 p2] by blast
  have "flows n os s (\<lambda>c. if c then B else A) none (\<lambda>c. if c then M else L) s'"
    by (rule flows_cong[OF flows_trans[OF A(1) B(1)]]) (simp_all add: only_def)
  then show ?thesis using A B r by (intro exI[of _ "\<lambda>c. if c then B else A"] exI[of _ "\<lambda>c. if c then M else L"]) auto
qed

text \<open>Extraction.\<close>

lemma takes_flows: "takes n c s ps s' \<Longrightarrow> mallocs s' = mallocs s \<Longrightarrow> flows n os s none (only c (mset ps)) none s'"
  using takes_other(1)[of n c s ps s'] by (auto simp: takes_def flows_def only_def failed_allocations_def)

lemma scroll_file_flows:
  "stock_ok n s \<Longrightarrow> f < nb_file_possibility s \<Longrightarrow> scroll_file n os c f k s = (ps, s') \<Longrightarrow>
    \<exists>L. flows n os s none (only c (mset ps)) (only c L) s' \<and> length ps \<le> k \<and> list_all (stock_packet n) ps"
proof (induction k arbitrary: s ps)
  case 0
  then show ?case using flows_same[of s s n os] by (intro exI[of _ "{#}"]) (simp add: same_files_def)
next
  case (Suc k)
  note fl = stock_ok_index[OF Suc.prems(1,2), of c]
  show ?case
  proof (cases "file_of c f s" rule: rev_cases)
    case Nil
    then show ?thesis using pool_scroll_empty[OF fl Nil] Suc.prems flows_same[of s s n os] by (intro exI[of _ "{#}"]) (simp add: same_files_def)
  next
    case (snoc q r)
    note sc = pool_scroll_last[OF Suc.prems(1,2) snoc]
    let ?s = "set_file c f q s" and ?p = "stored n r"
    let ?t = "?s\<lparr>mallocs := Suc (mallocs ?s)\<rparr>"
    have ms: "mallocs ?s = mallocs s" by (simp add: set_file_def)
    have same: "same_files ?s ?t" by simp
    obtain qs where qs: "scroll_file n os c f k ?t = (qs, s')" and e: "ps = (if os_malloc os (mallocs s) then ?p # qs else qs)"
      using Suc.prems(3) sc(1) ms by (auto split: prod.splits)
    have p: "stock_packet n ?p" and tk: "takes n c s [?p] ?s" using sc(2) by (simp_all add: takes_def)
    let ?P = "if os_malloc os (mallocs s) then {#?p#} else {#}" and ?L = "if os_malloc os (mallocs s) then {#} else {#?p#}"
    have a: "stock_ok n ?t" "f < nb_file_possibility ?t" using tk same_filesD(2)[OF same] Suc.prems(2) by (simp_all add: takes_def)
    have "flows n os s none (only c {#?p#}) none ?s" using takes_flows[OF tk ms] by simp
    then have first: "flows n os s none (only c ?P) (only c ?L) ?t"
      using same_filesD(1)[OF same] a(1) ms only_size[of c "{#?p#}"] failed_one[of ?t s os] by (auto simp: flows_def)
    obtain L where L: "flows n os ?t none (only c (mset qs)) (only c L) s'" "length qs \<le> k" "list_all (stock_packet n) qs"
      using Suc.IH[OF a qs] by blast
    have "flows n os s none (only c (mset ps)) (only c (?L + L)) s'"
      by (rule flows_cong[OF flows_trans[OF first L(1)]]) (simp_all add: only_sum e)
    then show ?thesis using L(2,3) p e by (intro exI[of _ "?L + L"]) auto
  qed
qed

text \<open>An extraction from pool \<open>c\<close>: what left the pool was served or lost.\<close>

definition extracted :: "nat \<Rightarrow> os \<Rightarrow> bool \<Rightarrow> nat \<Rightarrow> stock \<Rightarrow> possibility_packet list \<Rightarrow> stock \<Rightarrow> bool" where
  "extracted n os c mx s ps s' \<longleftrightarrow> (\<exists>L. flows n os s none (only c (mset ps)) (only c L) s') \<and> length ps \<le> mx \<and> list_all (stock_packet n) ps"

lemma extracted_ok: "extracted n os c mx s ps s' \<Longrightarrow> stock_ok n s' \<and> nb_file_possibility s' = nb_file_possibility s"
  using flows_ok by (auto simp: extracted_def)

lemma extracted_nothing: "same_files s s' \<Longrightarrow> mallocs s' = mallocs s \<Longrightarrow> stock_ok n s \<Longrightarrow> extracted n os c mx s [] s'"
  using flows_same[of s s' n os] by (auto simp: extracted_def intro!: exI[of _ "{#}"])

lemma extracted_after_nothing:
  assumes "extracted n os c mx s [] s1" "extracted n os c mx s1 ps s'"
  shows "extracted n os c mx s ps s'"
proof -
  obtain L where L: "flows n os s none (only c {#}) (only c L) s1" using assms(1) by (auto simp: extracted_def)
  obtain M where M: "flows n os s1 none (only c (mset ps)) (only c M) s'" using assms(2) by (auto simp: extracted_def)
  have "flows n os s none (only c (mset ps)) (only c (L + M)) s'" by (rule flows_cong[OF flows_trans[OF L M]]) (simp_all add: only_sum)
  then show ?thesis using assms(2) by (auto simp: extracted_def)
qed

lemma take_from_file_extracted:
  assumes "stock_ok n s" "f < nb_file_possibility s" "take_from_file n os now c mx f s = (ps, s')"
  shows "extracted n os c mx s ps s'"
proof -
  obtain qs s1 where q: "scroll_file n os c f mx s = (qs, s1)" by fastforce
  obtain L where L: "flows n os s none (only c (mset qs)) (only c L) s1" "length qs \<le> mx" "list_all (stock_packet n) qs"
    using scroll_file_flows[OF assms(1,2) q] by blast
  have e: "ps = rev qs" "same_files s1 s'" "mallocs s' = mallocs s1" using assms(3) q by (auto simp: take_from_file_def same_files_def split: if_splits)
  show ?thesis using flows_then_same[OF L(1) e(2,3)] L(2,3) by (auto simp: extracted_def e(1) list_all_iff)
qed

lemma scroll_sweep_extracted:
  "stock_ok n s \<Longrightarrow> scroll_sweep n os now c mx start ks t s = (r, t', s') \<Longrightarrow> extracted n os c mx s (case r of None \<Rightarrow> [] | Some ps \<Rightarrow> ps) s'"
proof (induction ks arbitrary: s)
  case Nil
  then show ?case using extracted_nothing[of s s n] by (auto simp: same_files_def)
next
  case (Cons k ks)
  let ?s = "s\<lparr>trylocks := Suc (trylocks s)\<rparr>" and ?f = "(start + k) mod nb_file_possibility s"
  have f: "?f < nb_file_possibility ?s" using Cons.prems(1) by (simp add: stock_ok_def)
  have same: "same_files s ?s" by simp
  have ok: "stock_ok n ?s" using same_filesD(2)[OF same] Cons.prems(1) by simp
  have first: "extracted n os c mx s [] ?s" by (rule extracted_nothing[OF same _ Cons.prems(1)]) simp
  consider "t ?f" | ps where "r = Some ps" "take_from_file n os now c mx ?f ?s = (ps, s')"
    | "\<not> t ?f" "scroll_sweep n os now c mx start ks t ?s = (r, t', s')"
    using Cons.prems(2) by (auto simp: trylock_def Let_def split: if_splits prod.splits)
  then show ?case
  proof cases
    case 1
    then show ?thesis using Cons by (simp add: Let_def)
  next
    case 2
    show ?thesis using extracted_after_nothing[OF first take_from_file_extracted[OF ok f 2(2)]] 2(1) by simp
  next
    case 3
    show ?thesis by (rule extracted_after_nothing[OF first Cons.IH[OF ok 3(2)]])
  qed
qed

lemma scroll_attempts_extracted:
  "stock_ok n s \<Longrightarrow> scroll_attempts n os now c mx start t failed s = (ps, s') \<Longrightarrow> extracted n os c mx s ps s'"
proof (induction n os now c mx start t failed s rule: scroll_attempts.induct)
  case (1 n os now c mx start t failed s)
  obtain r t1 s1 where sw: "scroll_sweep n os now c mx start [0..<nb_file_possibility s] t s = (r, t1, s1)" by (metis prod_cases3)
  note ex = scroll_sweep_extracted[OF 1(3) sw]
  have ok: "stock_ok n s1" using extracted_ok[OF ex] by simp
  show ?case
  proof (cases r)
    case None
    show ?thesis
    proof (cases "Suc failed \<ge> DATAMANAGER_TRYLOCK_MAX_SWEEPS")
      case True
      then have "ps = [] \<and> s' = s1" using 1(4) None sw by (subst (asm) scroll_attempts.simps) simp
      then show ?thesis using ex None by simp
    next
      case False
      have run: "scroll_attempts n os now c mx start t1 (Suc failed) s1 = (ps, s')"
        using 1(4) None sw False by (subst (asm) scroll_attempts.simps) simp
      have "extracted n os c mx s1 ps s'" by (rule 1(1)[OF sw[symmetric] None refl False ok run])
      then show ?thesis using extracted_after_nothing ex None by simp
    qed
  next
    case (Some qs)
    show ?thesis
    proof (cases "qs = [] \<and> \<not> list_all t1 [0..<nb_file_possibility s]")
      case True
      have run: "scroll_attempts n os now c mx start t1 failed s1 = (ps, s')"
        using 1(4) Some sw True by (subst (asm) scroll_attempts.simps) simp
      have "extracted n os c mx s1 ps s'" by (rule 1(2)[OF sw[symmetric] Some refl True ok run])
      then show ?thesis using extracted_after_nothing ex Some True by simp
    next
      case False
      then have "ps = qs \<and> s' = s1" using 1(4) Some sw by (subst (asm) scroll_attempts.simps) auto
      then show ?thesis using ex Some by simp
    qed
  qed
qed

lemma scroll_from_pool_extracted:
  assumes "stock_ok n s" "scroll_from_pool n os now c mx s = (ps, s')"
  shows "extracted n os c mx s ps s'"
proof -
  obtain start rr where r: "datamanager_rr_next_start (rr_scroll s c) (nb_file_possibility s) = (start, rr)" by fastforce
  let ?s = "s\<lparr>rr_scroll := (rr_scroll s)(c := rr)\<rparr>"
  have same: "same_files s ?s" by simp
  have run: "scroll_attempts n os now c mx start (\<lambda>_. False) 0 ?s = (ps, s')" using assms(2) r by (simp add: scroll_from_pool_def)
  have "stock_ok n ?s" using same_filesD(2)[OF same] assms(1) by simp
  from scroll_attempts_extracted[OF this run] extracted_nothing[OF same _ assms(1)] show ?thesis using extracted_after_nothing by fastforce
qed

text \<open>An extraction for a search may lose positions of both pools, and serves from one.\<close>

lemma scroll_from_local_flows:
  assumes "stock_ok n s" "scroll_from_local n os now mx s = (ps, s')"
  shows "\<exists>c lost. flows n os s none (only c (mset ps)) lost s' \<and> length ps \<le> mx \<and> list_all (stock_packet n) ps"
proof -
  obtain ps1 s1 where 1: "scroll_from_pool n os now True mx s = (ps1, s1)" by fastforce
  note e1 = scroll_from_pool_extracted[OF assms(1) 1]
  show ?thesis
  proof (cases "ps1 = []")
    case False
    then have "ps = ps1" "s' = s1" using assms(2) 1 by (simp_all add: scroll_from_local_def)
    then show ?thesis using e1 unfolding extracted_def by blast
  next
    case True
    obtain s2 where 2: "scroll_from_pool n os now False mx s1 = (ps, s2)" and same: "same_files s2 s'" "mallocs s' = mallocs s2"
      using assms(2) 1 True by (auto simp: scroll_from_local_def note_unmet_def same_files_def split: prod.splits if_splits)
    have "stock_ok n s1" using extracted_ok[OF e1] by simp
    note e2 = scroll_from_pool_extracted[OF this 2]
    obtain L where L: "flows n os s none none (only True L) s1" using e1 True by (auto simp: extracted_def)
    obtain M where M: "flows n os s1 none (only False (mset ps)) (only False M) s2" using e2 by (auto simp: extracted_def)
    have "flows n os s none (only False (mset ps)) (\<lambda>c. only True L c + only False M c) s'"
      by (rule flows_then_same[OF flows_cong[OF flows_trans[OF L M]] same]) simp_all
    then show ?thesis using e2 unfolding extracted_def by blast
  qed
qed

lemma scroll_tocheck_extracted:
  assumes "stock_ok n s" "scroll_from_local_tocheck n os now mx s = (ps, s')"
  shows "extracted n os False mx s ps s'"
proof -
  obtain s1 where 1: "scroll_from_pool n os now False mx s = (ps, s1)" and same: "same_files s1 s'" "mallocs s' = mallocs s1"
    using assms(2) by (auto simp: scroll_from_local_tocheck_def note_unmet_def same_files_def split: prod.splits if_splits)
  obtain L where L: "flows n os s none (only False (mset ps)) (only False L) s1" "length ps \<le> mx" "list_all (stock_packet n) ps"
    using scroll_from_pool_extracted[OF assms(1) 1] by (auto simp: extracted_def)
  show ?thesis using flows_then_same[OF L(1) same] L(2,3) by (auto simp: extracted_def)
qed

lemma put_to_pool_refusals:
  assumes ok: "stock_ok n s" "nb_small s" and put: "put_to_pool n os now ps c s = (r, s')"
  shows "stock_max_ram_bytes s' = stock_max_ram_bytes s"
    and "filter (wanted c) ps = [] \<Longrightarrow> s' = s"
    and "\<forall>k. os_trylock os k \<Longrightarrow> stock_max_ram_bytes s = 0 \<Longrightarrow> r = DATAMANAGER_ADD_OK"
proof -
  show "filter (wanted c) ps = [] \<Longrightarrow> s' = s" using put by (simp add: put_to_pool_def)
  show "stock_max_ram_bytes s' = stock_max_ram_bytes s" by (rule put_to_pool_outcome[OF ok put]) (simp_all add: ram_limit_kept)
  show "r = DATAMANAGER_ADD_OK" if "\<forall>k. os_trylock os k" "stock_max_ram_bytes s = 0"
    by (rule put_to_pool_outcome[OF ok put]) (use that in \<open>metis less_irrefl\<close>)+
qed

lemma put_to_local_limit:
  assumes "list_all (stream_packet n) ps" "stock_ok n s" "nb_small s" "put_to_local n os now (Some ps) s = (r, s')"
  shows "(\<forall>k. os_trylock os k) \<Longrightarrow> stock_max_ram_bytes s = 0 \<Longrightarrow> r = DATAMANAGER_ADD_OK"
    and "memory os \<Longrightarrow> r = DATAMANAGER_ADD_OK \<Longrightarrow> ps \<noteq> [] \<Longrightarrow> 0 < stock_max_ram_bytes s \<Longrightarrow> datamanager_resident_bytes s' \<le> stock_max_ram_bytes s"
proof -
  obtain r1 s1 r2 where p1: "put_to_pool n os now ps False s = (r1, s1)" and p2: "put_to_pool n os now ps True s1 = (r2, s')"
    and r: "r = DATAMANAGER_ADD_OK \<longleftrightarrow> r1 = DATAMANAGER_ADD_OK \<and> r2 = DATAMANAGER_ADD_OK"
    using assms(4) by (auto simp: put_to_local_def add_codes split: prod.splits if_splits)
  obtain A L where "flows n os s (only False A) none (only False L) s1" using put_to_pool_flows[OF assms(1-3) p1] by blast
  then have s1: "stock_ok n s1" "nb_small s1" using flows_ok flows_small assms(3) by blast+
  note l1 = put_to_pool_refusals[OF assms(2,3) p1] and l2 = put_to_pool_refusals[OF s1 p2]
  show "r = DATAMANAGER_ADD_OK" if "\<forall>k. os_trylock os k" "stock_max_ram_bytes s = 0" using that l1(1,3) l2(3) r by simp
  assume m: "memory os" and h: "r = DATAMANAGER_ADD_OK" "ps \<noteq> []" "0 < stock_max_ram_bytes s"
  note m1 = put_to_pool_limit[OF assms(1) m assms(2,3) p1] and m2 = put_to_pool_limit[OF assms(1) m s1 p2]
  show "datamanager_resident_bytes s' \<le> stock_max_ram_bytes s"
  proof (cases "filter (wanted True) ps = []")
    case True
    then have "filter (wanted False) ps \<noteq> []" using h(2) by (cases ps) (auto simp: wanted_def split: if_splits)
    then show ?thesis using m1 l2(2)[OF True] r h by simp
  next
    case False
    then show ?thesis using l1(1) m2 r h by simp
  qed
qed

section \<open>Sample\<close>

text \<open>An empty stock of two queues per pool, with a limit of one megabyte.\<close>

definition empty_stock :: stock where
  "empty_stock = \<lparr>nb_file_possibility = 0, s_pool = (\<lambda>_. []), rr_put = (\<lambda>_. 0), rr_scroll = (\<lambda>_. 0),
     stock_adds_rate = stock_rate_reset_for_tests, stock_removes_rate = stock_rate_reset_for_tests,
     pool_adds_rate = (\<lambda>_. stock_rate_reset_for_tests), pool_removes_rate = (\<lambda>_. stock_rate_reset_for_tests),
     pool_unmet_rate = (\<lambda>_. stock_rate_reset_for_tests), max_result = 0, stock_max_ram_bytes = 1048576,
     expansion_work_bytes = 0, ram_tier_bytes = 0, trylocks = 0, mallocs = 0\<rparr>"

definition sample_stock :: stock where
  "sample_stock = snd (datamanager_configure_stock_files True 2 empty_stock)"

definition free_os :: os where
  "free_os = \<lparr>os_trylock = (\<lambda>_. True), os_malloc = (\<lambda>_. True)\<rparr>"

lemma configured_ok:
  assumes "0 < k" "k \<le> NB_FILE_POSSIBILITY_MAX"
  shows "stock_ok n (snd (datamanager_configure_stock_files True (int k) empty_stock))"
    "nb_small (snd (datamanager_configure_stock_files True (int k) empty_stock))"
    "content n c (snd (datamanager_configure_stock_files True (int k) empty_stock)) = {#}"
  using assms by (auto simp: datamanager_configure_stock_files_def empty_stock_def stock_ok_def nb_small_def pool_records_def content_def new_file_def Let_def min_def)

lemma sample_stock_ok: "stock_ok n sample_stock" "nb_small sample_stock" "content n c sample_stock = {#}"
  using configured_ok[of 2] by (simp_all add: sample_stock_def NB_FILE_POSSIBILITY_MAX_def)

lemma sample_stream: "stream_packet 4 sample_packet"
  using sample_packet_codec by (simp add: stream_packet_def)

lemma free_memory: "memory free_os"
  by (simp add: memory_def free_os_def)

text \<open>The only queue becomes free at the last allowed attempt.\<close>

definition late_os :: os where
  "late_os = \<lparr>os_trylock = (\<lambda>k. 4999 \<le> k), os_malloc = (\<lambda>_. True)\<rparr>"

text \<open>A stock with one checked position.\<close>

definition one_stock :: stock where
  "one_stock = set_file True 1 [the (packet_codec_encode 4 sample_packet (PACKET_CODEC_MAX_BYTES 4))] sample_stock"

lemma one_stock_ok:
  "stock_ok 4 one_stock" "nb_file_possibility one_stock = 2" "file_of True 1 one_stock \<noteq> []"
  "content 4 True one_stock = {#canonical_packet 4 sample_packet#}" "content 4 False one_stock = {#}"
proof -
  obtain r where r: "packet_codec_encode 4 sample_packet (PACKET_CODEC_MAX_BYTES 4) = Some r" "good_record 4 r" "stored 4 r = canonical_packet 4 sample_packet"
    by (rule encode_good[OF sample_stream])
  have s: "nb_file_possibility sample_stock = 2" "length (s_pool sample_stock True) = 2" "file_of True 1 sample_stock = []"
    by (simp_all add: sample_stock_def datamanager_configure_stock_files_def empty_stock_def NB_FILE_POSSIBILITY_MAX_def file_of_def new_file_def)
  have o: "one_stock = set_file True 1 [r] sample_stock" by (simp add: one_stock_def r(1))
  show "stock_ok 4 one_stock" unfolding o by (rule stock_ok_set_file[OF sample_stock_ok(1)]) (use r(2) s in simp_all)
  show "nb_file_possibility one_stock = 2" "file_of True 1 one_stock \<noteq> []" "content 4 False one_stock = {#}"
    using s sample_stock_ok(3) by (simp_all add: o)
  show "content 4 True one_stock = {#canonical_packet 4 sample_packet#}"
    using content_set_file[of 1 sample_stock True 4 "[r]"] s r(3) sample_stock_ok(3) by (simp add: o)
qed

section \<open>Properties of the pools\<close>

text \<open>C15. \<open>put_to_local\<close>, for every sequence of answers of \<open>pthread_mutex_trylock\<close> and \<open>malloc\<close>. Each
  pool is given its share of the positions, those with its flag, whole or not at all, and both
  shares when the answer is 0. What a pool is given is in its queues afterwards, except the
  positions lost, of which there is one for every allocation that failed: the code does not look
  at the result of the insertion and answers 0 all the same. So nothing is lost when the
  allocations succeed (\<open>memory os\<close>). The answer is 0 when no queue is locked and no limit is
  set. When the allocations succeed, a limit is respected after an answer of 0.\<close>

theorem put_to_local_exact:
  assumes "list_all (stream_packet n) ps" "stock_ok n s" "nb_small s" "put_to_local n os now (Some ps) s = (r, s')"
  shows "stock_ok n s'
    \<and> (\<exists>share lost. (\<forall>c. content n c s' + lost c = content n c s + share c \<and> lost c \<subseteq># share c
            \<and> (share c = {#} \<or> share c = canon_mset n (filter (wanted c) ps)))
        \<and> size (lost False) + size (lost True) = failed_allocations os s s'
        \<and> (r = DATAMANAGER_ADD_OK \<longrightarrow> (\<forall>c. share c = canon_mset n (filter (wanted c) ps))))
    \<and> ((\<forall>k. os_trylock os k) \<longrightarrow> stock_max_ram_bytes s = 0 \<longrightarrow> r = DATAMANAGER_ADD_OK)
    \<and> (memory os \<longrightarrow> r = DATAMANAGER_ADD_OK \<longrightarrow> ps \<noteq> [] \<longrightarrow> 0 < stock_max_ram_bytes s \<longrightarrow> datamanager_resident_bytes s' \<le> stock_max_ram_bytes s)"
proof -
  obtain share lost where f: "flows n os s share none lost s'"
    "\<forall>c. lost c \<subseteq># share c \<and> (share c = {#} \<or> share c = canon_mset n (filter (wanted c) ps))"
    "r = DATAMANAGER_ADD_OK \<longrightarrow> (\<forall>c. share c = canon_mset n (filter (wanted c) ps))"
    using put_to_local_flows[OF assms] by blast
  have "\<forall>c. content n c s' + lost c = content n c s + share c" "size (lost False) + size (lost True) = failed_allocations os s s'" "stock_ok n s'"
    using f(1) by (simp_all add: flows_def)
  then show ?thesis using f(2,3) put_to_local_limit[OF assms] by blast
qed

theorem put_to_local_exact_witness:
  "(let (r, s') = put_to_local 4 free_os 0 (Some [sample_packet]) sample_stock in
      stock_ok 4 s' \<and> (r = DATAMANAGER_ADD_OK \<longrightarrow> content 4 True s' = {#canonical_packet 4 sample_packet#} \<and> content 4 False s' = {#}
        \<and> datamanager_resident_bytes s' \<le> 1048576))"
proof -
  obtain r s' where p: "put_to_local 4 free_os 0 (Some [sample_packet]) sample_stock = (r, s')" by fastforce
  have w: "wanted True sample_packet" "\<not> wanted False sample_packet" "stock_max_ram_bytes sample_stock = 1048576"
    by (simp_all add: wanted_def sample_packet_def sample_stock_def datamanager_configure_stock_files_def empty_stock_def NB_FILE_POSSIBILITY_MAX_def)
  from put_to_local_exact[of 4 "[sample_packet]" sample_stock free_os 0 r s'] p sample_stream sample_stock_ok(1,2)
  obtain share lost where s: "\<forall>c. content 4 c s' + lost c = content 4 c sample_stock + share c" "size (lost False) + size (lost True) = 0"
    "r = DATAMANAGER_ADD_OK \<longrightarrow> (\<forall>c. share c = canon_mset 4 (filter (wanted c) [sample_packet]))" "stock_ok 4 s'"
    "r = DATAMANAGER_ADD_OK \<longrightarrow> datamanager_resident_bytes s' \<le> 1048576"
    using free_memory w(3) by auto
  have "content 4 c s' = share c" for c using s(1)[rule_format, of c] s(2) sample_stock_ok(3) by (cases c) simp_all
  then show ?thesis using p w s(3-5) by simp
qed

text \<open>C16. Extractions, for every sequence of answers of \<open>pthread_mutex_trylock\<close> and \<open>malloc\<close>. What is
  served, at most as many positions as asked, all canonical, comes out of one pool, the unchecked
  one for a pruner, and the rest of the stock stays, except the positions lost, one for every
  allocation that failed: the code removes a record before it knows whether it can keep the
  position. When the allocations succeed and no queue is locked, and only then is this claimed,
  an extraction for a search serves the checked pool first and answers with nothing only if both
  pools are empty; a pool whose queues are locked is not told from an empty one.
  The array of the answer is taken to be allocated (the code does not test it).\<close>

theorem scroll_from_local_exact:
  assumes "stock_ok n s"
  shows "(case scroll_from_local n os now mx s of (ps, s') \<Rightarrow>
        stock_ok n s' \<and> length ps \<le> mx \<and> (\<forall>p \<in> set ps. canonical_packet n p = p)
        \<and> (\<exists>c lost. (\<forall>c'. content n c' s = content n c' s' + (if c' = c then mset ps else {#}) + lost c')
            \<and> size (lost False) + size (lost True) = failed_allocations os s s'
            \<and> (memory os \<longrightarrow> 0 < mx \<longrightarrow> (\<forall>k. os_trylock os k) \<longrightarrow>
                (if \<exists>f < nb_file_possibility s. file_of True f s \<noteq> [] then c = True \<and> ps \<noteq> []
                 else ps = [] \<longrightarrow> (\<forall>f < nb_file_possibility s. file_of False f s = [])))))
    \<and> (case scroll_from_local_tocheck n os now mx s of (ps, s') \<Rightarrow>
        stock_ok n s' \<and> length ps \<le> mx \<and> (\<forall>p \<in> set ps. canonical_packet n p = p)
        \<and> (\<exists>lost. content n False s = content n False s' + mset ps + lost \<and> size lost = failed_allocations os s s')
        \<and> content n True s' = content n True s
        \<and> (memory os \<longrightarrow> 0 < mx \<longrightarrow> (\<forall>k. os_trylock os k) \<longrightarrow> ps = [] \<longrightarrow> (\<forall>f < nb_file_possibility s. file_of False f s = [])))"
proof -
  obtain ps s1 where 1: "scroll_from_local n os now mx s = (ps, s1)" by fastforce
  obtain qs s2 where 2: "scroll_from_local_tocheck n os now mx s = (qs, s2)" by fastforce
  have canon: "\<forall>p \<in> set ps. canonical_packet n p = p" if "list_all (stock_packet n) ps" for ps using that by (auto simp: stock_packet_def list_all_iff)
  have "\<exists>c lost. flows n os s none (only c (mset ps)) lost s1 \<and> length ps \<le> mx \<and> list_all (stock_packet n) ps
    \<and> (memory os \<longrightarrow> 0 < mx \<longrightarrow> (\<forall>k. os_trylock os k) \<longrightarrow>
                (if \<exists>f < nb_file_possibility s. file_of True f s \<noteq> [] then c = True \<and> ps \<noteq> []
                 else ps = [] \<longrightarrow> (\<forall>f < nb_file_possibility s. file_of False f s = [])))"
  proof (cases "memory os")
    case True
    obtain c where c: "served n c s ps s1" "length ps \<le> mx" "0 < mx \<longrightarrow> (\<forall>k. os_trylock os k) \<longrightarrow>
        (if \<exists>f < nb_file_possibility s. file_of True f s \<noteq> [] then c = True \<and> ps \<noteq> []
         else ps = [] \<longrightarrow> (\<forall>f < nb_file_possibility s. file_of False f s = []))"
      using scroll_from_local_spec[OF True assms 1] by blast
    have "mallocs s \<le> mallocs s1" using scroll_from_local_flows[OF assms 1] by (auto simp: flows_def)
    moreover have "content n c' s = content n c' s1 + only c (mset ps) c'" for c' using c(1) by (cases "c' = c") (auto simp: served_def only_def)
    ultimately have "flows n os s none (only c (mset ps)) none s1" using c(1) True by (simp add: served_def flows_def)
    then show ?thesis using c by (intro exI[of _ c] exI[of _ none]) (simp add: served_def)
  next
    case False
    then show ?thesis using scroll_from_local_flows[OF assms 1] by simp
  qed
  then obtain c lost where a: "flows n os s none (only c (mset ps)) lost s1" "length ps \<le> mx" "list_all (stock_packet n) ps"
    "memory os \<longrightarrow> 0 < mx \<longrightarrow> (\<forall>k. os_trylock os k) \<longrightarrow>
                (if \<exists>f < nb_file_possibility s. file_of True f s \<noteq> [] then c = True \<and> ps \<noteq> []
                 else ps = [] \<longrightarrow> (\<forall>f < nb_file_possibility s. file_of False f s = []))" by blast
  obtain L where b: "flows n os s none (only False (mset qs)) (only False L) s2" "length qs \<le> mx" "list_all (stock_packet n) qs"
    using scroll_tocheck_extracted[OF assms 2] by (auto simp: extracted_def)
  show ?thesis unfolding 1 2 prod.case
  proof (intro conjI)
    show "\<exists>c lost. (\<forall>c'. content n c' s = content n c' s1 + (if c' = c then mset ps else {#}) + lost c')
            \<and> size (lost False) + size (lost True) = failed_allocations os s s1
            \<and> (memory os \<longrightarrow> 0 < mx \<longrightarrow> (\<forall>k. os_trylock os k) \<longrightarrow>
                (if \<exists>f < nb_file_possibility s. file_of True f s \<noteq> [] then c = True \<and> ps \<noteq> []
                 else ps = [] \<longrightarrow> (\<forall>f < nb_file_possibility s. file_of False f s = [])))"
      using a(1,4) by (intro exI[of _ c] exI[of _ lost]) (simp add: flows_def only_def)
    show "\<exists>lost. content n False s = content n False s2 + mset qs + lost \<and> size lost = failed_allocations os s s2"
      using b(1) by (intro exI[of _ L]) (auto simp: flows_def only_def)
    show "content n True s2 = content n True s" using b(1) by (simp add: flows_def only_def)
    show "memory os \<longrightarrow> 0 < mx \<longrightarrow> (\<forall>k. os_trylock os k) \<longrightarrow> qs = [] \<longrightarrow> (\<forall>f < nb_file_possibility s. file_of False f s = [])"
      using scroll_tocheck_spec[OF _ assms 2] by blast
  qed (use a(2,3) b(2,3) canon flows_ok[OF a(1)] flows_ok[OF b(1)] in blast)+
qed

theorem scroll_from_local_exact_witness:
  "case scroll_from_local 4 free_os 0 1 one_stock of (ps, s') \<Rightarrow>
     ps = [canonical_packet 4 sample_packet] \<and> content 4 True s' = {#} \<and> content 4 False s' = {#}"
proof -
  obtain ps s' where p: "scroll_from_local 4 free_os 0 1 one_stock = (ps, s')" by fastforce
  have f: "\<exists>f < nb_file_possibility one_stock. file_of True f one_stock \<noteq> []" using one_stock_ok(2,3) by (intro exI[of _ 1]) simp
  have free: "\<forall>k. os_trylock free_os k" by (simp add: free_os_def)
  have drop: "(memory free_os \<longrightarrow> (0 :: nat) < 1 \<longrightarrow> (\<forall>k. os_trylock free_os k) \<longrightarrow> X) = X" for X using free free_memory by simp
  note t = conjunct1[OF scroll_from_local_exact[OF one_stock_ok(1), where os = free_os and now = 0 and mx = 1], unfolded p prod.case failed_memory[OF free_memory] drop]
  then obtain c lost where
    c: "\<forall>c'. content 4 c' one_stock = content 4 c' s' + (if c' = c then mset ps else {#}) + lost c'" "size (lost False) + size (lost True) = 0"
      "if \<exists>f < nb_file_possibility one_stock. file_of True f one_stock \<noteq> [] then c = True \<and> ps \<noteq> []
       else ps = [] \<longrightarrow> (\<forall>f < nb_file_possibility one_stock. file_of False f one_stock = [])"
    by (elim conjE exE) (rule that; assumption)
  have c': "c = True" "ps \<noteq> []" "length ps \<le> 1" using c(3)[unfolded if_P[OF f]] conjunct1[OF conjunct2[OF t]] by blast+
  obtain q where q: "ps = [q]" using c'(2,3) by (cases ps) auto
  have "content 4 True s' + {#q#} = {#canonical_packet 4 sample_packet#}" "content 4 False s' = {#}"
    using c(1)[rule_format, of True] c(1)[rule_format, of False] c(2) c'(1) one_stock_ok(4,5) q by simp_all
  then show ?thesis using p q by (simp add: union_is_single)
qed

text \<open>C21. \<open>put_to_pool\<close> can answer that every queue was locked although it has inserted the positions:
  the sweep in which the last allowed attempt succeeds is counted as failed. The
  documentation of the code says that nothing has been inserted and that a retry is safe.\<close>

theorem put_to_pool_false_refusal:
  assumes "list_all (stream_packet n) ps" "filter (wanted c) ps \<noteq> []" "memory os" "stock_ok n s" "nb_file_possibility s = 1"
    and "stock_max_ram_bytes s = 0" "\<forall>k. os_trylock os k \<longleftrightarrow> trylocks s + DATAMANAGER_TRYLOCK_MAX_SWEEPS \<le> k + 1"
  shows "case put_to_pool n os now ps c s of (r, s') \<Rightarrow>
     r = DATAMANAGER_ADD_REFUSED_POOL_LOCKED \<and> content n c s' = content n c s + canon_mset n (filter (wanted c) ps)"
proof -
  let ?M = DATAMANAGER_TRYLOCK_MAX_SWEEPS
  have run: "put_attempts n os now c ps 0 0 failed t = (DATAMANAGER_ADD_REFUSED_POOL_LOCKED, insert_wanted n os now c ps 0 (t\<lparr>trylocks := trylocks s + ?M\<rparr>))"
    if "failed < ?M" "trylocks t = trylocks s + failed" "nb_file_possibility t = 1" for failed t
    using that
  proof (induction "?M - failed" arbitrary: failed t)
    case (Suc d)
    show ?case
    proof (cases "Suc failed = ?M")
      case True
      have "trylocks s + ?M = Suc (trylocks t)" using True Suc.prems(2) by simp
      moreover have "put_attempts n os now c ps 0 0 failed t = (DATAMANAGER_ADD_REFUSED_POOL_LOCKED, insert_wanted n os now c ps 0 (t\<lparr>trylocks := Suc (trylocks t)\<rparr>))"
        using assms(7) Suc.prems True by (simp add: put_attempts_step[of n os now c ps 0 0 failed t] Let_def)
      ultimately show ?thesis by simp
    next
      case False
      let ?t = "t\<lparr>trylocks := Suc (trylocks t)\<rparr>"
      have "put_attempts n os now c ps 0 0 failed t = put_attempts n os now c ps 0 0 (Suc failed) ?t"
        using assms(7) Suc.prems False by (simp add: put_attempts_step[of n os now c ps 0 0 failed t] Let_def)
      also have "\<dots> = (DATAMANAGER_ADD_REFUSED_POOL_LOCKED, insert_wanted n os now c ps 0 (?t\<lparr>trylocks := trylocks s + ?M\<rparr>))"
        by (rule Suc.hyps(1)) (use Suc False in auto)
      finally show ?thesis by simp
    qed
  qed simp
  obtain rr where rr: "datamanager_rr_next_start (rr_put s c) (nb_file_possibility s) = (0, rr)"
    using assms(5) by (simp add: datamanager_rr_next_start_def)
  let ?s = "s\<lparr>rr_put := (rr_put s)(c := rr), trylocks := trylocks s + ?M\<rparr>"
  have put: "put_to_pool n os now ps c s = (DATAMANAGER_ADD_REFUSED_POOL_LOCKED, insert_wanted n os now c ps 0 ?s)"
    using assms(2,5,6) rr run[of 0 "s\<lparr>rr_put := (rr_put s)(c := rr)\<rparr>"] by (simp add: put_to_pool_def DATAMANAGER_TRYLOCK_MAX_SWEEPS_def)
  have same: "same_files s ?s" by (simp add: same_files_def)
  have "adds n s (only c (canon_mset n (filter (wanted c) ps))) (insert_wanted n os now c ps 0 ?s)"
    by (rule same_adds[OF same insert_wanted_adds[OF _ _ assms(1,3)]]) (use same_filesD[OF same] assms(4,5) in simp_all)
  then show ?thesis unfolding put by (simp add: adds_def only_def)
qed

theorem put_to_pool_false_refusal_witness:
  "case put_to_pool 4 late_os 0 [sample_packet] True (snd (datamanager_configure_stock_files True 1 (empty_stock\<lparr>stock_max_ram_bytes := 0\<rparr>))) of
     (r, s') \<Rightarrow> r = DATAMANAGER_ADD_REFUSED_POOL_LOCKED \<and> content 4 True s' = {#canonical_packet 4 sample_packet#}"
proof -
  let ?s = "snd (datamanager_configure_stock_files True 1 (empty_stock\<lparr>stock_max_ram_bytes := 0\<rparr>))"
  have s: "stock_ok 4 ?s" "nb_file_possibility ?s = 1" "stock_max_ram_bytes ?s = 0" "trylocks ?s = 0" "content 4 True ?s = {#}"
    by (auto simp: datamanager_configure_stock_files_def empty_stock_def NB_FILE_POSSIBILITY_MAX_def stock_ok_def pool_records_def content_def new_file_def)
  have w: "wanted True sample_packet" by (simp add: wanted_def sample_packet_def)
  show ?thesis
    using put_to_pool_false_refusal[of 4 "[sample_packet]" True late_os ?s 0] s w sample_stream
    by (simp add: late_os_def memory_def DATAMANAGER_TRYLOCK_MAX_SWEEPS_def)
qed

end
