(* ===== verification/Stock_Analysed.thy ===== *)
theory Stock_Analysed
  imports Stock_Pools
begin

text \<open>
  The positions in the hands of clients (\<open>datamanager.c\<close>): a queue of raw positions per thread of
  the server, an index of hash chains over their elements, the owner and the lease of each.
  Positions are registered when they are served, removed when the client reports them done, and
  put back in the stock when their lease has expired or on demand. The index holds pointers to
  elements; following one that points to a freed element is undefined behaviour, the result
  \<open>None\<close>.
\<close>

section \<open>The state\<close>

definition ANALYSED_INDEX_BUCKETS :: nat where "ANALYSED_INDEX_BUCKETS = 8191"

record AnalysedIndexNode =
  an_hash :: u64
  an_element :: addr
  an_owner :: "u8 list option"
  an_lease_deadline :: int

text \<open>The elements of an analysed queue are raw positions with the address of their block;
  \<open>analysed_index f b\<close> is the chain of bucket \<open>b\<close> of queue \<open>f\<close>.\<close>

type_synonym raw_queue = "(addr \<times> possibility_packet) list"

record datamanager =
  d_stock :: stock
  file_possibility_analysed :: "raw_queue list"
  analysed_index :: "nat \<Rightarrow> nat \<Rightarrow> AnalysedIndexNode list"
  analysed_index_may_be_incomplete :: bool
  analysed_lease_seconds :: int

abbreviation nb_files :: "datamanager \<Rightarrow> nat" where
  "nb_files d \<equiv> nb_file_possibility (d_stock d)"

definition set_queue :: "nat \<Rightarrow> raw_queue \<Rightarrow> datamanager \<Rightarrow> datamanager" where
  "set_queue f q d = d\<lparr>file_possibility_analysed := (file_possibility_analysed d)[f := q]\<rparr>"

definition set_chain :: "nat \<Rightarrow> nat \<Rightarrow> AnalysedIndexNode list \<Rightarrow> datamanager \<Rightarrow> datamanager" where
  "set_chain f b ns d = d\<lparr>analysed_index := (analysed_index d)(f := (analysed_index d f)(b := ns))\<rparr>"

abbreviation queue_of :: "nat \<Rightarrow> datamanager \<Rightarrow> raw_queue" where
  "queue_of f d \<equiv> file_possibility_analysed d ! f"

section \<open>The hash of a position\<close>

definition hash_byte :: "u8 \<Rightarrow> u64 \<Rightarrow> u64" where
  "hash_byte b h = (h XOR ucast b) * 1099511628211"

definition hash_half :: "u16 \<Rightarrow> u64 \<Rightarrow> u64" where
  "hash_half v h = hash_byte (ucast (drop_bit 8 v)) (hash_byte (ucast v) h)"

definition hash_possibility_key :: "nat \<Rightarrow> possibility_packet \<Rightarrow> u64" where
  "hash_possibility_key n p =
     (let h0 = hash_byte (of_nat (py p)) (hash_byte (of_nat (px p)) 1469598103934665603);
          h1 = hash_half (of_nat (alloc p)) h0;
          h2 = fold (\<lambda>g. hash_half (b_faceused p ! g)) [0..<ETERN_PARTS n div 16] h1
      in fold (\<lambda>x. fold (\<lambda>y. hash_half (of_int (grid_at n p x y))) [0..<n]) [0..<n] h2)"

definition hash_bucket :: "u64 \<Rightarrow> nat" where
  "hash_bucket h = unat h mod ANALYSED_INDEX_BUCKETS"

section \<open>The index\<close>

text \<open>\<open>node_memory\<close> says whether the node can be allocated; \<open>now\<close> is the time.\<close>

definition analysed_index_add :: "nat \<Rightarrow> int \<Rightarrow> bool \<Rightarrow> nat \<Rightarrow> addr \<times> possibility_packet \<Rightarrow> u8 list option \<Rightarrow> datamanager \<Rightarrow> datamanager" where
  "analysed_index_add n now node_memory f e owner d =
     (if \<not> node_memory then d\<lparr>analysed_index_may_be_incomplete := True\<rparr>
      else (let h = hash_possibility_key n (snd e);
                node = \<lparr>an_hash = h, an_element = fst e, an_owner = owner,
                        an_lease_deadline = (case owner of None \<Rightarrow> 0
                          | Some _ \<Rightarrow> if analysed_lease_seconds d > 0 then now + analysed_lease_seconds d else 0)\<rparr>
            in set_chain f (hash_bucket h) (node # analysed_index d f (hash_bucket h)) d))"

text \<open>The walk along a chain: the chain without the node that was found, and its element.\<close>

fun chain_find :: "nat \<Rightarrow> raw_queue \<Rightarrow> u64 \<Rightarrow> possibility_packet \<Rightarrow> AnalysedIndexNode list \<Rightarrow> (AnalysedIndexNode list \<times> addr option) option" where
  "chain_find n q h key [] = Some ([], None)"
| "chain_find n q h key (node # ns) =
     (if an_hash node = h
      then (case map_of q (an_element node) of
              None \<Rightarrow> None
            | Some p \<Rightarrow> if compare_possibility n (Some p) (Some key) = 0 then Some (ns, Some (an_element node))
                        else map_option (apfst ((#) node)) (chain_find n q h key ns))
      else map_option (apfst ((#) node)) (chain_find n q h key ns))"

definition analysed_index_find_and_remove :: "nat \<Rightarrow> nat \<Rightarrow> possibility_packet \<Rightarrow> datamanager \<Rightarrow> (addr option \<times> datamanager) option" where
  "analysed_index_find_and_remove n f key d =
     (let h = hash_possibility_key n key; b = hash_bucket h
      in map_option (\<lambda>(ns, r). (r, set_chain f b ns d)) (chain_find n (queue_of f d) h key (analysed_index d f b)))"

fun chain_forget :: "addr \<Rightarrow> AnalysedIndexNode list \<Rightarrow> AnalysedIndexNode list" where
  "chain_forget a [] = []"
| "chain_forget a (node # ns) = (if an_element node = a then ns else node # chain_forget a ns)"

definition analysed_index_forget_element :: "nat \<Rightarrow> nat \<Rightarrow> addr \<times> possibility_packet \<Rightarrow> datamanager \<Rightarrow> datamanager" where
  "analysed_index_forget_element n f e d =
     (let b = hash_bucket (hash_possibility_key n (snd e)) in set_chain f b (chain_forget (fst e) (analysed_index d f b)) d)"

definition analysed_index_clear :: "nat \<Rightarrow> datamanager \<Rightarrow> datamanager" where
  "analysed_index_clear f d = d\<lparr>analysed_index := (analysed_index d)(f := (\<lambda>b. if b < ANALYSED_INDEX_BUCKETS then [] else analysed_index d f b))\<rparr>"

text \<open>Removing an element of a queue by its address.\<close>

definition remove_element :: "addr \<Rightarrow> raw_queue \<Rightarrow> raw_queue" where
  "remove_element a q = filter (\<lambda>e. fst e \<noteq> a) q"

section \<open>Registering and acknowledging\<close>

text \<open>\<open>block\<close> is the address \<open>malloc\<close> returns for the element, \<open>NULL\<close> when there is no memory: the
  position is then not registered, and the answer is 0 all the same.\<close>

definition register_in ::
  "nat \<Rightarrow> int \<Rightarrow> addr \<Rightarrow> bool \<Rightarrow> possibility_packet \<Rightarrow> u8 list option \<Rightarrow> nat \<Rightarrow> datamanager \<Rightarrow> datamanager" where
  "register_in n now block node_memory p owner f d =
     (let d1 = d\<lparr>d_stock := (d_stock d)\<lparr>max_result := max (max_result (d_stock d)) (alloc p)\<rparr>\<rparr>
      in if block = NULL then d1
         else analysed_index_add n now node_memory f (block, p) owner (set_queue f (queue_of f d1 @ [(block, p)]) d1))"

function add_analysed_attempts ::
  "nat \<Rightarrow> os \<Rightarrow> int \<Rightarrow> addr \<Rightarrow> bool \<Rightarrow> possibility_packet \<Rightarrow> int \<Rightarrow> u8 list option \<Rightarrow> nat \<Rightarrow> nat \<Rightarrow> datamanager \<Rightarrow> int \<times> datamanager" where
  "add_analysed_attempts n os now block node_memory p thread owner currfile waits d =
     (let (free, s) = trylock os (d_stock d); d1 = d\<lparr>d_stock := s\<rparr> in
      if free then (0, register_in n now block node_memory p owner currfile d1)
      else if thread < 0 \<and> Suc currfile < nb_files d
      then (if waits \<ge> DATAMANAGER_TRYLOCK_MAX_SWEEPS then (-1, d1)
            else add_analysed_attempts n os now block node_memory p thread owner (Suc currfile) waits d1)
      else (if Suc waits \<ge> DATAMANAGER_TRYLOCK_MAX_SWEEPS then (-1, d1)
            else add_analysed_attempts n os now block node_memory p thread owner (if thread < 0 then 0 else currfile) (Suc waits) d1))"
  by pat_completeness auto
termination
proof (relation "inv_image (less_than <*lex*> less_than)
    (\<lambda>(n, os, now, block, nm, p, thread, owner, currfile, waits, d). (DATAMANAGER_TRYLOCK_MAX_SWEEPS - waits, nb_files d - currfile))", goal_cases)
  case (2 n os now block nm p thread owner currfile waits d x free s d1)
  then have "nb_files d1 = nb_files d" "Suc currfile < nb_files d" by (simp_all add: trylock_def)
  then show ?case by simp
next
  case (3 n os now block nm p thread owner currfile waits d x free s d1)
  then have "Suc waits < DATAMANAGER_TRYLOCK_MAX_SWEEPS" by simp
  then have "DATAMANAGER_TRYLOCK_MAX_SWEEPS - Suc waits < DATAMANAGER_TRYLOCK_MAX_SWEEPS - waits" by simp
  then show ?case by simp
qed auto

declare add_analysed_attempts.simps [simp del]

definition add_possibility_analysed_impl ::
  "nat \<Rightarrow> os \<Rightarrow> int \<Rightarrow> addr \<Rightarrow> bool \<Rightarrow> possibility_packet option \<Rightarrow> int \<Rightarrow> u8 list option \<Rightarrow> datamanager \<Rightarrow> int \<times> datamanager" where
  "add_possibility_analysed_impl n os now block node_memory possiblity thread owner d =
     (case possiblity of None \<Rightarrow> (0, d)
      | Some p \<Rightarrow> add_analysed_attempts n os now block node_memory p thread owner (if thread \<ge> 0 then nat thread else 0) 0 d)"

definition add_possibility_analysed ::
  "nat \<Rightarrow> os \<Rightarrow> int \<Rightarrow> addr \<Rightarrow> bool \<Rightarrow> possibility_packet option \<Rightarrow> int \<Rightarrow> datamanager \<Rightarrow> int \<times> datamanager" where
  "add_possibility_analysed n os now block node_memory possiblity thread d =
     add_possibility_analysed_impl n os now block node_memory possiblity thread None d"

definition add_possibility_analysed_owned ::
  "nat \<Rightarrow> os \<Rightarrow> int \<Rightarrow> addr \<Rightarrow> bool \<Rightarrow> possibility_packet option \<Rightarrow> int \<Rightarrow> u8 list \<Rightarrow> datamanager \<Rightarrow> int \<times> datamanager" where
  "add_possibility_analysed_owned n os now block node_memory possiblity thread owner_uid d =
     add_possibility_analysed_impl n os now block node_memory possiblity thread (Some owner_uid) d"

text \<open>The element to remove from queue \<open>f\<close>: found by the index, else, when the index may be
  incomplete, by a scan of the queue.\<close>

definition locate_analysed :: "nat \<Rightarrow> nat \<Rightarrow> possibility_packet \<Rightarrow> datamanager \<Rightarrow> (addr option \<times> datamanager) option" where
  "locate_analysed n f key d =
     (case analysed_index_find_and_remove n f key d of
        None \<Rightarrow> None
      | Some (Some a, d1) \<Rightarrow> Some (Some a, d1)
      | Some (None, d1) \<Rightarrow>
          Some (if analysed_index_may_be_incomplete d
                then map_option fst (find (\<lambda>e. compare_possibility n (Some (snd e)) (Some key) = 0) (queue_of f d)) else None, d1))"

lemma locate_stock: "locate_analysed n f key d = Some (r, d') \<Longrightarrow> d_stock d' = d_stock d"
  by (auto simp: locate_analysed_def analysed_index_find_and_remove_def set_chain_def Let_def split: option.splits)

function remove_attempts ::
  "nat \<Rightarrow> os \<Rightarrow> possibility_packet \<Rightarrow> int \<Rightarrow> nat \<Rightarrow> nat \<Rightarrow> nat \<Rightarrow> nat \<Rightarrow> datamanager \<Rightarrow> (int \<times> datamanager) option" where
  "remove_attempts n os key thread scan_start step currfile waits d =
     (let (free, s) = trylock os (d_stock d); d1 = d\<lparr>d_stock := s\<rparr> in
      if free
      then (case locate_analysed n currfile key d1 of
              None \<Rightarrow> None
            | Some (Some a, d2) \<Rightarrow> Some (0, set_queue currfile (remove_element a (queue_of currfile d2)) d2)
            | Some (None, d2) \<Rightarrow>
                (if thread < 0 \<and> Suc step < nb_files d
                 then remove_attempts n os key thread scan_start (Suc step) ((scan_start + Suc step) mod nb_files d) waits d2
                 else Some (1, d2)))
      else if Suc waits \<ge> DATAMANAGER_TRYLOCK_MAX_SWEEPS then Some (-1, d1)
      else remove_attempts n os key thread scan_start step currfile (Suc waits) d1)"
  by pat_completeness auto

termination
  by (relation "inv_image (less_than <*lex*> less_than)
        (\<lambda>(n, os, key, thread, scan_start, step, currfile, waits, d). (nb_files d - step, DATAMANAGER_TRYLOCK_MAX_SWEEPS - waits))")
    (auto simp: trylock_def dest!: locate_stock)

declare remove_attempts.simps [simp del]

definition remove_possibility_analysed ::
  "nat \<Rightarrow> os \<Rightarrow> possibility_packet \<Rightarrow> int \<Rightarrow> int \<Rightarrow> datamanager \<Rightarrow> (int \<times> datamanager) option" where
  "remove_possibility_analysed n os key thread preferred_file d =
     (if thread \<ge> 0 then remove_attempts n os key thread 0 0 (nat thread) 0 d
      else if preferred_file \<ge> 0 \<and> nat preferred_file < nb_files d
      then remove_attempts n os key thread (nat preferred_file) 0 (nat preferred_file) 0 d
      else remove_attempts n os key thread 0 0 0 0 d)"

section \<open>The hash and the comparison\<close>

text \<open>Positions that compare equal have the same hash, which does not read the words of the used
  pieces beyond the pieces of the board.\<close>

lemma face_group_eq:
  assumes "g < ETERN_PARTS n div 16" "\<forall>u < n * n. is_face_used fu u = is_face_used fv u"
  shows "fu ! g = fv ! g"
proof (rule bit_word_eqI)
  fix i assume i: "i < LENGTH(16)"
  have "16 * g + i < n * n" using assms(1) i by simp
  from assms(2)[rule_format, OF this] show "bit (fu ! g) i = bit (fv ! g) i" using i by (simp add: is_face_used_bit)
qed

lemma hash_compare:
  assumes "compare_possibility n (Some p) (Some q) = 0"
  shows "hash_possibility_key n p = hash_possibility_key n q"
proof -
  have c: "alloc p = alloc q" "px p = px q" "py p = py q"
    and f: "\<forall>u < n * n. is_face_used (b_faceused p) u = is_face_used (b_faceused q) u" and g: "\<forall>c < n * n. grid p ! c = grid q ! c"
    using assms by (simp_all add: compare_zero_iff)
  have "fold (\<lambda>g. hash_half (b_faceused p ! g)) [0..<ETERN_PARTS n div 16] h = fold (\<lambda>g. hash_half (b_faceused q ! g)) [0..<ETERN_PARTS n div 16] h" for h
    by (rule fold_cong) (use face_group_eq[OF _ f] in simp_all)
  moreover have "fold (\<lambda>x. fold (\<lambda>y. hash_half (of_int (grid_at n p x y))) [0..<n]) [0..<n] h
      = fold (\<lambda>x. fold (\<lambda>y. hash_half (of_int (grid_at n q x y))) [0..<n]) [0..<n] h" for h
    by (intro fold_cong ext refl) (use g cell_pos_less in \<open>simp_all add: grid_at_def\<close>)
  ultimately show ?thesis by (simp add: hash_possibility_key_def c Let_def)
qed

section \<open>The invariant\<close>

text \<open>Each element of a queue has its own address; the nodes of a chain point to elements of the
  queue, each at most once, in the bucket of the hash of the position; unless a node could not
  be allocated, every element has its node.\<close>

definition chains_ok :: "nat \<Rightarrow> raw_queue \<Rightarrow> (nat \<Rightarrow> AnalysedIndexNode list) \<Rightarrow> bool" where
  "chains_ok n q idx \<longleftrightarrow> (\<forall>b. distinct (map an_element (idx b)) \<and>
     (\<forall>node \<in> set (idx b). \<exists>p. (an_element node, p) \<in> set q \<and> an_hash node = hash_possibility_key n p \<and> hash_bucket (an_hash node) = b))"

definition index_full :: "nat \<Rightarrow> raw_queue \<Rightarrow> (nat \<Rightarrow> AnalysedIndexNode list) \<Rightarrow> bool" where
  "index_full n q idx \<longleftrightarrow> (\<forall>e \<in> set q. fst e \<in> an_element ` set (idx (hash_bucket (hash_possibility_key n (snd e)))))"

definition queue_ok :: "nat \<Rightarrow> raw_queue \<Rightarrow> (nat \<Rightarrow> AnalysedIndexNode list) \<Rightarrow> bool \<Rightarrow> bool" where
  "queue_ok n q idx incomplete \<longleftrightarrow> distinct (map fst q) \<and> chains_ok n q idx \<and> (incomplete \<or> index_full n q idx)"

definition register_ok :: "nat \<Rightarrow> datamanager \<Rightarrow> bool" where
  "register_ok n d \<longleftrightarrow> 0 < nb_files d \<and> nb_files d \<le> length (file_possibility_analysed d)
     \<and> (\<forall>f < nb_files d. queue_ok n (queue_of f d) (analysed_index d f) (analysed_index_may_be_incomplete d))"

text \<open>The positions in the hands of clients.\<close>

definition in_hands :: "datamanager \<Rightarrow> possibility_packet multiset" where
  "in_hands d = (\<Sum>f < nb_files d. image_mset snd (mset (queue_of f d)))"

lemma remove_element_mset: "distinct (map fst q) \<Longrightarrow> (a, p) \<in> set q \<Longrightarrow> mset q = add_mset (a, p) (mset (remove_element a q))"
proof (induction q)
  case (Cons e q)
  show ?case
  proof (cases "fst e = a")
    case True
    then have "filter (\<lambda>e. fst e \<noteq> a) q = q" using Cons.prems(1) by (auto simp: filter_id_conv image_iff)
    moreover have "e = (a, p)" using Cons.prems True by (auto simp: image_iff)
    ultimately show ?thesis by (simp add: remove_element_def)
  qed (use Cons in \<open>auto simp: remove_element_def\<close>)
qed simp

lemma remove_element_set: "set (remove_element a q) = {e \<in> set q. fst e \<noteq> a}"
  by (simp add: remove_element_def)

text \<open>Forgetting an element in the queue and in its chain.\<close>

definition without :: "addr \<Rightarrow> AnalysedIndexNode list \<Rightarrow> AnalysedIndexNode list" where
  "without a ns = filter (\<lambda>node. an_element node \<noteq> a) ns"

lemma same_position: "distinct (map fst q) \<Longrightarrow> (a, p) \<in> set q \<Longrightarrow> (a, p') \<in> set q \<Longrightarrow> p = p'"
  by (metis eq_key_imp_eq_value)

lemma queue_ok_forget:
  assumes "queue_ok n q idx inc" "(a, p) \<in> set q" "b = hash_bucket (hash_possibility_key n p)"
  shows "queue_ok n (remove_element a q) (idx(b := without a (idx b))) inc"
proof -
  have d: "distinct (map fst q)" and c: "chains_ok n q idx" and full: "inc \<or> index_full n q idx" using assms(1) by (auto simp: queue_ok_def)
  have other: "an_element node \<noteq> a" if "node \<in> set (idx b')" "b' \<noteq> b" for node b'
    using c that same_position[OF d assms(2)] assms(3) unfolding chains_ok_def by metis
  have "chains_ok n (remove_element a q) (idx(b := without a (idx b)))"
    unfolding chains_ok_def
  proof (intro allI conjI ballI)
    fix b' show "distinct (map an_element ((idx(b := without a (idx b))) b'))" using c by (auto simp: chains_ok_def without_def distinct_map_filter)
    fix node assume "node \<in> set ((idx(b := without a (idx b))) b')"
    then have "node \<in> set (idx b')" "an_element node \<noteq> a" using other[of node b'] by (auto simp: without_def split: if_splits)
    then show "\<exists>p. (an_element node, p) \<in> set (remove_element a q) \<and> an_hash node = hash_possibility_key n p \<and> hash_bucket (an_hash node) = b'"
      using c by (auto simp: chains_ok_def remove_element_set)
  qed
  moreover have "inc \<or> index_full n (remove_element a q) (idx(b := without a (idx b)))"
    using full by (auto simp: index_full_def remove_element_set without_def)
  moreover have "distinct (map fst (remove_element a q))" using d by (simp add: remove_element_def distinct_map_filter)
  ultimately show ?thesis by (simp add: queue_ok_def)
qed

section \<open>The walk along a chain\<close>

lemma chain_find_spec:
  assumes "distinct (map an_element ns)" "distinct (map fst q)" "\<forall>node \<in> set ns. \<exists>p. (an_element node, p) \<in> set q"
  shows "(chain_find n q h key ns = Some (ns, None)
      \<and> (\<forall>node \<in> set ns. \<forall>p. (an_element node, p) \<in> set q \<longrightarrow> an_hash node = h \<longrightarrow> compare_possibility n (Some p) (Some key) \<noteq> 0))
    \<or> (\<exists>a p. chain_find n q h key ns = Some (without a ns, Some a) \<and> a \<in> an_element ` set ns \<and> (a, p) \<in> set q \<and> compare_possibility n (Some p) (Some key) = 0)"
  using assms(1,3)
proof (induction ns)
  case (Cons node ns)
  obtain p where p: "(an_element node, p) \<in> set q" using Cons.prems by auto
  have m: "map_of q (an_element node) = Some p" using assms(2) p by simp
  have only: "p' = p" if "(an_element node, p') \<in> set q" for p' using same_position[OF assms(2)] p that by blast
  show ?case
  proof (cases "an_hash node = h \<and> compare_possibility n (Some p) (Some key) = 0")
    case True
    have "without (an_element node) (node # ns) = ns" using Cons.prems(1) by (auto simp: without_def filter_id_conv image_iff)
    then show ?thesis using True m p by auto
  next
    case False
    then have e: "chain_find n q h key (node # ns) = map_option (apfst ((#) node)) (chain_find n q h key ns)" using m by auto
    have "(chain_find n q h key ns = Some (ns, None)
        \<and> (\<forall>node \<in> set ns. \<forall>p. (an_element node, p) \<in> set q \<longrightarrow> an_hash node = h \<longrightarrow> compare_possibility n (Some p) (Some key) \<noteq> 0))
      \<or> (\<exists>a p. chain_find n q h key ns = Some (without a ns, Some a) \<and> a \<in> an_element ` set ns \<and> (a, p) \<in> set q \<and> compare_possibility n (Some p) (Some key) = 0)"
      by (rule Cons.IH) (use Cons.prems in auto)
    then show ?thesis
    proof (elim disjE exE conjE)
      assume "chain_find n q h key ns = Some (ns, None)"
        "\<forall>node \<in> set ns. \<forall>p. (an_element node, p) \<in> set q \<longrightarrow> an_hash node = h \<longrightarrow> compare_possibility n (Some p) (Some key) \<noteq> 0"
      then show ?thesis using e False only by auto
    next
      fix a p' assume a: "chain_find n q h key ns = Some (without a ns, Some a)" "a \<in> an_element ` set ns" "(a, p') \<in> set q" "compare_possibility n (Some p') (Some key) = 0"
      then have "an_element node \<noteq> a" using Cons.prems(1) by auto
      then show ?thesis using e a by (auto simp: without_def)
    qed
  qed
qed simp

section \<open>Changes of one queue\<close>

lemma queue_fields [simp]:
  "d_stock (set_queue f q d) = d_stock d" "d_stock (set_chain f b ns d) = d_stock d"
  "analysed_index (set_queue f q d) = analysed_index d"
  "file_possibility_analysed (set_chain f b ns d) = file_possibility_analysed d"
  "analysed_index_may_be_incomplete (set_queue f q d) = analysed_index_may_be_incomplete d"
  "analysed_index_may_be_incomplete (set_chain f b ns d) = analysed_index_may_be_incomplete d"
  "length (file_possibility_analysed (set_queue f q d)) = length (file_possibility_analysed d)"
  "analysed_index (set_chain f b ns d) f = (analysed_index d f)(b := ns)"
  "f' \<noteq> f \<Longrightarrow> analysed_index (set_chain f b ns d) f' = analysed_index d f'"
  "f < length (file_possibility_analysed d) \<Longrightarrow> queue_of f (set_queue f q d) = q"
  "f' \<noteq> f \<Longrightarrow> queue_of f' (set_queue f q d) = queue_of f' d"
  by (simp_all add: set_queue_def set_chain_def)

text \<open>Two states that differ in queue \<open>f\<close> and its chains only.\<close>

definition only_queue :: "nat \<Rightarrow> datamanager \<Rightarrow> datamanager \<Rightarrow> bool" where
  "only_queue f d d' \<longleftrightarrow> nb_files d' = nb_files d \<and> length (file_possibility_analysed d') = length (file_possibility_analysed d)
     \<and> (\<forall>f' < nb_files d. f' \<noteq> f \<longrightarrow> queue_of f' d' = queue_of f' d \<and> analysed_index d' f' = analysed_index d f')"

lemma register_ok_only:
  assumes "register_ok n d" "only_queue f d d'" "analysed_index_may_be_incomplete d \<longrightarrow> analysed_index_may_be_incomplete d'"
    and "queue_ok n (queue_of f d') (analysed_index d' f) (analysed_index_may_be_incomplete d')"
  shows "register_ok n d'"
proof -
  have "queue_ok n (queue_of f' d') (analysed_index d' f') (analysed_index_may_be_incomplete d')" if "f' < nb_files d" for f'
    using assms that by (cases "f' = f") (auto simp: register_ok_def only_queue_def queue_ok_def)
  then show ?thesis using assms(1,2) by (simp add: register_ok_def only_queue_def)
qed

lemma in_hands_only:
  assumes "only_queue f d d'" "f < nb_files d"
  shows "in_hands d' + image_mset snd (mset (queue_of f d)) = in_hands d + image_mset snd (mset (queue_of f d'))"
proof -
  have nb: "nb_files d' = nb_files d" using assms(1) by (simp add: only_queue_def)
  have "(\<Sum>f' \<in> {..<nb_files d} - {f}. image_mset snd (mset (queue_of f' d'))) = (\<Sum>f' \<in> {..<nb_files d} - {f}. image_mset snd (mset (queue_of f' d)))"
    by (rule sum.cong) (use assms(1) in \<open>auto simp: only_queue_def\<close>)
  moreover have "in_hands d' = image_mset snd (mset (queue_of f d')) + (\<Sum>f' \<in> {..<nb_files d} - {f}. image_mset snd (mset (queue_of f' d')))"
    "in_hands d = image_mset snd (mset (queue_of f d)) + (\<Sum>f' \<in> {..<nb_files d} - {f}. image_mset snd (mset (queue_of f' d)))"
    unfolding in_hands_def nb using assms(2) by (simp_all add: sum.remove)
  ultimately show ?thesis by simp
qed

text \<open>The stock is a separate part of the state.\<close>

lemma register_stock [simp]:
  "nb_file_possibility s = nb_files d \<Longrightarrow> register_ok n (d\<lparr>d_stock := s\<rparr>) = register_ok n d"
  "nb_file_possibility s = nb_files d \<Longrightarrow> in_hands (d\<lparr>d_stock := s\<rparr>) = in_hands d"
  by (simp_all add: register_ok_def in_hands_def)

lemma trylock_nb [simp]: "nb_file_possibility (snd (trylock os s)) = nb_file_possibility s"
  by (simp add: trylock_def)

text \<open>An element leaves queue \<open>f\<close> together with its node.\<close>

definition drop_element :: "nat \<Rightarrow> nat \<Rightarrow> addr \<times> possibility_packet \<Rightarrow> datamanager \<Rightarrow> datamanager" where
  "drop_element n f e d =
     (let b = hash_bucket (hash_possibility_key n (snd e))
      in set_queue f (remove_element (fst e) (queue_of f d)) (set_chain f b (without (fst e) (analysed_index d f b)) d))"

lemma drop_element_spec:
  assumes "register_ok n d" "f < nb_files d" "e \<in> set (queue_of f d)"
  shows "register_ok n (drop_element n f e d)" "in_hands d = add_mset (snd e) (in_hands (drop_element n f e d))"
    "d_stock (drop_element n f e d) = d_stock d"
proof -
  obtain a p where e: "e = (a, p)" by fastforce
  have fl: "f < length (file_possibility_analysed d)" and q: "queue_ok n (queue_of f d) (analysed_index d f) (analysed_index_may_be_incomplete d)"
    using assms(1,2) by (auto simp: register_ok_def)
  have o: "only_queue f d (drop_element n f e d)" by (auto simp: only_queue_def drop_element_def Let_def)
  have qd: "queue_of f (drop_element n f e d) = remove_element a (queue_of f d)"
    "analysed_index (drop_element n f e d) f = (analysed_index d f)(hash_bucket (hash_possibility_key n p) := without a (analysed_index d f (hash_bucket (hash_possibility_key n p))))"
    "analysed_index_may_be_incomplete (drop_element n f e d) = analysed_index_may_be_incomplete d"
    using fl by (simp_all add: drop_element_def e Let_def)
  show "register_ok n (drop_element n f e d)"
    by (rule register_ok_only[OF assms(1) o]) (use queue_ok_forget[OF q assms(3)[unfolded e] refl] qd in simp_all)
  have "image_mset snd (mset (queue_of f d)) = add_mset p (image_mset snd (mset (remove_element a (queue_of f d))))"
    using remove_element_mset[of "queue_of f d" a p] q assms(3) by (simp add: queue_ok_def e)
  then show "in_hands d = add_mset (snd e) (in_hands (drop_element n f e d))"
    using in_hands_only[OF o assms(2)] qd by (simp add: e)
  show "d_stock (drop_element n f e d) = d_stock d" by (simp add: drop_element_def Let_def)
qed

lemma set_chain_self: "set_chain f b (analysed_index d f b) d = d"
  by (simp add: set_chain_def)

text \<open>Locating a position: what is found compares equal; what is not found is not there.\<close>

lemma without_absent: "a \<notin> an_element ` set ns \<Longrightarrow> without a ns = ns"
  by (auto simp: without_def filter_id_conv)

lemma locate_spec:
  assumes "register_ok n d" "f < nb_files d"
  shows "(locate_analysed n f key d = Some (None, d) \<and> (\<forall>e \<in> set (queue_of f d). compare_possibility n (Some (snd e)) (Some key) \<noteq> 0))
    \<or> (\<exists>e d'. locate_analysed n f key d = Some (Some (fst e), d') \<and> e \<in> set (queue_of f d) \<and> compare_possibility n (Some (snd e)) (Some key) = 0
         \<and> set_queue f (remove_element (fst e) (queue_of f d')) d' = drop_element n f e d)"
proof -
  define h where "h = hash_possibility_key n key"
  define b where "b = hash_bucket h"
  let ?q = "queue_of f d" and ?ns = "analysed_index d f b"
  have q: "distinct (map fst ?q)" "chains_ok n ?q (analysed_index d f)" "analysed_index_may_be_incomplete d \<or> index_full n ?q (analysed_index d f)"
    using assms by (auto simp: register_ok_def queue_ok_def)
  have live: "distinct (map an_element ?ns)" "\<forall>node \<in> set ?ns. \<exists>p. (an_element node, p) \<in> set ?q" using q(2) by (auto simp: chains_ok_def)
  have hk: "hash_possibility_key n p = h" if "compare_possibility n (Some p) (Some key) = 0" for p using hash_compare[OF that] by (simp add: h_def)
  have drop: "set_queue f (remove_element a (queue_of f d)) (set_chain f b (without a ?ns) d) = drop_element n f (a, p) d"
    if "compare_possibility n (Some p) (Some key) = 0" for a p using hk[OF that] by (simp add: drop_element_def b_def Let_def)
  from chain_find_spec[OF live(1) q(1) live(2), of n h key] show ?thesis
  proof (elim disjE exE conjE)
    fix a p assume a: "chain_find n ?q h key ?ns = Some (without a ?ns, Some a)" "(a, p) \<in> set ?q" "compare_possibility n (Some p) (Some key) = 0"
    then have "locate_analysed n f key d = Some (Some a, set_chain f b (without a ?ns) d)"
      by (simp add: locate_analysed_def analysed_index_find_and_remove_def Let_def h_def[symmetric] b_def[symmetric])
    then show ?thesis using drop[OF a(3), of a] a(2,3)
      by (intro disjI2 exI[of _ "(a, p)"] exI[of _ "set_chain f b (without a ?ns) d"] conjI) simp_all
  next
    assume c: "chain_find n ?q h key ?ns = Some (?ns, None)"
      "\<forall>node \<in> set ?ns. \<forall>p. (an_element node, p) \<in> set ?q \<longrightarrow> an_hash node = h \<longrightarrow> compare_possibility n (Some p) (Some key) \<noteq> 0"
    have absent: "a \<notin> an_element ` set ?ns" if "(a, p) \<in> set ?q" "compare_possibility n (Some p) (Some key) = 0" for a p
    proof
      assume "a \<in> an_element ` set ?ns"
      then obtain node where node: "node \<in> set ?ns" "an_element node = a" by auto
      then obtain p' where "(a, p') \<in> set ?q" "an_hash node = hash_possibility_key n p'" using q(2) by (auto simp: chains_ok_def)
      then have "an_hash node = h" using same_position[OF q(1) that(1)] hk[OF that(2)] by blast
      then show False using c(2) node that by blast
    qed
    have e: "locate_analysed n f key d = Some (if analysed_index_may_be_incomplete d
        then map_option fst (find (\<lambda>e. compare_possibility n (Some (snd e)) (Some key) = 0) ?q) else None, d)"
      using c(1) by (simp add: locate_analysed_def analysed_index_find_and_remove_def Let_def h_def[symmetric] b_def[symmetric] set_chain_self)
    show ?thesis
    proof (cases "\<exists>e \<in> set ?q. compare_possibility n (Some (snd e)) (Some key) = 0")
      case False
      then have "find (\<lambda>e. compare_possibility n (Some (snd e)) (Some key) = 0) ?q = None" by (auto simp: find_None_iff)
      then show ?thesis using e False by auto
    next
      case True
      then have "find (\<lambda>e. compare_possibility n (Some (snd e)) (Some key) = 0) ?q \<noteq> None" unfolding find_None_iff by blast
      then obtain a p where ap: "find (\<lambda>e. compare_possibility n (Some (snd e)) (Some key) = 0) ?q = Some (a, p)" by auto
      then obtain i where "i < length ?q" "compare_possibility n (Some (snd (?q ! i))) (Some key) = 0" "(a, p) = ?q ! i" by (auto simp: find_Some_iff)
      then have m: "(a, p) \<in> set ?q" "compare_possibility n (Some p) (Some key) = 0" by (metis nth_mem, metis snd_conv)
      have inc: "analysed_index_may_be_incomplete d"
        using q(3) absent[OF m] m(1) hk[OF m(2)] by (auto simp: index_full_def b_def)
      have "set_queue f (remove_element a ?q) d = drop_element n f (a, p) d"
        using drop[OF m(2), of a] without_absent[OF absent[OF m]] by (simp add: set_chain_self)
      then show ?thesis using e inc ap m by (intro disjI2 exI[of _ "(a, p)"] exI[of _ d] conjI) simp_all
    qed
  qed
qed

section \<open>Acknowledging\<close>

text \<open>The outcome of an attempt: a position that compares equal was removed, the queues still to be
  tested hold none, or the locks were refused.\<close>

definition searched :: "nat \<Rightarrow> nat set \<Rightarrow> possibility_packet \<Rightarrow> datamanager \<Rightarrow> bool" where
  "searched n F key d \<longleftrightarrow> (\<forall>f \<in> F. \<forall>e \<in> set (queue_of f d). compare_possibility n (Some (snd e)) (Some key) \<noteq> 0)"

definition removal :: "nat \<Rightarrow> os \<Rightarrow> nat set \<Rightarrow> possibility_packet \<Rightarrow> datamanager \<Rightarrow> int \<Rightarrow> datamanager \<Rightarrow> bool" where
  "removal n os F key d r d' \<longleftrightarrow> register_ok n d' \<and> same_files (d_stock d) (d_stock d') \<and>
     (if r = 0 then \<exists>p. compare_possibility n (Some p) (Some key) = 0 \<and> in_hands d = add_mset p (in_hands d')
      else in_hands d' = in_hands d \<and> (r = 1 \<and> searched n F key d \<or> r = -1 \<and> (\<exists>k. \<not> os_trylock os k)))"

definition tested_from :: "int \<Rightarrow> nat \<Rightarrow> nat \<Rightarrow> nat \<Rightarrow> datamanager \<Rightarrow> nat set" where
  "tested_from thread scan_start step currfile d =
     (if thread < 0 then (\<lambda>k. (scan_start + k) mod nb_files d) ` {step..<nb_files d} else {currfile})"

lemma removal_same:
  assumes "removal n os F key d1 r d'" "same_files (d_stock d) (d_stock d1)" "in_hands d1 = in_hands d" "\<And>f. queue_of f d1 = queue_of f d"
  shows "removal n os F key d r d'"
proof -
  have "same_files (d_stock d) (d_stock d')" using assms(1,2) same_files_trans by (auto simp: removal_def)
  moreover have "searched n F key d1 = searched n F key d" using assms(4) by (simp add: searched_def)
  ultimately show ?thesis using assms(1,3) by (auto simp: removal_def split: if_splits)
qed

lemma removal_next:
  assumes "removal n os F key d r d'" "searched n G key d"
  shows "removal n os (F \<union> G) key d r d'"
  using assms unfolding removal_def searched_def by (auto split: if_splits)

lemma remove_attempts_spec:
  assumes "register_ok n d" "currfile < nb_files d"
    and "thread < 0 \<longrightarrow> currfile = (scan_start + step) mod nb_files d \<and> step < nb_files d"
  shows "\<exists>r d'. remove_attempts n os key thread scan_start step currfile waits d = Some (r, d')
    \<and> removal n os (tested_from thread scan_start step currfile d) key d r d'"
  using assms
proof (induction n os key thread scan_start step currfile waits d rule: remove_attempts.induct)
  case (1 n os key thread scan_start step currfile waits d)
  obtain free s where t: "trylock os (d_stock d) = (free, s)" by fastforce
  define d1 where "d1 = d\<lparr>d_stock := s\<rparr>"
  have s: "same_files (d_stock d) s" "nb_file_possibility s = nb_files d" using trylock_same[OF t] t by (auto simp: trylock_def)
  then have ok: "register_ok n d1" "in_hands d1 = in_hands d" "nb_files d1 = nb_files d" "queue_of f d1 = queue_of f d"
      "same_files (d_stock d) (d_stock d1)" for f using 1(3) by (simp_all add: d1_def)
  note unfold = remove_attempts.simps[of n os key thread scan_start step currfile waits d, unfolded t Let_def, simplified, folded d1_def]
  have same: "removal n os F key d r d'" if "removal n os F key d1 r d'" for F r d' by (rule removal_same[OF that ok(5,2,4)])
  let ?T = "\<lambda>d. tested_from thread scan_start step currfile d"
  have T: "?T d1 = ?T d" by (simp add: tested_from_def ok(3))
  show ?case
  proof (cases free)
    case False
    show ?thesis
    proof (cases "DATAMANAGER_TRYLOCK_MAX_SWEEPS \<le> Suc waits")
      case True
      have "\<not> os_trylock os (trylocks (d_stock d))" using False t by (simp add: trylock_def)
      then have "removal n os (?T d) key d (-1) d1" using ok by (auto simp: removal_def)
      moreover have "remove_attempts n os key thread scan_start step currfile waits d = Some (-1, d1)" using False True by (simp add: unfold)
      ultimately show ?thesis by blast
    next
      case more: False
      from 1(2)[OF refl t[symmetric] d1_def False more ok(1)] 1(4,5)
      obtain r d' where "remove_attempts n os key thread scan_start step currfile (Suc waits) d1 = Some (r, d')" "removal n os (?T d1) key d1 r d'"
        using ok(3) by auto
      moreover have "remove_attempts n os key thread scan_start step currfile waits d = remove_attempts n os key thread scan_start step currfile (Suc waits) d1"
        using False more by (simp add: unfold)
      ultimately show ?thesis using same T by metis
    qed
  next
    case True
    have "currfile < nb_files d1" using 1(4) ok(3) by simp
    from locate_spec[OF ok(1) this, of key] show ?thesis
    proof (elim disjE exE conjE)
      fix e d'
      assume l: "locate_analysed n currfile key d1 = Some (Some (fst e), d')" "e \<in> set (queue_of currfile d1)" "compare_possibility n (Some (snd e)) (Some key) = 0"
        "set_queue currfile (remove_element (fst e) (queue_of currfile d')) d' = drop_element n currfile e d1"
      have "removal n os (?T d) key d1 0 (drop_element n currfile e d1)"
        using drop_element_spec[OF ok(1) \<open>currfile < nb_files d1\<close> l(2)] l(3) unfolding removal_def by (auto simp: same_files_def)
      moreover have "remove_attempts n os key thread scan_start step currfile waits d = Some (0, drop_element n currfile e d1)"
        using True l by (simp add: unfold)
      ultimately show ?thesis using same by blast
    next
      assume l: "locate_analysed n currfile key d1 = Some (None, d1)" "\<forall>e \<in> set (queue_of currfile d1). compare_possibility n (Some (snd e)) (Some key) \<noteq> 0"
      have here: "searched n {currfile} key d1" using l(2) by (simp add: searched_def)
      show ?thesis
      proof (cases "thread < 0 \<and> Suc step < nb_files d")
        case False
        have "?T d = {currfile}"
        proof (cases "thread < 0")
          case True
          then have "{step..<nb_files d} = {step}" using False 1(5) by auto
          then show ?thesis using True 1(5) by (simp add: tested_from_def)
        qed (simp add: tested_from_def)
        then have "removal n os (?T d) key d1 1 d1" using here ok(1) by (simp add: removal_def same_files_def)
        moreover have "remove_attempts n os key thread scan_start step currfile waits d = Some (1, d1)" using True l(1) False by (auto simp: unfold)
        ultimately show ?thesis using same by blast
      next
        case go: True
        let ?next = "(scan_start + Suc step) mod nb_files d"
        have "?next < nb_files d1" using 1(4) ok(3) by simp
        then obtain r d' where r: "remove_attempts n os key thread scan_start (Suc step) ?next waits d1 = Some (r, d')"
            "removal n os (tested_from thread scan_start (Suc step) ?next d1) key d1 r d'"
          using 1(1)[OF refl t[symmetric] d1_def True l(1) refl refl go ok(1)] ok(3) go by auto
        have "{step..<nb_files d} = insert step {Suc step..<nb_files d}" using go by auto
        then have "?T d = tested_from thread scan_start (Suc step) ?next d1 \<union> {currfile}"
          using go 1(5) by (simp add: tested_from_def ok(3))
        then have "removal n os (?T d) key d1 r d'" using removal_next[OF r(2) here] by simp
        moreover have "remove_attempts n os key thread scan_start step currfile waits d = Some (r, d')" using True l(1) go r(1) by (simp add: unfold)
        ultimately show ?thesis using same by blast
      qed
    qed
  qed
qed

section \<open>Registering\<close>

definition fresh_element :: "addr \<Rightarrow> datamanager \<Rightarrow> bool" where
  "fresh_element block d \<longleftrightarrow> (\<forall>f < nb_files d. block \<notin> fst ` set (queue_of f d))"

lemma queue_ok_add:
  assumes "queue_ok n q idx inc" "a \<notin> fst ` set q" "an_element node = a" "an_hash node = hash_possibility_key n p" "b = hash_bucket (an_hash node)"
  shows "queue_ok n (q @ [(a, p)]) (idx(b := node # idx b)) inc"
proof -
  have d: "distinct (map fst q)" and c: "chains_ok n q idx" and full: "inc \<or> index_full n q idx" using assms(1) by (auto simp: queue_ok_def)
  have "a \<notin> an_element ` set (idx b)" using c assms(2) unfolding chains_ok_def by (metis fst_conv image_iff)
  then have "chains_ok n (q @ [(a, p)]) (idx(b := node # idx b))" using c assms(3-5) unfolding chains_ok_def by (auto, blast+)
  moreover have "inc \<or> index_full n (q @ [(a, p)]) (idx(b := node # idx b))" using full assms(3-5) by (auto simp: index_full_def)
  ultimately show ?thesis using d assms(2) by (simp add: queue_ok_def)
qed

lemma queue_ok_unindexed: "queue_ok n q idx inc \<Longrightarrow> a \<notin> fst ` set q \<Longrightarrow> queue_ok n (q @ [(a, p)]) idx True"
  unfolding queue_ok_def chains_ok_def by (auto, blast+)

lemma register_in_spec:
  assumes "register_ok n d" "f < nb_files d" "fresh_element block d"
  shows "register_ok n (register_in n now block nm p owner f d)" "same_files (d_stock d) (d_stock (register_in n now block nm p owner f d))"
    "in_hands (register_in n now block nm p owner f d) = (if block = NULL then in_hands d else add_mset p (in_hands d))"
proof -
  let ?s = "(d_stock d)\<lparr>max_result := max (max_result (d_stock d)) (alloc p)\<rparr>"
  define d1 where "d1 = d\<lparr>d_stock := ?s\<rparr>"
  define d2 where "d2 = set_queue f (queue_of f d1 @ [(block, p)]) d1"
  define d' where "d' = register_in n now block nm p owner f d"
  have d1: "register_ok n d1" "in_hands d1 = in_hands d" "nb_files d1 = nb_files d" using assms(1) by (simp_all add: d1_def)
  have fl: "f < length (file_possibility_analysed d1)" using assms(2) d1(1,3) by (simp add: register_ok_def)
  have q: "queue_ok n (queue_of f d1) (analysed_index d1 f) (analysed_index_may_be_incomplete d1)" "block \<notin> fst ` set (queue_of f d1)"
    using d1 assms(2,3) by (simp_all add: register_ok_def fresh_element_def d1_def)
  have e: "d' = (if block = NULL then d1 else analysed_index_add n now nm f (block, p) owner d2)"
    by (simp add: d'_def register_in_def Let_def d1_def d2_def)
  have null: "register_ok n d'" "in_hands d' = in_hands d" if "block = NULL" using e that d1 by simp_all
  have "register_ok n d' \<and> in_hands d' = add_mset p (in_hands d)" if nb: "block \<noteq> NULL"
  proof -
    have o: "only_queue f d1 d'" by (auto simp: e nb only_queue_def d2_def analysed_index_add_def Let_def)
    have qd: "queue_of f d' = queue_of f d1 @ [(block, p)]" using fl by (simp add: e nb d2_def analysed_index_add_def Let_def)
    have "queue_ok n (queue_of f d') (analysed_index d' f) (analysed_index_may_be_incomplete d')
        \<and> (analysed_index_may_be_incomplete d1 \<longrightarrow> analysed_index_may_be_incomplete d')"
    proof (cases nm)
      case True
      show ?thesis unfolding qd using True nb by (auto simp: e d2_def analysed_index_add_def Let_def intro!: queue_ok_add[OF q])
    next
      case False
      show ?thesis unfolding qd using False nb queue_ok_unindexed[OF q] by (simp add: e d2_def analysed_index_add_def)
    qed
    then have "register_ok n d'" using register_ok_only[OF d1(1) o] by blast
    moreover have "in_hands d' = add_mset p (in_hands d)" using in_hands_only[OF o] assms(2) d1 qd by simp
    ultimately show ?thesis by blast
  qed
  with null show "register_ok n d'" "in_hands d' = (if block = NULL then in_hands d else add_mset p (in_hands d))" by (cases "block = NULL"; simp)+
  have "d_stock d' = ?s" by (auto simp: e d1_def d2_def analysed_index_add_def Let_def)
  then show "same_files (d_stock d) (d_stock d')" by simp
qed

definition registration :: "nat \<Rightarrow> os \<Rightarrow> addr \<Rightarrow> possibility_packet \<Rightarrow> datamanager \<Rightarrow> int \<Rightarrow> datamanager \<Rightarrow> bool" where
  "registration n os block p d r d' \<longleftrightarrow> register_ok n d' \<and> same_files (d_stock d) (d_stock d')
     \<and> (r = 0 \<and> in_hands d' = (if block = NULL then in_hands d else add_mset p (in_hands d))
        \<or> r = -1 \<and> in_hands d' = in_hands d \<and> (\<exists>k. \<not> os_trylock os k))"

lemma add_attempts_spec:
  assumes "register_ok n d" "currfile < nb_files d" "fresh_element block d"
  shows "case add_analysed_attempts n os now block nm p thread owner currfile waits d of (r, d') \<Rightarrow> registration n os block p d r d'"
  using assms
proof (induction n os now block nm p thread owner currfile waits d rule: add_analysed_attempts.induct)
  case (1 n os now block nm p thread owner currfile waits d)
  obtain free s where t: "trylock os (d_stock d) = (free, s)" by fastforce
  define d1 where "d1 = d\<lparr>d_stock := s\<rparr>"
  have s: "same_files (d_stock d) s" "nb_file_possibility s = nb_files d" using trylock_same[OF t] t by (auto simp: trylock_def)
  then have ok: "register_ok n d1" "in_hands d1 = in_hands d" "nb_files d1 = nb_files d" "fresh_element block d1" "same_files (d_stock d) (d_stock d1)"
    using 1(3,5) by (simp_all add: d1_def fresh_element_def)
  note unfold = add_analysed_attempts.simps[of n os now block nm p thread owner currfile waits d, unfolded t Let_def, simplified, folded d1_def]
  have same: "registration n os block p d r d'" if "registration n os block p d1 r d'" for r d'
    using that ok(2,5) same_files_trans by (auto simp: registration_def)
  have locked: "registration n os block p d (-1) d1" if "\<not> free"
    using that t ok by (auto simp: registration_def trylock_def)
  show ?case
  proof (cases free)
    case True
    have "currfile < nb_files d1" using 1(4) ok(3) by simp
    then have "registration n os block p d1 0 (register_in n now block nm p owner currfile d1)"
      using register_in_spec[OF ok(1) _ ok(4)] by (simp add: registration_def)
    then show ?thesis using same True by (simp add: unfold)
  next
    case False
    consider "thread < 0 \<and> Suc currfile < nb_files d" "\<not> DATAMANAGER_TRYLOCK_MAX_SWEEPS \<le> waits"
      | "thread < 0 \<and> Suc currfile < nb_files d" "DATAMANAGER_TRYLOCK_MAX_SWEEPS \<le> waits"
      | "\<not> (thread < 0 \<and> Suc currfile < nb_files d)" "\<not> DATAMANAGER_TRYLOCK_MAX_SWEEPS \<le> Suc waits"
      | "\<not> (thread < 0 \<and> Suc currfile < nb_files d)" "DATAMANAGER_TRYLOCK_MAX_SWEEPS \<le> Suc waits" by blast
    then show ?thesis
    proof cases
      case 1
      with "1.IH"(1)[OF refl t[symmetric] d1_def False 1 ok(1) _ ok(4)] False same ok(3) show ?thesis unfolding unfold by (auto split: prod.splits)
    next
      case 3
      have "(if thread < 0 then 0 else currfile) < nb_files d1" using 1(4) ok(3) by auto
      from "1.IH"(2)[OF refl t[symmetric] d1_def False 3 ok(1) this ok(4)] 3 False same show ?thesis unfolding unfold by (auto split: prod.splits)
    qed (use False locked in \<open>auto simp: unfold\<close>)
  qed
qed

section \<open>Properties of the register\<close>

text \<open>A register of two empty queues, and one with the sample position.\<close>

definition empty_register :: datamanager where
  "empty_register = \<lparr>d_stock = sample_stock, file_possibility_analysed = [[], []], analysed_index = (\<lambda>_ _. []),
     analysed_index_may_be_incomplete = False, analysed_lease_seconds = 60\<rparr>"

definition sample_position :: possibility_packet where
  "sample_position = canonical_packet 4 sample_packet"

definition sample_register :: datamanager where
  "sample_register = snd (add_possibility_analysed_owned 4 free_os 1000 16 True (Some sample_position) 1 (replicate 16 7) empty_register)"

lemma sample_nb: "nb_file_possibility sample_stock = 2"
  by (simp add: sample_stock_def datamanager_configure_stock_files_def empty_stock_def NB_FILE_POSSIBILITY_MAX_def)

lemma empty_register_ok: "register_ok n empty_register" "in_hands empty_register = {#}" "fresh_element a empty_register" "nb_files empty_register = 2"
proof -
  have q: "queue_of f empty_register = []" if "f < 2" for f using that by (auto simp: empty_register_def less_2_cases_iff)
  show "nb_files empty_register = 2" by (simp add: empty_register_def sample_nb)
  then show "in_hands empty_register = {#}" "fresh_element a empty_register" by (simp_all add: in_hands_def fresh_element_def q)
  show "register_ok n empty_register"
    using \<open>nb_files empty_register = 2\<close> q by (simp add: register_ok_def queue_ok_def chains_ok_def index_full_def empty_register_def)
qed

text \<open>Registering a position that is served: the index stays sound, the stock is not touched, and
  the answer is 0, with the position among those in the hands of clients unless there was no
  memory for it, or -1, with nothing registered, after locks were refused.\<close>

lemma add_possibility_analysed_exact:
  assumes "register_ok n d" "thread < int (nb_files d)" "fresh_element block d"
    and "add_possibility_analysed_impl n os now block node_memory (Some p) thread owner d = (r, d')"
  shows "register_ok n d' \<and> (\<forall>c. content n c (d_stock d') = content n c (d_stock d))
    \<and> (r = 0 \<and> in_hands d' = (if block = NULL then in_hands d else add_mset p (in_hands d))
       \<or> r = -1 \<and> in_hands d' = in_hands d \<and> (\<exists>k. \<not> os_trylock os k))"
proof -
  have "(if thread \<ge> 0 then nat thread else 0) < nb_files d" using assms(1,2) by (auto simp: register_ok_def)
  from add_attempts_spec[OF assms(1) this assms(3), of os p now node_memory thread owner 0] assms(4)
  have "registration n os block p d r d'" by (simp add: add_possibility_analysed_impl_def)
  then show ?thesis using same_filesD(1) by (simp add: registration_def)
qed

lemma sample_register_ok: "register_ok 4 sample_register" "in_hands sample_register = {#sample_position#}" "nb_files sample_register = 2"
proof -
  obtain r d' where e: "add_analysed_attempts 4 free_os 1000 16 True sample_position 1 (Some (replicate 16 7)) 1 0 empty_register = (r, d')" by fastforce
  have "sample_register = d'" using e by (simp add: sample_register_def add_possibility_analysed_owned_def add_possibility_analysed_impl_def)
  moreover have "registration 4 free_os 16 sample_position empty_register r d'"
    using add_attempts_spec[of 4 empty_register 1 16 free_os sample_position 1000 True 1 "Some (replicate 16 7)" 0] e empty_register_ok by simp
  ultimately show "register_ok 4 sample_register" "in_hands sample_register = {#sample_position#}" "nb_files sample_register = 2"
    using empty_register_ok(2,4) by (auto simp: registration_def free_os_def same_files_def)
qed

lemma analysed_removed:
  assumes "register_ok n d" "thread < int (nb_files d)"
  shows "\<exists>r d'. remove_possibility_analysed n os key thread preferred_file d = Some (r, d') \<and> register_ok n d'
    \<and> (\<forall>c. content n c (d_stock d') = content n c (d_stock d))
    \<and> (r = 0 \<and> (\<exists>p. compare_possibility n (Some p) (Some key) = 0 \<and> in_hands d = add_mset p (in_hands d'))
       \<or> r = 1 \<and> in_hands d' = in_hands d
           \<and> (if thread < 0 then \<forall>p \<in># in_hands d. compare_possibility n (Some p) (Some key) \<noteq> 0
              else \<forall>e \<in> set (queue_of (nat thread) d). compare_possibility n (Some (snd e)) (Some key) \<noteq> 0)
       \<or> r = -1 \<and> in_hands d' = in_hands d \<and> (\<exists>k. \<not> os_trylock os k))"
proof -
  define st where "st = (if thread \<ge> 0 then 0 else if preferred_file \<ge> 0 \<and> nat preferred_file < nb_files d then nat preferred_file else 0)"
  define cf where "cf = (if thread \<ge> 0 then nat thread else st)"
  have e: "remove_possibility_analysed n os key thread preferred_file d = remove_attempts n os key thread st 0 cf 0 d"
    by (simp add: remove_possibility_analysed_def st_def cf_def)
  have cf: "cf < nb_files d" "thread < 0 \<longrightarrow> cf = (st + 0) mod nb_files d \<and> 0 < nb_files d"
    using assms by (auto simp: cf_def st_def register_ok_def)
  from remove_attempts_spec[OF assms(1) cf] obtain r d' where
    r: "remove_attempts n os key thread st 0 cf 0 d = Some (r, d')" "removal n os (tested_from thread st 0 cf d) key d r d'" by blast
  have all: "\<forall>p \<in># in_hands d. compare_possibility n (Some p) (Some key) \<noteq> 0" if "thread < 0" "searched n (tested_from thread st 0 cf d) key d"
  proof
    fix p assume "p \<in># in_hands d"
    then obtain f where f: "f < nb_files d" "p \<in># image_mset snd (mset (queue_of f d))" by (auto simp: in_hands_def set_mset_sum)
    then have "f \<in> tested_from thread st 0 cf d" using ring_covers[OF f(1), of st] that(1) by (force simp: tested_from_def)
    then show "compare_possibility n (Some p) (Some key) \<noteq> 0" using that(2) f(2) by (auto simp: searched_def)
  qed
  have one: "\<forall>e \<in> set (queue_of (nat thread) d). compare_possibility n (Some (snd e)) (Some key) \<noteq> 0"
    if "\<not> thread < 0" "searched n (tested_from thread st 0 cf d) key d" using that by (simp add: tested_from_def cf_def searched_def)
  show ?thesis unfolding e r(1) using r(2) all one same_filesD(1) by (cases "r = 0") (auto simp: removal_def)
qed

text \<open>C19. The three answers of \<open>remove_possibility_analysed\<close>: 0 and one position that compares equal to
  the key has left the hands of clients; 1 and no queue that was asked for holds one; -1 and
  nothing is known, after locks were refused. No freed element is ever read.\<close>

theorem remove_possibility_analysed_contract:
  assumes "register_ok n d" "thread < int (nb_files d)"
  shows "\<exists>r d'. remove_possibility_analysed n os key thread preferred_file d = Some (r, d') \<and> register_ok n d'
    \<and> (\<forall>c. content n c (d_stock d') = content n c (d_stock d))
    \<and> (r = 0 \<and> (\<exists>p. compare_possibility n (Some p) (Some key) = 0 \<and> in_hands d = add_mset p (in_hands d'))
       \<or> r = 1 \<and> in_hands d' = in_hands d
           \<and> (if thread < 0 then \<forall>p \<in># in_hands d. compare_possibility n (Some p) (Some key) \<noteq> 0
              else \<forall>e \<in> set (queue_of (nat thread) d). compare_possibility n (Some (snd e)) (Some key) \<noteq> 0)
       \<or> r = -1 \<and> in_hands d' = in_hands d \<and> (\<exists>k. \<not> os_trylock os k))"
  by (rule analysed_removed[OF assms])

theorem remove_possibility_analysed_contract_witness:
  "\<exists>d'. remove_possibility_analysed 4 free_os sample_position (-1) 1 sample_register = Some (0, d') \<and> in_hands d' = {#}"
proof -
  have "compare_possibility 4 (Some sample_position) (Some sample_position) = 0" by (simp add: compare_zero_iff)
  then show ?thesis
    using remove_possibility_analysed_contract[OF sample_register_ok(1), of "-1" free_os sample_position 1] sample_register_ok(2,3) by (auto simp: free_os_def)
qed

end
