(* ===== verification/Stock_Tier.thy ===== *)
theory Stock_Tier
  imports Codec_Records
begin

text \<open>
  The compact tier of the stock (\<open>stock_tier.c\<close>): blocks of concatenated records, stored raw
  or compressed, on a stack per queue. The compressor is the library zstd, given by a record
  of its functions; \<open>None\<close> stands for a program built without it. The linked blocks of a
  stack are a list, the bottom first; a pointer to a block is its sequence number, which no
  two blocks of a stack share.
\<close>

section \<open>Records in a block\<close>

definition STOCK_TIER_RECORD_PREFIX :: "nat \<Rightarrow> nat" where
  "STOCK_TIER_RECORD_PREFIX n = PACKET_CODEC_HEADER_BYTES + PACKET_CODEC_BITMAP_BYTES n"

definition STOCK_TIER_BLOCK_BYTES :: nat where "STOCK_TIER_BLOCK_BYTES = 64 * 1024"
definition STOCK_TIER_MALLOC_OVERHEAD :: nat where "STOCK_TIER_MALLOC_OVERHEAD = 16"
definition STOCK_TIER_CODEC_RAW :: int where "STOCK_TIER_CODEC_RAW = 0"
definition STOCK_TIER_CODEC_ZSTD :: int where "STOCK_TIER_CODEC_ZSTD = 1"
definition STOCK_TIER_COMPACTNESS_POOR_RATIO :: nat where "STOCK_TIER_COMPACTNESS_POOR_RATIO = 8"

definition stock_tier_compactness_poor :: "bool \<Rightarrow> u64 \<Rightarrow> u64 \<Rightarrow> u64 \<Rightarrow> u64 \<Rightarrow> bool" where
  "stock_tier_compactness_poor compressed records raw_bytes bytes min_records \<longleftrightarrow>
     (if \<not> compressed \<or> records < min_records \<or> records = 0 \<or> bytes = 0 then False
      else raw_bytes < bytes * of_nat STOCK_TIER_COMPACTNESS_POOR_RATIO)"

text \<open>The available bytes are those of the list.\<close>

definition stock_tier_record_len :: "nat \<Rightarrow> u8 list \<Rightarrow> nat" where
  "stock_tier_record_len n rec =
     (if length rec < STOCK_TIER_RECORD_PREFIX n then 0
      else (let len = STOCK_TIER_RECORD_PREFIX n + PACKET_CODEC_VALUE_BYTES n (packet_codec_peek_placed n rec)
            in if len \<le> length rec then len else 0))"

function count_from :: "nat \<Rightarrow> u8 list \<Rightarrow> nat option" where
  "count_from n raw =
     (if raw = [] then Some 0
      else (let len = stock_tier_record_len n raw in if len = 0 then None else map_option Suc (count_from n (drop len raw))))"
  by pat_completeness auto
termination by (relation "measure (\<lambda>(n, raw). length raw)") auto

declare count_from.simps [simp del]

definition stock_tier_count_records :: "nat \<Rightarrow> u8 list \<Rightarrow> int" where
  "stock_tier_count_records n raw =
     (if raw = [] \<or> length raw > STOCK_TIER_BLOCK_BYTES then -1
      else case count_from n raw of None \<Rightarrow> -1 | Some k \<Rightarrow> int k)"

section \<open>The stored form of a block\<close>

text \<open>The functions of zstd: compression into a buffer of a given size, decompression of at most
  a given number of bytes, the bound on the compressed size.\<close>

record zstd =
  z_compress :: "nat \<Rightarrow> u8 list \<Rightarrow> u8 list option"
  z_decompress :: "nat \<Rightarrow> u8 list \<Rightarrow> u8 list option"
  z_bound :: "nat \<Rightarrow> nat"

text \<open>What the code relies on: a frame decompresses to what was compressed.\<close>

definition zstd_ok :: "zstd \<Rightarrow> bool" where
  "zstd_ok z \<longleftrightarrow> (\<forall>cap raw frame. z_compress z cap raw = Some frame \<longrightarrow> length frame \<le> cap \<and> z_decompress z (length raw) frame = Some raw)"

text \<open>The library the program was built with and the codec in use.\<close>

type_synonym tier_codec = "zstd option \<times> int"

definition stock_tier_compresses :: "tier_codec \<Rightarrow> bool" where
  "stock_tier_compresses cd \<longleftrightarrow> snd cd = STOCK_TIER_CODEC_ZSTD"

definition stock_tier_pack_bound :: "tier_codec \<Rightarrow> nat \<Rightarrow> nat" where
  "stock_tier_pack_bound cd raw_bytes = (case fst cd of
      Some z \<Rightarrow> if snd cd = STOCK_TIER_CODEC_ZSTD then (let bound = z_bound z raw_bytes in if bound > raw_bytes then bound else raw_bytes) else raw_bytes
    | None \<Rightarrow> raw_bytes)"

text \<open>The stored bytes, the codec and the number of records; \<open>None\<close> for a refusal.\<close>

definition stock_tier_pack :: "nat \<Rightarrow> tier_codec \<Rightarrow> u8 list \<Rightarrow> nat \<Rightarrow> (u8 list \<times> int \<times> int) option" where
  "stock_tier_pack n cd raw cap =
     (let k = stock_tier_count_records n raw;
          plain = (if cap < length raw then None else Some (raw, STOCK_TIER_CODEC_RAW, k))
      in if k < 0 then None
         else case fst cd of
           Some z \<Rightarrow> if snd cd = STOCK_TIER_CODEC_ZSTD
             then (case z_compress z cap raw of
                     Some frame \<Rightarrow> if 0 < length frame \<and> length frame < length raw then Some (frame, STOCK_TIER_CODEC_ZSTD, k) else plain
                   | None \<Rightarrow> plain)
             else plain
         | None \<Rightarrow> plain)"

text \<open>The number of records and the raw bytes; \<open>None\<close> is the answer -1.\<close>

definition stock_tier_unpack :: "nat \<Rightarrow> tier_codec \<Rightarrow> int \<Rightarrow> u8 list \<Rightarrow> nat \<Rightarrow> nat \<Rightarrow> nat \<Rightarrow> (int \<times> u8 list) option" where
  "stock_tier_unpack n cd codec stored raw_bytes records cap =
     (if raw_bytes = 0 \<or> raw_bytes > STOCK_TIER_BLOCK_BYTES \<or> cap < raw_bytes then None
      else (let out = (if codec = STOCK_TIER_CODEC_RAW then (if length stored \<noteq> raw_bytes then None else Some stored)
                       else case fst cd of None \<Rightarrow> None
                         | Some z \<Rightarrow> if codec \<noteq> STOCK_TIER_CODEC_ZSTD then None
                                     else (case z_decompress z raw_bytes stored of
                                             None \<Rightarrow> None | Some r \<Rightarrow> if length r = raw_bytes then Some r else None))
            in case out of None \<Rightarrow> None
               | Some raw \<Rightarrow> (let k = stock_tier_count_records n raw in if k \<ge> 0 \<and> nat k = records then Some (k, raw) else None)))"

section \<open>Stacks of blocks\<close>

record stock_tier_block =
  b_seq :: u64
  b_records :: nat
  b_raw_bytes :: nat
  b_stored_bytes :: nat
  b_codec :: int
  b_data :: "u8 list"

text \<open>The size of the header of a block: three 8-byte words, three 4-byte words, one byte, padded.\<close>

definition sizeof_stock_tier_block :: nat where "sizeof_stock_tier_block = 40"

definition block_cost :: "stock_tier_block \<Rightarrow> u64" where
  "block_cost b = of_nat (sizeof_stock_tier_block + b_stored_bytes b + STOCK_TIER_MALLOC_OVERHEAD)"

definition stock_tier_block_cost_bound :: "nat \<Rightarrow> u64" where
  "stock_tier_block_cost_bound raw_bytes = of_nat (sizeof_stock_tier_block + raw_bytes + STOCK_TIER_MALLOC_OVERHEAD)"

record stock_tier_stack =
  t_chain :: "stock_tier_block list"
  t_records :: u64
  t_bytes :: u64
  t_blocks :: u64
  t_raw_bytes :: u64
  t_last_seq :: u64
  t_mark_seq :: u64
  t_above_mark :: "u64 option"

definition stock_tier_stack_init :: stock_tier_stack where
  "stock_tier_stack_init = \<lparr>t_chain = [], t_records = 0, t_bytes = 0, t_blocks = 0, t_raw_bytes = 0, t_last_seq = 0,
     t_mark_seq = 0, t_above_mark = None\<rparr>"

definition stock_tier_stack_clear :: "stock_tier_stack \<Rightarrow> stock_tier_stack" where
  "stock_tier_stack_clear s = stock_tier_stack_init"

text \<open>The flags say whether the scratch buffer and the block can be allocated.\<close>

definition stock_tier_block_build :: "nat \<Rightarrow> tier_codec \<Rightarrow> bool \<Rightarrow> bool \<Rightarrow> u8 list \<Rightarrow> stock_tier_block option" where
  "stock_tier_block_build n cd scratch allocated raw =
     (if stock_tier_count_records n raw < 0 \<or> \<not> scratch then None
      else case stock_tier_pack n cd raw (stock_tier_pack_bound cd (length raw)) of
        None \<Rightarrow> None
      | Some (stored, codec, k) \<Rightarrow>
          if \<not> allocated then None
          else Some \<lparr>b_seq = 0, b_records = nat k, b_raw_bytes = length raw, b_stored_bytes = length stored, b_codec = codec, b_data = stored\<rparr>)"

definition stock_tier_link :: "stock_tier_stack \<Rightarrow> stock_tier_block \<Rightarrow> int \<times> stock_tier_stack" where
  "stock_tier_link s b0 =
     (let sq = t_last_seq s + 1; b = b0\<lparr>b_seq := sq\<rparr>
      in (int (b_records b),
          s\<lparr>t_last_seq := sq, t_chain := t_chain s @ [b],
            t_above_mark := (if t_above_mark s = None \<and> sq > t_mark_seq s then Some sq else t_above_mark s),
            t_records := t_records s + of_nat (b_records b), t_bytes := t_bytes s + block_cost b,
            t_raw_bytes := t_raw_bytes s + of_nat (b_raw_bytes b), t_blocks := t_blocks s + 1\<rparr>))"

definition stock_tier_push :: "nat \<Rightarrow> tier_codec \<Rightarrow> bool \<Rightarrow> bool \<Rightarrow> stock_tier_stack \<Rightarrow> u8 list \<Rightarrow> int \<times> stock_tier_stack" where
  "stock_tier_push n cd scratch allocated s raw =
     (case stock_tier_block_build n cd scratch allocated raw of None \<Rightarrow> (-1, s) | Some b \<Rightarrow> stock_tier_link s b)"

definition stock_tier_top :: "stock_tier_stack \<Rightarrow> stock_tier_block option" where
  "stock_tier_top s = (if t_chain s = [] then None else Some (last (t_chain s)))"

definition stock_tier_bottom :: "stock_tier_stack \<Rightarrow> stock_tier_block option" where
  "stock_tier_bottom s = (if t_chain s = [] then None else Some (hd (t_chain s)))"

text \<open>The blocks above a block of the stack, the nearest first.\<close>

definition blocks_above :: "stock_tier_stack \<Rightarrow> u64 \<Rightarrow> stock_tier_block list" where
  "blocks_above s sq = tl (dropWhile (\<lambda>b. b_seq b \<noteq> sq) (t_chain s))"

definition stock_tier_block_above :: "stock_tier_stack \<Rightarrow> u64 \<Rightarrow> u64 option" where
  "stock_tier_block_above s sq = (case blocks_above s sq of [] \<Rightarrow> None | b # _ \<Rightarrow> Some (b_seq b))"

text \<open>The descent from the top.\<close>

fun mark_scan :: "stock_tier_block list \<Rightarrow> u64 \<Rightarrow> u64 option \<Rightarrow> u64 option" where
  "mark_scan [] sq first = first"
| "mark_scan (b # bs) sq first = (if b_seq b > sq then mark_scan bs sq (Some (b_seq b)) else first)"

definition stock_tier_set_mark :: "stock_tier_stack \<Rightarrow> u64 \<Rightarrow> stock_tier_stack" where
  "stock_tier_set_mark s sq = s\<lparr>t_mark_seq := sq, t_above_mark := mark_scan (rev (t_chain s)) sq None\<rparr>"

definition stock_tier_above_mark :: "stock_tier_stack \<Rightarrow> u64 option" where
  "stock_tier_above_mark s = t_above_mark s"

definition stock_tier_block_unpack :: "nat \<Rightarrow> tier_codec \<Rightarrow> stock_tier_block option \<Rightarrow> nat \<Rightarrow> (int \<times> u8 list) option" where
  "stock_tier_block_unpack n cd block cap =
     (case block of None \<Rightarrow> None | Some b \<Rightarrow> stock_tier_unpack n cd (b_codec b) (b_data b) (b_raw_bytes b) (b_records b) cap)"

definition stock_tier_unlink :: "stock_tier_stack \<Rightarrow> stock_tier_block \<Rightarrow> stock_tier_stack" where
  "stock_tier_unlink s b =
     s\<lparr>t_above_mark := (if t_above_mark s = Some (b_seq b) then stock_tier_block_above s (b_seq b) else t_above_mark s),
       t_chain := takeWhile (\<lambda>c. b_seq c \<noteq> b_seq b) (t_chain s) @ blocks_above s (b_seq b),
       t_records := t_records s - of_nat (b_records b), t_bytes := t_bytes s - block_cost b,
       t_raw_bytes := t_raw_bytes s - of_nat (b_raw_bytes b), t_blocks := t_blocks s - 1\<rparr>"

definition stock_tier_pop_top :: "stock_tier_stack \<Rightarrow> stock_tier_stack" where
  "stock_tier_pop_top s = (case stock_tier_top s of None \<Rightarrow> s | Some b \<Rightarrow> stock_tier_unlink s b)"

definition stock_tier_pop_bottom :: "stock_tier_stack \<Rightarrow> stock_tier_stack" where
  "stock_tier_pop_bottom s = (case stock_tier_bottom s of None \<Rightarrow> s | Some b \<Rightarrow> stock_tier_unlink s b)"

definition stock_tier_remove :: "stock_tier_stack \<Rightarrow> stock_tier_block option \<Rightarrow> stock_tier_stack" where
  "stock_tier_remove s block = (case block of None \<Rightarrow> s | Some b \<Rightarrow> stock_tier_unlink s b)"

section \<open>Blocks of encoded positions\<close>

definition tier_records :: "nat \<Rightarrow> possibility_packet list \<Rightarrow> u8 list" where
  "tier_records n ps = fold (\<lambda>p f. write_record n f p) ps []"

lemma tier_records_Cons: "tier_records n (p # ps) = write_record n [] p @ tier_records n ps"
  using stock_stream.emit_all_append[of n ps "write_record n [] p"] by (simp add: tier_records_def)

lemma record_len_encoded:
  assumes "stream_packet n p" shows "stock_tier_record_len n (write_record n [] p @ rest) = length (write_record n [] p)"
    and "write_record n [] p \<noteq> []"
proof -
  obtain bytes where e: "packet_codec_encode n p (PACKET_CODEC_MAX_BYTES n) = Some bytes" "write_record n [] p = [] @ bytes"
    using fwrite_encoded[OF assms, of "[]"] by metis
  have s: "n \<le> 16" "codec_grid n (grid p)" "header_ok p" using assms by (simp_all add: stream_packet_def)
  note pk = encoded_peek[OF s e(1)]
  have len: "length bytes = STOCK_TIER_RECORD_PREFIX n + PACKET_CODEC_VALUE_BYTES n (possibility_placed_count n p)"
    using codec_roundtrip(2)[OF s e(1)]
    by (simp add: packet_codec_encoded_size_def packet_codec_size_for_def codec_placed_count STOCK_TIER_RECORD_PREFIX_def)
  show "stock_tier_record_len n (write_record n [] p @ rest) = length (write_record n [] p)"
    using pk(1)[of rest] len e(2) by (simp add: stock_tier_record_len_def Let_def)
  show "write_record n [] p \<noteq> []" using len e(2) by (auto simp: STOCK_TIER_RECORD_PREFIX_def PACKET_CODEC_HEADER_BYTES_def)
qed

lemma count_tier_records: "list_all (stream_packet n) ps \<Longrightarrow> count_from n (tier_records n ps) = Some (length ps)"
proof (induction ps)
  case Nil
  then show ?case by (simp add: tier_records_def count_from.simps)
next
  case (Cons p ps)
  have p: "stream_packet n p" using Cons.prems by simp
  show ?case using Cons record_len_encoded[OF p]
    by (subst count_from.simps) (simp add: tier_records_Cons Let_def)
qed

text \<open>What is packed is unpacked, in the form the compressor gives or raw.\<close>

definition codec_ok :: "tier_codec \<Rightarrow> bool" where
  "codec_ok cd \<longleftrightarrow> (case fst cd of None \<Rightarrow> True | Some z \<Rightarrow> zstd_ok z)"

lemma pack_unpack:
  assumes cd: "codec_ok cd" and k: "0 \<le> stock_tier_count_records n raw" and cap: "length raw \<le> cap" "length raw \<le> cap'"
  shows "\<exists>stored codec. stock_tier_pack n cd raw cap = Some (stored, codec, stock_tier_count_records n raw) \<and> length stored \<le> length raw
     \<and> stock_tier_unpack n cd codec stored (length raw) (nat (stock_tier_count_records n raw)) cap' = Some (stock_tier_count_records n raw, raw)"
proof -
  let ?k = "stock_tier_count_records n raw"
  have raw: "raw \<noteq> []" "length raw \<le> STOCK_TIER_BLOCK_BYTES" using k by (auto simp: stock_tier_count_records_def split: if_splits)
  have plain: "stock_tier_unpack n cd STOCK_TIER_CODEC_RAW raw (length raw) (nat ?k) cap' = Some (?k, raw)"
    using raw k cap(2) by (simp add: stock_tier_unpack_def Let_def)
  show ?thesis
  proof (cases "\<exists>z frame. fst cd = Some z \<and> snd cd = STOCK_TIER_CODEC_ZSTD \<and> z_compress z cap raw = Some frame \<and> 0 < length frame \<and> length frame < length raw")
    case True
    then obtain z frame where z: "fst cd = Some z" "snd cd = STOCK_TIER_CODEC_ZSTD" "z_compress z cap raw = Some frame"
      "0 < length frame" "length frame < length raw" by blast
    have "z_decompress z (length raw) frame = Some raw" using cd z(1,3) by (simp add: codec_ok_def zstd_ok_def)
    then have "stock_tier_unpack n cd STOCK_TIER_CODEC_ZSTD frame (length raw) (nat ?k) cap' = Some (?k, raw)"
      using raw k cap(2) z(1) by (simp add: stock_tier_unpack_def Let_def STOCK_TIER_CODEC_ZSTD_def STOCK_TIER_CODEC_RAW_def)
    then show ?thesis using z k by (auto simp: stock_tier_pack_def Let_def)
  next
    case False
    then have "stock_tier_pack n cd raw cap = Some (raw, STOCK_TIER_CODEC_RAW, ?k)"
      using k cap(1) by (auto simp: stock_tier_pack_def Let_def split: option.split)
    then show ?thesis using plain by auto
  qed
qed

lemma pack_bound_enough: "raw_bytes \<le> stock_tier_pack_bound cd raw_bytes"
  by (auto simp: stock_tier_pack_bound_def Let_def split: option.split)

section \<open>The invariant of a stack\<close>

definition first_above :: "u64 \<Rightarrow> stock_tier_block list \<Rightarrow> u64 option" where
  "first_above sq bs = (case filter (\<lambda>b. b_seq b > sq) bs of [] \<Rightarrow> None | b # _ \<Rightarrow> Some (b_seq b))"

definition tier_inv :: "stock_tier_stack \<Rightarrow> bool" where
  "tier_inv s \<longleftrightarrow> sorted_wrt (\<lambda>b c. b_seq b < b_seq c) (t_chain s) \<and> (\<forall>b \<in> set (t_chain s). b_seq b \<le> t_last_seq s)
     \<and> t_records s = sum_list (map (of_nat \<circ> b_records) (t_chain s)) \<and> t_bytes s = sum_list (map block_cost (t_chain s))
     \<and> t_raw_bytes s = sum_list (map (of_nat \<circ> b_raw_bytes) (t_chain s)) \<and> t_blocks s = of_nat (length (t_chain s))
     \<and> t_above_mark s = first_above (t_mark_seq s) (t_chain s)"

lemma first_above_append:
  "first_above sq (xs @ ys) = (case first_above sq xs of None \<Rightarrow> first_above sq ys | Some b \<Rightarrow> Some b)"
  by (auto simp: first_above_def split: list.split)

lemma first_above_none: "first_above sq bs = None \<longleftrightarrow> (\<forall>b \<in> set bs. b_seq b \<le> sq)"
proof -
  have "first_above sq bs = None \<longleftrightarrow> filter (\<lambda>b. b_seq b > sq) bs = []" by (simp add: first_above_def split: list.split)
  then show ?thesis by (simp add: filter_empty_conv not_less)
qed

lemma first_above_in: "first_above sq bs = Some q \<Longrightarrow> \<exists>b \<in> set bs. b_seq b = q \<and> sq < q"
  by (auto simp: first_above_def split: list.splits dest!: filter_eq_ConsD)

lemma mark_scan_first:
  "sorted_wrt (\<lambda>b c. b_seq b < b_seq c) bs \<Longrightarrow> mark_scan (rev bs) sq f = (case first_above sq bs of None \<Rightarrow> f | Some q \<Rightarrow> Some q)"
proof (induction bs arbitrary: f rule: rev_induct)
  case (snoc b bs)
  have so: "sorted_wrt (\<lambda>b c. b_seq b < b_seq c) bs" "\<forall>c \<in> set bs. b_seq c < b_seq b" using snoc.prems by (simp_all add: sorted_wrt_append)
  show ?case
  proof (cases "b_seq b > sq")
    case True
    then show ?thesis using snoc.IH[OF so(1), of "Some (b_seq b)"] by (auto simp: first_above_append first_above_def[of sq "[b]"] split: option.split)
  next
    case False
    then have "first_above sq (bs @ [b]) = None" using so(2) by (auto simp: first_above_none)
    then show ?thesis using False by simp
  qed
qed (simp add: first_above_def)

lemma word_succ_less: "x \<noteq> -1 \<Longrightarrow> x < x + 1" for x :: u64
  using inc_less_eq_self_iff_eq[of x] by (simp add: not_le)

lemma init_inv: "tier_inv stock_tier_stack_init"
  by (simp add: tier_inv_def stock_tier_stack_init_def first_above_def)

lemma link_inv:
  assumes "tier_inv s" "t_last_seq s \<noteq> -1" shows "tier_inv (snd (stock_tier_link s b))"
proof -
  let ?sq = "t_last_seq s + 1" and ?b = "b\<lparr>b_seq := t_last_seq s + 1\<rparr>"
  have up: "t_last_seq s < ?sq" by (rule word_succ_less[OF assms(2)])
  then have lt: "b_seq c < ?sq" if "c \<in> set (t_chain s)" for c using assms(1) that by (auto simp: tier_inv_def)
  have "sorted_wrt (\<lambda>b c. b_seq b < b_seq c) (t_chain s @ [?b])" using assms(1) lt by (simp add: tier_inv_def sorted_wrt_append)
  moreover have "\<forall>c \<in> set (t_chain s @ [?b]). b_seq c \<le> ?sq" using lt less_imp_le by auto
  moreover have "(if t_above_mark s = None \<and> ?sq > t_mark_seq s then Some ?sq else t_above_mark s) = first_above (t_mark_seq s) (t_chain s @ [?b])"
    using assms(1) by (auto simp: tier_inv_def first_above_append first_above_def[of _ "[_]"] split: option.split)
  ultimately show ?thesis using assms(1) by (simp add: tier_inv_def stock_tier_link_def Let_def)
qed

lemma split_chain:
  assumes "tier_inv s" "b \<in> set (t_chain s)"
  obtains ys zs where "t_chain s = ys @ b # zs" "takeWhile (\<lambda>c. b_seq c \<noteq> b_seq b) (t_chain s) = ys" "blocks_above s (b_seq b) = zs"
proof -
  obtain ys zs where c: "t_chain s = ys @ b # zs" using assms(2) by (meson in_set_conv_decomp)
  have "\<forall>c \<in> set ys. b_seq c \<noteq> b_seq b" using assms(1) c by (auto simp: tier_inv_def sorted_wrt_append)
  then show ?thesis using that[of ys zs] c by (simp add: blocks_above_def takeWhile_append dropWhile_append)
qed

lemma unlink_chain:
  assumes "tier_inv s" "t_chain s = ys @ b # zs"
  shows "t_chain (stock_tier_unlink s b) = ys @ zs" "tier_inv (stock_tier_unlink s b)"
proof -
  have so: "sorted_wrt (\<lambda>b c. b_seq b < b_seq c) (ys @ b # zs)" using assms by (simp add: tier_inv_def)
  have "\<forall>c \<in> set ys. b_seq c \<noteq> b_seq b" using so by (auto simp: sorted_wrt_append)
  then have sp: "takeWhile (\<lambda>c. b_seq c \<noteq> b_seq b) (t_chain s) = ys" "blocks_above s (b_seq b) = zs"
    using assms(2) by (simp_all add: blocks_above_def takeWhile_append dropWhile_append)
  show c: "t_chain (stock_tier_unlink s b) = ys @ zs" by (simp add: stock_tier_unlink_def sp)
  let ?m = "t_mark_seq s"
  have am: "t_above_mark s = first_above ?m (ys @ b # zs)" using assms by (simp add: tier_inv_def)
  have "(if t_above_mark s = Some (b_seq b) then stock_tier_block_above s (b_seq b) else t_above_mark s) = first_above ?m (ys @ zs)"
  proof (cases "first_above ?m ys")
    case None
    show ?thesis
    proof (cases "b_seq b > ?m")
      case True
      then have "filter (\<lambda>c. b_seq c > ?m) zs = zs" using so by (auto simp: sorted_wrt_append filter_id_conv)
      then have "first_above ?m zs = (case zs of [] \<Rightarrow> None | c # _ \<Rightarrow> Some (b_seq c))" by (simp add: first_above_def)
      then show ?thesis using am None True by (simp add: first_above_append first_above_def[of ?m "b # zs"] stock_tier_block_above_def sp)
    next
      case False
      then have "first_above ?m (b # zs) = first_above ?m zs" by (simp add: first_above_def)
      moreover have "first_above ?m zs \<noteq> Some (b_seq b)" using so first_above_in[of ?m zs "b_seq b"] by (fastforce simp: sorted_wrt_append)
      ultimately show ?thesis using am None by (simp add: first_above_append)
    qed
  next
    case (Some q)
    have "q \<noteq> b_seq b" using so first_above_in[OF Some] by (fastforce simp: sorted_wrt_append)
    then show ?thesis using am Some by (simp add: first_above_append)
  qed
  then show "tier_inv (stock_tier_unlink s b)"
    using assms so c by (auto simp: tier_inv_def stock_tier_unlink_def sp sorted_wrt_append)
qed

lemma mark_inv: "tier_inv s \<Longrightarrow> tier_inv (stock_tier_set_mark s sq)"
  using mark_scan_first[of "t_chain s" sq None] by (auto simp: tier_inv_def stock_tier_set_mark_def split: option.split)

section \<open>Properties of the tier\<close>

text \<open>The stacks a program can reach; a block is linked under a sequence number that was never used.\<close>

inductive tier_reach :: "stock_tier_stack \<Rightarrow> bool" where
  init: "tier_reach stock_tier_stack_init"
| clear: "tier_reach s \<Longrightarrow> tier_reach (stock_tier_stack_clear s)"
| link: "tier_reach s \<Longrightarrow> t_last_seq s \<noteq> -1 \<Longrightarrow> tier_reach (snd (stock_tier_link s b))"
| push: "tier_reach s \<Longrightarrow> t_last_seq s \<noteq> -1 \<Longrightarrow> tier_reach (snd (stock_tier_push n cd scratch allocated s raw))"
| mark: "tier_reach s \<Longrightarrow> tier_reach (stock_tier_set_mark s sq)"
| pop_top: "tier_reach s \<Longrightarrow> tier_reach (stock_tier_pop_top s)"
| pop_bottom: "tier_reach s \<Longrightarrow> tier_reach (stock_tier_pop_bottom s)"
| remove: "tier_reach s \<Longrightarrow> b \<in> set (t_chain s) \<Longrightarrow> tier_reach (stock_tier_remove s (Some b))"

lemma unlink_inv: "tier_inv s \<Longrightarrow> b \<in> set (t_chain s) \<Longrightarrow> tier_inv (stock_tier_unlink s b)"
  by (metis split_chain unlink_chain(2))

lemma tier_reach_inv: "tier_reach s \<Longrightarrow> tier_inv s"
proof (induction rule: tier_reach.induct)
  case (pop_top s)
  then show ?case by (auto simp: stock_tier_pop_top_def stock_tier_top_def intro: unlink_inv)
next
  case (pop_bottom s)
  then show ?case by (auto simp: stock_tier_pop_bottom_def stock_tier_bottom_def intro: unlink_inv)
next
  case (push s n cd scratch allocated raw)
  then show ?case by (auto simp: stock_tier_push_def link_inv split: option.split)
qed (simp_all add: init_inv link_inv mark_inv unlink_inv stock_tier_stack_clear_def stock_tier_remove_def)

text \<open>C30. In every stack of blocks a program can reach, the counters (records, bytes held,
  raw bytes, blocks) are those of its blocks, the sequence numbers grow from the bottom to
  the top and stay below the last one given, and the block kept as \<open>above_mark\<close> is the lowest
  one whose number is above the mark, although pushes and removals anywhere in the stack only
  update it in constant time.\<close>

theorem tier_stack_invariant:
  assumes "tier_reach s"
  shows "t_records s = sum_list (map (of_nat \<circ> b_records) (t_chain s))
    \<and> t_bytes s = sum_list (map block_cost (t_chain s))
    \<and> t_raw_bytes s = sum_list (map (of_nat \<circ> b_raw_bytes) (t_chain s)) \<and> t_blocks s = of_nat (length (t_chain s))
    \<and> sorted_wrt (<) (map b_seq (t_chain s)) \<and> list_all (\<lambda>b. b_seq b \<le> t_last_seq s) (t_chain s)
    \<and> stock_tier_above_mark s = map_option b_seq (find (\<lambda>b. b_seq b > t_mark_seq s) (t_chain s))"
proof -
  have "first_above sq bs = map_option b_seq (find (\<lambda>b. b_seq b > sq) bs)" for sq bs
    by (induction bs) (simp_all add: first_above_def)
  then show ?thesis using tier_reach_inv[OF assms]
    by (simp add: tier_inv_def sorted_wrt_map list_all_iff stock_tier_above_mark_def)
qed

definition sample_block :: stock_tier_block where
  "sample_block = \<lparr>b_seq = 0, b_records = 2, b_raw_bytes = 50, b_stored_bytes = 30, b_codec = 1, b_data = replicate 30 0\<rparr>"

theorem tier_stack_invariant_witness:
  "let s1 = snd (stock_tier_link stock_tier_stack_init sample_block); s2 = stock_tier_set_mark s1 1; s = snd (stock_tier_link s2 sample_block) in
     t_records s = 4 \<and> stock_tier_above_mark s = Some 2"
proof -
  define s1 where "s1 = snd (stock_tier_link stock_tier_stack_init sample_block)"
  define s2 where "s2 = stock_tier_set_mark s1 1"
  have l: "t_last_seq s2 \<noteq> -1" by (simp add: s2_def s1_def stock_tier_set_mark_def stock_tier_link_def Let_def stock_tier_stack_init_def)
  have "tier_reach s1" unfolding s1_def by (rule tier_reach.link[OF tier_reach.init]) (simp add: stock_tier_stack_init_def)
  then have "tier_reach (snd (stock_tier_link s2 sample_block))" unfolding s2_def using l tier_reach.link tier_reach.mark by (simp add: s2_def)
  from tier_stack_invariant[OF this] show ?thesis
    unfolding s1_def[symmetric] s2_def[symmetric] Let_def
    by (simp add: s2_def s1_def stock_tier_set_mark_def stock_tier_link_def Let_def stock_tier_stack_init_def sample_block_def)
qed

text \<open>C29. Positions encoded one after the other and pushed as a block come back: the push
  answers their number, the block at the top unpacks to the same bytes and the same number
  of records, whether the compressor made it smaller or it was kept raw, and it costs at most
  what was announced. Popping it gives the blocks from before. A refused push leaves the
  stack as it was.\<close>

theorem tier_roundtrip:
  assumes "codec_ok cd" "list_all (stream_packet n) ps" "ps \<noteq> []" "length (tier_records n ps) \<le> STOCK_TIER_BLOCK_BYTES"
    and "tier_reach s" "t_last_seq s \<noteq> -1" "length (tier_records n ps) \<le> cap"
  shows "let raw = tier_records n ps; (r, s') = stock_tier_push n cd True True s raw in
      r = int (length ps) \<and> stock_tier_block_unpack n cd (stock_tier_top s') cap = Some (int (length ps), raw)
      \<and> (case stock_tier_top s' of None \<Rightarrow> False | Some b \<Rightarrow> b_stored_bytes b \<le> length raw)
      \<and> t_chain (stock_tier_pop_top s') = t_chain s
      \<and> stock_tier_push n cd True False s raw = (-1, s)"
proof -
  define raw where "raw = tier_records n ps"
  have "raw \<noteq> []" using assms(2,3) record_len_encoded(2)[of n "hd ps"] by (cases ps) (auto simp: raw_def tier_records_Cons)
  then have k: "stock_tier_count_records n raw = int (length ps)"
    using assms(4) count_tier_records[OF assms(2)] by (simp add: stock_tier_count_records_def raw_def)
  then have "0 \<le> stock_tier_count_records n raw" by simp
  from pack_unpack[OF assms(1) this pack_bound_enough[of "length raw" cd] assms(7)[folded raw_def]]
  obtain stored codec where p: "stock_tier_pack n cd raw (stock_tier_pack_bound cd (length raw)) = Some (stored, codec, int (length ps))"
    "length stored \<le> length raw" "stock_tier_unpack n cd codec stored (length raw) (length ps) cap = Some (int (length ps), raw)"
    using k by auto
  define b where "b = \<lparr>b_seq = 0, b_records = length ps, b_raw_bytes = length raw, b_stored_bytes = length stored, b_codec = codec, b_data = stored\<rparr>"
  have push: "stock_tier_push n cd True True s raw = stock_tier_link s b" "stock_tier_push n cd True False s raw = (-1, s)"
    using p(1) k by (simp_all add: stock_tier_push_def stock_tier_block_build_def b_def)
  obtain r s' where l: "stock_tier_link s b = (r, s')" by fastforce
  have s': "t_chain s' = t_chain s @ [b\<lparr>b_seq := t_last_seq s + 1\<rparr>]" "r = int (length ps)"
    using l by (auto simp: stock_tier_link_def Let_def b_def)
  have inv: "tier_inv s'" using link_inv[OF tier_reach_inv[OF assms(5)] assms(6), of b] l by simp
  have "t_chain (stock_tier_pop_top s') = t_chain s"
    using unlink_chain(1)[OF inv, of "t_chain s" "b\<lparr>b_seq := t_last_seq s + 1\<rparr>" "[]"] s'(1) by (simp add: stock_tier_pop_top_def stock_tier_top_def)
  then show ?thesis using push l s' p(2,3) unfolding raw_def[symmetric] Let_def
    by (simp add: stock_tier_top_def stock_tier_block_unpack_def b_def)
qed

text \<open>A compressor that halves a block of a repeated byte, with a two-byte frame.\<close>

definition run_codec :: zstd where
  "run_codec = \<lparr>z_compress = (\<lambda>cap raw. if 2 \<le> cap \<and> raw \<noteq> [] \<and> length raw < 256 \<and> raw = replicate (length raw) (hd raw)
       then Some [of_nat (length raw), hd raw] else None),
     z_decompress = (\<lambda>k frame. case frame of [l, x] \<Rightarrow> Some (replicate (unat l) x) | _ \<Rightarrow> None), z_bound = (\<lambda>k. k + 2)\<rparr>"

lemma run_codec_ok: "zstd_ok run_codec"
  by (auto simp: zstd_ok_def run_codec_def unat_of_nat take_bit_nat_eq_self split: if_splits)

theorem tier_roundtrip_witness:
  "let raw = tier_records 4 [sample_empty]; (r, s') = stock_tier_push 4 (Some run_codec, STOCK_TIER_CODEC_ZSTD) True True stock_tier_stack_init raw in
      r = int (length [sample_empty])
      \<and> stock_tier_block_unpack 4 (Some run_codec, STOCK_TIER_CODEC_ZSTD) (stock_tier_top s') 100 = Some (int (length [sample_empty]), raw)
      \<and> (case stock_tier_top s' of None \<Rightarrow> False | Some b \<Rightarrow> b_stored_bytes b \<le> length raw)
      \<and> t_chain (stock_tier_pop_top s') = t_chain stock_tier_stack_init
      \<and> stock_tier_push 4 (Some run_codec, STOCK_TIER_CODEC_ZSTD) True False stock_tier_stack_init raw = (-1, stock_tier_stack_init)"
proof (rule tier_roundtrip)
  have "codec_grid 4 (grid sample_empty)" "header_ok sample_empty" by code_simp+
  then show "list_all (stream_packet 4) [sample_empty]" by (simp add: stream_packet_def)
  have "length (tier_records 4 [sample_empty]) = 8" by code_simp
  then show "length (tier_records 4 [sample_empty]) \<le> STOCK_TIER_BLOCK_BYTES" "length (tier_records 4 [sample_empty]) \<le> 100"
    by (simp_all add: STOCK_TIER_BLOCK_BYTES_def)
  show "tier_reach stock_tier_stack_init" by (rule tier_reach.init)
qed (simp_all add: codec_ok_def run_codec_ok stock_tier_stack_init_def)

end
