(* ===== verification/Stock_Moves.thy ===== *)
theory Stock_Moves
  imports Stock_Pools Stock_Tier
begin

text \<open>
  Moving positions within the stock (\<open>datamanager.c\<close>): the loop that locks a queue in turn until one
  is free, draining the oldest positions of a queue and refilling it for the disk and compact
  tiers, and the rebalancing of a pool, from its fullest queue to its emptiest.
\<close>

section \<open>Locking in turn\<close>

text \<open>\<open>dest = (dest + 1) % nb_file_possibility\<close> until \<open>pthread_mutex_trylock\<close> succeeds.\<close>

partial_function (option) lock_rotating :: "os \<Rightarrow> nat \<Rightarrow> stock \<Rightarrow> (nat \<times> stock) option" where
  "lock_rotating os dest s =
     (if os_trylock os (trylocks s) then Some (dest, s\<lparr>trylocks := Suc (trylocks s)\<rparr>)
      else lock_rotating os ((dest + 1) mod nb_file_possibility s) (s\<lparr>trylocks := Suc (trylocks s)\<rparr>))"

definition put_unsorted :: "nat \<Rightarrow> os \<Rightarrow> bool \<Rightarrow> possibility_packet \<Rightarrow> nat \<Rightarrow> stock \<Rightarrow> stock" where
  "put_unsorted n os c p f s = set_sort_state c f FILE_SORT_UNKNOWN (snd (pool_put n os c f p s))"

definition put_rotating :: "nat \<Rightarrow> os \<Rightarrow> bool \<Rightarrow> possibility_packet \<Rightarrow> nat \<Rightarrow> stock \<Rightarrow> (nat \<times> stock) option" where
  "put_rotating n os c p dest s = map_option (\<lambda>(f, s1). (f, put_unsorted n os c p f s1)) (lock_rotating os dest s)"

section \<open>Draining and refilling\<close>

primrec drain_fifo :: "nat \<Rightarrow> bool \<Rightarrow> nat \<Rightarrow> nat \<Rightarrow> stock \<Rightarrow> possibility_packet list \<times> stock" where
  "drain_fifo n c f 0 s = ([], s)"
| "drain_fifo n c f (Suc k) s =
     (case pool_scroll_fifo n c f s of
        (None, s1) \<Rightarrow> ([], s1)
      | (Some p, s1) \<Rightarrow> (let (ps, s2) = drain_fifo n c f k s1 in (p # ps, s2)))"

definition datamanager_pool_drain_head :: "nat \<Rightarrow> os \<Rightarrow> bool \<Rightarrow> int \<Rightarrow> int \<Rightarrow> stock \<Rightarrow> possibility_packet list \<times> stock" where
  "datamanager_pool_drain_head n os c file_index max_packets s =
     (if file_index < 0 \<or> file_index \<ge> int (nb_file_possibility s) \<or> max_packets \<le> 0 then ([], s)
      else (let (free, s1) = trylock os s
            in if \<not> free then ([], s1) else drain_fifo n c (nat file_index) (nat max_packets) s1))"

text \<open>The queue that could be locked is the first to be tried for the next position.\<close>

primrec refill_from :: "nat \<Rightarrow> os \<Rightarrow> bool \<Rightarrow> possibility_packet list \<Rightarrow> nat \<Rightarrow> stock \<Rightarrow> stock option" where
  "refill_from n os c [] dest s = Some s"
| "refill_from n os c (p # ps) dest s =
     (case put_rotating n os c p dest s of None \<Rightarrow> None | Some (f, s1) \<Rightarrow> refill_from n os c ps f s1)"

definition datamanager_pool_refill :: "nat \<Rightarrow> os \<Rightarrow> bool \<Rightarrow> int \<Rightarrow> possibility_packet list \<Rightarrow> stock \<Rightarrow> (int \<times> stock) option" where
  "datamanager_pool_refill n os c file_index ps s =
     (if file_index < 0 \<or> file_index \<ge> int (nb_file_possibility s) \<or> ps = [] then Some (0, s)
      else map_option (\<lambda>s'. (int (length ps), s')) (refill_from n os c ps (nat file_index) s))"

text \<open>The compact form of both: the records themselves, in a buffer of \<open>cap\<close> bytes.\<close>

primrec drain_records :: "bool \<Rightarrow> nat \<Rightarrow> nat \<Rightarrow> nat \<Rightarrow> stock \<Rightarrow> u8 list list \<times> stock" where
  "drain_records c f cap 0 s = ([], s)"
| "drain_records c f cap (Suc k) s =
     (case scroll_fifo_record cap (file_of c f s) of
        (None, q) \<Rightarrow> ([], s)
      | (Some r, q) \<Rightarrow> (let (rs, s2) = drain_records c f (cap - length r) k (set_file c f q s) in (r # rs, s2)))"

definition datamanager_pool_drain_head_compact ::
  "os \<Rightarrow> bool \<Rightarrow> int \<Rightarrow> nat \<Rightarrow> int \<Rightarrow> stock \<Rightarrow> int \<times> u8 list \<times> stock" where
  "datamanager_pool_drain_head_compact os c file_index cap max_records s =
     (if file_index < 0 \<or> file_index \<ge> int (nb_file_possibility s) then (0, [], s)
      else (let (free, s1) = trylock os s
            in if \<not> free then (0, [], s1)
               else (let (rs, s2) = drain_records c (nat file_index) cap (nat max_records) s1
                     in (int (length rs), concat rs, s2))))"

text \<open>The lengths of the records of a buffer, \<open>None\<close> when it does not split.\<close>

definition record_len_at :: "nat \<Rightarrow> u8 list \<Rightarrow> nat" where
  "record_len_at n raw = PACKET_CODEC_HEADER_BYTES + PACKET_CODEC_BITMAP_BYTES n + PACKET_CODEC_VALUE_BYTES n (packet_codec_peek_placed n raw)"

function split_records :: "nat \<Rightarrow> u8 list \<Rightarrow> u8 list list option" where
  "split_records n raw =
     (if raw = [] then Some []
      else if length raw < PACKET_CODEC_HEADER_BYTES + PACKET_CODEC_BITMAP_BYTES n then None
      else if record_len_at n raw > length raw then None
      else map_option ((#) (take (record_len_at n raw) raw)) (split_records n (drop (record_len_at n raw) raw)))"
  by pat_completeness auto
termination
  by (relation "measure (\<lambda>(n, raw). length raw)") (auto simp: record_len_at_def PACKET_CODEC_HEADER_BYTES_def)

declare split_records.simps [simp del]

text \<open>Insertion stops at the first record that cannot be allocated.\<close>

primrec put_records :: "os \<Rightarrow> bool \<Rightarrow> nat \<Rightarrow> u8 list list \<Rightarrow> stock \<Rightarrow> nat \<times> stock" where
  "put_records os c f [] s = (0, s)"
| "put_records os c f (r # rs) s =
     (let (ok, q) = put_record (os_malloc os (mallocs s)) r (file_of c f s);
          s1 = (set_file c f q s)\<lparr>mallocs := Suc (mallocs s)\<rparr>
      in if ok then (let (k, s2) = put_records os c f rs s1 in (Suc k, s2)) else (0, s1))"

primrec unput_records :: "nat \<Rightarrow> bool \<Rightarrow> nat \<Rightarrow> nat \<Rightarrow> stock \<Rightarrow> stock" where
  "unput_records n c f 0 s = s"
| "unput_records n c f (Suc k) s = unput_records n c f k (set_file c f (snd (scroll_record (PACKET_CODEC_MAX_BYTES n) (file_of c f s))) s)"

definition datamanager_pool_refill_compact :: "nat \<Rightarrow> os \<Rightarrow> bool \<Rightarrow> int \<Rightarrow> u8 list \<Rightarrow> stock \<Rightarrow> int \<times> stock" where
  "datamanager_pool_refill_compact n os c file_index raw s =
     (if file_index < 0 \<or> file_index \<ge> int (nb_file_possibility s) \<or> raw = [] then (-1, s)
      else (case split_records n raw of None \<Rightarrow> (-1, s)
            | Some rs \<Rightarrow>
                (let (free, s1) = trylock os s; f = nat file_index in
                 if \<not> free then (0, s1)
                 else (let (inserted, s2) = put_records os c f rs s1 in
                   if inserted < length rs then (-1, unput_records n c f inserted s2)
                   else (int (length rs), set_sort_state c f FILE_SORT_UNKNOWN s2)))))"

section \<open>Rebalancing\<close>

definition loads :: "bool \<Rightarrow> stock \<Rightarrow> nat list" where
  "loads c s = map (\<lambda>f. length (file_of c f s)) [0..<nb_file_possibility s]"

definition fullest_of :: "nat list \<Rightarrow> nat" where
  "fullest_of sizes = fold (\<lambda>fp b. if sizes ! fp > sizes ! b then fp else b) [0..<length sizes] 0"

definition emptiest_of :: "nat list \<Rightarrow> nat" where
  "emptiest_of sizes = fold (\<lambda>fp b. if sizes ! fp < sizes ! b then fp else b) [0..<length sizes] 0"

text \<open>How many positions to move, 0 when the pool is balanced.\<close>

definition moves_wanted :: "nat list \<Rightarrow> nat \<Rightarrow> nat" where
  "moves_wanted sizes max_packets =
     (let total = sum_list sizes; fullest = fullest_of sizes; emptiest = emptiest_of sizes; target = total div length sizes in
      if fullest = emptiest \<or> total = 0 \<or> sizes ! fullest \<le> target then 0
      else (let surplus = sizes ! fullest - target;
                deficit = (if sizes ! emptiest < target then target - sizes ! emptiest else 1);
                to_move = (if surplus < deficit then surplus else deficit);
                to_move' = (if to_move = 0 then 1 else to_move)
            in if to_move' > max_packets then max_packets else to_move'))"

primrec scroll_buffer :: "nat \<Rightarrow> bool \<Rightarrow> nat \<Rightarrow> nat \<Rightarrow> stock \<Rightarrow> possibility_packet list \<times> stock" where
  "scroll_buffer n c f 0 s = ([], s)"
| "scroll_buffer n c f (Suc k) s =
     (case pool_scroll n c f s of
        (None, s1) \<Rightarrow> ([], s1)
      | (Some p, s1) \<Rightarrow> (let (ps, s2) = scroll_buffer n c f k s1 in (p # ps, s2)))"

text \<open>Every position is offered to the emptiest queue first.\<close>

primrec put_spread :: "nat \<Rightarrow> os \<Rightarrow> bool \<Rightarrow> nat \<Rightarrow> possibility_packet list \<Rightarrow> stock \<Rightarrow> stock option" where
  "put_spread n os c emptiest [] s = Some s"
| "put_spread n os c emptiest (p # ps) s =
     (case put_rotating n os c p emptiest s of None \<Rightarrow> None | Some (_, s1) \<Rightarrow> put_spread n os c emptiest ps s1)"

definition rebalance_pool_step :: "nat \<Rightarrow> os \<Rightarrow> bool \<Rightarrow> int \<Rightarrow> stock \<Rightarrow> (int \<times> stock) option" where
  "rebalance_pool_step n os c max_packets s =
     (if max_packets \<le> 0 then Some (0, s)
      else (let sizes = loads c s; to_move = moves_wanted sizes (nat max_packets) in
        if to_move = 0 then Some (0, s)
        else if \<not> os_malloc os (mallocs s) then Some (0, s\<lparr>mallocs := Suc (mallocs s)\<rparr>)
        else (let (buf, s1) = scroll_buffer n c (fullest_of sizes) to_move (s\<lparr>mallocs := Suc (mallocs s)\<rparr>)
              in map_option (\<lambda>s2. (int (length buf), s2)) (put_spread n os c (emptiest_of sizes) buf s1))))"

text \<open>\<open>left\<close> is what remains of the \<open>2 * nb_file_possibility\<close> rounds.\<close>

primrec rebalance_rounds :: "nat \<Rightarrow> os \<Rightarrow> bool \<Rightarrow> nat \<Rightarrow> int \<Rightarrow> stock \<Rightarrow> (int \<times> stock) option" where
  "rebalance_rounds n os c 0 budget s = Some (0, s)"
| "rebalance_rounds n os c (Suc left) budget s =
     (if budget \<le> 0 then Some (0, s)
      else (case rebalance_pool_step n os c budget s of
              None \<Rightarrow> None
            | Some (moved, s1) \<Rightarrow>
                if moved \<le> 0 then Some (0, s1)
                else map_option (\<lambda>(m, s2). (moved + m, s2)) (rebalance_rounds n os c left (budget - moved) s1)))"

definition rebalance_pool_until_budget :: "nat \<Rightarrow> os \<Rightarrow> bool \<Rightarrow> int \<Rightarrow> stock \<Rightarrow> (int \<times> stock) option" where
  "rebalance_pool_until_budget n os c max_packets s = rebalance_rounds n os c (nb_file_possibility s * 2) max_packets s"

definition datamanager_rebalance_step :: "nat \<Rightarrow> os \<Rightarrow> int \<Rightarrow> stock \<Rightarrow> (int \<times> stock) option" where
  "datamanager_rebalance_step n os max_packets s =
     (case rebalance_pool_until_budget n os False max_packets s of
        None \<Rightarrow> None
      | Some (moved, s1) \<Rightarrow> map_option (\<lambda>(m, s2). (moved + m, s2)) (rebalance_pool_until_budget n os True max_packets s1))"

section \<open>The lock is taken\<close>

text \<open>No queue stays locked for ever.\<close>

definition fair :: "os \<Rightarrow> bool" where
  "fair os \<longleftrightarrow> (\<forall>k. \<exists>k' \<ge> k. os_trylock os k')"

definition lock_turn :: "stock \<Rightarrow> bool \<Rightarrow> nat \<Rightarrow> nat + nat" where
  "lock_turn s free dest = (if free then Inl dest else Inr ((dest + 1) mod nb_file_possibility s))"

definition lock_loop :: "os \<Rightarrow> stock \<Rightarrow> (nat \<Rightarrow> bool) \<Rightarrow> nat \<Rightarrow> nat \<Rightarrow> nat option" where
  "lock_loop os s frees k dest = map_option fst (lock_rotating (os\<lparr>os_trylock := frees\<rparr>) dest (s\<lparr>trylocks := k\<rparr>))"

interpretation locking: fair_loop "lock_turn s" "lock_loop os s" "\<lambda>_. True" "\<lambda>free. \<not> free" "\<lambda>dest. dest < nb_file_possibility s"
  "\<lambda>_ dest. dest < nb_file_possibility s" "\<lambda>_. 0" for os s
proof unfold_locales
  show "lock_loop os s frees k dest = (case lock_turn s (frees k) dest of Inl x \<Rightarrow> Some x | Inr r' \<Rightarrow> lock_loop os s frees (k + 1) r')" for frees k dest
    unfolding lock_loop_def by (subst lock_rotating.simps) (simp add: lock_turn_def)
qed (auto simp: lock_turn_def split: if_splits)

lemma lock_rotating_result:
  assumes "lock_rotating os dest s = Some y"
  shows "\<exists>k. snd y = s\<lparr>trylocks := k\<rparr>"
proof (rule lock_rotating.raw_induct[OF _ assms], goal_cases)
  case (1 rec os dest s y)
  show ?case
  proof (cases "os_trylock os (trylocks s)")
    case True
    then show ?thesis using 1(2) by auto
  next
    case False
    then have "rec os ((dest + 1) mod nb_file_possibility s) (s\<lparr>trylocks := Suc (trylocks s)\<rparr>) = Some y" using 1(2) by simp
    from 1(1)[OF this] show ?thesis by simp
  qed
qed

lemma lock_rotating_returns:
  assumes "fair os" "dest < nb_file_possibility s"
  obtains f k where "lock_rotating os dest s = Some (f, s\<lparr>trylocks := k\<rparr>)" "f < nb_file_possibility s" "os_trylock os (trylocks s) \<longrightarrow> f = dest"
proof -
  have f: "\<forall>k. \<exists>k' \<ge> k. \<not> \<not> os_trylock os k'" using assms(1) by (simp add: fair_def)
  from locking.returns[OF f _ assms(2), of os "trylocks s"]
  obtain x where x: "lock_loop os s (os_trylock os) (trylocks s) dest = Some x" "x < nb_file_possibility s" by auto
  then obtain y where y: "lock_rotating os dest s = Some y" "fst y = x" by (auto simp: lock_loop_def)
  obtain k where "y = (x, s\<lparr>trylocks := k\<rparr>)" using lock_rotating_result[OF y(1)] y(2) by (metis prod.collapse)
  moreover have "os_trylock os (trylocks s) \<longrightarrow> x = dest" using y by (auto simp: lock_rotating.simps)
  ultimately show ?thesis using that y(1) x(2) by blast
qed

section \<open>Loads of the queues\<close>

lemma length_loads [simp]: "length (loads c s) = nb_file_possibility s"
  by (simp add: loads_def)

lemma loads_nth: "f < nb_file_possibility s \<Longrightarrow> loads c s ! f = length (file_of c f s)"
  by (simp add: loads_def)

lemma loads_same: "same_files s s' \<Longrightarrow> stock_ok n s \<Longrightarrow> loads c s' = loads c s"
  by (simp add: loads_def same_filesD(3,5) stock_ok_index)

lemma loads_set_file:
  assumes "f < nb_file_possibility s" "f < length (s_pool s c)"
  shows "loads c (set_file c f q s) = (loads c s)[f := length q]" "c' \<noteq> c \<Longrightarrow> loads c' (set_file c f q s) = loads c' s"
proof -
  show "loads c (set_file c f q s) = (loads c s)[f := length q]"
  proof (rule nth_equalityI)
    fix i assume "i < length (loads c (set_file c f q s))"
    then show "loads c (set_file c f q s) ! i = (loads c s)[f := length q] ! i"
      using assms by (cases "i = f") (simp_all add: loads_nth)
  qed simp
  show "c' \<noteq> c \<Longrightarrow> loads c' (set_file c f q s) = loads c' s" by (simp add: loads_def)
qed

lemma sum_list_update_nat: "f < length xs \<Longrightarrow> sum_list (xs[f := x]) + xs ! f = sum_list xs + (x :: nat)"
  using sum_list_update[of f xs x] elem_le_sum_list[of f xs] by simp

text \<open>\<open>stores n c s ps s'\<close>: the positions \<open>ps\<close> have been added to queues of pool \<open>c\<close> in use.\<close>

definition stores :: "nat \<Rightarrow> bool \<Rightarrow> stock \<Rightarrow> possibility_packet list \<Rightarrow> stock \<Rightarrow> bool" where
  "stores n c s ps s' \<longleftrightarrow> adds n s (only c (canon_mset n ps)) s' \<and> loads (\<not> c) s' = loads (\<not> c) s
     \<and> sum_list (loads c s') = sum_list (loads c s) + length ps"

lemma stores_refl: "stock_ok n s \<Longrightarrow> stores n c s [] s"
  by (simp add: stores_def adds_refl)

lemma only_plus: "(\<lambda>c'. only c A c' + only c B c') = only c (A + B)"
  by (auto simp: only_def)

lemma stores_trans: "stores n c s ps s' \<Longrightarrow> stores n c s' qs s'' \<Longrightarrow> stores n c s (ps @ qs) s''"
  using adds_trans[of n s "only c (canon_mset n ps)" s' "only c (canon_mset n qs)" s''] by (simp add: stores_def only_plus)

lemma stores_ok: "stores n c s ps s' \<Longrightarrow> stock_ok n s' \<and> nb_file_possibility s' = nb_file_possibility s"
  by (simp add: stores_def adds_def)

lemma same_stores:
  assumes "same_files s s1" "stores n c s1 ps s'" "stock_ok n s"
  shows "stores n c s ps s'"
  using assms loads_same[OF assms(1,3)] same_adds[OF assms(1)] by (simp add: stores_def)

lemma put_unsorted_stores:
  assumes ok: "stock_ok n s" and f: "f < nb_file_possibility s" and p: "stream_packet n p" and m: "memory os"
  shows "stores n c s [p] (put_unsorted n os c p f s)" "loads c (put_unsorted n os c p f s) = (loads c s)[f := Suc (loads c s ! f)]"
proof -
  obtain r where r: "packet_codec_encode n p (PACKET_CODEC_MAX_BYTES n) = Some r" "record_fits r" by (rule encode_good[OF p])
  define s1 where "s1 = set_file c f (file_of c f s @ [r]) s"
  define s2 where "s2 = snd (pool_put n os c f p s)"
  have e: "s2 = s1\<lparr>mallocs := Suc (mallocs s)\<rparr>" using r m by (simp add: pool_put_def put_record_def memory_def s1_def s2_def)
  have a: "adds n s (only c {#canonical_packet n p#}) s2" using pool_put_spec(2)[OF ok f p, of os c] m by (simp add: memory_def s2_def)
  then have ok2: "stock_ok n s2" by (simp add: adds_def)
  note fl = stock_ok_index[OF ok f, of c]
  have same: "same_files s2 (put_unsorted n os c p f s)" by (simp add: put_unsorted_def s2_def sort_state_same)
  have l2: "loads c s2 = (loads c s)[f := Suc (loads c s ! f)]" "loads (\<not> c) s2 = loads (\<not> c) s"
    using loads_set_file[OF f fl] f by (simp_all add: e s1_def loads_nth loads_def file_of_def)
  show "loads c (put_unsorted n os c p f s) = (loads c s)[f := Suc (loads c s ! f)]" using loads_same[OF same ok2] l2 by simp
  moreover have "sum_list ((loads c s)[f := Suc (loads c s ! f)]) = Suc (sum_list (loads c s))"
    using sum_list_update_nat[of f "loads c s" "Suc (loads c s ! f)"] f by simp
  ultimately show "stores n c s [p] (put_unsorted n os c p f s)"
    using adds_same[OF a same] loads_same[OF same ok2] l2(2) by (simp add: stores_def)
qed

lemma put_rotating_stores:
  assumes "stock_ok n s" "dest < nb_file_possibility s" "stream_packet n p" "memory os" "fair os"
  obtains f s' where "put_rotating n os c p dest s = Some (f, s')" "f < nb_file_possibility s" "stores n c s [p] s'"
    "os_trylock os (trylocks s) \<longrightarrow> loads c s' = (loads c s)[dest := Suc (loads c s ! dest)]"
proof -
  obtain f k where l: "lock_rotating os dest s = Some (f, s\<lparr>trylocks := k\<rparr>)" "f < nb_file_possibility s" "os_trylock os (trylocks s) \<longrightarrow> f = dest"
    using lock_rotating_returns[OF assms(5,2)] .
  let ?s = "s\<lparr>trylocks := k\<rparr>"
  have same: "same_files s ?s" by simp
  have ok: "stock_ok n ?s" "f < nb_file_possibility ?s" using same_filesD(2)[OF same] assms(1) l(2) by simp_all
  note st = put_unsorted_stores[OF ok assms(3,4), of c]
  show ?thesis
  proof (rule that)
    show "put_rotating n os c p dest s = Some (f, put_unsorted n os c p f ?s)" by (simp add: put_rotating_def l(1))
    show "stores n c s [p] (put_unsorted n os c p f ?s)" by (rule same_stores[OF same st(1) assms(1)])
    show "os_trylock os (trylocks s) \<longrightarrow> loads c (put_unsorted n os c p f ?s) = (loads c s)[dest := Suc (loads c s ! dest)]"
      using st(2) loads_same[OF same assms(1)] l(3) by auto
  qed (rule l(2))
qed

lemma refill_from_stores:
  assumes "memory os" "fair os" "list_all (stream_packet n) ps" "stock_ok n s" "dest < nb_file_possibility s"
  shows "\<exists>s'. refill_from n os c ps dest s = Some s' \<and> stores n c s ps s'"
  using assms(3-5)
proof (induction ps arbitrary: dest s)
  case (Cons p ps)
  have p: "stream_packet n p" using Cons.prems by simp
  obtain f s1 where s1: "put_rotating n os c p dest s = Some (f, s1)" "f < nb_file_possibility s" "stores n c s [p] s1"
    using put_rotating_stores[OF Cons.prems(2,3) p assms(1,2)] .
  obtain s' where "refill_from n os c ps f s1 = Some s'" "stores n c s1 ps s'"
    using Cons.IH[of s1 f] stores_ok[OF s1(3)] s1(2) Cons.prems by auto
  then show ?case using s1(1) stores_trans[OF s1(3)] by simp
qed (simp add: stores_refl)

lemma put_spread_stores:
  assumes "memory os" "fair os" "list_all (stream_packet n) ps" "stock_ok n s" "e < nb_file_possibility s"
  shows "\<exists>s'. put_spread n os c e ps s = Some s' \<and> stores n c s ps s'"
  using assms(3-5)
proof (induction ps arbitrary: s)
  case (Cons p ps)
  have p: "stream_packet n p" using Cons.prems by simp
  obtain f s1 where s1: "put_rotating n os c p e s = Some (f, s1)" "stores n c s [p] s1"
    using put_rotating_stores[OF Cons.prems(2,3) p assms(1,2)] .
  obtain s' where "put_spread n os c e ps s1 = Some s'" "stores n c s1 ps s'"
    using Cons.IH[of s1] stores_ok[OF s1(2)] Cons.prems by auto
  then show ?case using s1(1) stores_trans[OF s1(2)] by simp
qed (simp add: stores_refl)


section \<open>Fullest and emptiest\<close>

lemma fullest_spec:
  assumes "sizes \<noteq> []"
  shows "fullest_of sizes < length sizes \<and> (\<forall>f < length sizes. sizes ! f \<le> sizes ! fullest_of sizes)"
proof -
  have "k \<le> length sizes \<Longrightarrow> (let b = fold (\<lambda>fp b. if sizes ! fp > sizes ! b then fp else b) [0..<k] 0
      in b < length sizes \<and> (\<forall>f < k. sizes ! f \<le> sizes ! b))" for k
    by (induction k) (use assms in \<open>auto simp: Let_def less_Suc_eq intro: less_imp_le order.trans\<close>)
  from this[of "length sizes"] show ?thesis by (simp add: fullest_of_def Let_def)
qed

lemma emptiest_spec:
  assumes "sizes \<noteq> []"
  shows "emptiest_of sizes < length sizes \<and> (\<forall>f < length sizes. sizes ! emptiest_of sizes \<le> sizes ! f)"
proof -
  have "k \<le> length sizes \<Longrightarrow> (let b = fold (\<lambda>fp b. if sizes ! fp < sizes ! b then fp else b) [0..<k] 0
      in b < length sizes \<and> (\<forall>f < k. sizes ! b \<le> sizes ! f))" for k
    by (induction k) (use assms in \<open>auto simp: Let_def less_Suc_eq intro: less_imp_le order.trans\<close>)
  from this[of "length sizes"] show ?thesis by (simp add: emptiest_of_def Let_def)
qed

text \<open>All loads are equal: their sum is then a multiple of their number.\<close>

definition balanced :: "nat list \<Rightarrow> bool" where
  "balanced sizes \<longleftrightarrow> (\<forall>x \<in> set sizes. x = hd sizes)"

lemma balanced_sum:
  assumes "balanced sizes" shows "sum_list sizes = hd sizes * length sizes"
proof -
  have "replicate (length sizes) (hd sizes) = sizes" using assms by (intro replicate_length_same) (simp add: balanced_def)
  then have "sum_list sizes = sum_list (replicate (length sizes) (hd sizes))" by simp
  also have "\<dots> = hd sizes * length sizes" by (simp add: sum_list_replicate)
  finally show ?thesis .
qed

lemma balanced_nth: "balanced sizes \<Longrightarrow> f < length sizes \<Longrightarrow> sizes ! f = hd sizes"
  by (simp add: balanced_def)

lemma balancedI:
  assumes "\<And>f. f < length sizes \<Longrightarrow> sizes ! f = k"
  shows "balanced sizes"
proof -
  have "x = k" if "x \<in> set sizes" for x using that assms by (auto simp: in_set_conv_nth)
  then show ?thesis unfolding balanced_def by (metis hd_in_set empty_iff list.set(1))
qed

definition capped_move :: "nat \<Rightarrow> nat \<Rightarrow> nat \<Rightarrow> nat \<Rightarrow> nat" where
  "capped_move M m t mx =
     (let deficit = (if m < t then t - m else 1); k = (if M - t < deficit then M - t else deficit); k' = (if k = 0 then 1 else k)
      in if k' > mx then mx else k')"

lemma capped_move_bounds:
  "capped_move M m t mx \<le> mx" "t < M \<Longrightarrow> capped_move M m t mx \<le> M" "0 < mx \<Longrightarrow> capped_move M m t mx \<noteq> 0"
  unfolding capped_move_def Let_def by (auto split: if_splits)

lemma above_average:
  assumes "\<And>f. f < length sizes \<Longrightarrow> sizes ! f \<le> M" "M \<le> sum_list sizes div length sizes"
  shows "balanced sizes"
proof (rule balancedI)
  fix f assume f: "f < length sizes"
  show "sizes ! f = M"
  proof (rule ccontr)
    assume "sizes ! f \<noteq> M"
    then have less: "sizes ! f < M" using assms(1)[OF f] by simp
    have "(\<Sum>i = 0..<length sizes. sizes ! i) < (\<Sum>i = 0..<length sizes. M)"
      by (rule sum_strict_mono_ex1) (use assms(1) less f in auto)
    then have "sum_list sizes < M * length sizes" by (simp add: sum_list_sum_nth mult.commute)
    moreover have "M * length sizes \<le> sum_list sizes div length sizes * length sizes" using assms(2) by simp
    moreover have "sum_list sizes div length sizes * length sizes \<le> sum_list sizes" by simp
    ultimately show False by linarith
  qed
qed

lemma moves_wanted_spec:
  assumes "sizes \<noteq> []" "0 < max_packets"
  shows "moves_wanted sizes max_packets \<le> max_packets" "moves_wanted sizes max_packets \<le> sizes ! fullest_of sizes"
    "moves_wanted sizes max_packets = 0 \<longleftrightarrow> balanced sizes"
proof -
  let ?M = "sizes ! fullest_of sizes" and ?m = "sizes ! emptiest_of sizes" and ?t = "sum_list sizes div length sizes"
  define A where "A \<longleftrightarrow> fullest_of sizes = emptiest_of sizes \<or> sum_list sizes = 0 \<or> ?M \<le> ?t"
  have e: "moves_wanted sizes max_packets = (if A then 0 else capped_move ?M ?m ?t max_packets)"
    unfolding A_def moves_wanted_def capped_move_def Let_def by (rule refl)
  have t: "\<not> A \<Longrightarrow> ?t < ?M" unfolding A_def by linarith
  show "moves_wanted sizes max_packets \<le> max_packets" unfolding e by (simp add: capped_move_bounds(1))
  show "moves_wanted sizes max_packets \<le> ?M" unfolding e using capped_move_bounds(2)[OF t] by simp
  have none: "moves_wanted sizes max_packets = 0 \<longleftrightarrow> A" unfolding e using capped_move_bounds(3)[OF assms(2)] by simp
  have b: "?m \<le> sizes ! f" "sizes ! f \<le> ?M" if "f < length sizes" for f using fullest_spec[OF assms(1)] emptiest_spec[OF assms(1)] that by auto
  have z: "0 < length sizes" using assms(1) by simp
  show "moves_wanted sizes max_packets = 0 \<longleftrightarrow> balanced sizes"
  proof
    assume eq: "balanced sizes"
    have "?t = hd sizes" unfolding balanced_sum[OF eq] using z by simp
    moreover have "?M = hd sizes" using balanced_nth[OF eq] fullest_spec[OF assms(1)] by blast
    ultimately show "moves_wanted sizes max_packets = 0" unfolding none A_def by simp
  next
    assume "moves_wanted sizes max_packets = 0"
    then have "fullest_of sizes = emptiest_of sizes \<or> sum_list sizes = 0 \<or> ?M \<le> ?t" unfolding none A_def .
    then show "balanced sizes"
    proof (elim disjE)
      assume "fullest_of sizes = emptiest_of sizes"
      then show ?thesis using b by (intro balancedI[of _ ?M]) fastforce
    next
      assume "sum_list sizes = 0"
      then show ?thesis by (intro balancedI[of _ 0]) simp
    qed (rule above_average[OF b(2)])
  qed
qed

section \<open>A step of rebalancing\<close>

lemma scroll_buffer_spec:
  "stock_ok n s \<Longrightarrow> f < nb_file_possibility s \<Longrightarrow>
     \<exists>ps s'. scroll_buffer n c f k s = (ps, s') \<and> takes n c s ps s' \<and> length ps = min k (loads c s ! f)
       \<and> loads c s' = (loads c s)[f := loads c s ! f - k] \<and> loads (\<not> c) s' = loads (\<not> c) s \<and> trylocks s' = trylocks s"
proof (induction k arbitrary: s)
  case 0
  then show ?case by (simp add: takes_refl)
next
  case (Suc k)
  note fl = stock_ok_index[OF Suc.prems, of c]
  show ?case
  proof (cases "file_of c f s" rule: rev_cases)
    case Nil
    then show ?thesis using pool_scroll_empty[OF fl Nil] Suc.prems by (simp add: takes_refl loads_nth) (metis list_update_id loads_nth list.size(3))
  next
    case (snoc q r)
    note sc = pool_scroll_last[OF Suc.prems snoc]
    let ?s = "set_file c f q s"
    have ok: "stock_ok n ?s" "f < nb_file_possibility ?s" using sc(2) Suc.prems(2) by (simp_all add: takes_def)
    have l: "loads c ?s = (loads c s)[f := length q]" "loads (\<not> c) ?s = loads (\<not> c) s" "loads c s ! f = Suc (length q)"
      using loads_set_file[OF Suc.prems(2) fl] Suc.prems(2) snoc by (simp_all add: loads_nth)
    from Suc.IH[OF ok] obtain ps s' where ps: "scroll_buffer n c f k ?s = (ps, s')" "takes n c ?s ps s'" "length ps = min k (loads c ?s ! f)"
      "loads c s' = (loads c ?s)[f := loads c ?s ! f - k]" "loads (\<not> c) s' = loads (\<not> c) ?s" "trylocks s' = trylocks ?s" by blast
    have "takes n c s (stored n r # ps) s'" using takes_trans[OF sc(2) ps(2)] by simp
    moreover have "scroll_buffer n c f (Suc k) s = (stored n r # ps, s')" using sc(1) ps(1) by simp
    ultimately show ?thesis using ps(3-6) l Suc.prems(2) by (auto simp: set_file_def)
  qed
qed


text \<open>The stock holds the same positions, in the same number in the queues of each pool.\<close>

definition kept :: "nat \<Rightarrow> stock \<Rightarrow> stock \<Rightarrow> bool" where
  "kept n s s' \<longleftrightarrow> stock_ok n s' \<and> nb_file_possibility s' = nb_file_possibility s
     \<and> (\<forall>c. content n c s' = content n c s \<and> sum_list (loads c s') = sum_list (loads c s))"

lemma kept_refl: "stock_ok n s \<Longrightarrow> kept n s s"
  by (simp add: kept_def)

lemma kept_trans: "kept n s s' \<Longrightarrow> kept n s' s'' \<Longrightarrow> kept n s s''"
  by (simp add: kept_def)

lemma kept_same: "same_files s s' \<Longrightarrow> stock_ok n s \<Longrightarrow> kept n s s'"
  using same_filesD(1,2,5)[of s s'] loads_same[of s s' n] by (simp add: kept_def)

lemma canon_stock: "list_all (stock_packet n) ps \<Longrightarrow> canon_mset n ps = mset ps"
  by (induction ps) (simp_all add: stock_packet_def)

lemma take_and_store:
  assumes t: "takes n c s ps s1" and st: "stores n c s1 ps s2" and "f < nb_file_possibility s"
    and l: "loads c s1 = (loads c s)[f := loads c s ! f - k]" "loads (\<not> c) s1 = loads (\<not> c) s" "length ps = min k (loads c s ! f)"
  shows "kept n s s2"
proof -
  have ps: "canon_mset n ps = mset ps" using t by (intro canon_stock) (simp add: takes_def)
  have "content n c' s2 = content n c' s" for c'
    using t st takes_other(1)[OF t] ps by (cases "c' = c") (auto simp: takes_def stores_def adds_def only_def)
  moreover have "sum_list (loads c s2) = sum_list (loads c s)"
    using sum_list_update_nat[of f "loads c s" "loads c s ! f - k"] assms(3) l(1,3) st by (auto simp: stores_def min_def)
  then have "sum_list (loads c' s2) = sum_list (loads c' s)" for c'
    using l(2) st by (cases "c' = c") (auto simp: stores_def)
  ultimately show ?thesis using t stores_ok[OF st] by (simp add: kept_def takes_def)
qed

lemma rebalance_step_spec:
  assumes "fair os" "memory os" "stock_ok n s"
  obtains m s' where "rebalance_pool_step n os c mx s = Some (m, s')" "kept n s s'" "0 \<le> m" "m \<le> max 0 mx"
    "0 < mx \<longrightarrow> m = 0 \<longleftrightarrow> balanced (loads c s)"
proof -
  define sizes where "sizes = loads c s"
  define k where "k = moves_wanted sizes (nat mx)"
  have nb: "0 < nb_file_possibility s" using assms(3) by (simp add: stock_ok_def)
  then have ne: "sizes \<noteq> []" by (metis sizes_def length_loads length_greater_0_conv)
  have fe: "fullest_of sizes < nb_file_possibility s" "emptiest_of sizes < nb_file_possibility s"
    using fullest_spec[OF ne] emptiest_spec[OF ne] by (simp_all add: sizes_def)
  show ?thesis
  proof (cases "mx \<le> 0 \<or> k = 0")
    case True
    then have "rebalance_pool_step n os c mx s = Some (0, s)" by (auto simp: rebalance_pool_step_def Let_def k_def sizes_def)
    moreover have "0 < mx \<longrightarrow> balanced (loads c s)"
      using moves_wanted_spec(3)[OF ne, of "nat mx"] True by (auto simp: k_def sizes_def)
    ultimately show ?thesis using that[of 0 s] kept_refl[OF assms(3)] by simp
  next
    case False
    then have mx: "0 < nat mx" and k: "k \<noteq> 0" by auto
    note w = moves_wanted_spec[OF ne mx, folded k_def]
    let ?s = "s\<lparr>mallocs := Suc (mallocs s)\<rparr>"
    have same: "same_files s ?s" by simp
    have ok: "stock_ok n ?s" "loads c' ?s = loads c' s" for c' using same_filesD(2)[OF same] loads_same[OF same assms(3)] assms(3) by simp_all
    obtain ps s1 where ps: "scroll_buffer n c (fullest_of sizes) k ?s = (ps, s1)" "takes n c ?s ps s1" "length ps = min k (sizes ! fullest_of sizes)"
      "loads c s1 = sizes[fullest_of sizes := sizes ! fullest_of sizes - k]" "loads (\<not> c) s1 = loads (\<not> c) s"
      using scroll_buffer_spec[OF ok(1), of "fullest_of sizes" c k] fe(1) unfolding ok(2) sizes_def[symmetric] by auto
    have s1: "stock_ok n s1" "nb_file_possibility s1 = nb_file_possibility s" "list_all (stream_packet n) ps"
      using ps(2) by (simp_all add: takes_def stock_packet_def list_all_iff)
    obtain s2 where s2: "put_spread n os c (emptiest_of sizes) ps s1 = Some s2" "stores n c s1 ps s2"
      using put_spread_stores[OF assms(2,1) s1(3,1), of "emptiest_of sizes" c] fe(2) s1(2) by auto
    have len: "length ps = k" using ps(3) w(2) by simp
    have "rebalance_pool_step n os c mx s = Some (int k, s2)"
      using False assms(2) ps(1) s2(1) len by (simp add: rebalance_pool_step_def Let_def k_def sizes_def memory_def)
    moreover have "kept n ?s s2"
    proof (rule take_and_store[OF ps(2) s2(2)])
      show "fullest_of sizes < nb_file_possibility ?s" using fe(1) by simp
      show "loads c s1 = (loads c ?s)[fullest_of sizes := loads c ?s ! fullest_of sizes - k]" unfolding ok(2) ps(4) sizes_def ..
      show "loads (\<not> c) s1 = loads (\<not> c) ?s" unfolding ok(2) by (rule ps(5))
      show "length ps = min k (loads c ?s ! fullest_of sizes)" unfolding ok(2) ps(3) sizes_def ..
    qed
    then have "kept n s s2" using kept_trans[OF kept_same[OF same assms(3)]] by blast
    moreover have "int k \<le> max 0 mx" using w(1) mx by linarith
    moreover have "0 < mx \<longrightarrow> int k = 0 \<longleftrightarrow> balanced (loads c s)" using w(3) by (simp add: sizes_def)
    ultimately show ?thesis using that[of "int k" s2] by simp
  qed
qed

lemma rebalance_rounds_spec:
  assumes "fair os" "memory os"
  shows "stock_ok n s \<Longrightarrow> \<exists>m s'. rebalance_rounds n os c left budget s = Some (m, s') \<and> kept n s s' \<and> 0 \<le> m \<and> m \<le> max 0 budget
    \<and> (\<not> nb_file_possibility s dvd sum_list (loads c s) \<longrightarrow> min budget (int left) \<le> m)"
proof (induction left arbitrary: budget s)
  case 0
  then show ?case by (simp add: kept_refl)
next
  case (Suc left)
  show ?case
  proof (cases "budget \<le> 0")
    case True
    then show ?thesis using Suc.prems by (simp add: kept_refl)
  next
    case False
    obtain m s1 where m: "rebalance_pool_step n os c budget s = Some (m, s1)" "kept n s s1" "0 \<le> m" "m \<le> max 0 budget"
      "m = 0 \<longleftrightarrow> balanced (loads c s)"
      by (rule rebalance_step_spec[OF assms Suc.prems, of c budget]) (use False in auto)
    have ok: "stock_ok n s1" "nb_file_possibility s1 = nb_file_possibility s" "sum_list (loads c s1) = sum_list (loads c s)"
      using m(2) by (simp_all add: kept_def)
    show ?thesis
    proof (cases "m \<le> 0")
      case True
      then have "balanced (loads c s)" using m(3,5) by simp
      from balanced_sum[OF this] have "nb_file_possibility s dvd sum_list (loads c s)" by simp
      moreover have "rebalance_rounds n os c (Suc left) budget s = Some (0, s1)" using True False m(1) by simp
      ultimately show ?thesis using m(2) by auto
    next
      case more: False
      obtain m' s' where r: "rebalance_rounds n os c left (budget - m) s1 = Some (m', s')" "kept n s1 s'" "0 \<le> m'" "m' \<le> max 0 (budget - m)"
        "\<not> nb_file_possibility s dvd sum_list (loads c s) \<longrightarrow> min (budget - m) (int left) \<le> m'"
        using Suc.IH[OF ok(1), of "budget - m"] unfolding ok(2,3) by blast
      have "rebalance_rounds n os c (Suc left) budget s = Some (m + m', s')" using False more m(1) r(1) by simp
      moreover have "0 \<le> m + m'" "m + m' \<le> max 0 budget" using m(3,4) r(3,4) by linarith+
      moreover have "\<not> nb_file_possibility s dvd sum_list (loads c s) \<longrightarrow> min budget (int (Suc left)) \<le> m + m'" using r(5) more by linarith
      ultimately show ?thesis using kept_trans[OF m(2) r(2)] by blast
    qed
  qed
qed

lemma rebalance_spec:
  assumes "fair os" "memory os" "stock_ok n s"
  obtains m s' where "datamanager_rebalance_step n os max_packets s = Some (m, s')" "kept n s s'" "0 \<le> m" "m \<le> 2 * max 0 max_packets"
proof -
  obtain m1 s1 where 1: "rebalance_pool_until_budget n os False max_packets s = Some (m1, s1)" "kept n s s1" "0 \<le> m1" "m1 \<le> max 0 max_packets"
    using rebalance_rounds_spec[OF assms] unfolding rebalance_pool_until_budget_def by blast
  then have "stock_ok n s1" by (simp add: kept_def)
  then obtain m2 s2 where 2: "rebalance_pool_until_budget n os True max_packets s1 = Some (m2, s2)" "kept n s1 s2" "0 \<le> m2" "m2 \<le> max 0 max_packets"
    using rebalance_rounds_spec[OF assms(1,2)] unfolding rebalance_pool_until_budget_def by blast
  show ?thesis
  proof (rule that)
    show "datamanager_rebalance_step n os max_packets s = Some (m1 + m2, s2)" using 1(1) 2(1) by (simp add: datamanager_rebalance_step_def)
    show "kept n s s2" by (rule kept_trans[OF 1(2) 2(2)])
  qed (use 1 2 in simp_all)
qed


section \<open>Blocks of records\<close>

definition encoded :: "nat \<Rightarrow> u8 list \<Rightarrow> bool" where
  "encoded n r \<longleftrightarrow> (\<exists>p. stream_packet n p \<and> packet_codec_encode n p (PACKET_CODEC_MAX_BYTES n) = Some r)"

lemma encodedD:
  assumes "encoded n r"
  shows "record_len_at n (r @ rest) = length r" "PACKET_CODEC_HEADER_BYTES + PACKET_CODEC_BITMAP_BYTES n \<le> length r" "r \<noteq> []"
    "record_fits r" "length r \<le> PACKET_CODEC_MAX_BYTES n"
proof -
  obtain p where p: "stream_packet n p" and e: "packet_codec_encode n p (PACKET_CODEC_MAX_BYTES n) = Some r" using assms by (auto simp: encoded_def)
  have s: "n \<le> 16" "codec_grid n (grid p)" "header_ok p" using p by (simp_all add: stream_packet_def)
  note pk = encoded_peek[OF s e]
  show "PACKET_CODEC_HEADER_BYTES + PACKET_CODEC_BITMAP_BYTES n \<le> length r" by (rule pk(2))
  then show "r \<noteq> []" by (auto simp: PACKET_CODEC_HEADER_BYTES_def)
  show "record_len_at n (r @ rest) = length r" using codec_roundtrip(2)[OF s e] pk(1)[of rest]
    by (simp add: record_len_at_def packet_codec_encoded_size_def packet_codec_size_for_def codec_placed_count)
  show "record_fits r" "length r \<le> PACKET_CODEC_MAX_BYTES n"
    using encode_good[OF p] e by (auto simp: good_record_def)
qed

lemma split_encoded: "list_all (encoded n) rs \<Longrightarrow> split_records n (concat rs) = Some rs"
proof (induction rs)
  case Nil
  then show ?case by (simp add: split_records.simps)
next
  case (Cons r rs)
  have r: "encoded n r" using Cons.prems by simp
  show ?case using Cons encodedD(1)[OF r, of "concat rs"] encodedD(2,3)[OF r] by (subst split_records.simps) simp
qed

lemma set_file_twice: "set_file c f q (set_file c f q' s) = set_file c f q s"
  by (cases "f < length (s_pool s c)") (simp_all add: set_file_def list_update_beyond not_less)

lemma drain_records_spec:
  assumes "f < length (s_pool s c)"
  shows "\<exists>rs qs. drain_records c f cap k s = (rs, set_file c f qs s) \<and> file_of c f s = rs @ qs \<and> length rs \<le> k \<and> length (concat rs) \<le> cap"
  using assms
proof (induction k arbitrary: cap s)
  case 0
  then show ?case by (intro exI[of _ "[]"] exI[of _ "file_of c f s"]) (simp add: set_file_self)
next
  case (Suc k)
  show ?case
  proof (cases "file_of c f s \<noteq> [] \<and> length (hd (file_of c f s)) \<le> cap")
    case False
    then show ?thesis using Suc.prems by (intro exI[of _ "[]"] exI[of _ "file_of c f s"]) (auto simp: scroll_fifo_record_def set_file_self)
  next
    case True
    then obtain r q where q: "file_of c f s = r # q" "length r \<le> cap" by (cases "file_of c f s") auto
    let ?s = "set_file c f q s"
    from Suc.IH[of ?s "cap - length r"] Suc.prems obtain rs qs where
      i: "drain_records c f (cap - length r) k ?s = (rs, set_file c f qs ?s)" "q = rs @ qs" "length rs \<le> k" "length (concat rs) \<le> cap - length r"
      by auto
    have "drain_records c f cap (Suc k) s = (r # rs, set_file c f qs s)" using q i(1) by (simp add: scroll_fifo_record_def set_file_twice)
    then show ?thesis using q i(2-4) by (intro exI[of _ "r # rs"] exI[of _ qs]) simp
  qed
qed

lemma same_set_file: "same_files a b \<Longrightarrow> f < length (s_pool a c) \<Longrightarrow> same_files (set_file c f q a) (set_file c f q b)"
  by (auto simp: same_files_def set_file_def map_update)

lemma put_records_spec:
  assumes "f < length (s_pool s c)" "list_all record_fits rs"
  shows "\<exists>k s'. put_records os c f rs s = (k, s') \<and> k \<le> length rs \<and> same_files (set_file c f (file_of c f s @ take k rs) s) s'
    \<and> (memory os \<longrightarrow> k = length rs)"
  using assms
proof (induction rs arbitrary: s)
  case Nil
  then show ?case by (simp add: set_file_self same_files_def)
next
  case (Cons r rs)
  let ?q = "file_of c f s"
  show ?case
  proof (cases "os_malloc os (mallocs s)")
    case False
    then show ?thesis using Cons.prems by (auto simp: put_record_def set_file_self memory_def)
  next
    case True
    define s1 where "s1 = (set_file c f (?q @ [r]) s)\<lparr>mallocs := Suc (mallocs s)\<rparr>"
    have same: "same_files (set_file c f (?q @ [r]) s) s1" by (simp add: s1_def)
    have f: "file_of c f s1 = ?q @ [r]" "f < length (s_pool s1 c)" using same_filesD(3)[OF same, of f c] same_filesD(4)[OF same, of c] Cons.prems(1) by simp_all
    from Cons.IH[OF f(2)] Cons.prems(2) f(1) obtain k s' where
      i: "put_records os c f rs s1 = (k, s')" "k \<le> length rs" "same_files (set_file c f ((?q @ [r]) @ take k rs) s1) s'" "memory os \<longrightarrow> k = length rs"
      by auto
    have "same_files (set_file c f (?q @ take (Suc k) (r # rs)) s) (set_file c f ((?q @ [r]) @ take k rs) s1)"
      using same_set_file[OF same, of f c "(?q @ [r]) @ take k rs"] Cons.prems(1) by (simp add: set_file_twice)
    then have "same_files (set_file c f (?q @ take (Suc k) (r # rs)) s) s'" using i(3) same_files_trans by blast
    moreover have "put_records os c f (r # rs) s = (Suc k, s')" using True Cons.prems(2) i(1) by (simp add: put_record_def s1_def[symmetric])
    ultimately show ?thesis using i(2,4) by (intro exI[of _ "Suc k"] exI[of _ s']) simp
  qed
qed

lemma unput_records_spec:
  assumes "f < length (s_pool s c)" "file_of c f s = q @ rs" "\<forall>r \<in> set rs. length r \<le> PACKET_CODEC_MAX_BYTES n"
  shows "unput_records n c f (length rs) s = set_file c f q s"
  using assms
proof (induction rs arbitrary: s rule: rev_induct)
  case Nil
  then show ?case by (metis append_Nil2 list.size(3) set_file_self unput_records.simps(1))
next
  case (snoc r rs)
  let ?s = "set_file c f (q @ rs) s"
  have "unput_records n c f (length rs) ?s = set_file c f q ?s" by (rule snoc.IH) (use snoc.prems in simp_all)
  then show ?case using snoc.prems(2,3) by (simp add: scroll_record_def butlast_append set_file_twice)
qed

lemma refill_compact_spec:
  assumes "list_all (encoded n) rs" "rs \<noteq> []" "stock_ok n s" "g < nb_file_possibility s"
  obtains s' where "datamanager_pool_refill_compact n os c (int g) (concat rs) s = (int (length rs), s')" "same_files (set_file c g (file_of c g s @ rs) s) s'"
  | r s' where "datamanager_pool_refill_compact n os c (int g) (concat rs) s = (r, s')" "r \<le> 0" "same_files s s'" "\<not> memory os \<or> (\<exists>k. \<not> os_trylock os k)"
proof -
  have ne: "concat rs \<noteq> []" using assms(1,2) encodedD(3) by (cases rs) auto
  obtain free s1 where t: "trylock os s = (free, s1)" by fastforce
  have same: "same_files s s1" by (rule trylock_same[OF t])
  note gl = stock_ok_index[OF assms(3,4), of c]
  have g1: "g < length (s_pool s1 c)" "file_of c g s1 = file_of c g s" using same_filesD(3,4)[OF same] gl by simp_all
  have fits: "list_all record_fits rs" "\<forall>r \<in> set rs. length r \<le> PACKET_CODEC_MAX_BYTES n" using assms(1) encodedD(4,5) by (auto simp: list_all_iff)
  obtain k s2 where p: "put_records os c g rs s1 = (k, s2)" "k \<le> length rs" "same_files (set_file c g (file_of c g s @ take k rs) s1) s2" "memory os \<longrightarrow> k = length rs"
    using put_records_spec[OF g1(1) fits(1), of os] g1(2) by auto
  note unfold = datamanager_pool_refill_compact_def[of n os c "int g" "concat rs" s] split_encoded[OF assms(1)] t p(1)
  show ?thesis
  proof (cases "free \<and> k = length rs")
    case True
    then have "datamanager_pool_refill_compact n os c (int g) (concat rs) s = (int (length rs), set_sort_state c g FILE_SORT_UNKNOWN s2)"
      using ne assms(4) by (simp add: unfold)
    moreover have "same_files (set_file c g (file_of c g s @ rs) s) (set_file c g (file_of c g s @ rs) s1)" by (rule same_set_file[OF same gl])
    then have "same_files (set_file c g (file_of c g s @ rs) s) (set_sort_state c g FILE_SORT_UNKNOWN s2)"
      using p(3) True sort_state_same same_files_trans by (metis take_all order_refl)
    ultimately show ?thesis using that(1) by blast
  next
    case False
    show ?thesis
    proof (cases free)
      case False
      then have "datamanager_pool_refill_compact n os c (int g) (concat rs) s = (0, s1)" "\<not> os_trylock os (trylocks s)"
        using ne assms(4) t by (auto simp: unfold trylock_def)
      then show ?thesis using that(2) same by blast
    next
      case True
      with False have k: "k < length rs" "\<not> memory os" using p(2,4) by auto
      have f2: "g < length (s_pool s2 c)" "file_of c g s2 = file_of c g s @ take k rs" using same_filesD(3,4)[OF p(3)] g1(1) by simp_all
      have "unput_records n c g k s2 = set_file c g (file_of c g s) s2"
        using unput_records_spec[OF f2, of n] fits(2) p(2) by (auto dest: in_set_takeD)
      then have "datamanager_pool_refill_compact n os c (int g) (concat rs) s = (-1, set_file c g (file_of c g s) s2)"
        using ne assms(4) True k by (auto simp: unfold)
      moreover have "same_files (set_file c g (file_of c g s) s1) (set_file c g (file_of c g s) s2)"
        using same_set_file[OF p(3), of g c "file_of c g s"] g1(1) by (simp add: set_file_twice)
      then have "same_files s (set_file c g (file_of c g s) s2)" using same same_files_trans set_file_self[OF g1(1)] g1(2) by metis
      ultimately show ?thesis using that(2) k(2) by (metis neg_le_0_iff_le zero_le_one)
    qed
  qed
qed


section \<open>Properties of the moves\<close>

lemma free_fair: "fair free_os"
  by (auto simp: fair_def free_os_def)

text \<open>C23. Rebalancing returns when no queue stays locked for ever and memory does not run out; each
  pool holds the same positions as before, and the moves of both together are at most twice the budget.\<close>

theorem rebalance_conserves:
  assumes "fair os" "memory os" "stock_ok n s"
  shows "\<exists>m s'. datamanager_rebalance_step n os max_packets s = Some (m, s') \<and> stock_ok n s'
    \<and> (\<forall>c. content n c s' = content n c s) \<and> 0 \<le> m \<and> m \<le> 2 * max 0 max_packets"
proof -
  obtain m s' where "datamanager_rebalance_step n os max_packets s = Some (m, s')" "kept n s s'" "0 \<le> m" "m \<le> 2 * max 0 max_packets"
    by (rule rebalance_spec[OF assms])
  then show ?thesis unfolding kept_def by blast
qed

theorem rebalance_conserves_witness:
  "\<exists>m s'. datamanager_rebalance_step 4 free_os 3 one_stock = Some (m, s') \<and> content 4 True s' = {#canonical_packet 4 sample_packet#} \<and> m \<le> 6"
  using rebalance_conserves[OF free_fair free_memory one_stock_ok(1), of 3] one_stock_ok(4) by auto

text \<open>C24. When allocations succeed and no queue stays locked, a pool whose number of positions is not a multiple of the number of queues never comes to
  rest: each call moves positions until the budget or the bound on the rounds is reached, even
  when the queues differ by one position only. The comment on \<open>rebalance_pool_step\<close> says that
  a balanced pool is left alone.\<close>

theorem rebalance_never_rests:
  assumes "fair os" "memory os" "stock_ok n s" "\<not> nb_file_possibility s dvd sum_list (loads c s)"
  shows "\<exists>m s'. rebalance_pool_until_budget n os c max_packets s = Some (m, s')
    \<and> min max_packets (2 * int (nb_file_possibility s)) \<le> m \<and> \<not> nb_file_possibility s' dvd sum_list (loads c s')"
proof -
  from rebalance_rounds_spec[OF assms(1-3), of c "nb_file_possibility s * 2" max_packets] assms(4)
  obtain m s' where r: "rebalance_rounds n os c (nb_file_possibility s * 2) max_packets s = Some (m, s')" "kept n s s'"
    "min max_packets (int (nb_file_possibility s * 2)) \<le> m" by blast
  then have "\<not> nb_file_possibility s' dvd sum_list (loads c s')" using assms(4) by (simp add: kept_def)
  then show ?thesis using r by (auto simp: rebalance_pool_until_budget_def mult.commute)
qed

lemma one_stock_loads: "loads True one_stock = [0, 1]"
proof -
  have "loads True sample_stock = [0, 0]" "nb_file_possibility sample_stock = 2" "length (s_pool sample_stock True) = 2"
    by (simp_all add: sample_stock_def datamanager_configure_stock_files_def empty_stock_def NB_FILE_POSSIBILITY_MAX_def loads_def file_of_def new_file_def upt_rec)
  then show ?thesis by (simp add: one_stock_def loads_set_file)
qed

theorem rebalance_never_rests_witness:
  "\<exists>m s'. rebalance_pool_until_budget 4 free_os True 100 one_stock = Some (m, s') \<and> 4 \<le> m"
  using rebalance_never_rests[OF free_fair free_memory one_stock_ok(1), of True 100] one_stock_ok(2) one_stock_loads by auto

text \<open>C22. A block of records drained from the head of a queue and refilled into another: what is
  drained is a prefix of the queue, within the buffer and the bound, byte for byte; the
  refill appends exactly these records, or leaves every queue as it was, which happens only when
  an allocation fails or a queue is locked.\<close>

theorem pool_block_roundtrip:
  assumes "stock_ok n s" "f < nb_file_possibility s" "list_all (encoded n) (file_of c f s)"
    and "datamanager_pool_drain_head_compact os c (int f) cap max_records s = (k, raw, s1)" "0 < k"
    and "stock_ok n s2" "g < nb_file_possibility s2"
    and "datamanager_pool_refill_compact n os' c (int g) raw s2 = (r, s3)"
  shows "\<exists>rs. file_of c f s = rs @ file_of c f s1 \<and> k = int (length rs) \<and> k \<le> max_records \<and> raw = concat rs \<and> length raw \<le> cap
    \<and> (if r = k then file_of c g s3 = file_of c g s2 @ rs else r \<le> 0 \<and> same_files s2 s3 \<and> (\<not> memory os' \<or> (\<exists>j. \<not> os_trylock os' j)))"
proof -
  obtain free t where t: "trylock os s = (free, t)" by fastforce
  have same: "same_files s t" by (rule trylock_same[OF t])
  have ft: "f < length (s_pool t c)" "file_of c f t = file_of c f s" using same_filesD(3,4)[OF same] stock_ok_index[OF assms(1,2)] by simp_all
  obtain rs qs where d: "drain_records c f cap (nat max_records) t = (rs, set_file c f qs t)" "file_of c f s = rs @ qs"
    "length rs \<le> nat max_records" "length (concat rs) \<le> cap"
    using drain_records_spec[OF ft(1), of cap "nat max_records"] ft(2) by auto
  have "free" using assms(2,4,5) t by (auto simp: datamanager_pool_drain_head_compact_def split: if_splits)
  then have e: "k = int (length rs)" "raw = concat rs" "s1 = set_file c f qs t" using assms(2,4) t d(1) by (auto simp: datamanager_pool_drain_head_compact_def)
  have fq: "file_of c f s1 = qs" using e(3) ft(1) by simp
  have enc: "list_all (encoded n) rs" "rs \<noteq> []" using assms(3,5) d(2) e(1) by auto
  have "if r = k then file_of c g s3 = file_of c g s2 @ rs else r \<le> 0 \<and> same_files s2 s3 \<and> (\<not> memory os' \<or> (\<exists>j. \<not> os_trylock os' j))"
  proof (rule refill_compact_spec[OF enc assms(6,7), of os' c])
    fix s' assume r: "datamanager_pool_refill_compact n os' c (int g) (concat rs) s2 = (int (length rs), s')" "same_files (set_file c g (file_of c g s2 @ rs) s2) s'"
    have "file_of c g s' = file_of c g s2 @ rs" using same_filesD(3)[OF r(2), of g c] stock_ok_index[OF assms(6,7)] by simp
    then show ?thesis using r(1) assms(8) e by simp
  next
    fix r' s' assume r: "datamanager_pool_refill_compact n os' c (int g) (concat rs) s2 = (r', s')" "r' \<le> 0" "same_files s2 s'" "\<not> memory os' \<or> (\<exists>j. \<not> os_trylock os' j)"
    then show ?thesis using assms(5,8) e(2) by auto
  qed
  moreover have "k \<le> max_records" using d(3) e(1) assms(5) by linarith
  ultimately show ?thesis using d(2-4) e(1,2) fq by (intro exI[of _ rs]) auto
qed

lemma one_stock_record:
  obtains r where "encoded 4 r" "file_of True 1 one_stock = [r]" "length r \<le> 1000"
proof -
  obtain r where r: "packet_codec_encode 4 sample_packet (PACKET_CODEC_MAX_BYTES 4) = Some r" by (rule encode_good[OF sample_stream])
  have enc: "encoded 4 r" using r sample_stream by (auto simp: encoded_def)
  have "length (s_pool sample_stock True) = 2"
    by (simp add: sample_stock_def datamanager_configure_stock_files_def empty_stock_def NB_FILE_POSSIBILITY_MAX_def)
  then have "file_of True 1 one_stock = [r]" by (simp add: one_stock_def r)
  moreover have "PACKET_CODEC_MAX_BYTES 4 \<le> 1000"
    by (simp add: PACKET_CODEC_MAX_BYTES_def PACKET_CODEC_HEADER_BYTES_def PACKET_CODEC_BITMAP_BYTES_def PACKET_CODEC_VALUE_BYTES_def PACKET_CODEC_VALUE_BITS_def)
  ultimately show ?thesis using that enc encodedD(5)[OF enc] by fastforce
qed

theorem pool_block_roundtrip_witness:
  "\<exists>raw s1 s3. datamanager_pool_drain_head_compact free_os True (int 1) 1000 1 one_stock = (1, raw, s1)
    \<and> datamanager_pool_refill_compact 4 free_os True (int 0) raw one_stock = (1, s3)
    \<and> file_of True 0 s3 = file_of True 0 one_stock @ file_of True 1 one_stock"
proof -
  obtain r where r: "encoded 4 r" "file_of True 1 one_stock = [r]" "length r \<le> 1000" by (rule one_stock_record)
  have nb: "1 < nb_file_possibility one_stock" "0 < nb_file_possibility one_stock" using one_stock_ok(2) by simp_all
  have "file_of True 1 (one_stock\<lparr>trylocks := k\<rparr>) = [r]" for k using r(2) by (simp add: file_of_def)
  then obtain s1 where d: "datamanager_pool_drain_head_compact free_os True (int 1) 1000 1 one_stock = (1, r, s1)" "file_of True 1 s1 = []"
    using r(3) nb(1) stock_ok_index[OF one_stock_ok(1) nb(1), of True]
    by (auto simp: datamanager_pool_drain_head_compact_def trylock_def free_os_def scroll_fifo_record_def)
  obtain a s3 where e: "datamanager_pool_refill_compact 4 free_os True (int 0) r one_stock = (a, s3)" by fastforce
  have enc: "list_all (encoded 4) (file_of True 1 one_stock)" using r(1,2) by simp
  have "\<not> (\<not> memory free_os \<or> (\<exists>j. \<not> os_trylock free_os j))" using free_memory by (simp add: free_os_def)
  then show ?thesis
    using pool_block_roundtrip[OF one_stock_ok(1) nb(1) enc d(1) _ one_stock_ok(1) nb(2) e] d e r(2) by (auto split: if_splits)
qed

end
