(* ===== verification/Stock_Leases.thy ===== *)
theory Stock_Leases
  imports Stock_Analysed Stock_Moves
begin

text \<open>
  Positions that come back from the hands of clients (\<open>datamanager.c\<close>): leases that have expired,
  the removal of the positions that a returned one makes redundant, the return of everything
  on demand, and the acknowledgement of analysed positions to a server. Returning a position locks a queue in turn until one is free, so these operations
  are in the option monad.
\<close>

section \<open>Returning positions to the stock\<close>

definition put_back_to_stock :: "nat \<Rightarrow> os \<Rightarrow> possibility_packet \<Rightarrow> stock \<Rightarrow> stock option" where
  "put_back_to_stock n os pk s =
     map_option (\<lambda>(dest, s1). put_unsorted n os (checked pk \<noteq> 0) pk dest (s1\<lparr>max_result := max (max_result s1) (alloc pk)\<rparr>))
       (lock_rotating os 0 s)"

primrec fold_option :: "('a \<Rightarrow> 'b \<Rightarrow> 'b option) \<Rightarrow> 'a list \<Rightarrow> 'b \<Rightarrow> 'b option" where
  "fold_option g [] a = Some a"
| "fold_option g (x # xs) a = (case g x a of None \<Rightarrow> None | Some b \<Rightarrow> fold_option g xs b)"

definition put_all_back :: "nat \<Rightarrow> os \<Rightarrow> possibility_packet list \<Rightarrow> datamanager \<Rightarrow> datamanager option" where
  "put_all_back n os ps d = map_option (\<lambda>s. d\<lparr>d_stock := s\<rparr>) (fold_option (put_back_to_stock n os) ps (d_stock d))"

section \<open>Descendants\<close>

definition is_descendant_of_any :: "nat \<Rightarrow> possibility_packet list \<Rightarrow> possibility_packet \<Rightarrow> bool" where
  "is_descendant_of_any n origins candidate \<longleftrightarrow> (\<exists>origin \<in> set origins. is_origin_of n (Some origin) (Some candidate) = 1)"

text \<open>The position of a record of a pool.\<close>

definition element_load :: "nat \<Rightarrow> u8 list \<Rightarrow> possibility_packet option" where
  "element_load n r = (if r = [] then None else decode_taken n (Some r))"

definition element_is_descendant_of_any :: "nat \<Rightarrow> possibility_packet list \<Rightarrow> u8 list \<Rightarrow> bool" where
  "element_is_descendant_of_any n origins r \<longleftrightarrow> (case element_load n r of None \<Rightarrow> False | Some p \<Rightarrow> is_descendant_of_any n origins p)"

definition purge_element ::
  "nat \<Rightarrow> possibility_packet list \<Rightarrow> nat \<Rightarrow> addr \<times> possibility_packet \<Rightarrow> nat \<times> datamanager \<Rightarrow> nat \<times> datamanager" where
  "purge_element n origins f e = (\<lambda>(removed, d).
     if is_descendant_of_any n origins (snd e)
     then (let d1 = analysed_index_forget_element n f e d in (Suc removed, set_queue f (remove_element (fst e) (queue_of f d1)) d1))
     else (removed, d))"

definition purge_file :: "nat \<Rightarrow> possibility_packet list \<Rightarrow> nat \<Rightarrow> bool \<Rightarrow> nat \<times> stock \<Rightarrow> nat \<times> stock" where
  "purge_file n origins f c = (\<lambda>(removed, s).
     (let q = file_of c f s; keep = filter (\<lambda>r. \<not> element_is_descendant_of_any n origins r) q
      in (removed + (length q - length keep), set_file c f keep s)))"

definition datamanager_purge_descendants_of :: "nat \<Rightarrow> possibility_packet list \<Rightarrow> datamanager \<Rightarrow> nat \<times> datamanager" where
  "datamanager_purge_descendants_of n origins d =
     (if origins = [] then (0, d)
      else (let (removed, d1) = fold (\<lambda>f (r, d). fold (purge_element n origins f) (queue_of f d) (r, d)) [0..<nb_files d] (0, d);
                (removed', s) = fold (\<lambda>f. fold (purge_file n origins f) [False, True]) [0..<nb_files d] (removed, d_stock d1)
            in (removed', d1\<lparr>d_stock := s\<rparr>)))"

section \<open>Leases\<close>

definition analysed_lease_is_expired :: "int \<Rightarrow> int \<Rightarrow> bool" where
  "analysed_lease_is_expired lease_deadline now \<longleftrightarrow> (if lease_deadline \<le> 0 then False else now \<ge> lease_deadline)"

text \<open>\<open>owner_alive\<close> is the optional test of the caller.\<close>

definition due :: "int \<Rightarrow> (u8 list \<Rightarrow> bool) option \<Rightarrow> AnalysedIndexNode \<Rightarrow> bool" where
  "due now owner_alive node \<longleftrightarrow>
     (case an_owner node of None \<Rightarrow> False
      | Some uid \<Rightarrow> analysed_lease_is_expired (an_lease_deadline node) now
          \<and> (case owner_alive of None \<Rightarrow> True | Some alive \<Rightarrow> \<not> alive uid))"

text \<open>One chain: the nodes that stay, the positions that leave, and the queue.\<close>

fun reclaim_chain ::
  "int \<Rightarrow> (u8 list \<Rightarrow> bool) option \<Rightarrow> AnalysedIndexNode list \<Rightarrow> raw_queue
     \<Rightarrow> (AnalysedIndexNode list \<times> possibility_packet list \<times> raw_queue) option" where
  "reclaim_chain now owner_alive [] q = Some ([], [], q)"
| "reclaim_chain now owner_alive (node # ns) q =
     (if due now owner_alive node
      then (case map_of q (an_element node) of
              None \<Rightarrow> None
            | Some p \<Rightarrow> map_option (\<lambda>(ks, ps, q'). (ks, p # ps, q')) (reclaim_chain now owner_alive ns (remove_element (an_element node) q)))
      else map_option (\<lambda>(ks, ps, q'). (node # ks, ps, q')) (reclaim_chain now owner_alive ns q))"

definition reclaim_bucket ::
  "int \<Rightarrow> (u8 list \<Rightarrow> bool) option \<Rightarrow> nat \<Rightarrow> nat \<Rightarrow> possibility_packet list \<times> datamanager \<Rightarrow> (possibility_packet list \<times> datamanager) option" where
  "reclaim_bucket now owner_alive f b = (\<lambda>(buf, d).
     map_option (\<lambda>(ks, ps, q). (buf @ ps, set_queue f q (set_chain f b ks d))) (reclaim_chain now owner_alive (analysed_index d f b) (queue_of f d)))"

text \<open>\<open>buffers f\<close> and \<open>grows f\<close> say whether the buffer of queue \<open>f\<close> and the list of all returned
  positions can be allocated.\<close>

type_synonym reclaiming = "nat \<times> possibility_packet list \<times> bool \<times> datamanager"

definition reclaim_file ::
  "nat \<Rightarrow> os \<Rightarrow> int \<Rightarrow> (u8 list \<Rightarrow> bool) option \<Rightarrow> (nat \<Rightarrow> bool) \<Rightarrow> (nat \<Rightarrow> bool) \<Rightarrow> nat \<Rightarrow> reclaiming \<Rightarrow> reclaiming option" where
  "reclaim_file n os now owner_alive buffers grows f = (\<lambda>(total, all, accumulation_ok, d).
     (case (if queue_of f d \<noteq> [] \<and> buffers f then fold_option (reclaim_bucket now owner_alive f) [0..<ANALYSED_INDEX_BUCKETS] ([], d) else Some ([], d)) of
        None \<Rightarrow> None
      | Some (buf, d1) \<Rightarrow>
          (case put_all_back n os buf d1 of
             None \<Rightarrow> None
           | Some d2 \<Rightarrow>
               (let grow = buf \<noteq> [] \<and> accumulation_ok in
                Some (total + length buf, if grow \<and> grows f then all @ buf else all,
                      if grow \<and> \<not> grows f then False else accumulation_ok, d2)))))"

definition datamanager_reclaim_expired_leases ::
  "nat \<Rightarrow> os \<Rightarrow> int \<Rightarrow> (u8 list \<Rightarrow> bool) option \<Rightarrow> (nat \<Rightarrow> bool) \<Rightarrow> (nat \<Rightarrow> bool) \<Rightarrow> datamanager \<Rightarrow> (nat \<times> datamanager) option" where
  "datamanager_reclaim_expired_leases n os now owner_alive buffers grows d =
     map_option (\<lambda>(total, all, accumulation_ok, d1).
         (total, if accumulation_ok \<and> all \<noteq> [] then snd (datamanager_purge_descendants_of n all d1) else d1))
       (fold_option (reclaim_file n os now owner_alive buffers grows) [0..<nb_files d] (0, [], True, d))"

section \<open>Returning everything\<close>

text \<open>The positions leave a queue from its end. The buffer is not tested: without memory the
  program writes through a null pointer.\<close>

definition restock_file :: "nat \<Rightarrow> os \<Rightarrow> (nat \<Rightarrow> bool) \<Rightarrow> nat \<Rightarrow> datamanager \<Rightarrow> datamanager option" where
  "restock_file n os buffers f d =
     (if queue_of f d = [] then Some d
      else if \<not> buffers f then None
      else put_all_back n os (rev (map snd (queue_of f d))) (analysed_index_clear f (set_queue f [] d)))"

definition restock_analysed :: "nat \<Rightarrow> os \<Rightarrow> (nat \<Rightarrow> bool) \<Rightarrow> datamanager \<Rightarrow> (int \<times> datamanager) option" where
  "restock_analysed n os buffers d = map_option (\<lambda>d'. (0, d')) (fold_option (restock_file n os buffers) [0..<nb_files d] d)"

section \<open>What a client holds\<close>

definition owned_in :: "u8 list \<Rightarrow> raw_queue \<Rightarrow> AnalysedIndexNode \<Rightarrow> nat \<times> int \<Rightarrow> (nat \<times> int) option" where
  "owned_in uid q node = (\<lambda>(count, max_alloc).
     if an_owner node \<noteq> Some uid then Some (count, max_alloc)
     else (case map_of q (an_element node) of None \<Rightarrow> None | Some p \<Rightarrow> Some (Suc count, max max_alloc (int (alloc p)))))"

definition datamanager_analysed_owned_by :: "u8 list \<Rightarrow> datamanager \<Rightarrow> (nat \<times> int) option" where
  "datamanager_analysed_owned_by uid d =
     fold_option (\<lambda>f. fold_option (\<lambda>b. fold_option (owned_in uid (queue_of f d)) (analysed_index d f b)) [0..<ANALYSED_INDEX_BUCKETS])
       [0..<nb_files d] (0, -1)"

section \<open>Positions go back\<close>

text \<open>The positions of the stock, both pools together.\<close>

definition in_stock :: "nat \<Rightarrow> stock \<Rightarrow> possibility_packet multiset" where
  "in_stock n s = content n False s + content n True s"

definition returned :: "nat \<Rightarrow> stock \<Rightarrow> possibility_packet list \<Rightarrow> stock \<Rightarrow> bool" where
  "returned n s ps s' \<longleftrightarrow> stock_ok n s' \<and> nb_file_possibility s' = nb_file_possibility s \<and> in_stock n s' = in_stock n s + mset ps
     \<and> (\<forall>c. content n c s' = content n c s + mset (filter (\<lambda>p. (checked p \<noteq> 0) = c) ps))"

lemma put_back_spec:
  assumes "stock_ok n s" "stock_packet n p" "memory os" "fair os"
  shows "\<exists>s'. put_back_to_stock n os p s = Some s' \<and> returned n s [p] s'"
proof -
  let ?c = "checked p \<noteq> 0"
  have nb: "0 < nb_file_possibility s" using assms(1) by (simp add: stock_ok_def)
  obtain f k where l: "lock_rotating os 0 s = Some (f, s\<lparr>trylocks := k\<rparr>)" "f < nb_file_possibility s"
    using lock_rotating_returns[OF assms(4) nb] .
  let ?s = "s\<lparr>trylocks := k, max_result := max (max_result s) (alloc p)\<rparr>"
  have same: "same_files s ?s" by (simp add: same_files_def)
  have ok: "stock_ok n ?s" "f < nb_file_possibility ?s" using same_filesD(2)[OF same] assms(1) l(2) by simp_all
  have p: "stream_packet n p" "canonical_packet n p = p" using assms(2) by (simp_all add: stock_packet_def)
  have "stores n ?c s [p] (put_unsorted n os ?c p f ?s)" by (rule same_stores[OF same put_unsorted_stores(1)[OF ok p(1) assms(3)] assms(1)])
  then have "returned n s [p] (put_unsorted n os ?c p f ?s)"
    using p(2) by (cases ?c) (auto simp: stores_def adds_def returned_def in_stock_def only_def)
  then show ?thesis using l(1) by (simp add: put_back_to_stock_def)
qed

lemma put_all_back_spec:
  assumes "memory os" "fair os"
  shows "stock_ok n (d_stock d) \<Longrightarrow> list_all (stock_packet n) ps \<Longrightarrow>
    \<exists>s. put_all_back n os ps d = Some (d\<lparr>d_stock := s\<rparr>) \<and> returned n (d_stock d) ps s"
proof -
  have "stock_ok n s \<Longrightarrow> list_all (stock_packet n) ps \<Longrightarrow> \<exists>s'. fold_option (put_back_to_stock n os) ps s = Some s' \<and> returned n s ps s'" for s
  proof (induction ps arbitrary: s)
    case Nil
    then show ?case by (simp add: returned_def)
  next
    case (Cons p ps)
    obtain s1 where s1: "put_back_to_stock n os p s = Some s1" "returned n s [p] s1" using put_back_spec[OF Cons.prems(1) _ assms] Cons.prems(2) by auto
    then obtain s' where "fold_option (put_back_to_stock n os) ps s1 = Some s'" "returned n s1 ps s'"
      using Cons.IH[of s1] Cons.prems by (auto simp: returned_def)
    then show ?case using s1 by (auto simp: returned_def)
  qed
  then show "stock_ok n (d_stock d) \<Longrightarrow> list_all (stock_packet n) ps \<Longrightarrow>
      \<exists>s. put_all_back n os ps d = Some (d\<lparr>d_stock := s\<rparr>) \<and> returned n (d_stock d) ps s"
    unfolding put_all_back_def by (metis option.simps(9))
qed


section \<open>Releasing elements\<close>

text \<open>\<open>releases n d ps d'\<close>: the positions \<open>ps\<close> have left the hands of clients, with their nodes.\<close>

definition fewer_nodes :: "datamanager \<Rightarrow> datamanager \<Rightarrow> bool" where
  "fewer_nodes d d' \<longleftrightarrow> (\<forall>f b. set (analysed_index d' f b) \<subseteq> set (analysed_index d f b))"

definition releases :: "nat \<Rightarrow> datamanager \<Rightarrow> possibility_packet list \<Rightarrow> datamanager \<Rightarrow> bool" where
  "releases n d ps d' \<longleftrightarrow> register_ok n d' \<and> d_stock d' = d_stock d \<and> in_hands d = in_hands d' + mset ps \<and> fewer_nodes d d'"

lemma releases_refl: "register_ok n d \<Longrightarrow> releases n d [] d"
  by (simp add: releases_def fewer_nodes_def)

lemma fewer_trans: "fewer_nodes d d' \<Longrightarrow> fewer_nodes d' d'' \<Longrightarrow> fewer_nodes d d''"
  unfolding fewer_nodes_def by blast

lemma releases_trans: "releases n d ps d' \<Longrightarrow> releases n d' qs d'' \<Longrightarrow> releases n d (ps @ qs) d''"
  using fewer_trans[of d d' d''] by (simp add: releases_def ac_simps)

lemma without_subset: "set (without a ns) \<subseteq> set ns"
  by (auto simp: without_def)

lemma drop_element_index:
  "analysed_index (drop_element n f e d) f' b' =
     (if f' = f \<and> b' = hash_bucket (hash_possibility_key n (snd e)) then without (fst e) (analysed_index d f b') else analysed_index d f' b')"
  by (auto simp: drop_element_def Let_def set_chain_def)

lemma drop_element_queue:
  "f < length (file_possibility_analysed d) \<Longrightarrow> queue_of f (drop_element n f e d) = remove_element (fst e) (queue_of f d)"
  "f' \<noteq> f \<Longrightarrow> queue_of f' (drop_element n f e d) = queue_of f' d"
  by (simp_all add: drop_element_def Let_def)

lemma drop_element_releases:
  assumes "register_ok n d" "f < nb_files d" "e \<in> set (queue_of f d)"
  shows "releases n d [snd e] (drop_element n f e d)"
  using drop_element_spec[OF assms] without_subset by (auto simp: releases_def fewer_nodes_def drop_element_index)

lemma chain_forget_without: "distinct (map an_element ns) \<Longrightarrow> chain_forget a ns = without a ns"
proof (induction ns)
  case (Cons node ns)
  then show ?case using without_absent[of a ns] by (cases "an_element node = a") (auto simp: without_def)
qed (simp add: without_def)

lemma register_ok_queue:
  assumes "register_ok n d" "f < nb_files d"
  shows "f < length (file_possibility_analysed d)" "distinct (map fst (queue_of f d))" "chains_ok n (queue_of f d) (analysed_index d f)"
    "distinct (map an_element (analysed_index d f b))"
  using assms by (auto simp: register_ok_def queue_ok_def chains_ok_def)

lemma purge_element_drop:
  assumes "register_ok n d" "f < nb_files d" "is_descendant_of_any n origins (snd e)"
  shows "purge_element n origins f e (k, d) = (Suc k, drop_element n f e d)"
  using assms register_ok_queue(4)[OF assms(1,2)]
  by (simp add: purge_element_def drop_element_def analysed_index_forget_element_def Let_def chain_forget_without)

definition descendants :: "nat \<Rightarrow> possibility_packet list \<Rightarrow> possibility_packet list \<Rightarrow> bool" where
  "descendants n origins ps \<longleftrightarrow> (\<forall>p \<in> set ps. is_descendant_of_any n origins p)"

lemma purge_queue_spec:
  assumes "f < nb_files d" "distinct (map fst es)"
  shows "register_ok n d \<Longrightarrow> set es \<subseteq> set (queue_of f d) \<Longrightarrow>
    \<exists>k' d' ps. fold (purge_element n origins f) es (k, d) = (k', d') \<and> releases n d ps d' \<and> descendants n origins ps"
  using assms
proof (induction es arbitrary: k d)
  case Nil
  then show ?case using releases_refl by (fastforce simp: descendants_def)
next
  case (Cons e es)
  show ?case
  proof (cases "is_descendant_of_any n origins (snd e)")
    case False
    then show ?thesis using Cons by (simp add: purge_element_def)
  next
    case True
    let ?d = "drop_element n f e d"
    have rel: "releases n d [snd e] ?d" by (rule drop_element_releases) (use Cons.prems in auto)
    have "fst e \<notin> fst ` set es" using Cons.prems(4) by simp
    then have "set es \<subseteq> set (queue_of f ?d)"
      using Cons.prems(2) drop_element_queue(1)[of f d n e] register_ok_queue(1)[OF Cons.prems(1,3)] by (auto simp: remove_element_set rev_image_eqI)
    then obtain k' d' ps where "fold (purge_element n origins f) es (Suc k, ?d) = (k', d')" "releases n ?d ps d'" "descendants n origins ps"
      using Cons.IH[of ?d "Suc k"] rel Cons.prems by (auto simp: releases_def)
    then show ?thesis using purge_element_drop[OF Cons.prems(1,3) True] releases_trans[OF rel] True
      by (auto simp: descendants_def intro!: exI[of _ "snd e # ps"])
  qed
qed

lemma purge_queues_spec:
  assumes "list_all (\<lambda>f. f < nb_files d) fs" "register_ok n d"
  shows "\<exists>k' d' ps. fold (\<lambda>f (r, d). fold (purge_element n origins f) (queue_of f d) (r, d)) fs (k, d) = (k', d')
    \<and> releases n d ps d' \<and> descendants n origins ps"
  using assms
proof (induction fs arbitrary: k d)
  case Nil
  then show ?case using releases_refl by (fastforce simp: descendants_def)
next
  case (Cons f fs)
  have f: "f < nb_files d" using Cons.prems by simp
  obtain k1 d1 ps1 where 1: "fold (purge_element n origins f) (queue_of f d) (k, d) = (k1, d1)" "releases n d ps1 d1" "descendants n origins ps1"
    using purge_queue_spec[OF f register_ok_queue(2)[OF Cons.prems(2) f] Cons.prems(2)] by blast
  then obtain k' d' ps where "fold (\<lambda>f (r, d). fold (purge_element n origins f) (queue_of f d) (r, d)) fs (k1, d1) = (k', d')"
      "releases n d1 ps d'" "descendants n origins ps"
    using Cons.IH[of d1 k1] Cons.prems by (auto simp: releases_def)
  then show ?case using 1 releases_trans[OF 1(2)] by (auto simp: descendants_def intro!: exI[of _ "ps1 @ ps"])
qed


text \<open>The pools.\<close>

definition purged :: "nat \<Rightarrow> possibility_packet list \<Rightarrow> stock \<Rightarrow> stock \<Rightarrow> bool" where
  "purged n origins s s' \<longleftrightarrow> stock_ok n s' \<and> nb_file_possibility s' = nb_file_possibility s
     \<and> (\<exists>ps. in_stock n s = in_stock n s' + mset ps \<and> descendants n origins ps)"

lemma purged_trans: "purged n origins s s' \<Longrightarrow> purged n origins s' s'' \<Longrightarrow> purged n origins s s''"
proof -
  assume a: "purged n origins s s'" "purged n origins s' s''"
  then obtain ps qs where "in_stock n s = in_stock n s' + mset ps" "in_stock n s' = in_stock n s'' + mset qs" "descendants n origins ps" "descendants n origins qs"
    by (auto simp: purged_def)
  then have "in_stock n s = in_stock n s'' + mset (qs @ ps)" "descendants n origins (qs @ ps)" by (auto simp: descendants_def)
  then have "\<exists>ps. in_stock n s = in_stock n s'' + mset ps \<and> descendants n origins ps" by blast
  then show ?thesis using a by (simp add: purged_def)
qed

lemma element_load_good: "good_record n r \<Longrightarrow> r \<noteq> [] \<Longrightarrow> element_is_descendant_of_any n origins r = is_descendant_of_any n origins (stored n r)"
  using good_stored[of n r] by (simp add: element_is_descendant_of_any_def element_load_def)

lemma purge_file_spec:
  assumes "stock_ok n s" "f < nb_file_possibility s"
  shows "purged n origins s (snd (purge_file n origins f c (k, s)))"
proof -
  define q where "q = file_of c f s"
  define gone where "gone = filter (element_is_descendant_of_any n origins) q"
  define keep where "keep = filter (\<lambda>r. \<not> element_is_descendant_of_any n origins r) q"
  have e: "snd (purge_file n origins f c (k, s)) = set_file c f keep s" by (simp add: purge_file_def Let_def keep_def q_def)
  have good: "good_record n r" if "r \<in> set q" for r using stock_ok_record[OF assms, of r c] that by (simp add: q_def)
  have "mset q = mset keep + mset gone" by (simp add: keep_def gone_def q_def add.commute)
  then have "content n c s = content n c (set_file c f keep s) + mset (map (stored n) gone)"
    using content_set_file[OF stock_ok_index[OF assms, of c], of n keep] by (simp add: q_def[symmetric])
  then have "in_stock n s = in_stock n (set_file c f keep s) + mset (map (stored n) gone)" by (cases c) (simp_all add: in_stock_def ac_simps)
  moreover have "descendants n origins (map (stored n) gone)"
    using good element_load_good by (auto simp: descendants_def gone_def element_is_descendant_of_any_def element_load_def split: if_splits dest!: good good_stored)
  moreover have "stock_ok n (set_file c f keep s)" by (rule stock_ok_set_file[OF assms]) (use good in \<open>simp add: keep_def\<close>)
  ultimately show ?thesis unfolding e purged_def nb_set_file by blast
qed

lemma purge_files_spec:
  assumes "stock_ok n s" "list_all (\<lambda>f. f < nb_file_possibility s) fs"
  shows "purged n origins s (snd (fold (\<lambda>f. fold (purge_file n origins f) [False, True]) fs (k, s)))"
  using assms
proof (induction fs arbitrary: k s)
  case Nil
  then show ?case by (auto simp: purged_def descendants_def)
next
  case (Cons f fs)
  obtain k1 s1 where 1: "purge_file n origins f False (k, s) = (k1, s1)" by fastforce
  have p1: "purged n origins s s1" using purge_file_spec[of n s f origins False k] Cons.prems 1 by simp
  then have ok1: "stock_ok n s1" "nb_file_possibility s1 = nb_file_possibility s" by (simp_all add: purged_def)
  obtain k2 s2 where 2: "purge_file n origins f True (k1, s1) = (k2, s2)" by fastforce
  have p2: "purged n origins s1 s2" using purge_file_spec[of n s1 f origins True k1] Cons.prems ok1 2 by simp
  have ok2: "stock_ok n s2" "nb_file_possibility s2 = nb_file_possibility s" using p2 ok1 by (simp_all add: purged_def)
  have "purged n origins s2 (snd (fold (\<lambda>f. fold (purge_file n origins f) [False, True]) fs (k2, s2)))"
    by (rule Cons.IH) (use ok2 Cons.prems(2) in simp_all)
  from purged_trans[OF p1 purged_trans[OF p2 this]]
  have "purged n origins s (snd (fold (\<lambda>f. fold (purge_file n origins f) [False, True]) fs (fold (purge_file n origins f) [False, True] (k, s))))"
    unfolding fold_simps 1 2 .
  then show ?case by (subst fold_simps(2))
qed

text \<open>Everything the manager holds.\<close>

definition holds_all :: "nat \<Rightarrow> datamanager \<Rightarrow> possibility_packet multiset" where
  "holds_all n d = in_hands d + in_stock n (d_stock d)"

definition manager_ok :: "nat \<Rightarrow> datamanager \<Rightarrow> bool" where
  "manager_ok n d \<longleftrightarrow> register_ok n d \<and> stock_ok n (d_stock d) \<and> (\<forall>p \<in># in_hands d. stock_packet n p)"

lemma purge_spec:
  assumes "manager_ok n d"
  shows "\<exists>k d' ps. datamanager_purge_descendants_of n origins d = (k, d') \<and> manager_ok n d' \<and> nb_files d' = nb_files d \<and> fewer_nodes d d'
    \<and> holds_all n d = holds_all n d' + mset ps \<and> descendants n origins ps"
proof (cases "origins = []")
  case True
  then show ?thesis using assms by (auto simp: datamanager_purge_descendants_of_def fewer_nodes_def descendants_def)
next
  case False
  have ok: "register_ok n d" "stock_ok n (d_stock d)" using assms by (simp_all add: manager_ok_def)
  have fs: "list_all (\<lambda>f. f < nb_files d) [0..<nb_files d]" by (simp add: list_all_iff)
  obtain k d1 ps where 1: "fold (\<lambda>f (r, d). fold (purge_element n origins f) (queue_of f d) (r, d)) [0..<nb_files d] (0, d) = (k, d1)"
    "releases n d ps d1" "descendants n origins ps" using purge_queues_spec[OF fs ok(1)] by blast
  have d1: "d_stock d1 = d_stock d" "register_ok n d1" "in_hands d = in_hands d1 + mset ps" "fewer_nodes d d1" using 1(2) by (simp_all add: releases_def)
  obtain k2 s where 2: "fold (\<lambda>f. fold (purge_file n origins f) [False, True]) [0..<nb_files d] (k, d_stock d1) = (k2, s)" by fastforce
  have "purged n origins (d_stock d1) s" using purge_files_spec[of n "d_stock d1" "[0..<nb_files d]" origins k] ok(2) d1(1) fs 2 by simp
  then obtain qs where s: "stock_ok n s" "nb_file_possibility s = nb_files d" "in_stock n (d_stock d) = in_stock n s + mset qs" "descendants n origins qs"
    using d1(1) by (auto simp: purged_def)
  have "datamanager_purge_descendants_of n origins d = (k2, d1\<lparr>d_stock := s\<rparr>)" using False 1(1) 2 by (simp add: datamanager_purge_descendants_of_def)
  moreover have "manager_ok n (d1\<lparr>d_stock := s\<rparr>)" using assms d1 s by (simp add: manager_ok_def)
  moreover have "nb_files (d1\<lparr>d_stock := s\<rparr>) = nb_files d" using s(2) by simp
  moreover have "fewer_nodes d (d1\<lparr>d_stock := s\<rparr>)" using d1(4) by (simp add: fewer_nodes_def)
  moreover have "holds_all n d = holds_all n (d1\<lparr>d_stock := s\<rparr>) + mset (ps @ qs)" using d1 s by (simp add: holds_all_def)
  moreover have "descendants n origins (ps @ qs)" using 1(3) s(4) by (auto simp: descendants_def)
  ultimately show ?thesis by blast
qed


section \<open>No solution is lost\<close>

text \<open>The solutions below the positions of a collection.\<close>

definition work :: "nat \<Rightarrow> part list \<Rightarrow> possibility_packet multiset \<Rightarrow> int list set" where
  "work n R A = (\<Union>p \<in> set_mset A. completions n R (grid p))"

text \<open>Removing descendants of origins that are still there, or are themselves descendants of such
  origins, loses nothing: an origin has fewer pieces than its descendants.\<close>

lemma work_descendants:
  assumes "A = B + mset ps" "descendants n origins ps" "set origins \<subseteq> set_mset A"
  shows "work n R B = work n R A"
proof
  show "work n R B \<subseteq> work n R A" using assms(1) by (auto simp: work_def)
  have "completions n R (grid p) \<subseteq> work n R B" if "p \<in># A" for p
    using that
  proof (induction "alloc p" arbitrary: p rule: less_induct)
    case less
    show ?case
    proof (cases "p \<in># B")
      case True
      then show ?thesis by (auto simp: work_def)
    next
      case False
      then have "p \<in> set ps" using less.prems assms(1) by auto
      then obtain origin where o: "origin \<in> set origins" "is_origin_of n (Some origin) (Some p) = 1"
        using assms(2) by (auto simp: descendants_def is_descendant_of_any_def)
      then have "completions n R (grid origin) \<subseteq> work n R B" using assms(3) by (intro less.hyps) (auto simp: is_origin_iff)
      then show ?thesis using is_origin_of_completions[OF o(2)] by blast
    qed
  qed
  then show "work n R A \<subseteq> work n R B" by (auto simp: work_def)
qed

section \<open>Expired leases\<close>

lemma set_queue_chain_twice:
  "set_queue f q (set_chain f b ks (drop_element n f e d)) = set_queue f q (set_chain f b ks d)"
  if "b = hash_bucket (hash_possibility_key n (snd e))"
  using that by (simp add: drop_element_def Let_def set_queue_def set_chain_def)

lemma set_queue_chain_self: "set_queue f (queue_of f d) (set_chain f b (analysed_index d f b) d) = d"
  by (simp add: set_queue_def set_chain_def)

lemma reclaim_chain_spec:
  assumes "f < nb_files d"
  shows "register_ok n d \<Longrightarrow> analysed_index d f b = ks @ ns \<Longrightarrow> \<forall>node \<in> set ks. \<not> due now alive node \<Longrightarrow>
    \<exists>ks' ps q. reclaim_chain now alive ns (queue_of f d) = Some (ks', ps, q) \<and> releases n d ps (set_queue f q (set_chain f b (ks @ ks') d))
      \<and> (\<forall>node \<in> set (ks @ ks'). \<not> due now alive node)"
  using assms
proof (induction ns arbitrary: ks d)
  case Nil
  then show ?case using releases_refl[of n d] set_queue_chain_self[of f d b] by simp
next
  case (Cons node ns)
  note rq = register_ok_queue[OF Cons.prems(1,4)]
  obtain p where p: "(an_element node, p) \<in> set (queue_of f d)" "hash_bucket (hash_possibility_key n p) = b"
    using rq(3) Cons.prems(2) by (fastforce simp: chains_ok_def)
  show ?case
  proof (cases "due now alive node")
    case False
    from Cons.IH[OF Cons.prems(1), of "ks @ [node]"] Cons.prems False obtain ks' ps q where
      "reclaim_chain now alive ns (queue_of f d) = Some (ks', ps, q)" "releases n d ps (set_queue f q (set_chain f b (ks @ node # ks') d))"
      "\<forall>node \<in> set (ks @ node # ks'). \<not> due now alive node" by auto
    then show ?thesis using False by (intro exI[of _ "node # ks'"] exI[of _ ps] exI[of _ q]) simp
  next
    case True
    define e where "e = (an_element node, p)"
    let ?d = "drop_element n f e d"
    have rel: "releases n d [p] ?d" using drop_element_releases[OF Cons.prems(1,4), of e] p(1) by (simp add: e_def)
    have d': "register_ok n ?d" "f < nb_files ?d" using rel Cons.prems(4) by (simp_all add: releases_def)
    have q': "queue_of f ?d = remove_element (an_element node) (queue_of f d)" using drop_element_queue(1)[OF rq(1)] by (simp add: e_def)
    have "distinct (map an_element (ks @ node # ns))" using rq(4)[of b] Cons.prems(2) by simp
    then have "without (an_element node) (ks @ node # ns) = ks @ ns" using without_absent[of "an_element node"] by (auto simp: without_def filter_id_conv)
    then have c': "analysed_index ?d f b = ks @ ns" using Cons.prems(2) p(2) by (simp add: drop_element_index e_def)
    from Cons.IH[OF d'(1) c' Cons.prems(3) d'(2)] obtain ks' ps q where
      i: "reclaim_chain now alive ns (queue_of f ?d) = Some (ks', ps, q)" "releases n ?d ps (set_queue f q (set_chain f b (ks @ ks') ?d))"
      "\<forall>node \<in> set (ks @ ks'). \<not> due now alive node" by blast
    have "map_of (queue_of f d) (an_element node) = Some p" using rq(2) p(1) by simp
    then have "reclaim_chain now alive (node # ns) (queue_of f d) = Some (ks', p # ps, q)" using True i(1) q' by simp
    moreover have "releases n d (p # ps) (set_queue f q (set_chain f b (ks @ ks') d))"
      using releases_trans[OF rel i(2)] set_queue_chain_twice[of b n e f q "ks @ ks'" d] p(2) by (simp add: e_def)
    ultimately show ?thesis using i(3) by blast
  qed
qed

lemma reclaim_buckets_spec:
  assumes "f < nb_files d"
  shows "register_ok n d \<Longrightarrow> \<exists>ps d'. fold_option (reclaim_bucket now alive f) bs (buf, d) = Some (buf @ ps, d') \<and> releases n d ps d'
    \<and> (\<forall>b \<in> set bs. \<forall>node \<in> set (analysed_index d' f b). \<not> due now alive node)"
  using assms
proof (induction bs arbitrary: buf d)
  case Nil
  then show ?case using releases_refl by (intro exI[of _ "[]"]) auto
next
  case (Cons b bs)
  from reclaim_chain_spec[OF Cons.prems(2,1), of b "[]" "analysed_index d f b" now alive] obtain ks ps q where
    c: "reclaim_chain now alive (analysed_index d f b) (queue_of f d) = Some (ks, ps, q)" "releases n d ps (set_queue f q (set_chain f b ks d))"
    "\<forall>node \<in> set ks. \<not> due now alive node" by auto
  let ?d = "set_queue f q (set_chain f b ks d)"
  have d': "register_ok n ?d" "f < nb_files ?d" using c(2) Cons.prems(2) by (simp_all add: releases_def)
  from Cons.IH[OF d', of "buf @ ps"] obtain qs d' where
    i: "fold_option (reclaim_bucket now alive f) bs (buf @ ps, ?d) = Some ((buf @ ps) @ qs, d')" "releases n ?d qs d'"
    "\<forall>b \<in> set bs. \<forall>node \<in> set (analysed_index d' f b). \<not> due now alive node" by blast
  have "\<not> due now alive node" if "node \<in> set (analysed_index d' f b)" for node
  proof -
    have "set (analysed_index d' f b) \<subseteq> set ks" using i(2) by (auto simp: releases_def fewer_nodes_def) (metis fun_upd_same queue_fields(3,8) subsetD)
    then show ?thesis using c(3) that by blast
  qed
  moreover have "reclaim_bucket now alive f b (buf, d) = Some (buf @ ps, ?d)" using c(1) by (simp add: reclaim_bucket_def)
  ultimately show ?case using i releases_trans[OF c(2) i(2)] by (intro exI[of _ "ps @ qs"] exI[of _ d']) auto
qed


text \<open>While the queues are processed: the positions held stay the same, and those collected so far are
  in the stock.\<close>

definition reclaimed :: "nat \<Rightarrow> datamanager \<Rightarrow> reclaiming \<Rightarrow> bool" where
  "reclaimed n d0 = (\<lambda>(total, all, ok, d). manager_ok n d \<and> nb_files d = nb_files d0 \<and> holds_all n d = holds_all n d0
     \<and> set all \<subseteq> set_mset (holds_all n d) \<and> fewer_nodes d0 d)"

lemma reclaim_file_spec:
  assumes "memory os" "fair os" "reclaimed n d0 (tot, all, ok, d)" "f < nb_files d0"
  shows "\<exists>tot' all' ok' d'. reclaim_file n os now alive buffers grows f (tot, all, ok, d) = Some (tot', all', ok', d')
    \<and> reclaimed n d0 (tot', all', ok', d') \<and> fewer_nodes d d'
    \<and> (buffers f \<longrightarrow> (\<forall>b. \<forall>node \<in> set (analysed_index d' f b). \<not> due now alive node))"
proof -
  have m: "manager_ok n d" "nb_files d = nb_files d0" "holds_all n d = holds_all n d0" "set all \<subseteq> set_mset (holds_all n d)" "fewer_nodes d0 d"
    using assms(3) unfolding reclaimed_def by auto
  have r: "register_ok n d" "stock_ok n (d_stock d)" "\<forall>p \<in># in_hands d. stock_packet n p" using m(1) by (simp_all add: manager_ok_def)
  have f: "f < nb_files d" using assms(4) m(2) by simp
  obtain buf d1 where b: "(if queue_of f d \<noteq> [] \<and> buffers f then fold_option (reclaim_bucket now alive f) [0..<ANALYSED_INDEX_BUCKETS] ([], d) else Some ([], d)) = Some (buf, d1)"
    "releases n d buf d1" "buffers f \<longrightarrow> queue_of f d \<noteq> [] \<longrightarrow> (\<forall>b \<in> set [0..<ANALYSED_INDEX_BUCKETS]. \<forall>node \<in> set (analysed_index d1 f b). \<not> due now alive node)"
    using reclaim_buckets_spec[OF f r(1), of now alive "[0..<ANALYSED_INDEX_BUCKETS]" "[]"] releases_refl[OF r(1)] by (cases "queue_of f d \<noteq> [] \<and> buffers f") auto
  have d1: "register_ok n d1" "d_stock d1 = d_stock d" "in_hands d = in_hands d1 + mset buf" "fewer_nodes d d1" using b(2) by (simp_all add: releases_def)
  have "list_all (stock_packet n) buf" using r(3) d1(3) by (auto simp: list_all_iff)
  then obtain s where s: "put_all_back n os buf d1 = Some (d1\<lparr>d_stock := s\<rparr>)" "returned n (d_stock d) buf s"
    using put_all_back_spec[OF assms(1,2), of n d1 buf] r(2) d1(2) by auto
  define d2 where "d2 = d1\<lparr>d_stock := s\<rparr>"
  have st: "stock_ok n s" "nb_file_possibility s = nb_files d" "in_stock n s = in_stock n (d_stock d) + mset buf" using s(2) by (simp_all add: returned_def)
  have "manager_ok n d2" using d1 st r(3) by (auto simp: manager_ok_def d2_def)
  moreover have h: "holds_all n d2 = holds_all n d" using d1 st by (simp add: holds_all_def d2_def)
  moreover have "set buf \<subseteq> set_mset (holds_all n d2)" using d1(2) st(2,3) by (auto simp: holds_all_def d2_def)
  moreover have "fewer_nodes d d2" using d1(4) by (simp add: fewer_nodes_def d2_def)
  moreover have "\<not> due now alive node" if "buffers f" "node \<in> set (analysed_index d2 f b')" for b' node
  proof -
    have n1: "node \<in> set (analysed_index d1 f b')" using that(2) by (simp add: d2_def)
    have "f < nb_files d1" using f d1(2) by simp
    then obtain p where p: "(an_element node, p) \<in> set (queue_of f d1)" "hash_bucket (an_hash node) = b'"
      using register_ok_queue(3)[OF d1(1), of f] n1 by (auto simp: chains_ok_def)
    have "b' < ANALYSED_INDEX_BUCKETS" using p(2) by (auto simp: hash_bucket_def ANALYSED_INDEX_BUCKETS_def)
    moreover have "queue_of f d \<noteq> []"
    proof
      assume "queue_of f d = []"
      then have "d1 = d" using b(1) by simp
      then show False using p(1) \<open>queue_of f d = []\<close> by simp
    qed
    ultimately show ?thesis using b(3) that(1) n1 by auto
  qed
  ultimately show ?thesis using b(1) s(1) m fewer_trans[OF m(5), of d2] st(2)
    by (auto simp: reclaim_file_def reclaimed_def Let_def d2_def[symmetric]) (simp_all add: d2_def)
qed


lemma fold_option_inv:
  assumes "\<And>x a. x \<in> set xs \<Longrightarrow> I a \<Longrightarrow> \<exists>b. g x a = Some b \<and> I b \<and> rel a b \<and> fin x b"
    and "\<And>a b c. rel a b \<Longrightarrow> rel b c \<Longrightarrow> rel a c" "\<And>x a b. fin x a \<Longrightarrow> rel a b \<Longrightarrow> fin x b" "\<And>a. rel a a"
  shows "I a \<Longrightarrow> \<exists>b. fold_option g xs a = Some b \<and> I b \<and> rel a b \<and> (\<forall>x \<in> set xs. fin x b)"
  using assms(1)
proof (induction xs arbitrary: a)
  case Nil
  then show ?case using assms(4) by simp
next
  case (Cons x xs)
  obtain b where b: "g x a = Some b" "I b" "rel a b" "fin x b" using Cons.prems(2)[of x a] Cons.prems(1) by auto
  obtain c where c: "fold_option g xs b = Some c" "I c" "rel b c" "\<forall>x \<in> set xs. fin x c" using Cons.IH[OF b(2)] Cons.prems(2) by auto
  then show ?case using b assms(2)[OF b(3) c(3)] assms(3)[OF b(4) c(3)] by simp
qed

lemma fewer_due:
  assumes "fewer_nodes d d'" "\<forall>node \<in> set (analysed_index d f b). \<not> due now alive node"
  shows "\<forall>node \<in> set (analysed_index d' f b). \<not> due now alive node"
  using assms by (auto simp: fewer_nodes_def)

lemma reclaim_all_spec:
  assumes "memory os" "fair os" "manager_ok n d"
  obtains tot all ok d1 where "fold_option (reclaim_file n os now alive buffers grows) [0..<nb_files d] (0, [], True, d) = Some (tot, all, ok, d1)"
    "reclaimed n d (tot, all, ok, d1)" "\<forall>f < nb_files d. buffers f \<longrightarrow> (\<forall>b. \<forall>node \<in> set (analysed_index d1 f b). \<not> due now alive node)"
proof -
  define rel where "rel = (\<lambda>(a :: reclaiming) (b :: reclaiming). fewer_nodes (snd (snd (snd a))) (snd (snd (snd b))))"
  define fin where "fin = (\<lambda>f (a :: reclaiming). buffers f \<longrightarrow> (\<forall>b. \<forall>node \<in> set (analysed_index (snd (snd (snd a))) f b). \<not> due now alive node))"
  have "\<exists>b. fold_option (reclaim_file n os now alive buffers grows) [0..<nb_files d] (0, [], True, d) = Some b \<and> reclaimed n d b
    \<and> rel (0, [], True, d) b \<and> (\<forall>f \<in> set [0..<nb_files d]. fin f b)"
  proof (rule fold_option_inv)
    fix f :: nat and a assume f: "f \<in> set [0..<nb_files d]" and a: "reclaimed n d a"
    obtain tot all ok d' where e: "a = (tot, all, ok, d')" by (metis prod.exhaust)
    show "\<exists>b. reclaim_file n os now alive buffers grows f a = Some b \<and> reclaimed n d b \<and> rel a b \<and> fin f b"
      using reclaim_file_spec[OF assms(1,2) a[unfolded e], of f now alive buffers grows] f by (auto simp: e rel_def fin_def)
  next
    show "reclaimed n d (0, [], True, d)" using assms(3) by (simp add: reclaimed_def fewer_nodes_def)
  next
    show "fin f b" if "fin f a" "rel a b" for f a b using that fewer_due unfolding fin_def rel_def by blast
  qed (auto simp: rel_def fewer_nodes_def, blast)
  then show ?thesis using that by (force simp: fin_def)
qed

text \<open>C17. Reclaiming the expired leases returns when memory does not run out and no queue stays locked
  for ever. Every solution below a position held before, in the stock or by a client, is still
  below a position held afterwards, although the descendants of the returned positions are
  removed everywhere; nothing is added; and no lease that has expired without a live owner is
  left in the queues for which there was a buffer.\<close>

theorem reclaim_conserves_work:
  assumes "manager_ok n d" "memory os" "fair os"
  shows "\<exists>k d'. datamanager_reclaim_expired_leases n os now owner_alive buffers grows d = Some (k, d') \<and> manager_ok n d'
    \<and> holds_all n d' \<subseteq># holds_all n d \<and> work n R (holds_all n d') = work n R (holds_all n d)
    \<and> (\<forall>f < nb_files d. buffers f \<longrightarrow> (\<forall>b. \<forall>node \<in> set (analysed_index d' f b). \<not> due now owner_alive node))"
proof -
  obtain tot all ok d1 where r: "fold_option (reclaim_file n os now owner_alive buffers grows) [0..<nb_files d] (0, [], True, d) = Some (tot, all, ok, d1)"
    "reclaimed n d (tot, all, ok, d1)" "\<forall>f < nb_files d. buffers f \<longrightarrow> (\<forall>b. \<forall>node \<in> set (analysed_index d1 f b). \<not> due now owner_alive node)"
    by (rule reclaim_all_spec[OF assms(2,3,1)])
  have m: "manager_ok n d1" "holds_all n d1 = holds_all n d" "set all \<subseteq> set_mset (holds_all n d1)" using r(2) unfolding reclaimed_def by auto
  show ?thesis
  proof (cases "ok \<and> all \<noteq> []")
    case False
    then show ?thesis using r m by (auto simp: datamanager_reclaim_expired_leases_def)
  next
    case True
    obtain k d2 ps where p: "datamanager_purge_descendants_of n all d1 = (k, d2)" "manager_ok n d2" "fewer_nodes d1 d2"
      "holds_all n d1 = holds_all n d2 + mset ps" "descendants n all ps" using purge_spec[OF m(1)] by blast
    have "datamanager_reclaim_expired_leases n os now owner_alive buffers grows d = Some (tot, d2)"
      using True r(1) p(1) by (simp add: datamanager_reclaim_expired_leases_def)
    moreover have "work n R (holds_all n d2) = work n R (holds_all n d)" using work_descendants[OF p(4,5) m(3)] m(2) by simp
    moreover have "holds_all n d2 \<subseteq># holds_all n d" using p(4) m(2) by (metis mset_subset_eq_add_left)
    ultimately show ?thesis using p(2) r(3) fewer_due[OF p(3)] by blast
  qed
qed


text \<open>A register whose only position is leased until 1060.\<close>

lemma sample_stock_packet: "stock_packet 4 sample_position"
  unfolding sample_position_def by (rule canonical_stock[OF sample_stream])

lemma sample_manager_ok: "manager_ok 4 sample_register"
proof -
  have "same_files sample_stock (d_stock sample_register)"
    using add_attempts_spec[of 4 empty_register 1 16 free_os sample_position 1000 True 1 "Some (replicate 16 7)" 0] empty_register_ok
    by (auto simp: sample_register_def add_possibility_analysed_owned_def add_possibility_analysed_impl_def registration_def empty_register_def split: prod.splits)
  then have "stock_ok 4 (d_stock sample_register)" using same_filesD(2) sample_stock_ok(1) by blast
  then show ?thesis using sample_register_ok(1,2) sample_stock_packet by (simp add: manager_ok_def)
qed

theorem reclaim_conserves_work_witness:
  "\<exists>k d'. datamanager_reclaim_expired_leases 4 free_os 2000 None (\<lambda>_. True) (\<lambda>_. True) sample_register = Some (k, d')
    \<and> work 4 sample_rotations (holds_all 4 d') = work 4 sample_rotations (holds_all 4 sample_register)"
  using reclaim_conserves_work[OF sample_manager_ok free_memory free_fair, of 2000 None "\<lambda>_. True" "\<lambda>_. True" sample_rotations] by blast

section \<open>Returning everything\<close>

definition pool_share :: "bool \<Rightarrow> possibility_packet multiset \<Rightarrow> possibility_packet multiset" where
  "pool_share c A = filter_mset (\<lambda>p. (checked p \<noteq> 0) = c) A"

definition restocked :: "nat \<Rightarrow> datamanager \<Rightarrow> datamanager \<Rightarrow> bool" where
  "restocked n d0 d \<longleftrightarrow> manager_ok n d \<and> nb_files d = nb_files d0
     \<and> (\<forall>c. content n c (d_stock d) + pool_share c (in_hands d) = content n c (d_stock d0) + pool_share c (in_hands d0))"

lemma cleared_releases:
  assumes "register_ok n d" "f < nb_files d"
  shows "releases n d (map snd (queue_of f d)) (analysed_index_clear f (set_queue f [] d))"
proof -
  let ?d = "analysed_index_clear f (set_queue f [] d)"
  note rq = register_ok_queue[OF assms]
  have o: "only_queue f d ?d" by (auto simp: only_queue_def analysed_index_clear_def)
  have q: "queue_of f ?d = []" using rq(1) by (simp add: analysed_index_clear_def)
  have "analysed_index d f b = []" if "\<not> b < ANALYSED_INDEX_BUCKETS" for b
  proof (rule ccontr)
    assume "analysed_index d f b \<noteq> []"
    then obtain node where "node \<in> set (analysed_index d f b)" by fastforce
    then have "hash_bucket (an_hash node) = b" using rq(3) by (auto simp: chains_ok_def)
    then show False using that by (auto simp: hash_bucket_def ANALYSED_INDEX_BUCKETS_def)
  qed
  then have c: "analysed_index ?d f b = []" for b by (simp add: analysed_index_clear_def)
  have "register_ok n ?d" by (rule register_ok_only[OF assms(1) o]) (use q c in \<open>simp_all add: queue_ok_def chains_ok_def index_full_def analysed_index_clear_def\<close>)
  moreover have "in_hands d = in_hands ?d + mset (map snd (queue_of f d))" using in_hands_only[OF o assms(2)] q by simp
  moreover have "fewer_nodes d ?d" using c by (auto simp: fewer_nodes_def analysed_index_clear_def split: if_splits)
  moreover have "d_stock ?d = d_stock d" by (simp add: analysed_index_clear_def)
  ultimately show ?thesis by (simp add: releases_def)
qed

lemma restock_file_spec:
  assumes "memory os" "fair os" "restocked n d0 d" "f < nb_files d0" "buffers f"
  shows "\<exists>d'. restock_file n os buffers f d = Some d' \<and> restocked n d0 d' \<and> (\<forall>f'. queue_of f' d = [] \<longrightarrow> queue_of f' d' = []) \<and> queue_of f d' = []"
proof (cases "queue_of f d = []")
  case True
  then show ?thesis using assms(3) by (simp add: restock_file_def)
next
  case False
  have r: "register_ok n d" "stock_ok n (d_stock d)" "\<forall>p \<in># in_hands d. stock_packet n p" "f < nb_files d"
    using assms(3,4) by (simp_all add: restocked_def manager_ok_def)
  let ?d = "analysed_index_clear f (set_queue f [] d)" and ?ps = "rev (map snd (queue_of f d))"
  have rel: "register_ok n ?d" "d_stock ?d = d_stock d" "in_hands d = in_hands ?d + mset ?ps"
    using cleared_releases[OF r(1,4)] by (simp_all add: releases_def)
  have "list_all (stock_packet n) ?ps" using r(3) unfolding rel(3) by (auto simp: list_all_iff)
  then obtain s where s: "put_all_back n os ?ps ?d = Some (?d\<lparr>d_stock := s\<rparr>)" "returned n (d_stock d) ?ps s"
    using put_all_back_spec[OF assms(1,2), of n ?d ?ps] r(2) rel(2) by auto
  define d2 where "d2 = ?d\<lparr>d_stock := s\<rparr>"
  have st: "stock_ok n s" "nb_file_possibility s = nb_files d" "\<And>c. content n c s = content n c (d_stock d) + pool_share c (mset ?ps)"
    using s(2) by (simp_all add: returned_def pool_share_def mset_filter)
  have d2: "register_ok n d2" "in_hands d2 = in_hands ?d" "d_stock d2 = s" using rel(1,2) st(2) by (simp_all add: d2_def)
  have "content n c (d_stock d2) + pool_share c (in_hands d2) = content n c (d_stock d) + pool_share c (in_hands d)" for c
    unfolding d2 st(3) rel(3) by (simp add: pool_share_def ac_simps)
  moreover have "manager_ok n d2" using d2 st(1) r(3) rel(3) by (auto simp: manager_ok_def)
  ultimately have "restocked n d0 d2" using assms(3) d2(3) st(2) by (simp add: restocked_def)
  moreover have "restock_file n os buffers f d = Some d2" using False assms(5) s(1) by (simp add: restock_file_def d2_def)
  moreover have "queue_of f d2 = []" using register_ok_queue(1)[OF r(1,4)] by (simp add: d2_def analysed_index_clear_def)
  moreover have "queue_of f' d = [] \<longrightarrow> queue_of f' d2 = []" for f'
    using \<open>queue_of f d2 = []\<close> by (cases "f' = f") (simp_all add: d2_def analysed_index_clear_def)
  ultimately show ?thesis by blast
qed

text \<open>C20. \<open>restock_analysed\<close> returns every position in the hands of clients to the pool of its flag and
  leaves the queues empty, when memory does not run out and no queue stays locked for ever.\<close>

theorem restock_analysed_returns_all:
  assumes "manager_ok n d" "memory os" "fair os" "\<forall>f < nb_files d. buffers f"
  shows "\<exists>d'. restock_analysed n os buffers d = Some (0, d') \<and> manager_ok n d' \<and> in_hands d' = {#}
    \<and> (\<forall>c. content n c (d_stock d') = content n c (d_stock d) + filter_mset (\<lambda>p. (checked p \<noteq> 0) = c) (in_hands d))"
proof -
  have "\<exists>d'. fold_option (restock_file n os buffers) [0..<nb_files d] d = Some d' \<and> restocked n d d'
    \<and> (\<forall>f. queue_of f d = [] \<longrightarrow> queue_of f d' = []) \<and> (\<forall>f \<in> set [0..<nb_files d]. queue_of f d' = [])"
  proof (rule fold_option_inv)
    show "restocked n d d" using assms(1) by (simp add: restocked_def)
    show "\<exists>b. restock_file n os buffers f a = Some b \<and> restocked n d b \<and> (\<forall>f. queue_of f a = [] \<longrightarrow> queue_of f b = []) \<and> queue_of f b = []"
      if "f \<in> set [0..<nb_files d]" "restocked n d a" for f a
      using restock_file_spec[OF assms(2,3) that(2), of f buffers] that(1) assms(4) by auto
  qed auto
  then obtain d' where d': "fold_option (restock_file n os buffers) [0..<nb_files d] d = Some d'" "restocked n d d'" "\<forall>f < nb_files d. queue_of f d' = []" by auto
  have "in_hands d' = {#}" using d'(2,3) by (simp add: in_hands_def restocked_def)
  then show ?thesis using d'(1,2) by (auto simp: restock_analysed_def restocked_def pool_share_def)
qed

theorem restock_analysed_returns_all_witness:
  "\<exists>d'. restock_analysed 4 free_os (\<lambda>_. True) sample_register = Some (0, d') \<and> in_hands d' = {#}
    \<and> content 4 (checked sample_position \<noteq> 0) (d_stock d') = content 4 (checked sample_position \<noteq> 0) (d_stock sample_register) + {#sample_position#}"
  using restock_analysed_returns_all[OF sample_manager_ok free_memory free_fair, of "\<lambda>_. True"] sample_register_ok(2) by auto

section \<open>Acknowledging to the server\<close>

text \<open>\<open>send_possibility_analysed\<close>: without a server the queue of the thread is cleared; with one, it is
  emptied from its end in batches. A batch that could not be sent, or that the server did not
  take into account, is put back at the end of the queue, each position in a new block;
  \<open>blocks i\<close> is the block of the \<open>i\<close>-th position put back, \<open>NULL\<close> when there is no memory, and
  whether its node could be allocated. The result is \<open>None\<close> for a thread without a queue or a
  block that is still in use, which \<open>malloc\<close> never returns.\<close>

datatype batch_answer = Unsent | Unconsidered | Considered

definition analysed_index_remove_element :: "nat \<Rightarrow> nat \<Rightarrow> addr \<times> possibility_packet \<Rightarrow> datamanager \<Rightarrow> datamanager" where
  "analysed_index_remove_element n f e d =
     (let b = hash_bucket (hash_possibility_key n (snd e)) in set_chain f b (chain_forget (fst e) (analysed_index d f b)) d)"

primrec drain_analysed :: "nat \<Rightarrow> nat \<Rightarrow> nat \<Rightarrow> datamanager \<Rightarrow> possibility_packet list \<times> datamanager" where
  "drain_analysed n f 0 d = ([], d)"
| "drain_analysed n f (Suc k) d =
     (if queue_of f d = [] then ([], d)
      else (let e = last (queue_of f d); d1 = analysed_index_remove_element n f e d;
                (ps, d2) = drain_analysed n f k (set_queue f (butlast (queue_of f d1)) d1)
            in (snd e # ps, d2)))"

fun requeue_analysed :: "nat \<Rightarrow> int \<Rightarrow> nat \<Rightarrow> (possibility_packet \<times> addr \<times> bool) list \<Rightarrow> datamanager \<Rightarrow> datamanager option" where
  "requeue_analysed n now f [] d = Some d"
| "requeue_analysed n now f ((p, block, node_memory) # xs) d =
     (if block = NULL then requeue_analysed n now f xs d
      else if \<not> fresh_element block d then None
      else requeue_analysed n now f xs (analysed_index_add n now node_memory f (block, p) None (set_queue f (queue_of f d @ [(block, p)]) d)))"

lemma drain_analysed_shorter:
  assumes "drain_analysed n f k d = (ps, d')" "f < length (file_possibility_analysed d)"
  shows "length (queue_of f d') + length ps = length (queue_of f d) \<and> length (file_possibility_analysed d') = length (file_possibility_analysed d)"
  using assms
proof (induction k arbitrary: d ps)
  case (Suc k)
  show ?case
  proof (cases "queue_of f d = []")
    case False
    let ?e = "last (queue_of f d)" and ?d1 = "analysed_index_remove_element n f (last (queue_of f d)) d"
    let ?d = "set_queue f (butlast (queue_of f ?d1)) ?d1"
    obtain qs where q: "drain_analysed n f k ?d = (qs, d')" "ps = snd ?e # qs" using Suc.prems(1) False by (auto simp: Let_def split: prod.splits)
    have "length (file_possibility_analysed ?d) = length (file_possibility_analysed d)" "queue_of f ?d = butlast (queue_of f d)"
      using Suc.prems(2) by (simp_all add: analysed_index_remove_element_def Let_def)
    then show ?thesis using Suc.IH[OF q(1)] Suc.prems(2) q(2) False by (cases "queue_of f d" rule: rev_cases) auto
  qed (use Suc.prems in simp)
qed simp

function send_batches ::
  "nat \<Rightarrow> int \<Rightarrow> nat \<Rightarrow> nat \<Rightarrow> (nat \<Rightarrow> batch_answer) \<Rightarrow> (nat \<Rightarrow> addr \<times> bool) \<Rightarrow> nat \<Rightarrow> datamanager \<Rightarrow> datamanager option" where
  "send_batches n now f cap answers blocks k d =
     (if \<not> f < length (file_possibility_analysed d) then None
      else (let (ps, d1) = drain_analysed n f cap d in
        if ps = [] then Some d1
        else if answers k \<noteq> Considered then requeue_analysed n now f (zip ps (map blocks [0..<length ps])) d1
        else if length ps = cap then send_batches n now f cap answers blocks (Suc k) d1 else Some d1))"
  by pat_completeness auto
termination
  by (relation "measure (\<lambda>(n, now, f, cap, answers, blocks, k, d). length (queue_of f d))") (auto dest!: drain_analysed_shorter[OF sym], metis less_add_same_cancel1 length_greater_0_conv)

declare send_batches.simps [simp del]

text \<open>\<open>remote\<close> says whether the connection could be made, when there is a server address; \<open>buffer\<close>
  whether the buffer could be allocated.\<close>

definition send_possibility_analysed ::
  "nat \<Rightarrow> os \<Rightarrow> int \<Rightarrow> bool option \<Rightarrow> int \<Rightarrow> bool \<Rightarrow> (nat \<Rightarrow> batch_answer) \<Rightarrow> (nat \<Rightarrow> addr \<times> bool) \<Rightarrow> nat \<Rightarrow> datamanager \<Rightarrow> datamanager option" where
  "send_possibility_analysed n os now remote pruner_batch_size buffer answers blocks thread d =
     (if remote = Some False then Some d
      else (let (free, s) = trylock os (d_stock d); d1 = d\<lparr>d_stock := s\<rparr> in
        if \<not> free \<or> queue_of thread d1 = [] then Some d1
        else if remote = None then Some (analysed_index_clear thread (set_queue thread [] d1))
        else if \<not> buffer then Some d1
        else send_batches n now thread (if pruner_batch_size > 0 then nat pruner_batch_size else 1) answers blocks 0 d1))"

lemma drain_analysed_spec:
  "register_ok n d \<Longrightarrow> f < nb_files d \<Longrightarrow> drain_analysed n f k d = (ps, d') \<Longrightarrow>
     releases n d ps d' \<and> queue_of f d' = take (length (queue_of f d) - k) (queue_of f d)
       \<and> ps = rev (map snd (drop (length (queue_of f d) - k) (queue_of f d)))"
proof (induction k arbitrary: d ps)
  case 0
  then show ?case using releases_refl by simp
next
  case (Suc k)
  show ?case
  proof (cases "queue_of f d" rule: rev_cases)
    case Nil
    then show ?thesis using Suc.prems releases_refl by simp
  next
    case (snoc q e)
    note rq = register_ok_queue[OF Suc.prems(1,2)]
    have "remove_element (fst e) (queue_of f d) = q" using rq(2) snoc by (auto simp: remove_element_def filter_id_conv image_iff)
    then have drop: "set_queue f (butlast (queue_of f (analysed_index_remove_element n f e d))) (analysed_index_remove_element n f e d) = drop_element n f e d"
      using snoc chain_forget_without[OF rq(4)] by (simp add: analysed_index_remove_element_def drop_element_def Let_def)
    obtain qs where q: "drain_analysed n f k (drop_element n f e d) = (qs, d')" "ps = snd e # qs"
      using Suc.prems(3) snoc drop by (auto simp: Let_def split: prod.splits)
    have rel: "releases n d [snd e] (drop_element n f e d)" by (rule drop_element_releases[OF Suc.prems(1,2)]) (simp add: snoc)
    have qd: "queue_of f (drop_element n f e d) = q" using drop_element_queue(1)[OF rq(1)] \<open>remove_element (fst e) (queue_of f d) = q\<close> by simp
    have "register_ok n (drop_element n f e d)" "f < nb_files (drop_element n f e d)" using rel Suc.prems(2) by (simp_all add: releases_def)
    note ih = Suc.IH[OF this q(1)]
    show ?thesis using ih releases_trans[OF rel, of qs d'] unfolding qd q(2) by (auto simp: snoc)
  qed
qed

lemma requeue_one_spec:
  assumes "register_ok n d" "f < nb_files d" "fresh_element block d" "block \<noteq> NULL"
    and d'_def: "d' = analysed_index_add n now nm f (block, p) None (set_queue f (queue_of f d @ [(block, p)]) d)"
  shows "register_ok n d' \<and> d_stock d' = d_stock d \<and> in_hands d' = add_mset p (in_hands d)"
proof -
  let ?s = "(d_stock d)\<lparr>max_result := max (max_result (d_stock d)) (alloc p)\<rparr>"
  have st: "d_stock d' = d_stock d" by (simp add: d'_def analysed_index_add_def Let_def)
  have "register_in n now block nm p None f d = d'\<lparr>d_stock := ?s\<rparr>"
    using assms(4) by (simp add: register_in_def d'_def analysed_index_add_def Let_def set_queue_def set_chain_def)
  then show ?thesis using register_in_spec[OF assms(1-3), of now nm p None] st assms(4) by simp
qed

text \<open>What was put back: the positions for which there was a block.\<close>

lemma requeue_analysed_spec:
  "register_ok n d \<Longrightarrow> f < nb_files d \<Longrightarrow> requeue_analysed n now f xs d = Some d' \<Longrightarrow>
     register_ok n d' \<and> d_stock d' = d_stock d \<and> in_hands d' = in_hands d + mset (map fst (filter (\<lambda>x. fst (snd x) \<noteq> NULL) xs))"
proof (induction n now f xs d rule: requeue_analysed.induct)
  case (2 n now f p block nm xs d)
  show ?case
  proof (cases "block = NULL")
    case True
    then show ?thesis using 2 by simp
  next
    case False
    let ?d = "analysed_index_add n now nm f (block, p) None (set_queue f (queue_of f d @ [(block, p)]) d)"
    have fr: "fresh_element block d" and run: "requeue_analysed n now f xs ?d = Some d'" using 2(5) False by (auto split: if_splits)
    note one = requeue_one_spec[OF 2(3,4) fr False refl, of now nm p]
    have ok: "register_ok n ?d" "f < nb_files ?d" using one 2(4) by simp_all
    have "\<not> \<not> fresh_element block d" using fr by simp
    from 2(2)[OF False this ok run] one False show ?thesis by simp
  qed
qed simp

text \<open>What left the hands of clients: positions of batches the server has considered, and positions put
  back for which there was no memory.\<close>

lemma send_batches_spec:
  "register_ok n d \<Longrightarrow> f < nb_files d \<Longrightarrow> 0 < cap \<Longrightarrow> send_batches n now f cap answers blocks k d = Some d' \<Longrightarrow>
     register_ok n d' \<and> d_stock d' = d_stock d \<and> in_hands d' \<subseteq># in_hands d
       \<and> ((\<forall>j. answers j \<noteq> Considered) \<longrightarrow> (\<forall>i. fst (blocks i) \<noteq> NULL) \<longrightarrow> in_hands d' = in_hands d)
       \<and> ((\<forall>j. answers j = Considered) \<longrightarrow> queue_of f d' = [])"
proof (induction n now f cap answers blocks k d rule: send_batches.induct)
  case (1 n now f cap answers blocks k d)
  note fl = register_ok_queue(1)[OF 1(2,3)]
  obtain ps d1 where dr: "drain_analysed n f cap d = (ps, d1)" by fastforce
  from drain_analysed_spec[OF 1(2,3) dr] have rel: "releases n d ps d1"
    and q1: "queue_of f d1 = take (length (queue_of f d) - cap) (queue_of f d)" "ps = rev (map snd (drop (length (queue_of f d) - cap) (queue_of f d)))"
    by blast+
  have r1: "register_ok n d1" "d_stock d1 = d_stock d" "in_hands d = in_hands d1 + mset ps" "f < nb_files d1" using rel 1(3) by (simp_all add: releases_def)
  have short: "queue_of f d1 = []" if "length ps \<noteq> cap" using that q1 by simp
  note run = 1(5)[unfolded send_batches.simps[of n now f cap answers blocks k d] dr Let_def prod.case, simplified fl not_True_eq_False if_False]
  consider (empty) "ps = []" "d' = d1" | (refused) "ps \<noteq> []" "answers k \<noteq> Considered" "requeue_analysed n now f (zip ps (map blocks [0..<length ps])) d1 = Some d'"
    | (more) "ps \<noteq> []" "answers k = Considered" "length ps = cap" "send_batches n now f cap answers blocks (Suc k) d1 = Some d'"
    | (final) "ps \<noteq> []" "answers k = Considered" "length ps \<noteq> cap" "d' = d1"
    using run fl by (auto split: if_splits)
  then show ?case
  proof cases
    case empty
    then show ?thesis using r1 short 1(4) by auto
  next
    case refused
    note rq = requeue_analysed_spec[OF r1(1,4) refused(3)]
    let ?xs = "zip ps (map blocks [0..<length ps])"
    define B where "B = mset (map fst (filter (\<lambda>x. fst (snd x) \<noteq> NULL) ?xs))"
    have "map fst ?xs = ps" by simp
    moreover have "B \<subseteq># mset (map fst ?xs)" unfolding B_def mset_map by (intro image_mset_subseteq_mono) (simp add: mset_filter)
    ultimately have sub: "B \<subseteq># mset ps" by simp
    have "B = mset ps" if h: "\<forall>i. fst (blocks i) \<noteq> NULL"
    proof -
      have "filter (\<lambda>x. fst (snd x) \<noteq> NULL) ?xs = ?xs"
        using h by (intro filter_True) (auto simp: set_zip, metis fst_conv)
      then show ?thesis unfolding B_def by (simp only: \<open>map fst ?xs = ps\<close>)
    qed
    then show ?thesis using rq[folded B_def] sub r1 refused(2) by auto
  next
    case more
    from "1.IH"[OF _ dr[symmetric] refl more(1) _ more(3) r1(1,4) 1(4) more(4)] fl more(2)
    have ih: "register_ok n d' \<and> d_stock d' = d_stock d1 \<and> in_hands d' \<subseteq># in_hands d1 \<and> ((\<forall>j. answers j = Considered) \<longrightarrow> queue_of f d' = [])" by auto
    then have "in_hands d' \<subseteq># in_hands d" using r1(3) by (metis mset_subset_eq_add_left subset_mset.order_trans)
    then show ?thesis using ih r1(2) more(2) by auto
  next
    case final
    then show ?thesis using r1 short by auto
  qed
qed

lemma send_possibility_analysed_spec:
  assumes "register_ok n d" "thread < nb_files d" "send_possibility_analysed n os now remote sz buffer answers blocks thread d = Some d'"
  shows "register_ok n d' \<and> same_files (d_stock d) (d_stock d') \<and> in_hands d' \<subseteq># in_hands d
    \<and> (remote \<noteq> None \<longrightarrow> (\<forall>j. answers j \<noteq> Considered) \<longrightarrow> (\<forall>i. fst (blocks i) \<noteq> NULL) \<longrightarrow> in_hands d' = in_hands d)
    \<and> (remote = Some True \<longrightarrow> buffer \<longrightarrow> os_trylock os (trylocks (d_stock d)) \<longrightarrow> (\<forall>j. answers j = Considered) \<longrightarrow> queue_of thread d' = [])"
proof -
  obtain free s where t: "trylock os (d_stock d) = (free, s)" by fastforce
  define d1 where "d1 = d\<lparr>d_stock := s\<rparr>"
  have s: "same_files (d_stock d) s" "nb_file_possibility s = nb_files d" "free = os_trylock os (trylocks (d_stock d))"
    using trylock_same[OF t] t by (auto simp: trylock_def)
  have r1: "register_ok n d1" "in_hands d1 = in_hands d" "thread < nb_files d1" "d_stock d1 = s" "\<And>f. queue_of f d1 = queue_of f d"
    using assms(1,2) s(2) by (simp_all add: d1_def)
  note run = assms(3)[unfolded send_possibility_analysed_def t Let_def prod.case, folded d1_def]
  consider (none) "remote = Some False" "d' = d" | (idle) "remote \<noteq> Some False" "\<not> free \<or> queue_of thread d1 = [] \<or> \<not> buffer" "d' = d1"
    | (clear) "remote = None" "d' = analysed_index_clear thread (set_queue thread [] d1)"
    | (send) "remote = Some True" "send_batches n now thread (if sz > 0 then nat sz else 1) answers blocks 0 d1 = Some d'"
  proof -
    assume none: "remote = Some False \<Longrightarrow> d' = d \<Longrightarrow> thesis"
      and idle: "remote \<noteq> Some False \<Longrightarrow> \<not> free \<or> queue_of thread d1 = [] \<or> \<not> buffer \<Longrightarrow> d' = d1 \<Longrightarrow> thesis"
      and clear: "remote = None \<Longrightarrow> d' = analysed_index_clear thread (set_queue thread [] d1) \<Longrightarrow> thesis"
      and send: "remote = Some True \<Longrightarrow> send_batches n now thread (if sz > 0 then nat sz else 1) answers blocks 0 d1 = Some d' \<Longrightarrow> thesis"
    consider "remote = Some False" | "remote \<noteq> Some False" "\<not> free \<or> queue_of thread d1 = []"
      | "remote = None" "\<not> (\<not> free \<or> queue_of thread d1 = [])" | "remote = Some True" "\<not> (\<not> free \<or> queue_of thread d1 = [])" "\<not> buffer"
      | "remote = Some True" "\<not> (\<not> free \<or> queue_of thread d1 = [])" "buffer"
      by (cases remote) auto
    then show thesis
    proof cases
      case 1
      have "d' = d" using run unfolding 1 by simp
      then show ?thesis by (rule none[OF 1])
    next
      case 2
      have "d' = d1" using run unfolding if_not_P[OF 2(1)] if_P[OF 2(2)] by simp
      then show ?thesis using idle 2 by blast
    next
      case 3
      have "d' = analysed_index_clear thread (set_queue thread [] d1)" using run unfolding if_not_P[OF 3(2)] 3(1) by simp
      then show ?thesis using clear 3(1) by blast
    next
      case 4
      have "d' = d1" using run unfolding if_not_P[OF 4(2)] if_P[OF 4(3)] 4(1) by simp
      then show ?thesis using idle 4 by blast
    next
      case 5
      have "send_batches n now thread (if sz > 0 then nat sz else 1) answers blocks 0 d1 = Some d'"
        using run 5(3) unfolding if_not_P[OF 5(2)] 5(1) by (simp only: if_True if_False option.inject option.distinct simp_thms)
      then show ?thesis using send 5(1) by blast
    qed
  qed
  then show ?thesis
  proof cases
    case none
    then show ?thesis using assms(1) by (simp add: same_files_def)
  next
    case clear
    have "releases n d1 (map snd (queue_of thread d1)) d'" unfolding clear(2) by (rule cleared_releases[OF r1(1,3)])
    then show ?thesis using r1 s(1) clear by (simp add: releases_def)
  next
    case send
    have "0 < (if sz > 0 then nat sz else 1)" by simp
    from send_batches_spec[OF r1(1,3) this send(2)] show ?thesis using r1 s(1) send(1) by auto
  next
    case idle
    have "in_hands d' = in_hands d" "register_ok n d'" "d_stock d' = s" using r1 idle(3) by simp_all
    moreover have "queue_of thread d' = []" if "buffer" "free" using idle(2,3) that by simp
    ultimately show ?thesis using s(1,3) by simp
  qed
qed

end
