(* ===== verification/Stock_Manager.thy ===== *)
theory Stock_Manager
  imports Stock_Leases
begin

text \<open>
  The stock and the register of positions in the hands of clients as one state machine: any
  sequence of the operations of \<open>datamanager.c\<close>, with any answers of \<open>pthread_mutex_trylock\<close> and
  \<open>malloc\<close>, keeps the invariant of both, so that no operation ever follows a pointer to a freed
  element.
\<close>

section \<open>The machine\<close>

text \<open>An operation whose result is \<open>None\<close> does not return (a queue stays locked for ever) or writes
  through a null pointer (\<open>restock_analysed\<close> without a buffer): it has no step.\<close>

inductive manager_step :: "nat \<Rightarrow> datamanager \<Rightarrow> datamanager \<Rightarrow> bool" for n where
  serve: "add_possibility_analysed_impl n os now block node_memory (Some p) thread owner d = (r, d') \<Longrightarrow>
    stock_packet n p \<Longrightarrow> thread < int (nb_files d) \<Longrightarrow> fresh_element block d \<Longrightarrow> manager_step n d d'"
| acknowledge: "remove_possibility_analysed n os key thread preferred_file d = Some (r, d') \<Longrightarrow>
    thread < int (nb_files d) \<Longrightarrow> manager_step n d d'"
| send: "send_possibility_analysed n os now remote batch_size buffer answers blocks thr d = Some d' \<Longrightarrow>
    thr < nb_files d \<Longrightarrow> manager_step n d d'"
| reclaim: "datamanager_reclaim_expired_leases n os now owner_alive buffers grows d = Some (k, d') \<Longrightarrow> manager_step n d d'"
| restock: "restock_analysed n os buffers d = Some (r, d') \<Longrightarrow> manager_step n d d'"
| purge: "datamanager_purge_descendants_of n origins d = (k, d') \<Longrightarrow> manager_step n d d'"
| receive: "put_to_local n os now (Some ps) (d_stock d) = (code, s) \<Longrightarrow> list_all (stream_packet n) ps \<Longrightarrow>
    manager_step n d (d\<lparr>d_stock := s\<rparr>)"
| take: "scroll_from_local n os now mx (d_stock d) = (ps, s) \<Longrightarrow> manager_step n d (d\<lparr>d_stock := s\<rparr>)"
| take_tocheck: "scroll_from_local_tocheck n os now mx (d_stock d) = (ps, s) \<Longrightarrow> manager_step n d (d\<lparr>d_stock := s\<rparr>)"
| rebalance: "datamanager_rebalance_step n os max_packets (d_stock d) = Some (m, s) \<Longrightarrow> manager_step n d (d\<lparr>d_stock := s\<rparr>)"
| drain: "datamanager_pool_drain_head n os c f max_packets (d_stock d) = (ps, s) \<Longrightarrow> manager_step n d (d\<lparr>d_stock := s\<rparr>)"
| refill: "datamanager_pool_refill n os c f ps (d_stock d) = Some (m, s) \<Longrightarrow> list_all (stream_packet n) ps \<Longrightarrow>
    manager_step n d (d\<lparr>d_stock := s\<rparr>)"
| drain_compact: "datamanager_pool_drain_head_compact os c f cap max_records (d_stock d) = (m, raw, s) \<Longrightarrow>
    manager_step n d (d\<lparr>d_stock := s\<rparr>)"
| refill_compact: "datamanager_pool_refill_compact n os c f (concat rs) (d_stock d) = (m, s) \<Longrightarrow> list_all (encoded n) rs \<Longrightarrow>
    manager_step n d (d\<lparr>d_stock := s\<rparr>)"

inductive manager_reach :: "nat \<Rightarrow> datamanager \<Rightarrow> bool" for n where
  start: "manager_ok n d \<Longrightarrow> nb_small (d_stock d) \<Longrightarrow> in_hands d = {#} \<Longrightarrow> manager_reach n d"
| step: "manager_reach n d \<Longrightarrow> manager_step n d d' \<Longrightarrow> manager_reach n d'"

section \<open>The invariant\<close>

text \<open>The stock stays sound, whatever the answers of the operating system.\<close>

definition sound :: "nat \<Rightarrow> stock \<Rightarrow> stock \<Rightarrow> bool" where
  "sound n s s' \<longleftrightarrow> stock_ok n s' \<and> nb_file_possibility s' = nb_file_possibility s"

lemma sound_refl: "stock_ok n s \<Longrightarrow> sound n s s"
  by (simp add: sound_def)

lemma sound_trans: "sound n s s1 \<Longrightarrow> sound n s1 s2 \<Longrightarrow> sound n s s2"
  by (simp add: sound_def)

lemma sound_same: "same_files s s' \<Longrightarrow> stock_ok n s \<Longrightarrow> sound n s s'"
  using same_filesD(2,5)[of s s'] by (simp add: sound_def)

lemma flows_sound: "flows n os s A P L s' \<Longrightarrow> sound n s s'"
  using flows_ok by (simp add: sound_def)

lemma sound_set_file:
  assumes "stock_ok n s" "f < nb_file_possibility s" "set q \<subseteq> set (file_of c f s) \<union> {r. good_record n r}"
  shows "sound n s (set_file c f q s)"
  using stock_ok_set_file[OF assms(1,2), of q c] stock_ok_record[OF assms(1,2), of _ c] assms(3) by (auto simp: sound_def)

lemma lock_rotating_less:
  assumes "lock_rotating os dest s = Some y"
  shows "dest < nb_file_possibility s \<longrightarrow> fst y < nb_file_possibility s"
proof (rule lock_rotating.raw_induct[OF _ assms], goal_cases)
  case (1 rec os dest s y)
  show ?case
  proof (cases "os_trylock os (trylocks s)")
    case True
    then show ?thesis using 1(2) by auto
  next
    case False
    then have "rec os ((dest + 1) mod nb_file_possibility s) (s\<lparr>trylocks := Suc (trylocks s)\<rparr>) = Some y" using 1(2) by simp
    from 1(1)[OF this] show ?thesis by simp
  qed
qed

lemma lock_rotating_sound:
  assumes "lock_rotating os dest s = Some (f, s1)" "stock_ok n s" "dest < nb_file_possibility s"
  shows "f < nb_file_possibility s \<and> sound n s s1"
proof -
  obtain k where k: "s1 = s\<lparr>trylocks := k\<rparr>" using lock_rotating_result[OF assms(1)] by auto
  then show ?thesis using lock_rotating_less[OF assms(1)] assms(2,3) sound_same[of s s1] by simp
qed

lemma put_unsorted_sound:
  assumes "stock_ok n s" "f < nb_file_possibility s" "stream_packet n p"
  shows "sound n s (put_unsorted n os c p f s)"
proof -
  have s1: "sound n s (snd (pool_put n os c f p s))" by (rule flows_sound[OF pool_put_flows[OF assms]])
  then have "stock_ok n (snd (pool_put n os c f p s))" by (simp add: sound_def)
  from sound_trans[OF s1 sound_same[OF sort_state_same this]] show ?thesis by (simp add: put_unsorted_def)
qed

lemma put_rotating_sound:
  assumes "put_rotating n os c p dest s = Some (f, s')" "stock_ok n s" "dest < nb_file_possibility s" "stream_packet n p"
  shows "f < nb_file_possibility s \<and> sound n s s'"
proof -
  obtain s1 where l: "lock_rotating os dest s = Some (f, s1)" "s' = put_unsorted n os c p f s1" using assms(1) by (auto simp: put_rotating_def)
  have f: "f < nb_file_possibility s" "sound n s s1" using lock_rotating_sound[OF l(1) assms(2,3)] by simp_all
  then have "stock_ok n s1" "f < nb_file_possibility s1" by (simp_all add: sound_def)
  from sound_trans[OF f(2) put_unsorted_sound[OF this assms(4)]] f(1) l(2) show ?thesis by simp
qed

lemma put_spread_sound:
  "put_spread n os c e ps s = Some s' \<Longrightarrow> list_all (stream_packet n) ps \<Longrightarrow> stock_ok n s \<Longrightarrow> e < nb_file_possibility s \<Longrightarrow> sound n s s'"
proof (induction ps arbitrary: s)
  case (Cons p ps)
  obtain f s1 where s1: "put_rotating n os c p e s = Some (f, s1)" "put_spread n os c e ps s1 = Some s'" using Cons.prems(1) by (auto split: option.splits)
  have "sound n s s1" using put_rotating_sound[OF s1(1) Cons.prems(3,4)] Cons.prems(2) by simp
  then show ?case using Cons.IH[OF s1(2)] Cons.prems sound_trans[of n s s1 s'] by (simp add: sound_def)
qed (simp add: sound_refl)

lemma refill_from_sound:
  "refill_from n os c ps dest s = Some s' \<Longrightarrow> list_all (stream_packet n) ps \<Longrightarrow> stock_ok n s \<Longrightarrow> dest < nb_file_possibility s \<Longrightarrow> sound n s s'"
proof (induction ps arbitrary: s dest)
  case (Cons p ps)
  obtain f s1 where s1: "put_rotating n os c p dest s = Some (f, s1)" "refill_from n os c ps f s1 = Some s'" using Cons.prems(1) by (auto split: option.splits)
  have "f < nb_file_possibility s \<and> sound n s s1" using put_rotating_sound[OF s1(1) Cons.prems(3,4)] Cons.prems(2) by simp
  then show ?case using Cons.IH[OF s1(2)] Cons.prems sound_trans[of n s s1 s'] by (simp add: sound_def)
qed (simp add: sound_refl)

lemma rebalance_pool_step_sound:
  assumes "rebalance_pool_step n os c mx s = Some (m, s')" "stock_ok n s"
  shows "sound n s s'"
proof -
  define sizes where "sizes = loads c s"
  define k where "k = moves_wanted sizes (nat mx)"
  let ?s = "s\<lparr>mallocs := Suc (mallocs s)\<rparr>"
  have same: "same_files s ?s" by simp
  have nb: "0 < nb_file_possibility s" using assms(2) by (simp add: stock_ok_def)
  have ne: "sizes \<noteq> []" using nb by (metis sizes_def length_loads length_greater_0_conv)
  have fe: "fullest_of sizes < nb_file_possibility s" "emptiest_of sizes < nb_file_possibility s"
    using fullest_spec[OF ne] emptiest_spec[OF ne] by (simp_all add: sizes_def)
  have ok: "stock_ok n ?s" using same_filesD(2)[OF same] assms(2) by simp
  consider "s' = s" | "s' = ?s" | buf s1 where "scroll_buffer n c (fullest_of sizes) k ?s = (buf, s1)" "put_spread n os c (emptiest_of sizes) buf s1 = Some s'"
  proof -
    obtain buf s1 where b: "scroll_buffer n c (fullest_of sizes) k ?s = (buf, s1)" by fastforce
    have e: "rebalance_pool_step n os c mx s = (if mx \<le> 0 then Some (0, s) else if k = 0 then Some (0, s)
        else if \<not> os_malloc os (mallocs s) then Some (0, ?s) else map_option (\<lambda>s2. (int (length buf), s2)) (put_spread n os c (emptiest_of sizes) buf s1))"
      unfolding rebalance_pool_step_def Let_def sizes_def[symmetric] k_def[symmetric] b prod.case by (rule refl)
    assume 1: "s' = s \<Longrightarrow> thesis" and 2: "s' = ?s \<Longrightarrow> thesis"
      and third: "\<And>buf s1. scroll_buffer n c (fullest_of sizes) k ?s = (buf, s1) \<Longrightarrow> put_spread n os c (emptiest_of sizes) buf s1 = Some s' \<Longrightarrow> thesis"
    consider "mx \<le> 0 \<or> k = 0" | "\<not> (mx \<le> 0 \<or> k = 0)" "\<not> os_malloc os (mallocs s)" | "\<not> (mx \<le> 0 \<or> k = 0)" "os_malloc os (mallocs s)" by blast
    then show thesis
    proof cases
      case 1
      then show ?thesis using assms(1)[unfolded e] \<open>s' = s \<Longrightarrow> thesis\<close> by (auto split: if_splits)
    next
      case 2
      then show ?thesis using assms(1)[unfolded e] \<open>s' = ?s \<Longrightarrow> thesis\<close> by simp
    next
      case 3
      then have "put_spread n os c (emptiest_of sizes) buf s1 = Some s'" using assms(1)[unfolded e] by auto
      then show ?thesis by (rule third[OF b])
    qed
  qed
  then show ?thesis
  proof cases
    case 3
    have "fullest_of sizes < nb_file_possibility ?s" using fe(1) by simp
    from scroll_buffer_spec[OF ok this, of c k] have "takes n c ?s buf s1" unfolding 3(1) prod.inject by blast
    then have s1: "sound n s s1" "list_all (stream_packet n) buf" by (simp_all add: takes_def sound_def stock_packet_def list_all_iff)
    then have "stock_ok n s1" "emptiest_of sizes < nb_file_possibility s1" using fe(2) by (simp_all add: sound_def)
    from sound_trans[OF s1(1) put_spread_sound[OF 3(2) s1(2) this]] show ?thesis .
  qed (use sound_refl[OF assms(2)] sound_same[OF same assms(2)] in simp_all)
qed

lemma rebalance_rounds_sound:
  "rebalance_rounds n os c left budget s = Some (m, s') \<Longrightarrow> stock_ok n s \<Longrightarrow> sound n s s'"
proof (induction left arbitrary: budget s m)
  case (Suc left)
  show ?case
  proof (cases "budget \<le> 0")
    case False
    obtain k s1 where s1: "rebalance_pool_step n os c budget s = Some (k, s1)" using Suc.prems(1) False by (auto split: option.splits)
    note so = rebalance_pool_step_sound[OF s1 Suc.prems(2)]
    show ?thesis
    proof (cases "k \<le> 0")
      case more: False
      obtain j where "rebalance_rounds n os c left (budget - k) s1 = Some (j, s')" using Suc.prems(1) False s1 more by auto
      from Suc.IH[OF this] so sound_trans[OF so] show ?thesis by (simp add: sound_def)
    qed (use Suc.prems False s1 so in auto)
  qed (use Suc.prems sound_refl in auto)
qed (simp add: sound_refl)

lemma rebalance_sound:
  assumes "datamanager_rebalance_step n os mx s = Some (m, s')" "stock_ok n s"
  shows "sound n s s'"
proof -
  obtain k s1 j where 1: "rebalance_pool_until_budget n os False mx s = Some (k, s1)" and 2: "rebalance_pool_until_budget n os True mx s1 = Some (j, s')"
    using assms(1) by (auto simp: datamanager_rebalance_step_def split: option.splits)
  have s1: "sound n s s1" by (rule rebalance_rounds_sound[OF 1[unfolded rebalance_pool_until_budget_def] assms(2)])
  then have "stock_ok n s1" by (simp add: sound_def)
  from sound_trans[OF s1 rebalance_rounds_sound[OF 2[unfolded rebalance_pool_until_budget_def] this]] show ?thesis .
qed

text \<open>Draining and refilling.\<close>

lemma scroll_fifo_tail: "scroll_fifo_record cap q = (r, q') \<Longrightarrow> set q' \<subseteq> set q"
  by (cases q) (auto simp: scroll_fifo_record_def split: if_splits)

lemma drain_fifo_sound: "drain_fifo n c f k s = (ps, s') \<Longrightarrow> stock_ok n s \<Longrightarrow> f < nb_file_possibility s \<Longrightarrow> sound n s s'"
proof (induction k arbitrary: s ps)
  case (Suc k)
  obtain r q where r: "scroll_fifo_record (PACKET_CODEC_MAX_BYTES n) (file_of c f s) = (r, q)" by fastforce
  let ?s = "set_file c f q s"
  have so: "sound n s ?s" by (rule sound_set_file[OF Suc.prems(2,3)]) (use scroll_fifo_tail[OF r] in auto)
  have e: "pool_scroll_fifo n c f s = (decode_taken n r, ?s)" by (simp add: pool_scroll_fifo_def r)
  show ?case
  proof (cases "decode_taken n r")
    case None
    then show ?thesis using Suc.prems(1) e so by simp
  next
    case (Some p)
    obtain qs where "drain_fifo n c f k ?s = (qs, s')" using Suc.prems(1) e Some by (auto split: prod.splits)
    from Suc.IH[OF this] so sound_trans[OF so] Suc.prems(3) show ?thesis by (simp add: sound_def)
  qed
qed (simp add: sound_refl)

lemma drain_records_sound: "drain_records c f cap k s = (rs, s') \<Longrightarrow> stock_ok n s \<Longrightarrow> f < nb_file_possibility s \<Longrightarrow> sound n s s'"
proof (induction k arbitrary: s rs cap)
  case (Suc k)
  obtain r q where r: "scroll_fifo_record cap (file_of c f s) = (r, q)" by fastforce
  let ?s = "set_file c f q s"
  have so: "sound n s ?s" by (rule sound_set_file[OF Suc.prems(2,3)]) (use scroll_fifo_tail[OF r] in auto)
  show ?case
  proof (cases r)
    case None
    then show ?thesis using Suc.prems r sound_refl by simp
  next
    case (Some x)
    obtain qs where "drain_records c f (cap - length x) k ?s = (qs, s')" using Suc.prems(1) r Some by (auto split: prod.splits)
    from Suc.IH[OF this] so sound_trans[OF so] Suc.prems(3) show ?thesis by (simp add: sound_def)
  qed
qed (simp add: sound_refl)

lemma drain_head_sound:
  assumes "stock_ok n s"
  shows "datamanager_pool_drain_head n os c f mx s = (ps, s') \<Longrightarrow> sound n s s'"
    "datamanager_pool_drain_head_compact os c f cap mr s = (m, raw, s') \<Longrightarrow> sound n s s'"
proof -
  let ?s = "s\<lparr>trylocks := Suc (trylocks s)\<rparr>"
  have so: "sound n s ?s" by (rule sound_same[OF _ assms]) simp
  have ok: "stock_ok n ?s" using so by (simp add: sound_def)
  have f: "nat f < nb_file_possibility ?s" if "\<not> (f < 0 \<or> f \<ge> int (nb_file_possibility s))" using that by auto
  show "sound n s s'" if "datamanager_pool_drain_head n os c f mx s = (ps, s')"
    using that sound_trans[OF so drain_fifo_sound[OF _ ok f]] so sound_refl[OF assms]
    by (auto simp: datamanager_pool_drain_head_def trylock_def Let_def split: if_splits)
  show "sound n s s'" if "datamanager_pool_drain_head_compact os c f cap mr s = (m, raw, s')"
    using that sound_trans[OF so drain_records_sound[OF _ ok f]] so sound_refl[OF assms]
    by (auto simp: datamanager_pool_drain_head_compact_def trylock_def Let_def split: if_splits prod.splits)
qed

lemma encoded_good: "encoded n r \<Longrightarrow> good_record n r"
  unfolding encoded_def using encode_good by (metis option.inject)

lemma put_records_sound:
  "put_records os c f rs s = (k, s') \<Longrightarrow> list_all (encoded n) rs \<Longrightarrow> stock_ok n s \<Longrightarrow> f < nb_file_possibility s \<Longrightarrow> sound n s s'"
proof (induction rs arbitrary: s k)
  case (Cons r rs)
  obtain ok q where q: "put_record (os_malloc os (mallocs s)) r (file_of c f s) = (ok, q)" by fastforce
  let ?s = "(set_file c f q s)\<lparr>mallocs := Suc (mallocs s)\<rparr>"
  have "set q \<subseteq> set (file_of c f s) \<union> {r. good_record n r}" using q Cons.prems(2) encoded_good by (auto simp: put_record_def split: if_splits)
  then have s1: "sound n s (set_file c f q s)" by (rule sound_set_file[OF Cons.prems(3,4)])
  then have so: "sound n s ?s" using sound_trans[OF s1 sound_same] by (simp add: sound_def)
  show ?case
  proof (cases ok)
    case True
    obtain j where "put_records os c f rs ?s = (j, s')" using Cons.prems(1) q True by (auto split: prod.splits)
    from Cons.IH[OF this] so sound_trans[OF so] Cons.prems(2,4) show ?thesis by (simp add: sound_def)
  qed (use Cons.prems(1) q so in auto)
qed (simp add: sound_refl)

lemma unput_records_sound: "stock_ok n s \<Longrightarrow> f < nb_file_possibility s \<Longrightarrow> sound n s (unput_records n c f k s)"
proof (induction k arbitrary: s)
  case (Suc k)
  let ?q = "snd (scroll_record (PACKET_CODEC_MAX_BYTES n) (file_of c f s))"
  have "set ?q \<subseteq> set (file_of c f s)" by (auto simp: scroll_record_def split: if_splits dest: in_set_butlastD)
  then have so: "sound n s (set_file c f ?q s)" by (intro sound_set_file[OF Suc.prems]) auto
  then show ?case using Suc.IH[of "set_file c f ?q s"] sound_trans[OF so] Suc.prems(2) by (simp add: sound_def)
qed (simp add: sound_refl)

lemma refill_sound:
  assumes "stock_ok n s"
  shows "datamanager_pool_refill n os c f ps s = Some (m, s') \<Longrightarrow> list_all (stream_packet n) ps \<Longrightarrow> sound n s s'"
    "datamanager_pool_refill_compact n os c f (concat rs) s = (m, s') \<Longrightarrow> list_all (encoded n) rs \<Longrightarrow> sound n s s'"
proof -
  show "sound n s s'" if "datamanager_pool_refill n os c f ps s = Some (m, s')" "list_all (stream_packet n) ps"
    using that refill_from_sound[of n os c ps "nat f" s s'] assms sound_refl[OF assms] by (auto simp: datamanager_pool_refill_def split: if_splits)
  let ?s = "s\<lparr>trylocks := Suc (trylocks s)\<rparr>"
  have so: "sound n s ?s" by (rule sound_same[OF _ assms]) simp
  then have ok: "stock_ok n ?s" by (simp add: sound_def)
  assume r: "datamanager_pool_refill_compact n os c f (concat rs) s = (m, s')" and rs: "list_all (encoded n) rs"
  show "sound n s s'"
  proof (cases "f < 0 \<or> f \<ge> int (nb_file_possibility s) \<or> concat rs = [] \<or> \<not> os_trylock os (trylocks s)")
    case True
    then show ?thesis using r so sound_refl[OF assms] by (auto simp: datamanager_pool_refill_compact_def trylock_def Let_def split: if_splits option.splits)
  next
    case False
    have f: "nat f < nb_file_possibility ?s" using False by auto
    obtain k s2 where p: "put_records os c (nat f) rs ?s = (k, s2)" by fastforce
    have s2: "sound n s s2" by (rule sound_trans[OF so put_records_sound[OF p rs ok f]])
    then have ok2: "stock_ok n s2" "nat f < nb_file_possibility s2" using f by (simp_all add: sound_def)
    have "s' = unput_records n c (nat f) k s2 \<or> s' = set_sort_state c (nat f) FILE_SORT_UNKNOWN s2"
      using r p False split_encoded[OF rs] by (auto simp: datamanager_pool_refill_compact_def trylock_def Let_def split: if_splits)
    then show ?thesis using sound_trans[OF s2 unput_records_sound[OF ok2]] sound_trans[OF s2 sound_same[OF sort_state_same ok2(1)]] by auto
  qed
qed

text \<open>Positions that go back.\<close>

lemma put_back_sound:
  assumes "put_back_to_stock n os p s = Some s'" "stock_ok n s" "stock_packet n p"
  shows "sound n s s'"
proof -
  obtain f s1 where l: "lock_rotating os 0 s = Some (f, s1)" and e: "s' = put_unsorted n os (checked p \<noteq> 0) p f (s1\<lparr>max_result := max (max_result s1) (alloc p)\<rparr>)"
    using assms(1) by (auto simp: put_back_to_stock_def)
  have "0 < nb_file_possibility s" using assms(2) by (simp add: stock_ok_def)
  from lock_rotating_sound[OF l assms(2) this] have f: "f < nb_file_possibility s" "sound n s s1" by simp_all
  let ?s = "s1\<lparr>max_result := max (max_result s1) (alloc p)\<rparr>"
  have so: "sound n s ?s" using sound_trans[OF f(2) sound_same] f(2) by (simp add: sound_def)
  then have "stock_ok n ?s" "f < nb_file_possibility ?s" using f(1) by (simp_all add: sound_def)
  from sound_trans[OF so put_unsorted_sound[OF this]] assms(3) e show ?thesis by (simp add: stock_packet_def)
qed

lemma put_all_back_sound:
  assumes "put_all_back n os ps d = Some d'" "stock_ok n (d_stock d)" "list_all (stock_packet n) ps"
  shows "\<exists>s. d' = d\<lparr>d_stock := s\<rparr> \<and> sound n (d_stock d) s"
proof -
  have "fold_option (put_back_to_stock n os) ps s = Some s' \<Longrightarrow> stock_ok n s \<Longrightarrow> list_all (stock_packet n) ps \<Longrightarrow> sound n s s'" for s s'
  proof (induction ps arbitrary: s)
    case (Cons p ps)
    obtain s1 where s1: "put_back_to_stock n os p s = Some s1" "fold_option (put_back_to_stock n os) ps s1 = Some s'" using Cons.prems(1) by (auto split: option.splits)
    have so: "sound n s s1" using put_back_sound[OF s1(1) Cons.prems(2)] Cons.prems(3) by simp
    from Cons.IH[OF s1(2)] so sound_trans[OF so] Cons.prems(3) show ?case by (simp add: sound_def)
  qed (simp add: sound_refl)
  then show ?thesis using assms by (auto simp: put_all_back_def)
qed

lemma fold_option_keeps:
  assumes "fold_option g xs a = Some b" "I a" "\<And>x a b. x \<in> set xs \<Longrightarrow> I a \<Longrightarrow> g x a = Some b \<Longrightarrow> I b"
  shows "I b"
  using assms
proof (induction xs arbitrary: a)
  case (Cons x xs)
  obtain a1 where "g x a = Some a1" "fold_option g xs a1 = Some b" using Cons.prems(1) by (auto split: option.splits)
  then show ?case using Cons.IH[of a1] Cons.prems(2,3) by (meson list.set_intros)
qed simp

section \<open>Every operation keeps it\<close>

lemma manager_stock:
  assumes "manager_ok n d" "stock_ok n s" "nb_file_possibility s = nb_files d"
  shows "manager_ok n (d\<lparr>d_stock := s\<rparr>)"
  using assms by (simp add: manager_ok_def)

lemma manager_same:
  assumes "manager_ok n d" "register_ok n d'" "same_files (d_stock d) (d_stock d')" "\<forall>p \<in># in_hands d'. stock_packet n p"
  shows "manager_ok n d' \<and> nb_files d' = nb_files d"
  using assms same_filesD(2,5)[OF assms(3)] by (simp add: manager_ok_def)

lemma serve_ok:
  assumes "add_possibility_analysed_impl n os now block node_memory (Some p) thread owner d = (r, d')" "stock_packet n p"
    "thread < int (nb_files d)" "fresh_element block d" "manager_ok n d"
  shows "manager_ok n d' \<and> nb_files d' = nb_files d"
proof -
  have ok: "register_ok n d" "\<forall>p \<in># in_hands d. stock_packet n p" using assms(5) by (simp_all add: manager_ok_def)
  have "(if thread \<ge> 0 then nat thread else 0) < nb_files d" using assms(3) ok(1) by (auto simp: register_ok_def)
  from add_attempts_spec[OF ok(1) this assms(4), of os p now node_memory thread owner 0] assms(1)
  have r: "registration n os block p d r d'" by (simp add: add_possibility_analysed_impl_def)
  show ?thesis by (rule manager_same[OF assms(5)]) (use r ok(2) assms(2) in \<open>auto simp: registration_def split: if_splits\<close>)
qed

lemma removal_exists:
  assumes "register_ok n d" "thread < int (nb_files d)"
  obtains r d' F where "remove_possibility_analysed n os key thread preferred_file d = Some (r, d')" "removal n os F key d r d'"
proof -
  define st where "st = (if thread \<ge> 0 then 0 else if preferred_file \<ge> 0 \<and> nat preferred_file < nb_files d then nat preferred_file else 0)"
  define cf where "cf = (if thread \<ge> 0 then nat thread else st)"
  have "remove_possibility_analysed n os key thread preferred_file d = remove_attempts n os key thread st 0 cf 0 d"
    by (simp add: remove_possibility_analysed_def st_def cf_def)
  moreover have "cf < nb_files d" "thread < 0 \<longrightarrow> cf = (st + 0) mod nb_files d \<and> 0 < nb_files d"
    using assms by (auto simp: cf_def st_def register_ok_def)
  ultimately show ?thesis using remove_attempts_spec[OF assms(1)] that by metis
qed

lemma acknowledge_ok:
  assumes "remove_possibility_analysed n os key thread preferred_file d = Some (r, d')" "thread < int (nb_files d)" "manager_ok n d"
  shows "manager_ok n d' \<and> nb_files d' = nb_files d"
proof -
  have ok: "register_ok n d" "\<forall>p \<in># in_hands d. stock_packet n p" using assms(3) by (simp_all add: manager_ok_def)
  obtain F where "removal n os F key d r d'" using removal_exists[OF ok(1) assms(2)] assms(1) by (metis option.inject prod.inject)
  then show ?thesis using manager_same[OF assms(3)] ok(2) by (auto simp: removal_def split: if_splits)
qed

lemma send_analysed_ok:
  assumes "send_possibility_analysed n os now remote batch_size buffer answers blocks thr d = Some d'" "thr < nb_files d" "manager_ok n d"
  shows "manager_ok n d' \<and> nb_files d' = nb_files d"
proof -
  have ok: "register_ok n d" "\<forall>p \<in># in_hands d. stock_packet n p" using assms(3) by (simp_all add: manager_ok_def)
  have s: "register_ok n d'" "same_files (d_stock d) (d_stock d')" "in_hands d' \<subseteq># in_hands d"
    using send_possibility_analysed_spec[OF ok(1) assms(2,1)] by simp_all
  have "\<forall>p \<in># in_hands d'. stock_packet n p" using s(3) ok(2) by (meson mset_subset_eqD)
  then show ?thesis by (rule manager_same[OF assms(3) s(1,2)])
qed

lemma reclaim_file_ok:
  assumes "reclaim_file n os now alive buffers grows f (tot, all, acc, d) = Some (tot', all', acc', d')" "manager_ok n d" "f < nb_files d"
  shows "manager_ok n d' \<and> nb_files d' = nb_files d"
proof -
  have ok: "register_ok n d" "\<forall>p \<in># in_hands d. stock_packet n p" "stock_ok n (d_stock d)" using assms(2) by (simp_all add: manager_ok_def)
  obtain ps dr where r: "fold_option (reclaim_bucket now alive f) [0..<ANALYSED_INDEX_BUCKETS] ([], d) = Some (ps, dr)" "releases n d ps dr"
    using reclaim_buckets_spec[OF assms(3) ok(1), of now alive "[0..<ANALYSED_INDEX_BUCKETS]" "[]"] by auto
  define buf where "buf = (if queue_of f d \<noteq> [] \<and> buffers f then ps else [])"
  define d1 where "d1 = (if queue_of f d \<noteq> [] \<and> buffers f then dr else d)"
  have c: "(if queue_of f d \<noteq> [] \<and> buffers f then fold_option (reclaim_bucket now alive f) [0..<ANALYSED_INDEX_BUCKETS] ([], d) else Some ([], d)) = Some (buf, d1)"
    using r(1) by (simp add: buf_def d1_def)
  have b: "releases n d buf d1" using r(2) releases_refl[OF ok(1)] by (simp add: buf_def d1_def)
  have put: "put_all_back n os buf d1 = Some d'" using assms(1) unfolding reclaim_file_def prod.case c option.case by (simp add: Let_def split: option.splits)
  have d1: "register_ok n d1" "d_stock d1 = d_stock d" "in_hands d = in_hands d1 + mset buf" using b by (simp_all add: releases_def)
  have "list_all (stock_packet n) buf" "\<forall>p \<in># in_hands d1. stock_packet n p" using ok(2) d1(3) by (auto simp: list_all_iff)
  then show ?thesis using put_all_back_sound[OF put] d1 ok(3) by (auto simp: sound_def manager_ok_def)
qed

lemma reclaim_ok:
  assumes "datamanager_reclaim_expired_leases n os now owner_alive buffers grows d = Some (k, d')" "manager_ok n d"
  shows "manager_ok n d' \<and> nb_files d' = nb_files d"
proof -
  obtain tot all acc d1 where r: "fold_option (reclaim_file n os now owner_alive buffers grows) [0..<nb_files d] (0, [], True, d) = Some (tot, all, acc, d1)"
    and d': "d' = (if acc \<and> all \<noteq> [] then snd (datamanager_purge_descendants_of n all d1) else d1)"
    using assms(1) by (auto simp: datamanager_reclaim_expired_leases_def)
  have "(\<lambda>(tot, all, acc, d1). manager_ok n d1 \<and> nb_files d1 = nb_files d) (tot, all, acc, d1)"
    by (rule fold_option_keeps[OF r]) (use assms(2) reclaim_file_ok in \<open>auto split: prod.splits\<close>)
  then have m: "manager_ok n d1" "nb_files d1 = nb_files d" by simp_all
  then show ?thesis using purge_spec[OF m(1), of all] d' by (auto split: if_splits)
qed

lemma restock_file_ok:
  assumes "restock_file n os buffers f d = Some d'" "manager_ok n d" "f < nb_files d"
  shows "manager_ok n d' \<and> nb_files d' = nb_files d"
proof (cases "queue_of f d = []")
  case True
  then show ?thesis using assms by (simp add: restock_file_def)
next
  case False
  have ok: "register_ok n d" "\<forall>p \<in># in_hands d. stock_packet n p" "stock_ok n (d_stock d)" using assms(2) by (simp_all add: manager_ok_def)
  let ?d = "analysed_index_clear f (set_queue f [] d)" and ?ps = "rev (map snd (queue_of f d))"
  have p: "put_all_back n os ?ps ?d = Some d'" using assms(1) False by (simp add: restock_file_def split: if_splits)
  have d1: "register_ok n ?d" "d_stock ?d = d_stock d" "in_hands d = in_hands ?d + mset ?ps"
    using cleared_releases[OF ok(1) assms(3)] by (simp_all add: releases_def)
  have "list_all (stock_packet n) ?ps" "\<forall>p \<in># in_hands ?d. stock_packet n p" using ok(2) unfolding d1(3) by (auto simp: list_all_iff)
  then show ?thesis using put_all_back_sound[OF p] d1 ok(3) by (auto simp: sound_def manager_ok_def)
qed

lemma restock_ok:
  assumes "restock_analysed n os buffers d = Some (r, d')" "manager_ok n d"
  shows "manager_ok n d' \<and> nb_files d' = nb_files d"
proof -
  have r: "fold_option (restock_file n os buffers) [0..<nb_files d] d = Some d'" using assms(1) by (auto simp: restock_analysed_def)
  show ?thesis by (rule fold_option_keeps[OF r]) (use assms(2) restock_file_ok in auto)
qed

lemma stock_step_ok: "manager_ok n d \<Longrightarrow> sound n (d_stock d) s \<Longrightarrow> manager_ok n (d\<lparr>d_stock := s\<rparr>) \<and> nb_files (d\<lparr>d_stock := s\<rparr>) = nb_files d"
  using manager_stock[of n d s] by (simp add: sound_def)

lemma manager_step_ok:
  assumes "manager_step n d d'" "manager_ok n d" "nb_small (d_stock d)"
  shows "manager_ok n d' \<and> nb_files d' = nb_files d"
proof -
  have ok: "stock_ok n (d_stock d)" using assms(2) by (simp add: manager_ok_def)
  show ?thesis using assms(1)
  proof (cases rule: manager_step.cases)
    case (serve os now block node_memory p thread owner r)
    then show ?thesis using serve_ok assms(2) by blast
  next
    case (acknowledge os key thread preferred_file r)
    then show ?thesis using acknowledge_ok assms(2) by blast
  next
    case (send os now remote batch_size buffer answers blocks thr)
    then show ?thesis using send_analysed_ok assms(2) by blast
  next
    case (reclaim os now owner_alive buffers grows k)
    then show ?thesis using reclaim_ok assms(2) by blast
  next
    case (restock os buffers r)
    then show ?thesis using restock_ok assms(2) by blast
  next
    case (purge origins k)
    then show ?thesis using purge_spec[OF assms(2), of origins] by auto
  next
    case (receive os now ps code s)
    obtain A L where "flows n os (d_stock d) A none L s" using put_to_local_flows[OF receive(3) ok assms(3) receive(2)] by blast
    then show ?thesis using receive(1) stock_step_ok[OF assms(2) flows_sound] by simp
  next
    case (take os now mx ps s)
    obtain P L where "flows n os (d_stock d) none P L s" using scroll_from_local_flows[OF ok take(2)] by blast
    then show ?thesis using take(1) stock_step_ok[OF assms(2) flows_sound] by simp
  next
    case (take_tocheck os now mx ps s)
    have "sound n (d_stock d) s" using extracted_ok[OF scroll_tocheck_extracted[OF ok take_tocheck(2)]] by (simp add: sound_def)
    then show ?thesis using take_tocheck(1) stock_step_ok[OF assms(2)] by simp
  next
    case (rebalance os max_packets m s)
    then show ?thesis using stock_step_ok[OF assms(2) rebalance_sound[OF rebalance(2) ok]] by simp
  next
    case (drain os c f max_packets ps s)
    then show ?thesis using stock_step_ok[OF assms(2) drain_head_sound(1)[OF ok drain(2)]] by simp
  next
    case (refill os c f ps m s)
    then show ?thesis using stock_step_ok[OF assms(2) refill_sound(1)[OF ok refill(2,3)]] by simp
  next
    case (drain_compact os c f cap max_records m raw s)
    then show ?thesis using stock_step_ok[OF assms(2) drain_head_sound(2)[OF ok drain_compact(2)]] by simp
  next
    case (refill_compact os c f rs m s)
    then show ?thesis using stock_step_ok[OF assms(2) refill_sound(2)[OF ok refill_compact(2,3)]] by simp
  qed
qed

lemma manager_reach_ok: "manager_reach n d \<Longrightarrow> manager_ok n d \<and> nb_small (d_stock d)"
proof (induction rule: manager_reach.induct)
  case (step d d')
  then show ?case using manager_step_ok[of n d d'] by (simp add: nb_small_def)
qed simp

section \<open>What a client holds\<close>

lemma fold_option_total:
  assumes "\<And>x a. x \<in> set xs \<Longrightarrow> \<exists>b. g x a = Some b"
  shows "\<exists>b. fold_option g xs a = Some b"
  using assms
proof (induction xs arbitrary: a)
  case (Cons x xs)
  obtain b where "g x a = Some b" using Cons.prems[of x a] by auto
  then show ?case using Cons.IH[of b] Cons.prems by auto
qed simp

lemma owned_by_total:
  assumes "register_ok n d"
  shows "\<exists>r. datamanager_analysed_owned_by uid d = Some r"
  unfolding datamanager_analysed_owned_by_def
proof (intro fold_option_total)
  fix f b node a assume "f \<in> set [0..<nb_files d]" "node \<in> set (analysed_index d f b)"
  then have f: "f < nb_files d" and node: "node \<in> set (analysed_index d f b)" by auto
  note rq = register_ok_queue[OF assms f]
  obtain p where "(an_element node, p) \<in> set (queue_of f d)" using rq(3) node by (auto simp: chains_ok_def)
  then have "map_of (queue_of f d) (an_element node) = Some p" using rq(2) by simp
  then show "\<exists>r. owned_in uid (queue_of f d) node a = Some r" by (cases a) (simp add: owned_in_def)
qed

section \<open>The properties\<close>

text \<open>C18. From a sound stock and an empty register, any sequence of the operations of \<open>manager_step\<close>
  (positions served, acknowledged, acknowledged to a server by batches, reclaimed, returned,
  purged, received, extracted, moved between queues, drained and refilled), in any order and
  whatever \<open>pthread_mutex_trylock\<close> and \<open>malloc\<close> answer, allocation failures included, leads to a
  state where every chain of the index points to live elements in the right bucket and every
  position in the hands of clients can be put back in the stock: acknowledging a position and
  asking what a client holds never read a freed element. Supposed: a block from \<open>malloc\<close> is not
  in use, thread numbers name a queue, received positions and records are encodable, a position
  served is one the stock can hold.\<close>

theorem manager_invariant:
  assumes "manager_reach n d"
  shows "manager_ok n d
    \<and> (\<forall>os key thread preferred_file. thread < int (nb_files d) \<longrightarrow> remove_possibility_analysed n os key thread preferred_file d \<noteq> None)
    \<and> datamanager_analysed_owned_by uid d \<noteq> None"
proof -
  have ok: "manager_ok n d" "register_ok n d" using manager_reach_ok[OF assms] by (simp_all add: manager_ok_def)
  have "remove_possibility_analysed n os key thread preferred_file d \<noteq> None" if "thread < int (nb_files d)" for os key thread preferred_file
    using removal_exists[OF ok(2) that] by (metis option.distinct(1))
  then show ?thesis using ok owned_by_total[OF ok(2)] by auto
qed

theorem manager_invariant_witness: "manager_reach 4 sample_register \<and> manager_ok 4 sample_register"
proof -
  have "manager_reach 4 empty_register"
    by (rule manager_reach.start) (use empty_register_ok sample_stock_ok in \<open>simp_all add: manager_ok_def empty_register_def\<close>)
  moreover obtain r d' where e: "add_possibility_analysed_impl 4 free_os 1000 16 True (Some sample_position) 1 (Some (replicate 16 7)) empty_register = (r, d')" by fastforce
  then have "manager_step 4 empty_register d'"
    by (rule manager_step.serve) (use sample_stock_packet empty_register_ok in simp_all)
  moreover have "sample_register = d'" using e by (simp add: sample_register_def add_possibility_analysed_owned_def)
  ultimately have "manager_reach 4 sample_register" using manager_reach.step by blast
  then show ?thesis using manager_invariant by blast
qed

end
