(* ===== verification/Net_Codecs.thy ===== *)
theory Net_Codecs
  imports Etii_Prelude
begin

text \<open>
  The payloads of the network protocol: the identity of a client and its hexadecimal form
  (\<open>client_identity.c\<close>), the announcement of a control session, its statistics and the classes of
  remote commands (\<open>control_protocol.c\<close>). Integers are copied byte by byte in the order of the
  machine, the least significant byte first.
\<close>

section \<open>Integers in a buffer\<close>

primrec le_bytes :: "nat \<Rightarrow> nat \<Rightarrow> u8 list" where
  "le_bytes 0 v = []"
| "le_bytes (Suc k) v = of_nat v # le_bytes k (v div 256)"

primrec le_value :: "u8 list \<Rightarrow> nat" where
  "le_value [] = 0"
| "le_value (b # bs) = unat b + 256 * le_value bs"

definition get_u32 :: "u8 list \<Rightarrow> u32" where "get_u32 bs = of_nat (le_value (take 4 bs))"
definition get_u64 :: "u8 list \<Rightarrow> u64" where "get_u64 bs = of_nat (le_value (take 8 bs))"

lemma length_le_bytes [simp]: "length (le_bytes k v) = k"
  by (induction k arbitrary: v) simp_all

lemma le_roundtrip: "v < 256 ^ k \<Longrightarrow> le_value (le_bytes k v) = v"
proof (induction k arbitrary: v)
  case (Suc k)
  have "v div 256 < 256 ^ k" using Suc.prems by (simp add: less_mult_imp_div_less mult.commute)
  from Suc.IH[OF this] show ?case by (simp add: unat_of_nat)
qed simp

lemma get_u32_le [simp]: "get_u32 (le_bytes 4 (unat w) @ rest) = w" for w :: u32
  using le_roundtrip[of "unat w" 4] unsigned_less[where 'a = nat, of w] by (simp add: get_u32_def)

lemma get_u64_le [simp]: "get_u64 (le_bytes 8 (unat w) @ rest) = w" for w :: u64
  using le_roundtrip[of "unat w" 8] unsigned_less[where 'a = nat, of w] by (simp add: get_u64_def)

section \<open>The identity of a client\<close>

definition MACHINE_UID_BYTES :: nat where "MACHINE_UID_BYTES = 16"
definition CLIENT_UID_BYTES :: nat where "CLIENT_UID_BYTES = 16"
definition CLIENT_LABEL_MAX :: nat where "CLIENT_LABEL_MAX = 32"
definition CLIENT_IDENTITY_WIRE_MIN_SIZE :: nat where
  "CLIENT_IDENTITY_WIRE_MIN_SIZE = MACHINE_UID_BYTES + CLIENT_UID_BYTES + 4 + 1 + 1"
definition CLIENT_IDENTITY_WIRE_MAX_SIZE :: nat where
  "CLIENT_IDENTITY_WIRE_MAX_SIZE = CLIENT_IDENTITY_WIRE_MIN_SIZE + (CLIENT_LABEL_MAX - 1)"

text \<open>The label is the whole array; its text is what precedes the first null byte.\<close>

record client_identity =
  machine_uid :: "u8 list"
  client_uid :: "u8 list"
  fork_seq :: u32
  cmode :: u8
  label :: "u8 list"

definition c_string :: "u8 list \<Rightarrow> u8 list" where
  "c_string bs = takeWhile (\<lambda>b. b \<noteq> 0) bs"

definition strnlen :: "u8 list \<Rightarrow> nat \<Rightarrow> nat" where
  "strnlen bs k = length (c_string (take k bs))"

definition client_identity_encode :: "client_identity \<Rightarrow> nat \<Rightarrow> u8 list option" where
  "client_identity_encode who bufsize =
     (let label_len = strnlen (label who) (CLIENT_LABEL_MAX - 1) in
      if bufsize < CLIENT_IDENTITY_WIRE_MIN_SIZE + label_len then None
      else Some (machine_uid who @ client_uid who @ le_bytes 4 (unat (fork_seq who)) @ [cmode who] @ [of_nat label_len] @ take label_len (label who)))"

text \<open>The fields are written one after the other, before the length of the label is tested: \<open>False\<close>
  with what has been written is the answer -1.\<close>

definition client_identity_decode :: "u8 list \<Rightarrow> client_identity \<Rightarrow> bool \<times> client_identity" where
  "client_identity_decode buf out =
     (if length buf < CLIENT_IDENTITY_WIRE_MIN_SIZE then (False, out)
      else (let out1 = out\<lparr>machine_uid := take 16 buf, client_uid := take 16 (drop 16 buf), fork_seq := get_u32 (drop 32 buf), cmode := buf ! 36\<rparr>;
                label_len = unat (buf ! 37)
            in if label_len > CLIENT_LABEL_MAX - 1 then (False, out1)
               else if CLIENT_IDENTITY_WIRE_MIN_SIZE + label_len > length buf then (False, out1)
               else (True, out1\<lparr>label := (take label_len (drop 38 buf) @ drop label_len (label out1))[label_len := 0]\<rparr>)))"

section \<open>Hexadecimal form\<close>

definition hex_digits :: string where "hex_digits = ''0123456789abcdef''"

definition client_identity_hex_encode :: "u8 list \<Rightarrow> nat \<Rightarrow> string option" where
  "client_identity_hex_encode bytes out_size =
     (if out_size < 2 * length bytes + 1 then None
      else Some (concat (map (\<lambda>b. [hex_digits ! unat (drop_bit 4 b AND 15), hex_digits ! unat (b AND 15)]) bytes)))"

definition hex_nibble :: "char \<Rightarrow> int" where
  "hex_nibble c =
     (let v = of_char c :: int in
      if 48 \<le> v \<and> v \<le> 57 then v - 48
      else if 97 \<le> v \<and> v \<le> 102 then v - 97 + 10
      else if 65 \<le> v \<and> v \<le> 70 then v - 65 + 10
      else -1)"

fun hex_pairs :: "string \<Rightarrow> u8 list option" where
  "hex_pairs (h # l # cs) =
     (if hex_nibble h < 0 \<or> hex_nibble l < 0 then None
      else map_option ((#) (of_int (hex_nibble h * 16 + hex_nibble l))) (hex_pairs cs))"
| "hex_pairs _ = Some []"

definition client_identity_hex_decode :: "string \<Rightarrow> nat \<Rightarrow> u8 list option" where
  "client_identity_hex_decode hex n = (if length hex \<noteq> 2 * n then None else hex_pairs hex)"

section \<open>Control sessions\<close>

record control_hello =
  h_pid :: u32
  h_nb_forks :: u32
  h_identity :: client_identity

definition control_hello_encode :: "control_hello \<Rightarrow> nat \<Rightarrow> u8 list option" where
  "control_hello_encode hello bufsize =
     (if bufsize < 4 + 4 then None
      else map_option (\<lambda>bytes. le_bytes 4 (unat (h_pid hello)) @ le_bytes 4 (unat (h_nb_forks hello)) @ bytes)
             (client_identity_encode (h_identity hello) (bufsize - 8)))"

definition control_hello_decode :: "u8 list \<Rightarrow> control_hello \<Rightarrow> bool \<times> control_hello" where
  "control_hello_decode buf out =
     (if length buf < 4 + 4 then (False, out)
      else (let (ok, who) = client_identity_decode (drop 8 buf) (h_identity out)
            in (ok, out\<lparr>h_pid := get_u32 buf, h_nb_forks := get_u32 (drop 4 buf), h_identity := who\<rparr>)))"

definition CONTROL_STATS_WIRE_SIZE :: nat where "CONTROL_STATS_WIRE_SIZE = 8 * 7"

record control_stats =
  shots_per_second :: u64
  possibility_stock :: u64
  analysed_stock :: u64
  cs_max_result :: u64
  pruner_checked :: u64
  pruner_removed :: u64
  pruner_cells_per_second :: u64

definition control_stats_encode :: "control_stats \<Rightarrow> u8 list" where
  "control_stats_encode stats =
     le_bytes 8 (unat (shots_per_second stats)) @ le_bytes 8 (unat (possibility_stock stats)) @ le_bytes 8 (unat (analysed_stock stats))
     @ le_bytes 8 (unat (cs_max_result stats)) @ le_bytes 8 (unat (pruner_checked stats)) @ le_bytes 8 (unat (pruner_removed stats))
     @ le_bytes 8 (unat (pruner_cells_per_second stats))"

definition control_stats_decode :: "u8 list \<Rightarrow> control_stats option" where
  "control_stats_decode buf =
     (if length buf < CONTROL_STATS_WIRE_SIZE then None
      else Some \<lparr>shots_per_second = get_u64 buf, possibility_stock = get_u64 (drop 8 buf), analysed_stock = get_u64 (drop 16 buf),
                 cs_max_result = get_u64 (drop 24 buf), pruner_checked = get_u64 (drop 32 buf), pruner_removed = get_u64 (drop 40 buf),
                 pruner_cells_per_second = get_u64 (drop 48 buf)\<rparr>)"

section \<open>Classes of commands\<close>

datatype control_command_class = CTRL_CMD_UNKNOWN | CTRL_CMD_READ_ONLY | CTRL_CMD_WRITE_RELAYABLE | CTRL_CMD_WRITE_SERVER_ONLY

definition g_command_table :: "(string \<times> control_command_class) list" where
  "g_command_table =
     [(''clientsWork'', CTRL_CMD_READ_ONLY), (''pause'', CTRL_CMD_WRITE_RELAYABLE), (''resume'', CTRL_CMD_WRITE_RELAYABLE),
      (''limit'', CTRL_CMD_WRITE_RELAYABLE), (''maxStockByThread'', CTRL_CMD_WRITE_RELAYABLE),
      (''shallowRootAbandonDepth'', CTRL_CMD_WRITE_RELAYABLE), (''prunerBatch'', CTRL_CMD_WRITE_RELAYABLE),
      (''prunerDfsBudget'', CTRL_CMD_WRITE_RELAYABLE), (''clientsCommand'', CTRL_CMD_WRITE_RELAYABLE),
      (''clientsCmd'', CTRL_CMD_WRITE_RELAYABLE), (''clientsRoles'', CTRL_CMD_WRITE_RELAYABLE), (''start'', CTRL_CMD_WRITE_RELAYABLE),
      (''stopForks'', CTRL_CMD_WRITE_RELAYABLE), (''configApply'', CTRL_CMD_WRITE_RELAYABLE), (''config'', CTRL_CMD_WRITE_RELAYABLE),
      (''configSave'', CTRL_CMD_WRITE_RELAYABLE), (''restore'', CTRL_CMD_WRITE_SERVER_ONLY), (''backup'', CTRL_CMD_WRITE_SERVER_ONLY),
      (''sortAsc'', CTRL_CMD_WRITE_SERVER_ONLY), (''sortAscFiles'', CTRL_CMD_WRITE_SERVER_ONLY), (''sortDesc'', CTRL_CMD_WRITE_SERVER_ONLY),
      (''sortDescFiles'', CTRL_CMD_WRITE_SERVER_ONLY), (''sortDescMulti'', CTRL_CMD_WRITE_SERVER_ONLY), (''split'', CTRL_CMD_WRITE_SERVER_ONLY),
      (''regroup'', CTRL_CMD_WRITE_SERVER_ONLY), (''rebalance'', CTRL_CMD_WRITE_SERVER_ONLY), (''stockMaxRam'', CTRL_CMD_WRITE_SERVER_ONLY),
      (''spill'', CTRL_CMD_WRITE_SERVER_ONLY)]"

definition first_word :: "string \<Rightarrow> string" where
  "first_word line = takeWhile (\<lambda>c. c \<noteq> CHR '' '') line"

definition control_command_classify :: "string option \<Rightarrow> control_command_class" where
  "control_command_classify command_name =
     (case command_name of None \<Rightarrow> CTRL_CMD_UNKNOWN
      | Some line \<Rightarrow>
          (if first_word line = [] then CTRL_CMD_UNKNOWN
           else (case find (\<lambda>(name, cls). name = first_word line) g_command_table of None \<Rightarrow> CTRL_CMD_UNKNOWN | Some (_, cls) \<Rightarrow> cls)))"

definition control_command_allowed :: "string option \<Rightarrow> bool" where
  "control_command_allowed command_name \<longleftrightarrow>
     (let cls = control_command_classify command_name in cls = CTRL_CMD_READ_ONLY \<or> cls = CTRL_CMD_WRITE_RELAYABLE)"

definition control_command_privileged :: "string option \<Rightarrow> bool" where
  "control_command_privileged command_name \<longleftrightarrow> control_command_classify command_name = CTRL_CMD_WRITE_SERVER_ONLY"

definition control_command_read_only :: "string option \<Rightarrow> bool" where
  "control_command_read_only command_name \<longleftrightarrow> control_command_classify command_name = CTRL_CMD_READ_ONLY"

definition control_command_enumerate :: "nat \<Rightarrow> (string \<times> control_command_class) list" where
  "control_command_enumerate mx = take mx g_command_table"

section \<open>Round trips\<close>

definition identity_ok :: "client_identity \<Rightarrow> bool" where
  "identity_ok who \<longleftrightarrow> length (machine_uid who) = 16 \<and> length (client_uid who) = 16 \<and> length (label who) = 32"

text \<open>The label of the sender without what follows its text, in the array of the receiver.\<close>

definition received_label :: "u8 list \<Rightarrow> u8 list \<Rightarrow> u8 list" where
  "received_label sent array = (let text = c_string (take 31 sent) in (text @ drop (length text) array)[length text := 0])"

lemma c_string_received:
  assumes "length array = 32"
  shows "c_string (received_label sent array) = c_string (take 31 sent)"
proof -
  define t where "t = c_string (take 31 sent)"
  have l: "length t \<le> 31" unfolding t_def c_string_def by (rule order.trans[OF length_takeWhile_le]) simp
  have nz: "\<forall>b \<in> set t. b \<noteq> 0" unfolding t_def c_string_def by (auto dest: set_takeWhileD)
  obtain x xs where d: "drop (length t) array = x # xs" using l assms by (cases "drop (length t) array") auto
  then have "received_label sent array = t @ 0 # xs" by (simp add: received_label_def Let_def t_def[symmetric])
  moreover have "c_string (t @ 0 # xs) = t" using nz by (simp add: c_string_def takeWhile_append2)
  ultimately show ?thesis by (simp add: t_def)
qed

lemma identity_decode_encode:
  assumes "identity_ok who" "client_identity_encode who bufsize = Some bytes"
  shows "client_identity_decode (bytes @ rest) out = (True, who\<lparr>label := received_label (label who) (label out)\<rparr>)"
proof -
  define t where "t = c_string (take 31 (label who))"
  have tl: "length t \<le> 31" unfolding t_def c_string_def by (rule order.trans[OF length_takeWhile_le]) simp
  have tt: "take (length t) (label who) = t"
    unfolding t_def c_string_def by (metis takeWhile_eq_take length_takeWhile_le min.absorb1 min.cobounded2 take_take length_take takeWhile_eq_take)
  have b: "bytes = machine_uid who @ client_uid who @ le_bytes 4 (unat (fork_seq who)) @ [cmode who] @ [of_nat (length t)] @ t"
    using assms(2) tt by (simp add: client_identity_encode_def strnlen_def CLIENT_LABEL_MAX_def t_def[symmetric] Let_def split: if_splits)
  have o: "length (machine_uid who) = 16" "length (client_uid who) = 16" using assms(1) by (simp_all add: identity_ok_def)
  let ?buf = "bytes @ rest" and ?l4 = "le_bytes 4 (unat (fork_seq who))"
  have t: "take 16 ?buf = machine_uid who" "take 16 (drop 16 ?buf) = client_uid who" "?buf ! 36 = cmode who" "?buf ! 37 = of_nat (length t)"
    "take (length t) (drop 38 ?buf) = t" "length ?buf = 38 + length t + length rest"
    unfolding b using o by (simp_all add: nth_append)
  have "drop 32 ?buf = ?l4 @ [cmode who] @ [of_nat (length t)] @ t @ rest" unfolding b using o by simp
  then have f: "get_u32 (drop 32 ?buf) = fork_seq who" by (metis get_u32_le append.assoc)
  have n: "unat (of_nat (length t) :: u8) = length t" using tl by (simp add: unat_of_nat)
  have lab: "(t @ drop (length t) (label out))[length t := 0] = received_label (label who) (label out)"
    by (simp add: received_label_def Let_def t_def)
  have "client_identity_decode ?buf out = (True, out\<lparr>machine_uid := machine_uid who, client_uid := client_uid who, fork_seq := fork_seq who,
      cmode := cmode who, label := received_label (label who) (label out)\<rparr>)"
    unfolding client_identity_decode_def Let_def t f n using tl
    by (simp add: CLIENT_IDENTITY_WIRE_MIN_SIZE_def MACHINE_UID_BYTES_def CLIENT_UID_BYTES_def CLIENT_LABEL_MAX_def lab)
  then show ?thesis by simp
qed

lemma stats_roundtrip: "control_stats_decode (control_stats_encode stats @ rest) = Some stats"
  by (simp add: control_stats_decode_def control_stats_encode_def CONTROL_STATS_WIRE_SIZE_def)

lemma hello_roundtrip:
  assumes "identity_ok (h_identity hello)" "control_hello_encode hello bufsize = Some bytes"
  shows "control_hello_decode (bytes @ rest) out
    = (True, hello\<lparr>h_identity := (h_identity hello)\<lparr>label := received_label (label (h_identity hello)) (label (h_identity out))\<rparr>\<rparr>)"
proof -
  obtain idb where i: "client_identity_encode (h_identity hello) (bufsize - 8) = Some idb"
    and b: "bytes = le_bytes 4 (unat (h_pid hello)) @ le_bytes 4 (unat (h_nb_forks hello)) @ idb"
    using assms(2) by (auto simp: control_hello_encode_def split: if_splits)
  have "drop 8 (bytes @ rest) = idb @ rest" "get_u32 (bytes @ rest) = h_pid hello" "get_u32 (drop 4 (bytes @ rest)) = h_nb_forks hello"
    unfolding b by simp_all
  then show ?thesis using identity_decode_encode[OF assms(1) i, of rest "h_identity out"] b by (simp add: control_hello_decode_def)
qed

lemma hex_digit_nibble: "v < 16 \<Longrightarrow> hex_nibble (hex_digits ! v) = int v"
  by (simp add: less_Suc_eq numeral_eq_Suc) (elim disjE; simp add: hex_digits_def hex_nibble_def)

lemma unat_low: "unat (x AND 15) = unat x mod 16" for x :: u8
proof -
  have "x AND 15 = take_bit 4 x" by (simp add: take_bit_eq_mask mask_eq_exp_minus_1)
  then show ?thesis by (simp add: take_bit_eq_mod unat_mod)
qed

lemma hex_byte:
  fixes b :: u8
  shows "(drop_bit 4 b AND 15) * 16 + (b AND 15) = b"
proof -
  have "unat b < 256" using unsigned_less[where 'a = nat, of b] by simp
  then have "unat b div 16 mod 16 * 16 + unat b mod 16 = unat b" by simp
  moreover have "unat (drop_bit 4 b AND 15) = unat b div 16 mod 16" by (simp add: unat_low drop_bit_eq_div unsigned_drop_bit_eq unat_div)
  ultimately have "unat (drop_bit 4 b AND 15) * 16 + unat (b AND 15) = unat b" using unat_low[of b] by simp
  then have "(of_nat (unat (drop_bit 4 b AND 15) * 16 + unat (b AND 15)) :: u8) = of_nat (unat b)" by simp
  then show ?thesis by simp
qed

lemma hex_roundtrip:
  assumes "client_identity_hex_encode bytes out_size = Some hex"
  shows "client_identity_hex_decode hex (length bytes) = Some bytes" "length hex = 2 * length bytes"
proof -
  let ?h = "\<lambda>b :: u8. [hex_digits ! unat (drop_bit 4 b AND 15), hex_digits ! unat (b AND 15)]"
  have h: "hex = concat (map ?h bytes)" using assms by (simp add: client_identity_hex_encode_def split: if_splits)
  show l: "length hex = 2 * length bytes" unfolding h by (induction bytes) simp_all
  have small: "unat (x AND 15) < 16" for x :: u8 by (simp add: unat_low)
  have "hex_pairs (concat (map ?h bs)) = Some bs" for bs
    by (induction bs) (simp_all add: hex_digit_nibble[OF small] hex_byte)
  then show "client_identity_hex_decode hex (length bytes) = Some bytes" using l by (simp add: client_identity_hex_decode_def h)
qed


text \<open>C28. What a client announces is what the server reads: the identity, with the text of its label, the
  process and the number of forks; statistics come back unchanged, and the hexadecimal form of
  an identifier is read back.\<close>

theorem control_payload_roundtrip:
  assumes "identity_ok (h_identity hello)" "length (label (h_identity out)) = 32" "control_hello_encode hello bufsize = Some bytes"
    and "client_identity_hex_encode (client_uid (h_identity hello)) out_size = Some hex"
  shows "(\<exists>got. control_hello_decode (bytes @ rest) out = (True, got) \<and> got = hello\<lparr>h_identity := (h_identity hello)\<lparr>label := label (h_identity got)\<rparr>\<rparr>
        \<and> c_string (label (h_identity got)) = c_string (take 31 (label (h_identity hello))))
    \<and> client_identity_hex_decode hex CLIENT_UID_BYTES = Some (client_uid (h_identity hello))
    \<and> control_stats_decode (control_stats_encode stats @ rest) = Some stats"
proof (intro conjI)
  show "control_stats_decode (control_stats_encode stats @ rest) = Some stats" by (rule stats_roundtrip)
  show "client_identity_hex_decode hex CLIENT_UID_BYTES = Some (client_uid (h_identity hello))"
    using hex_roundtrip(1)[OF assms(4)] assms(1) by (simp add: identity_ok_def CLIENT_UID_BYTES_def)
  show "\<exists>got. control_hello_decode (bytes @ rest) out = (True, got) \<and> got = hello\<lparr>h_identity := (h_identity hello)\<lparr>label := label (h_identity got)\<rparr>\<rparr>
      \<and> c_string (label (h_identity got)) = c_string (take 31 (label (h_identity hello)))"
    using hello_roundtrip[OF assms(1,3), of rest out] c_string_received[OF assms(2)] by auto
qed

definition sample_hello :: control_hello where
  "sample_hello = \<lparr>h_pid = 4242, h_nb_forks = 8, h_identity = \<lparr>machine_uid = replicate 16 171, client_uid = replicate 16 7, fork_seq = -1,
     cmode = 1, label = [98, 111, 120] @ replicate 29 0\<rparr>\<rparr>"

theorem control_payload_roundtrip_witness:
  "\<exists>bytes hex got. control_hello_encode sample_hello 77 = Some bytes \<and> control_hello_decode bytes sample_hello = (True, got)
    \<and> client_uid (h_identity got) = replicate 16 7 \<and> c_string (label (h_identity got)) = [98, 111, 120]
    \<and> client_identity_hex_encode (replicate 16 7) 33 = Some hex \<and> client_identity_hex_decode hex CLIENT_UID_BYTES = Some (replicate 16 7)"
proof -
  have ok: "identity_ok (h_identity sample_hello)" "length (label (h_identity sample_hello)) = 32" by (simp_all add: identity_ok_def sample_hello_def)
  obtain bytes where b: "control_hello_encode sample_hello 77 = Some bytes"
    by (simp add: control_hello_encode_def client_identity_encode_def sample_hello_def strnlen_def c_string_def CLIENT_LABEL_MAX_def
        CLIENT_IDENTITY_WIRE_MIN_SIZE_def MACHINE_UID_BYTES_def CLIENT_UID_BYTES_def Let_def)
  have u: "client_uid (h_identity sample_hello) = replicate 16 7" "c_string (take 31 (label (h_identity sample_hello))) = [98, 111, 120]"
    by (simp_all add: sample_hello_def c_string_def)
  obtain hex where h: "client_identity_hex_encode (client_uid (h_identity sample_hello)) 33 = Some hex" by (simp add: client_identity_hex_encode_def u)
  obtain got where g: "control_hello_decode bytes sample_hello = (True, got)"
      "got = sample_hello\<lparr>h_identity := (h_identity sample_hello)\<lparr>label := label (h_identity got)\<rparr>\<rparr>"
      "c_string (label (h_identity got)) = [98, 111, 120]"
    using control_payload_roundtrip[OF ok b h, of "[]"] u(2) by auto
  have "client_uid (h_identity got) = replicate 16 7" using arg_cong[OF g(2), of "\<lambda>h. client_uid (h_identity h)"] u(1) by simp
  then show ?thesis using b h g u(1) control_payload_roundtrip[OF ok b h] by auto
qed

end
