(* ===== verification/Control_Registry.thy ===== *)
theory Control_Registry
  imports Net_Codecs
begin

text \<open>
  The control sessions of the server (\<open>control_registry.c\<close>): a table of sessions, each with a ring
  of commands to send, the wished pause and the wished share of pruners per machine. Locks are
  not modelled; waiting for a command of an empty ring is answered by the clock, an argument.
\<close>

section \<open>The state\<close>

definition MAX_CONTROL_SESSIONS :: nat where "MAX_CONTROL_SESSIONS = 64"
definition MAX_KNOWN_CLIENTS :: nat where "MAX_KNOWN_CLIENTS = 4 * MAX_CONTROL_SESSIONS"
definition CONTROL_SESSION_QUEUE_CAP :: nat where "CONTROL_SESSION_QUEUE_CAP = 16"
definition CONTROL_COMMAND_LINE_MAX :: nat where "CONTROL_COMMAND_LINE_MAX = 256"
definition PEER_IP_MAX_LEN :: nat where "PEER_IP_MAX_LEN = 46"
definition CTRL_GET_STATS :: u8 where "CTRL_GET_STATS = 3"
definition CTRL_COMMAND :: u8 where "CTRL_COMMAND = 5"

record control_pending_command =
  pc_cmd :: u8
  pc_line :: string

record control_session =
  in_use :: bool
  socket_id :: int
  session_no :: u64
  peer_ip :: string
  s_hello :: control_hello
  last_activity :: int
  s_queue :: "control_pending_command list"
  s_head :: nat
  s_count :: nat
  has_stats :: bool
  s_stats :: control_stats
  stats_time :: int
  last_auto_poll_attempt :: int

record desired_role =
  dr_in_use :: bool
  dr_machine_uid :: "u8 list"
  dr_pruner_forks :: int

record registry =
  g_sessions :: "control_session list"
  g_next_session_no :: u64
  g_desired_pause_state :: bool
  g_desired_roles :: "desired_role list"

text \<open>The first index that satisfies a predicate, -1 when there is none.\<close>

definition first_index :: "('a \<Rightarrow> bool) \<Rightarrow> 'a list \<Rightarrow> nat option" where
  "first_index P xs = find (\<lambda>i. P (xs ! i)) [0..<length xs]"

definition set_session :: "nat \<Rightarrow> control_session \<Rightarrow> registry \<Rightarrow> registry" where
  "set_session i s r = r\<lparr>g_sessions := (g_sessions r)[i := s]\<rparr>"

section \<open>Wished share of pruners\<close>

definition desired_role_find_locked :: "u8 list \<Rightarrow> registry \<Rightarrow> nat option" where
  "desired_role_find_locked uid r = first_index (\<lambda>d. dr_in_use d \<and> dr_machine_uid d = uid) (g_desired_roles r)"

definition desired_role_set_locked :: "u8 list \<Rightarrow> int \<Rightarrow> registry \<Rightarrow> registry" where
  "desired_role_set_locked uid pruner_forks r =
     (case desired_role_find_locked uid r of
        Some i \<Rightarrow> r\<lparr>g_desired_roles := (g_desired_roles r)[i := (g_desired_roles r ! i)\<lparr>dr_pruner_forks := pruner_forks\<rparr>]\<rparr>
      | None \<Rightarrow>
          (case first_index (\<lambda>d. \<not> dr_in_use d) (g_desired_roles r) of
             None \<Rightarrow> r
           | Some i \<Rightarrow> r\<lparr>g_desired_roles := (g_desired_roles r)[i := \<lparr>dr_in_use = True, dr_machine_uid = uid, dr_pruner_forks = pruner_forks\<rparr>]\<rparr>))"

definition control_registry_desired_pruner_forks :: "u8 list \<Rightarrow> registry \<Rightarrow> int" where
  "control_registry_desired_pruner_forks uid r =
     (case desired_role_find_locked uid r of None \<Rightarrow> -1 | Some i \<Rightarrow> dr_pruner_forks (g_desired_roles r ! i))"

section \<open>Commands\<close>

definition copy_bounded_command_line :: "string \<Rightarrow> string" where
  "copy_bounded_command_line source = take (CONTROL_COMMAND_LINE_MAX - 1) source"

definition command_line_first_word_is :: "string option \<Rightarrow> string \<Rightarrow> bool" where
  "command_line_first_word_is line word =
     (case line of None \<Rightarrow> False
      | Some l \<Rightarrow> take (length word) l = word \<and> (length l = length word \<or> (length word < length l \<and> l ! length word = CHR '' '')))"

definition append_command :: "u8 \<Rightarrow> string \<Rightarrow> control_session \<Rightarrow> control_session" where
  "append_command cmd line s =
     s\<lparr>s_queue := (s_queue s)[(s_head s + s_count s) mod CONTROL_SESSION_QUEUE_CAP := \<lparr>pc_cmd = cmd, pc_line = line\<rparr>],
       s_count := Suc (s_count s)\<rparr>"

definition control_registry_post_command :: "int \<Rightarrow> int \<Rightarrow> u8 \<Rightarrow> string option \<Rightarrow> registry \<Rightarrow> int \<times> registry" where
  "control_registry_post_command now index cmd command_line r =
     (if index < 0 \<or> index \<ge> int MAX_CONTROL_SESSIONS then (-1, r)
      else (let s = g_sessions r ! nat index in
        if in_use s \<and> s_count s < CONTROL_SESSION_QUEUE_CAP
        then (0, set_session (nat index)
                ((append_command cmd (case command_line of None \<Rightarrow> [] | Some l \<Rightarrow> copy_bounded_command_line l) s)\<lparr>last_activity := now\<rparr>) r)
        else (-1, r)))"

text \<open>\<open>waited\<close> is what \<open>pthread_cond_timedwait\<close> answers when the ring is empty: 1 for a time out, -1
  for an error.\<close>

definition control_registry_wait_command :: "int \<Rightarrow> nat \<Rightarrow> int \<Rightarrow> registry \<Rightarrow> int \<times> (u8 \<times> string) option \<times> registry" where
  "control_registry_wait_command index bufsize waited r =
     (if index < 0 \<or> index \<ge> int MAX_CONTROL_SESSIONS then (-1, None, r)
      else (let s = g_sessions r ! nat index in
        if \<not> in_use s then (-1, None, r)
        else if s_count s = 0 then (waited, None, r)
        else (let front = s_queue s ! s_head s
              in (0, Some (pc_cmd front, if bufsize > 0 then take (bufsize - 1) (pc_line front) else []),
                  set_session (nat index) (s\<lparr>s_head := (s_head s + 1) mod CONTROL_SESSION_QUEUE_CAP, s_count := s_count s - 1\<rparr>) r))))"

section \<open>Sessions\<close>

text \<open>Decimal notation, for \<open>snprintf\<close> of an \<open>int\<close>.\<close>

function show_nat :: "nat \<Rightarrow> string" where
  "show_nat k = (if k < 10 then [char_of (48 + k)] else show_nat (k div 10) @ [char_of (48 + k mod 10)])"
  by pat_completeness auto
termination by (relation "measure (\<lambda>k. k)") auto

declare show_nat.simps [simp del]

definition show_int :: "int \<Rightarrow> string" where
  "show_int i = (if i < 0 then CHR ''-'' # show_nat (nat (- i)) else show_nat (nat i))"

definition config_line :: "int \<Rightarrow> string" where
  "config_line pruner_forks = ''config pruner_forks '' @ show_int pruner_forks"

text \<open>A session begins with an empty ring, in which the wished state is then posted.\<close>

definition start_session :: "int \<Rightarrow> int \<Rightarrow> string option \<Rightarrow> control_hello \<Rightarrow> u64 \<Rightarrow> control_session \<Rightarrow> control_session" where
  "start_session now sock ip h no s =
     s\<lparr>in_use := True, socket_id := sock, session_no := no, peer_ip := (case ip of None \<Rightarrow> [] | Some a \<Rightarrow> take (PEER_IP_MAX_LEN - 1) a),
       s_hello := h, last_activity := now, s_head := 0, s_count := 0, has_stats := False, last_auto_poll_attempt := now\<rparr>"

definition post_wishes :: "registry \<Rightarrow> control_hello \<Rightarrow> control_session \<Rightarrow> control_session" where
  "post_wishes r h s0 =
     (let s1 = (if g_desired_pause_state r then append_command CTRL_COMMAND (copy_bounded_command_line ''pause'') s0 else s0)
      in case desired_role_find_locked (machine_uid (h_identity h)) r of
           None \<Rightarrow> s1
         | Some d \<Rightarrow>
             if s_count s1 + 2 \<le> CONTROL_SESSION_QUEUE_CAP
             then append_command CTRL_COMMAND (copy_bounded_command_line ''configApply'')
                    (append_command CTRL_COMMAND (copy_bounded_command_line (config_line (dr_pruner_forks (g_desired_roles r ! d)))) s1)
             else s1)"

definition control_registry_register :: "int \<Rightarrow> int \<Rightarrow> string option \<Rightarrow> control_hello option \<Rightarrow> registry \<Rightarrow> int \<times> registry" where
  "control_registry_register now sock ip hello r =
     (case hello of None \<Rightarrow> (-1, r)
      | Some h \<Rightarrow>
          (case first_index (\<lambda>s. \<not> in_use s) (g_sessions r) of
             None \<Rightarrow> (-1, r)
           | Some i \<Rightarrow>
               (int i, (set_session i (post_wishes r h (start_session now sock ip h (g_next_session_no r) (g_sessions r ! i))) r)
                         \<lparr>g_next_session_no := g_next_session_no r + 1\<rparr>)))"

definition control_registry_unregister :: "int \<Rightarrow> registry \<Rightarrow> registry" where
  "control_registry_unregister index r =
     (if index < 0 \<or> index \<ge> int MAX_CONTROL_SESSIONS then r
      else set_session (nat index)
             ((g_sessions r ! nat index)\<lparr>in_use := False, socket_id := -1, s_head := 0, s_count := 0, has_stats := False\<rparr>) r)"

definition control_registry_touch :: "int \<Rightarrow> int \<Rightarrow> registry \<Rightarrow> registry" where
  "control_registry_touch now index r =
     (if index < 0 \<or> index \<ge> int MAX_CONTROL_SESSIONS then r
      else (let s = g_sessions r ! nat index in if in_use s then set_session (nat index) (s\<lparr>last_activity := now\<rparr>) r else r))"

definition control_registry_count :: "registry \<Rightarrow> nat" where
  "control_registry_count r = length (filter in_use (g_sessions r))"

definition control_registry_get_identity :: "int \<Rightarrow> registry \<Rightarrow> client_identity option" where
  "control_registry_get_identity index r =
     (if index < 0 \<or> index \<ge> int MAX_CONTROL_SESSIONS then None
      else (let s = g_sessions r ! nat index in if in_use s then Some (h_identity (s_hello s)) else None))"

definition control_registry_record_stats :: "int \<Rightarrow> int \<Rightarrow> control_stats option \<Rightarrow> registry \<Rightarrow> registry" where
  "control_registry_record_stats now index stats r =
     (case stats of None \<Rightarrow> r
      | Some st \<Rightarrow>
          (if index < 0 \<or> index \<ge> int MAX_CONTROL_SESSIONS then r
           else (let s = g_sessions r ! nat index in
             if in_use s then set_session (nat index) (s\<lparr>s_stats := st, stats_time := now, has_stats := True\<rparr>) r else r)))"

definition control_registry_has_active_client :: "u8 list \<Rightarrow> registry \<Rightarrow> bool" where
  "control_registry_has_active_client uid r \<longleftrightarrow> list_ex (\<lambda>s. in_use s \<and> client_uid (h_identity (s_hello s)) = uid) (g_sessions r)"

definition control_registry_auto_stats_due :: "int \<Rightarrow> int \<Rightarrow> int \<Rightarrow> registry \<Rightarrow> bool \<times> registry" where
  "control_registry_auto_stats_due now index interval_sec r =
     (if index < 0 \<or> index \<ge> int MAX_CONTROL_SESSIONS \<or> interval_sec \<le> 0 then (False, r)
      else (let s = g_sessions r ! nat index in
        if in_use s \<and> now - last_auto_poll_attempt s \<ge> interval_sec
        then (True, set_session (nat index) (s\<lparr>last_auto_poll_attempt := now\<rparr>) r) else (False, r)))"

section \<open>Broadcast and targets\<close>

definition post_if_in_use :: "int \<Rightarrow> u8 \<Rightarrow> string option \<Rightarrow> nat \<Rightarrow> nat \<times> registry \<Rightarrow> nat \<times> registry" where
  "post_if_in_use now cmd line i = (\<lambda>(n, r).
     if in_use (g_sessions r ! i)
     then (let (result, r') = control_registry_post_command now (int i) cmd line r in (if result = 0 then Suc n else n, r'))
     else (n, r))"

definition control_registry_broadcast_command :: "int \<Rightarrow> u8 \<Rightarrow> string option \<Rightarrow> registry \<Rightarrow> nat \<times> registry" where
  "control_registry_broadcast_command now cmd line r =
     (let r1 = (if cmd = CTRL_COMMAND
                then (if command_line_first_word_is line ''pause'' then r\<lparr>g_desired_pause_state := True\<rparr>
                      else if command_line_first_word_is line ''resume'' then r\<lparr>g_desired_pause_state := False\<rparr> else r)
                else r)
      in fold (post_if_in_use now cmd line) [0..<MAX_CONTROL_SESSIONS] (0, r1))"

definition control_registry_broadcast_get_stats :: "int \<Rightarrow> registry \<Rightarrow> nat \<times> registry" where
  "control_registry_broadcast_get_stats now r = control_registry_broadcast_command now CTRL_GET_STATS None r"

text \<open>\<open>strtoull\<close> in base 10: blanks, a sign, digits; the value, negated for a minus sign, and what
  follows. \<open>None\<close> when there are no digits or the value does not fit.\<close>

definition is_space :: "char \<Rightarrow> bool" where
  "is_space c \<longleftrightarrow> c = CHR '' '' \<or> (9 \<le> (of_char c :: nat) \<and> (of_char c :: nat) \<le> 13)"

definition is_digit :: "char \<Rightarrow> bool" where
  "is_digit c \<longleftrightarrow> 48 \<le> (of_char c :: nat) \<and> (of_char c :: nat) \<le> 57"

definition digits_value :: "string \<Rightarrow> nat" where
  "digits_value ds = fold (\<lambda>c v. 10 * v + (of_char c - 48)) ds 0"

definition strtoull :: "string \<Rightarrow> (u64 \<times> string) option" where
  "strtoull target =
     (let s = dropWhile is_space target;
          neg = (s \<noteq> [] \<and> hd s = CHR ''-'');
          d = (if s \<noteq> [] \<and> (hd s = CHR ''-'' \<or> hd s = CHR ''+'') then tl s else s);
          ds = takeWhile is_digit d
      in if ds = [] \<or> digits_value ds \<ge> 2 ^ 64 then None
         else Some (if neg then - of_nat (digits_value ds) else of_nat (digits_value ds), dropWhile is_digit d))"

definition target_matches_session_no :: "string \<Rightarrow> u64 \<Rightarrow> bool" where
  "target_matches_session_no target no \<longleftrightarrow>
     (if target = [] then False else (case strtoull target of None \<Rightarrow> False | Some (v, rest) \<Rightarrow> rest = [] \<and> v = no))"

definition target_matches_client_uid :: "string \<Rightarrow> u8 list \<Rightarrow> bool" where
  "target_matches_client_uid target uid \<longleftrightarrow>
     (if length target \<noteq> 2 * CLIENT_UID_BYTES then False
      else (case client_identity_hex_decode target CLIENT_UID_BYTES of None \<Rightarrow> False | Some decoded \<Rightarrow> decoded = uid))"

definition target_matches_label :: "string \<Rightarrow> u8 list \<Rightarrow> bool" where
  "target_matches_label target lbl \<longleftrightarrow> map of_char target = c_string lbl"

definition session_hit :: "string \<Rightarrow> control_session \<Rightarrow> bool" where
  "session_hit target s \<longleftrightarrow> in_use s \<and>
     (target_matches_session_no target (session_no s) \<or> target_matches_client_uid target (client_uid (h_identity (s_hello s)))
      \<or> target_matches_label target (label (h_identity (s_hello s))))"

text \<open>The only session that is meant, \<open>None\<close> when there is none or more than one.\<close>

definition matched_index :: "string \<Rightarrow> registry \<Rightarrow> nat option" where
  "matched_index target r =
     (case filter (\<lambda>i. session_hit target (g_sessions r ! i)) [0..<MAX_CONTROL_SESSIONS] of [i] \<Rightarrow> Some i | _ \<Rightarrow> None)"

definition control_registry_send_command_to :: "int \<Rightarrow> string option \<Rightarrow> u8 \<Rightarrow> string option \<Rightarrow> registry \<Rightarrow> int \<times> registry" where
  "control_registry_send_command_to now target cmd line r =
     (case target of None \<Rightarrow> (-1, r)
      | Some t \<Rightarrow>
          (case matched_index t r of None \<Rightarrow> (0, r)
           | Some i \<Rightarrow> (let (result, r') = control_registry_post_command now (int i) cmd line r in (if result = 0 then 1 else 0, r'))))"

definition control_registry_resolve_client_uid :: "string option \<Rightarrow> registry \<Rightarrow> int \<times> u8 list option" where
  "control_registry_resolve_client_uid target r =
     (case target of None \<Rightarrow> (-1, None)
      | Some t \<Rightarrow> (case matched_index t r of None \<Rightarrow> (0, None) | Some i \<Rightarrow> (1, Some (client_uid (h_identity (s_hello (g_sessions r ! i)))))))"

text \<open>Both commands are posted; the share is remembered when both went through.\<close>

definition apply_dosage :: "int \<Rightarrow> int \<Rightarrow> nat \<Rightarrow> nat \<times> registry \<Rightarrow> nat \<times> registry" where
  "apply_dosage now pruner_forks i = (\<lambda>(n, r).
     (let (a, r1) = control_registry_post_command now (int i) CTRL_COMMAND (Some (config_line pruner_forks)) r in
      if a \<noteq> 0 then (n, r1)
      else (let (b, r2) = control_registry_post_command now (int i) CTRL_COMMAND (Some ''configApply'') r1 in
        if b \<noteq> 0 then (n, r2)
        else if in_use (g_sessions r2 ! i)
        then (Suc n, desired_role_set_locked (machine_uid (h_identity (s_hello (g_sessions r2 ! i)))) pruner_forks r2)
        else (n, r2))))"

definition control_registry_apply_role_dosage :: "int \<Rightarrow> string option \<Rightarrow> int \<Rightarrow> registry \<Rightarrow> nat \<times> registry" where
  "control_registry_apply_role_dosage now target pruner_forks r =
     (if target = None \<or> target = Some []
      then fold (\<lambda>i (n, r). if in_use (g_sessions r ! i) then apply_dosage now pruner_forks i (n, r) else (n, r)) [0..<MAX_CONTROL_SESSIONS] (0, r)
      else (case matched_index (the target) r of None \<Rightarrow> (0, r) | Some i \<Rightarrow> apply_dosage now pruner_forks i (0, r)))"

text \<open>The roles of the sessions of a snapshot, by mode and number of forks.\<close>

definition control_registry_count_roles :: "(u8 \<times> int) list \<Rightarrow> nat \<times> nat" where
  "control_registry_count_roles sessions =
     fold (\<lambda>(mode, forks) (search, prune). if mode = 0 then (Suc search, prune) else (search, Suc prune)) sessions (0, 0)"

definition control_registry_count_role_forks :: "(u8 \<times> int) list \<Rightarrow> int \<times> int" where
  "control_registry_count_role_forks sessions =
     fold (\<lambda>(mode, forks) (search, prune). if mode = 0 then (search + forks, prune) else (search, prune + forks)) sessions (0, 0)"

section \<open>The ring of commands\<close>

locale bounded_fifo =
  fixes valid :: "'s \<Rightarrow> bool" and items :: "'s \<Rightarrow> 'a list" and cap :: nat and push :: "'a \<Rightarrow> 's \<Rightarrow> 's" and front :: "'s \<Rightarrow> 'a" and pop :: "'s \<Rightarrow> 's"
  assumes bound: "valid s \<Longrightarrow> length (items s) \<le> cap"
    and push: "valid s \<Longrightarrow> length (items s) < cap \<Longrightarrow> valid (push x s) \<and> items (push x s) = items s @ [x]"
    and pop: "valid s \<Longrightarrow> items s \<noteq> [] \<Longrightarrow> valid (pop s) \<and> items s = front s # items (pop s)"
begin

lemma push_all: "valid s \<Longrightarrow> length (items s) + length xs \<le> cap \<Longrightarrow> valid (fold push xs s) \<and> items (fold push xs s) = items s @ xs"
proof (induction xs arbitrary: s)
  case (Cons x xs)
  then show ?case using push[of s x] Cons.IH[of "push x s"] by simp
qed simp

lemma pops: "valid s \<Longrightarrow> k \<le> length (items s) \<Longrightarrow> valid ((pop ^^ k) s) \<and> items ((pop ^^ k) s) = drop k (items s)"
proof (induction k)
  case (Suc k)
  then have IH: "valid ((pop ^^ k) s)" "items ((pop ^^ k) s) = drop k (items s)" by simp_all
  then have "items ((pop ^^ k) s) \<noteq> []" using Suc.prems(2) by simp
  then show ?case using pop[OF IH(1)] IH(2) by (simp add: drop_Suc tl_drop) (metis list.sel(3) drop_Suc tl_drop)
qed simp

lemma handed_over: "valid s \<Longrightarrow> k < length (items s) \<Longrightarrow> front ((pop ^^ k) s) = items s ! k"
proof -
  assume v: "valid s" and k: "k < length (items s)"
  then have p: "valid ((pop ^^ k) s)" "items ((pop ^^ k) s) = drop k (items s)" using pops[of s k] by simp_all
  then have "items ((pop ^^ k) s) \<noteq> []" using k by simp
  then show "front ((pop ^^ k) s) = items s ! k" using pop[OF p(1)] p(2) k by (metis Cons_nth_drop_Suc list.inject)
qed

end

definition session_ok :: "control_session \<Rightarrow> bool" where
  "session_ok s \<longleftrightarrow> length (s_queue s) = CONTROL_SESSION_QUEUE_CAP \<and> s_head s < CONTROL_SESSION_QUEUE_CAP \<and> s_count s \<le> CONTROL_SESSION_QUEUE_CAP"

definition pending :: "control_session \<Rightarrow> control_pending_command list" where
  "pending s = map (\<lambda>k. s_queue s ! ((s_head s + k) mod CONTROL_SESSION_QUEUE_CAP)) [0..<s_count s]"

definition pop_command :: "control_session \<Rightarrow> control_session" where
  "pop_command s = s\<lparr>s_head := (s_head s + 1) mod CONTROL_SESSION_QUEUE_CAP, s_count := s_count s - 1\<rparr>"

lemma ring_distinct: "k < m \<Longrightarrow> m < C \<Longrightarrow> (h + k) mod C \<noteq> (h + m) mod (C :: nat)"
proof
  assume "k < m" "m < C" "(h + k) mod C = (h + m) mod C"
  then have "C dvd (h + m) - (h + k)" by (metis mod_eq_dvd_iff_nat add_le_cancel_left less_imp_le)
  then show False using \<open>k < m\<close> \<open>m < C\<close> by (auto dest: dvd_imp_le)
qed

lemma append_command_spec:
  assumes "session_ok s" "s_count s < CONTROL_SESSION_QUEUE_CAP"
  shows "session_ok (append_command cmd line s)" "pending (append_command cmd line s) = pending s @ [\<lparr>pc_cmd = cmd, pc_line = line\<rparr>]"
proof -
  show "session_ok (append_command cmd line s)" using assms by (simp add: session_ok_def append_command_def)
  let ?t = "(s_head s + s_count s) mod CONTROL_SESSION_QUEUE_CAP"
  have t: "?t < length (s_queue s)" using assms by (simp add: session_ok_def CONTROL_SESSION_QUEUE_CAP_def)
  have "(s_queue s)[?t := x] ! ((s_head s + k) mod CONTROL_SESSION_QUEUE_CAP) = s_queue s ! ((s_head s + k) mod CONTROL_SESSION_QUEUE_CAP)" if "k < s_count s" for k x
    using ring_distinct[OF that assms(2), of "s_head s"] by simp
  then show "pending (append_command cmd line s) = pending s @ [\<lparr>pc_cmd = cmd, pc_line = line\<rparr>]" using t by (simp add: pending_def append_command_def)
qed

lemma pop_command_spec:
  assumes "session_ok s" "0 < s_count s"
  shows "session_ok (pop_command s)" "pending s = s_queue s ! s_head s # pending (pop_command s)"
proof -
  have h: "s_head s mod CONTROL_SESSION_QUEUE_CAP = s_head s" using assms(1) by (simp add: session_ok_def)
  show "session_ok (pop_command s)" using assms by (auto simp: session_ok_def pop_command_def CONTROL_SESSION_QUEUE_CAP_def)
  have "[0..<s_count s] = 0 # map Suc [0..<s_count s - 1]" using assms(2) by (simp add: upt_conv_Cons map_Suc_upt)
  then show "pending s = s_queue s ! s_head s # pending (pop_command s)"
    using h by (simp add: pending_def pop_command_def comp_def mod_simps)
qed

interpretation ring: bounded_fifo session_ok pending CONTROL_SESSION_QUEUE_CAP "\<lambda>c. append_command (pc_cmd c) (pc_line c)"
  "\<lambda>s. s_queue s ! s_head s" pop_command
proof unfold_locales
  show "length (pending s) \<le> CONTROL_SESSION_QUEUE_CAP" if "session_ok s" for s using that by (simp add: pending_def session_ok_def)
  show "session_ok (append_command (pc_cmd x) (pc_line x) s) \<and> pending (append_command (pc_cmd x) (pc_line x) s) = pending s @ [x]"
    if "session_ok s" "length (pending s) < CONTROL_SESSION_QUEUE_CAP" for s x
    using append_command_spec[OF that(1)] that(2) by (simp add: pending_def)
  show "session_ok (pop_command s) \<and> pending s = s_queue s ! s_head s # pending (pop_command s)" if "session_ok s" "pending s \<noteq> []" for s
    using pop_command_spec[OF that(1)] that(2) by (simp add: pending_def)
qed


section \<open>The invariant of the registry\<close>

text \<open>The rings are sound, and the sessions in use have numbers of their own, below the next one.\<close>

definition numbered :: "control_session list \<Rightarrow> u64 \<Rightarrow> bool" where
  "numbered ss next_no \<longleftrightarrow> (\<forall>i < length ss. in_use (ss ! i) \<longrightarrow> session_no (ss ! i) < next_no)
     \<and> (\<forall>i < length ss. \<forall>j < length ss. in_use (ss ! i) \<longrightarrow> in_use (ss ! j) \<longrightarrow> session_no (ss ! i) = session_no (ss ! j) \<longrightarrow> i = j)"

definition registry_ok :: "registry \<Rightarrow> bool" where
  "registry_ok r \<longleftrightarrow> length (g_sessions r) = MAX_CONTROL_SESSIONS \<and> (\<forall>s \<in> set (g_sessions r). session_ok s)
     \<and> length (g_desired_roles r) = MAX_KNOWN_CLIENTS \<and> numbered (g_sessions r) (g_next_session_no r)"

lemma registry_okD: "registry_ok r \<Longrightarrow> i < MAX_CONTROL_SESSIONS \<Longrightarrow> session_ok (g_sessions r ! i)"
  by (simp add: registry_ok_def)

text \<open>A session may be replaced by one that keeps its number, or is not in use.\<close>

lemma registry_ok_set:
  assumes "registry_ok r" "i < MAX_CONTROL_SESSIONS" "session_ok s" "in_use s \<longrightarrow> in_use (g_sessions r ! i) \<and> session_no s = session_no (g_sessions r ! i)"
  shows "registry_ok (set_session i s r)"
proof -
  have l: "length (g_sessions r) = MAX_CONTROL_SESSIONS" using assms(1) by (simp add: registry_ok_def)
  have nth: "(g_sessions r)[i := s] ! j = (if j = i then s else g_sessions r ! j)" if "j < MAX_CONTROL_SESSIONS" for j using l that by simp
  have "numbered ((g_sessions r)[i := s]) (g_next_session_no r)"
    using assms l unfolding registry_ok_def numbered_def by (auto simp: nth split: if_splits)
  moreover have "\<forall>s' \<in> set ((g_sessions r)[i := s]). session_ok s'"
    using assms(1,3) set_update_subset_insert[of "g_sessions r" i s] by (auto simp: registry_ok_def)
  ultimately show ?thesis using assms(1) by (simp add: registry_ok_def set_session_def)
qed

lemma first_index_spec: "first_index P xs = Some i \<Longrightarrow> i < length xs \<and> P (xs ! i)"
  by (auto simp: first_index_def find_Some_iff)

lemma first_index_none: "first_index P xs = None \<longleftrightarrow> (\<forall>x \<in> set xs. \<not> P x)"
  unfolding first_index_def find_None_iff in_set_conv_nth by (auto simp: all_set_conv_all_nth)

lemma append_command_fields [simp]:
  "in_use (append_command cmd line s) = in_use s" "session_no (append_command cmd line s) = session_no s"
  "s_count (append_command cmd line s) = Suc (s_count s)" "s_hello (append_command cmd line s) = s_hello s"
  by (simp_all add: append_command_def)

lemma session_ok_activity [simp]: "session_ok (s\<lparr>last_activity := t\<rparr>) = session_ok s" "pending (s\<lparr>last_activity := t\<rparr>) = pending s"
  by (simp_all add: session_ok_def pending_def)

lemma post_spec:
  assumes "registry_ok r" "control_registry_post_command now index cmd line r = (res, r')"
  shows "registry_ok r'"
    "res = 0 \<Longrightarrow> 0 \<le> index \<and> index < int MAX_CONTROL_SESSIONS \<and> in_use (g_sessions r ! nat index)
       \<and> pending (g_sessions r' ! nat index) = pending (g_sessions r ! nat index)
           @ [\<lparr>pc_cmd = cmd, pc_line = (case line of None \<Rightarrow> [] | Some l \<Rightarrow> take 255 l)\<rparr>]
       \<and> (\<forall>j. j \<noteq> nat index \<longrightarrow> g_sessions r' ! j = g_sessions r ! j)"
    "res \<noteq> 0 \<Longrightarrow> r' = r \<and> (0 \<le> index \<longrightarrow> index < int MAX_CONTROL_SESSIONS \<longrightarrow>
       \<not> in_use (g_sessions r ! nat index) \<or> length (pending (g_sessions r ! nat index)) = CONTROL_SESSION_QUEUE_CAP)"
    "g_next_session_no r' = g_next_session_no r" "g_desired_roles r' = g_desired_roles r" "g_desired_pause_state r' = g_desired_pause_state r"
proof -
  let ?i = "nat index" and ?s = "g_sessions r ! nat index"
  let ?l = "case line of None \<Rightarrow> [] | Some l \<Rightarrow> copy_bounded_command_line l"
  let ?s' = "(append_command cmd ?l ?s)\<lparr>last_activity := now\<rparr>"
  have l255: "?l = (case line of None \<Rightarrow> [] | Some l \<Rightarrow> take 255 l)"
    by (cases line) (simp_all add: copy_bounded_command_line_def CONTROL_COMMAND_LINE_MAX_def)
  show "g_next_session_no r' = g_next_session_no r" "g_desired_roles r' = g_desired_roles r" "g_desired_pause_state r' = g_desired_pause_state r"
    using assms(2) by (auto simp: control_registry_post_command_def Let_def set_session_def split: if_splits)
  consider (posted) "res = 0" "r' = set_session ?i ?s' r" "0 \<le> index" "?i < MAX_CONTROL_SESSIONS" "in_use ?s" "s_count ?s < CONTROL_SESSION_QUEUE_CAP"
    | (refused) "res = -1" "r' = r" "0 \<le> index \<longrightarrow> index < int MAX_CONTROL_SESSIONS \<longrightarrow> \<not> in_use ?s \<or> \<not> s_count ?s < CONTROL_SESSION_QUEUE_CAP"
    using assms(2) by (auto simp: control_registry_post_command_def Let_def split: if_splits)
  then have "registry_ok r' \<and> (res = 0 \<longrightarrow> 0 \<le> index \<and> index < int MAX_CONTROL_SESSIONS \<and> in_use ?s
       \<and> pending (g_sessions r' ! ?i) = pending ?s @ [\<lparr>pc_cmd = cmd, pc_line = (case line of None \<Rightarrow> [] | Some l \<Rightarrow> take 255 l)\<rparr>]
       \<and> (\<forall>j. j \<noteq> ?i \<longrightarrow> g_sessions r' ! j = g_sessions r ! j))
     \<and> (res \<noteq> 0 \<longrightarrow> r' = r \<and> (0 \<le> index \<longrightarrow> index < int MAX_CONTROL_SESSIONS \<longrightarrow> \<not> in_use ?s \<or> length (pending ?s) = CONTROL_SESSION_QUEUE_CAP))"
  proof cases
    case posted
    note ok = registry_okD[OF assms(1) posted(4)]
    have "registry_ok r'" unfolding posted(2) by (rule registry_ok_set[OF assms(1) posted(4)]) (use append_command_spec(1)[OF ok posted(6)] posted(5) in simp_all)
    moreover have "g_sessions r' ! ?i = ?s'" using posted(2,4) assms(1) by (simp add: set_session_def registry_ok_def)
    moreover have "g_sessions r' ! j = g_sessions r ! j" if "j \<noteq> ?i" for j using posted(2) that by (simp add: set_session_def)
    moreover have "index < int MAX_CONTROL_SESSIONS" using posted(3,4) by linarith
    ultimately show ?thesis using append_command_spec(2)[OF ok posted(6)] posted(1,3,5) by (simp add: l255)
  next
    case refused
    have "s_count ?s \<le> CONTROL_SESSION_QUEUE_CAP" if "0 \<le> index" "index < int MAX_CONTROL_SESSIONS"
      using registry_okD[OF assms(1), of ?i] that by (simp add: session_ok_def)
    then show ?thesis using refused assms(1) by (auto simp: pending_def)
  qed
  then show "registry_ok r'"
    "res = 0 \<Longrightarrow> 0 \<le> index \<and> index < int MAX_CONTROL_SESSIONS \<and> in_use ?s
       \<and> pending (g_sessions r' ! ?i) = pending ?s @ [\<lparr>pc_cmd = cmd, pc_line = (case line of None \<Rightarrow> [] | Some l \<Rightarrow> take 255 l)\<rparr>]
       \<and> (\<forall>j. j \<noteq> ?i \<longrightarrow> g_sessions r' ! j = g_sessions r ! j)"
    "res \<noteq> 0 \<Longrightarrow> r' = r \<and> (0 \<le> index \<longrightarrow> index < int MAX_CONTROL_SESSIONS \<longrightarrow> \<not> in_use ?s \<or> length (pending ?s) = CONTROL_SESSION_QUEUE_CAP)"
    by blast+
qed


text \<open>A command that is handed over was the oldest one.\<close>

definition oldest_taken :: "int \<Rightarrow> nat \<Rightarrow> registry \<Rightarrow> u8 \<times> string \<Rightarrow> registry \<Rightarrow> bool" where
  "oldest_taken index bufsize r got r' \<longleftrightarrow> 0 \<le> index \<and> index < int MAX_CONTROL_SESSIONS \<and> in_use (g_sessions r ! nat index)
     \<and> (\<exists>c. pending (g_sessions r ! nat index) = c # pending (g_sessions r' ! nat index) \<and> got = (pc_cmd c, take (bufsize - 1) (pc_line c)))"

lemma wait_spec:
  assumes "registry_ok r"
  shows "case control_registry_wait_command index bufsize waited r of (rc, got, r') \<Rightarrow>
    registry_ok r' \<and> g_next_session_no r' = g_next_session_no r \<and> (case got of None \<Rightarrow> r' = r | Some g \<Rightarrow> rc = 0 \<and> oldest_taken index bufsize r g r')"
proof (cases "index < 0 \<or> index \<ge> int MAX_CONTROL_SESSIONS \<or> \<not> in_use (g_sessions r ! nat index) \<or> s_count (g_sessions r ! nat index) = 0")
  case True
  then show ?thesis using assms by (auto simp: control_registry_wait_command_def Let_def)
next
  case False
  let ?s = "g_sessions r ! nat index" and ?r = "set_session (nat index) (pop_command (g_sessions r ! nat index)) r"
  have i: "nat index < MAX_CONTROL_SESSIONS" using False by linarith
  note ok = registry_okD[OF assms i]
  have p: "session_ok (pop_command ?s)" "pending ?s = s_queue ?s ! s_head ?s # pending (pop_command ?s)" using ring.pop[OF ok] False by (auto simp: pending_def)
  have r: "registry_ok ?r" by (rule registry_ok_set[OF assms i p(1)]) (simp add: pop_command_def)
  have s: "g_sessions ?r ! nat index = pop_command ?s" using i assms by (simp add: set_session_def registry_ok_def)
  have e: "control_registry_wait_command index bufsize waited r = (0, Some (pc_cmd (s_queue ?s ! s_head ?s), take (bufsize - 1) (pc_line (s_queue ?s ! s_head ?s))), ?r)"
    using False by (simp add: control_registry_wait_command_def Let_def pop_command_def)
  have "oldest_taken index bufsize r (pc_cmd (s_queue ?s ! s_head ?s), take (bufsize - 1) (pc_line (s_queue ?s ! s_head ?s))) ?r"
    unfolding oldest_taken_def s using False p(2) by auto
  then show ?thesis unfolding e using r by (simp add: set_session_def)
qed

text \<open>The ring of a new session: the commands that the wished state implies.\<close>

definition wished_commands :: "registry \<Rightarrow> u8 list \<Rightarrow> control_pending_command list" where
  "wished_commands r uid =
     (if g_desired_pause_state r then [\<lparr>pc_cmd = CTRL_COMMAND, pc_line = ''pause''\<rparr>] else [])
     @ (case desired_role_find_locked uid r of None \<Rightarrow> []
        | Some d \<Rightarrow> [\<lparr>pc_cmd = CTRL_COMMAND, pc_line = take 255 (config_line (dr_pruner_forks (g_desired_roles r ! d)))\<rparr>,
                     \<lparr>pc_cmd = CTRL_COMMAND, pc_line = ''configApply''\<rparr>])"

lemma registry_ok_new:
  assumes "registry_ok r" "i < MAX_CONTROL_SESSIONS" "\<not> in_use (g_sessions r ! i)" "session_ok s" "session_no s = g_next_session_no r" "g_next_session_no r \<noteq> -1"
  shows "registry_ok ((set_session i s r)\<lparr>g_next_session_no := g_next_session_no r + 1\<rparr>)"
proof -
  let ?n = "g_next_session_no r"
  have l: "length (g_sessions r) = MAX_CONTROL_SESSIONS" using assms(1) by (simp add: registry_ok_def)
  have nth: "(g_sessions r)[i := s] ! j = (if j = i then s else g_sessions r ! j)" if "j < MAX_CONTROL_SESSIONS" for j using l that by simp
  have n: "?n < ?n + 1" using assms(6) inc_less_eq_self_iff_eq[of ?n] by (simp add: not_le)
  have "numbered ((g_sessions r)[i := s]) (?n + 1)"
    using assms(1,2,3,5) l n unfolding registry_ok_def numbered_def by (auto simp: nth split: if_splits intro: less_trans)
  moreover have "\<forall>s' \<in> set ((g_sessions r)[i := s]). session_ok s'"
    using assms(1,4) set_update_subset_insert[of "g_sessions r" i s] by (auto simp: registry_ok_def)
  ultimately show ?thesis using assms(1) by (simp add: registry_ok_def set_session_def)
qed


lemma short_lines: "copy_bounded_command_line ''pause'' = ''pause''" "copy_bounded_command_line ''configApply'' = ''configApply''"
  "copy_bounded_command_line l = take 255 l"
  by (simp_all add: copy_bounded_command_line_def CONTROL_COMMAND_LINE_MAX_def)

lemma start_session_spec:
  assumes "session_ok s"
  shows "session_ok (start_session now sock ip h no s)" "pending (start_session now sock ip h no s) = []" "s_count (start_session now sock ip h no s) = 0"
  using assms by (simp_all add: start_session_def session_ok_def pending_def CONTROL_SESSION_QUEUE_CAP_def)

lemma post_wishes_fold:
  assumes "s_count s0 = 0"
  shows "post_wishes r h s0 = fold (\<lambda>c. append_command (pc_cmd c) (pc_line c)) (wished_commands r (machine_uid (h_identity h))) s0"
  using assms by (simp add: post_wishes_def wished_commands_def short_lines append_command_def CONTROL_SESSION_QUEUE_CAP_def Let_def split: option.split)

lemma append_command_keeps:
  "in_use (fold (\<lambda>c. append_command (pc_cmd c) (pc_line c)) cs s) = in_use s"
  "s_hello (fold (\<lambda>c. append_command (pc_cmd c) (pc_line c)) cs s) = s_hello s"
  "session_no (fold (\<lambda>c. append_command (pc_cmd c) (pc_line c)) cs s) = session_no s"
  by (induction cs arbitrary: s) (simp_all add: append_command_def)

lemma post_wishes_spec:
  assumes "session_ok s0" "pending s0 = []" "s_count s0 = 0"
  shows "session_ok (post_wishes r h s0) \<and> in_use (post_wishes r h s0) = in_use s0 \<and> s_hello (post_wishes r h s0) = s_hello s0
    \<and> session_no (post_wishes r h s0) = session_no s0 \<and> pending (post_wishes r h s0) = wished_commands r (machine_uid (h_identity h))"
proof -
  have "length (wished_commands r (machine_uid (h_identity h))) \<le> CONTROL_SESSION_QUEUE_CAP"
    by (simp add: wished_commands_def CONTROL_SESSION_QUEUE_CAP_def split: option.split)
  then show ?thesis using ring.push_all[OF assms(1), of "wished_commands r (machine_uid (h_identity h))"] assms(2)
    by (simp add: post_wishes_fold[OF assms(3)] append_command_keeps)
qed

lemma register_spec:
  assumes "registry_ok r" "g_next_session_no r \<noteq> -1" "control_registry_register now sock ip (Some h) r = (i, r')"
  shows "registry_ok r'"
    "i < 0 \<Longrightarrow> r' = r \<and> (\<forall>s \<in> set (g_sessions r). in_use s)"
    "0 \<le> i \<Longrightarrow> i < int MAX_CONTROL_SESSIONS \<and> \<not> in_use (g_sessions r ! nat i) \<and> in_use (g_sessions r' ! nat i)
       \<and> s_hello (g_sessions r' ! nat i) = h \<and> session_no (g_sessions r' ! nat i) = g_next_session_no r
       \<and> pending (g_sessions r' ! nat i) = wished_commands r (machine_uid (h_identity h))"
proof -
  have "registry_ok r' \<and> (i < 0 \<longrightarrow> r' = r \<and> (\<forall>s \<in> set (g_sessions r). in_use s))
    \<and> (0 \<le> i \<longrightarrow> i < int MAX_CONTROL_SESSIONS \<and> \<not> in_use (g_sessions r ! nat i) \<and> in_use (g_sessions r' ! nat i)
       \<and> s_hello (g_sessions r' ! nat i) = h \<and> session_no (g_sessions r' ! nat i) = g_next_session_no r
       \<and> pending (g_sessions r' ! nat i) = wished_commands r (machine_uid (h_identity h)))"
  proof (cases "first_index (\<lambda>s. \<not> in_use s) (g_sessions r)")
    case None
    have "\<forall>s \<in> set (g_sessions r). in_use s" using None by (simp add: first_index_none)
    moreover have "(i, r') = (-1, r)" using assms(3) None by (simp add: control_registry_register_def)
    ultimately show ?thesis using assms(1) by simp
  next
    case (Some k)
    have l: "length (g_sessions r) = MAX_CONTROL_SESSIONS" using assms(1) by (simp add: registry_ok_def)
    have k: "k < MAX_CONTROL_SESSIONS" "\<not> in_use (g_sessions r ! k)" using first_index_spec[OF Some] l by auto
    define s2 where "s2 = post_wishes r h (start_session now sock ip h (g_next_session_no r) (g_sessions r ! k))"
    have ok2: "session_ok s2 \<and> in_use s2 \<and> s_hello s2 = h \<and> session_no s2 = g_next_session_no r \<and> pending s2 = wished_commands r (machine_uid (h_identity h))"
      using post_wishes_spec[OF start_session_spec(1-3)[OF registry_okD[OF assms(1) k(1)]]] by (simp add: s2_def start_session_def)
    have e: "(i, r') = (int k, (set_session k s2 r)\<lparr>g_next_session_no := g_next_session_no r + 1\<rparr>)"
      using assms(3) Some by (simp add: control_registry_register_def s2_def)
    have "registry_ok r'" using registry_ok_new[OF assms(1) k _ _ assms(2), of s2] ok2 e by simp
    moreover have "g_sessions r' ! k = s2" using e k(1) l by (simp add: set_session_def)
    ultimately show ?thesis using e k ok2 by simp
  qed
  then show "registry_ok r'" "i < 0 \<Longrightarrow> r' = r \<and> (\<forall>s \<in> set (g_sessions r). in_use s)"
    "0 \<le> i \<Longrightarrow> i < int MAX_CONTROL_SESSIONS \<and> \<not> in_use (g_sessions r ! nat i) \<and> in_use (g_sessions r' ! nat i)
       \<and> s_hello (g_sessions r' ! nat i) = h \<and> session_no (g_sessions r' ! nat i) = g_next_session_no r
       \<and> pending (g_sessions r' ! nat i) = wished_commands r (machine_uid (h_identity h))" by blast+
qed

lemma registry_ok_quiet:
  assumes "registry_ok r" "i < MAX_CONTROL_SESSIONS" "s_queue s = s_queue (g_sessions r ! i)" "s_head s = s_head (g_sessions r ! i)"
    "s_count s = s_count (g_sessions r ! i)" "in_use s = in_use (g_sessions r ! i)" "session_no s = session_no (g_sessions r ! i)"
  shows "registry_ok (set_session i s r)"
  by (rule registry_ok_set[OF assms(1,2)]) (use registry_okD[OF assms(1,2)] assms(3-7) in \<open>simp_all add: session_ok_def\<close>)

lemma unregister_ok: "registry_ok r \<Longrightarrow> registry_ok (control_registry_unregister index r)"
  using registry_okD[of r "nat index"]
  by (auto simp: control_registry_unregister_def CONTROL_SESSION_QUEUE_CAP_def session_ok_def intro!: registry_ok_set)

lemma touch_ok: "registry_ok r \<Longrightarrow> registry_ok (control_registry_touch now index r)"
  by (auto simp: control_registry_touch_def Let_def intro!: registry_ok_quiet)

lemma record_stats_ok: "registry_ok r \<Longrightarrow> registry_ok (control_registry_record_stats now index stats r)"
  by (auto simp: control_registry_record_stats_def Let_def split: option.splits intro!: registry_ok_quiet)

lemma stats_due_ok: "registry_ok r \<Longrightarrow> registry_ok (snd (control_registry_auto_stats_due now index interval r))"
  by (auto simp: control_registry_auto_stats_due_def Let_def intro!: registry_ok_quiet)

lemma role_set_ok: "registry_ok r \<Longrightarrow> registry_ok (desired_role_set_locked uid k r)"
  by (auto simp: desired_role_set_locked_def registry_ok_def split: option.splits)

lemma fold_registry_ok:
  assumes "\<And>i a. registry_ok (snd a) \<Longrightarrow> registry_ok (snd (g i a))"
  shows "registry_ok (snd a) \<Longrightarrow> registry_ok (snd (fold g is a))"
  by (induction "is" arbitrary: a) (simp_all add: assms)

lemma post_if_in_use_ok: "registry_ok (snd a) \<Longrightarrow> registry_ok (snd (post_if_in_use now cmd line i a))"
  using post_spec(1)[of "snd a" now "int i" cmd line] by (cases a) (auto simp: post_if_in_use_def split: prod.splits)

lemma broadcast_ok: "registry_ok r \<Longrightarrow> registry_ok (snd (control_registry_broadcast_command now cmd line r))"
  unfolding control_registry_broadcast_command_def Let_def
  by (rule fold_registry_ok[OF post_if_in_use_ok]) (auto simp: registry_ok_def)

lemma send_ok: "registry_ok r \<Longrightarrow> registry_ok (snd (control_registry_send_command_to now target cmd line r))"
  using post_spec(1)[of r now _ cmd line] by (auto simp: control_registry_send_command_to_def split: option.splits prod.splits)

lemma apply_dosage_ok:
  assumes "registry_ok r"
  shows "registry_ok (snd (apply_dosage now k i (n, r)))"
proof -
  obtain a r1 where 1: "control_registry_post_command now (int i) CTRL_COMMAND (Some (config_line k)) r = (a, r1)" by fastforce
  obtain b r2 where 2: "control_registry_post_command now (int i) CTRL_COMMAND (Some ''configApply'') r1 = (b, r2)" by fastforce
  have "registry_ok r1" by (rule post_spec(1)[OF assms 1])
  moreover from this have "registry_ok r2" using post_spec(1)[OF _ 2] by blast
  ultimately show ?thesis using role_set_ok by (simp add: apply_dosage_def 1 2)
qed

lemma dosage_ok: "registry_ok r \<Longrightarrow> registry_ok (snd (control_registry_apply_role_dosage now target k r))"
proof -
  assume r: "registry_ok r"
  have "registry_ok (snd (fold (\<lambda>i (n, r). if in_use (g_sessions r ! i) then apply_dosage now k i (n, r) else (n, r)) [0..<MAX_CONTROL_SESSIONS] (0, r)))"
    by (rule fold_registry_ok) (use r apply_dosage_ok in \<open>auto split: prod.splits\<close>)
  moreover have "registry_ok (snd (apply_dosage now k i (0, r)))" for i by (rule apply_dosage_ok[OF r])
  ultimately show ?thesis using r by (auto simp: control_registry_apply_role_dosage_def split: option.splits)
qed


section \<open>Reachable registries\<close>

definition no_identity :: client_identity where
  "no_identity = \<lparr>machine_uid = replicate 16 0, client_uid = replicate 16 0, fork_seq = 0, cmode = 0, label = replicate 32 0\<rparr>"

definition no_session :: control_session where
  "no_session = \<lparr>in_use = False, socket_id = -1, session_no = 0, peer_ip = [], s_hello = \<lparr>h_pid = 0, h_nb_forks = 0, h_identity = no_identity\<rparr>,
     last_activity = 0, s_queue = replicate CONTROL_SESSION_QUEUE_CAP \<lparr>pc_cmd = 0, pc_line = []\<rparr>, s_head = 0, s_count = 0, has_stats = False,
     s_stats = \<lparr>shots_per_second = 0, possibility_stock = 0, analysed_stock = 0, cs_max_result = 0, pruner_checked = 0, pruner_removed = 0, pruner_cells_per_second = 0\<rparr>,
     stats_time = 0, last_auto_poll_attempt = 0\<rparr>"

definition registry_init_once :: registry where
  "registry_init_once = \<lparr>g_sessions = replicate MAX_CONTROL_SESSIONS no_session, g_next_session_no = 1, g_desired_pause_state = False,
     g_desired_roles = replicate MAX_KNOWN_CLIENTS \<lparr>dr_in_use = False, dr_machine_uid = replicate 16 0, dr_pruner_forks = 0\<rparr>\<rparr>"

inductive registry_reach :: "registry \<Rightarrow> bool" where
  init: "registry_reach registry_init_once"
| register: "registry_reach r \<Longrightarrow> g_next_session_no r \<noteq> -1 \<Longrightarrow> registry_reach (snd (control_registry_register now sock ip hello r))"
| unregister: "registry_reach r \<Longrightarrow> registry_reach (control_registry_unregister index r)"
| post: "registry_reach r \<Longrightarrow> registry_reach (snd (control_registry_post_command now index cmd line r))"
| wait: "registry_reach r \<Longrightarrow> registry_reach (snd (snd (control_registry_wait_command index bufsize waited r)))"
| touch: "registry_reach r \<Longrightarrow> registry_reach (control_registry_touch now index r)"
| stats: "registry_reach r \<Longrightarrow> registry_reach (control_registry_record_stats now index st r)"
| stats_due: "registry_reach r \<Longrightarrow> registry_reach (snd (control_registry_auto_stats_due now index interval r))"
| broadcast: "registry_reach r \<Longrightarrow> registry_reach (snd (control_registry_broadcast_command now cmd line r))"
| send: "registry_reach r \<Longrightarrow> registry_reach (snd (control_registry_send_command_to now target cmd line r))"
| dosage: "registry_reach r \<Longrightarrow> registry_reach (snd (control_registry_apply_role_dosage now target forks r))"

lemma registry_reach_ok: "registry_reach r \<Longrightarrow> registry_ok r"
proof (induction rule: registry_reach.induct)
  case init
  then show ?case by (simp add: registry_ok_def registry_init_once_def no_session_def session_ok_def numbered_def CONTROL_SESSION_QUEUE_CAP_def)
next
  case (register r now sock ip hello)
  then show ?case
  proof (cases hello)
    case (Some h)
    then show ?thesis using register_spec(1)[OF register.IH register.hyps(2), of now sock ip h] by (metis prod.collapse)
  qed (simp add: control_registry_register_def)
next
  case (post r now index cmd line)
  then show ?case using post_spec(1) by (metis prod.collapse)
next
  case (wait r index bufsize waited)
  then show ?case using wait_spec[of r index bufsize waited] by (auto split: prod.splits)
qed (simp_all add: unregister_ok touch_ok record_stats_ok stats_due_ok broadcast_ok send_ok dosage_ok)

text \<open>C25. Control sessions of every reachable registry: the sessions in use have different numbers; a
  command that is posted is appended to the commands of its session and of no other, and is
  refused only when the session is closed or sixteen commands wait; the command that is handed
  over is the oldest; and a session that opens begins with the wished pause and share of pruners.\<close>

theorem control_commands_fifo:
  assumes "registry_reach r"
  shows "(\<forall>i < MAX_CONTROL_SESSIONS. \<forall>j < MAX_CONTROL_SESSIONS. in_use (g_sessions r ! i) \<longrightarrow> in_use (g_sessions r ! j) \<longrightarrow>
      session_no (g_sessions r ! i) = session_no (g_sessions r ! j) \<longrightarrow> i = j)
    \<and> (\<forall>now index cmd line r'. control_registry_post_command now index cmd line r = (0, r') \<longrightarrow>
      pending (g_sessions r' ! nat index) = pending (g_sessions r ! nat index) @ [\<lparr>pc_cmd = cmd, pc_line = (case line of None \<Rightarrow> [] | Some l \<Rightarrow> take 255 l)\<rparr>]
      \<and> (\<forall>k. k \<noteq> nat index \<longrightarrow> g_sessions r' ! k = g_sessions r ! k))
    \<and> (\<forall>now cmd line. \<forall>i < MAX_CONTROL_SESSIONS. in_use (g_sessions r ! i) \<longrightarrow> length (pending (g_sessions r ! i)) < 16 \<longrightarrow>
      fst (control_registry_post_command now (int i) cmd line r) = 0)
    \<and> (\<forall>index bufsize waited rc got r'. control_registry_wait_command index bufsize waited r = (rc, Some got, r') \<longrightarrow>
      (\<exists>c. pending (g_sessions r ! nat index) = c # pending (g_sessions r' ! nat index) \<and> got = (pc_cmd c, take (bufsize - 1) (pc_line c))))
    \<and> (\<forall>now sock ip h i r'. control_registry_register now sock ip (Some h) r = (int i, r') \<longrightarrow> g_next_session_no r \<noteq> -1 \<longrightarrow>
      pending (g_sessions r' ! i) = wished_commands r (machine_uid (h_identity h)))"
    (is "?numbers \<and> ?post \<and> ?room \<and> ?wait \<and> ?register")
proof (intro conjI)
  have ok: "registry_ok r" by (rule registry_reach_ok[OF assms])
  show ?numbers using ok by (simp add: registry_ok_def numbered_def)
  show ?post using post_spec(2)[OF ok] by blast
  show ?room by (simp add: control_registry_post_command_def pending_def CONTROL_SESSION_QUEUE_CAP_def)
  show ?wait
  proof (intro allI impI)
    fix index bufsize waited rc got r' assume "control_registry_wait_command index bufsize waited r = (rc, Some got, r')"
    then show "\<exists>c. pending (g_sessions r ! nat index) = c # pending (g_sessions r' ! nat index) \<and> got = (pc_cmd c, take (bufsize - 1) (pc_line c))"
      using wait_spec[OF ok, of index bufsize waited] by (auto simp: oldest_taken_def)
  qed
  show ?register
  proof (intro allI impI)
    fix now sock ip h i r' assume "control_registry_register now sock ip (Some h) r = (int i, r')" "g_next_session_no r \<noteq> -1"
    then show "pending (g_sessions r' ! i) = wished_commands r (machine_uid (h_identity h))"
      using register_spec(3)[OF ok, of now sock ip h "int i" r'] by simp
  qed
qed

definition sample_registry :: registry where
  "sample_registry = snd (control_registry_register 50 7 None (Some sample_hello) registry_init_once)"

lemma sample_registry_eq:
  "sample_registry = (set_session 0 (start_session 50 7 None sample_hello 1 no_session) registry_init_once)\<lparr>g_next_session_no := 2\<rparr>"
proof -
  have "first_index (\<lambda>s. \<not> in_use s) (g_sessions registry_init_once) = Some 0"
    by (simp add: first_index_def registry_init_once_def no_session_def MAX_CONTROL_SESSIONS_def upt_rec)
  moreover have "desired_role_find_locked uid registry_init_once = None" for uid
    by (auto simp: desired_role_find_locked_def first_index_none registry_init_once_def)
  ultimately show ?thesis
    by (simp add: sample_registry_def control_registry_register_def post_wishes_def registry_init_once_def MAX_CONTROL_SESSIONS_def)
qed

theorem control_commands_fifo_witness:
  "registry_reach sample_registry
    \<and> (\<exists>r'. control_registry_post_command 60 0 CTRL_COMMAND (Some ''pause'') sample_registry = (0, r')
         \<and> pending (g_sessions r' ! 0) = pending (g_sessions sample_registry ! 0) @ [\<lparr>pc_cmd = CTRL_COMMAND, pc_line = ''pause''\<rparr>])"
proof -
  have next1: "g_next_session_no registry_init_once \<noteq> -1" by (simp add: registry_init_once_def)
  have r: "registry_reach sample_registry" unfolding sample_registry_def by (rule registry_reach.register[OF registry_reach.init next1])
  have s0: "g_sessions sample_registry ! 0 = start_session 50 7 None sample_hello 1 no_session" "length (g_sessions sample_registry) = MAX_CONTROL_SESSIONS"
    by (simp_all add: sample_registry_eq set_session_def registry_init_once_def MAX_CONTROL_SESSIONS_def)
  have open0: "in_use (g_sessions sample_registry ! 0)" "length (pending (g_sessions sample_registry ! 0)) < 16"
    unfolding s0 by (simp_all add: start_session_def pending_def)
  obtain a r' where p: "control_registry_post_command 60 (int 0) CTRL_COMMAND (Some ''pause'') sample_registry = (a, r')" by fastforce
  have "0 < MAX_CONTROL_SESSIONS" by (simp add: MAX_CONTROL_SESSIONS_def)
  then have "a = 0" using control_commands_fifo[OF r] open0 p by (metis fst_conv)
  then have "pending (g_sessions r' ! nat (int 0)) = pending (g_sessions sample_registry ! nat (int 0)) @ [\<lparr>pc_cmd = CTRL_COMMAND, pc_line = take 255 ''pause''\<rparr>]"
    using control_commands_fifo[OF r] p by (metis option.simps(5))
  then show ?thesis using r p \<open>a = 0\<close> by simp
qed

end
