(* ===== verification/Known_Clients.thy ===== *)
theory Known_Clients
  imports Control_Registry
begin

text \<open>
  The register of the machines that the server has seen (\<open>known_clients_registry.c\<close>): open
  sessions, cumulated counters and the file that keeps them across restarts. The clock, the
  allocations and the answers of the file system are arguments; locks are not modelled. The
  file is its bytes, in the layout that the structures have on a 64-bit machine.
\<close>

section \<open>The state\<close>

definition KNOWN_CLIENT_MAX_SESSIONS :: nat where "KNOWN_CLIENT_MAX_SESSIONS = 8"
definition CLIENT_MODE_SEARCH :: u8 where "CLIENT_MODE_SEARCH = 0"
definition KNOWN_CLIENTS_FILE_MAGIC :: u32 where "KNOWN_CLIENTS_FILE_MAGIC = 0x314c434b"

record known_client_session =
  ks_in_use :: bool
  ks_client_uid :: "u8 list"
  ks_mode :: u8
  connect_time :: int
  last_pruner_checked :: u64
  last_pruner_removed :: u64

text \<open>The active sessions are counted by an \<open>int\<close> that stays between 0 and 8; the connections by one
  that wraps, kept as its 32 bits.\<close>

record known_client =
  kc_in_use :: bool
  kc_machine_uid :: "u8 list"
  kc_label :: "u8 list"
  kc_peer_ip :: "u8 list"
  kc_mode :: u8
  nb_active_sessions :: int
  nb_active_search :: int
  nb_active_prune :: int
  nb_connections_total :: u32
  first_seen :: int
  last_seen :: int
  total_pruner_checked :: u64
  total_pruner_removed :: u64
  best_max_result :: u64
  cumulative_uptime_seconds :: u64
  kc_sessions :: "known_client_session list"

record known_clients =
  g_known_clients :: "known_client list"
  g_known_clients_mutation_count :: u64

definition no_client :: known_client where
  "no_client = \<lparr>kc_in_use = False, kc_machine_uid = replicate MACHINE_UID_BYTES 0, kc_label = replicate CLIENT_LABEL_MAX 0,
     kc_peer_ip = replicate PEER_IP_MAX_LEN 0, kc_mode = 0, nb_active_sessions = 0, nb_active_search = 0, nb_active_prune = 0,
     nb_connections_total = 0, first_seen = 0, last_seen = 0, total_pruner_checked = 0, total_pruner_removed = 0, best_max_result = 0,
     cumulative_uptime_seconds = 0,
     kc_sessions = replicate KNOWN_CLIENT_MAX_SESSIONS \<lparr>ks_in_use = False, ks_client_uid = replicate CLIENT_UID_BYTES 0, ks_mode = 0,
       connect_time = 0, last_pruner_checked = 0, last_pruner_removed = 0\<rparr>\<rparr>"

definition known_clients_init_once :: known_clients where
  "known_clients_init_once = \<lparr>g_known_clients = replicate MAX_KNOWN_CLIENTS no_client, g_known_clients_mutation_count = 0\<rparr>"

definition set_machine :: "nat \<Rightarrow> known_client \<Rightarrow> known_clients \<Rightarrow> known_clients" where
  "set_machine i k st = st\<lparr>g_known_clients := (g_known_clients st)[i := k]\<rparr>"

text \<open>Copy of a text in an array: the rest of the array keeps its bytes.\<close>

definition copy_bounded_string :: "u8 list \<Rightarrow> nat \<Rightarrow> u8 list option \<Rightarrow> u8 list" where
  "copy_bounded_string out out_size source =
     (let text = c_string (case source of None \<Rightarrow> [] | Some s \<Rightarrow> s);
          len = (if length text \<ge> out_size then out_size - 1 else length text)
      in take len text @ [0] @ drop (Suc len) out)"

section \<open>Looking up\<close>

definition find_machine_index :: "u8 list \<Rightarrow> known_clients \<Rightarrow> nat option" where
  "find_machine_index uid st = first_index (\<lambda>k. kc_in_use k \<and> kc_machine_uid k = uid) (g_known_clients st)"

definition victim_step :: "known_client list \<Rightarrow> nat \<Rightarrow> (nat \<times> int) option \<Rightarrow> (nat \<times> int) option" where
  "victim_step ks i victim =
     (if nb_active_sessions (ks ! i) = 0 \<and> (case victim of None \<Rightarrow> True | Some (_, oldest) \<Rightarrow> last_seen (ks ! i) < oldest)
      then Some (i, last_seen (ks ! i)) else victim)"

definition allocate_machine_slot :: "known_clients \<Rightarrow> (nat \<times> known_clients) option" where
  "allocate_machine_slot st =
     (case first_index (\<lambda>k. \<not> kc_in_use k) (g_known_clients st) of
        Some i \<Rightarrow> Some (i, st)
      | None \<Rightarrow>
          (case fold (victim_step (g_known_clients st)) [0..<length (g_known_clients st)] None of
             None \<Rightarrow> None
           | Some (i, _) \<Rightarrow> Some (i, set_machine i no_client st)))"

definition find_session_index :: "known_client \<Rightarrow> u8 list \<Rightarrow> nat option" where
  "find_session_index k uid = first_index (\<lambda>s. ks_in_use s \<and> ks_client_uid s = uid) (kc_sessions k)"

section \<open>Events\<close>

definition count_role :: "u8 \<Rightarrow> int \<Rightarrow> known_client \<Rightarrow> known_client" where
  "count_role mode d k =
     (if mode = CLIENT_MODE_SEARCH then k\<lparr>nb_active_search := nb_active_search k + d\<rparr> else k\<lparr>nb_active_prune := nb_active_prune k + d\<rparr>)"

definition open_session :: "int \<Rightarrow> client_identity \<Rightarrow> known_client \<Rightarrow> known_client option" where
  "open_session now who k =
     (case find_session_index k (client_uid who) of
        Some j \<Rightarrow> Some (k\<lparr>kc_sessions := (kc_sessions k)[j := (kc_sessions k ! j)\<lparr>connect_time := now\<rparr>]\<rparr>)
      | None \<Rightarrow>
          (case first_index (\<lambda>s. \<not> ks_in_use s) (kc_sessions k) of
             None \<Rightarrow> None
           | Some j \<Rightarrow> Some (count_role (cmode who) 1
               (k\<lparr>kc_sessions := (kc_sessions k)[j := \<lparr>ks_in_use = True, ks_client_uid = client_uid who, ks_mode = cmode who, connect_time = now,
                                                   last_pruner_checked = 0, last_pruner_removed = 0\<rparr>],
                  nb_active_sessions := nb_active_sessions k + 1\<rparr>))))"

definition machine_slot :: "int \<Rightarrow> u8 list \<Rightarrow> known_clients \<Rightarrow> (nat \<times> known_clients) option" where
  "machine_slot now uid st =
     (case find_machine_index uid st of
        Some i \<Rightarrow> Some (i, st)
      | None \<Rightarrow>
          (case allocate_machine_slot st of
             None \<Rightarrow> None
           | Some (i, st1) \<Rightarrow> Some (i, set_machine i ((g_known_clients st1 ! i)\<lparr>kc_in_use := True, kc_machine_uid := uid, first_seen := now\<rparr>) st1)))"

definition greet :: "int \<Rightarrow> client_identity \<Rightarrow> u8 list option \<Rightarrow> known_client \<Rightarrow> known_client" where
  "greet now who ip k =
     k\<lparr>kc_label := copy_bounded_string (kc_label k) CLIENT_LABEL_MAX (Some (label who)),
       kc_peer_ip := copy_bounded_string (kc_peer_ip k) PEER_IP_MAX_LEN ip,
       kc_mode := cmode who, last_seen := now, nb_connections_total := nb_connections_total k + 1\<rparr>"

definition known_clients_registry_on_connect :: "int \<Rightarrow> client_identity option \<Rightarrow> u8 list option \<Rightarrow> known_clients \<Rightarrow> known_clients" where
  "known_clients_registry_on_connect now identity ip st =
     (case identity of
        None \<Rightarrow> st
      | Some who \<Rightarrow>
          (case machine_slot now (machine_uid who) st of
             None \<Rightarrow> st
           | Some (i, st1) \<Rightarrow>
               (let k = greet now who ip (g_known_clients st1 ! i) in
                case open_session now who k of
                  None \<Rightarrow> set_machine i k st1
                | Some k' \<Rightarrow> (set_machine i k' st1)\<lparr>g_known_clients_mutation_count := g_known_clients_mutation_count st1 + 1\<rparr>)))"

definition add_pruned :: "control_stats \<Rightarrow> nat \<Rightarrow> known_client \<Rightarrow> known_client" where
  "add_pruned stats j k =
     (let s = kc_sessions k ! j;
          k1 = (if last_pruner_checked s \<le> pruner_checked stats
                then k\<lparr>total_pruner_checked := total_pruner_checked k + (pruner_checked stats - last_pruner_checked s),
                       kc_sessions := (kc_sessions k)[j := s\<lparr>last_pruner_checked := pruner_checked stats\<rparr>]\<rparr> else k);
          s1 = kc_sessions k1 ! j
      in if last_pruner_removed s1 \<le> pruner_removed stats
         then k1\<lparr>total_pruner_removed := total_pruner_removed k1 + (pruner_removed stats - last_pruner_removed s1),
                kc_sessions := (kc_sessions k1)[j := s1\<lparr>last_pruner_removed := pruner_removed stats\<rparr>]\<rparr> else k1)"

definition known_clients_registry_on_stats :: "int \<Rightarrow> u8 list option \<Rightarrow> u8 list option \<Rightarrow> control_stats option \<Rightarrow> known_clients \<Rightarrow> known_clients" where
  "known_clients_registry_on_stats now muid cuid stats st =
     (case (muid, cuid, stats) of
        (Some m, Some c, Some s) \<Rightarrow>
          (case find_machine_index m st of
             None \<Rightarrow> st
           | Some i \<Rightarrow>
               (let k = g_known_clients st ! i;
                    k1 = (case find_session_index k c of None \<Rightarrow> k | Some j \<Rightarrow> add_pruned s j k);
                    k2 = (if best_max_result k1 < cs_max_result s then k1\<lparr>best_max_result := cs_max_result s\<rparr> else k1)
                in (set_machine i (k2\<lparr>last_seen := now\<rparr>) st)\<lparr>g_known_clients_mutation_count := g_known_clients_mutation_count st + 1\<rparr>))
      | _ \<Rightarrow> st)"

definition close_session :: "int \<Rightarrow> nat \<Rightarrow> known_client \<Rightarrow> known_client" where
  "close_session now j k =
     (let s = kc_sessions k ! j;
          elapsed = now - connect_time s;
          k1 = (if elapsed > 0 then k\<lparr>cumulative_uptime_seconds := cumulative_uptime_seconds k + of_int elapsed\<rparr> else k)
      in count_role (ks_mode s) (-1)
           (k1\<lparr>kc_sessions := (kc_sessions k1)[j := s\<lparr>ks_in_use := False\<rparr>], nb_active_sessions := nb_active_sessions k1 - 1\<rparr>))"

definition known_clients_registry_on_disconnect :: "int \<Rightarrow> u8 list option \<Rightarrow> u8 list option \<Rightarrow> known_clients \<Rightarrow> known_clients" where
  "known_clients_registry_on_disconnect now muid cuid st =
     (case (muid, cuid) of
        (Some m, Some c) \<Rightarrow>
          (case find_machine_index m st of
             None \<Rightarrow> st
           | Some i \<Rightarrow>
               (let k = g_known_clients st ! i;
                    k1 = (case find_session_index k c of None \<Rightarrow> k | Some j \<Rightarrow> close_session now j k)
                in (set_machine i (k1\<lparr>last_seen := now\<rparr>) st)\<lparr>g_known_clients_mutation_count := g_known_clients_mutation_count st + 1\<rparr>))
      | _ \<Rightarrow> st)"

definition known_clients_registry_count :: "known_clients \<Rightarrow> nat" where
  "known_clients_registry_count st = length (filter kc_in_use (g_known_clients st))"

definition known_clients_registry_mutation_count :: "known_clients \<Rightarrow> u64" where
  "known_clients_registry_mutation_count st = g_known_clients_mutation_count st"

section \<open>The file\<close>

record known_client_record =
  r_machine_uid :: "u8 list"
  r_label :: "u8 list"
  r_peer_ip :: "u8 list"
  r_mode :: u8
  r_nb_connections_total :: u32
  r_first_seen :: int
  r_last_seen :: int
  r_total_pruner_checked :: u64
  r_total_pruner_removed :: u64
  r_best_max_result :: u64
  r_cumulative_uptime_seconds :: u64

definition fill_record_from_entry :: "known_client \<Rightarrow> known_client_record" where
  "fill_record_from_entry k =
     \<lparr>r_machine_uid = kc_machine_uid k,
      r_label = copy_bounded_string (replicate CLIENT_LABEL_MAX 0) CLIENT_LABEL_MAX (Some (kc_label k)),
      r_peer_ip = copy_bounded_string (replicate PEER_IP_MAX_LEN 0) PEER_IP_MAX_LEN (Some (kc_peer_ip k)),
      r_mode = kc_mode k, r_nb_connections_total = nb_connections_total k, r_first_seen = first_seen k, r_last_seen = last_seen k,
      r_total_pruner_checked = total_pruner_checked k, r_total_pruner_removed = total_pruner_removed k,
      r_best_max_result = best_max_result k, r_cumulative_uptime_seconds = cumulative_uptime_seconds k\<rparr>"

text \<open>One byte of padding follows the mode and four follow the number of connections.\<close>

definition put64 :: "u64 \<Rightarrow> u8 list" where "put64 w = le_bytes 8 (unat w)"

definition record_bytes :: "known_client_record \<Rightarrow> u8 list" where
  "record_bytes r =
     r_machine_uid r @ r_label r @ r_peer_ip r @ [r_mode r, 0] @ le_bytes 4 (unat (r_nb_connections_total r)) @ [0, 0, 0, 0]
     @ put64 (of_int (r_first_seen r)) @ put64 (of_int (r_last_seen r)) @ put64 (r_total_pruner_checked r)
     @ put64 (r_total_pruner_removed r) @ put64 (r_best_max_result r) @ put64 (r_cumulative_uptime_seconds r)"

definition record_of_bytes :: "u8 list \<Rightarrow> known_client_record" where
  "record_of_bytes b =
     \<lparr>r_machine_uid = take 16 b, r_label = take 32 (drop 16 b), r_peer_ip = take 46 (drop 48 b), r_mode = b ! 94,
      r_nb_connections_total = get_u32 (drop 96 b), r_first_seen = sint (get_u64 (drop 104 b)), r_last_seen = sint (get_u64 (drop 112 b)),
      r_total_pruner_checked = get_u64 (drop 120 b), r_total_pruner_removed = get_u64 (drop 128 b),
      r_best_max_result = get_u64 (drop 136 b), r_cumulative_uptime_seconds = get_u64 (drop 144 b)\<rparr>"

definition registry_image :: "known_clients \<Rightarrow> u8 list" where
  "registry_image st =
     (let records = map fill_record_from_entry (filter kc_in_use (g_known_clients st))
      in le_bytes 4 (unat KNOWN_CLIENTS_FILE_MAGIC) @ le_bytes 4 (length records) @ concat (map record_bytes records))"

text \<open>What the environment answers to each call of a save.\<close>

record save_answers =
  records_allocated :: bool
  name_allocated :: bool
  opened :: bool
  header_written :: bool
  records_written :: bool
  closed :: bool
  renamed :: bool

type_synonym files = "string \<rightharpoonup> u8 list"

definition known_clients_registry_save :: "save_answers \<Rightarrow> string option \<Rightarrow> known_clients \<Rightarrow> files \<Rightarrow> int \<times> files" where
  "known_clients_registry_save env filename st fs =
     (case filename of
        None \<Rightarrow> (-1, fs)
      | Some name \<Rightarrow>
          if \<not> records_allocated env then (-1, fs)
          else if \<not> name_allocated env then (-1, fs)
          else (let tmp = name @ ''.tmp'';
                    written = (opened env \<and> header_written env
                               \<and> (known_clients_registry_count st = 0 \<or> records_written env) \<and> closed env)
                in if written \<and> renamed env then (0, fs(name \<mapsto> registry_image st, tmp := None))
                   else (-1, fs(tmp := None))))"

definition apply_persisted_record :: "known_client_record \<Rightarrow> known_clients \<Rightarrow> known_clients" where
  "apply_persisted_record r st =
     (case find_machine_index (r_machine_uid r) st of
        None \<Rightarrow>
          (case allocate_machine_slot st of
             None \<Rightarrow> st
           | Some (i, st1) \<Rightarrow>
               (let k = g_known_clients st1 ! i in
                set_machine i (k\<lparr>kc_in_use := True, kc_machine_uid := r_machine_uid r,
                  kc_label := copy_bounded_string (kc_label k) CLIENT_LABEL_MAX (Some (r_label r)),
                  kc_peer_ip := copy_bounded_string (kc_peer_ip k) PEER_IP_MAX_LEN (Some (r_peer_ip r)),
                  kc_mode := r_mode r, nb_connections_total := r_nb_connections_total r, first_seen := r_first_seen r,
                  last_seen := r_last_seen r, total_pruner_checked := r_total_pruner_checked r,
                  total_pruner_removed := r_total_pruner_removed r, best_max_result := r_best_max_result r,
                  cumulative_uptime_seconds := r_cumulative_uptime_seconds r\<rparr>) st1))
      | Some i \<Rightarrow>
          (let k = g_known_clients st ! i in
           set_machine i (k\<lparr>nb_connections_total := nb_connections_total k + r_nb_connections_total r,
             first_seen := (if first_seen k = 0 \<or> r_first_seen r < first_seen k then r_first_seen r else first_seen k),
             last_seen := (if last_seen k < r_last_seen r then r_last_seen r else last_seen k),
             total_pruner_checked := total_pruner_checked k + r_total_pruner_checked r,
             total_pruner_removed := total_pruner_removed k + r_total_pruner_removed r,
             best_max_result := (if best_max_result k < r_best_max_result r then r_best_max_result r else best_max_result k),
             cumulative_uptime_seconds := cumulative_uptime_seconds k + r_cumulative_uptime_seconds r\<rparr>) st))"

text \<open>The records that a file holds, as many as announced and no more than are there.\<close>

primrec load_records :: "nat \<Rightarrow> u8 list \<Rightarrow> known_clients \<Rightarrow> known_clients" where
  "load_records 0 b st = st"
| "load_records (Suc n) b st = (if length b < 152 then st else load_records n (drop 152 b) (apply_persisted_record (record_of_bytes (take 152 b)) st))"

definition known_clients_registry_load :: "string option \<Rightarrow> files \<Rightarrow> known_clients \<Rightarrow> int \<times> known_clients" where
  "known_clients_registry_load filename fs st =
     (case filename of
        None \<Rightarrow> (-1, st)
      | Some name \<Rightarrow>
          (case fs name of
             None \<Rightarrow> (-1, st)
           | Some b \<Rightarrow>
               if length b < 8 \<or> get_u32 b \<noteq> KNOWN_CLIENTS_FILE_MAGIC then (-1, st)
               else (0, load_records (unat (get_u32 (drop 4 b))) (drop 8 b) st)))"

section \<open>The invariant\<close>

definition active :: "(known_client_session \<Rightarrow> bool) \<Rightarrow> known_client \<Rightarrow> int" where
  "active P k = int (length (filter (\<lambda>s. ks_in_use s \<and> P s) (kc_sessions k)))"

definition text_array :: "nat \<Rightarrow> u8 list \<Rightarrow> bool" where
  "text_array n b \<longleftrightarrow> length b = n \<and> 0 \<in> set b"

definition time_ok :: "int \<Rightarrow> bool" where
  "time_ok t \<longleftrightarrow> - (2 ^ 63) \<le> t \<and> t < 2 ^ 63"

definition sessions_distinct :: "known_client_session list \<Rightarrow> bool" where
  "sessions_distinct ss \<longleftrightarrow> distinct (map ks_client_uid (filter ks_in_use ss))"

definition client_ok :: "known_client \<Rightarrow> bool" where
  "client_ok k \<longleftrightarrow> length (kc_sessions k) = KNOWN_CLIENT_MAX_SESSIONS \<and> nb_active_sessions k = active (\<lambda>s. True) k
     \<and> nb_active_search k = active (\<lambda>s. ks_mode s = CLIENT_MODE_SEARCH) k \<and> nb_active_prune k = active (\<lambda>s. ks_mode s \<noteq> CLIENT_MODE_SEARCH) k
     \<and> sessions_distinct (kc_sessions k) \<and> length (kc_machine_uid k) = MACHINE_UID_BYTES
     \<and> text_array CLIENT_LABEL_MAX (kc_label k) \<and> text_array PEER_IP_MAX_LEN (kc_peer_ip k) \<and> time_ok (first_seen k) \<and> time_ok (last_seen k)"

definition known_ok :: "known_clients \<Rightarrow> bool" where
  "known_ok st \<longleftrightarrow> length (g_known_clients st) = MAX_KNOWN_CLIENTS
     \<and> distinct (map kc_machine_uid (filter kc_in_use (g_known_clients st)))
     \<and> (\<forall>k \<in> set (g_known_clients st). client_ok k \<and> (kc_in_use k \<or> k = no_client))"

text \<open>Lists of slots, of which those in use have keys of their own.\<close>

lemma count_update: "j < length xs \<Longrightarrow> int (length (filter P (xs[j := y]))) = int (length (filter P xs)) - of_bool (P (xs ! j)) + of_bool (P y)"
proof (induction xs arbitrary: j)
  case (Cons x xs)
  then show ?case by (cases j) auto
qed simp

lemma distinct_keys_iff: "distinct (map key (filter P xs)) \<longleftrightarrow> (\<forall>i < length xs. \<forall>j < length xs. P (xs ! i) \<longrightarrow> P (xs ! j) \<longrightarrow> key (xs ! i) = key (xs ! j) \<longrightarrow> i = j)"
proof (induction xs)
  case (Cons x xs)
  have "(\<forall>i < length (x # xs). \<forall>j < length (x # xs). P ((x # xs) ! i) \<longrightarrow> P ((x # xs) ! j) \<longrightarrow> key ((x # xs) ! i) = key ((x # xs) ! j) \<longrightarrow> i = j)
    \<longleftrightarrow> (P x \<longrightarrow> (\<forall>j < length xs. P (xs ! j) \<longrightarrow> key x \<noteq> key (xs ! j)))
      \<and> (\<forall>i < length xs. \<forall>j < length xs. P (xs ! i) \<longrightarrow> P (xs ! j) \<longrightarrow> key (xs ! i) = key (xs ! j) \<longrightarrow> i = j)"
    by (simp add: All_less_Suc2 eq_commute) blast
  moreover have "key x \<notin> key ` set (filter P xs) \<longleftrightarrow> (\<forall>j < length xs. P (xs ! j) \<longrightarrow> key x \<noteq> key (xs ! j))"
    by (auto simp: in_set_conv_nth)
  ultimately show ?case using Cons.IH by (cases "P x") simp_all
qed simp

lemma distinct_keys_update:
  assumes "distinct (map key (filter P xs))" "P y \<Longrightarrow> \<forall>x \<in> set xs. P x \<longrightarrow> key x \<noteq> key y"
  shows "distinct (map key (filter P (xs[j := y])))"
proof (cases "j < length xs")
  case True
  then show ?thesis using assms unfolding distinct_keys_iff all_set_conv_all_nth by (auto simp: nth_list_update)
qed (use assms(1) in \<open>simp add: list_update_beyond\<close>)

lemma distinct_keys_same:
  assumes "distinct (map key (filter P xs))" "j < length xs" "P y \<Longrightarrow> P (xs ! j)" "key y = key (xs ! j)"
  shows "distinct (map key (filter P (xs[j := y])))"
  using assms unfolding distinct_keys_iff by (auto simp: nth_list_update split: if_splits)

lemma active_update:
  "j < length (kc_sessions k) \<Longrightarrow> active P (k\<lparr>kc_sessions := (kc_sessions k)[j := s]\<rparr>) =
     active P k - of_bool (ks_in_use (kc_sessions k ! j) \<and> P (kc_sessions k ! j)) + of_bool (ks_in_use s \<and> P s)"
  by (simp add: active_def count_update)

lemma active_sessions: "kc_sessions k' = kc_sessions k \<Longrightarrow> active P k' = active P k"
  by (simp add: active_def)

lemma text_array_copy: "0 < n \<Longrightarrow> length out = n \<Longrightarrow> text_array n (copy_bounded_string out n src)"
  by (auto simp: text_array_def copy_bounded_string_def Let_def)

lemma no_client_ok: "client_ok no_client"
  by (simp add: client_ok_def no_client_def active_def sessions_distinct_def text_array_def time_ok_def KNOWN_CLIENT_MAX_SESSIONS_def CLIENT_LABEL_MAX_def PEER_IP_MAX_LEN_def filter_replicate)

lemma known_okD: "known_ok st \<Longrightarrow> i < MAX_KNOWN_CLIENTS \<Longrightarrow> client_ok (g_known_clients st ! i)"
  unfolding known_ok_def by (metis nth_mem)

lemma known_ok_index: "known_ok st \<Longrightarrow> first_index P (g_known_clients st) = Some i \<Longrightarrow> i < MAX_KNOWN_CLIENTS \<and> P (g_known_clients st ! i)"
  using first_index_spec[of P "g_known_clients st" i] by (simp add: known_ok_def)

lemma known_ok_count [simp]: "known_ok (st\<lparr>g_known_clients_mutation_count := c\<rparr>) = known_ok st"
  by (simp add: known_ok_def)

lemma set_machine_nth [simp]: "known_ok st \<Longrightarrow> i < MAX_KNOWN_CLIENTS \<Longrightarrow> g_known_clients (set_machine i k st) ! i = k"
  by (simp add: set_machine_def known_ok_def)

lemma set_machine_other [simp]: "j \<noteq> i \<Longrightarrow> g_known_clients (set_machine i k st) ! j = g_known_clients st ! j"
  by (simp add: set_machine_def)

lemma set_machine_twice [simp]: "set_machine i k (set_machine i k' st) = set_machine i k st"
  by (simp add: set_machine_def)

lemma known_ok_same:
  assumes "known_ok st" "i < MAX_KNOWN_CLIENTS" "client_ok k" "kc_in_use k" "kc_in_use (g_known_clients st ! i)" "kc_machine_uid k = kc_machine_uid (g_known_clients st ! i)"
  shows "known_ok (set_machine i k st)"
  using assms set_update_subset_insert[of "g_known_clients st" i k] distinct_keys_same[of kc_machine_uid kc_in_use "g_known_clients st" i k]
  unfolding known_ok_def set_machine_def by auto

lemma known_ok_new:
  assumes "known_ok st" "client_ok k" "kc_in_use k" "find_machine_index (kc_machine_uid k) st = None"
  shows "known_ok (set_machine i k st)"
  using assms set_update_subset_insert[of "g_known_clients st" i k] distinct_keys_update[of kc_machine_uid kc_in_use "g_known_clients st" k i]
  unfolding known_ok_def set_machine_def find_machine_index_def first_index_none by auto

text \<open>A machine that leaves the register has no session and was seen least recently.\<close>

lemma victim_spec:
  "case fold (victim_step ks) [0..<m] None of
     None \<Rightarrow> \<forall>j < m. nb_active_sessions (ks ! j) \<noteq> 0
   | Some (i, t) \<Rightarrow> i < m \<and> nb_active_sessions (ks ! i) = 0 \<and> t = last_seen (ks ! i) \<and> (\<forall>j < m. nb_active_sessions (ks ! j) = 0 \<longrightarrow> t \<le> last_seen (ks ! j))"
proof (induction m)
  case (Suc m)
  then show ?case by (auto simp: victim_step_def less_Suc_eq split: option.splits)
qed simp

definition slot_for :: "known_clients \<Rightarrow> nat \<Rightarrow> known_clients \<Rightarrow> bool" where
  "slot_for st i st1 \<longleftrightarrow> i < MAX_KNOWN_CLIENTS \<and> g_known_clients st1 ! i = no_client \<and> nb_active_sessions (g_known_clients st ! i) = 0
     \<and> st1 = set_machine i no_client st
     \<and> (kc_in_use (g_known_clients st ! i) \<longrightarrow> (\<forall>j < MAX_KNOWN_CLIENTS. kc_in_use (g_known_clients st ! j)
          \<and> (nb_active_sessions (g_known_clients st ! j) = 0 \<longrightarrow> last_seen (g_known_clients st ! i) \<le> last_seen (g_known_clients st ! j))))"

lemma allocate_spec:
  assumes "known_ok st"
  shows "case allocate_machine_slot st of
    None \<Rightarrow> \<forall>j < MAX_KNOWN_CLIENTS. kc_in_use (g_known_clients st ! j) \<and> nb_active_sessions (g_known_clients st ! j) \<noteq> 0
  | Some (i, st1) \<Rightarrow> slot_for st i st1"
proof (cases "first_index (\<lambda>k. \<not> kc_in_use k) (g_known_clients st)")
  case (Some i)
  then have i: "i < MAX_KNOWN_CLIENTS" "\<not> kc_in_use (g_known_clients st ! i)" using known_ok_index[OF assms] by blast+
  then have n: "g_known_clients st ! i = no_client" using assms unfolding known_ok_def by (metis nth_mem)
  then have "st = set_machine i no_client st" unfolding set_machine_def using list_update_id[of "g_known_clients st" i] by simp
  then show ?thesis using Some i n by (simp add: allocate_machine_slot_def slot_for_def no_client_def)
next
  case None
  then have use: "\<forall>j < MAX_KNOWN_CLIENTS. kc_in_use (g_known_clients st ! j)" using assms by (auto simp: first_index_none known_ok_def)
  have l: "length (g_known_clients st) = MAX_KNOWN_CLIENTS" using assms by (simp add: known_ok_def)
  show ?thesis using victim_spec[where ks = "g_known_clients st" and m = MAX_KNOWN_CLIENTS] use None assms
    by (auto simp: allocate_machine_slot_def slot_for_def l split: option.splits)
qed

section \<open>Every event keeps the invariant\<close>

lemma client_ok_best:
  "client_ok (k\<lparr>best_max_result := b\<rparr>) = client_ok k"
  by (simp add: client_ok_def active_def)

lemma client_ok_seen: "client_ok k \<Longrightarrow> time_ok t \<Longrightarrow> client_ok (k\<lparr>last_seen := t\<rparr>)"
  by (simp add: client_ok_def active_def)

lemma session_index: "client_ok k \<Longrightarrow> find_session_index k uid = Some j \<Longrightarrow> j < length (kc_sessions k) \<and> ks_in_use (kc_sessions k ! j) \<and> ks_client_uid (kc_sessions k ! j) = uid"
  unfolding find_session_index_def using first_index_spec by fastforce

lemma client_ok_session:
  assumes "client_ok k" "j < length (kc_sessions k)" "ks_in_use s = ks_in_use (kc_sessions k ! j)" "ks_client_uid s = ks_client_uid (kc_sessions k ! j)" "ks_mode s = ks_mode (kc_sessions k ! j)"
  shows "client_ok (k\<lparr>kc_sessions := (kc_sessions k)[j := s]\<rparr>)"
  using assms active_update[OF assms(2), of _ s] distinct_keys_same[of ks_client_uid ks_in_use "kc_sessions k" j s]
  by (simp add: client_ok_def sessions_distinct_def)

lemma client_ok_add_pruned:
  assumes "client_ok k" "j < length (kc_sessions k)"
  shows "client_ok (add_pruned stats j k) \<and> kc_in_use (add_pruned stats j k) = kc_in_use k \<and> kc_machine_uid (add_pruned stats j k) = kc_machine_uid k"
proof -
  let ?s = "kc_sessions k ! j"
  have a: "client_ok (k\<lparr>kc_sessions := (kc_sessions k)[j := ?s\<lparr>last_pruner_checked := c, last_pruner_removed := d\<rparr>]\<rparr>)"
    and b: "client_ok (k\<lparr>kc_sessions := (kc_sessions k)[j := ?s\<lparr>last_pruner_checked := c\<rparr>]\<rparr>)"
    and c: "client_ok (k\<lparr>kc_sessions := (kc_sessions k)[j := ?s\<lparr>last_pruner_removed := d\<rparr>]\<rparr>)" for c d
    by (rule client_ok_session[OF assms]; simp)+
  have "client_ok (k\<lparr>total_pruner_checked := x, total_pruner_removed := y, kc_sessions := ss\<rparr>) = client_ok (k\<lparr>kc_sessions := ss\<rparr>)"
    "client_ok (k\<lparr>total_pruner_checked := x, kc_sessions := ss\<rparr>) = client_ok (k\<lparr>kc_sessions := ss\<rparr>)"
    "client_ok (k\<lparr>total_pruner_removed := y, kc_sessions := ss\<rparr>) = client_ok (k\<lparr>kc_sessions := ss\<rparr>)" for x y ss by (simp_all add: client_ok_def active_def)
  then show ?thesis using assms a b c by (simp add: add_pruned_def Let_def)
qed

lemma client_ok_close:
  assumes "client_ok k" "j < length (kc_sessions k)" "ks_in_use (kc_sessions k ! j)"
  shows "client_ok (close_session now j k) \<and> kc_in_use (close_session now j k) = kc_in_use k \<and> kc_machine_uid (close_session now j k) = kc_machine_uid k"
proof -
  let ?s = "(kc_sessions k ! j)\<lparr>ks_in_use := False\<rparr>" and ?k = "close_session now j k"
  have a: "active P (k\<lparr>kc_sessions := (kc_sessions k)[j := ?s]\<rparr>) = active P k - of_bool (P (kc_sessions k ! j))" for P
    using active_update[OF assms(2), of P ?s] assms(3) by simp
  have e: "active P ?k = active P (k\<lparr>kc_sessions := (kc_sessions k)[j := ?s]\<rparr>)" for P
    by (rule active_sessions) (simp add: close_session_def count_role_def Let_def)
  have "sessions_distinct ((kc_sessions k)[j := ?s])"
    using assms(1) distinct_keys_same[of ks_client_uid ks_in_use "kc_sessions k" j ?s] assms(2) by (simp add: client_ok_def sessions_distinct_def)
  moreover have "nb_active_sessions ?k = nb_active_sessions k - 1"
    "nb_active_search ?k = nb_active_search k - of_bool (ks_mode (kc_sessions k ! j) = CLIENT_MODE_SEARCH)"
    "nb_active_prune ?k = nb_active_prune k - of_bool (ks_mode (kc_sessions k ! j) \<noteq> CLIENT_MODE_SEARCH)"
    by (simp_all add: close_session_def count_role_def Let_def)
  ultimately show ?thesis using assms(1) unfolding client_ok_def e a
    by (simp add: close_session_def count_role_def Let_def)
qed

lemma client_ok_open:
  assumes "client_ok k" "open_session now who k = Some k'"
  shows "client_ok k' \<and> kc_in_use k' = kc_in_use k \<and> kc_machine_uid k' = kc_machine_uid k"
proof (cases "find_session_index k (client_uid who)")
  case (Some j)
  then have k': "k' = k\<lparr>kc_sessions := (kc_sessions k)[j := (kc_sessions k ! j)\<lparr>connect_time := now\<rparr>]\<rparr>" using assms(2) by (simp add: open_session_def)
  show ?thesis unfolding k' using client_ok_session[OF assms(1) session_index[OF assms(1) Some, THEN conjunct1]] by simp
next
  case None
  then obtain j where f: "first_index (\<lambda>s. \<not> ks_in_use s) (kc_sessions k) = Some j" using assms(2) by (auto simp: open_session_def split: option.splits)
  then have j: "j < length (kc_sessions k)" "\<not> ks_in_use (kc_sessions k ! j)" using first_index_spec by fastforce+
  define s where "s = \<lparr>ks_in_use = True, ks_client_uid = client_uid who, ks_mode = cmode who, connect_time = now, last_pruner_checked = 0, last_pruner_removed = 0\<rparr>"
  have k': "k' = count_role (cmode who) 1 (k\<lparr>kc_sessions := (kc_sessions k)[j := s], nb_active_sessions := nb_active_sessions k + 1\<rparr>)"
    using assms(2) None f by (simp add: open_session_def s_def)
  have a: "active P (k\<lparr>kc_sessions := (kc_sessions k)[j := s]\<rparr>) = active P k + of_bool (P s)" for P
    using active_update[OF j(1), of P s] j(2) by (simp add: s_def)
  have e: "active P k' = active P (k\<lparr>kc_sessions := (kc_sessions k)[j := s]\<rparr>)" for P by (rule active_sessions) (simp add: k' count_role_def)
  have "sessions_distinct ((kc_sessions k)[j := s])"
    using assms(1) None distinct_keys_update[of ks_client_uid ks_in_use "kc_sessions k" s j]
    by (auto simp: client_ok_def sessions_distinct_def find_session_index_def first_index_none s_def)
  moreover have "ks_mode s = cmode who" by (simp add: s_def)
  ultimately show ?thesis using assms(1) unfolding client_ok_def e a by (simp add: k' count_role_def)
qed

lemma client_ok_greet:
  assumes "client_ok k" "time_ok now"
  shows "client_ok (greet now who ip k)" "kc_in_use (greet now who ip k) = kc_in_use k" "kc_machine_uid (greet now who ip k) = kc_machine_uid k"
  using assms text_array_copy[of CLIENT_LABEL_MAX] text_array_copy[of PEER_IP_MAX_LEN]
  by (simp_all add: client_ok_def greet_def active_def text_array_def CLIENT_LABEL_MAX_def PEER_IP_MAX_LEN_def)

lemma machine_slot_spec:
  assumes "known_ok st" "length uid = MACHINE_UID_BYTES" "time_ok now" "machine_slot now uid st = Some (i, st1)"
  shows "known_ok st1 \<and> i < MAX_KNOWN_CLIENTS \<and> kc_in_use (g_known_clients st1 ! i) \<and> kc_machine_uid (g_known_clients st1 ! i) = uid
    \<and> (\<forall>j. j \<noteq> i \<longrightarrow> g_known_clients st1 ! j = g_known_clients st ! j)
    \<and> (kc_in_use (g_known_clients st ! i) \<and> kc_machine_uid (g_known_clients st ! i) = uid \<or> nb_active_sessions (g_known_clients st ! i) = 0)"
proof (cases "find_machine_index uid st")
  case (Some j)
  then show ?thesis using assms known_ok_index[OF assms(1), of _ j] by (auto simp: machine_slot_def find_machine_index_def)
next
  case None
  then obtain s where a: "allocate_machine_slot st = Some (i, s)"
    and st1: "st1 = set_machine i ((g_known_clients s ! i)\<lparr>kc_in_use := True, kc_machine_uid := uid, first_seen := now\<rparr>) s"
    using assms(4) by (auto simp: machine_slot_def split: option.splits)
  have s: "slot_for st i s" using allocate_spec[OF assms(1)] a by simp
  let ?k = "no_client\<lparr>kc_in_use := True, kc_machine_uid := uid, first_seen := now\<rparr>"
  have "s = set_machine i no_client st" "g_known_clients s ! i = no_client" using s unfolding slot_for_def by blast+
  then have e: "st1 = set_machine i ?k st" using assms(1) unfolding st1 by (metis set_machine_twice)
  have "client_ok ?k" using no_client_ok assms(2,3) by (simp add: client_ok_def active_def)
  then have "known_ok st1" unfolding e by (rule known_ok_new[OF assms(1)]) (simp_all add: None)
  then show ?thesis using s assms(1) by (simp add: e slot_for_def)
qed

lemma on_connect_spec:
  assumes "known_ok st" "length (machine_uid who) = MACHINE_UID_BYTES" "time_ok now"
  shows "known_ok (known_clients_registry_on_connect now (Some who) ip st)
    \<and> (\<forall>j. 0 < nb_active_sessions (g_known_clients st ! j) \<longrightarrow> kc_machine_uid (g_known_clients st ! j) \<noteq> machine_uid who \<longrightarrow>
         g_known_clients (known_clients_registry_on_connect now (Some who) ip st) ! j = g_known_clients st ! j)"
proof (cases "machine_slot now (machine_uid who) st")
  case None
  then show ?thesis using assms(1) by (simp add: known_clients_registry_on_connect_def)
next
  case (Some p)
  obtain i st1 where p: "p = (i, st1)" by fastforce
  note m = machine_slot_spec[OF assms(1,2,3) Some[unfolded p]]
  have g: "client_ok (greet now who ip (g_known_clients st1 ! i))" using m known_okD by (blast intro: client_ok_greet(1)[OF _ assms(3)])
  note k = known_ok_same[of st1 i]
  have other: "g_known_clients (set_machine i k' st1) ! j = g_known_clients st ! j"
    if "0 < nb_active_sessions (g_known_clients st ! j)" "kc_machine_uid (g_known_clients st ! j) \<noteq> machine_uid who" for j k'
  proof -
    have "j \<noteq> i" using m that by auto
    then show ?thesis using m by simp
  qed
  show ?thesis
  proof (cases "open_session now who (greet now who ip (g_known_clients st1 ! i))")
    case None
    then have "known_clients_registry_on_connect now (Some who) ip st = set_machine i (greet now who ip (g_known_clients st1 ! i)) st1"
      using Some p by (simp add: known_clients_registry_on_connect_def Let_def)
    then show ?thesis using m other k[OF _ _ g] by (simp add: greet_def)
  next
    case o: (Some k')
    have k': "client_ok k'" "kc_in_use k'" "kc_machine_uid k' = machine_uid who"
      using client_ok_open[OF g o] m by (simp_all add: greet_def)
    then have "known_ok (set_machine i k' st1)" using k[of k'] m by simp
    then show ?thesis using Some p o other by (simp add: known_clients_registry_on_connect_def Let_def)
  qed
qed

text \<open>The sessions of a machine report counters of their own; the machine adds what they grew by.\<close>

lemma add_pruned_counts:
  assumes "j < length (kc_sessions k)"
  shows "total_pruner_checked (add_pruned stats j k) - total_pruner_checked k
      = last_pruner_checked (kc_sessions (add_pruned stats j k) ! j) - last_pruner_checked (kc_sessions k ! j)"
    "last_pruner_checked (kc_sessions (add_pruned stats j k) ! j) = max (last_pruner_checked (kc_sessions k ! j)) (pruner_checked stats)"
    "total_pruner_removed (add_pruned stats j k) - total_pruner_removed k
      = last_pruner_removed (kc_sessions (add_pruned stats j k) ! j) - last_pruner_removed (kc_sessions k ! j)"
    "last_pruner_removed (kc_sessions (add_pruned stats j k) ! j) = max (last_pruner_removed (kc_sessions k ! j)) (pruner_removed stats)"
  using assms by (auto simp: add_pruned_def Let_def max_def)

lemma known_ok_machine:
  assumes "known_ok st" "find_machine_index m st = Some i"
  shows "i < MAX_KNOWN_CLIENTS" "kc_in_use (g_known_clients st ! i)" "kc_machine_uid (g_known_clients st ! i) = m" "client_ok (g_known_clients st ! i)"
  using known_ok_index[OF assms(1), of "\<lambda>k. kc_in_use k \<and> kc_machine_uid k = m" i] assms known_okD by (auto simp: find_machine_index_def)

lemma on_stats_ok:
  assumes "known_ok st" "time_ok now"
  shows "known_ok (known_clients_registry_on_stats now muid cuid stats st)"
proof (cases "\<exists>m c s i. muid = Some m \<and> cuid = Some c \<and> stats = Some s \<and> find_machine_index m st = Some i")
  case True
  then obtain m c s i where a: "muid = Some m" "cuid = Some c" "stats = Some s" "find_machine_index m st = Some i" by blast
  note i = known_ok_machine[OF assms(1) a(4)]
  let ?k = "g_known_clients st ! i"
  define k1 where "k1 = (case find_session_index ?k c of None \<Rightarrow> ?k | Some j \<Rightarrow> add_pruned s j ?k)"
  have k1: "client_ok k1" "kc_in_use k1" "kc_machine_uid k1 = kc_machine_uid ?k"
    using i client_ok_add_pruned[OF i(4)] session_index[OF i(4), of c] by (cases "find_session_index ?k c"; simp add: k1_def)+
  define k2 where "k2 = (if best_max_result k1 < cs_max_result s then k1\<lparr>best_max_result := cs_max_result s\<rparr> else k1)"
  have k2: "client_ok (k2\<lparr>last_seen := now\<rparr>)" "kc_in_use k2" "kc_machine_uid k2 = kc_machine_uid ?k"
    using k1 client_ok_seen[OF _ assms(2), of k2] by (simp_all add: k2_def client_ok_best)
  have "known_clients_registry_on_stats now muid cuid stats st
      = (set_machine i (k2\<lparr>last_seen := now\<rparr>) st)\<lparr>g_known_clients_mutation_count := g_known_clients_mutation_count st + 1\<rparr>"
    by (simp add: known_clients_registry_on_stats_def a Let_def k2_def k1_def)
  then show ?thesis using known_ok_same[OF assms(1) i(1) k2(1)] k2 i by simp
qed (use assms(1) in \<open>auto simp: known_clients_registry_on_stats_def split: option.splits\<close>)

lemma on_disconnect_ok:
  assumes "known_ok st" "time_ok now"
  shows "known_ok (known_clients_registry_on_disconnect now muid cuid st)"
proof (cases "\<exists>m c i. muid = Some m \<and> cuid = Some c \<and> find_machine_index m st = Some i")
  case True
  then obtain m c i where a: "muid = Some m" "cuid = Some c" "find_machine_index m st = Some i" by blast
  note i = known_ok_machine[OF assms(1) a(3)]
  let ?k = "g_known_clients st ! i"
  define k1 where "k1 = (case find_session_index ?k c of None \<Rightarrow> ?k | Some j \<Rightarrow> close_session now j ?k)"
  have k1: "client_ok k1" "kc_in_use k1" "kc_machine_uid k1 = kc_machine_uid ?k"
    using i client_ok_close[OF i(4)] session_index[OF i(4), of c] by (cases "find_session_index ?k c"; simp add: k1_def)+
  have "known_clients_registry_on_disconnect now muid cuid st
      = (set_machine i (k1\<lparr>last_seen := now\<rparr>) st)\<lparr>g_known_clients_mutation_count := g_known_clients_mutation_count st + 1\<rparr>"
    by (simp add: known_clients_registry_on_disconnect_def a Let_def k1_def)
  then show ?thesis using known_ok_same[OF assms(1) i(1) client_ok_seen[OF k1(1) assms(2)]] k1 i by simp
qed (use assms(1) in \<open>auto simp: known_clients_registry_on_disconnect_def split: option.splits\<close>)

definition persisted_ok :: "known_client_record \<Rightarrow> bool" where
  "persisted_ok r \<longleftrightarrow> length (r_machine_uid r) = MACHINE_UID_BYTES \<and> time_ok (r_first_seen r) \<and> time_ok (r_last_seen r)"

lemma apply_record_ok:
  assumes "known_ok st" "persisted_ok r"
  shows "known_ok (apply_persisted_record r st)"
proof (cases "find_machine_index (r_machine_uid r) st")
  case (Some i)
  note i = known_ok_machine[OF assms(1) Some]
  show ?thesis unfolding apply_persisted_record_def Some option.case Let_def
    by (rule known_ok_same[OF assms(1) i(1)]) (use i assms(2) in \<open>simp_all add: client_ok_def active_def persisted_ok_def\<close>)
next
  case None
  show ?thesis
  proof (cases "allocate_machine_slot st")
    case a: (Some p)
    obtain i s where p: "p = (i, s)" by fastforce
    have "slot_for st i s" using allocate_spec[OF assms(1)] a p by simp
    then have s: "i < MAX_KNOWN_CLIENTS" "g_known_clients s ! i = no_client" "s = set_machine i no_client st" unfolding slot_for_def by blast+
    have "set_machine i k s = set_machine i k st" for k using s(3) by (metis set_machine_twice)
    moreover have l: "length (kc_label no_client) = CLIENT_LABEL_MAX" "length (kc_peer_ip no_client) = PEER_IP_MAX_LEN" by (simp_all add: no_client_def)
    ultimately show ?thesis unfolding apply_persisted_record_def None option.case a p prod.case Let_def s(2)
      using text_array_copy[OF _ l(1)] text_array_copy[OF _ l(2)] no_client_ok assms(2)
      by (auto intro!: known_ok_new[OF assms(1)] simp: client_ok_def active_def persisted_ok_def CLIENT_LABEL_MAX_def PEER_IP_MAX_LEN_def None)
  qed (simp add: apply_persisted_record_def None assms(1))
qed

lemma sint_time_ok: "time_ok (sint w)" for w :: u64
  using sint_range_size[of w] by (simp add: time_ok_def word_size)

lemma load_records_ok: "known_ok st \<Longrightarrow> known_ok (load_records n b st)"
proof (induction n arbitrary: b st)
  case (Suc n)
  have "known_ok (apply_persisted_record (record_of_bytes (take 152 b)) st)" if "\<not> length b < 152"
    by (rule apply_record_ok[OF Suc.prems]) (use that in \<open>simp add: persisted_ok_def record_of_bytes_def sint_time_ok MACHINE_UID_BYTES_def\<close>)
  then show ?case using Suc by simp
qed simp

inductive known_reach :: "known_clients \<Rightarrow> bool" where
  init: "known_reach known_clients_init_once"
| connect: "known_reach st \<Longrightarrow> length (machine_uid who) = MACHINE_UID_BYTES \<Longrightarrow> time_ok now \<Longrightarrow> known_reach (known_clients_registry_on_connect now (Some who) ip st)"
| stats: "known_reach st \<Longrightarrow> time_ok now \<Longrightarrow> known_reach (known_clients_registry_on_stats now muid cuid s st)"
| disconnect: "known_reach st \<Longrightarrow> time_ok now \<Longrightarrow> known_reach (known_clients_registry_on_disconnect now muid cuid st)"
| load: "known_reach st \<Longrightarrow> known_reach (snd (known_clients_registry_load filename fs st))"

lemma init_ok: "known_ok known_clients_init_once"
  using no_client_ok by (simp add: known_ok_def known_clients_init_once_def) (simp add: no_client_def filter_replicate)

lemma known_reach_ok: "known_reach st \<Longrightarrow> known_ok st"
  by (induction rule: known_reach.induct)
    (auto simp: init_ok on_connect_spec on_stats_ok on_disconnect_ok known_clients_registry_load_def load_records_ok split: option.split)

section \<open>What a restart keeps\<close>

text \<open>What is left of a machine in the file: its texts, counters and times, and no session.\<close>

definition at_rest :: "known_client \<Rightarrow> known_client" where
  "at_rest k =
     k\<lparr>kc_label := c_string (kc_label k) @ replicate (CLIENT_LABEL_MAX - length (c_string (kc_label k))) 0,
       kc_peer_ip := c_string (kc_peer_ip k) @ replicate (PEER_IP_MAX_LEN - length (c_string (kc_peer_ip k))) 0,
       nb_active_sessions := 0, nb_active_search := 0, nb_active_prune := 0, kc_sessions := kc_sessions no_client\<rparr>"

lemma c_string_idem: "c_string (c_string b) = c_string b"
  by (simp add: c_string_def takeWhile_idem)

lemma c_string_short: "text_array n b \<Longrightarrow> length (c_string b) < n"
proof -
  have "0 \<in> set b \<Longrightarrow> length (takeWhile (\<lambda>b. b \<noteq> 0) b) < length b" by (induction b) auto
  then show "text_array n b \<Longrightarrow> length (c_string b) < n" by (auto simp: text_array_def c_string_def)
qed

lemma c_string_end: "c_string (c_string b @ 0 # rest) = c_string b"
  unfolding c_string_def by (induction b) auto

lemma copy_blank:
  assumes "text_array n b"
  shows "copy_bounded_string (replicate n 0) n (Some b) = c_string b @ replicate (n - length (c_string b)) 0"
proof -
  have l: "length (c_string b) < n" by (rule c_string_short[OF assms])
  then have "n - length (c_string b) = Suc (n - Suc (length (c_string b)))" by simp
  then show ?thesis using l by (simp add: copy_bounded_string_def Let_def)
qed

lemma copy_blank_twice:
  assumes "text_array n b"
  shows "copy_bounded_string (replicate n 0) n (Some (c_string b @ replicate (n - length (c_string b)) 0)) = c_string b @ replicate (n - length (c_string b)) 0"
proof -
  have l: "length (c_string b) < n" by (rule c_string_short[OF assms])
  then obtain d where d: "n - length (c_string b) = Suc d" by (metis Suc_diff_Suc)
  then have "text_array n (c_string b @ replicate (n - length (c_string b)) 0)" using l by (simp add: text_array_def)
  from copy_blank[OF this] show ?thesis by (simp add: d c_string_end)
qed

lemma length_record: "length (r_machine_uid r) = 16 \<Longrightarrow> length (r_label r) = 32 \<Longrightarrow> length (r_peer_ip r) = 46 \<Longrightarrow> length (record_bytes r) = 152"
  by (simp add: record_bytes_def put64_def)

lemma get_put64 [simp]: "get_u64 (put64 w @ rest) = w" "get_u64 (put64 w) = w" "length (put64 w) = 8"
  using get_u64_le[of w rest] get_u64_le[of w "[]"] by (simp_all add: put64_def)

lemma sint_time: "time_ok t \<Longrightarrow> sint (of_int t :: u64) = t"
  by (simp add: time_ok_def signed_of_int signed_take_bit_int_eq_self)

lemma record_roundtrip:
  assumes "length (r_machine_uid r) = 16" "length (r_label r) = 32" "length (r_peer_ip r) = 46" "time_ok (r_first_seen r)" "time_ok (r_last_seen r)"
  shows "record_of_bytes (record_bytes r) = r"
proof -
  let ?b = "record_bytes r"
  have "take 16 ?b = r_machine_uid r" "take 32 (drop 16 ?b) = r_label r" "take 46 (drop 48 ?b) = r_peer_ip r" "?b ! 94 = r_mode r"
    using assms(1,2,3) by (simp_all add: record_bytes_def nth_append)
  moreover have "get_u32 (drop 96 ?b) = r_nb_connections_total r" "get_u64 (drop 104 ?b) = of_int (r_first_seen r)" "get_u64 (drop 112 ?b) = of_int (r_last_seen r)"
    "get_u64 (drop 120 ?b) = r_total_pruner_checked r" "get_u64 (drop 128 ?b) = r_total_pruner_removed r" "get_u64 (drop 136 ?b) = r_best_max_result r"
    "get_u64 (drop 144 ?b) = r_cumulative_uptime_seconds r"
    using assms(1,2,3) by (simp_all add: record_bytes_def)
  ultimately show ?thesis using assms(4,5) by (simp add: record_of_bytes_def sint_time)
qed

lemma entry_roundtrip:
  assumes "client_ok k"
  shows "record_of_bytes (record_bytes (fill_record_from_entry k)) = fill_record_from_entry k" "length (record_bytes (fill_record_from_entry k)) = 152"
proof -
  let ?r = "fill_record_from_entry k"
  have "text_array 32 (r_label ?r)" "text_array 46 (r_peer_ip ?r)"
    using text_array_copy[of 32 "replicate 32 0"] text_array_copy[of 46 "replicate 46 0"]
    by (simp_all add: fill_record_from_entry_def CLIENT_LABEL_MAX_def PEER_IP_MAX_LEN_def)
  then have "length (r_machine_uid ?r) = 16" "length (r_label ?r) = 32" "length (r_peer_ip ?r) = 46" "time_ok (r_first_seen ?r)" "time_ok (r_last_seen ?r)"
    using assms by (simp_all add: text_array_def client_ok_def fill_record_from_entry_def MACHINE_UID_BYTES_def)
  then show "record_of_bytes (record_bytes ?r) = ?r" "length (record_bytes ?r) = 152" by (simp_all add: record_roundtrip length_record)
qed

text \<open>A register that holds some machines in its first slots.\<close>

definition first_slots :: "known_client list \<Rightarrow> known_clients \<Rightarrow> bool" where
  "first_slots ks st \<longleftrightarrow> g_known_clients st = ks @ replicate (MAX_KNOWN_CLIENTS - length ks) no_client"

lemma apply_record_slots:
  assumes "first_slots ks st" "length ks < MAX_KNOWN_CLIENTS" "\<forall>k' \<in> set ks. kc_in_use k' \<and> kc_machine_uid k' \<noteq> kc_machine_uid k" "client_ok k" "kc_in_use k"
  shows "first_slots (ks @ [at_rest k]) (apply_persisted_record (fill_record_from_entry k) st)"
proof -
  let ?r = "fill_record_from_entry k" and ?n = "MAX_KNOWN_CLIENTS - length ks"
  obtain d where d: "?n = Suc d" using assms(2) by (metis Suc_diff_Suc)
  then have g: "g_known_clients st = ks @ no_client # replicate d no_client" using assms(1) by (simp add: first_slots_def)
  have absent: "find_machine_index (r_machine_uid ?r) st = None"
    using assms(3) by (auto simp: find_machine_index_def first_index_none g no_client_def fill_record_from_entry_def)
  have "first_index (\<lambda>k. \<not> kc_in_use k) (g_known_clients st) = Some (length ks)"
    unfolding first_index_def find_Some_iff using assms(3) by (intro exI[of _ "length ks"]) (simp add: g no_client_def nth_append)
  then have a: "allocate_machine_slot st = Some (length ks, st)" by (simp add: allocate_machine_slot_def)
  have t: "text_array CLIENT_LABEL_MAX (kc_label k)" "text_array PEER_IP_MAX_LEN (kc_peer_ip k)" using assms(4) by (simp_all add: client_ok_def)
  have "g_known_clients (apply_persisted_record ?r st) = ks @ at_rest k # replicate d no_client"
    unfolding apply_persisted_record_def absent a option.case prod.case Let_def using assms(5) copy_blank[OF t(1)] copy_blank[OF t(2)] copy_blank_twice[OF t(1)] copy_blank_twice[OF t(2)]
    by (simp add: g set_machine_def at_rest_def fill_record_from_entry_def) (simp add: no_client_def)
  moreover have "MAX_KNOWN_CLIENTS - length (ks @ [at_rest k]) = d" using d by simp
  ultimately show ?thesis by (simp add: first_slots_def)
qed

lemma load_slots:
  assumes "first_slots (map at_rest ks) st" "length (ks @ ms) \<le> MAX_KNOWN_CLIENTS" "distinct (map kc_machine_uid (ks @ ms))" "\<forall>k \<in> set (ks @ ms). client_ok k \<and> kc_in_use k"
  shows "first_slots (map at_rest (ks @ ms)) (load_records (length ms) (concat (map (record_bytes \<circ> fill_record_from_entry) ms)) st)"
  using assms
proof (induction ms arbitrary: ks st)
  case (Cons k ms)
  have k: "client_ok k" "kc_in_use k" using Cons.prems(4) by simp_all
  have "first_slots (map at_rest ks @ [at_rest k]) (apply_persisted_record (fill_record_from_entry k) st)"
  proof (rule apply_record_slots[OF Cons.prems(1) _ _ k])
    show "\<forall>k' \<in> set (map at_rest ks). kc_in_use k' \<and> kc_machine_uid k' \<noteq> kc_machine_uid k" using Cons.prems(3,4) by (auto simp: at_rest_def) (metis image_eqI)
  qed (use Cons.prems(2) in simp)
  then have "first_slots (map at_rest ((ks @ [k]) @ ms)) (load_records (length ms) (concat (map (record_bytes \<circ> fill_record_from_entry) ms)) (apply_persisted_record (fill_record_from_entry k) st))"
    by (intro Cons.IH) (use Cons.prems in simp_all)
  then show ?case using entry_roundtrip[OF k(1)] by (simp add: comp_def)
qed simp

text \<open>C26. The register of machines after any sequence of connections, statistics, disconnections and
  loads: machines are listed once; the three counters of a machine are its open sessions, in
  all and by role, and sessions are listed once; a connection never touches a machine that has
  open sessions, other than its own; a machine is refused only when all have open sessions, and one is
  forgotten only when the register is full, the least recently seen; statistics add to the
  machine what the counter of the session grew by, never less than nothing.\<close>

theorem known_clients_invariant:
  assumes "known_reach st"
  shows "distinct (map kc_machine_uid (filter kc_in_use (g_known_clients st)))
    \<and> (\<forall>i < MAX_KNOWN_CLIENTS. let k = g_known_clients st ! i; sessions = filter ks_in_use (kc_sessions k) in
         nb_active_sessions k = int (length sessions) \<and> nb_active_search k + nb_active_prune k = nb_active_sessions k
         \<and> nb_active_search k = int (length (filter (\<lambda>s. ks_mode s = CLIENT_MODE_SEARCH) sessions)) \<and> distinct (map ks_client_uid sessions))
    \<and> (\<forall>now who ip j. length (machine_uid who) = MACHINE_UID_BYTES \<longrightarrow> time_ok now \<longrightarrow>
         0 < nb_active_sessions (g_known_clients st ! j) \<longrightarrow> kc_machine_uid (g_known_clients st ! j) \<noteq> machine_uid who \<longrightarrow>
         g_known_clients (known_clients_registry_on_connect now (Some who) ip st) ! j = g_known_clients st ! j)
    \<and> (case allocate_machine_slot st of
         None \<Rightarrow> \<forall>j < MAX_KNOWN_CLIENTS. 0 < nb_active_sessions (g_known_clients st ! j)
       | Some (i, _) \<Rightarrow> nb_active_sessions (g_known_clients st ! i) = 0 \<and> (kc_in_use (g_known_clients st ! i) \<longrightarrow>
           (\<forall>j < MAX_KNOWN_CLIENTS. kc_in_use (g_known_clients st ! j) \<and>
              (nb_active_sessions (g_known_clients st ! j) = 0 \<longrightarrow> last_seen (g_known_clients st ! i) \<le> last_seen (g_known_clients st ! j)))))
    \<and> (\<forall>now m c s i j. find_machine_index m st = Some i \<longrightarrow> find_session_index (g_known_clients st ! i) c = Some j \<longrightarrow>
         (let k = g_known_clients st ! i; k' = g_known_clients (known_clients_registry_on_stats now (Some m) (Some c) (Some s) st) ! i;
              old = last_pruner_checked (kc_sessions k ! j); new = last_pruner_checked (kc_sessions k' ! j)
          in new = max old (pruner_checked s) \<and> total_pruner_checked k' = total_pruner_checked k + (new - old)))"
proof -
  note ok = known_reach_ok[OF assms]
  have role: "active (\<lambda>s. True) k = active (\<lambda>s. ks_mode s = CLIENT_MODE_SEARCH) k + active (\<lambda>s. ks_mode s \<noteq> CLIENT_MODE_SEARCH) k" for k
    using sum_length_filter_compl[of "\<lambda>s. ks_mode s = CLIENT_MODE_SEARCH" "filter ks_in_use (kc_sessions k)"] by (simp add: active_def conj_commute)
  have counts: "let k = g_known_clients st ! i; sessions = filter ks_in_use (kc_sessions k) in
         nb_active_sessions k = int (length sessions) \<and> nb_active_search k + nb_active_prune k = nb_active_sessions k
         \<and> nb_active_search k = int (length (filter (\<lambda>s. ks_mode s = CLIENT_MODE_SEARCH) sessions)) \<and> distinct (map ks_client_uid sessions)"
    if "i < MAX_KNOWN_CLIENTS" for i
    using known_okD[OF ok that] role[of "g_known_clients st ! i"] by (simp add: client_ok_def Let_def sessions_distinct_def active_def conj_commute)
  have pos: "0 \<le> nb_active_sessions (g_known_clients st ! j)" if "j < MAX_KNOWN_CLIENTS" for j
    using known_okD[OF ok that] by (simp add: client_ok_def active_def)
  have slot: "case allocate_machine_slot st of
         None \<Rightarrow> \<forall>j < MAX_KNOWN_CLIENTS. 0 < nb_active_sessions (g_known_clients st ! j)
       | Some (i, _) \<Rightarrow> nb_active_sessions (g_known_clients st ! i) = 0 \<and> (kc_in_use (g_known_clients st ! i) \<longrightarrow>
           (\<forall>j < MAX_KNOWN_CLIENTS. kc_in_use (g_known_clients st ! j) \<and>
              (nb_active_sessions (g_known_clients st ! j) = 0 \<longrightarrow> last_seen (g_known_clients st ! i) \<le> last_seen (g_known_clients st ! j))))"
    using allocate_spec[OF ok] pos by (auto simp: slot_for_def order_less_le split: option.splits)
  have "let k = g_known_clients st ! i; k' = g_known_clients (known_clients_registry_on_stats now (Some m) (Some c) (Some s) st) ! i;
              old = last_pruner_checked (kc_sessions k ! j); new = last_pruner_checked (kc_sessions k' ! j)
          in new = max old (pruner_checked s) \<and> total_pruner_checked k' = total_pruner_checked k + (new - old)"
    if "find_machine_index m st = Some i" "find_session_index (g_known_clients st ! i) c = Some j" for now m c s i j
  proof -
    note i = known_ok_machine[OF ok that(1)]
    let ?a = "add_pruned s j (g_known_clients st ! i)"
    have "g_known_clients (known_clients_registry_on_stats now (Some m) (Some c) (Some s) st) ! i
        = (if best_max_result ?a < cs_max_result s then ?a\<lparr>best_max_result := cs_max_result s\<rparr> else ?a)\<lparr>last_seen := now\<rparr>"
      using that i(1) ok by (simp add: known_clients_registry_on_stats_def Let_def)
    then show ?thesis using add_pruned_counts(1,2)[OF session_index[OF i(4) that(2), THEN conjunct1], of s] by (auto simp: Let_def algebra_simps)
  qed
  then show ?thesis using ok counts slot on_connect_spec[OF ok] unfolding known_ok_def by blast
qed

definition sample_known :: known_clients where
  "sample_known = known_clients_registry_on_connect 50 (Some (h_identity sample_hello)) None known_clients_init_once"

lemma sample_known_reach: "known_reach sample_known"
  unfolding sample_known_def
  by (rule known_reach.connect[OF known_reach.init]) (simp_all add: sample_hello_def MACHINE_UID_BYTES_def time_ok_def)

theorem known_clients_invariant_witness:
  "known_reach sample_known
    \<and> nb_active_search (g_known_clients sample_known ! 0) + nb_active_prune (g_known_clients sample_known ! 0) = nb_active_sessions (g_known_clients sample_known ! 0)
    \<and> distinct (map kc_machine_uid (filter kc_in_use (g_known_clients sample_known)))"
proof -
  have "0 < MAX_KNOWN_CLIENTS" by (simp add: MAX_KNOWN_CLIENTS_def MAX_CONTROL_SESSIONS_def)
  then show ?thesis using known_clients_invariant[OF sample_known_reach] sample_known_reach unfolding Let_def by blast
qed

text \<open>C27. A save is atomic: whatever fails, the file is the old one or the complete new one, and the answer
  tells which; loading the new one in an empty register gives the machines in their order, with
  texts, counters and times, and without sessions. A file that is absent or foreign changes nothing.\<close>

theorem known_clients_persist:
  assumes "known_reach st" "known_clients_registry_save env (Some name) st fs = (rc, fs')"
  shows "(rc = 0 \<and> fs' name = Some (registry_image st) \<or> rc = -1 \<and> fs' name = fs name)
    \<and> (rc = 0 \<longrightarrow> (\<exists>st'. known_clients_registry_load (Some name) fs' known_clients_init_once = (0, st')
         \<and> g_known_clients st' = map at_rest (filter kc_in_use (g_known_clients st)) @ replicate (MAX_KNOWN_CLIENTS - known_clients_registry_count st) no_client))
    \<and> ((case fs' name of None \<Rightarrow> True | Some b \<Rightarrow> length b < 8 \<or> get_u32 b \<noteq> KNOWN_CLIENTS_FILE_MAGIC) \<longrightarrow>
         (\<forall>other. known_clients_registry_load (Some name) fs' other = (-1, other)))"
proof -
  note ok = known_reach_ok[OF assms(1)]
  define ms where "ms = filter kc_in_use (g_known_clients st)"
  have tmp: "name \<noteq> name @ ''.tmp''" by simp
  have one: "rc = 0 \<and> fs' name = Some (registry_image st) \<or> rc = -1 \<and> fs' name = fs name"
    using assms(2) tmp by (auto simp: known_clients_registry_save_def Let_def split: if_splits)
  have len: "length ms \<le> MAX_KNOWN_CLIENTS" using ok length_filter_le[of kc_in_use "g_known_clients st"] by (simp add: ms_def known_ok_def)
  have img: "registry_image st = le_bytes 4 (unat KNOWN_CLIENTS_FILE_MAGIC) @ le_bytes 4 (unat (of_nat (length ms) :: u32)) @ concat (map (record_bytes \<circ> fill_record_from_entry) ms)"
    using len by (simp add: registry_image_def ms_def Let_def comp_def MAX_KNOWN_CLIENTS_def MAX_CONTROL_SESSIONS_def unat_of_nat)
  have "first_slots (map at_rest ([] @ ms)) (load_records (length ms) (concat (map (record_bytes \<circ> fill_record_from_entry) ms)) known_clients_init_once)"
    by (rule load_slots) (use ok len in \<open>auto simp: first_slots_def known_clients_init_once_def ms_def known_ok_def\<close>)
  moreover have u: "unat (of_nat (length ms) :: u32) = length ms" using len by (simp add: MAX_KNOWN_CLIENTS_def MAX_CONTROL_SESSIONS_def unat_of_nat)
  moreover have "get_u32 (le_bytes 4 (length ms) @ rest) = of_nat (length ms)" for rest using get_u32_le[of "of_nat (length ms)"] by (simp add: u)
  ultimately have "\<exists>st'. known_clients_registry_load (Some name) fs' known_clients_init_once = (0, st')
         \<and> g_known_clients st' = map at_rest (filter kc_in_use (g_known_clients st)) @ replicate (MAX_KNOWN_CLIENTS - known_clients_registry_count st) no_client"
    if "fs' name = Some (registry_image st)"
    using that by (simp add: known_clients_registry_load_def img first_slots_def ms_def[symmetric] known_clients_registry_count_def)
  then show ?thesis using one by (auto simp: known_clients_registry_load_def split: option.splits)
qed

definition all_well :: save_answers where
  "all_well = \<lparr>records_allocated = True, name_allocated = True, opened = True, header_written = True, records_written = True, closed = True, renamed = True\<rparr>"

theorem known_clients_persist_witness:
  "\<exists>fs' st'. known_clients_registry_save all_well (Some ''known'') sample_known Map.empty = (0, fs')
    \<and> known_clients_registry_load (Some ''known'') fs' known_clients_init_once = (0, st')
    \<and> g_known_clients st' = map at_rest (filter kc_in_use (g_known_clients sample_known)) @ replicate (MAX_KNOWN_CLIENTS - known_clients_registry_count sample_known) no_client"
proof -
  obtain fs' where s: "known_clients_registry_save all_well (Some ''known'') sample_known Map.empty = (0, fs')"
    by (simp add: known_clients_registry_save_def all_well_def Let_def)
  then show ?thesis using known_clients_persist[OF sample_known_reach s] by blast
qed

end
