(* ===== verification/Spec2Isabelle.thy ===== *)
theory Spec2Isabelle
  imports Client_Steps Stock_Manager Stock_Tier Board_Properties Known_Clients
begin

text \<open>
  A verification library for eternityII, a distributed solver of an edge-matching puzzle: a
  server keeps a stock of partial boards, clients take them in batches, search or prune them
  and hand the rest back.

  \<^bold>\<open>The program and its parts.\<close> The puzzle and its pieces (\<open>src/core/part.c\<close>), positions and
  their expansion (\<open>src/core/possibility.c\<close>), the search engine and the steps of a client
  thread (\<open>src/core/etii_search.c\<close>), the compact form of a position (\<open>src/core/packet_codec.c\<close>),
  the queues (\<open>src/core/lifo.c\<close>), the stock manager of the server (\<open>src/core/datamanager.c\<close>), the
  compact tier of the stock (\<open>src/core/stock_tier.c\<close>) and its event counters
  (\<open>src/core/stock_rate.c\<close>), what clients announce of themselves (\<open>src/net/client_identity.c\<close>,
  \<open>src/net/control_protocol.c\<close>) and the control sessions by which the server commands them
  (\<open>src/app/control_registry.c\<close>), and the register of the machines it has seen
  (\<open>src/app/known_clients_registry.c\<close>). The board side is a compile-time constant of the
  program; every definition takes it as its first argument \<open>n\<close>, and the theorems hold for all
  sizes the program supports.

  \<^bold>\<open>Theories.\<close>
  \<^item> \<open>Etii_Prelude\<close>: machine words, the sizes that depend on the board side, lemmas on lists and
    words shared by the components.
  \<^item> \<open>Parts\<close> (\<open>rotatePart\<close>, \<open>rotate_all_parts\<close>, \<open>sort_compartment_by_exposed_rarity\<close>) and
    \<open>Lookup_Table\<close> (\<open>buildBigArray\<close>, the flat, the packed and the masked lookups): each
    lookup returns exactly the rotated pieces that fit a key. The locale \<open>candidate_table\<close> states
    this contract once; both lookups are interpretations of it.
  \<^item> \<open>Geometry\<close>, \<open>Face_Used\<close>, \<open>Packet\<close>: the enumeration order of the cells, the bit sets of used
    pieces (with their own locale and two interpretations), the record of a position.
  \<^item> \<open>Puzzle\<close>: what the solver is about. \<open>solution\<close> is a full board that obeys the rules,
    \<open>completions n R g\<close> the solutions that extend the cells \<open>g\<close>, \<open>board_ok\<close> the invariant of a
    legal position. Every theorem on searching, pruning and handing over is stated with
    \<open>completions\<close>.
  \<^item> \<open>Expansion\<close>: the fixpoint of forced cells, the choice of the most constrained cell, the
    expansion of a position with and without pruning, the bounded look-ahead. \<open>Board_Properties\<close>:
    checking, generating and comparing positions.
  \<^item> \<open>Packet_Codec\<close>, \<open>Codec_Records\<close>: the compact records, in memory, canonicalised in place and in
    a file; a byte list is a buffer, an access outside it an explicit error.
  \<^item> \<open>Engine_State\<close>, \<open>Engine_Choice\<close>: the incremental caches of the search (keys, masks, frontier,
    used pieces) and the decisions taken from them; each fast path is shown equal to its plain
    form. \<open>Search_Engine\<close>: the decision stack, delegation and the search loop, one definition
    per block of the C function, the loop as a partial function in the option monad.
    \<open>Search_Correct\<close>: what each operation does to the work of a stack. \<open>Search_Runs\<close>: total
    correctness of the loop. \<open>Engine_Properties\<close>: the properties of the caches as a state
    machine. The locale \<open>fair_loop\<close> (theory \<open>Fair_Loops\<close>) states when a loop over turns that may
    pause returns; it is interpreted on the search, on the search under a small budget, on the
    pruning loop and on the loop that tries the locks of the queues in turn.
  \<^item> \<open>Client_Steps\<close>: \<open>autosearch_step\<close> and \<open>autoprune_step\<close>, which compose the search, the
    fixpoint and the batches handed to the server.
  \<^item> \<open>Lifo\<close>: the doubly linked queue on an explicit heap of 64-bit addresses; undefined behaviour
    is \<open>None\<close>. The locale \<open>two_ended_queue\<close> is its abstract contract.
  \<^item> The stock manager, each queue a list by the refinement of \<open>Lifo\<close>. \<open>Stock_Pools\<close>: insertion and
    extraction under a memory limit; the answers of \<open>trylock\<close> and \<open>malloc\<close> are an argument, and a
    position is lost for each failed allocation, which the theorems count. \<open>Stock_Analysed\<close>: the positions in the hands of clients and their hash index.
    \<open>Stock_Moves\<close>: rebalancing, draining and refilling. \<open>Stock_Leases\<close>: reclaiming expired
    positions, purging their descendants, returning everything to the stock, acknowledging the
    queue of a thread to its server. \<open>Stock_Manager\<close>: the
    operations as a step relation, with an invariant of all reachable states.
  \<^item> \<open>Net_Codecs\<close>: the payloads of identities, greetings and statistics, the hexadecimal form, the
    classes of commands. \<open>Control_Registry\<close>: the sessions, a ring of sixteen commands each, wished
    states and targets; the locale \<open>bounded_fifo\<close> is the contract of the ring and is interpreted
    on it. \<open>Known_Clients\<close>: machines, their sessions and counters, and the file that keeps them.
  \<^item> \<open>Stock_Tier\<close>: blocks of records, compressed by a library that is a parameter, on stacks with a
    mark; \<open>Stock_Rate\<close>: rings of buckets over three windows.
  \<^item> \<open>Sample\<close>: a 4x4 puzzle on which the hypotheses of the properties are shown to hold.

  \<^bold>\<open>What the theorems show.\<close> Where solutions can and cannot be lost. The expansion cuts the
  completions of a position exactly and disjointly; pruning, look-aheads and the cell choice drop
  only positions without completion; the search of a client returns when pauses do not last
  for ever and accounts for every completion of its root, whatever it delegated, flushed or
  abandoned. The two steps of a client thread lose of a batch only what lies in packets that the
  server refused, which the code frees; if it refuses none, and a stop request is not overwritten,
  they lose nothing. The stock is given each pool's share whole or not at all and loses one
  position for every allocation that fails, on insertion as on extraction, without reporting it.
  When allocations succeed and no queue stays locked, moves keep the positions, and the purge after
  an expired lease drops only descendants of what returns to the stock. The invariant of the
  manager holds whatever allocations fail. Data structures refine
  their specification: the lookups, the caches, the queue, the stacks of blocks, the windows,
  the rings of commands. Encodings come back: records, files, blocks, payloads. Errors found in the sources are stated as
  theorems where they can be (\<open>packet_codec_decode_overflows\<close>, \<open>put_to_pool_false_refusal\<close>,
  \<open>rebalance_never_rests\<close>, and the lemmas \<open>compare_possibility_null_inverted\<close> and
  \<open>save_solution_csv_last_piece\<close>).

  \<^bold>\<open>Bounds and termination.\<close> No fuel is used. Loops that may run for ever in C are partial
  functions whose results are proved to exist: the fixpoint because each repeated pass fills a
  cell, the search because a weight of the stack (candidates left, times powers of the size
  of the table) decreases at every turn that is not a pause, the pruning loop by the packets left.
  Words keep their width where the code relies on it; counters of events that cannot overflow
  in practice are natural numbers with the reduction written out.

  \<^bold>\<open>Outside the model.\<close> The environment (requests, clock, hunger of the server, answers to a batch,
  allocations) enters as arguments; the theorems hold for all of them, under named hypotheses
  such as fairness of pauses and a stop request that stays. Threads are modelled one at a
  time: mutexes, atomics and races are not. Of the stock manager, sorting, imports, expansion
  passes and duplicate checks are left out. Disk spilling and backups, sockets and the
  dialogue of the server with a connection, configuration, the console and process management
  are not modelled: they are mostly input and output, threads and files around the parts above.
  Benchmarks, the GPU pruner and the exit on the first solution are left out of the search.
  Simplifications: faces and keys are unbounded integers (the code has 8-bit faces; no face of a
  real puzzle comes near 127); a turn of the search reads the request once, where the code reads
  the same variable twice; a control thread that waits for a command sees those queued before,
  not one posted while it sleeps; the array in which an extraction returns its positions is taken
  to be allocated, as the code does not test it.
\<close>

end
